(* ===== verification/Prelude.thy ===== *)
theory Prelude
  imports Main "HOL-Library.AList" "HOL-Library.Multiset"
begin

text \<open>
  Shared vocabulary of the development: JavaScript numbers as the code uses them (safe
  integers, \<open>Math.floor\<close>, \<open>Math.ceil\<close>), the \<open>KEY_PART\<close> shape every store key part is
  checked against, sums of monotone sequences, order statistics of a finite map of scores,
  and the named theorem collections of the component theories.
\<close>

named_theorems policy_simps \<open>unfolding rules of the shipped policies\<close>
named_theorems script_simps \<open>unfolding rules of the store scripts\<close>

type_synonym key = string
type_synonym ms = int

subsection \<open>JavaScript numbers\<close>

text \<open>
  Counts and times are JavaScript numbers that the code checks with \<open>Number.isSafeInteger\<close>
  before it uses them: they are \<open>int\<close>s here, and the check keeps its bound.
\<close>

definition MAX_SAFE_INTEGER :: int where
  "MAX_SAFE_INTEGER = 9007199254740991"

definition isSafeInteger :: "int \<Rightarrow> bool" where
  "isSafeInteger i \<longleftrightarrow> - MAX_SAFE_INTEGER \<le> i \<and> i \<le> MAX_SAFE_INTEGER"

text \<open>\<open>Math.floor(a / b)\<close> and \<open>Math.ceil(a / b)\<close> for whole \<open>a\<close> and positive whole \<open>b\<close>.\<close>

definition floor_div :: "int \<Rightarrow> int \<Rightarrow> int" where
  "floor_div a b = a div b"

definition ceil_div :: "int \<Rightarrow> int \<Rightarrow> int" where
  "ceil_div a b = - ((- a) div b)"

lemma ceil_div_bounds:
  assumes "0 < b"
  shows "a \<le> ceil_div a b * b" and "ceil_div a b * b < a + b"
proof -
  have eq: "ceil_div a b * b = a + (- a) mod b"
    using div_mult_mod_eq[of "- a" b] unfolding ceil_div_def by (simp only: mult_minus_left)
  have "0 \<le> (- a) mod b" and "(- a) mod b < b" using assms by simp_all
  with eq show "a \<le> ceil_div a b * b" and "ceil_div a b * b < a + b" by linarith+
qed

lemma ceil_div_pos: "0 < b \<Longrightarrow> 0 < a \<Longrightarrow> 1 \<le> ceil_div a b"
  using ceil_div_bounds(1)[of b a]
  by (smt (verit) mult_nonneg_nonpos mult.commute)

subsection \<open>Store key parts\<close>

text \<open>\<open>KEY_PART = /^[A-Za-z0-9_-]{1,64}$/\<close>: what a part of a store key may hold.\<close>

definition key_char :: "char \<Rightarrow> bool" where
  "key_char c \<longleftrightarrow> c \<in> set ''ABCDEFGHIJKLMNOPQRSTUVWXYZabcdefghijklmnopqrstuvwxyz0123456789_-''"

definition KEY_PART :: "string \<Rightarrow> bool" where
  "KEY_PART s \<longleftrightarrow> 1 \<le> length s \<and> length s \<le> 64 \<and> list_all key_char s"

lemma key_char_not_special:
  "key_char c \<Longrightarrow> c \<noteq> CHR '':'' \<and> c \<noteq> CHR ''{'' \<and> c \<noteq> CHR ''}''"
  by (auto simp: key_char_def)

lemma KEY_PART_no_colon: "KEY_PART s \<Longrightarrow> CHR '':'' \<notin> set s"
  by (auto simp: KEY_PART_def list_all_iff dest: key_char_not_special)

lemma KEY_PART_no_close: "KEY_PART s \<Longrightarrow> CHR ''}'' \<notin> set s"
  by (auto simp: KEY_PART_def list_all_iff dest: key_char_not_special)

text \<open>Splitting at the first separator: a part that holds no separator is determined.\<close>

lemma append_sep_inject:
  assumes "x \<notin> set a" and "x \<notin> set b" and "a @ x # c = b @ x # d"
  shows "a = b \<and> c = d"
  using assms
proof (induction a arbitrary: b)
  case Nil
  then show ?case by (cases b) auto
next
  case (Cons y a)
  then obtain b' where "b = y # b'" by (cases b) auto
  with Cons show ?case by auto
qed

subsection \<open>Decimal numerals and splitting\<close>

definition digit_char :: "nat \<Rightarrow> char" where
  "digit_char d = ''0123456789'' ! d"

fun dec :: "nat \<Rightarrow> string" where
  "dec n = (if n < 10 then [digit_char n] else dec (n div 10) @ [digit_char (n mod 10)])"

declare dec.simps [simp del]

definition digit_val :: "char \<Rightarrow> nat option" where
  "digit_val c = (case filter (\<lambda>d. digit_char d = c) [0..<10] of [] \<Rightarrow> None | d # _ \<Rightarrow> Some d)"

text \<open>A string of decimal digits as a number; \<open>None\<close> for anything else.\<close>

definition undec :: "string \<Rightarrow> nat option" where
  "undec s = (if s = '''' \<or> (\<exists>c \<in> set s. digit_val c = None) then None
     else Some (foldl (\<lambda>n c. 10 * n + the (digit_val c)) 0 s))"

lemma digit_val_char: "d < 10 \<Longrightarrow> digit_val (digit_char d) = Some d"
proof -
  assume "d < 10"
  then have "d \<in> set [0, 1, 2, 3, 4, 5, 6, 7, 8, 9]" by auto
  then show ?thesis by (auto simp: digit_val_def digit_char_def upt_rec)
qed

lemma dec_digits: "dec n \<noteq> '''' \<and> (\<forall>c \<in> set (dec n). \<exists>d < 10. c = digit_char d)"
proof (induction n rule: dec.induct)
  case (1 n)
  show ?case
  proof (cases "n < 10")
    case True
    then show ?thesis by (auto simp: dec.simps[of n])
  next
    case False
    with 1 show ?thesis by (auto simp: dec.simps[of n] intro: exI[of _ "n mod 10"])
  qed
qed

lemma dec_value: "foldl (\<lambda>n c. 10 * n + the (digit_val c)) 0 (dec n) = n"
proof (induction n rule: dec.induct)
  case (1 n)
  then show ?case by (cases "n < 10") (auto simp: dec.simps[of n] digit_val_char)
qed

lemma undec_dec [simp]: "undec (dec n) = Some n"
  using dec_digits[of n] dec_value[of n] by (auto simp: undec_def digit_val_char)

lemma digit_char_not_colon: "d < 10 \<Longrightarrow> digit_char d \<noteq> CHR '':''"
proof -
  assume "d < 10"
  then have "d \<in> set [0, 1, 2, 3, 4, 5, 6, 7, 8, 9]" by auto
  then show ?thesis by (auto simp: digit_char_def)
qed

lemma dec_no_colon: "CHR '':'' \<notin> set (dec n)"
  using dec_digits[of n] digit_char_not_colon by fastforce

text \<open>JavaScript's \<open>split\<close> on a one-character separator.\<close>

fun split_on :: "char \<Rightarrow> string \<Rightarrow> string list" where
  "split_on c [] = [[]]"
| "split_on c (x # xs) =
     (if x = c then [] # split_on c xs
      else (case split_on c xs of [] \<Rightarrow> [[x]] | y # ys \<Rightarrow> (x # y) # ys))"

lemma split_on_part: "c \<notin> set a \<Longrightarrow> split_on c a = [a]"
  by (induction a) auto

lemma split_on_append: "c \<notin> set a \<Longrightarrow> split_on c (a @ c # b) = a # split_on c b"
  by (induction a) auto

text \<open>What stands before the first colon and after the last one.\<close>

definition after_last_colon :: "string \<Rightarrow> string" where
  "after_last_colon s = rev (takeWhile (\<lambda>c. c \<noteq> CHR '':'') (rev s))"

lemma takeWhile_part: "CHR '':'' \<notin> set a \<Longrightarrow> takeWhile (\<lambda>c. c \<noteq> CHR '':'') (a @ CHR '':'' # b) = a"
  by (subst takeWhile_append2) (auto simp: takeWhile_tail)

lemma dropWhile_part: "CHR '':'' \<notin> set a \<Longrightarrow> dropWhile (\<lambda>c. c \<noteq> CHR '':'') (a @ CHR '':'' # b) = CHR '':'' # b"
  by (subst dropWhile_append2) auto

lemma after_last_colon_part:
  assumes "CHR '':'' \<notin> set b"
  shows "after_last_colon (a @ CHR '':'' # b) = b"
  using takeWhile_part[of "rev b" "rev a"] assms by (simp add: after_last_colon_def)

subsection \<open>Sums of monotone sequences\<close>

lemma sum_int_Suc:
  fixes w :: "int \<Rightarrow> int"
  assumes "a \<le> n"
  shows "(\<Sum>i = a..<n + 1. w i) = (\<Sum>i = a..<n. w i) + w n"
proof -
  have "{a..<n + 1} = insert n {a..<n}" using assms by auto
  then show ?thesis by simp
qed

lemma sum_int_split:
  fixes w :: "int \<Rightarrow> int"
  assumes "a \<le> m" and "m \<le> n"
  shows "(\<Sum>i = a..<n. w i) = (\<Sum>i = a..<m. w i) + (\<Sum>i = m..<n. w i)"
proof -
  have "{a..<n} = {a..<m} \<union> {m..<n}" using assms by auto
  moreover have "{a..<m} \<inter> {m..<n} = {}" by auto
  ultimately show ?thesis by (simp add: sum.union_disjoint)
qed

lemma sum_int_Suc_le:
  fixes w :: "int \<Rightarrow> int"
  assumes "\<And>i. 0 \<le> w i"
  shows "(\<Sum>i = a..<n. w i) \<le> (\<Sum>i = a..<n + 1. w i)"
  by (rule sum_mono2) (auto simp: assms)

lemma length_filter_imp:
  "(\<And>x. x \<in> set xs \<Longrightarrow> P x \<Longrightarrow> Q x) \<Longrightarrow> length (filter P xs) \<le> length (filter Q xs)"
  by (induction xs) (auto simp: le_SucI)

subsection \<open>Scores: finite maps from members to numbers\<close>

text \<open>
  A sorted set is a finite map from members to scores. \<open>newer z lo\<close> is the set of members
  scored above \<open>lo\<close>; a sliding window of the log is such a set.
\<close>

definition newer :: "('m \<rightharpoonup> int) \<Rightarrow> int \<Rightarrow> 'm set" where
  "newer z lo = {m. \<exists>x. z m = Some x \<and> lo < x}"

definition keep_newer :: "('m \<rightharpoonup> int) \<Rightarrow> int \<Rightarrow> ('m \<rightharpoonup> int)" where
  "keep_newer z lo = (\<lambda>m. case z m of None \<Rightarrow> None | Some x \<Rightarrow> if x \<le> lo then None else Some x)"

lemma newer_subset_dom: "newer z lo \<subseteq> dom z"
  by (auto simp: newer_def)

lemma finite_newer [simp]: "finite (dom z) \<Longrightarrow> finite (newer z lo)"
  by (rule finite_subset[OF newer_subset_dom])

lemma newer_antimono: "lo \<le> hi \<Longrightarrow> newer z hi \<subseteq> newer z lo"
  by (auto simp: newer_def)

lemma dom_keep_newer [simp]: "dom (keep_newer z lo) = newer z lo"
  by (auto simp: keep_newer_def newer_def split: option.splits if_splits)

lemma newer_keep_newer: "newer (keep_newer z lo) lo' = newer z (max lo lo')"
  by (auto simp: keep_newer_def newer_def split: option.splits if_splits)

lemma keep_newer_eq_Some: "keep_newer z lo m = Some x \<longleftrightarrow> z m = Some x \<and> lo < x"
  by (auto simp: keep_newer_def split: option.splits if_splits)

lemma newer_upd:
  "m \<notin> dom z \<Longrightarrow> newer (z(m \<mapsto> x)) lo = (if lo < x then insert m (newer z lo) else newer z lo)"
  by (auto simp: newer_def)

lemma card_newer_upd:
  assumes "finite (dom z)" and "m \<notin> dom z"
  shows "card (newer (z(m \<mapsto> x)) lo) = card (newer z lo) + (if lo < x then 1 else 0)"
proof -
  have "m \<notin> newer z lo" using assms(2) newer_subset_dom by fastforce
  with assms show ?thesis by (simp add: newer_upd)
qed


subsection \<open>JavaScript text and lists\<close>

text \<open>\<open>\\s\<close> and \<open>toLowerCase\<close> on ASCII text.\<close>

definition is_space :: "char \<Rightarrow> bool" where
  "is_space c \<longleftrightarrow> c = CHR '' '' \<or> (of_char c :: nat) \<in> {9, 10, 11, 12, 13}"

definition to_lower :: "char \<Rightarrow> char" where
  "to_lower c = (let n = of_char c :: nat in if 65 \<le> n \<and> n \<le> 90 then char_of (n + 32) else c)"

text \<open>The pattern of a lower-case UUID.\<close>

definition hex_lower :: "char \<Rightarrow> bool" where
  "hex_lower c \<longleftrightarrow> (let n = of_char c :: nat in (48 \<le> n \<and> n \<le> 57) \<or> (97 \<le> n \<and> n \<le> 102))"

definition UUID :: "string \<Rightarrow> bool" where
  "UUID s \<longleftrightarrow> length s = 36 \<and> list_all (\<lambda>(i, c). if i \<in> {8, 13, 18, 23} then c = CHR ''-'' else hex_lower c) (zip [0..<36] s)"

text \<open>\<open>split(/\\s+/).filter((s) => s.length > 0)\<close> and \<open>join(' ')\<close>.\<close>

fun js_words :: "string \<Rightarrow> string list" where
  "js_words [] = []"
| "js_words (c # cs) =
     (if is_space c then js_words cs
      else case cs of
             [] \<Rightarrow> [[c]]
           | d # _ \<Rightarrow> if is_space d then [c] # js_words cs
               else (case js_words cs of [] \<Rightarrow> [[c]] | w # ws \<Rightarrow> (c # w) # ws))"

fun js_join :: "string list \<Rightarrow> string" where
  "js_join [] = []"
| "js_join [w] = w"
| "js_join (w # ws) = w @ CHR '' '' # js_join ws"

text \<open>A \<open>Set\<close> built from a list keeps the first of equal elements.\<close>

definition dedup :: "'a list \<Rightarrow> 'a list" where
  "dedup xs = rev (remdups (rev xs))"

lemma set_dedup [simp]: "set (dedup xs) = set xs"
  by (simp add: dedup_def)

lemma distinct_dedup [simp]: "distinct (dedup xs)"
  by (simp add: dedup_def)

lemma dedup_distinct: "distinct xs \<Longrightarrow> dedup xs = xs"
  by (simp add: dedup_def distinct_remdups_id)

definition word_text :: "string \<Rightarrow> bool" where
  "word_text w \<longleftrightarrow> w \<noteq> [] \<and> list_all (\<lambda>c. \<not> is_space c) w"

lemma js_words_word: "word_text w \<Longrightarrow> js_words w = [w]"
proof (induction w)
  case (Cons c w)
  then show ?case by (cases w) (auto simp: word_text_def)
qed (simp add: word_text_def)

lemma js_words_append: "word_text w \<Longrightarrow> js_words (w @ CHR '' '' # ws) = w # js_words ws"
proof (induction w)
  case (Cons c w)
  have "is_space (CHR '' '')" by (simp add: is_space_def)
  with Cons show ?case by (cases w) (auto simp: word_text_def)
qed (simp add: word_text_def)

lemma js_words_join: "list_all word_text ws \<Longrightarrow> js_words (js_join ws) = ws"
  by (induction ws rule: js_join.induct) (auto simp: js_words_word js_words_append)

end
