(* ===== verification/Ladder.thy ===== *)
theory Ladder
  imports Prelude
begin

text \<open>
  The failure ladder's rules (\<open>libs/server/sign-in-engine/src/lib/ladder.ts\<close>): the policy
  record, the shipped policies, the wait a failure sets, the sum of the waits of a run and
  the check every policy passes before a store runs it. The lemmas show that the waits never
  shrink, that the loop with its shortcut computes the plain sum, and what a checked policy
  guarantees.
\<close>

record ladder_policy =
  freeFailures :: int
  firstWaitMs :: ms
  maxWaitMs :: ms
  hardCeiling :: "int option"
  knownIpMs :: ms
  knownIpFreeFailures :: int
  retentionMs :: ms
  freeRetentionMs :: ms
  onSuccess :: string

definition DAY_MS :: ms where
  "DAY_MS = 86400000"

definition PASSWORD_LADDER_POLICY :: ladder_policy where
  "PASSWORD_LADDER_POLICY = \<lparr>freeFailures = 5, firstWaitMs = 1000, maxWaitMs = 15 * 60000,
    hardCeiling = Some 100, knownIpMs = 30 * DAY_MS, knownIpFreeFailures = 20,
    retentionMs = 30 * DAY_MS, freeRetentionMs = 2 * DAY_MS, onSuccess = ''clear''\<rparr>"

definition EMAIL_CODE_LADDER_POLICY :: ladder_policy where
  "EMAIL_CODE_LADDER_POLICY = \<lparr>freeFailures = 5, firstWaitMs = 1000, maxWaitMs = 15 * 60000,
    hardCeiling = None, knownIpMs = 30 * DAY_MS, knownIpFreeFailures = 20,
    retentionMs = 30 * DAY_MS, freeRetentionMs = 2 * DAY_MS, onSuccess = ''clear''\<rparr>"

definition RECOVERY_CODE_LADDER_POLICY :: ladder_policy where
  "RECOVERY_CODE_LADDER_POLICY = \<lparr>freeFailures = 5, firstWaitMs = 1000, maxWaitMs = 15 * 60000,
    hardCeiling = Some 100, knownIpMs = 0, knownIpFreeFailures = 0,
    retentionMs = 30 * DAY_MS, freeRetentionMs = 30 * DAY_MS, onSuccess = ''clear''\<rparr>"

definition TOTP_LADDER_POLICY :: ladder_policy where
  "TOTP_LADDER_POLICY = \<lparr>freeFailures = 5, firstWaitMs = 1000, maxWaitMs = 15 * 60000,
    hardCeiling = Some 100, knownIpMs = 0, knownIpFreeFailures = 0,
    retentionMs = 30 * DAY_MS, freeRetentionMs = 30 * DAY_MS, onSuccess = ''clear''\<rparr>"

lemmas ladder_policies [policy_simps] = DAY_MS_def PASSWORD_LADDER_POLICY_def
  EMAIL_CODE_LADDER_POLICY_def RECOVERY_CODE_LADDER_POLICY_def TOTP_LADDER_POLICY_def

definition MAX_DOUBLINGS :: int where
  "MAX_DOUBLINGS = 40"

definition ladderWaitMs :: "int \<Rightarrow> ladder_policy \<Rightarrow> ms" where
  "ladderWaitMs failures policy =
     (if failures < freeFailures policy then 0
      else let doublings = failures - freeFailures policy
           in if doublings \<ge> MAX_DOUBLINGS then maxWaitMs policy
              else min (firstWaitMs policy * 2 ^ nat doublings) (maxWaitMs policy))"

text \<open>The loop of \<open>waitsBetween\<close>: \<open>for (; n < to && n < capped; n += 1) total += ladderWaitMs(n)\<close>.\<close>

function waitsBetween_loop :: "ladder_policy \<Rightarrow> int \<Rightarrow> int \<Rightarrow> int \<Rightarrow> ms \<Rightarrow> int \<times> ms" where
  "waitsBetween_loop policy to capped n acc =
     (if n < to \<and> n < capped
      then waitsBetween_loop policy to capped (n + 1) (acc + ladderWaitMs n policy)
      else (n, acc))"
  by pat_completeness auto
termination
  by (relation "measure (\<lambda>(policy, to, capped, n, acc). nat (to - n))") auto

declare waitsBetween_loop.simps [simp del]

definition waitsBetween :: "int \<Rightarrow> int \<Rightarrow> ladder_policy \<Rightarrow> ms" where
  "waitsBetween start to policy =
     (let capped = freeFailures policy + MAX_DOUBLINGS;
          (n, acc) = waitsBetween_loop policy to capped (max start (freeFailures policy)) 0
      in if to > n then acc + (to - n) * maxWaitMs policy else acc)"

datatype ladder_error =
    FreeFailuresBelow1
  | FirstWaitBelow1
  | MaxWaitBelowFirst
  | HardCeilingBelowFree
  | KnownIpMsNotATime
  | KnownIpFreeNotACount
  | KnownIpSkipsTooMuch
  | RetentionBelowMaxWait
  | FreeRetentionBelowWaits
  | FreeRetentionMoreTries
  | FreeRetentionAboveRetention
  | OnSuccessUnknown

definition whole :: "int \<Rightarrow> int \<Rightarrow> bool" where
  "whole value least \<longleftrightarrow> isSafeInteger value \<and> value \<ge> least"

text \<open>The known-IP failures a run can let skip the wait: \<open>skippable\<close> of \<open>checkLadderPolicy\<close>.\<close>

definition skippable :: "ladder_policy \<Rightarrow> int" where
  "skippable policy =
     (if knownIpMs policy > 0
      then min (knownIpFreeFailures policy) (case hardCeiling policy of None \<Rightarrow> 0 | Some c \<Rightarrow> c)
      else 0)"

definition checkLadderPolicy :: "ladder_policy \<Rightarrow> ladder_error + ladder_policy" where
  "checkLadderPolicy p =
     (if \<not> whole (freeFailures p) 1 then Inl FreeFailuresBelow1
      else if \<not> whole (firstWaitMs p) 1 then Inl FirstWaitBelow1
      else if \<not> whole (maxWaitMs p) (firstWaitMs p) then Inl MaxWaitBelowFirst
      else if (case hardCeiling p of None \<Rightarrow> False | Some c \<Rightarrow> \<not> whole c (freeFailures p))
        then Inl HardCeilingBelowFree
      else if \<not> whole (knownIpMs p) 0 then Inl KnownIpMsNotATime
      else if \<not> whole (knownIpFreeFailures p) 0 then Inl KnownIpFreeNotACount
      else if (case hardCeiling p of None \<Rightarrow> False | Some c \<Rightarrow>
          waitsBetween 0 (c - skippable p) p < waitsBetween (c - skippable p) c p)
        then Inl KnownIpSkipsTooMuch
      else if \<not> whole (retentionMs p) (maxWaitMs p) then Inl RetentionBelowMaxWait
      else if \<not> whole (freeRetentionMs p) (max (maxWaitMs p) ((freeFailures p - 1) * maxWaitMs p))
        then Inl FreeRetentionBelowWaits
      else if (case hardCeiling p of None \<Rightarrow> False | Some c \<Rightarrow>
          (freeFailures p - 1) * retentionMs p > (c - 1) * freeRetentionMs p)
        then Inl FreeRetentionMoreTries
      else if freeRetentionMs p > retentionMs p then Inl FreeRetentionAboveRetention
      else if onSuccess p \<noteq> ''clear'' \<and> onSuccess p \<noteq> ''withdraw'' then Inl OnSuccessUnknown
      else Inr p)"

subsection \<open>The wait\<close>

lemma ladderWaitMs_nonneg:
  "0 \<le> firstWaitMs p \<Longrightarrow> 0 \<le> maxWaitMs p \<Longrightarrow> 0 \<le> ladderWaitMs n p"
  by (simp add: ladderWaitMs_def Let_def)

lemma ladderWaitMs_le_max: "0 \<le> maxWaitMs p \<Longrightarrow> ladderWaitMs n p \<le> maxWaitMs p"
  by (simp add: ladderWaitMs_def Let_def)

lemma ladderWaitMs_mono:
  assumes "0 \<le> firstWaitMs p" and "0 \<le> maxWaitMs p" and "m \<le> n"
  shows "ladderWaitMs m p \<le> ladderWaitMs n p"
proof (cases "n < freeFailures p + MAX_DOUBLINGS")
  case True
  show ?thesis
  proof (cases "m < freeFailures p")
    case True
    then show ?thesis using ladderWaitMs_nonneg[OF assms(1,2)] by (simp add: ladderWaitMs_def)
  next
    case False
    have "(2::int) ^ nat (m - freeFailures p) \<le> 2 ^ nat (n - freeFailures p)"
      using assms(3) by (intro power_increasing) auto
    then have "firstWaitMs p * 2 ^ nat (m - freeFailures p) \<le> firstWaitMs p * 2 ^ nat (n - freeFailures p)"
      using assms(1) by (rule mult_left_mono)
    with False True assms(3) show ?thesis by (auto simp: ladderWaitMs_def Let_def)
  qed
next
  case False
  then have "ladderWaitMs n p = maxWaitMs p"
    by (auto simp: ladderWaitMs_def Let_def MAX_DOUBLINGS_def)
  then show ?thesis using ladderWaitMs_le_max[OF assms(2)] by simp
qed

subsection \<open>The sum of the waits\<close>

lemma waitsBetween_loop_sum:
  "waitsBetween_loop p to capped n acc =
     (let n' = max n (min to capped) in (n', acc + (\<Sum>i = n..<n'. ladderWaitMs i p)))"
proof (induction p to capped n acc rule: waitsBetween_loop.induct)
  case (1 p to capped n acc)
  show ?case
  proof (cases "n < to \<and> n < capped")
    case True
    let ?m = "min to capped"
    from True have "{n..<?m} = insert n {n + 1..<?m}" by auto
    with True show ?thesis
      using 1 by (simp add: waitsBetween_loop.simps[of p to capped n] Let_def max_def)
  next
    case False
    then have "max n (min to capped) = n" by auto
    with False show ?thesis by (auto simp: waitsBetween_loop.simps[of p to capped n] Let_def)
  qed
qed

lemma sum_ladderWaitMs_below_free:
  "(\<Sum>i = a..<b. ladderWaitMs i p) = (\<Sum>i = max a (freeFailures p)..<b. ladderWaitMs i p)"
  by (rule sum.mono_neutral_right) (auto simp: ladderWaitMs_def)

lemma sum_ladderWaitMs_capped:
  assumes "freeFailures p + MAX_DOUBLINGS \<le> a" and "a \<le> b"
  shows "(\<Sum>i = a..<b. ladderWaitMs i p) = (b - a) * maxWaitMs p"
proof -
  have "(\<Sum>i = a..<b. ladderWaitMs i p) = (\<Sum>i = a..<b. maxWaitMs p)"
    by (rule sum.cong) (use assms(1) in \<open>auto simp: ladderWaitMs_def Let_def MAX_DOUBLINGS_def\<close>)
  then show ?thesis using assms(2) by simp
qed

lemma waitsBetween_eq_sum: "waitsBetween a b p = (\<Sum>i = a..<b. ladderWaitMs i p)"
proof -
  define s where "s = max a (freeFailures p)"
  define c where "c = freeFailures p + MAX_DOUBLINGS"
  define n where "n = max s (min b c)"
  have "(\<Sum>i = s..<b. ladderWaitMs i p) =
      (\<Sum>i = s..<n. ladderWaitMs i p) + (if b > n then (b - n) * maxWaitMs p else 0)"
  proof (cases "b > n")
    case True
    then have "c \<le> n" and "s \<le> n" and "n \<le> b" by (auto simp: n_def)
    with True show ?thesis
      using sum_int_split[of s n b "\<lambda>i. ladderWaitMs i p"] sum_ladderWaitMs_capped[of p n b]
      by (simp add: c_def)
  next
    case False
    then have "b = n \<or> (b \<le> s \<and> n = s)" by (auto simp: n_def max_def min_def split: if_splits)
    with False show ?thesis by auto
  qed
  moreover have "waitsBetween a b p =
      (\<Sum>i = s..<n. ladderWaitMs i p) + (if b > n then (b - n) * maxWaitMs p else 0)"
    by (simp add: waitsBetween_def waitsBetween_loop_sum Let_def s_def c_def n_def)
  ultimately show ?thesis by (simp add: sum_ladderWaitMs_below_free[of p a b] s_def)
qed

subsection \<open>What a checked policy guarantees\<close>

lemma checkLadderPolicy_Inr: "checkLadderPolicy p = Inr q \<Longrightarrow> q = p"
  by (auto simp: checkLadderPolicy_def split: if_splits)

lemma checkLadderPolicy_bounds:
  assumes "checkLadderPolicy p = Inr q"
  shows "1 \<le> freeFailures p" and "1 \<le> firstWaitMs p" and "firstWaitMs p \<le> maxWaitMs p"
    and "0 \<le> knownIpMs p" and "0 \<le> knownIpFreeFailures p"
    and "maxWaitMs p \<le> freeRetentionMs p" and "freeRetentionMs p \<le> retentionMs p"
    and "onSuccess p = ''clear'' \<or> onSuccess p = ''withdraw''"
  using assms by (auto simp: checkLadderPolicy_def whole_def split: if_splits)

lemma checkLadderPolicy_ceiling:
  assumes "checkLadderPolicy p = Inr q" and "hardCeiling p = Some c"
  shows "freeFailures p \<le> c"
    and "waitsBetween (c - skippable p) c p \<le> waitsBetween 0 (c - skippable p) p"
    and "(freeFailures p - 1) * retentionMs p \<le> (c - 1) * freeRetentionMs p"
  using assms by (auto simp: checkLadderPolicy_def whole_def split: if_splits)

lemma skippable_bounds:
  assumes "checkLadderPolicy p = Inr q" and "hardCeiling p = Some c"
  shows "0 \<le> skippable p" and "skippable p \<le> c"
  using checkLadderPolicy_bounds[OF assms(1)] checkLadderPolicy_ceiling(1)[OF assms] assms(2)
  by (auto simp: skippable_def)

lemma waitsBetween_mono:
  assumes "0 \<le> firstWaitMs p" and "0 \<le> maxWaitMs p" and "b \<le> c"
  shows "waitsBetween a b p \<le> waitsBetween a c p"
  unfolding waitsBetween_eq_sum
  by (rule sum_mono2) (use assms(3) in \<open>auto intro: ladderWaitMs_nonneg[OF assms(1,2)]\<close>)

subsection \<open>Properties\<close>

text \<open>
  \<open>waitsBetween\<close>, which counts the waits past the doubling cap at once, computes the plain
  sum of the waits the failures \<open>from\<close> to \<open>to - 1\<close> set, for every policy.
\<close>

theorem waitsBetween_sums_the_waits: "waitsBetween start to p = (\<Sum>n = start..<to. ladderWaitMs n p)"
  by (rule waitsBetween_eq_sum)

text \<open>
  Under a checked policy the waits start at the free failures, never shrink and never pass
  the longest one; a run below its free failures is kept no longer than one that waits, and
  the tries it gets below the ladder are no more than a run gets below its ceiling.
\<close>

theorem checked_ladder_climbs:
  assumes "checkLadderPolicy p = Inr q"
  shows "q = p \<and> (\<forall>n < freeFailures p. ladderWaitMs n p = 0)
    \<and> ladderWaitMs (freeFailures p) p = firstWaitMs p
    \<and> (\<forall>m n. m \<le> n \<longrightarrow> ladderWaitMs m p \<le> ladderWaitMs n p \<and> ladderWaitMs n p \<le> maxWaitMs p)
    \<and> freeRetentionMs p \<le> retentionMs p
    \<and> (\<forall>c. hardCeiling p = Some c \<longrightarrow> (freeFailures p - 1) * retentionMs p \<le> (c - 1) * freeRetentionMs p)"
proof -
  note b = checkLadderPolicy_bounds[OF assms]
  have pol: "0 \<le> firstWaitMs p" "0 \<le> maxWaitMs p" using b(2,3) by simp_all
  have "ladderWaitMs (freeFailures p) p = firstWaitMs p"
    using b(3) by (simp add: ladderWaitMs_def MAX_DOUBLINGS_def Let_def)
  then show ?thesis
    using checkLadderPolicy_Inr[OF assms] ladderWaitMs_mono[OF pol] ladderWaitMs_le_max[OF pol(2)] b(7)
      checkLadderPolicy_ceiling(3)[OF assms] by (auto simp: ladderWaitMs_def)
qed

theorem checked_ladder_climbs_witness:
  "checkLadderPolicy PASSWORD_LADDER_POLICY = Inr PASSWORD_LADDER_POLICY
   \<and> ladderWaitMs 4 PASSWORD_LADDER_POLICY = 0 \<and> ladderWaitMs 5 PASSWORD_LADDER_POLICY = 1000
   \<and> ladderWaitMs 14 PASSWORD_LADDER_POLICY \<le> ladderWaitMs 15 PASSWORD_LADDER_POLICY"
proof -
  have chk: "checkLadderPolicy PASSWORD_LADDER_POLICY = Inr PASSWORD_LADDER_POLICY" by code_simp
  have "ladderWaitMs 4 PASSWORD_LADDER_POLICY = 0"
    and "ladderWaitMs 5 PASSWORD_LADDER_POLICY = firstWaitMs PASSWORD_LADDER_POLICY"
    and "ladderWaitMs 14 PASSWORD_LADDER_POLICY \<le> ladderWaitMs 15 PASSWORD_LADDER_POLICY"
    using checked_ladder_climbs[OF chk] by (auto simp: PASSWORD_LADDER_POLICY_def)
  with chk show ?thesis by (simp add: PASSWORD_LADDER_POLICY_def)
qed

text \<open>
  The four shipped ladders pass the check, and the password ladder's waits are the
  documented ones: 1 second at the 5th failure, 2 at the 6th, 15 minutes from the 15th on.
\<close>

theorem shipped_ladders_pass:
  "checkLadderPolicy PASSWORD_LADDER_POLICY = Inr PASSWORD_LADDER_POLICY
   \<and> checkLadderPolicy EMAIL_CODE_LADDER_POLICY = Inr EMAIL_CODE_LADDER_POLICY
   \<and> checkLadderPolicy RECOVERY_CODE_LADDER_POLICY = Inr RECOVERY_CODE_LADDER_POLICY
   \<and> checkLadderPolicy TOTP_LADDER_POLICY = Inr TOTP_LADDER_POLICY
   \<and> map (\<lambda>n. ladderWaitMs n PASSWORD_LADDER_POLICY) [4, 5, 6, 14, 15, 45, 100]
       = [0, 1000, 2000, 512000, 900000, 900000, 900000]"
  by code_simp

end
