(* ===== verification/Redis.thy ===== *)
theory Redis
  imports Prelude
begin

text \<open>
  The Redis commands the server's scripts call, as an interface. Redis is not code of this
  repository: every script of the development takes it as the argument \<open>R\<close>, a record of the
  commands over an unknown store type, and the locale \<open>redis_store\<close> states the documented
  behaviour of those commands that the proofs use. Values keep the number a script wrote
  (\<open>RInt\<close>) or its string (\<open>RStr\<close>). A key's own expiry (\<open>PEXPIRE\<close>, \<open>SET ... PX\<close>) changes no
  value when it is set; the loss of an expired key is a step of the environment, which
  deletes the key.

  The last section gives one store that satisfies the interface, over association lists: the
  laws are consistent, and the scripts evaluate on it.
\<close>

datatype rval = RInt int | RStr string

text \<open>Lua's \<open>tonumber(v) or d\<close>.\<close>

fun num_or :: "int \<Rightarrow> rval option \<Rightarrow> int" where
  "num_or d (Some (RInt i)) = i"
| "num_or d _ = d"

record 's redis =
  HGET :: "'s \<Rightarrow> key \<Rightarrow> string \<Rightarrow> rval option"
  HLEN :: "'s \<Rightarrow> key \<Rightarrow> int"
  HSET :: "key \<Rightarrow> string \<Rightarrow> rval \<Rightarrow> 's \<Rightarrow> 's"
  HDEL :: "key \<Rightarrow> string \<Rightarrow> 's \<Rightarrow> 's"
  HINCRBY :: "key \<Rightarrow> string \<Rightarrow> int \<Rightarrow> 's \<Rightarrow> 's"
  ZSCORE :: "'s \<Rightarrow> key \<Rightarrow> string \<Rightarrow> int option"
  ZCARD :: "'s \<Rightarrow> key \<Rightarrow> int"
  ZCOUNT :: "'s \<Rightarrow> key \<Rightarrow> int \<Rightarrow> int" \<comment> \<open>\<open>ZCOUNT key (lo +inf\<close>\<close>
  ZRANGE :: "'s \<Rightarrow> key \<Rightarrow> int \<Rightarrow> (string \<times> int) list" \<comment> \<open>\<open>ZRANGE key i i WITHSCORES\<close>\<close>
  ZRANGEBYSCORE_LIMIT :: "'s \<Rightarrow> key \<Rightarrow> int \<Rightarrow> int \<Rightarrow> (string \<times> int) list"
    \<comment> \<open>\<open>ZRANGEBYSCORE key (lo +inf WITHSCORES LIMIT off 1\<close>\<close>
  ZRANGEBYSCORE_UPTO :: "'s \<Rightarrow> key \<Rightarrow> int \<Rightarrow> string list" \<comment> \<open>\<open>ZRANGEBYSCORE key -inf hi\<close>\<close>
  ZADD :: "key \<Rightarrow> int \<Rightarrow> string \<Rightarrow> 's \<Rightarrow> 's"
  ZREM :: "key \<Rightarrow> string \<Rightarrow> 's \<Rightarrow> 's"
  ZREMRANGEBYSCORE :: "key \<Rightarrow> int \<Rightarrow> 's \<Rightarrow> 's" \<comment> \<open>\<open>ZREMRANGEBYSCORE key -inf hi\<close>\<close>
  ZREMRANGEBYRANK :: "key \<Rightarrow> int \<Rightarrow> 's \<Rightarrow> 's" \<comment> \<open>\<open>ZREMRANGEBYRANK key 0 hi\<close>\<close>
  GET :: "'s \<Rightarrow> key \<Rightarrow> rval option"
  SET :: "key \<Rightarrow> rval \<Rightarrow> int \<Rightarrow> 's \<Rightarrow> 's" \<comment> \<open>\<open>SET key v PX ttl\<close>\<close>
  DEL :: "key \<Rightarrow> 's \<Rightarrow> 's"
  PEXPIRE :: "key \<Rightarrow> int \<Rightarrow> 's \<Rightarrow> 's"

text \<open>
  Everything a client can read of one key: its hash fields, its sorted-set members, its
  string. A command on one key changes the view of no other. Every key of the scripts holds
  one kind of value only, so what a command does to a key of another kind (an error reply)
  is not stated.
\<close>

definition view :: "'s redis \<Rightarrow> 's \<Rightarrow> key \<Rightarrow>
    (string \<rightharpoonup> rval) \<times> (string \<rightharpoonup> int) \<times> rval option" where
  "view R s k = (HGET R s k, ZSCORE R s k, GET R s k)"

locale redis_store =
  fixes R :: "'s redis"
  assumes HGET_HSET: "HGET R (HSET R k f v s) k = (HGET R s k)(f \<mapsto> v)"
    and HGET_HDEL: "HGET R (HDEL R k f s) k = (HGET R s k)(f := None)"
    and HGET_HINCRBY:
      "HGET R (HINCRBY R k f d s) k = (HGET R s k)(f \<mapsto> RInt (num_or 0 (HGET R s k f) + d))"
    and ZSCORE_ZADD: "ZSCORE R (ZADD R k x m s) k = (ZSCORE R s k)(m \<mapsto> x)"
    and ZSCORE_ZREM: "ZSCORE R (ZREM R k m s) k = (ZSCORE R s k)(m := None)"
    and ZSCORE_ZREMRANGEBYSCORE:
      "ZSCORE R (ZREMRANGEBYSCORE R k hi s) k = keep_newer (ZSCORE R s k) hi"
    and GET_SET: "GET R (SET R k v ttl s) k = Some v"
    and view_DEL: "view R (DEL R k s) k = (Map.empty, Map.empty, None)"
    and view_PEXPIRE: "view R (PEXPIRE R k ttl s) k' = view R s k'"
    and frame_hash: "k' \<noteq> k \<Longrightarrow> view R (HSET R k f v s) k' = view R s k'"
      "k' \<noteq> k \<Longrightarrow> view R (HDEL R k f s) k' = view R s k'"
      "k' \<noteq> k \<Longrightarrow> view R (HINCRBY R k f d s) k' = view R s k'"
    and frame_zset: "k' \<noteq> k \<Longrightarrow> view R (ZADD R k x m s) k' = view R s k'"
      "k' \<noteq> k \<Longrightarrow> view R (ZREM R k m s) k' = view R s k'"
      "k' \<noteq> k \<Longrightarrow> view R (ZREMRANGEBYSCORE R k hi s) k' = view R s k'"
      "k' \<noteq> k \<Longrightarrow> view R (ZREMRANGEBYRANK R k hi s) k' = view R s k'"
    and frame_string: "k' \<noteq> k \<Longrightarrow> view R (SET R k v ttl s) k' = view R s k'"
      "k' \<noteq> k \<Longrightarrow> view R (DEL R k s) k' = view R s k'"
    and finite_hash: "finite (dom (HGET R s k))"
    and finite_zset: "finite (dom (ZSCORE R s k))"
    and HLEN_eq: "HLEN R s k = int (card (dom (HGET R s k)))"
    and ZCARD_eq: "ZCARD R s k = int (card (dom (ZSCORE R s k)))"
    and ZCOUNT_eq: "ZCOUNT R s k lo = int (card (newer (ZSCORE R s k) lo))"
    and ZRANGE_rank: "0 \<le> i \<Longrightarrow> i < ZCARD R s k \<Longrightarrow>
      \<exists>m x. ZRANGE R s k i = [(m, x)] \<and> ZSCORE R s k m = Some x
        \<and> i < int (card {m. \<exists>y \<le> x. ZSCORE R s k m = Some y})
        \<and> ZCARD R s k - i \<le> int (card {m. \<exists>y \<ge> x. ZSCORE R s k m = Some y})"
    and ZRANGEBYSCORE_LIMIT_rank: "0 \<le> i \<Longrightarrow> i < ZCOUNT R s k lo \<Longrightarrow>
      \<exists>m x. ZRANGEBYSCORE_LIMIT R s k lo i = [(m, x)] \<and> ZSCORE R s k m = Some x \<and> lo < x
        \<and> i < int (card {m. \<exists>y \<le> x. ZSCORE R s k m = Some y \<and> lo < y})
        \<and> ZCOUNT R s k lo - i \<le> int (card {m. \<exists>y \<ge> x. ZSCORE R s k m = Some y})"
    and ZRANGEBYSCORE_UPTO_set:
      "set (ZRANGEBYSCORE_UPTO R s k hi) = {m. \<exists>x \<le> hi. ZSCORE R s k m = Some x}"
    and ZRANGEBYSCORE_UPTO_distinct: "distinct (ZRANGEBYSCORE_UPTO R s k hi)"
    and ZREMRANGEBYRANK_sub: "ZSCORE R (ZREMRANGEBYRANK R k hi s) k \<subseteq>\<^sub>m ZSCORE R s k"
    and ZREMRANGEBYRANK_card: "0 \<le> hi \<Longrightarrow> hi < ZCARD R s k \<Longrightarrow>
      ZCARD R (ZREMRANGEBYRANK R k hi s) k = ZCARD R s k - hi - 1"
    and ZREMRANGEBYRANK_low: "ZSCORE R s k m = Some x \<Longrightarrow>
      ZSCORE R (ZREMRANGEBYRANK R k hi s) k m = None \<Longrightarrow>
      ZSCORE R (ZREMRANGEBYRANK R k hi s) k m' = Some y \<Longrightarrow> x \<le> y"
begin

text \<open>The laws by reader, as rewrite rules: what a command leaves of another key.\<close>

lemma view_D:
  assumes "view R s' k' = view R s k'"
  shows "HGET R s' k' = HGET R s k'" and "ZSCORE R s' k' = ZSCORE R s k'" and "GET R s' k' = GET R s k'"
  using assms by (simp_all add: view_def)

lemmas HGET_frame [simp] =
  frame_hash(1)[THEN view_D(1)]
  frame_hash(2)[THEN view_D(1)]
  frame_hash(3)[THEN view_D(1)]
  frame_zset(1)[THEN view_D(1)]
  frame_zset(2)[THEN view_D(1)]
  frame_zset(3)[THEN view_D(1)]
  frame_zset(4)[THEN view_D(1)]
  frame_string(1)[THEN view_D(1)]
  frame_string(2)[THEN view_D(1)]
  view_PEXPIRE[THEN view_D(1)]

lemmas ZSCORE_frame [simp] =
  frame_hash(1)[THEN view_D(2)]
  frame_hash(2)[THEN view_D(2)]
  frame_hash(3)[THEN view_D(2)]
  frame_zset(1)[THEN view_D(2)]
  frame_zset(2)[THEN view_D(2)]
  frame_zset(3)[THEN view_D(2)]
  frame_zset(4)[THEN view_D(2)]
  frame_string(1)[THEN view_D(2)]
  frame_string(2)[THEN view_D(2)]
  view_PEXPIRE[THEN view_D(2)]

lemmas GET_frame [simp] =
  frame_hash(1)[THEN view_D(3)]
  frame_hash(2)[THEN view_D(3)]
  frame_hash(3)[THEN view_D(3)]
  frame_zset(1)[THEN view_D(3)]
  frame_zset(2)[THEN view_D(3)]
  frame_zset(3)[THEN view_D(3)]
  frame_zset(4)[THEN view_D(3)]
  frame_string(1)[THEN view_D(3)]
  frame_string(2)[THEN view_D(3)]
  view_PEXPIRE[THEN view_D(3)]

lemma DEL_simps [simp]:
  "HGET R (DEL R k s) k = Map.empty" "ZSCORE R (DEL R k s) k = Map.empty" "GET R (DEL R k s) k = None"
  using view_DEL[of k s] by (simp_all add: view_def)

lemmas effect_simps [simp] = HGET_HSET HGET_HDEL HGET_HINCRBY ZSCORE_ZADD ZSCORE_ZREM
  ZSCORE_ZREMRANGEBYSCORE GET_SET

lemma ZSCORE_if:
  "ZSCORE R (ZADD R k x m s) k' = (if k' = k then (ZSCORE R s k)(m \<mapsto> x) else ZSCORE R s k')"
  "ZSCORE R (ZREM R k m s) k' = (if k' = k then (ZSCORE R s k)(m := None) else ZSCORE R s k')"
  "ZSCORE R (ZREMRANGEBYSCORE R k hi s) k' =
     (if k' = k then keep_newer (ZSCORE R s k) hi else ZSCORE R s k')"
  by simp_all

lemmas finite_views [simp] = finite_hash finite_zset

end

subsection \<open>A store over association lists\<close>

record mem =
  mem_hash :: "key \<Rightarrow> (string \<times> rval) list"
  mem_zset :: "key \<Rightarrow> (string \<times> int) list"
  mem_str :: "key \<Rightarrow> rval option"

definition mem_empty :: mem where
  "mem_empty = \<lparr>mem_hash = (\<lambda>_. []), mem_zset = (\<lambda>_. []), mem_str = (\<lambda>_. None)\<rparr>"

text \<open>The entries of a sorted set, lowest score first.\<close>

definition mem_sorted :: "(string \<times> int) list \<Rightarrow> (string \<times> int) list" where
  "mem_sorted xs = sort_key snd (AList.clearjunk xs)"

definition nth_list :: "'a list \<Rightarrow> int \<Rightarrow> 'a list" where
  "nth_list xs i = (if 0 \<le> i \<and> i < int (length xs) then [xs ! nat i] else [])"

definition mem_redis :: "mem redis" where
  "mem_redis = \<lparr>
    HGET = (\<lambda>s k. map_of (mem_hash s k)),
    HLEN = (\<lambda>s k. int (length (AList.clearjunk (mem_hash s k)))),
    HSET = (\<lambda>k f v s. s\<lparr>mem_hash := (mem_hash s)(k := AList.update f v (mem_hash s k))\<rparr>),
    HDEL = (\<lambda>k f s. s\<lparr>mem_hash := (mem_hash s)(k := AList.delete f (mem_hash s k))\<rparr>),
    HINCRBY = (\<lambda>k f d s. s\<lparr>mem_hash := (mem_hash s)(k :=
      AList.update f (RInt (num_or 0 (map_of (mem_hash s k) f) + d)) (mem_hash s k))\<rparr>),
    ZSCORE = (\<lambda>s k. map_of (mem_zset s k)),
    ZCARD = (\<lambda>s k. int (length (mem_sorted (mem_zset s k)))),
    ZCOUNT = (\<lambda>s k lo. int (length (filter (\<lambda>(m, x). lo < x) (mem_sorted (mem_zset s k))))),
    ZRANGE = (\<lambda>s k i. nth_list (mem_sorted (mem_zset s k)) i),
    ZRANGEBYSCORE_LIMIT = (\<lambda>s k lo i.
      nth_list (filter (\<lambda>(m, x). lo < x) (mem_sorted (mem_zset s k))) i),
    ZRANGEBYSCORE_UPTO = (\<lambda>s k hi. map fst (filter (\<lambda>(m, x). x \<le> hi) (mem_sorted (mem_zset s k)))),
    ZADD = (\<lambda>k x m s. s\<lparr>mem_zset := (mem_zset s)(k := AList.update m x (mem_zset s k))\<rparr>),
    ZREM = (\<lambda>k m s. s\<lparr>mem_zset := (mem_zset s)(k := AList.delete m (mem_zset s k))\<rparr>),
    ZREMRANGEBYSCORE = (\<lambda>k hi s. s\<lparr>mem_zset := (mem_zset s)(k :=
      filter (\<lambda>(m, x). hi < x) (mem_sorted (mem_zset s k)))\<rparr>),
    ZREMRANGEBYRANK = (\<lambda>k hi s. s\<lparr>mem_zset := (mem_zset s)(k :=
      drop (nat (hi + 1)) (mem_sorted (mem_zset s k)))\<rparr>),
    GET = (\<lambda>s k. mem_str s k),
    SET = (\<lambda>k v ttl s. s\<lparr>mem_str := (mem_str s)(k := Some v)\<rparr>),
    DEL = (\<lambda>k s. s\<lparr>mem_hash := (mem_hash s)(k := []), mem_zset := (mem_zset s)(k := []),
      mem_str := (mem_str s)(k := None)\<rparr>),
    PEXPIRE = (\<lambda>k ttl s. s)\<rparr>"

lemma mset_mem_sorted: "mset (mem_sorted xs) = mset (AList.clearjunk xs)"
  by (simp add: mem_sorted_def)

lemma distinct_mem_sorted: "distinct (map fst (mem_sorted xs))"
proof -
  have "mset (map fst (mem_sorted xs)) = mset (map fst (AList.clearjunk xs))"
    by (simp add: mset_mem_sorted)
  then show ?thesis using distinct_clearjunk[of xs] by (metis mset_eq_imp_distinct_iff)
qed

lemma sorted_mem_sorted: "sorted (map snd (mem_sorted xs))"
  by (simp add: mem_sorted_def)

lemma map_of_mem_sorted [simp]: "map_of (mem_sorted xs) = map_of xs"
proof -
  have "set (mem_sorted xs) = set (AList.clearjunk xs)"
    by (rule mset_eq_setD[OF mset_mem_sorted])
  then have "map_of (mem_sorted xs) = map_of (AList.clearjunk xs)"
    by (rule map_of_inject_set[OF distinct_mem_sorted distinct_clearjunk, THEN iffD2])
  then show ?thesis by (simp only: map_of_clearjunk)
qed

lemma map_of_filter_snd:
  assumes "distinct (map fst xs)"
  shows "map_of (filter (\<lambda>(m, x). P x) xs) m =
    (case map_of xs m of None \<Rightarrow> None | Some x \<Rightarrow> if P x then Some x else None)"
  using assms
proof (induction xs)
  case (Cons p xs)
  have "map_of xs (fst p) = None" using Cons.prems by (simp add: map_of_eq_None_iff)
  with Cons show ?case by (cases p) (auto split: option.splits)
qed simp

lemma card_dom_map_of: "distinct (map fst xs) \<Longrightarrow> card (dom (map_of xs)) = length xs"
  by (metis distinct_card dom_map_of_conv_image_fst length_map list.set_map)

text \<open>The entry of rank \<open>i\<close> has more than \<open>i\<close> entries up to it and all but \<open>i\<close> from it on.\<close>

lemma rank_bounds:
  assumes d: "distinct (map fst xs)" and sd: "sorted (map snd xs)"
    and i: "i < length xs" and x: "xs ! i = (m, x)"
  shows "i < card {m. \<exists>y \<le> x. map_of xs m = Some y}" (is "_ < card ?lo")
    and "length xs - i \<le> card {m. \<exists>y \<ge> x. map_of xs m = Some y}" (is "_ \<le> card ?hi")
proof -
  have fin: "finite ?lo" "finite ?hi"
    by (rule finite_subset[OF _ finite_dom_map_of[of xs]], fastforce)+
  have le: "snd (xs ! j) \<le> snd (xs ! k)" if "j \<le> k" "k < length xs" for j k
    using sorted_nth_mono[OF sd, of j k] that by simp
  have of_nth: "map_of xs (fst (xs ! j)) = Some (snd (xs ! j))" if "j < length xs" for j
    using d that by (metis map_of_eq_Some_iff nth_mem prod.collapse)
  have card_img: "card ((\<lambda>j. fst (xs ! j)) ` A) = card A" if "A \<subseteq> {..<length xs}" for A
    using d that by (intro card_image) (auto simp: inj_on_def distinct_conv_nth)
  have "(\<lambda>j. fst (xs ! j)) ` {..i} \<subseteq> ?lo"
    using le[of _ i] of_nth i x by (fastforce simp: less_le_trans)
  moreover have "{..i} \<subseteq> {..<length xs}" using i by auto
  ultimately show "i < card ?lo"
    using card_mono[OF fin(1), of "(\<lambda>j. fst (xs ! j)) ` {..i}"] card_img[of "{..i}"] by simp
  have "(\<lambda>j. fst (xs ! j)) ` {i..<length xs} \<subseteq> ?hi"
    using le[of i] of_nth x by fastforce
  moreover have "{i..<length xs} \<subseteq> {..<length xs}" by auto
  ultimately show "length xs - i \<le> card ?hi"
    using card_mono[OF fin(2), of "(\<lambda>j. fst (xs ! j)) ` {i..<length xs}"] card_img[of "{i..<length xs}"]
    by simp
qed

lemma rank_bounds_int:
  assumes "distinct (map fst xs)" and "sorted (map snd xs)" and "0 \<le> i" and "i < int (length xs)"
  shows "\<exists>m x. nth_list xs i = [(m, x)] \<and> map_of xs m = Some x
    \<and> i < int (card {m. \<exists>y \<le> x. map_of xs m = Some y})
    \<and> int (length xs) - i \<le> int (card {m. \<exists>y \<ge> x. map_of xs m = Some y})"
proof -
  obtain m x where x: "xs ! nat i = (m, x)" by (cases "xs ! nat i")
  have i: "nat i < length xs" using assms(3,4) by linarith
  have "map_of xs m = Some x" using assms(1) i x by (metis map_of_eq_Some_iff nth_mem)
  with rank_bounds[OF assms(1,2) i x] assms(3,4) x show ?thesis
    by (auto simp: nth_list_def nat_less_iff)
qed

lemma newer_map_of:
  "distinct (map fst xs) \<Longrightarrow> dom (map_of (filter (\<lambda>(m, x). lo < x) xs)) = newer (map_of xs) lo"
  by (auto simp: map_of_filter_snd newer_def split: option.splits if_splits)

lemma sorted_filter_snd: "sorted (map snd xs) \<Longrightarrow> sorted (map snd (filter P xs))"
  by (rule sorted_filter)

lemma distinct_filter_fst: "distinct (map fst xs) \<Longrightarrow> distinct (map fst (filter P xs))"
  by (rule distinct_map_filter)

lemmas mem_sorted_facts = distinct_mem_sorted sorted_mem_sorted
  distinct_filter_fst[OF distinct_mem_sorted] sorted_filter_snd[OF sorted_mem_sorted]

lemma length_mem_sorted: "length (mem_sorted xs) = card (dom (map_of xs))"
  using card_dom_map_of[OF distinct_mem_sorted] by simp

lemma length_mem_newer:
  "length (filter (\<lambda>(m, x). lo < x) (mem_sorted xs)) = card (newer (map_of xs) lo)"
  by (metis card_dom_map_of mem_sorted_facts(3) newer_map_of distinct_mem_sorted map_of_mem_sorted)

lemma map_of_mem_newer:
  "map_of (filter (\<lambda>(m, x). lo < x) (mem_sorted xs)) = keep_newer (map_of xs) lo"
  by (rule ext) (simp add: map_of_filter_snd[OF distinct_mem_sorted] keep_newer_def not_le
      split: option.splits)

lemma map_of_drop_le: "distinct (map fst xs) \<Longrightarrow> map_of (drop n xs) \<subseteq>\<^sub>m map_of xs"
proof -
  assume d: "distinct (map fst xs)"
  then have "distinct (map fst (drop n xs))" by (metis distinct_drop drop_map)
  with d show ?thesis
    by (auto simp: map_le_def dom_map_of_conv_image_fst map_of_eq_Some_iff dest: in_set_dropD)
qed

lemma map_of_drop_low:
  assumes d: "distinct (map fst xs)" and sd: "sorted (map snd xs)"
    and x: "map_of xs m = Some x" and none: "map_of (drop n xs) m = None"
    and y: "map_of (drop n xs) m' = Some y"
  shows "x \<le> y"
proof -
  have "(m, x) \<in> set (take n xs @ drop n xs)" using x by (simp only: append_take_drop_id map_of_SomeD)
  moreover have "(m, x) \<notin> set (drop n xs)" using none by (auto simp: map_of_eq_None_iff image_iff)
  ultimately have "(m, x) \<in> set (take n xs)" by (simp only: set_append Un_iff) blast
  then have "x \<in> set (take n (map snd xs))" by (force simp: take_map)
  moreover have "y \<in> set (drop n (map snd xs))" using y by (force simp: drop_map dest: map_of_SomeD)
  moreover have "sorted (take n (map snd xs) @ drop n (map snd xs))" using sd by simp
  ultimately show ?thesis by (metis sorted_append)
qed

interpretation mem: redis_store mem_redis
proof (unfold_locales, goal_cases)
  case (24 i s k)
  then show ?case
    using rank_bounds_int[OF mem_sorted_facts(1,2), of i "mem_zset s k"] by (simp add: mem_redis_def)
next
  case (25 i s k lo)
  let ?ys = "filter (\<lambda>(m, x). lo < x) (mem_sorted (mem_zset s k))"
  have "\<exists>m x. nth_list ?ys i = [(m, x)] \<and> map_of ?ys m = Some x
    \<and> i < int (card {m. \<exists>y \<le> x. map_of ?ys m = Some y})
    \<and> int (length ?ys) - i \<le> int (card {m. \<exists>y \<ge> x. map_of ?ys m = Some y})"
    using rank_bounds_int[OF mem_sorted_facts(3,4)] 25 by (simp add: mem_redis_def)
  then obtain m x where mx: "nth_list ?ys i = [(m, x)]" "map_of ?ys m = Some x"
    and lo: "i < int (card {m. \<exists>y \<le> x. map_of ?ys m = Some y})"
    and hi: "int (length ?ys) - i \<le> int (card {m. \<exists>y \<ge> x. map_of ?ys m = Some y})" by blast
  have "{m. \<exists>y \<le> x. map_of ?ys m = Some y}
      = {m. \<exists>y \<le> x. map_of (mem_zset s k) m = Some y \<and> lo < y}"
    by (auto simp: map_of_mem_newer keep_newer_eq_Some)
  moreover have "{m. \<exists>y \<ge> x. map_of ?ys m = Some y} = {m. \<exists>y \<ge> x. map_of (mem_zset s k) m = Some y}"
    using mx(2) by (auto simp: map_of_mem_newer keep_newer_eq_Some)
  ultimately show ?case using mx lo hi
    by (intro exI[of _ m] exI[of _ x]) (simp add: mem_redis_def map_of_mem_newer keep_newer_eq_Some)
next
  case (26 s k hi)
  then show ?case
    using map_of_eq_Some_iff[OF distinct_mem_sorted, of "mem_zset s k"]
    by (force simp: mem_redis_def image_iff)
next
  case (27 s k hi)
  then show ?case by (simp add: mem_redis_def distinct_filter_fst[OF distinct_mem_sorted])
next
  case (28 k hi s)
  then show ?case
    using map_of_drop_le[OF distinct_mem_sorted, of "nat (hi + 1)" "mem_zset s k"]
    by (simp add: mem_redis_def)
next
  case (29 hi s k)
  have "distinct (map fst (drop (nat (hi + 1)) (mem_sorted (mem_zset s k))))"
    by (metis distinct_drop distinct_mem_sorted drop_map)
  from card_dom_map_of[OF this] 29 show ?case
    by (simp add: mem_redis_def length_mem_sorted of_nat_diff)
next
  case (30 s k m x hi m' y)
  then show ?case
    using map_of_drop_low[OF mem_sorted_facts(1,2), of "mem_zset s k" m x "nat (hi + 1)" m' y]
    by (simp add: mem_redis_def)
qed (auto simp: mem_redis_def view_def update_conv' delete_conv' map_of_mem_newer length_mem_sorted
    length_mem_newer finite_dom_map_of card_dom_map_of[OF distinct_clearjunk, symmetric] map_of_clearjunk)

end
