(* ===== verification/Failure_Ladder.thy ===== *)
theory Failure_Ladder
  imports Ladder Redis
begin

text \<open>
  The per-account failure ladder in Redis
  (\<open>libs/fastify/plugins/sign-in-engine/src/lib/failure-ladder.ts\<close>): the two Lua scripts that
  reserve an attempt and settle a success, the keys they run on, and the TypeScript layer
  around them (\<open>reserve\<close>, its reservation's \<open>settle\<close>, \<open>softThreshold\<close>, \<open>reset\<close>,
  \<open>resetAccount\<close>, \<open>isKnownEndUserIp\<close>). The keyed HMAC of an address (\<open>ipDigest\<close>), the clock
  and the random run id are arguments. A Redis call that fails or times out rejects before
  any verdict; the definitions give what a call that answers does.
\<close>

subsection \<open>The scripts\<close>

fun str_or :: "string \<Rightarrow> rval option \<Rightarrow> string" where
  "str_or d (Some (RStr r)) = r"
| "str_or d _ = d"

datatype reserve_reply = InWait int | Counted int string

definition RESERVE_SCRIPT :: "'s redis \<Rightarrow> key \<Rightarrow> key \<Rightarrow> ms \<Rightarrow> int \<Rightarrow> ms \<Rightarrow> ms \<Rightarrow> ms \<Rightarrow> ms \<Rightarrow> ms \<Rightarrow> int
    \<Rightarrow> string \<Rightarrow> string \<Rightarrow> 's \<Rightarrow> reserve_reply \<times> 's" where
  "RESERVE_SCRIPT R K1 K2 now free first longest retention freeRetention knownMs knownFree ip newRun s =
     (let known = (knownMs > 0 \<and> ip \<noteq> '''' \<and>
            (case ZSCORE R s K2 ip of None \<Rightarrow> False | Some seen \<Rightarrow> now - seen < knownMs));
          n = num_or 0 (HGET R s K1 ''n'');
          waitUntil = num_or 0 (HGET R s K1 ''until'');
          run = str_or newRun (HGET R s K1 ''run'');
          k = num_or 0 (HGET R s K1 ''k'')
      in if waitUntil > now \<and> \<not> (known \<and> k < knownFree) then (InWait (waitUntil - now), s)
         else
           let n' = n + 1;
               wait = (if n' \<ge> free
                 then let doublings = n' - free
                      in if doublings \<ge> 40 then longest else min (first * 2 ^ nat doublings) longest
                 else 0);
               nextUntil = (if now + wait < waitUntil then waitUntil else now + wait);
               s1 = HSET R K1 ''run'' (RStr run)
                 (HSET R K1 ''until'' (RInt nextUntil) (HSET R K1 ''n'' (RInt n') s));
               s2 = (if known then HINCRBY R K1 ''k'' 1 s1 else s1);
               s3 = (if n' \<ge> free then PEXPIRE R K1 retention s2 else PEXPIRE R K1 freeRetention s2)
           in (Counted n' run, s3))"

definition SETTLE_SUCCESS_SCRIPT :: "'s redis \<Rightarrow> key \<Rightarrow> key \<Rightarrow> ms \<Rightarrow> string \<Rightarrow> string \<Rightarrow> ms \<Rightarrow> string \<Rightarrow> int
    \<Rightarrow> 's \<Rightarrow> 's" where
  "SETTLE_SUCCESS_SCRIPT R K1 K2 now success run knownMs ip maxKnown s =
     (let s1 = (if HGET R s K1 ''run'' = Some (RStr run)
            then (if success = ''clear'' then DEL R K1 s
                  else let s' = HINCRBY R K1 ''n'' (-1) s
                       in if num_or 0 (HGET R s' K1 ''n'') \<le> 0 then DEL R K1 s' else s')
            else s)
      in if knownMs > 0 \<and> ip \<noteq> ''''
         then let s2 = ZREMRANGEBYSCORE R K2 (now - knownMs) (ZADD R K2 now ip s1);
                  excess = ZCARD R s2 K2 - maxKnown;
                  s3 = (if excess > 0 then ZREMRANGEBYRANK R K2 (excess - 1) s2 else s2)
              in PEXPIRE R K2 knownMs s3
         else s1)"

definition LADDER_MAX_KNOWN_IPS :: int where
  "LADDER_MAX_KNOWN_IPS = 16"

subsection \<open>Keys\<close>

definition ladderCounterKey :: "string \<Rightarrow> string \<Rightarrow> string \<Rightarrow> key" where
  "ladderCounterKey realmId identifierHmac factor =
     ''sign-in-ladder:{'' @ realmId @ '':'' @ identifierHmac @ ''}:'' @ factor"

definition ladderKnownIpsKey :: "string \<Rightarrow> string \<Rightarrow> key" where
  "ladderKnownIpsKey realmId identifierHmac =
     ''sign-in-ladder:{'' @ realmId @ '':'' @ identifierHmac @ ''}:known-ips''"

definition ladderAccountCounterKey :: "string \<Rightarrow> string \<Rightarrow> string \<Rightarrow> key" where
  "ladderAccountCounterKey realmId userId factor = ladderCounterKey realmId (''user:'' @ userId) factor"

definition ACCOUNT_COUNTERS :: "string list" where
  "ACCOUNT_COUNTERS = [''recovery_code'', ''totp'']"

subsection \<open>The ladder over Redis\<close>

record ladder_subject =
  identifierHmac :: "string option"
  userId :: "string option"

datatype fl_error =
    NoLadderFor string
  | CounterIsTheAccounts string
  | CounterIsAnIdentifiers string
  | PartOutOfShape
  | SettledTwice
  | CounterOutOfShape

definition subjectPart :: "string \<Rightarrow> ladder_subject \<Rightarrow> string \<Rightarrow> fl_error + string" where
  "subjectPart realmId subject factor =
     (if factor \<in> set ACCOUNT_COUNTERS
      then (case userId subject of
              None \<Rightarrow> Inl (CounterIsTheAccounts factor)
            | Some u \<Rightarrow>
                if identifierHmac subject \<noteq> None then Inl (CounterIsTheAccounts factor)
                else if \<not> KEY_PART realmId \<or> \<not> KEY_PART u then Inl PartOutOfShape
                else Inr (''user:'' @ u))
      else (case identifierHmac subject of
              None \<Rightarrow> Inl (CounterIsAnIdentifiers factor)
            | Some h \<Rightarrow>
                if userId subject \<noteq> None then Inl (CounterIsAnIdentifiers factor)
                else if \<not> KEY_PART realmId \<or> \<not> KEY_PART h then Inl PartOutOfShape
                else Inr h))"

record ladder_reservation =
  res_counter :: key
  res_known :: key
  res_policy :: ladder_policy
  res_ip :: string
  res_failures :: int
  res_run :: string
  res_settled :: bool

datatype ladder_verdict = WaitFor int | Reserved ladder_reservation

type_synonym ladder_policies = "string \<rightharpoonup> ladder_policy"

definition default_ladder_policies :: ladder_policies where
  "default_ladder_policies = [''password'' \<mapsto> PASSWORD_LADDER_POLICY,
     ''email_code'' \<mapsto> EMAIL_CODE_LADDER_POLICY, ''recovery_code'' \<mapsto> RECOVERY_CODE_LADDER_POLICY,
     ''totp'' \<mapsto> TOTP_LADDER_POLICY]"

text \<open>One run of the reserve script with a policy's numbers, in the order of its \<open>ARGV\<close>.\<close>

definition run_reserve :: "'s redis \<Rightarrow> ladder_policy \<Rightarrow> key \<Rightarrow> key \<Rightarrow> ms \<Rightarrow> string \<Rightarrow> string \<Rightarrow> 's
    \<Rightarrow> reserve_reply \<times> 's" where
  "run_reserve R policy counter known now ip newRun s =
     RESERVE_SCRIPT R counter known now (freeFailures policy) (firstWaitMs policy) (maxWaitMs policy)
       (retentionMs policy) (freeRetentionMs policy) (knownIpMs policy) (knownIpFreeFailures policy)
       ip newRun s"

definition reserve :: "'s redis \<Rightarrow> ladder_policies \<Rightarrow> (string \<Rightarrow> string \<Rightarrow> string) \<Rightarrow> ms \<Rightarrow> string
    \<Rightarrow> string \<Rightarrow> ladder_subject \<Rightarrow> string \<Rightarrow> string option \<Rightarrow> 's \<Rightarrow> fl_error + ladder_verdict \<times> 's" where
  "reserve R policies ipDigest now newRun realmId subject factor endUserIp s =
     (case policies factor of
        None \<Rightarrow> Inl (NoLadderFor factor)
      | Some policy \<Rightarrow>
          (case subjectPart realmId subject factor of
             Inl e \<Rightarrow> Inl e
           | Inr part \<Rightarrow>
               let counter = ladderCounterKey realmId part factor;
                   known = ladderKnownIpsKey realmId part;
                   ip = (case endUserIp of
                           None \<Rightarrow> ''''
                         | Some a \<Rightarrow> if knownIpMs policy > 0 \<and> a \<noteq> '''' then ipDigest realmId a else '''')
               in (case run_reserve R policy counter known now ip newRun s of
                     (InWait left, s') \<Rightarrow> Inr (WaitFor (ceil_div left 1000), s')
                   | (Counted failures run, s') \<Rightarrow>
                       Inr (Reserved \<lparr>res_counter = counter, res_known = known, res_policy = policy,
                              res_ip = ip, res_failures = failures, res_run = run,
                              res_settled = False\<rparr>, s'))))"

definition settle_success :: "'s redis \<Rightarrow> ladder_reservation \<Rightarrow> bool \<Rightarrow> ms \<Rightarrow> 's \<Rightarrow> 's" where
  "settle_success R r rememberIp now s =
     SETTLE_SUCCESS_SCRIPT R (res_counter r) (res_known r) now (onSuccess (res_policy r)) (res_run r)
       (knownIpMs (res_policy r)) (if rememberIp then res_ip r else '''') LADDER_MAX_KNOWN_IPS s"

text \<open>
  \<open>settle\<close> of a reservation: whether the hard action is due, the reservation with its
  \<open>settled\<close> flag set, and the store.
\<close>

definition settle :: "'s redis \<Rightarrow> ladder_reservation \<Rightarrow> bool \<Rightarrow> bool \<Rightarrow> ms \<Rightarrow> 's
    \<Rightarrow> fl_error + bool \<times> ladder_reservation \<times> 's" where
  "settle R r success rememberIp now s =
     (if res_settled r then Inl SettledTwice
      else let r' = r\<lparr>res_settled := True\<rparr>
           in if success then Inr (False, r', settle_success R r rememberIp now s)
              else (case hardCeiling (res_policy r) of
                      None \<Rightarrow> Inr (False, r', s)
                    | Some c \<Rightarrow>
                        if res_failures r < c then Inr (False, r', s)
                        else Inr (HGET R s (res_counter r) ''run'' = Some (RStr (res_run r)), r', s)))"

text \<open>
  The soft threshold: every counter with a ladder is read first (a subject of the wrong kind
  is refused before any answer is looked at), then one at or past its free failures is enough.
\<close>

fun softReads :: "'s redis \<Rightarrow> ladder_policies \<Rightarrow> string \<Rightarrow> ladder_subject \<Rightarrow> string list \<Rightarrow> 's
    \<Rightarrow> fl_error + (ladder_policy \<times> rval option) list" where
  "softReads R policies realmId subject [] s = Inr []"
| "softReads R policies realmId subject (factor # counters) s =
     (case policies factor of
        None \<Rightarrow> softReads R policies realmId subject counters s
      | Some policy \<Rightarrow>
          (case subjectPart realmId subject factor of
             Inl e \<Rightarrow> Inl e
           | Inr part \<Rightarrow>
               (case softReads R policies realmId subject counters s of
                  Inl e \<Rightarrow> Inl e
                | Inr reads \<Rightarrow>
                    Inr ((policy, HGET R s (ladderCounterKey realmId part factor) ''n'') # reads))))"

fun softOf :: "(ladder_policy \<times> rval option) list \<Rightarrow> bool \<Rightarrow> fl_error + bool" where
  "softOf [] soft = Inr soft"
| "softOf ((policy, None) # reads) soft = softOf reads soft"
| "softOf ((policy, Some (RStr _)) # reads) soft = Inl CounterOutOfShape"
| "softOf ((policy, Some (RInt failures)) # reads) soft =
     (if \<not> isSafeInteger failures \<or> failures < 0 then Inl CounterOutOfShape
      else softOf reads (soft \<or> failures \<ge> freeFailures policy))"

definition softThreshold :: "'s redis \<Rightarrow> ladder_policies \<Rightarrow> string \<Rightarrow> ladder_subject \<Rightarrow> string list \<Rightarrow> 's
    \<Rightarrow> fl_error + bool" where
  "softThreshold R policies realmId subject counters s =
     (case softReads R policies realmId subject counters s of
        Inl e \<Rightarrow> Inl e
      | Inr reads \<Rightarrow> softOf reads False)"

definition reset :: "'s redis \<Rightarrow> string \<Rightarrow> string \<Rightarrow> string \<Rightarrow> 's \<Rightarrow> fl_error + 's" where
  "reset R realmId hmac factor s =
     (if \<not> KEY_PART realmId \<or> \<not> KEY_PART hmac then Inl PartOutOfShape
      else Inr (DEL R (ladderCounterKey realmId hmac factor) s))"

definition resetAccount :: "'s redis \<Rightarrow> string \<Rightarrow> string \<Rightarrow> string \<Rightarrow> 's \<Rightarrow> fl_error + 's" where
  "resetAccount R realmId user factor s =
     (case subjectPart realmId \<lparr>identifierHmac = None, userId = Some user\<rparr> factor of
        Inl e \<Rightarrow> Inl e
      | Inr part \<Rightarrow> Inr (DEL R (ladderCounterKey realmId part factor) s))"

definition isKnownEndUserIp :: "'s redis \<Rightarrow> string \<Rightarrow> string \<Rightarrow> string \<Rightarrow> ms \<Rightarrow> ms \<Rightarrow> 's \<Rightarrow> fl_error + bool" where
  "isKnownEndUserIp R realmId hmac ipHmac knownMs now s =
     (if \<not> KEY_PART realmId \<or> \<not> KEY_PART hmac \<or> \<not> KEY_PART ipHmac then Inl PartOutOfShape
      else if knownMs \<le> 0 then Inr False
      else (case ZSCORE R s (ladderKnownIpsKey realmId hmac) ipHmac of
              None \<Rightarrow> Inr False
            | Some lastSignIn \<Rightarrow> Inr (lastSignIn > now - knownMs)))"

subsection \<open>What a counter holds\<close>

text \<open>
  The abstract counter: its failures, until when an attempt waits, its run and the failures
  from known IPs. A counter without a run id holds nothing.
\<close>

record counter =
  c_n :: int
  c_until :: ms
  c_run :: string
  c_k :: int

definition counter_at :: "'s redis \<Rightarrow> 's \<Rightarrow> key \<Rightarrow> counter option" where
  "counter_at R s K =
     (case HGET R s K ''run'' of
        Some (RStr r) \<Rightarrow> Some \<lparr>c_n = num_or 0 (HGET R s K ''n''), c_until = num_or 0 (HGET R s K ''until''),
          c_run = r, c_k = num_or 0 (HGET R s K ''k'')\<rparr>
      | _ \<Rightarrow> None)"

definition counter_wf :: "'s redis \<Rightarrow> 's \<Rightarrow> key \<Rightarrow> bool" where
  "counter_wf R s K \<longleftrightarrow> HGET R s K = Map.empty \<or> (\<exists>r. HGET R s K ''run'' = Some (RStr r))"

definition is_known :: "'s redis \<Rightarrow> ladder_policy \<Rightarrow> key \<Rightarrow> ms \<Rightarrow> string \<Rightarrow> 's \<Rightarrow> bool" where
  "is_known R p K2 now ip s \<longleftrightarrow> knownIpMs p > 0 \<and> ip \<noteq> '''' \<and>
     (case ZSCORE R s K2 ip of None \<Rightarrow> False | Some seen \<Rightarrow> now - seen < knownIpMs p)"

text \<open>The rules of an attempt, on the counter alone.\<close>

definition attempt :: "ladder_policy \<Rightarrow> ms \<Rightarrow> bool \<Rightarrow> string \<Rightarrow> counter option \<Rightarrow> reserve_reply \<times> counter option" where
  "attempt p now known newRun c0 =
     (let c = (case c0 of None \<Rightarrow> \<lparr>c_n = 0, c_until = 0, c_run = newRun, c_k = 0\<rparr> | Some c \<Rightarrow> c)
      in if c_until c > now \<and> \<not> (known \<and> c_k c < knownIpFreeFailures p)
         then (InWait (c_until c - now), c0)
         else (Counted (c_n c + 1) (c_run c),
               Some \<lparr>c_n = c_n c + 1, c_until = max (c_until c) (now + ladderWaitMs (c_n c + 1) p),
                 c_run = c_run c, c_k = c_k c + (if known then 1 else 0)\<rparr>))"

definition success :: "ladder_policy \<Rightarrow> string \<Rightarrow> counter option \<Rightarrow> counter option" where
  "success p run c0 =
     (case c0 of
        None \<Rightarrow> None
      | Some c \<Rightarrow>
          if c_run c \<noteq> run then c0
          else if onSuccess p = ''clear'' then None
          else if c_n c - 1 \<le> 0 then None else Some (c\<lparr>c_n := c_n c - 1\<rparr>))"

lemma counter_cong:
  assumes "HGET R s' K = HGET R s K"
  shows "counter_at R s' K = counter_at R s K" and "counter_wf R s' K = counter_wf R s K"
  unfolding counter_at_def counter_wf_def assms by (rule refl)+

lemma script_wait_eq:
  "(if n \<ge> freeFailures p
    then let d = n - freeFailures p
         in if d \<ge> 40 then maxWaitMs p else min (firstWaitMs p * 2 ^ nat d) (maxWaitMs p)
    else 0) = ladderWaitMs n p"
  by (simp add: ladderWaitMs_def MAX_DOUBLINGS_def Let_def)

lemma max_until: "(if now + w < u then u else now + w) = max u (now + (w :: int))"
  by auto

context redis_store
begin

lemma run_reserve_unfold:
  "run_reserve R p K1 K2 now ip newRun s =
     (let known = is_known R p K2 now ip s; n = num_or 0 (HGET R s K1 ''n'');
          u = num_or 0 (HGET R s K1 ''until''); run = str_or newRun (HGET R s K1 ''run'');
          k = num_or 0 (HGET R s K1 ''k'')
      in if u > now \<and> \<not> (known \<and> k < knownIpFreeFailures p) then (InWait (u - now), s)
         else let s1 = HSET R K1 ''run'' (RStr run)
                    (HSET R K1 ''until'' (RInt (max u (now + ladderWaitMs (n + 1) p)))
                       (HSET R K1 ''n'' (RInt (n + 1)) s));
                  s2 = (if known then HINCRBY R K1 ''k'' 1 s1 else s1)
              in (Counted (n + 1) run,
                  PEXPIRE R K1 (if n + 1 \<ge> freeFailures p then retentionMs p else freeRetentionMs p) s2))"
  unfolding run_reserve_def RESERVE_SCRIPT_def script_wait_eq
  by (simp add: Let_def max_until flip: is_known_def)

lemma run_reserve_refines:
  assumes "counter_wf R s K1"
  shows "(\<lambda>(rep, s'). (rep, counter_at R s' K1)) (run_reserve R p K1 K2 now ip newRun s)
      = attempt p now (is_known R p K2 now ip s) newRun (counter_at R s K1)"
    and "counter_wf R (snd (run_reserve R p K1 K2 now ip newRun s)) K1"
  using assms
  unfolding run_reserve_unfold attempt_def counter_wf_def counter_at_def
  by (auto simp: Let_def split: if_splits)

lemma run_reserve_frame:
  "k \<noteq> K1 \<Longrightarrow> view R (snd (run_reserve R p K1 K2 now ip newRun s)) k = view R s k"
  by (simp add: run_reserve_unfold Let_def view_def)

end

context redis_store
begin

lemma settle_counter:
  assumes "counter_wf R s K1" and "K1 \<noteq> K2"
  shows "counter_at R (SETTLE_SUCCESS_SCRIPT R K1 K2 now (onSuccess p) run km ip mk s) K1
      = success p run (counter_at R s K1)"
    and "counter_wf R (SETTLE_SUCCESS_SCRIPT R K1 K2 now (onSuccess p) run km ip mk s) K1"
proof -
  let ?s1 = "if HGET R s K1 ''run'' = Some (RStr run)
    then (if onSuccess p = ''clear'' then DEL R K1 s
          else let s' = HINCRBY R K1 ''n'' (-1) s
               in if num_or 0 (HGET R s' K1 ''n'') \<le> 0 then DEL R K1 s' else s') else s"
  have eq: "HGET R (SETTLE_SUCCESS_SCRIPT R K1 K2 now (onSuccess p) run km ip mk s) K1 = HGET R ?s1 K1"
    using assms(2) by (simp add: SETTLE_SUCCESS_SCRIPT_def Let_def)
  show "counter_at R (SETTLE_SUCCESS_SCRIPT R K1 K2 now (onSuccess p) run km ip mk s) K1
      = success p run (counter_at R s K1)"
    and "counter_wf R (SETTLE_SUCCESS_SCRIPT R K1 K2 now (onSuccess p) run km ip mk s) K1"
    using assms(1) unfolding counter_at_def counter_wf_def eq
    by (auto simp: success_def Let_def split: if_splits)
qed

lemma settle_known_ips:
  assumes "0 < mk" and "km > 0" and "ip \<noteq> ''''"
  shows "ZCARD R (SETTLE_SUCCESS_SCRIPT R K1 K2 now os run km ip mk s) K2 \<le> mk"
proof -
  define s1 where "s1 = (if HGET R s K1 ''run'' = Some (RStr run)
    then (if os = ''clear'' then DEL R K1 s
          else let s' = HINCRBY R K1 ''n'' (-1) s
               in if num_or 0 (HGET R s' K1 ''n'') \<le> 0 then DEL R K1 s' else s') else s)"
  define s2 where "s2 = ZREMRANGEBYSCORE R K2 (now - km) (ZADD R K2 now ip s1)"
  have s': "SETTLE_SUCCESS_SCRIPT R K1 K2 now os run km ip mk s = PEXPIRE R K2 km
      (if ZCARD R s2 K2 - mk > 0 then ZREMRANGEBYRANK R K2 (ZCARD R s2 K2 - mk - 1) s2 else s2)"
    using assms by (simp add: SETTLE_SUCCESS_SCRIPT_def s1_def s2_def Let_def)
  have "ZCARD R (PEXPIRE R K2 km t) K2 = ZCARD R t K2" for t by (simp add: ZCARD_eq)
  moreover have "ZCARD R (ZREMRANGEBYRANK R K2 (ZCARD R s2 K2 - mk - 1) s2) K2 = mk"
    if "ZCARD R s2 K2 - mk > 0"
    using ZREMRANGEBYRANK_card[of "ZCARD R s2 K2 - mk - 1" s2 K2] that assms(1) by simp
  ultimately show ?thesis by (auto simp: s')
qed

end

subsection \<open>Runs of the ladder\<close>

text \<open>
  One counter and its known IPs, under any sequence of steps: the clock moves, an attempt is
  reserved, a success of any run settles, the counter is reset or expires, the known IPs
  expire. Two ghost fields remember when the counter's run counted its first and its last
  failure.
\<close>

record 's ladder_sys =
  store :: 's
  clock :: ms
  first_at :: ms
  last_at :: ms

inductive ladder_step :: "'s redis \<Rightarrow> ladder_policy \<Rightarrow> key \<Rightarrow> key \<Rightarrow> 's ladder_sys \<Rightarrow> 's ladder_sys \<Rightarrow> bool"
  for R p K1 K2 where
  tick: "clock y \<le> t \<Longrightarrow> ladder_step R p K1 K2 y (y\<lparr>clock := t\<rparr>)"
| refused: "run_reserve R p K1 K2 (clock y) ip newRun (store y) = (InWait left, s') \<Longrightarrow>
    ladder_step R p K1 K2 y (y\<lparr>store := s'\<rparr>)"
| counted: "run_reserve R p K1 K2 (clock y) ip newRun (store y) = (Counted n run, s') \<Longrightarrow>
    ladder_step R p K1 K2 y (y\<lparr>store := s', last_at := clock y,
      first_at := (if counter_at R (store y) K1 = None then clock y else first_at y)\<rparr>)"
| settled: "ladder_step R p K1 K2 y (y\<lparr>store := SETTLE_SUCCESS_SCRIPT R K1 K2 (clock y) (onSuccess p) run
      (knownIpMs p) ip LADDER_MAX_KNOWN_IPS (store y)\<rparr>)"
| ended: "ladder_step R p K1 K2 y (y\<lparr>store := DEL R K1 (store y)\<rparr>)"
| forgotten: "ladder_step R p K1 K2 y (y\<lparr>store := DEL R K2 (store y)\<rparr>)"

inductive ladder_reachable :: "'s redis \<Rightarrow> ladder_policy \<Rightarrow> key \<Rightarrow> key \<Rightarrow> 's ladder_sys \<Rightarrow> bool"
  for R p K1 K2 where
  start: "HGET R (store y) K1 = Map.empty \<Longrightarrow> ladder_reachable R p K1 K2 y"
| step: "ladder_reachable R p K1 K2 y \<Longrightarrow> ladder_step R p K1 K2 y z \<Longrightarrow> ladder_reachable R p K1 K2 z"

text \<open>
  The invariant: with \<open>sk\<close> waits skipped by known IPs so far, the time the run took is at
  least the sum of its smallest waits but \<open>sk\<close>, and the next wait is set.
\<close>

definition counter_inv :: "ladder_policy \<Rightarrow> ms \<Rightarrow> ms \<Rightarrow> ms \<Rightarrow> counter option \<Rightarrow> bool" where
  "counter_inv p t0 t1 t c0 \<longleftrightarrow>
     (case c0 of
        None \<Rightarrow> True
      | Some c \<Rightarrow> t0 \<le> t1 \<and> t1 \<le> t \<and> 1 \<le> c_n c \<and> 0 \<le> c_k c \<and> t1 + ladderWaitMs (c_n c) p \<le> c_until c
          \<and> (\<exists>sk. 0 \<le> sk \<and> sk \<le> c_k c \<and> sk \<le> max 0 (knownIpFreeFailures p)
                \<and> (knownIpMs p \<le> 0 \<longrightarrow> sk = 0) \<and> waitsBetween 0 (c_n c - sk) p \<le> t1 - t0))"

lemma waitsBetween_Suc:
  assumes "0 \<le> firstWaitMs p" and "0 \<le> maxWaitMs p"
  shows "waitsBetween 0 (m + 1) p \<le> waitsBetween 0 m p + ladderWaitMs m p"
proof (cases "0 \<le> m")
  case True
  then show ?thesis by (simp add: waitsBetween_eq_sum sum_int_Suc)
next
  case False
  then show ?thesis using ladderWaitMs_nonneg[OF assms] by (simp add: waitsBetween_eq_sum)
qed

lemma attempt_inv:
  assumes pol: "0 \<le> firstWaitMs p" "0 \<le> maxWaitMs p" "1 \<le> freeFailures p"
    and inv: "counter_inv p t0 t1 t c0"
    and att: "attempt p t known newRun c0 = (Counted n run, c1)"
    and kn: "known \<Longrightarrow> knownIpMs p > 0"
  shows "counter_inv p (if c0 = None then t else t0) t t c1"
proof (cases c0)
  case None
  have "waitsBetween 0 1 p = 0"
    using pol(3) sum_int_Suc[of 0 0 "\<lambda>i. ladderWaitMs i p"]
    by (simp add: waitsBetween_eq_sum ladderWaitMs_def)
  with None att show ?thesis
    by (auto simp: attempt_def counter_inv_def Let_def split: if_splits intro!: exI[of _ 0])
next
  case (Some c)
  from inv Some obtain sk where t: "t0 \<le> t1" "t1 \<le> t" and n: "1 \<le> c_n c" "0 \<le> c_k c"
    and until: "t1 + ladderWaitMs (c_n c) p \<le> c_until c"
    and sk: "0 \<le> sk" "sk \<le> c_k c" "sk \<le> max 0 (knownIpFreeFailures p)" "knownIpMs p \<le> 0 \<longrightarrow> sk = 0"
    and W: "waitsBetween 0 (c_n c - sk) p \<le> t1 - t0"
    by (auto simp: counter_inv_def)
  have c1: "c1 = Some \<lparr>c_n = c_n c + 1, c_until = max (c_until c) (t + ladderWaitMs (c_n c + 1) p),
      c_run = c_run c, c_k = c_k c + (if known then 1 else 0)\<rparr>"
    and guard: "t < c_until c \<Longrightarrow> known \<and> c_k c < knownIpFreeFailures p"
    using att Some by (auto simp: attempt_def split: if_splits)
  show ?thesis
  proof (cases "t < c_until c")
    case True
    with guard kn have "known" "c_k c < knownIpFreeFailures p" "knownIpMs p > 0" by auto
    with Some c1 t n sk W show ?thesis by (auto simp: counter_inv_def intro!: exI[of _ "sk + 1"])
  next
    case False
    have "waitsBetween 0 (c_n c + 1 - sk) p \<le> waitsBetween 0 (c_n c - sk) p + ladderWaitMs (c_n c - sk) p"
      using waitsBetween_Suc[OF pol(1,2), of "c_n c - sk"] by (simp add: algebra_simps)
    also have "\<dots> \<le> (t1 - t0) + ladderWaitMs (c_n c) p"
      using W ladderWaitMs_mono[OF pol(1,2), of "c_n c - sk" "c_n c"] sk(1) by simp
    also have "\<dots> \<le> t - t0" using until False by simp
    finally show ?thesis
      using Some c1 t n sk by (auto simp: counter_inv_def intro!: exI[of _ sk])
  qed
qed

lemma success_inv:
  assumes "0 \<le> firstWaitMs p" "0 \<le> maxWaitMs p" and "counter_inv p t0 t1 t c0"
  shows "counter_inv p t0 t1 t (success p run c0)"
proof (cases "success p run c0 = c0 \<or> success p run c0 = None")
  case True
  with assms(3) show ?thesis by (auto simp: counter_inv_def)
next
  case False
  then obtain c where c: "c0 = Some c" and s: "success p run c0 = Some (c\<lparr>c_n := c_n c - 1\<rparr>)"
    and n: "1 < c_n c"
    by (auto simp: success_def split: option.splits if_splits)
  from assms(3) c obtain sk where sk: "0 \<le> sk" "sk \<le> c_k c" "sk \<le> max 0 (knownIpFreeFailures p)"
    "knownIpMs p \<le> 0 \<longrightarrow> sk = 0" and W: "waitsBetween 0 (c_n c - sk) p \<le> t1 - t0"
    by (auto simp: counter_inv_def)
  have "waitsBetween 0 (c_n c - 1 - sk) p \<le> t1 - t0"
    using W waitsBetween_mono[OF assms(1,2), of "c_n c - 1 - sk" "c_n c - sk" 0] by simp
  moreover have "ladderWaitMs (c_n c - 1) p \<le> ladderWaitMs (c_n c) p"
    by (rule ladderWaitMs_mono[OF assms(1,2)]) simp
  ultimately show ?thesis unfolding s counter_inv_def using assms(3) c n sk
    by (auto simp: counter_inv_def intro!: exI[of _ sk])
qed

definition ladder_inv :: "'s redis \<Rightarrow> ladder_policy \<Rightarrow> key \<Rightarrow> 's ladder_sys \<Rightarrow> bool" where
  "ladder_inv R p K1 y \<longleftrightarrow> counter_wf R (store y) K1 \<and>
     counter_inv p (first_at y) (last_at y) (clock y) (counter_at R (store y) K1)"

context redis_store
begin

lemma ladder_step_inv:
  assumes "ladder_step R p K1 K2 y z" and "ladder_inv R p K1 y" and "K1 \<noteq> K2"
    and pol: "0 \<le> firstWaitMs p" "0 \<le> maxWaitMs p" "1 \<le> freeFailures p"
  shows "ladder_inv R p K1 z"
  using assms(1)
proof cases
  case (tick t)
  with assms(2) show ?thesis by (auto simp: ladder_inv_def counter_inv_def split: option.splits)
next
  case (refused ip newRun left s')
  have wf: "counter_wf R (store y) K1" using assms(2) by (simp add: ladder_inv_def)
  have "counter_at R s' K1 = counter_at R (store y) K1"
    using run_reserve_refines(1)[OF wf, of p K2 "clock y" ip newRun] refused(2)
    by (auto simp: attempt_def Let_def split: if_splits)
  moreover have "counter_wf R s' K1"
    using run_reserve_refines(2)[OF wf, of p K2 "clock y" ip newRun] refused(2) by simp
  ultimately show ?thesis using refused(1) assms(2) by (simp add: ladder_inv_def)
next
  case (counted ip newRun n run s')
  have wf: "counter_wf R (store y) K1" using assms(2) by (simp add: ladder_inv_def)
  have att: "attempt p (clock y) (is_known R p K2 (clock y) ip (store y)) newRun
      (counter_at R (store y) K1) = (Counted n run, counter_at R s' K1)"
    using run_reserve_refines(1)[OF wf, of p K2 "clock y" ip newRun] counted(2) by simp
  have inv: "counter_inv p (first_at y) (last_at y) (clock y) (counter_at R (store y) K1)"
    using assms(2) by (simp add: ladder_inv_def)
  have "counter_inv p (if counter_at R (store y) K1 = None then clock y else first_at y)
      (clock y) (clock y) (counter_at R s' K1)"
    by (rule attempt_inv[OF pol inv att]) (simp add: is_known_def)
  moreover have "counter_wf R s' K1"
    using run_reserve_refines(2)[OF wf, of p K2 "clock y" ip newRun] counted(2) by simp
  ultimately show ?thesis using counted(1) by (simp add: ladder_inv_def)
next
  case (settled run ip)
  then show ?thesis
    using assms(2) settle_counter[OF _ assms(3), of "store y" "clock y" p run]
      success_inv[OF pol(1,2)] by (simp add: ladder_inv_def)
next
  case ended
  then show ?thesis by (simp add: ladder_inv_def counter_wf_def counter_at_def counter_inv_def)
next
  case forgotten
  have "HGET R (DEL R K2 (store y)) K1 = HGET R (store y) K1" using assms(3) by simp
  from counter_cong[OF this] forgotten assms(2) show ?thesis by (simp add: ladder_inv_def)
qed

lemma ladder_reachable_inv:
  assumes "ladder_reachable R p K1 K2 y" and "K1 \<noteq> K2"
    and pol: "0 \<le> firstWaitMs p" "0 \<le> maxWaitMs p" "1 \<le> freeFailures p"
  shows "ladder_inv R p K1 y"
  using assms(1)
proof induction
  case (start y)
  then show ?case by (simp add: ladder_inv_def counter_wf_def counter_at_def counter_inv_def)
next
  case (step y z)
  from ladder_step_inv[OF step(2,3) assms(2) pol] show ?case .
qed

lemma ceiling_time:
  assumes "ladder_reachable R p K1 K2 y" and "K1 \<noteq> K2"
    and chk: "checkLadderPolicy p = Inr q" "hardCeiling p = Some c"
    and at: "counter_at R (store y) K1 = Some r" "c \<le> c_n r"
  shows "waitsBetween 0 c p \<le> 2 * (last_at y - first_at y)"
proof -
  note b = checkLadderPolicy_bounds[OF chk(1)]
  have pol: "0 \<le> firstWaitMs p" "0 \<le> maxWaitMs p" using b by auto
  from ladder_reachable_inv[OF assms(1,2) pol b(1)] at obtain sk where
    sk: "0 \<le> sk" "sk \<le> max 0 (knownIpFreeFailures p)" "knownIpMs p \<le> 0 \<longrightarrow> sk = 0"
    and W: "waitsBetween 0 (c_n r - sk) p \<le> last_at y - first_at y"
    by (auto simp: ladder_inv_def counter_inv_def)
  have s: "0 \<le> skippable p" "skippable p \<le> c" by (rule skippable_bounds[OF chk])+
  have "c - skippable p \<le> max 0 (c_n r - sk)"
  proof (cases "knownIpMs p > 0")
    case True
    then have "skippable p = min (knownIpFreeFailures p) c" by (simp add: skippable_def chk(2))
    with sk(2) b(5) at(2) show ?thesis by linarith
  next
    case False
    with sk(3) at(2) show ?thesis by (simp add: skippable_def)
  qed
  then have "waitsBetween 0 (c - skippable p) p \<le> waitsBetween 0 (max 0 (c_n r - sk)) p"
    by (rule waitsBetween_mono[OF pol])
  also have "waitsBetween 0 (max 0 (c_n r - sk)) p = waitsBetween 0 (c_n r - sk) p"
    by (simp add: max_def waitsBetween_eq_sum)
  also have "\<dots> \<le> last_at y - first_at y" by (rule W)
  finally have lo: "waitsBetween 0 (c - skippable p) p \<le> last_at y - first_at y" .
  have "waitsBetween 0 c p = waitsBetween 0 (c - skippable p) p + waitsBetween (c - skippable p) c p"
    unfolding waitsBetween_eq_sum by (rule sum_int_split) (use s in simp_all)
  with lo checkLadderPolicy_ceiling(2)[OF chk] show ?thesis by simp
qed

end

subsection \<open>Keys never meet\<close>

lemma ladder_key_inject:
  assumes "KEY_PART r" "KEY_PART r'" "CHR ''}'' \<notin> set a" "CHR ''}'' \<notin> set a'"
    and "ladderCounterKey r a f = ladderCounterKey r' a' f'"
  shows "r = r' \<and> a = a' \<and> f = f'"
proof -
  have "r @ CHR '':'' # (a @ ''}:'' @ f) = r' @ CHR '':'' # (a' @ ''}:'' @ f')"
    using assms(5) by (simp add: ladderCounterKey_def)
  from append_sep_inject[OF KEY_PART_no_colon[OF assms(1)] KEY_PART_no_colon[OF assms(2)] this]
  have r: "r = r'" and rest: "a @ CHR ''}'' # ('':'' @ f) = a' @ CHR ''}'' # ('':'' @ f')" by simp_all
  from append_sep_inject[OF assms(3,4) rest] r show ?thesis by simp
qed

lemma subjectPart_shape:
  assumes "subjectPart realmId subject factor = Inr part"
  shows "KEY_PART realmId" and "CHR ''}'' \<notin> set part"
  using assms by (auto simp: subjectPart_def dest: KEY_PART_no_close split: if_splits option.splits)

lemma subjectPart_inject:
  assumes "subjectPart realmId sub factor = Inr part" and "subjectPart realmId' sub' factor = Inr part"
  shows "sub = sub'"
  using assms by (cases sub; cases sub') (auto simp: subjectPart_def split: if_splits option.splits)

subsection \<open>Properties\<close>

text \<open>
  C3. A run that reaches its hard ceiling took at least half the time it takes with no known
  IP: in every reachable state of a counter run under a checked policy with a hard ceiling
  \<open>c\<close>, if \<open>c\<close> failures are counted then twice the time between the run's first and its last
  counted failure is at least the sum of all the waits before the ceiling, whatever attempts,
  known IPs, late successes, resets and expiries came in between.
\<close>

theorem ladder_ceiling_takes_half_time:
  assumes "redis_store R" and "K1 \<noteq> K2" and "ladder_reachable R p K1 K2 y"
    and "checkLadderPolicy p = Inr q" and "hardCeiling p = Some c"
    and "counter_at R (store y) K1 = Some r" and "c \<le> c_n r"
  shows "(\<Sum>i = 0..<c. ladderWaitMs i p) \<le> 2 * (last_at y - first_at y)"
  using redis_store.ceiling_time[OF assms(1,3,2,4-7)] by (simp only: waitsBetween_eq_sum)

definition small_ladder :: ladder_policy where
  "small_ladder = \<lparr>freeFailures = 1, firstWaitMs = 1, maxWaitMs = 1, hardCeiling = Some 2, knownIpMs = 0,
     knownIpFreeFailures = 0, retentionMs = 1, freeRetentionMs = 1, onSuccess = ''clear''\<rparr>"

theorem ladder_ceiling_takes_half_time_witness:
  "\<exists>y r. ladder_reachable mem_redis small_ladder ''c'' ''k'' y \<and> counter_at mem_redis (store y) ''c'' = Some r
     \<and> c_n r = 2 \<and> (\<Sum>i = 0..<2. ladderWaitMs i small_ladder) \<le> 2 * (last_at y - first_at y)
     \<and> last_at y - first_at y = 1"
proof -
  let ?p = small_ladder and ?R = mem_redis
  define y0 where "y0 = \<lparr>store = mem_empty, clock = 0, first_at = 0, last_at = 0\<rparr>"
  define s1 where "s1 = snd (run_reserve ?R ?p ''c'' ''k'' 0 '''' ''r'' mem_empty)"
  define y1 where "y1 = y0\<lparr>store := s1, last_at := 0, first_at := 0\<rparr>"
  define y2 where "y2 = y1\<lparr>clock := 1\<rparr>"
  define s2 where "s2 = snd (run_reserve ?R ?p ''c'' ''k'' 1 '''' ''q'' s1)"
  define y3 where "y3 = y2\<lparr>store := s2, last_at := 1, first_at := 0\<rparr>"
  have r1: "run_reserve ?R ?p ''c'' ''k'' 0 '''' ''r'' mem_empty = (Counted 1 ''r'', s1)"
    unfolding s1_def by (simp add: run_reserve_def RESERVE_SCRIPT_def small_ladder_def mem_redis_def mem_empty_def Let_def)
  have s1: "counter_at ?R s1 ''c'' = Some \<lparr>c_n = 1, c_until = 1, c_run = ''r'', c_k = 0\<rparr>"
    unfolding s1_def
    by (simp add: run_reserve_def RESERVE_SCRIPT_def small_ladder_def mem_redis_def mem_empty_def counter_at_def Let_def)
  have r2: "run_reserve ?R ?p ''c'' ''k'' 1 '''' ''q'' s1 = (Counted 2 ''r'', s2)"
    unfolding s2_def s1_def
    by (simp add: run_reserve_def RESERVE_SCRIPT_def small_ladder_def mem_redis_def mem_empty_def Let_def)
  have s2: "counter_at ?R s2 ''c'' = Some \<lparr>c_n = 2, c_until = 2, c_run = ''r'', c_k = 0\<rparr>"
    unfolding s2_def s1_def
    by (simp add: run_reserve_def RESERVE_SCRIPT_def small_ladder_def mem_redis_def mem_empty_def counter_at_def Let_def)
  have "ladder_reachable ?R ?p ''c'' ''k'' y0"
    by (rule ladder_reachable.start) (simp add: y0_def mem_empty_def mem_redis_def)
  moreover have "ladder_step ?R ?p ''c'' ''k'' y0 y1"
    using ladder_step.counted[of ?R ?p "''c''" "''k''" y0 "''''" "''r''"] r1
    by (simp add: y0_def y1_def mem_empty_def mem_redis_def counter_at_def)
  moreover have "ladder_step ?R ?p ''c'' ''k'' y1 y2"
    unfolding y2_def by (rule ladder_step.tick) (simp add: y1_def y0_def)
  moreover have "ladder_step ?R ?p ''c'' ''k'' y2 y3"
    using ladder_step.counted[of ?R ?p "''c''" "''k''" y2 "''''" "''q''"] r2 s1
    by (simp add: y0_def y1_def y2_def y3_def)
  ultimately have reach: "ladder_reachable ?R ?p ''c'' ''k'' y3" by (blast intro: ladder_reachable.step)
  have chk: "checkLadderPolicy ?p = Inr ?p" by code_simp
  have s3: "counter_at ?R (store y3) ''c'' = Some \<lparr>c_n = 2, c_until = 2, c_run = ''r'', c_k = 0\<rparr>"
    using s2 by (simp add: y3_def)
  have "(\<Sum>i = 0..<2. ladderWaitMs i ?p) \<le> 2 * (last_at y3 - first_at y3)"
    by (rule ladder_ceiling_takes_half_time[OF mem.redis_store_axioms _ reach chk _ s3])
      (simp_all add: small_ladder_def)
  with reach s2 show ?thesis by (auto simp: y3_def y2_def y1_def y0_def)
qed

text \<open>
  C19. The reserve script refines the rules of an attempt: on a well-formed counter its reply
  and the counter it leaves are those of \<open>attempt\<close> (refused and unchanged inside the wait
  unless a known IP is within its bound; otherwise counted, the next wait set from
  \<open>ladderWaitMs\<close> and never shortened), the counter stays well-formed, and no other key of the
  store is touched.
\<close>

theorem reserve_refines_attempt:
  assumes "redis_store R" and "counter_wf R s K1"
    and "run_reserve R p K1 K2 now ip newRun s = (reply, s')"
  shows "attempt p now (is_known R p K2 now ip s) newRun (counter_at R s K1) = (reply, counter_at R s' K1)
    \<and> counter_wf R s' K1 \<and> (\<forall>k. k \<noteq> K1 \<longrightarrow> view R s' k = view R s k)"
  using redis_store.run_reserve_refines[OF assms(1,2), of p K2 now ip newRun]
    redis_store.run_reserve_frame[OF assms(1), of _ K1 p K2 now ip newRun s] assms(3) by simp

theorem reserve_refines_attempt_witness:
  "attempt PASSWORD_LADDER_POLICY 7 False ''r'' None
     = (Counted 1 ''r'', counter_at mem_redis
         (snd (run_reserve mem_redis PASSWORD_LADDER_POLICY ''c'' ''k'' 7 '''' ''r'' mem_empty)) ''c'')"
proof -
  have wf: "counter_wf mem_redis mem_empty ''c''"
    by (simp add: counter_wf_def mem_redis_def mem_empty_def)
  have rep: "run_reserve mem_redis PASSWORD_LADDER_POLICY ''c'' ''k'' 7 '''' ''r'' mem_empty =
      (Counted 1 ''r'', snd (run_reserve mem_redis PASSWORD_LADDER_POLICY ''c'' ''k'' 7 '''' ''r'' mem_empty))"
    by (simp add: run_reserve_def RESERVE_SCRIPT_def mem_redis_def mem_empty_def Let_def
        PASSWORD_LADDER_POLICY_def)
  have "counter_at mem_redis mem_empty ''c'' = None"
    by (simp add: counter_at_def mem_redis_def mem_empty_def)
  with reserve_refines_attempt[OF mem.redis_store_axioms wf rep] show ?thesis by (simp add: is_known_def)
qed

text \<open>
  C20. A success settles its own run only: under the shipped policies it ends the run it
  reserved, leaves a counter of any other run exactly as it is, and keeps at most 16 known
  IPs of the account once it remembers one.
\<close>

theorem settle_ends_own_run_only:
  assumes "redis_store R" and "counter_wf R s K1" and "K1 \<noteq> K2" and "res_counter r = K1"
    and "res_known r = K2" and "onSuccess (res_policy r) = ''clear''"
  shows "counter_at R (settle_success R r rememberIp now s) K1 =
      (case counter_at R s K1 of None \<Rightarrow> None
       | Some c \<Rightarrow> if c_run c = res_run r then None else Some c)
    \<and> (rememberIp \<and> knownIpMs (res_policy r) > 0 \<and> res_ip r \<noteq> '''' \<longrightarrow>
        ZCARD R (settle_success R r rememberIp now s) K2 \<le> 16)"
proof -
  have "counter_at R (settle_success R r rememberIp now s) K1
      = success (res_policy r) (res_run r) (counter_at R s K1)"
    unfolding settle_success_def assms(4,5) by (rule redis_store.settle_counter(1)[OF assms(1-3)])
  moreover have "ZCARD R (settle_success R r rememberIp now s) K2 \<le> 16"
    if "rememberIp" "knownIpMs (res_policy r) > 0" "res_ip r \<noteq> ''''"
    unfolding settle_success_def assms(4,5) LADDER_MAX_KNOWN_IPS_def
    by (rule redis_store.settle_known_ips[OF assms(1)]) (use that in simp_all)
  ultimately show ?thesis using assms(6) by (simp add: success_def split: option.split)
qed

definition one_run :: mem where
  "one_run = snd (run_reserve mem_redis PASSWORD_LADDER_POLICY ''c'' ''k'' 7 '''' ''r'' mem_empty)"

definition one_reservation :: "string \<Rightarrow> ladder_reservation" where
  "one_reservation run = \<lparr>res_counter = ''c'', res_known = ''k'', res_policy = PASSWORD_LADDER_POLICY,
     res_ip = ''ip'', res_failures = 1, res_run = run, res_settled = False\<rparr>"

theorem settle_ends_own_run_only_witness:
  "counter_at mem_redis (settle_success mem_redis (one_reservation ''r'') True 9 one_run) ''c'' = None
   \<and> counter_at mem_redis (settle_success mem_redis (one_reservation ''other'') True 9 one_run) ''c'' \<noteq> None"
proof -
  have c: "counter_at mem_redis one_run ''c'' = Some \<lparr>c_n = 1, c_until = 7, c_run = ''r'', c_k = 0\<rparr>"
    by (simp add: one_run_def run_reserve_def RESERVE_SCRIPT_def mem_redis_def mem_empty_def Let_def
        PASSWORD_LADDER_POLICY_def counter_at_def)
  then have wf: "counter_wf mem_redis one_run ''c''"
    by (auto simp: counter_at_def counter_wf_def split: option.splits rval.splits)
  from settle_ends_own_run_only[OF mem.redis_store_axioms wf, of "''k''" "one_reservation ''r''" True 9]
    settle_ends_own_run_only[OF mem.redis_store_axioms wf, of "''k''" "one_reservation ''other''" True 9] c
  show ?thesis by (simp add: one_reservation_def PASSWORD_LADDER_POLICY_def)
qed

text \<open>
  The counters of two accounts, identifiers, realms or factors never share a key: two
  subjects the ladder accepts meet the same counter key only when the realm, the factor and
  the subject are the same, and no counter key is a known-IP key of the shipped counters.
\<close>

theorem ladder_keys_never_meet:
  assumes "subjectPart realm sub factor = Inr part" and "subjectPart realm' sub' factor' = Inr part'"
    and "ladderCounterKey realm part factor = ladderCounterKey realm' part' factor'"
  shows "realm = realm' \<and> factor = factor' \<and> sub = sub'"
proof -
  have "realm = realm' \<and> part = part' \<and> factor = factor'"
    by (rule ladder_key_inject[OF subjectPart_shape(1)[OF assms(1)] subjectPart_shape(1)[OF assms(2)]
          subjectPart_shape(2)[OF assms(1)] subjectPart_shape(2)[OF assms(2)] assms(3)])
  with subjectPart_inject[of realm sub factor part realm' sub'] assms(1,2) show ?thesis by simp
qed

theorem ladder_keys_never_meet_witness:
  "ladderCounterKey ''r1'' ''abc'' ''password'' = ladderCounterKey ''r1'' ''abc'' ''password''
   \<and> subjectPart ''r1'' \<lparr>identifierHmac = Some ''abc'', userId = None\<rparr> ''password'' = Inr ''abc''
   \<and> ladderCounterKey ''r1'' (''user:'' @ ''abc'') ''totp'' \<noteq> ladderCounterKey ''r1'' ''abc'' ''password''"
proof -
  have p: "subjectPart ''r1'' \<lparr>identifierHmac = Some ''abc'', userId = None\<rparr> ''password'' = Inr ''abc''"
    by code_simp
  have t: "subjectPart ''r1'' \<lparr>identifierHmac = None, userId = Some ''abc''\<rparr> ''totp'' = Inr (''user:'' @ ''abc'')"
    by code_simp
  from ladder_keys_never_meet[OF t p] p show ?thesis by auto
qed

end
