(* ===== verification/Sliding_Log.thy ===== *)
theory Sliding_Log
  imports Redis
begin

text \<open>
  Sliding logs: a sorted set of times, pruned as its window slides, that the send caps and the
  round limits count in. \<open>log_inv\<close> relates such a log to the full history of what it recorded
  and bounds every window of that history; its lemmas give the one step of each kind a store
  makes (the clock moves, the log is pruned, an entry is recorded below the limit), so each
  limiter shows only that its scripts make such steps.
\<close>

definition in_window :: "ms list \<Rightarrow> ms \<Rightarrow> ms \<Rightarrow> int" where
  "in_window h w t = int (length (filter (\<lambda>x. t - w < x \<and> x \<le> t) h))"

definition log_inv :: "ms \<Rightarrow> int \<Rightarrow> ms \<Rightarrow> (string \<rightharpoonup> int) \<Rightarrow> ms list \<Rightarrow> bool" where
  "log_inv w limit now z h \<longleftrightarrow> finite (dom z)
     \<and> (\<forall>m x. z m = Some x \<longrightarrow> x \<le> now) \<and> (\<forall>x \<in> set h. x \<le> now)
     \<and> (\<forall>lo \<ge> now - w. card (newer z lo) = length (filter (\<lambda>x. lo < x) h))
     \<and> (\<forall>t. in_window h w t \<le> limit)"

lemma log_inv_empty: "0 \<le> limit \<Longrightarrow> log_inv w limit now Map.empty []"
  by (simp add: log_inv_def in_window_def newer_def)

lemma log_inv_tick: "log_inv w limit now z h \<Longrightarrow> now \<le> now' \<Longrightarrow> log_inv w limit now' z h"
  by (force simp: log_inv_def)

lemma log_inv_prune:
  assumes "log_inv w limit now z h" and "c \<le> now - w"
  shows "log_inv w limit now (keep_newer z c) h"
proof -
  have "newer (keep_newer z c) lo = newer z lo" if "lo \<ge> now - w" for lo
    using that assms(2) by (simp add: newer_keep_newer max_def)
  with assms show ?thesis by (auto simp: log_inv_def keep_newer_eq_Some)
qed

lemma log_inv_drop:
  assumes "log_inv w limit now z h" and "\<And>m x. z m = Some x \<Longrightarrow> x \<le> now - w"
  shows "log_inv w limit now Map.empty h"
proof -
  have "newer z lo = {}" if "lo \<ge> now - w" for lo using assms(2) that by (fastforce simp: newer_def)
  moreover have "newer Map.empty lo = ({} :: string set)" for lo by (simp add: newer_def)
  ultimately show ?thesis using assms(1) by (auto simp: log_inv_def)
qed

lemma log_inv_record:
  assumes inv: "log_inv w limit now z h" and fresh: "m \<notin> dom z"
    and room: "int (card (newer z (now - w))) < limit" and w: "0 \<le> w"
  shows "log_inv w limit now (z(m \<mapsto> now)) (now # h)"
proof -
  have fin: "finite (dom z)" and cnt: "\<And>lo. lo \<ge> now - w \<Longrightarrow> card (newer z lo) = length (filter (\<lambda>x. lo < x) h)"
    and hle: "\<And>x. x \<in> set h \<Longrightarrow> x \<le> now" and win: "\<And>t. in_window h w t \<le> limit"
    using inv by (auto simp: log_inv_def)
  have "in_window (now # h) w t \<le> limit" for t
  proof (cases "now \<le> t \<and> t - w < now")
    case True
    have "length (filter (\<lambda>x. t - w < x \<and> x \<le> t) h) \<le> length (filter (\<lambda>x. now - w < x) h)"
      using True by (intro length_filter_imp) auto
    with cnt[of "now - w"] room True show ?thesis by (simp add: in_window_def)
  next
    case False
    with win[of t] show ?thesis by (auto simp: in_window_def)
  qed
  moreover have "card (newer (z(m \<mapsto> now)) lo) = length (filter (\<lambda>x. lo < x) (now # h))"
    if "lo \<ge> now - w" for lo
    using cnt[OF that] card_newer_upd[OF fin fresh, of now lo] by simp
  ultimately show ?thesis using inv by (auto simp: log_inv_def split: if_splits)
qed

lemma log_inv_bound: "log_inv w limit now z h \<Longrightarrow> in_window h w t \<le> limit"
  by (simp add: log_inv_def)

subsection \<open>When a slot frees\<close>

text \<open>
  A full log's \<open>Retry-After\<close>: the entry of rank \<open>n - limit\<close> leaves the window at its score plus
  the window, no sooner and no later does the log hold fewer than \<open>limit\<close> entries.
\<close>

lemma slot_frees:
  fixes z :: "string \<rightharpoonup> int"
  assumes fin: "finite (dom z)" and lim: "0 < limit" and full: "limit \<le> int (card (dom z))"
    and x: "z m = Some x"
    and lo: "int (card (dom z)) - limit < int (card {m. \<exists>y \<le> x. z m = Some y})"
    and hi: "int (card (dom z)) - (int (card (dom z)) - limit) \<le> int (card {m. \<exists>y \<ge> x. z m = Some y})"
  shows "int (card (newer z x)) < limit" and "t < x \<Longrightarrow> limit \<le> int (card (newer z t))"
proof -
  let ?lo = "{m. \<exists>y \<le> x. z m = Some y}"
  have "dom z = newer z x \<union> ?lo" by (auto simp: newer_def not_less)
  moreover have "newer z x \<inter> ?lo = {}" by (auto simp: newer_def)
  moreover have "finite ?lo" by (rule finite_subset[OF _ fin]) auto
  ultimately have "card (dom z) = card (newer z x) + card ?lo"
    using card_Un_disjoint[of "newer z x" ?lo] finite_newer[OF fin] by simp
  with lo show "int (card (newer z x)) < limit" by linarith
  assume "t < x"
  then have "{m. \<exists>y \<ge> x. z m = Some y} \<subseteq> newer z t" by (auto simp: newer_def)
  from card_mono[OF finite_newer[OF fin] this] hi show "limit \<le> int (card (newer z t))" by linarith
qed

subsection \<open>Logs whose entries may be taken back\<close>

text \<open>
  \<open>held_inv\<close> keeps the history as the entries still held, each with its member: a log that also
  removes an entry by its member bounds every window of what is still held.
\<close>

definition held_inv :: "ms \<Rightarrow> int \<Rightarrow> ms \<Rightarrow> (string \<rightharpoonup> int) \<Rightarrow> (string \<times> ms) list \<Rightarrow> bool" where
  "held_inv w lim now z H \<longleftrightarrow> distinct (map fst H) \<and> (\<forall>x \<in> snd ` set H. x \<le> now)
     \<and> z \<subseteq>\<^sub>m map_of H \<and> (\<forall>m x. map_of H m = Some x \<longrightarrow> now - w < x \<longrightarrow> z m = Some x)
     \<and> (\<forall>t. in_window (map snd H) w t \<le> lim)"

lemma held_inv_empty: "0 \<le> lim \<Longrightarrow> held_inv w lim now Map.empty []"
  by (simp add: held_inv_def in_window_def)

lemma held_inv_tick: "held_inv w lim now z H \<Longrightarrow> now \<le> now' \<Longrightarrow> held_inv w lim now' z H"
  by (force simp: held_inv_def)

lemma held_inv_prune:
  assumes "held_inv w lim now z H" and "c \<le> now - w"
  shows "held_inv w lim now (keep_newer z c) H"
proof -
  have "keep_newer z c \<subseteq>\<^sub>m z" by (auto simp: map_le_def keep_newer_def split: option.splits if_splits)
  with assms show ?thesis by (force simp: held_inv_def keep_newer_eq_Some dest: map_le_trans)
qed

lemma held_inv_drop:
  assumes "held_inv w lim now z H" and "\<And>m x. z m = Some x \<Longrightarrow> x \<le> now - w"
  shows "held_inv w lim now Map.empty H"
  using assms by (force simp: held_inv_def)

lemma in_window_filter_le: "in_window (map snd (filter P H)) w t \<le> in_window (map snd H) w t"
  by (induction H) (auto simp: in_window_def)

lemma held_inv_remove:
  assumes "held_inv w lim now z H"
  shows "held_inv w lim now (z(m := None)) (filter (\<lambda>e. fst e \<noteq> m) H)"
proof -
  have mo: "map_of (filter (\<lambda>e. fst e \<noteq> m) H) = (map_of H)(m := None)"
    by (induction H) auto
  have "z(m := None) \<subseteq>\<^sub>m (map_of H)(m := None)"
    using assms by (auto simp: held_inv_def map_le_def)
  moreover have "distinct (map fst (filter (\<lambda>e. fst e \<noteq> m) H))"
    using assms by (simp add: held_inv_def distinct_map_filter)
  moreover have "in_window (map snd (filter (\<lambda>e. fst e \<noteq> m) H)) w t \<le> lim" for t
    using assms by (intro order_trans[OF in_window_filter_le]) (simp add: held_inv_def)
  ultimately show ?thesis
    using assms unfolding held_inv_def mo by auto
qed

lemma card_newer_held:
  assumes "held_inv w lim now z H" and "now - w \<le> lo"
  shows "card (newer z lo) = length (filter (\<lambda>x. lo < x) (map snd H))"
proof -
  have d: "distinct (map fst H)" using assms by (simp add: held_inv_def)
  have "newer z lo = fst ` set (filter (\<lambda>e. lo < snd e) H)"
  proof (intro set_eqI iffI)
    fix m assume "m \<in> newer z lo"
    then obtain x where "z m = Some x" "lo < x" by (auto simp: newer_def)
    then have "map_of H m = Some x" using assms(1) by (metis held_inv_def domI map_le_def)
    then show "m \<in> fst ` set (filter (\<lambda>e. lo < snd e) H)" using \<open>lo < x\<close> map_of_SomeD by force
  next
    fix m assume "m \<in> fst ` set (filter (\<lambda>e. lo < snd e) H)"
    then obtain x where "(m, x) \<in> set H" "lo < x" by force
    then have "map_of H m = Some x" using d by simp
    with assms \<open>lo < x\<close> show "m \<in> newer z lo" by (auto simp: held_inv_def newer_def)
  qed
  also have "card \<dots> = length (filter (\<lambda>e. lo < snd e) H)"
    using distinct_map_filter[OF d, of "\<lambda>e. lo < snd e"] by (metis distinct_card length_map list.set_map)
  finally show ?thesis by (simp add: filter_map comp_def)
qed

lemma held_inv_record:
  assumes inv: "held_inv w lim now z H" and fresh: "m \<notin> fst ` set H"
    and room: "int (card (newer z (now - w))) < lim" and w: "0 \<le> w"
  shows "held_inv w lim now (z(m \<mapsto> now)) ((m, now) # H)"
proof -
  have "in_window (now # map snd H) w t \<le> lim" for t
  proof (cases "now \<le> t \<and> t - w < now")
    case True
    have "length (filter (\<lambda>x. t - w < x \<and> x \<le> t) (map snd H)) \<le> length (filter (\<lambda>x. now - w < x) (map snd H))"
      using True by (intro length_filter_imp) auto
    with card_newer_held[OF inv, of "now - w"] room True show ?thesis by (simp add: in_window_def)
  next
    case False
    then show ?thesis using inv by (auto simp: in_window_def held_inv_def)
  qed
  moreover have "z(m \<mapsto> now) \<subseteq>\<^sub>m (map_of H)(m \<mapsto> now)" using inv by (auto simp: held_inv_def map_le_def)
  ultimately show ?thesis using inv fresh by (auto simp: held_inv_def)
qed

lemma held_inv_bound: "held_inv w lim now z H \<Longrightarrow> in_window (map snd H) w t \<le> lim"
  by (simp add: held_inv_def)

end
