(* ===== verification/Send_Caps.thy ===== *)
theory Send_Caps
  imports Sliding_Log Ladder
begin

text \<open>
  The send caps: their rules (\<open>libs/server/sign-in-engine/src/lib/send-caps.ts\<close>) and their
  Redis store (\<open>libs/fastify/plugins/sign-in-engine/src/lib/send-caps.ts\<close>): one script that
  decides a send and counts it on every tier that applies, the passes mailed past a full
  ceiling and the once-an-interval notices. SHA-256 (\<open>sha256\<close>, base64url), the clock and the
  random pass and log member are arguments.
\<close>

subsection \<open>The rules\<close>

record send_window =
  limit :: int
  windowMs :: ms

record send_cap_policy =
  addressIpShort :: send_window
  addressIpLong :: send_window
  addressClient :: send_window
  ceilingCap :: send_window
  afterFirstFactor :: send_window
  endUserIp :: send_window
  clientCap :: send_window
  noticeIntervalMs :: ms
  passTtlMs :: ms

definition MINUTE_MS :: ms where
  "MINUTE_MS = 60000"

definition HOUR_MS :: ms where
  "HOUR_MS = 60 * MINUTE_MS"

definition SEND_CAP_POLICY :: send_cap_policy where
  "SEND_CAP_POLICY = \<lparr>
     addressIpShort = \<lparr>limit = 3, windowMs = 15 * MINUTE_MS\<rparr>,
     addressIpLong = \<lparr>limit = 10, windowMs = 24 * HOUR_MS\<rparr>,
     addressClient = \<lparr>limit = 10, windowMs = 24 * HOUR_MS\<rparr>,
     ceilingCap = \<lparr>limit = 30, windowMs = 24 * HOUR_MS\<rparr>,
     afterFirstFactor = \<lparr>limit = 30, windowMs = 24 * HOUR_MS\<rparr>,
     endUserIp = \<lparr>limit = 10, windowMs = HOUR_MS\<rparr>,
     clientCap = \<lparr>limit = 1000, windowMs = HOUR_MS\<rparr>,
     noticeIntervalMs = 24 * HOUR_MS,
     passTtlMs = 24 * HOUR_MS\<rparr>"

datatype send_cap_error =
    LimitBelow1 string
  | WindowBelowASecond string
  | ShortOutlastsLong
  | ShortAdmitsMoreThanLong
  | LongAdmitsMoreThanCeiling
  | NoticeIntervalBelowAMinute
  | PassTtlBelowAMinute
  | PassTtlAboveADay
  | SendPartOutOfShape string
  | NotAPassFlow
  | PassNotStored
  | NotANotice

definition checkWindow :: "send_window \<Rightarrow> string \<Rightarrow> send_cap_error + unit" where
  "checkWindow w name =
     (if \<not> isSafeInteger (limit w) \<or> limit w < 1 then Inl (LimitBelow1 name)
      else if \<not> isSafeInteger (windowMs w) \<or> windowMs w < 1000 then Inl (WindowBelowASecond name)
      else Inr ())"

text \<open>The checks run in order and the first failure is thrown.\<close>

fun checkWindows :: "(send_window \<times> string) list \<Rightarrow> send_cap_error + unit" where
  "checkWindows [] = Inr ()"
| "checkWindows ((w, name) # ws) = (case checkWindow w name of Inl e \<Rightarrow> Inl e | Inr _ \<Rightarrow> checkWindows ws)"

definition checkSendCapPolicy :: "send_cap_policy \<Rightarrow> send_cap_error + send_cap_policy" where
  "checkSendCapPolicy p =
     (case checkWindows [(addressIpShort p, ''addressIpShort''), (addressIpLong p, ''addressIpLong''),
         (addressClient p, ''addressClient''), (ceilingCap p, ''ceiling''),
         (afterFirstFactor p, ''afterFirstFactor''), (endUserIp p, ''endUserIp''), (clientCap p, ''client'')] of
        Inl e \<Rightarrow> Inl e
      | Inr _ \<Rightarrow>
          if windowMs (addressIpShort p) > windowMs (addressIpLong p) then Inl ShortOutlastsLong
          else if limit (addressIpShort p) > limit (addressIpLong p) then Inl ShortAdmitsMoreThanLong
          else if limit (addressIpLong p) > limit (ceilingCap p) then Inl LongAdmitsMoreThanCeiling
          else if \<not> isSafeInteger (noticeIntervalMs p) \<or> noticeIntervalMs p < 60000
            then Inl NoticeIntervalBelowAMinute
          else if \<not> isSafeInteger (passTtlMs p) \<or> passTtlMs p < 60000 then Inl PassTtlBelowAMinute
          else if passTtlMs p > 24 * HOUR_MS then Inl PassTtlAboveADay
          else Inr p)"

definition retryAfterSeconds :: "ms \<Rightarrow> int" where
  "retryAfterSeconds retryAfterMs = max 1 (ceil_div retryAfterMs 1000)"

datatype send_tier = TierEndUserIp | TierClient | TierCeiling | TierAfterFirstFactor | TierAddressClient

datatype send_decision = Send bool | Quiet | Refused send_tier ms bool

subsection \<open>The script that decides and counts\<close>

definition prune :: "'s redis \<Rightarrow> key \<Rightarrow> ms \<Rightarrow> ms \<Rightarrow> 's \<Rightarrow> 's" where
  "prune R k now w s = ZREMRANGEBYSCORE R k (now - w) s"

definition logCount :: "'s redis \<Rightarrow> 's \<Rightarrow> key \<Rightarrow> ms \<Rightarrow> ms \<Rightarrow> int" where
  "logCount R s k now w = ZCOUNT R s k (now - w)"

text \<open>\<open>full\<close>: prune the log, then compare its count with the limit.\<close>

definition fullLog :: "'s redis \<Rightarrow> key \<Rightarrow> ms \<Rightarrow> send_window \<Rightarrow> 's \<Rightarrow> bool \<times> 's" where
  "fullLog R k now w s =
     (let s' = prune R k now (windowMs w) s in (logCount R s' k now (windowMs w) \<ge> limit w, s'))"

text \<open>\<open>refused\<close>: how long until the oldest send of the full window leaves it.\<close>

definition refusedWait :: "'s redis \<Rightarrow> 's \<Rightarrow> key \<Rightarrow> ms \<Rightarrow> send_window \<Rightarrow> ms" where
  "refusedWait R s k now w =
     (let n = logCount R s k now (windowMs w);
          wait = (case ZRANGEBYSCORE_LIMIT R s k (now - windowMs w) (n - limit w) of
                    [] \<Rightarrow> 0
                  | (m, oldest) # _ \<Rightarrow> oldest + windowMs w - now)
      in if wait < 1 then 1 else wait)"

definition passLive :: "'s redis \<Rightarrow> 's \<Rightarrow> key \<Rightarrow> string \<Rightarrow> ms \<Rightarrow> bool" where
  "passLive R s K7 address now =
     (case GET R s K7 of
        Some (RStr bound) \<Rightarrow>
          CHR '':'' \<in> set bound \<and> takeWhile (\<lambda>c. c \<noteq> CHR '':'') bound = address
          \<and> (case undec (after_last_colon bound) of None \<Rightarrow> 0 | Some e \<Rightarrow> int e) > now
      | _ \<Rightarrow> False)"

definition recordAt :: "'s redis \<Rightarrow> key \<Rightarrow> ms \<Rightarrow> string \<Rightarrow> ms \<Rightarrow> 's \<Rightarrow> 's" where
  "recordAt R k now member w s = PEXPIRE R k w (ZADD R k now member s)"

text \<open>The tiers keyed on the address and a client, then on the address and an IP.\<close>

definition pairTiers :: "'s redis \<Rightarrow> key \<Rightarrow> key \<Rightarrow> ms \<Rightarrow> bool \<Rightarrow> bool \<Rightarrow> send_cap_policy \<Rightarrow> 's
    \<Rightarrow> send_decision option \<times> 's" where
  "pairTiers R K3 K4 now hasIp hasClient p s =
     (let (clientFull, s1) = (if hasClient then fullLog R K4 now (addressClient p) s else (False, s))
      in if clientFull then (Some (Refused TierAddressClient (refusedWait R s1 K4 now (addressClient p)) False), s1)
         else if hasIp
         then let s2 = prune R K3 now (windowMs (addressIpLong p)) s1
              in if logCount R s2 K3 now (windowMs (addressIpShort p)) \<ge> limit (addressIpShort p)
                    \<or> logCount R s2 K3 now (windowMs (addressIpLong p)) \<ge> limit (addressIpLong p)
                 then (Some Quiet, s2) else (None, s2)
         else (None, s1))"

text \<open>Every per-address tier, for a send that nothing exempts.\<close>

definition addressTiers :: "'s redis \<Rightarrow> key \<Rightarrow> key \<Rightarrow> key \<Rightarrow> key \<Rightarrow> key \<Rightarrow> ms \<Rightarrow> bool \<Rightarrow> bool \<Rightarrow> bool
    \<Rightarrow> send_cap_policy \<Rightarrow> 's \<Rightarrow> send_decision option \<times> 's" where
  "addressTiers R K3 K4 K5 K6 K8 now hasIp hasClient after p s =
     (if after
      then let (full, s1) = fullLog R K6 now (afterFirstFactor p) s
           in if full then (Some (Refused TierAfterFirstFactor (refusedWait R s1 K6 now (afterFirstFactor p)) False), s1)
              else pairTiers R K3 K4 now hasIp hasClient p s1
      else let (full, s1) = fullLog R K5 now (ceilingCap p) s
           in if full
              then let alert = num_or 0 (GET R s1 K8) \<le> now;
                       s2 = (if alert then SET R K8 (RInt (now + noticeIntervalMs p)) (noticeIntervalMs p) s1 else s1)
                   in (Some (Refused TierCeiling (refusedWait R s2 K5 now (ceilingCap p)) alert), s2)
              else pairTiers R K3 K4 now hasIp hasClient p s1)"

text \<open>The records of an admitted send.\<close>

definition recordSend :: "'s redis \<Rightarrow> key \<Rightarrow> key \<Rightarrow> key \<Rightarrow> key \<Rightarrow> key \<Rightarrow> key \<Rightarrow> ms \<Rightarrow> string \<Rightarrow> bool \<Rightarrow> bool
    \<Rightarrow> bool \<Rightarrow> bool \<Rightarrow> send_cap_policy \<Rightarrow> 's \<Rightarrow> 's" where
  "recordSend R K1 K2 K3 K4 K5 K6 now member hasIp hasClient after exempt p s =
     (let s1 = (if hasIp then recordAt R K1 now member (windowMs (endUserIp p)) s else s);
          s2 = (if hasClient then recordAt R K2 now member (windowMs (clientCap p)) s1 else s1)
      in if exempt then s2
         else let s3 = (if after then recordAt R K6 now member (windowMs (afterFirstFactor p)) s2
                        else recordAt R K5 now member (windowMs (ceilingCap p)) s2);
                  s4 = (if hasClient then recordAt R K4 now member (windowMs (addressClient p)) s3 else s3)
              in if hasIp then recordAt R K3 now member (windowMs (addressIpLong p)) s4 else s4)"

definition RESERVE_SEND_SCRIPT :: "'s redis \<Rightarrow> key \<Rightarrow> key \<Rightarrow> key \<Rightarrow> key \<Rightarrow> key \<Rightarrow> key \<Rightarrow> key \<Rightarrow> key \<Rightarrow> ms \<Rightarrow> string
    \<Rightarrow> bool \<Rightarrow> bool \<Rightarrow> bool \<Rightarrow> bool \<Rightarrow> bool \<Rightarrow> send_cap_policy \<Rightarrow> string \<Rightarrow> 's \<Rightarrow> send_decision \<times> 's" where
  "RESERVE_SEND_SCRIPT R K1 K2 K3 K4 K5 K6 K7 K8 now member hasIp hasClient knownIp after hasPass p address s =
     (let (ipFull, s1) = (if hasIp then fullLog R K1 now (endUserIp p) s else (False, s))
      in if ipFull then (Refused TierEndUserIp (refusedWait R s1 K1 now (endUserIp p)) False, s1)
      else let (clientFull, s2) = (if hasClient then fullLog R K2 now (clientCap p) s1 else (False, s1))
      in if clientFull then (Refused TierClient (refusedWait R s2 K2 now (clientCap p)) False, s2)
      else let passOk = (hasPass \<and> passLive R s2 K7 address now);
               exempt = (knownIp \<or> passOk)
      in case (if exempt then (None, s2) else addressTiers R K3 K4 K5 K6 K8 now hasIp hasClient after p s2) of
           (Some d, s3) \<Rightarrow> (d, s3)
         | (None, s3) \<Rightarrow>
             let s4 = recordSend R K1 K2 K3 K4 K5 K6 now member hasIp hasClient after exempt p s3
             in if passOk then (Send True, DEL R K7 s4) else (Send False, s4))"

definition CLAIM_MARK_SCRIPT :: "'s redis \<Rightarrow> key \<Rightarrow> ms \<Rightarrow> ms \<Rightarrow> 's \<Rightarrow> bool \<times> 's" where
  "CLAIM_MARK_SCRIPT R K now ttl s =
     (if num_or 0 (GET R s K) > now then (False, s) else (True, SET R K (RInt (now + ttl)) ttl s))"

definition RELEASE_MARK_SCRIPT :: "'s redis \<Rightarrow> key \<Rightarrow> 's \<Rightarrow> 's" where
  "RELEASE_MARK_SCRIPT R K s = DEL R K s"

subsection \<open>The store\<close>

fun join_colon :: "string list \<Rightarrow> string" where
  "join_colon [] = ''''"
| "join_colon [x] = x"
| "join_colon (x # xs) = x @ '':'' @ join_colon xs"

text \<open>A key of the realm; its \<open>part\<close> check of the realm id is made by the callers below.\<close>

definition sendCapKey :: "string \<Rightarrow> string list \<Rightarrow> key" where
  "sendCapKey realmId parts = ''send-caps:{'' @ realmId @ ''}:'' @ join_colon parts"

record send_request =
  sr_realmId :: string
  sr_addressHmac :: string
  sr_endUserIpHmac :: "string option"
  sr_clientKey :: "string option"
  sr_knownIp :: bool
  sr_afterFirstFactor :: bool
  sr_passHash :: "string option"

definition opt_part :: "string option \<Rightarrow> bool" where
  "opt_part x \<longleftrightarrow> (case x of None \<Rightarrow> True | Some v \<Rightarrow> KEY_PART v)"

text \<open>The script's reply as read back: its shape is the script's own, so only the wait is adjusted.\<close>

definition decisionOf :: "send_decision \<Rightarrow> send_decision" where
  "decisionOf d = (case d of Refused tier wait alert \<Rightarrow> Refused tier (max 1 wait) alert | _ \<Rightarrow> d)"

definition reserveSend :: "'s redis \<Rightarrow> (string \<Rightarrow> string) \<Rightarrow> send_cap_policy \<Rightarrow> ms \<Rightarrow> string \<Rightarrow> send_request \<Rightarrow> 's
    \<Rightarrow> send_cap_error + send_decision \<times> 's" where
  "reserveSend R sha256 p now member q s =
     (let realm = sr_realmId q; address = sr_addressHmac q; ip = sr_endUserIpHmac q;
          client = map_option sha256 (sr_clientKey q); pass = sr_passHash q;
          unused = sendCapKey realm [''unused'']
      in if \<not> KEY_PART address then Inl (SendPartOutOfShape ''an address HMAC'')
         else if \<not> opt_part ip then Inl (SendPartOutOfShape ''an IP HMAC'')
         else if \<not> opt_part pass then Inl (SendPartOutOfShape ''a pass hash'')
         else if \<not> KEY_PART realm then Inl (SendPartOutOfShape ''a realm id'')
         else
           let (d, s') = RESERVE_SEND_SCRIPT R
             (case ip of None \<Rightarrow> unused | Some i \<Rightarrow> sendCapKey realm [''ip'', i])
             (case client of None \<Rightarrow> unused | Some c \<Rightarrow> sendCapKey realm [''client'', c])
             (case ip of None \<Rightarrow> unused | Some i \<Rightarrow> sendCapKey realm [''address-ip'', address, i])
             (case client of None \<Rightarrow> unused | Some c \<Rightarrow> sendCapKey realm [''address-client'', address, c])
             (sendCapKey realm [''ceiling'', address])
             (sendCapKey realm [''after-first-factor'', address])
             (case pass of None \<Rightarrow> unused | Some h \<Rightarrow> sendCapKey realm [''pass'', h])
             (sendCapKey realm [''alert'', address])
             now member (ip \<noteq> None) (client \<noteq> None) (sr_knownIp q) (sr_afterFirstFactor q) (pass \<noteq> None)
             p address s
           in Inr (decisionOf d, s'))"

datatype mail_pass_flow = ResetFlow | RegisterFlow

fun flow_name :: "mail_pass_flow \<Rightarrow> string" where
  "flow_name ResetFlow = ''reset''"
| "flow_name RegisterFlow = ''register''"

definition flow_of :: "string \<Rightarrow> mail_pass_flow option" where
  "flow_of f = (if f = ''reset'' then Some ResetFlow else if f = ''register'' then Some RegisterFlow else None)"

text \<open>\<open>SET ... NX\<close>: the pass is stored only where no pass has its hash.\<close>

definition mintPass :: "'s redis \<Rightarrow> (string \<Rightarrow> string) \<Rightarrow> send_cap_policy \<Rightarrow> nat \<Rightarrow> string \<Rightarrow> string \<Rightarrow> string
    \<Rightarrow> mail_pass_flow \<Rightarrow> 's \<Rightarrow> send_cap_error + string \<times> 's" where
  "mintPass R sha256 p now pass realm address flow s =
     (if \<not> KEY_PART address then Inl (SendPartOutOfShape ''an address HMAC'')
      else if \<not> KEY_PART realm then Inl (SendPartOutOfShape ''a realm id'')
      else let k = sendCapKey realm [''pass'', sha256 pass]
           in if GET R s k \<noteq> None then Inl PassNotStored
              else Inr (pass, SET R k (RStr (address @ '':'' @ flow_name flow @ '':''
                @ dec (nat (int now + passTtlMs p)))) (passTtlMs p) s))"

definition PASS_PATTERN :: "string \<Rightarrow> bool" where
  "PASS_PATTERN s \<longleftrightarrow> length s = 43 \<and> list_all key_char s"

record mail_pass_binding =
  mb_passHash :: string
  mb_addressHmac :: string
  mb_flow :: mail_pass_flow

definition peekPass :: "'s redis \<Rightarrow> (string \<Rightarrow> string) \<Rightarrow> ms \<Rightarrow> string \<Rightarrow> string \<Rightarrow> 's
    \<Rightarrow> send_cap_error + mail_pass_binding option" where
  "peekPass R sha256 now realm pass s =
     (if \<not> PASS_PATTERN pass then Inr None
      else if \<not> KEY_PART realm then Inl (SendPartOutOfShape ''a realm id'')
      else case GET R s (sendCapKey realm [''pass'', sha256 pass]) of
             Some (RStr bound) \<Rightarrow>
               (case split_on (CHR '':'') bound of
                  address # f # e # _ \<Rightarrow>
                    (case flow_of f of
                       None \<Rightarrow> Inr None
                     | Some flow \<Rightarrow>
                         if \<not> KEY_PART address then Inr None
                         else (case undec e of
                                 None \<Rightarrow> Inr None
                               | Some expiresAt \<Rightarrow>
                                   if int expiresAt > now
                                   then Inr (Some \<lparr>mb_passHash = sha256 pass, mb_addressHmac = address, mb_flow = flow\<rparr>)
                                   else Inr None))
                | _ \<Rightarrow> Inr None)
           | _ \<Rightarrow> Inr None)"

definition NOTICE_KINDS :: "string list" where
  "NOTICE_KINDS = [''send_ceiling'', ''password_disabled'', ''recovery_codes_failed'', ''second_factor_failed'']"

definition noticeKey :: "string \<Rightarrow> string \<Rightarrow> string \<Rightarrow> send_cap_error + key" where
  "noticeKey realm address kind =
     (if kind \<notin> set NOTICE_KINDS then Inl NotANotice
      else if \<not> KEY_PART address then Inl (SendPartOutOfShape ''an address HMAC'')
      else if \<not> KEY_PART realm then Inl (SendPartOutOfShape ''a realm id'')
      else Inr (sendCapKey realm [''notice'', kind, address]))"

definition claimNotice :: "'s redis \<Rightarrow> send_cap_policy \<Rightarrow> ms \<Rightarrow> string \<Rightarrow> string \<Rightarrow> string \<Rightarrow> 's
    \<Rightarrow> send_cap_error + bool \<times> 's" where
  "claimNotice R p now realm address kind s =
     (case noticeKey realm address kind of
        Inl e \<Rightarrow> Inl e
      | Inr k \<Rightarrow> Inr (CLAIM_MARK_SCRIPT R k now (noticeIntervalMs p) s))"

definition releaseNotice :: "'s redis \<Rightarrow> string \<Rightarrow> string \<Rightarrow> string \<Rightarrow> 's \<Rightarrow> send_cap_error + 's" where
  "releaseNotice R realm address kind s =
     (case noticeKey realm address kind of
        Inl e \<Rightarrow> Inl e
      | Inr k \<Rightarrow> Inr (RELEASE_MARK_SCRIPT R k s))"

subsection \<open>What the script does to each log\<close>

fun is_send :: "send_decision \<Rightarrow> bool" where
  "is_send (Send _) = True"
| "is_send _ = False"

lemma is_send_iff: "is_send d \<longleftrightarrow> (\<exists>b. d = Send b)"
  by (cases d) simp_all

text \<open>One move of a log: left or pruned, or an entry recorded below the limit.\<close>

definition log_move :: "ms \<Rightarrow> send_window \<Rightarrow> string \<Rightarrow> bool \<Rightarrow> (string \<rightharpoonup> int) \<Rightarrow> (string \<rightharpoonup> int) \<Rightarrow> bool" where
  "log_move now w member recorded z z' \<longleftrightarrow>
     (if recorded then int (card (newer z (now - windowMs w))) < limit w
        \<and> z' = (keep_newer z (now - windowMs w))(member \<mapsto> now)
      else z' = z \<or> z' = keep_newer z (now - windowMs w))"

lemma log_inv_move:
  assumes "log_inv (windowMs w) (limit w) now z h" and "log_move now w member recorded z z'"
    and "member \<notin> dom z" and "0 \<le> windowMs w"
  shows "log_inv (windowMs w) (limit w) now z' (if recorded then now # h else h)"
proof (cases recorded)
  case True
  let ?y = "keep_newer z (now - windowMs w)"
  have "log_inv (windowMs w) (limit w) now ?y h" by (rule log_inv_prune[OF assms(1)]) simp
  moreover have "member \<notin> dom ?y" using assms(3) newer_subset_dom[of z] by auto
  moreover have "int (card (newer ?y (now - windowMs w))) < limit w"
    using assms(2) True by (simp add: log_move_def newer_keep_newer)
  ultimately have "log_inv (windowMs w) (limit w) now (?y(member \<mapsto> now)) (now # h)"
    using assms(4) by (rule log_inv_record)
  with True assms(2) show ?thesis by (simp add: log_move_def)
next
  case False
  with assms(1,2) log_inv_prune[OF assms(1)] show ?thesis by (auto simp: log_move_def)
qed

context redis_store
begin

lemma ZSCORE_log_ops [simp]:
  "ZSCORE R (prune R k now w s) k' = (if k' = k then keep_newer (ZSCORE R s k) (now - w) else ZSCORE R s k')"
  "ZSCORE R (recordAt R k now m w s) k' = (if k' = k then (ZSCORE R s k)(m \<mapsto> now) else ZSCORE R s k')"
  by (simp_all add: prune_def recordAt_def)

lemma GET_log_ops [simp]:
  "k' \<noteq> k \<Longrightarrow> GET R (prune R k now w s) k' = GET R s k'"
  "k' \<noteq> k \<Longrightarrow> GET R (recordAt R k now m w s) k' = GET R s k'"
  by (simp_all add: prune_def recordAt_def)

lemma logCount_eq: "logCount R s k now w = int (card (newer (ZSCORE R s k) (now - w)))"
  by (simp add: logCount_def ZCOUNT_eq)

lemma fullLog_eq:
  "fullLog R k now w s =
     (limit w \<le> int (card (newer (ZSCORE R s k) (now - windowMs w))), prune R k now (windowMs w) s)"
  by (simp add: fullLog_def logCount_eq newer_keep_newer Let_def)

lemma pairTiers_frame:
  assumes "pairTiers R K3 K4 now hasIp hasClient p s = (d, s')" and "k \<noteq> K3" and "k \<noteq> K4"
  shows "ZSCORE R s' k = ZSCORE R s k \<and> GET R s' k = GET R s k \<and> (\<forall>b. d \<noteq> Some (Send b))"
  using assms by (auto simp: pairTiers_def fullLog_eq Let_def split: if_splits)

lemma addressTiers_frame:
  assumes "addressTiers R K3 K4 K5 K6 K8 now hasIp hasClient after p s = (d, s')"
    and "k \<notin> {K3, K4, K5, K6, K8}"
  shows "ZSCORE R s' k = ZSCORE R s k \<and> GET R s' k = GET R s k \<and> (\<forall>b. d \<noteq> Some (Send b))"
  using assms by (auto simp: addressTiers_def fullLog_eq Let_def dest!: pairTiers_frame[where k = k] split: if_splits)

lemma addressTiers_ceiling:
  assumes "addressTiers R K3 K4 K5 K6 K8 now hasIp hasClient after p s = (d, s')"
    and "K5 \<notin> {K3, K4, K6, K8}"
  shows "if after then ZSCORE R s' K5 = ZSCORE R s K5
    else ZSCORE R s' K5 = keep_newer (ZSCORE R s K5) (now - windowMs (ceilingCap p))
      \<and> (d = None \<longrightarrow> int (card (newer (ZSCORE R s K5) (now - windowMs (ceilingCap p)))) < limit (ceilingCap p))
      \<and> (\<forall>b. d \<noteq> Some (Send b))"
  using assms by (auto simp: addressTiers_def fullLog_eq Let_def dest!: pairTiers_frame[where k = K5]
      split: if_splits)

lemma recordSend_ZSCORE:
  "K1 \<notin> {K2, K3, K4, K5, K6} \<Longrightarrow>
    ZSCORE R (recordSend R K1 K2 K3 K4 K5 K6 now member hasIp hasClient after exempt p s) K1
      = (if hasIp then (ZSCORE R s K1)(member \<mapsto> now) else ZSCORE R s K1)"
  "K5 \<notin> {K1, K2, K3, K4, K6} \<Longrightarrow>
    ZSCORE R (recordSend R K1 K2 K3 K4 K5 K6 now member hasIp hasClient after exempt p s) K5
      = (if \<not> exempt \<and> \<not> after then (ZSCORE R s K5)(member \<mapsto> now) else ZSCORE R s K5)"
  by (auto simp: recordSend_def Let_def)

lemma recordSend_frame:
  "k \<notin> {K1, K2, K3, K4, K5, K6} \<Longrightarrow>
    ZSCORE R (recordSend R K1 K2 K3 K4 K5 K6 now member hasIp hasClient after exempt p s) k = ZSCORE R s k \<and>
    GET R (recordSend R K1 K2 K3 K4 K5 K6 now member hasIp hasClient after exempt p s) k = GET R s k"
  by (auto simp: recordSend_def Let_def)

lemma script_ip_log:
  assumes "RESERVE_SEND_SCRIPT R K1 K2 K3 K4 K5 K6 K7 K8 now member True hasClient knownIp after hasPass p address s
      = (d, s')"
    and k: "K1 \<notin> {K2, K3, K4, K5, K6, K7, K8}"
  shows "log_move now (endUserIp p) member (is_send d) (ZSCORE R s K1) (ZSCORE R s' K1)"
  using assms(1) k
  by (auto simp: RESERVE_SEND_SCRIPT_def fullLog_eq Let_def log_move_def is_send_iff recordSend_ZSCORE
      dest!: addressTiers_frame[where k = K1] split: if_splits prod.splits option.splits)

lemma script_ceiling_log:
  assumes "RESERVE_SEND_SCRIPT R K1 K2 K3 K4 K5 K6 K7 K8 now member hasIp hasClient knownIp after hasPass p address s
      = (d, s')"
    and k: "K5 \<notin> {K1, K2, K3, K4, K6, K7, K8}"
  shows "log_move now (ceilingCap p) member (d = Send False \<and> \<not> knownIp \<and> \<not> after) (ZSCORE R s K5) (ZSCORE R s' K5)"
  using assms(1) k
  by (auto simp: RESERVE_SEND_SCRIPT_def fullLog_eq Let_def log_move_def recordSend_ZSCORE
      dest!: addressTiers_ceiling split: if_splits prod.splits option.splits)

lemma passLive_prune [simp]:
  "k' \<noteq> k \<Longrightarrow> passLive R (prune R k' now' w s) k address now = passLive R s k address now"
  by (simp add: passLive_def)

text \<open>Outside the logs and the alert mark only a pass changes, and only a live one is spent.\<close>

lemma script_frame:
  assumes "RESERVE_SEND_SCRIPT R K1 K2 K3 K4 K5 K6 K7 K8 now member hasIp hasClient knownIp after hasPass p address s
      = (d, s')"
    and "k \<notin> {K1, K2, K3, K4, K5, K6, K8}"
  shows "GET R s' k = (if d = Send True \<and> k = K7 then None else GET R s k)"
  using assms
  by (auto simp: RESERVE_SEND_SCRIPT_def fullLog_eq Let_def recordSend_frame
      dest!: addressTiers_frame[where k = k] split: if_splits prod.splits option.splits)

lemma script_ZSCORE_frame:
  assumes "RESERVE_SEND_SCRIPT R K1 K2 K3 K4 K5 K6 K7 K8 now member hasIp hasClient knownIp after hasPass p address s
      = (d, s')"
    and "k \<notin> {K1, K2, K3, K4, K5, K6, K7, K8}"
  shows "ZSCORE R s' k = ZSCORE R s k"
  using assms
  by (auto simp: RESERVE_SEND_SCRIPT_def fullLog_eq Let_def recordSend_frame
      dest!: addressTiers_frame[where k = k] split: if_splits prod.splits option.splits)

lemma script_spends_live:
  assumes "RESERVE_SEND_SCRIPT R K1 K2 K3 K4 K5 K6 K7 K8 now member hasIp hasClient knownIp after hasPass p address s
      = (Send True, s')"
    and "K7 \<notin> {K1, K2, K3, K4, K5, K6, K8}"
  shows "hasPass \<and> passLive R s K7 address now"
  using assms
  by (auto simp: RESERVE_SEND_SCRIPT_def fullLog_eq Let_def 
      dest!: addressTiers_frame[where k = K7] split: if_splits prod.splits option.splits)

text \<open>What is refused or dropped only prunes.\<close>

lemma keep_newer_le: "keep_newer z lo \<subseteq>\<^sub>m z"
  by (auto simp: map_le_def keep_newer_def split: option.splits if_splits)

lemma prune_le: "ZSCORE R (prune R k now w s) k' \<subseteq>\<^sub>m ZSCORE R s k'"
  by (simp add: keep_newer_le)

lemma SET_le: "k' \<noteq> k \<Longrightarrow> ZSCORE R (SET R k v ttl s) k' \<subseteq>\<^sub>m ZSCORE R s k'"
  by simp

lemma prunes_le:
  assumes "ZSCORE R s' k' \<subseteq>\<^sub>m ZSCORE R s k'"
  shows "ZSCORE R (prune R k now w s') k' \<subseteq>\<^sub>m ZSCORE R s k'"
  using prune_le assms by (rule map_le_trans)

lemma pairTiers_le:
  "pairTiers R K3 K4 now hasIp hasClient p s = (d, s') \<Longrightarrow> ZSCORE R s' k \<subseteq>\<^sub>m ZSCORE R s k"
  by (auto simp: pairTiers_def fullLog_eq Let_def simp del: ZSCORE_log_ops
      intro!: prunes_le map_le_refl split: if_splits)

lemma addressTiers_le:
  assumes "addressTiers R K3 K4 K5 K6 K8 now hasIp hasClient after p s = (d, s')" and "k \<noteq> K8"
  shows "ZSCORE R s' k \<subseteq>\<^sub>m ZSCORE R s k"
  using assms
  by (auto simp: addressTiers_def fullLog_eq Let_def simp del: ZSCORE_log_ops
      intro!: prunes_le map_le_refl dest!: pairTiers_le[where k = k, THEN map_le_trans, OF _ prune_le] split: if_splits)

lemma script_not_sent:
  assumes "RESERVE_SEND_SCRIPT R K1 K2 K3 K4 K5 K6 K7 K8 now member hasIp hasClient knownIp after hasPass p address s
      = (d, s')" and "\<not> is_send d" and "k \<noteq> K8"
  shows "ZSCORE R s' k \<subseteq>\<^sub>m ZSCORE R s k"
proof -
  let ?p1 = "\<lambda>s. if hasIp then prune R K1 now (windowMs (endUserIp p)) s else s"
  let ?p2 = "\<lambda>s. if hasClient then prune R K2 now (windowMs (clientCap p)) s else s"
  have le: "ZSCORE R (?p1 s) k \<subseteq>\<^sub>m ZSCORE R s k" "ZSCORE R (?p2 (?p1 s)) k \<subseteq>\<^sub>m ZSCORE R s k"
    by (simp_all add: keep_newer_le prunes_le del: ZSCORE_log_ops)
  have "s' = ?p1 s \<or> s' = ?p2 (?p1 s)
     \<or> (\<exists>d. addressTiers R K3 K4 K5 K6 K8 now hasIp hasClient after p (?p2 (?p1 s)) = (Some d, s'))"
    using assms(1,2) by (auto simp: RESERVE_SEND_SCRIPT_def fullLog_eq Let_def is_send_iff
        split: if_splits prod.splits option.splits)
  then show ?thesis
    using le map_le_trans[OF addressTiers_le[OF _ assms(3)] le(2)] by (elim disjE exE) simp_all
qed

lemma script_exempt:
  assumes "RESERVE_SEND_SCRIPT R K1 K2 K3 K4 K5 K6 K7 K8 now member hasIp hasClient True after hasPass p address s
      = (d, s')"
  shows "d \<noteq> Quiet \<and> (\<forall>t w a. d = Refused t w a \<longrightarrow> t \<in> {TierEndUserIp, TierClient})
    \<and> (k \<notin> {K1, K2, K7} \<longrightarrow> view R s' k = view R s k)"
  using assms
  by (auto simp: RESERVE_SEND_SCRIPT_def fullLog_eq Let_def recordSend_def prune_def recordAt_def view_PEXPIRE
      frame_zset frame_string split: if_splits prod.splits option.splits)

end

subsection \<open>The keys of a realm\<close>

lemma takeWhile_join: "CHR '':'' \<notin> set x \<Longrightarrow> takeWhile (\<lambda>c. c \<noteq> CHR '':'') (join_colon (x # xs)) = x"
  by (cases xs) (auto simp: takeWhile_append2 takeWhile_tail)

lemma sendCapKey_kind:
  assumes "KEY_PART r" and "KEY_PART r'" and "sendCapKey r (x # xs) = sendCapKey r' (y # ys)"
    and "CHR '':'' \<notin> set x" and "CHR '':'' \<notin> set y"
  shows "r = r' \<and> x = y \<and> join_colon (x # xs) = join_colon (y # ys)"
proof -
  have "r @ CHR ''}'' # '':'' @ join_colon (x # xs) = r' @ CHR ''}'' # '':'' @ join_colon (y # ys)"
    using assms(3) by (simp add: sendCapKey_def)
  then have "r = r'" "join_colon (x # xs) = join_colon (y # ys)"
    using append_sep_inject[OF KEY_PART_no_close[OF assms(1)] KEY_PART_no_close[OF assms(2)]] by auto
  with takeWhile_join[OF assms(4), of xs] takeWhile_join[OF assms(5), of ys] show ?thesis by simp
qed

lemma sendCapKey_kinds_differ:
  assumes "KEY_PART r" and "KEY_PART r'" and "x \<noteq> y" and "CHR '':'' \<notin> set x" and "CHR '':'' \<notin> set y"
  shows "sendCapKey r (x # xs) \<noteq> sendCapKey r' (y # ys)"
  using sendCapKey_kind[OF assms(1,2) _ assms(4,5)] assms(3) by metis

text \<open>The keys \<open>reserveSend\<close> passes, and its shape around the script.\<close>

definition sendKey1 :: "send_request \<Rightarrow> key" where
  "sendKey1 q = (case sr_endUserIpHmac q of None \<Rightarrow> sendCapKey (sr_realmId q) [''unused'']
     | Some i \<Rightarrow> sendCapKey (sr_realmId q) [''ip'', i])"

definition sendKey5 :: "send_request \<Rightarrow> key" where
  "sendKey5 q = sendCapKey (sr_realmId q) [''ceiling'', sr_addressHmac q]"

definition sendKey7 :: "send_request \<Rightarrow> key" where
  "sendKey7 q = (case sr_passHash q of None \<Rightarrow> sendCapKey (sr_realmId q) [''unused'']
     | Some h \<Rightarrow> sendCapKey (sr_realmId q) [''pass'', h])"

definition sendKey8 :: "send_request \<Rightarrow> key" where
  "sendKey8 q = sendCapKey (sr_realmId q) [''alert'', sr_addressHmac q]"

lemma reserveSend_script:
  assumes "reserveSend R sha256 p now member q s = Inr (d, s')"
  obtains K2 K3 K4 d0 where
    "RESERVE_SEND_SCRIPT R (sendKey1 q) K2 K3 K4 (sendKey5 q) (sendCapKey (sr_realmId q) [''after-first-factor'', sr_addressHmac q])
       (sendKey7 q) (sendKey8 q) now member (sr_endUserIpHmac q \<noteq> None) (sr_clientKey q \<noteq> None)
       (sr_knownIp q) (sr_afterFirstFactor q) (sr_passHash q \<noteq> None) p (sr_addressHmac q) s = (d0, s')"
    and "d = decisionOf d0"
    and "KEY_PART (sr_realmId q)" and "KEY_PART (sr_addressHmac q)" and "opt_part (sr_endUserIpHmac q)" "opt_part (sr_passHash q)"
    and "\<exists>x xs. K2 = sendCapKey (sr_realmId q) (x # xs) \<and> x \<in> {''client'', ''unused''}"
    and "\<exists>x xs. K3 = sendCapKey (sr_realmId q) (x # xs) \<and> x \<in> {''address-ip'', ''unused''}"
    and "\<exists>x xs. K4 = sendCapKey (sr_realmId q) (x # xs) \<and> x \<in> {''address-client'', ''unused''}"
proof -
  let ?r = "sr_realmId q" and ?a = "sr_addressHmac q"
  let ?c = "map_option sha256 (sr_clientKey q)"
  let ?K2 = "case ?c of None \<Rightarrow> sendCapKey ?r [''unused''] | Some c \<Rightarrow> sendCapKey ?r [''client'', c]"
  let ?K3 = "case sr_endUserIpHmac q of None \<Rightarrow> sendCapKey ?r [''unused''] | Some i \<Rightarrow> sendCapKey ?r [''address-ip'', ?a, i]"
  let ?K4 = "case ?c of None \<Rightarrow> sendCapKey ?r [''unused''] | Some c \<Rightarrow> sendCapKey ?r [''address-client'', ?a, c]"
  obtain d0 s0 where sc: "RESERVE_SEND_SCRIPT R (sendKey1 q) ?K2 ?K3 ?K4 (sendKey5 q) (sendCapKey ?r [''after-first-factor'', ?a])
       (sendKey7 q) (sendKey8 q) now member (sr_endUserIpHmac q \<noteq> None) (?c \<noteq> None)
       (sr_knownIp q) (sr_afterFirstFactor q) (sr_passHash q \<noteq> None) p ?a s = (d0, s0)" by fastforce
  have ok: "KEY_PART ?r" "KEY_PART ?a" "opt_part (sr_endUserIpHmac q)" "opt_part (sr_passHash q)"
    using assms by (auto simp: reserveSend_def Let_def split: if_splits)
  have eq: "s0 = s'" "d = decisionOf d0"
    using assms sc ok unfolding reserveSend_def Let_def sendKey1_def sendKey5_def sendKey7_def sendKey8_def
    by (simp_all add: split_beta)
  have "?c \<noteq> None \<longleftrightarrow> sr_clientKey q \<noteq> None" by simp
  with sc have sc': "RESERVE_SEND_SCRIPT R (sendKey1 q) ?K2 ?K3 ?K4 (sendKey5 q) (sendCapKey ?r [''after-first-factor'', ?a])
       (sendKey7 q) (sendKey8 q) now member (sr_endUserIpHmac q \<noteq> None) (sr_clientKey q \<noteq> None)
       (sr_knownIp q) (sr_afterFirstFactor q) (sr_passHash q \<noteq> None) p ?a s = (d0, s')"
    using eq(1) by simp
  show ?thesis
    by (rule that[OF sc' eq(2) ok]) (auto split: option.splits)
qed

lemma decisionOf_simps [simp]:
  "is_send (decisionOf d) = is_send d" "decisionOf d = Send b \<longleftrightarrow> d = Send b" "decisionOf d = Quiet \<longleftrightarrow> d = Quiet"
  by (cases d; simp add: decisionOf_def)+

text \<open>The log keys by their kinds, for whoever asks.\<close>

lemmas send_key_neqs = sendCapKey_kinds_differ not_sym[OF sendCapKey_kinds_differ]

context redis_store
begin

lemma reserveSend_ip_log:
  fixes i :: string
  assumes res: "reserveSend R sha256 p now member q s = Inr (d, s')" and r: "KEY_PART r"
  defines "K \<equiv> sendCapKey r [''ip'', i]"
  shows "log_move now (endUserIp p) member (is_send d \<and> sr_realmId q = r \<and> sr_endUserIpHmac q = Some i)
    (ZSCORE R s K) (ZSCORE R s' K)"
proof -
  obtain K2 K3 K4 d0 where sc:
    "RESERVE_SEND_SCRIPT R (sendKey1 q) K2 K3 K4 (sendKey5 q) (sendCapKey (sr_realmId q) [''after-first-factor'', sr_addressHmac q])
       (sendKey7 q) (sendKey8 q) now member (sr_endUserIpHmac q \<noteq> None) (sr_clientKey q \<noteq> None)
       (sr_knownIp q) (sr_afterFirstFactor q) (sr_passHash q \<noteq> None) p (sr_addressHmac q) s = (d0, s')"
    and d: "d = decisionOf d0" and q: "KEY_PART (sr_realmId q)"
    and K: "\<exists>x xs. K2 = sendCapKey (sr_realmId q) (x # xs) \<and> x \<in> {''client'', ''unused''}"
      "\<exists>x xs. K3 = sendCapKey (sr_realmId q) (x # xs) \<and> x \<in> {''address-ip'', ''unused''}"
      "\<exists>x xs. K4 = sendCapKey (sr_realmId q) (x # xs) \<and> x \<in> {''address-client'', ''unused''}"
    by (rule reserveSend_script[OF res]) blast
  have other: "K \<notin> {K2, K3, K4, sendKey5 q, sendCapKey (sr_realmId q) [''after-first-factor'', sr_addressHmac q],
      sendKey7 q, sendKey8 q}"
    using K by (auto simp: K_def sendKey5_def sendKey7_def sendKey8_def send_key_neqs[OF r q] send_key_neqs[OF q r]
        split: option.splits)
  show ?thesis
  proof (cases "sr_realmId q = r \<and> sr_endUserIpHmac q = Some i")
    case True
    then have "sendKey1 q = K" by (simp add: sendKey1_def K_def)
    with script_ip_log[of K] sc other True d show ?thesis by simp
  next
    case False
    have "sendKey1 q \<noteq> K"
    proof
      assume "sendKey1 q = K"
      then obtain j where "sr_endUserIpHmac q = Some j" "sendCapKey (sr_realmId q) [''ip'', j] = K"
        by (auto simp: sendKey1_def K_def send_key_neqs[OF r q] send_key_neqs[OF q r] split: option.splits)
      with sendCapKey_kind[OF q r, of "''ip''" "[j]" "''ip''" "[i]"] False show False by (simp add: K_def)
    qed
    with script_ZSCORE_frame[OF sc, of K] other False show ?thesis by (auto simp: log_move_def)
  qed
qed

lemma reserveSend_ceiling_log:
  fixes a :: string
  assumes res: "reserveSend R sha256 p now member q s = Inr (d, s')" and r: "KEY_PART r"
  defines "K \<equiv> sendCapKey r [''ceiling'', a]"
  shows "log_move now (ceilingCap p) member
    (d = Send False \<and> \<not> sr_knownIp q \<and> \<not> sr_afterFirstFactor q \<and> sr_realmId q = r \<and> sr_addressHmac q = a)
    (ZSCORE R s K) (ZSCORE R s' K)"
proof -
  obtain K2 K3 K4 d0 where sc:
    "RESERVE_SEND_SCRIPT R (sendKey1 q) K2 K3 K4 (sendKey5 q) (sendCapKey (sr_realmId q) [''after-first-factor'', sr_addressHmac q])
       (sendKey7 q) (sendKey8 q) now member (sr_endUserIpHmac q \<noteq> None) (sr_clientKey q \<noteq> None)
       (sr_knownIp q) (sr_afterFirstFactor q) (sr_passHash q \<noteq> None) p (sr_addressHmac q) s = (d0, s')"
    and d: "d = decisionOf d0" and q: "KEY_PART (sr_realmId q)"
    and K: "\<exists>x xs. K2 = sendCapKey (sr_realmId q) (x # xs) \<and> x \<in> {''client'', ''unused''}"
      "\<exists>x xs. K3 = sendCapKey (sr_realmId q) (x # xs) \<and> x \<in> {''address-ip'', ''unused''}"
      "\<exists>x xs. K4 = sendCapKey (sr_realmId q) (x # xs) \<and> x \<in> {''address-client'', ''unused''}"
    by (rule reserveSend_script[OF res]) blast
  have other: "K \<notin> {sendKey1 q, K2, K3, K4, sendCapKey (sr_realmId q) [''after-first-factor'', sr_addressHmac q],
      sendKey7 q, sendKey8 q}"
    using K by (auto simp: K_def sendKey1_def sendKey7_def sendKey8_def send_key_neqs[OF r q] send_key_neqs[OF q r]
        split: option.splits)
  show ?thesis
  proof (cases "sr_realmId q = r \<and> sr_addressHmac q = a")
    case True
    then have "sendKey5 q = K" by (simp add: sendKey5_def K_def)
    with script_ceiling_log[of _ _ _ _ K] sc other True d show ?thesis by simp
  next
    case False
    have "sendKey5 q \<noteq> K"
      using sendCapKey_kind[OF q r, of "''ceiling''" "[sr_addressHmac q]" "''ceiling''" "[a]"] False
      by (auto simp: K_def sendKey5_def)
    with script_ZSCORE_frame[OF sc, of K] other False show ?thesis by (auto simp: log_move_def)
  qed
qed

end

subsection \<open>Runs of the store\<close>

text \<open>
  A store in use, its clock and the ghost history of its decisions. Redis may drop a key of its
  own accord; the watched log \<open>K\<close>, whose window is \<open>w\<close>, only once nothing in it is younger than
  \<open>w\<close>: its expiry is set to the window at every record.
\<close>

record 's caps_state =
  cs_store :: 's
  cs_clock :: ms
  cs_sent :: "(ms \<times> send_request \<times> send_decision) list"

inductive caps_reachable :: "'s redis \<Rightarrow> (string \<Rightarrow> string) \<Rightarrow> send_cap_policy \<Rightarrow> key \<Rightarrow> ms \<Rightarrow> 's caps_state \<Rightarrow> bool"
  for R sha256 p K w where
  caps_start: "ZSCORE R s K = Map.empty \<Longrightarrow> caps_reachable R sha256 p K w \<lparr>cs_store = s, cs_clock = t, cs_sent = []\<rparr>"
| caps_tick: "caps_reachable R sha256 p K w st \<Longrightarrow> cs_clock st \<le> t \<Longrightarrow> caps_reachable R sha256 p K w (st\<lparr>cs_clock := t\<rparr>)"
| caps_reserve: "caps_reachable R sha256 p K w st \<Longrightarrow> (\<forall>k. member \<notin> dom (ZSCORE R (cs_store st) k)) \<Longrightarrow>
    reserveSend R sha256 p (cs_clock st) member q (cs_store st) = Inr (d, s') \<Longrightarrow>
    caps_reachable R sha256 p K w (st\<lparr>cs_store := s', cs_sent := (cs_clock st, q, d) # cs_sent st\<rparr>)"
| caps_mint: "caps_reachable R sha256 p K w st \<Longrightarrow>
    mintPass R sha256 p (nat (cs_clock st)) pass realm address flow (cs_store st) = Inr (x, s') \<Longrightarrow>
    caps_reachable R sha256 p K w (st\<lparr>cs_store := s'\<rparr>)"
| caps_claim: "caps_reachable R sha256 p K w st \<Longrightarrow>
    claimNotice R p (cs_clock st) realm address kind (cs_store st) = Inr (b, s') \<Longrightarrow>
    caps_reachable R sha256 p K w (st\<lparr>cs_store := s'\<rparr>)"
| caps_release: "caps_reachable R sha256 p K w st \<Longrightarrow>
    releaseNotice R realm address kind (cs_store st) = Inr s' \<Longrightarrow>
    caps_reachable R sha256 p K w (st\<lparr>cs_store := s'\<rparr>)"
| caps_expire: "caps_reachable R sha256 p K w st \<Longrightarrow>
    k \<noteq> K \<or> (\<forall>m x. ZSCORE R (cs_store st) K m = Some x \<longrightarrow> x \<le> cs_clock st - w) \<Longrightarrow>
    caps_reachable R sha256 p K w (st\<lparr>cs_store := DEL R k (cs_store st)\<rparr>)"

definition sent_where :: "(send_request \<Rightarrow> send_decision \<Rightarrow> bool) \<Rightarrow> 's caps_state \<Rightarrow> ms list" where
  "sent_where P st = map fst (filter (\<lambda>(t, q, d). P q d) (cs_sent st))"

context redis_store
begin

lemma mint_claim_release_log:
  fixes xs :: "string list"
  assumes "KEY_PART r" and "CHR '':'' \<notin> set x" and "x \<notin> {''pass'', ''notice''}"
  defines "K \<equiv> sendCapKey r (x # xs)"
  shows "mintPass R sha256 p t pass realm address flow s = Inr (y, s') \<Longrightarrow> ZSCORE R s' K = ZSCORE R s K"
    and "claimNotice R p now realm address kind s = Inr (b, s') \<Longrightarrow> ZSCORE R s' K = ZSCORE R s K"
    and "releaseNotice R realm address kind s = Inr s' \<Longrightarrow> ZSCORE R s' K = ZSCORE R s K"
  using assms sendCapKey_kinds_differ[OF assms(1) _ _ assms(2)]
  by (auto simp: K_def mintPass_def claimNotice_def releaseNotice_def noticeKey_def CLAIM_MARK_SCRIPT_def
      RELEASE_MARK_SCRIPT_def Let_def split: if_splits sum.splits)

lemma caps_log_inv:
  assumes run: "caps_reachable R sha256 p K (windowMs W) st"
    and K: "K = sendCapKey r (x # xs)" "KEY_PART r" "CHR '':'' \<notin> set x" "x \<notin> {''pass'', ''notice''}"
    and W: "0 \<le> limit W" "0 \<le> windowMs W"
    and move: "\<And>now member q s d s'. reserveSend R sha256 p now member q s = Inr (d, s') \<Longrightarrow>
      log_move now W member (P q d) (ZSCORE R s K) (ZSCORE R s' K)"
  shows "log_inv (windowMs W) (limit W) (cs_clock st) (ZSCORE R (cs_store st) K) (sent_where P st)"
  using run
proof induction
  case (caps_start s t)
  then show ?case using W by (simp add: sent_where_def log_inv_empty)
next
  case (caps_tick st t)
  then show ?case using log_inv_tick by (fastforce simp: sent_where_def)
next
  case (caps_reserve st member q d s')
  from log_inv_move[OF caps_reserve.IH move[OF caps_reserve.hyps(3)] _ W(2)] caps_reserve.hyps(2)
  show ?case by (auto simp: sent_where_def split: if_splits)
next
  case (caps_expire st k)
  then show ?case
  proof (cases "k = K")
    case True
    with caps_expire log_inv_drop[OF caps_expire.IH] show ?thesis by (simp add: sent_where_def)
  qed (simp add: sent_where_def)
qed (simp_all add: sent_where_def K(1) mint_claim_release_log[OF K(2-4)])

end

lemma checkWindow_ok: "checkWindow w n = Inr u \<Longrightarrow> 1 \<le> limit w \<and> 1000 \<le> windowMs w"
  by (simp add: checkWindow_def split: if_splits)

lemma checkSendCapPolicy_ok:
  assumes "checkSendCapPolicy p = Inr p'"
  shows "1 \<le> limit (endUserIp p) \<and> 1000 \<le> windowMs (endUserIp p)"
    and "1 \<le> limit (ceilingCap p) \<and> 1000 \<le> windowMs (ceilingCap p)"
    and "60000 \<le> noticeIntervalMs p" and "60000 \<le> passTtlMs p"
  using assms by (auto simp: checkSendCapPolicy_def dest: checkWindow_ok split: sum.splits if_splits)

text \<open>One mail on the empty store, for the witnesses.\<close>

definition one_request :: send_request where
  "one_request = \<lparr>sr_realmId = ''r'', sr_addressHmac = ''a'', sr_endUserIpHmac = Some ''i'', sr_clientKey = None,
     sr_knownIp = False, sr_afterFirstFactor = False, sr_passHash = None\<rparr>"

definition one_sent :: "send_decision \<times> mem" where
  "one_sent = (case reserveSend mem_redis id SEND_CAP_POLICY 5 ''m'' one_request mem_empty of
     Inr x \<Rightarrow> x | Inl _ \<Rightarrow> (Quiet, mem_empty))"

lemma mem_empty_views [simp]:
  "ZSCORE mem_redis mem_empty k = Map.empty" "GET mem_redis mem_empty k = None"
  by (simp_all add: mem_redis_def mem_empty_def)

lemma prune_mem_empty: "prune mem_redis k now w mem_empty = mem_empty"
  by (simp add: prune_def mem_redis_def mem_empty_def mem_sorted_def fun_upd_idem)

lemma one_sent_eq:
  "reserveSend mem_redis id SEND_CAP_POLICY 5 ''m'' one_request mem_empty = Inr (Send False, snd one_sent)"
proof -
  have parts: "KEY_PART ''r''" "KEY_PART ''a''" "opt_part (Some ''i'')" "opt_part None"
    by (simp_all add: KEY_PART_def opt_part_def key_char_def)
  have count: "logCount mem_redis mem_empty k now w = 0" for k now w
    by (simp add: mem.logCount_eq newer_def)
  show ?thesis
    by (simp add: one_sent_def reserveSend_def one_request_def parts RESERVE_SEND_SCRIPT_def Let_def fullLog_def
        count prune_mem_empty addressTiers_def pairTiers_def SEND_CAP_POLICY_def decisionOf_def)
qed

lemma SEND_CAP_POLICY_passes: "checkSendCapPolicy SEND_CAP_POLICY = Inr SEND_CAP_POLICY"
  by code_simp

lemma one_sent_reachable:
  "caps_reachable mem_redis id SEND_CAP_POLICY K w
     \<lparr>cs_store = snd one_sent, cs_clock = 5, cs_sent = [(5, one_request, Send False)]\<rparr>"
proof -
  have "caps_reachable mem_redis id SEND_CAP_POLICY K w \<lparr>cs_store = mem_empty, cs_clock = 5, cs_sent = []\<rparr>"
    by (rule caps_start) simp
  from caps_reserve[OF this, of "''m''" one_request "Send False" "snd one_sent"] one_sent_eq show ?thesis by simp
qed

subsection \<open>Properties\<close>

text \<open>
  C21. However sends, passes, notices and Redis's own expiry interleave, the number of mails sent
  from one end-user IP of a realm in any window of the per-IP cap's length is at most that cap's
  limit, exempt sends included.
\<close>

theorem ip_sends_bounded:
  assumes "redis_store R" and "checkSendCapPolicy p = Inr p'" and "KEY_PART r"
    and "caps_reachable R sha256 p (sendCapKey r [''ip'', i]) (windowMs (endUserIp p)) st"
  shows "in_window (sent_where (\<lambda>q d. is_send d \<and> sr_realmId q = r \<and> sr_endUserIpHmac q = Some i) st)
    (windowMs (endUserIp p)) t \<le> limit (endUserIp p)"
  using redis_store.caps_log_inv[OF assms(1,4) refl assms(3) _ _ _ _ redis_store.reserveSend_ip_log[OF assms(1) _ assms(3)]]
    checkSendCapPolicy_ok(1)[OF assms(2)]
  by (intro log_inv_bound) simp

theorem ip_sends_bounded_witness:
  "in_window (sent_where (\<lambda>q d. is_send d \<and> sr_realmId q = ''r'' \<and> sr_endUserIpHmac q = Some ''i'')
     \<lparr>cs_store = snd one_sent, cs_clock = 5, cs_sent = [(5, one_request, Send False)]\<rparr>) 3600000 5 \<le> 10
   \<and> in_window (sent_where (\<lambda>q d. is_send d \<and> sr_realmId q = ''r'' \<and> sr_endUserIpHmac q = Some ''i'')
     \<lparr>cs_store = snd one_sent, cs_clock = 5, cs_sent = [(5, one_request, Send False)]\<rparr>) 3600000 5 = 1"
proof -
  have "KEY_PART ''r''" by (simp add: KEY_PART_def key_char_def)
  from ip_sends_bounded[OF mem.redis_store_axioms SEND_CAP_POLICY_passes this one_sent_reachable, of "''i''" 5]
  show ?thesis
    by (simp add: SEND_CAP_POLICY_def HOUR_MS_def MINUTE_MS_def in_window_def sent_where_def one_request_def)
qed

text \<open>
  C22. The same of the ceiling on one address: mails that neither a known IP nor a spent pass
  exempts and that follow no first factor, at most the ceiling's limit in any of its windows.
\<close>

theorem ceiling_sends_bounded:
  assumes "redis_store R" and "checkSendCapPolicy p = Inr p'" and "KEY_PART r"
    and "caps_reachable R sha256 p (sendCapKey r [''ceiling'', a]) (windowMs (ceilingCap p)) st"
  shows "in_window (sent_where (\<lambda>q d. d = Send False \<and> \<not> sr_knownIp q \<and> \<not> sr_afterFirstFactor q
      \<and> sr_realmId q = r \<and> sr_addressHmac q = a) st) (windowMs (ceilingCap p)) t \<le> limit (ceilingCap p)"
  using redis_store.caps_log_inv[OF assms(1,4) refl assms(3) _ _ _ _ redis_store.reserveSend_ceiling_log[OF assms(1) _ assms(3)]]
    checkSendCapPolicy_ok(2)[OF assms(2)]
  by (intro log_inv_bound) simp

theorem ceiling_sends_bounded_witness:
  "in_window (sent_where (\<lambda>q d. d = Send False \<and> \<not> sr_knownIp q \<and> \<not> sr_afterFirstFactor q
       \<and> sr_realmId q = ''r'' \<and> sr_addressHmac q = ''a'')
     \<lparr>cs_store = snd one_sent, cs_clock = 5, cs_sent = [(5, one_request, Send False)]\<rparr>) 86400000 5 \<le> 30
   \<and> in_window (sent_where (\<lambda>q d. d = Send False \<and> \<not> sr_knownIp q \<and> \<not> sr_afterFirstFactor q
       \<and> sr_realmId q = ''r'' \<and> sr_addressHmac q = ''a'')
     \<lparr>cs_store = snd one_sent, cs_clock = 5, cs_sent = [(5, one_request, Send False)]\<rparr>) 86400000 5 = 1"
proof -
  have "KEY_PART ''r''" by (simp add: KEY_PART_def key_char_def)
  from ceiling_sends_bounded[OF mem.redis_store_axioms SEND_CAP_POLICY_passes this one_sent_reachable, of "''a''" 5]
  show ?thesis
    by (simp add: SEND_CAP_POLICY_def HOUR_MS_def MINUTE_MS_def in_window_def sent_where_def one_request_def)
qed

text \<open>
  A mail that is not sent counts on no tier and spends no pass: a refused or dropped request
  adds no entry to any log and leaves the pass it named as it was. A mail that spends the pass
  found it live and bound to the mail's own address, and the pass is gone with that very mail.
\<close>

theorem only_a_send_counts_or_spends:
  assumes "redis_store R" and "reserveSend R sha256 p now member q s = Inr (d, s')" and "sr_passHash q = Some h"
  shows "(\<not> is_send d \<longrightarrow> (\<forall>k. k \<noteq> sendKey8 q \<longrightarrow> ZSCORE R s' k \<subseteq>\<^sub>m ZSCORE R s k))
    \<and> GET R s' (sendKey7 q) = (if d = Send True then None else GET R s (sendKey7 q))
    \<and> (d = Send True \<longrightarrow> passLive R s (sendKey7 q) (sr_addressHmac q) now)"
proof -
  obtain K2 K3 K4 d0 where sc:
    "RESERVE_SEND_SCRIPT R (sendKey1 q) K2 K3 K4 (sendKey5 q) (sendCapKey (sr_realmId q) [''after-first-factor'', sr_addressHmac q])
       (sendKey7 q) (sendKey8 q) now member (sr_endUserIpHmac q \<noteq> None) (sr_clientKey q \<noteq> None)
       (sr_knownIp q) (sr_afterFirstFactor q) (sr_passHash q \<noteq> None) p (sr_addressHmac q) s = (d0, s')"
    and d: "d = decisionOf d0" and q: "KEY_PART (sr_realmId q)"
    and K: "\<exists>x xs. K2 = sendCapKey (sr_realmId q) (x # xs) \<and> x \<in> {''client'', ''unused''}"
      "\<exists>x xs. K3 = sendCapKey (sr_realmId q) (x # xs) \<and> x \<in> {''address-ip'', ''unused''}"
      "\<exists>x xs. K4 = sendCapKey (sr_realmId q) (x # xs) \<and> x \<in> {''address-client'', ''unused''}"
    by (rule reserveSend_script[OF assms(2)]) blast
  have K7: "sendKey7 q \<notin> {sendKey1 q, K2, K3, K4, sendKey5 q, sendCapKey (sr_realmId q) [''after-first-factor'', sr_addressHmac q], sendKey8 q}"
    using K assms(3) by (auto simp: sendKey1_def sendKey5_def sendKey7_def sendKey8_def send_key_neqs[OF q q] split: option.splits)
  have "\<forall>k. k \<noteq> sendKey8 q \<longrightarrow> ZSCORE R s' k \<subseteq>\<^sub>m ZSCORE R s k" if "\<not> is_send d"
    using redis_store.script_not_sent[OF assms(1) sc] d that by simp
  moreover have "GET R s' (sendKey7 q) = (if d = Send True then None else GET R s (sendKey7 q))"
    using redis_store.script_frame[OF assms(1) sc K7] d by simp
  moreover have "passLive R s (sendKey7 q) (sr_addressHmac q) now" if "d = Send True"
    using redis_store.script_spends_live[OF assms(1) sc[unfolded that[unfolded d decisionOf_simps]] K7] by simp
  ultimately show ?thesis by blast
qed

definition pass_request :: send_request where
  "pass_request = one_request\<lparr>sr_passHash := Some ''h''\<rparr>"

theorem only_a_send_counts_or_spends_witness:
  "reserveSend mem_redis id SEND_CAP_POLICY 5 ''m'' pass_request mem_empty = Inr (Send False, snd one_sent)
   \<and> GET mem_redis (snd one_sent) (sendKey7 pass_request) = None"
proof -
  have parts: "KEY_PART ''r''" "KEY_PART ''a''" "opt_part (Some ''i'')" "opt_part (Some ''h'')" "opt_part None"
    by (simp_all add: KEY_PART_def opt_part_def key_char_def)
  have count: "logCount mem_redis mem_empty k now w = 0" for k now w
    by (simp add: mem.logCount_eq newer_def)
  have eq: "reserveSend mem_redis id SEND_CAP_POLICY 5 ''m'' pass_request mem_empty = Inr (Send False, snd one_sent)"
    by (simp add: one_sent_def reserveSend_def one_request_def pass_request_def parts RESERVE_SEND_SCRIPT_def Let_def fullLog_def
        count prune_mem_empty addressTiers_def pairTiers_def SEND_CAP_POLICY_def decisionOf_def passLive_def recordSend_def)
  from only_a_send_counts_or_spends[OF mem.redis_store_axioms eq, of "''h''"] eq
  show ?thesis by (simp add: pass_request_def one_request_def)
qed

text \<open>
  The wait a full log answers with is exact: the log of that tier has a free slot again when
  the wait is over and not a moment before, as long as nothing else is recorded.
\<close>

theorem retry_after_is_exact:
  assumes "redis_store R" and "1 \<le> limit w" and "fullLog R k now w s = (True, s')" and "now \<le> t"
    and "\<And>m x. ZSCORE R s k m = Some x \<Longrightarrow> x \<le> now" and "1 \<le> windowMs w"
  shows "logCount R s' k t (windowMs w) < limit w \<longleftrightarrow> now + refusedWait R s' k now w \<le> t"
proof -
  let ?z = "ZSCORE R s' k" and ?lo = "now - windowMs w"
  have s': "s' = prune R k now (windowMs w) s" "limit w \<le> int (card (newer (ZSCORE R s k) ?lo))"
    using assms(3) by (auto simp: redis_store.fullLog_eq[OF assms(1)])
  have z: "?z = keep_newer (ZSCORE R s k) ?lo" by (simp add: s' redis_store.ZSCORE_log_ops[OF assms(1)])
  have fin: "finite (dom ?z)" by (rule redis_store.finite_zset[OF assms(1)])
  have nz: "newer ?z ?lo = dom ?z" by (simp add: z newer_keep_newer)
  have n: "ZCOUNT R s' k ?lo = int (card (dom ?z))" by (simp add: redis_store.ZCOUNT_eq[OF assms(1)] nz)
  have full: "limit w \<le> int (card (dom ?z))" using s'(2) by (simp add: z)
  obtain m x where x: "ZRANGEBYSCORE_LIMIT R s' k ?lo (int (card (dom ?z)) - limit w) = [(m, x)]" "?z m = Some x"
    and lo: "int (card (dom ?z)) - limit w < int (card {m. \<exists>y \<le> x. ?z m = Some y \<and> ?lo < y})"
    and hi: "int (card (dom ?z)) - (int (card (dom ?z)) - limit w) \<le> int (card {m. \<exists>y \<ge> x. ?z m = Some y})"
    using redis_store.ZRANGEBYSCORE_LIMIT_rank[OF assms(1), of "int (card (dom ?z)) - limit w" s' k ?lo] full assms(2)
    unfolding n by auto
  have "{m. \<exists>y \<le> x. ?z m = Some y \<and> ?lo < y} = {m. \<exists>y \<le> x. ?z m = Some y}" by (auto simp: z keep_newer_eq_Some)
  note frees = slot_frees[OF fin _ full x(2) lo[unfolded this] hi]
  have xb: "?lo < x" "x \<le> now" using x(2) assms(5) by (auto simp: z keep_newer_eq_Some)
  have wait: "refusedWait R s' k now w = x + windowMs w - now"
    using x(1) xb assms(6) by (simp add: refusedWait_def logCount_def n)
  have "t - windowMs w < x \<Longrightarrow> \<not> logCount R s' k t (windowMs w) < limit w"
    using frees(2)[of "t - windowMs w"] assms(2) by (simp add: redis_store.logCount_eq[OF assms(1)])
  moreover have "x \<le> t - windowMs w \<Longrightarrow> logCount R s' k t (windowMs w) < limit w"
    using frees(1) assms(2) card_mono[OF finite_newer[OF fin] newer_antimono[of x "t - windowMs w" ?z]]
    by (simp add: redis_store.logCount_eq[OF assms(1)])
  ultimately show ?thesis unfolding wait by linarith
qed

theorem retry_after_is_exact_witness:
  "let w = \<lparr>limit = 1, windowMs = 10\<rparr>; s = ZADD mem_redis ''k'' 5 ''m'' mem_empty; s' = prune mem_redis ''k'' 7 10 s in
   (logCount mem_redis s' ''k'' 20 10 < 1 \<longleftrightarrow> 7 + refusedWait mem_redis s' ''k'' 7 w \<le> 20)
   \<and> refusedWait mem_redis s' ''k'' 7 w = 8"
proof -
  let ?w = "\<lparr>limit = 1, windowMs = 10\<rparr>" and ?s = "ZADD mem_redis ''k'' 5 ''m'' mem_empty"
  have z: "ZSCORE mem_redis ?s ''k'' = [''m'' \<mapsto> 5]" by simp
  have n: "newer [''m'' \<mapsto> (5::int)] (- 3) = {''m''}" by (auto simp: newer_def)
  have "fullLog mem_redis ''k'' 7 ?w ?s = (True, prune mem_redis ''k'' 7 10 ?s)"
    by (simp add: mem.fullLog_eq z n)
  from retry_after_is_exact[OF mem.redis_store_axioms _ this, of 20] show ?thesis
    by (simp add: Let_def refusedWait_def logCount_def prune_def mem_redis_def mem_empty_def mem_sorted_def nth_list_def
        split: if_splits)
qed

lemma flow_of_name [simp]: "flow_of (flow_name f) = Some f"
  by (cases f) (simp_all add: flow_of_def)

lemma flow_name_no_colon: "CHR '':'' \<notin> set (flow_name f)"
  by (cases f) simp_all

text \<open>
  A minted pass reads back as the address and the flow it was minted for until it expires and
  as no pass from then on, and the mail script takes it as live for that address and no other.
\<close>

theorem minted_pass_reads_back:
  assumes "redis_store R" and "mintPass R sha256 p now pass realm address flow s = Inr (pass, s')"
    and "PASS_PATTERN pass" and "0 \<le> passTtlMs p"
  shows "peekPass R sha256 t realm pass s' = Inr (if t < int now + passTtlMs p
      then Some \<lparr>mb_passHash = sha256 pass, mb_addressHmac = address, mb_flow = flow\<rparr> else None)
    \<and> (passLive R s' (sendCapKey realm [''pass'', sha256 pass]) a t \<longleftrightarrow> a = address \<and> t < int now + passTtlMs p)"
proof -
  let ?e = "dec (nat (int now + passTtlMs p))"
  let ?v = "address @ CHR '':'' # flow_name flow @ CHR '':'' # ?e"
  have ok: "KEY_PART address" "KEY_PART realm" and s': "s' = SET R (sendCapKey realm [''pass'', sha256 pass]) (RStr ?v) (passTtlMs p) s"
    using assms(2) by (auto simp: mintPass_def Let_def split: if_splits)
  have get: "GET R s' (sendCapKey realm [''pass'', sha256 pass]) = Some (RStr ?v)"
    by (simp add: s' redis_store.GET_SET[OF assms(1)])
  have sp: "split_on (CHR '':'') ?v = [address, flow_name flow, ?e]"
    by (simp add: split_on_append split_on_part KEY_PART_no_colon[OF ok(1)] flow_name_no_colon dec_no_colon)
  have last: "after_last_colon ?v = ?e"
    using after_last_colon_part[of ?e "address @ CHR '':'' # flow_name flow"] by (simp add: dec_no_colon)
  have "peekPass R sha256 t realm pass s' = Inr (if t < int now + passTtlMs p
      then Some \<lparr>mb_passHash = sha256 pass, mb_addressHmac = address, mb_flow = flow\<rparr> else None)"
    using assms(3,4) ok by (simp add: peekPass_def get sp)
  moreover have "passLive R s' (sendCapKey realm [''pass'', sha256 pass]) a t \<longleftrightarrow> a = address \<and> t < int now + passTtlMs p"
    using assms(4) by (auto simp: passLive_def get last takeWhile_part KEY_PART_no_colon[OF ok(1)])
  ultimately show ?thesis by blast
qed

definition demo_pass :: string where
  "demo_pass = replicate 43 (CHR ''p'')"

theorem minted_pass_reads_back_witness:
  "\<exists>s'. mintPass mem_redis id SEND_CAP_POLICY 5 demo_pass ''r'' ''a'' ResetFlow mem_empty = Inr (demo_pass, s')
     \<and> peekPass mem_redis id 6 ''r'' demo_pass s'
         = Inr (Some \<lparr>mb_passHash = demo_pass, mb_addressHmac = ''a'', mb_flow = ResetFlow\<rparr>)
     \<and> peekPass mem_redis id 86400005 ''r'' demo_pass s' = Inr None"
proof -
  have parts: "KEY_PART ''r''" "KEY_PART ''a''" "PASS_PATTERN demo_pass"
    by (simp_all add: KEY_PART_def key_char_def PASS_PATTERN_def demo_pass_def list_all_iff)
  obtain s' where s': "mintPass mem_redis id SEND_CAP_POLICY 5 demo_pass ''r'' ''a'' ResetFlow mem_empty = Inr (demo_pass, s')"
    using parts by (simp add: mintPass_def Let_def)
  from minted_pass_reads_back[OF mem.redis_store_axioms s' parts(3), of 6]
    minted_pass_reads_back[OF mem.redis_store_axioms s' parts(3), of 86400005] s'
  show ?thesis by (simp add: SEND_CAP_POLICY_def HOUR_MS_def MINUTE_MS_def)
qed

text \<open>
  A notice of one kind goes to an address once an interval: the first claim takes it, every
  claim until the interval is over is turned down and changes nothing, the next one takes it again;
  releasing the claim gives it back at once.
\<close>

theorem notice_once_an_interval:
  assumes "redis_store R" and "claimNotice R p now realm address kind s = Inr (True, s')" and "0 \<le> t"
  shows "(\<exists>s''. claimNotice R p t realm address kind s' = Inr (now + noticeIntervalMs p \<le> t, s'')
      \<and> (t < now + noticeIntervalMs p \<longrightarrow> s'' = s'))
    \<and> (\<exists>s1 s2. releaseNotice R realm address kind s' = Inr s1 \<and> claimNotice R p t realm address kind s1 = Inr (True, s2))"
proof -
  obtain k where k: "noticeKey realm address kind = Inr k" and s': "s' = SET R k (RInt (now + noticeIntervalMs p)) (noticeIntervalMs p) s"
    using assms(2) by (auto simp: claimNotice_def CLAIM_MARK_SCRIPT_def split: sum.splits if_splits)
  have "GET R s' k = Some (RInt (now + noticeIntervalMs p))" "GET R (DEL R k s') k = None"
    by (simp_all add: s' redis_store.GET_SET[OF assms(1)] redis_store.DEL_simps[OF assms(1)])
  then show ?thesis
    using assms(3) by (auto simp: claimNotice_def releaseNotice_def RELEASE_MARK_SCRIPT_def CLAIM_MARK_SCRIPT_def k)
qed

theorem notice_once_an_interval_witness:
  "\<exists>s' s''. claimNotice mem_redis SEND_CAP_POLICY 5 ''r'' ''a'' ''send_ceiling'' mem_empty = Inr (True, s')
     \<and> claimNotice mem_redis SEND_CAP_POLICY 9 ''r'' ''a'' ''send_ceiling'' s' = Inr (False, s'')"
proof -
  have parts: "KEY_PART ''r''" "KEY_PART ''a''" by (simp_all add: KEY_PART_def key_char_def)
  obtain s' where s': "claimNotice mem_redis SEND_CAP_POLICY 5 ''r'' ''a'' ''send_ceiling'' mem_empty = Inr (True, s')"
    using parts by (simp add: claimNotice_def noticeKey_def NOTICE_KINDS_def CLAIM_MARK_SCRIPT_def)
  from notice_once_an_interval[OF mem.redis_store_axioms s', of 9] s' show ?thesis
    by (auto simp: SEND_CAP_POLICY_def HOUR_MS_def MINUTE_MS_def)
qed

end
