(* ===== verification/Ip_Bucket.thy ===== *)
theory Ip_Bucket
  imports Prelude
begin

text \<open>
  The network bucket of an end-user IP (\<open>endUserIpBucket\<close> and its helpers in
  \<open>libs/server/sign-in-engine/src/lib/round-limits.ts\<close>): an IPv4 address's /24, an IPv6
  address's /48, an IPv4-mapped or translated address the /24 of the IPv4 client it stands for.
  \<open>isIPv4\<close> and \<open>isIPv6\<close> are Node's \<open>net.isIPv4\<close> and \<open>net.isIPv6\<close> for an address without a zone.
\<close>

subsection \<open>Texts of addresses\<close>

definition octet_text :: "string \<Rightarrow> bool" where
  "octet_text s = (case undec s of None \<Rightarrow> False | Some n \<Rightarrow> n < 256 \<and> dec n = s)"

definition isIPv4 :: "string \<Rightarrow> bool" where
  "isIPv4 s = (let ps = split_on (CHR ''.'') s in length ps = 4 \<and> list_all octet_text ps)"

definition hex_digits :: string where
  "hex_digits = ''0123456789abcdef''"

definition hex_val :: "char \<Rightarrow> nat option" where
  "hex_val c = (let d = takeWhile (\<lambda>x. x \<noteq> to_lower c) hex_digits
                in if length d < 16 then Some (length d) else None)"

definition hex_group :: "string \<Rightarrow> bool" where
  "hex_group s \<longleftrightarrow> 1 \<le> length s \<and> length s \<le> 4 \<and> list_all (\<lambda>c. hex_val c \<noteq> None) s"

text \<open>\<open>parseInt(s, 16)\<close> on a hex group, \<open>n.toString(16)\<close>.\<close>

definition unhex :: "string \<Rightarrow> nat" where
  "unhex s = foldl (\<lambda>n c. 16 * n + (case hex_val c of None \<Rightarrow> 0 | Some d \<Rightarrow> d)) 0 s"

fun hexstr :: "nat \<Rightarrow> string" where
  "hexstr n = (if n < 16 then [hex_digits ! n] else hexstr (n div 16) @ [hex_digits ! (n mod 16)])"

declare hexstr.simps [simp del]

text \<open>A text cut at its first \<open>::\<close>, as \<open>split('::')\<close> cuts a text that holds one.\<close>

fun cut_dcolon :: "string \<Rightarrow> (string \<times> string) option" where
  "cut_dcolon (a # b # s) =
     (if a = CHR '':'' \<and> b = CHR '':'' then Some ([], s)
      else map_option (\<lambda>(l, r). (a # l, r)) (cut_dcolon (b # s)))"
| "cut_dcolon s = None"

definition groups_of :: "string \<Rightarrow> string list" where
  "groups_of s = (if s = '''' then [] else split_on (CHR '':'') s)"

text \<open>The groups of a side, an IPv4 text counting two where \<open>v4\<close> allows it at the end.\<close>

definition side_count :: "bool \<Rightarrow> string list \<Rightarrow> nat option" where
  "side_count v4 gs =
     (if list_all hex_group gs then Some (length gs)
      else if v4 \<and> gs \<noteq> [] \<and> isIPv4 (last gs) \<and> list_all hex_group (butlast gs) then Some (length gs + 1)
      else None)"

definition isIPv6 :: "string \<Rightarrow> bool" where
  "isIPv6 s = (case cut_dcolon s of
      None \<Rightarrow> side_count True (groups_of s) = Some 8
    | Some (l, r) \<Rightarrow>
        (case (side_count False (groups_of l), side_count True (groups_of r)) of
           (Some a, Some b) \<Rightarrow> a + b \<le> 7
         | _ \<Rightarrow> False))"

subsection \<open>The bucket\<close>

definition up_to_last_colon :: "string \<Rightarrow> string" where
  "up_to_last_colon s = rev (dropWhile (\<lambda>c. c \<noteq> CHR '':'') (rev s))"

definition octets :: "string \<Rightarrow> nat list" where
  "octets s = map (\<lambda>p. case undec p of None \<Rightarrow> 0 | Some n \<Rightarrow> n) (split_on (CHR ''.'') s)"

definition expand_tail :: "string \<Rightarrow> string option" where
  "expand_tail s =
     (let l = after_last_colon s in
      if CHR ''.'' \<in> set l
      then (if isIPv4 l
            then (case octets l of
                    a # b # c # d # _ \<Rightarrow> Some (up_to_last_colon s @ hexstr (a * 256 + b) @ '':'' @ hexstr (c * 256 + d))
                  | _ \<Rightarrow> None)
            else None)
      else Some s)"

definition ipv6Groups :: "string \<Rightarrow> nat list option" where
  "ipv6Groups address =
     (if \<not> isIPv6 address then None
      else case expand_tail (map to_lower address) of
        None \<Rightarrow> None
      | Some s \<Rightarrow>
          let groups = (case cut_dcolon s of
                Some (l, r) \<Rightarrow> groups_of l @ replicate (8 - length (groups_of l) - length (groups_of r)) ''0'' @ groups_of r
              | None \<Rightarrow> groups_of s)
          in if length groups \<noteq> 8 then None else Some (map unhex groups))"

fun join_with :: "char \<Rightarrow> string list \<Rightarrow> string" where
  "join_with c [] = ''''"
| "join_with c [x] = x"
| "join_with c (x # xs) = x @ c # join_with c xs"

definition ipv4Bucket :: "nat list \<Rightarrow> string" where
  "ipv4Bucket os = join_with (CHR ''.'') (map dec (take 3 os)) @ ''.0/24''"

definition endUserIpBucket :: "string \<Rightarrow> string" where
  "endUserIpBucket endUserIp =
     (if isIPv4 endUserIp then ipv4Bucket (octets endUserIp)
      else case ipv6Groups (hd (split_on (CHR ''%'') endUserIp)) of
        Some [g0, g1, g2, g3, g4, g5, g6, g7] \<Rightarrow>
          (let translated = (g0 = 0x64 \<and> g1 = 0xff9b \<and> g2 = 0 \<and> g3 = 0 \<and> g4 = 0 \<and> g5 = 0);
               mapped = (g0 = 0 \<and> g1 = 0 \<and> g2 = 0 \<and> g3 = 0 \<and> g4 = 0 \<and> g5 = 0xffff)
           in if translated \<or> mapped then ipv4Bucket [g6 div 256, g6 mod 256, g7 div 256]
              else join_with (CHR '':'') (map hexstr [g0, g1, g2]) @ ''::/48'')
      | _ \<Rightarrow> endUserIp)"

text \<open>The text of an IPv4 address.\<close>

definition dotted :: "nat \<Rightarrow> nat \<Rightarrow> nat \<Rightarrow> nat \<Rightarrow> string" where
  "dotted a b c d = dec a @ CHR ''.'' # dec b @ CHR ''.'' # dec c @ CHR ''.'' # dec d"

subsection \<open>An IPv4 client keeps its bucket\<close>

lemma digit_char_lt10:
  assumes "d < 10"
  shows "digit_char d \<notin> {CHR ''.'', CHR '':'', CHR ''%''} \<and> to_lower (digit_char d) = digit_char d"
proof -
  from assms have "d \<in> set [0, 1, 2, 3, 4, 5, 6, 7, 8, 9]" by auto
  then show ?thesis by (auto simp: digit_char_def to_lower_def)
qed

lemma dec_chars: "CHR ''.'' \<notin> set (dec n) \<and> CHR '':'' \<notin> set (dec n) \<and> CHR ''%'' \<notin> set (dec n) \<and> map to_lower (dec n) = dec n"
  using dec_digits[of n] digit_char_lt10 by (fastforce intro: map_idI)

lemma dotted_chars:
  "CHR '':'' \<notin> set (dotted a b c d)" "CHR ''%'' \<notin> set (dotted a b c d)" "map to_lower (dotted a b c d) = dotted a b c d"
  "CHR ''.'' \<in> set (dotted a b c d)"
  by (simp_all add: dotted_def dec_chars to_lower_def)

lemma split_dotted: "split_on (CHR ''.'') (dotted a b c d) = [dec a, dec b, dec c, dec d]"
  by (simp add: dotted_def split_on_append split_on_part dec_chars)

lemma isIPv4_dotted: "a < 256 \<Longrightarrow> b < 256 \<Longrightarrow> c < 256 \<Longrightarrow> d < 256 \<Longrightarrow> isIPv4 (dotted a b c d)"
  by (simp add: isIPv4_def split_dotted octet_text_def)

lemma octets_dotted: "octets (dotted a b c d) = [a, b, c, d]"
  by (simp add: octets_def split_dotted)

lemma hex_val_digits: "list_all (\<lambda>d. hex_val (hex_digits ! d) = Some d \<and> hex_digits ! d \<noteq> CHR '':'') [0..<16]"
  by code_simp

lemma hex_val_digit: "d < 16 \<Longrightarrow> hex_val (hex_digits ! d) = Some d \<and> hex_digits ! d \<noteq> CHR '':''"
  using hex_val_digits by (simp add: list_all_iff)

lemma unhex_hexstr: "unhex (hexstr n) = n \<and> CHR '':'' \<notin> set (hexstr n) \<and> hexstr n \<noteq> ''''"
proof (induction n rule: hexstr.induct)
  case (1 n)
  show ?case
  proof (cases "n < 16")
    case True
    then show ?thesis using hex_val_digit[OF True] by (auto simp: hexstr.simps[of n] unhex_def)
  next
    case False
    with 1 hex_val_digit[of "n mod 16"] show ?thesis by (auto simp: hexstr.simps[of n] unhex_def)
  qed
qed

lemma digit_val_colon: "digit_val (CHR '':'') = None"
  by code_simp

lemma hex_val_dot: "hex_val (CHR ''.'') = None"
  by (simp add: hex_val_def hex_digits_def to_lower_def)

lemma hex_group_ffff: "hex_group ''ffff''"
  by (simp add: hex_group_def hex_val_def hex_digits_def to_lower_def)

lemma unhex_consts: "unhex ''ffff'' = 65535" "unhex ''0'' = 0"
  by (simp_all add: unhex_def hex_val_def hex_digits_def to_lower_def)

lemma replicate_five: "replicate 5 x = [x, x, x, x, x]"
  by (simp add: numeral_eq_Suc)

lemma not_isIPv4_colon: "isIPv4 (CHR '':'' # s) = False"
proof -
  obtain p ps where "split_on (CHR ''.'') (CHR '':'' # s) = (CHR '':'' # p) # ps"
    by (cases "split_on (CHR ''.'') s") simp_all
  moreover have "undec (CHR '':'' # p) = None" by (simp add: undec_def digit_val_colon)
  ultimately show ?thesis by (simp add: isIPv4_def octet_text_def)
qed

text \<open>
  An end-user IP given as an IPv4 address or as its IPv4-mapped IPv6 address counts in one
  bucket, the address's /24: no client escapes the distinct-identifier count of its network by
  that spelling of its address.
\<close>

theorem ipv4_client_has_one_bucket:
  assumes "a < 256" and "b < 256" and "c < 256" and "d < 256"
  shows "endUserIpBucket (dotted a b c d) = dec a @ ''.'' @ dec b @ ''.'' @ dec c @ ''.0/24''
    \<and> endUserIpBucket (''::ffff:'' @ dotted a b c d) = endUserIpBucket (dotted a b c d)"
proof -
  let ?m = "''::ffff:'' @ dotted a b c d"
  let ?h = "hexstr (a * 256 + b)" and ?l = "hexstr (c * 256 + d)"
  have plain: "endUserIpBucket (dotted a b c d) = dec a @ ''.'' @ dec b @ ''.'' @ dec c @ ''.0/24''"
    using assms by (simp add: endUserIpBucket_def isIPv4_dotted octets_dotted ipv4Bucket_def)
  have "\<not> hex_group (dotted a b c d)"
    using dotted_chars(4) by (auto simp: hex_group_def list_all_iff hex_val_dot intro: bexI[of _ "CHR ''.''"])
  then have v6: "isIPv6 ?m"
    using assms split_on_append[of "CHR '':''" "''ffff''" "dotted a b c d"]
    by (simp add: isIPv6_def groups_of_def side_count_def split_on_part dotted_chars isIPv4_dotted hex_group_ffff)
  have "map to_lower ?m = ?m"
    by (simp add: dotted_chars to_lower_def)
  moreover have "after_last_colon ?m = dotted a b c d" "up_to_last_colon ?m = ''::ffff:''"
    using after_last_colon_part[OF dotted_chars(1), of "''::ffff''" a b c d]
      dropWhile_part[of "rev (dotted a b c d)" "rev ''::ffff''"] by (simp_all add: up_to_last_colon_def dotted_chars)
  ultimately have tail: "expand_tail (map to_lower ?m) = Some (''::ffff:'' @ ?h @ '':'' @ ?l)"
    using assms by (simp add: expand_tail_def dotted_chars isIPv4_dotted octets_dotted)
  have gs: "groups_of (''ffff:'' @ ?h @ '':'' @ ?l) = [''ffff'', ?h, ?l]"
    using split_on_append[of "CHR '':''" "''ffff''" "?h @ '':'' @ ?l"] unhex_hexstr[of "a * 256 + b"] unhex_hexstr[of "c * 256 + d"]
    by (simp add: groups_of_def split_on_append split_on_part)
  have "ipv6Groups ?m = Some [0, 0, 0, 0, 0, 65535, a * 256 + b, c * 256 + d]"
    using v6 tail gs unhex_hexstr by (simp add: ipv6Groups_def groups_of_def[of "[]"] unhex_consts replicate_five)
  moreover have "split_on (CHR ''%'') ?m = [?m]" by (rule split_on_part) (simp add: dotted_chars)
  moreover have "\<not> isIPv4 ?m" by (simp add: not_isIPv4_colon)
  ultimately have "endUserIpBucket ?m = ipv4Bucket [(a * 256 + b) div 256, (a * 256 + b) mod 256, (c * 256 + d) div 256]"
    by (simp add: endUserIpBucket_def)
  also have "\<dots> = dec a @ ''.'' @ dec b @ ''.'' @ dec c @ ''.0/24''"
    using assms by (simp add: ipv4Bucket_def)
  finally show ?thesis using plain by simp
qed

theorem ipv4_client_has_one_bucket_witness:
  "endUserIpBucket (''::ffff:'' @ dotted 192 0 2 77) = endUserIpBucket (dotted 192 0 2 77)"
  using ipv4_client_has_one_bucket[of 192 0 2 77] by simp

end
