(* ===== verification/Round_Limits.thy ===== *)
theory Round_Limits
  imports Send_Caps Ip_Bucket
begin

text \<open>
  The round limits: their rules (\<open>libs/server/sign-in-engine/src/lib/round-limits.ts\<close>), their
  Redis store (\<open>libs/fastify/plugins/sign-in-engine/src/lib/round-limits.ts\<close>, four Lua scripts
  over shared helpers) and the limiter hook of the sign-in engine over that store. A credential
  round is counted as failed before its credential is looked at and taken back when it
  succeeds; the network bucket of an IP counts the distinct identifiers that failed from it.
\<close>

subsection \<open>The rules\<close>

datatype round_environment = Development | Staging | Production

definition roundEnvironmentOf :: "string option \<Rightarrow> round_environment" where
  "roundEnvironmentOf v = (case v of
      Some e \<Rightarrow> if e = ''development'' then Development else if e = ''staging'' then Staging else Production
    | None \<Rightarrow> Production)"

record ip_limits =
  ipl_windowMs :: ms
  ipl_softFailures :: int
  ipl_hardFailures :: int
  ipl_blockMs :: ms
  ipl_delayMs :: ms

record bucket_limits =
  bkl_windowMs :: ms
  bkl_maxIdentifiers :: int
  bkl_delayMs :: ms

record client_limits =
  cll_windowMs :: ms
  cll_ratioMinRounds :: int
  cll_ratioPercent :: int
  cll_failureBudget :: int
  cll_delayMs :: ms
  cll_maxRounds :: int
  cll_maxRoundsWindowMs :: ms

record registration_limits =
  reg_endUserIp :: send_window
  reg_client :: send_window

record round_limit_policy =
  rp_endUserIp :: ip_limits
  rp_ipBucket :: bucket_limits
  rp_client :: client_limits
  rp_registrationStarts :: registration_limits

definition FIRST_PARTY_CLIENT_MAX_ROUNDS_DEFAULT :: int where
  "FIRST_PARTY_CLIENT_MAX_ROUNDS_DEFAULT = 600"

definition roundLimitPolicy :: "int option \<Rightarrow> send_window option \<Rightarrow> round_limit_policy" where
  "roundLimitPolicy clientMaxRounds registrationPerIp =
     (let ipWindowMs = 15 * MINUTE_MS; hardFailures = 30; clientWindowMs = 5 * MINUTE_MS;
          maxRounds = (case clientMaxRounds of Some n \<Rightarrow> n | None \<Rightarrow> FIRST_PARTY_CLIENT_MAX_ROUNDS_DEFAULT);
          maxRoundsWindowMs = MINUTE_MS;
          failureBudget = max 1 (floor_div (maxRounds * (clientWindowMs div maxRoundsWindowMs)) 10)
      in \<lparr>rp_endUserIp = \<lparr>ipl_windowMs = ipWindowMs, ipl_softFailures = 10, ipl_hardFailures = hardFailures,
            ipl_blockMs = 15 * MINUTE_MS, ipl_delayMs = floor_div ipWindowMs hardFailures\<rparr>,
          rp_ipBucket = \<lparr>bkl_windowMs = ipWindowMs, bkl_maxIdentifiers = 20,
            bkl_delayMs = floor_div ipWindowMs hardFailures\<rparr>,
          rp_client = \<lparr>cll_windowMs = clientWindowMs, cll_ratioMinRounds = 200, cll_ratioPercent = 50,
            cll_failureBudget = failureBudget, cll_delayMs = max 1 (floor_div clientWindowMs failureBudget),
            cll_maxRounds = maxRounds, cll_maxRoundsWindowMs = maxRoundsWindowMs\<rparr>,
          rp_registrationStarts = \<lparr>
            reg_endUserIp = (case registrationPerIp of Some w \<Rightarrow> w | None \<Rightarrow> \<lparr>limit = 3, windowMs = HOUR_MS\<rparr>),
            reg_client = \<lparr>limit = 1000, windowMs = HOUR_MS\<rparr>\<rparr>\<rparr>)"

definition ROUND_LIMIT_POLICY :: round_limit_policy where
  "ROUND_LIMIT_POLICY = roundLimitPolicy None None"

definition DEVELOPMENT_ROUND_LIMIT_FACTOR :: int where
  "DEVELOPMENT_ROUND_LIMIT_FACTOR = 10"

definition shorter :: "ms \<Rightarrow> ms" where
  "shorter d = max 1 (floor_div d DEVELOPMENT_ROUND_LIMIT_FACTOR)"

definition relaxedRoundLimitPolicy :: "round_limit_policy \<Rightarrow> round_limit_policy" where
  "relaxedRoundLimitPolicy p =
     (let f = DEVELOPMENT_ROUND_LIMIT_FACTOR; i = rp_endUserIp p; b = rp_ipBucket p; c = rp_client p;
          g = rp_registrationStarts p; wider = (\<lambda>w. w\<lparr>limit := limit w * f\<rparr>)
      in p\<lparr>rp_endUserIp := i\<lparr>ipl_softFailures := ipl_softFailures i * f, ipl_hardFailures := ipl_hardFailures i * f,
             ipl_delayMs := shorter (ipl_delayMs i)\<rparr>,
           rp_ipBucket := b\<lparr>bkl_maxIdentifiers := bkl_maxIdentifiers b * f, bkl_delayMs := shorter (bkl_delayMs b)\<rparr>,
           rp_client := c\<lparr>cll_ratioMinRounds := cll_ratioMinRounds c * f,
             cll_failureBudget := cll_failureBudget c * f, cll_delayMs := shorter (cll_delayMs c),
             cll_maxRounds := cll_maxRounds c * f\<rparr>,
           rp_registrationStarts := \<lparr>reg_endUserIp = wider (reg_endUserIp g), reg_client = wider (reg_client g)\<rparr>\<rparr>)"

datatype round_limit_error =
    BelowASecond string
  | BelowOne string
  | SoftAboveHard
  | RatioOutside
  | DelayOutside string
  | RoundPartOutOfShape string
  | SettledTwice

definition whole_at_least :: "int \<Rightarrow> int \<Rightarrow> bool" where
  "whole_at_least v lo \<longleftrightarrow> isSafeInteger v \<and> v \<ge> lo"

text \<open>The checks in source order, the first failure thrown.\<close>

fun first_error :: "(bool \<times> 'e) list \<Rightarrow> 'e option" where
  "first_error [] = None"
| "first_error ((ok, e) # xs) = (if ok then first_error xs else Some e)"

definition checkTime :: "int \<Rightarrow> string \<Rightarrow> bool \<times> round_limit_error" where
  "checkTime v name = (whole_at_least v 1000, BelowASecond name)"

definition checkCount :: "int \<Rightarrow> string \<Rightarrow> bool \<times> round_limit_error" where
  "checkCount v name = (whole_at_least v 1, BelowOne name)"

definition checkDelay :: "ms \<Rightarrow> ms \<Rightarrow> string \<Rightarrow> bool \<times> round_limit_error" where
  "checkDelay delay w name = (whole_at_least delay 1 \<and> delay \<le> w, DelayOutside name)"

definition checkRoundLimitPolicy :: "round_limit_policy \<Rightarrow> round_limit_error + round_limit_policy" where
  "checkRoundLimitPolicy p =
     (let i = rp_endUserIp p; b = rp_ipBucket p; c = rp_client p; g = rp_registrationStarts p in
      case first_error
       [checkTime (ipl_windowMs i) ''endUserIp.windowMs'',
        checkCount (ipl_softFailures i) ''endUserIp.softFailures'',
        checkCount (ipl_hardFailures i) ''endUserIp.hardFailures'',
        checkTime (ipl_blockMs i) ''endUserIp.blockMs'',
        (ipl_softFailures i \<le> ipl_hardFailures i, SoftAboveHard),
        checkTime (bkl_windowMs b) ''ipBucket.windowMs'',
        checkCount (bkl_maxIdentifiers b) ''ipBucket.maxIdentifiers'',
        checkTime (cll_windowMs c) ''client.windowMs'',
        checkCount (cll_ratioMinRounds c) ''client.ratioMinRounds'',
        checkCount (cll_failureBudget c) ''client.failureBudget'',
        checkCount (cll_maxRounds c) ''client.maxRounds'',
        checkTime (cll_maxRoundsWindowMs c) ''client.maxRoundsWindowMs'',
        (whole_at_least (cll_ratioPercent c) 1 \<and> cll_ratioPercent c \<le> 99, RatioOutside),
        checkDelay (ipl_delayMs i) (ipl_windowMs i) ''endUserIp'',
        checkDelay (bkl_delayMs b) (bkl_windowMs b) ''ipBucket'',
        checkDelay (cll_delayMs c) (cll_windowMs c) ''client'',
        checkCount (limit (reg_endUserIp g)) ''registrationStarts.endUserIp.limit'',
        checkTime (windowMs (reg_endUserIp g)) ''registrationStarts.endUserIp.windowMs'',
        checkCount (limit (reg_client g)) ''registrationStarts.client.limit'',
        checkTime (windowMs (reg_client g)) ''registrationStarts.client.windowMs''] of
        Some e \<Rightarrow> Inl e
      | None \<Rightarrow> Inr p)"

record round_limit_policies =
  strictPolicy :: round_limit_policy
  relaxedPolicy :: round_limit_policy

definition roundLimitPolicies :: "round_limit_policy \<Rightarrow> round_limit_error + round_limit_policies" where
  "roundLimitPolicies p =
     (case checkRoundLimitPolicy p of
        Inl e \<Rightarrow> Inl e
      | Inr strict \<Rightarrow> (case checkRoundLimitPolicy (relaxedRoundLimitPolicy strict) of
          Inl e \<Rightarrow> Inl e
        | Inr relaxed \<Rightarrow> Inr \<lparr>strictPolicy = strict, relaxedPolicy = relaxed\<rparr>))"

definition roundLimitPolicyFor :: "round_environment \<Rightarrow> round_limit_policies \<Rightarrow> round_limit_policy" where
  "roundLimitPolicyFor e ps = (if e = Development then relaxedPolicy ps else strictPolicy ps)"

text \<open>An answer is the list of its own members with a value, \<open>None\<close> for \<open>undefined\<close>.\<close>

definition CREDENTIAL_ANSWER_MEMBERS :: "string list" where
  "CREDENTIAL_ANSWER_MEMBERS = [''password'', ''otp'', ''recovery_code'', ''webauthn_response'']"

definition isCredentialAnswer :: "(string \<times> 'v option) list option \<Rightarrow> bool" where
  "isCredentialAnswer answer = (case answer of
      None \<Rightarrow> False
    | Some a \<Rightarrow> list_ex (\<lambda>name. case map_of a name of Some (Some _) \<Rightarrow> True | _ \<Rightarrow> False) CREDENTIAL_ANSWER_MEMBERS)"

datatype round_limit_name =
    EndUserIpLimit | EndUserIpDelay | IpBucketDelay | ClientDelay | ClientRounds
  | RegistrationEndUserIp | RegistrationClient

datatype round_limit_alert =
    EndUserIpBlocked | IpBucketIdentifiers | ClientFailureRatio | ClientFailureBudget | ClientRoundsAlert

datatype round_decision =
    Admitted (alerts_of: "round_limit_alert list") bool
  | RoundRefused round_limit_name ms (alerts_of: "round_limit_alert list")

datatype credential_outcome = OutcomeSuccess | OutcomeFailure | OutcomeWithdrawn

subsection \<open>The scripts\<close>

definition mark :: "'s redis \<Rightarrow> 's \<Rightarrow> key \<Rightarrow> ms" where
  "mark R s k = num_or 0 (GET R s k)"

definition extendMark :: "'s redis \<Rightarrow> key \<Rightarrow> ms \<Rightarrow> ms \<Rightarrow> 's \<Rightarrow> 's" where
  "extendMark R k now untilMs s =
     (if mark R s k < untilMs then SET R k (RInt untilMs) (max 1 (untilMs - now)) s else s)"

definition claim :: "'s redis \<Rightarrow> key \<Rightarrow> ms \<Rightarrow> ms \<Rightarrow> 's \<Rightarrow> bool \<times> 's" where
  "claim R k now ttl s =
     (if mark R s k > now then (False, s) else (True, SET R k (RInt (now + ttl)) ttl s))"

definition slot :: "'s redis \<Rightarrow> 's \<Rightarrow> key \<Rightarrow> ms \<Rightarrow> ms \<Rightarrow> int \<Rightarrow> ms" where
  "slot R s k now w lim =
     (let n = ZCARD R s k;
          wait = (case ZRANGE R s k (n - lim) of [] \<Rightarrow> 0 | (m, oldest) # _ \<Rightarrow> oldest + w - now)
      in if wait < 1 then 1 else wait)"

text \<open>\<open>string.match(member, '^(.*):[^:]*$')\<close>: what stands before the last colon, if there is one.\<close>

definition before_last_colon :: "string \<Rightarrow> string option" where
  "before_last_colon s =
     (case dropWhile (\<lambda>c. c \<noteq> CHR '':'') (rev s) of [] \<Rightarrow> None | _ # r \<Rightarrow> Some (rev r))"

definition bucketDrop :: "'s redis \<Rightarrow> key \<Rightarrow> string \<Rightarrow> 's \<Rightarrow> 's" where
  "bucketDrop R K5 i s =
     (let s1 = HINCRBY R K5 i (- 1) s
      in if num_or 0 (HGET R s1 K5 i) \<le> 0 then HDEL R K5 i s1 else s1)"

fun bucketDropAll :: "'s redis \<Rightarrow> key \<Rightarrow> string list \<Rightarrow> 's \<Rightarrow> 's" where
  "bucketDropAll R K5 [] s = s"
| "bucketDropAll R K5 (m # ms) s =
     bucketDropAll R K5 ms (case before_last_colon m of None \<Rightarrow> s | Some i \<Rightarrow> bucketDrop R K5 i s)"

definition pruneBucket :: "'s redis \<Rightarrow> key \<Rightarrow> key \<Rightarrow> ms \<Rightarrow> ms \<Rightarrow> 's \<Rightarrow> 's" where
  "pruneBucket R K4 K5 now w s =
     ZREMRANGEBYSCORE R K4 (now - w) (bucketDropAll R K5 (ZRANGEBYSCORE_UPTO R s K4 (now - w)) s)"

definition clientSoft :: "client_limits \<Rightarrow> int \<Rightarrow> int \<Rightarrow> bool" where
  "clientSoft c r f \<longleftrightarrow> f > cll_failureBudget c \<or> (r \<ge> cll_ratioMinRounds c \<and> f * 100 > cll_ratioPercent c * r)"

text \<open>What an admitted round reads of the soft thresholds of its rows.\<close>

definition admitSoft :: "'s redis \<Rightarrow> key \<Rightarrow> key \<Rightarrow> key \<Rightarrow> key \<Rightarrow> key \<Rightarrow> ms \<Rightarrow> bool \<Rightarrow> bool \<Rightarrow> bool
    \<Rightarrow> round_limit_policy \<Rightarrow> 's \<Rightarrow> bool \<times> 's" where
  "admitSoft R K4 K5 K6 K7 K8 now hasIp hasClient hasBucket p s =
     (let i = rp_endUserIp p; b = rp_ipBucket p; c = rp_client p;
          s1 = (if hasIp then prune R K6 now (ipl_windowMs i) s else s);
          soft1 = (hasIp \<and> ZCARD R s1 K6 \<ge> ipl_softFailures i);
          s2 = (if hasIp \<and> hasBucket then pruneBucket R K4 K5 now (bkl_windowMs b) s1 else s1);
          soft2 = (hasIp \<and> hasBucket \<and> HLEN R s2 K5 > bkl_maxIdentifiers b);
          s3 = (if hasClient then prune R K8 now (cll_windowMs c) (prune R K7 now (cll_windowMs c) s2) else s2);
          soft3 = (hasClient \<and> clientSoft c (ZCARD R s3 K7) (ZCARD R s3 K8))
      in (soft1 \<or> soft2 \<or> soft3, s3))"

definition ADMIT_ROUND_SCRIPT :: "'s redis \<Rightarrow> key \<Rightarrow> key \<Rightarrow> key \<Rightarrow> key \<Rightarrow> key \<Rightarrow> key \<Rightarrow> key \<Rightarrow> key \<Rightarrow> ms
    \<Rightarrow> bool \<Rightarrow> bool \<Rightarrow> bool \<Rightarrow> string \<Rightarrow> round_limit_policy \<Rightarrow> 's \<Rightarrow> round_decision \<times> 's" where
  "ADMIT_ROUND_SCRIPT R K1 K2 K3 K4 K5 K6 K7 K8 now hasIp hasClient hasBucket member p s =
     (let c = rp_client p; w = cll_maxRoundsWindowMs c in
      if hasIp \<and> mark R s K1 > now then (RoundRefused EndUserIpLimit (mark R s K1 - now) [], s)
      else
        let s1 = (if hasClient then prune R K2 now w s else s) in
        if hasClient \<and> ZCARD R s1 K2 \<ge> cll_maxRounds c
        then let wait = slot R s1 K2 now w (cll_maxRounds c);
                 (claimed, s2) = claim R K3 now w s1
             in (RoundRefused ClientRounds wait (if claimed then [ClientRoundsAlert] else []), s2)
        else
          let s2 = (if hasClient then PEXPIRE R K2 w (ZADD R K2 now member s1) else s1);
              (soft, s3) = admitSoft R K4 K5 K6 K7 K8 now hasIp hasClient hasBucket p s2
          in (Admitted [] soft, s3))"

text \<open>The IP's part of a reservation's decision: a refusal, or the two soft readings.\<close>

definition reserveIp :: "'s redis \<Rightarrow> key \<Rightarrow> key \<Rightarrow> key \<Rightarrow> key \<Rightarrow> key \<Rightarrow> ms \<Rightarrow> bool \<Rightarrow> round_limit_policy \<Rightarrow> 's
    \<Rightarrow> (round_decision + bool \<times> bool) \<times> 's" where
  "reserveIp R K1 K2 K3 K4 K5 now hasBucket p s =
     (let i = rp_endUserIp p; b = rp_ipBucket p in
      if mark R s K2 > now then (Inl (RoundRefused EndUserIpLimit (mark R s K2 - now) []), s)
      else
        let s1 = prune R K1 now (ipl_windowMs i) s; n = ZCARD R s1 K1 in
        if n \<ge> ipl_hardFailures i
        then (Inl (RoundRefused EndUserIpLimit (slot R s1 K1 now (ipl_windowMs i) (ipl_hardFailures i)) []), s1)
        else
          let ipIsSoft = (n \<ge> ipl_softFailures i);
              s2 = (if hasBucket then pruneBucket R K4 K5 now (bkl_windowMs b) s1 else s1);
              bucketIsSoft = (hasBucket \<and> HLEN R s2 K5 > bkl_maxIdentifiers b);
              pace = mark R s2 K3
          in if pace > now \<and> ipIsSoft then (Inl (RoundRefused EndUserIpDelay (pace - now) []), s2)
             else if pace > now \<and> bucketIsSoft then (Inl (RoundRefused IpBucketDelay (pace - now) []), s2)
             else (Inr (ipIsSoft, bucketIsSoft), s2))"

definition reserveClient :: "'s redis \<Rightarrow> key \<Rightarrow> key \<Rightarrow> key \<Rightarrow> ms \<Rightarrow> round_limit_policy \<Rightarrow> 's
    \<Rightarrow> (round_decision + bool) \<times> 's" where
  "reserveClient R K6 K7 K8 now p s =
     (let c = rp_client p;
          s1 = prune R K7 now (cll_windowMs c) (prune R K6 now (cll_windowMs c) s);
          soft = clientSoft c (ZCARD R s1 K6) (ZCARD R s1 K7);
          pace = mark R s1 K8
      in if soft \<and> pace > now then (Inl (RoundRefused ClientDelay (pace - now) []), s1) else (Inr soft, s1))"

text \<open>The records of an admitted reservation: a failed round of every row, and the delays that hold.\<close>

definition recordIp :: "'s redis \<Rightarrow> key \<Rightarrow> key \<Rightarrow> key \<Rightarrow> key \<Rightarrow> ms \<Rightarrow> bool \<Rightarrow> bool \<Rightarrow> string \<Rightarrow> string \<Rightarrow> bool \<Rightarrow> bool
    \<Rightarrow> round_limit_policy \<Rightarrow> 's \<Rightarrow> 's" where
  "recordIp R K1 K3 K4 K5 now hasBucket hasId res identifier ipIsSoft bucketIsSoft p s =
     (let i = rp_endUserIp p; b = rp_ipBucket p;
          s1 = PEXPIRE R K1 (ipl_windowMs i) (ZADD R K1 now res s);
          s2 = (if ipIsSoft then extendMark R K3 now (now + ipl_delayMs i) s1 else s1);
          s3 = (if bucketIsSoft then extendMark R K3 now (now + bkl_delayMs b) s2 else s2)
      in if hasBucket \<and> hasId
         then PEXPIRE R K5 (bkl_windowMs b) (PEXPIRE R K4 (bkl_windowMs b)
                (HINCRBY R K5 identifier 1 (ZADD R K4 now (identifier @ '':'' @ res) s3)))
         else s3)"

definition recordClient :: "'s redis \<Rightarrow> key \<Rightarrow> key \<Rightarrow> key \<Rightarrow> ms \<Rightarrow> string \<Rightarrow> bool \<Rightarrow> round_limit_policy \<Rightarrow> 's \<Rightarrow> 's" where
  "recordClient R K6 K7 K8 now res clientIsSoft p s =
     (let c = rp_client p;
          s1 = PEXPIRE R K7 (cll_windowMs c) (PEXPIRE R K6 (cll_windowMs c)
                 (ZADD R K7 now res (ZADD R K6 now res s)))
      in if clientIsSoft then extendMark R K8 now (now + cll_delayMs c) s1 else s1)"

definition RESERVE_CREDENTIAL_SCRIPT :: "'s redis \<Rightarrow> key \<Rightarrow> key \<Rightarrow> key \<Rightarrow> key \<Rightarrow> key \<Rightarrow> key \<Rightarrow> key \<Rightarrow> key \<Rightarrow> ms
    \<Rightarrow> bool \<Rightarrow> bool \<Rightarrow> bool \<Rightarrow> bool \<Rightarrow> string \<Rightarrow> string \<Rightarrow> round_limit_policy \<Rightarrow> 's \<Rightarrow> round_decision \<times> 's" where
  "RESERVE_CREDENTIAL_SCRIPT R K1 K2 K3 K4 K5 K6 K7 K8 now hasIp hasBucket hasId hasClient res identifier p s =
     (case (if hasIp then reserveIp R K1 K2 K3 K4 K5 now hasBucket p s else (Inr (False, False), s)) of
        (Inl d, s1) \<Rightarrow> (d, s1)
      | (Inr (ipIsSoft, bucketIsSoft), s1) \<Rightarrow>
          (case (if hasClient then reserveClient R K6 K7 K8 now p s1 else (Inr False, s1)) of
             (Inl d, s2) \<Rightarrow> (d, s2)
           | (Inr clientIsSoft, s2) \<Rightarrow>
               let s3 = (if hasIp then recordIp R K1 K3 K4 K5 now hasBucket hasId res identifier ipIsSoft bucketIsSoft p s2
                         else s2);
                   s4 = (if hasClient then recordClient R K6 K7 K8 now res clientIsSoft p s3 else s3)
               in (Admitted [] False, s4)))"

definition settleFailureIp :: "'s redis \<Rightarrow> key \<Rightarrow> key \<Rightarrow> key \<Rightarrow> key \<Rightarrow> key \<Rightarrow> key \<Rightarrow> ms \<Rightarrow> bool \<Rightarrow> round_limit_policy \<Rightarrow> 's
    \<Rightarrow> round_limit_alert list \<times> 's" where
  "settleFailureIp R K1 K2 K3 K4 K5 K6 now hasBucket p s =
     (let i = rp_endUserIp p; b = rp_ipBucket p;
          s1 = prune R K1 now (ipl_windowMs i) s; n = ZCARD R s1 K1;
          blocks = (n \<ge> ipl_hardFailures i \<and> mark R s1 K2 \<le> now);
          s2 = (if blocks then SET R K2 (RInt (now + ipl_blockMs i)) (ipl_blockMs i) s1 else s1);
          s3 = (if n \<ge> ipl_softFailures i then extendMark R K3 now (now + ipl_delayMs i) s2 else s2);
          s4 = (if hasBucket then pruneBucket R K4 K5 now (bkl_windowMs b) s3 else s3);
          over = (hasBucket \<and> HLEN R s4 K5 > bkl_maxIdentifiers b);
          (claimed, s5) = (if over then claim R K6 now (bkl_windowMs b) (extendMark R K3 now (now + bkl_delayMs b) s4)
                           else (False, s4))
      in ((if blocks then [EndUserIpBlocked] else []) @ (if claimed then [IpBucketIdentifiers] else []), s5))"

definition settleFailureClient :: "'s redis \<Rightarrow> key \<Rightarrow> key \<Rightarrow> key \<Rightarrow> key \<Rightarrow> key \<Rightarrow> ms \<Rightarrow> round_limit_policy \<Rightarrow> 's
    \<Rightarrow> round_limit_alert list \<times> 's" where
  "settleFailureClient R K7 K8 K9 K10 K11 now p s =
     (let c = rp_client p;
          s1 = prune R K8 now (cll_windowMs c) (prune R K7 now (cll_windowMs c) s);
          r = ZCARD R s1 K7; f = ZCARD R s1 K8;
          ratio = (r \<ge> cll_ratioMinRounds c \<and> f * 100 > cll_ratioPercent c * r);
          overBudget = (f > cll_failureBudget c);
          s2 = (if ratio \<or> overBudget then extendMark R K9 now (now + cll_delayMs c) s1 else s1);
          (a, s3) = (if ratio then claim R K10 now (cll_windowMs c) s2 else (False, s2));
          (b, s4) = (if overBudget then claim R K11 now (cll_windowMs c) s3 else (False, s3))
      in ((if a then [ClientFailureRatio] else []) @ (if b then [ClientFailureBudget] else []), s4))"

text \<open>A success or a withdrawal takes the round back.\<close>

definition takeBackIp :: "'s redis \<Rightarrow> key \<Rightarrow> key \<Rightarrow> key \<Rightarrow> bool \<Rightarrow> string \<Rightarrow> string \<Rightarrow> 's \<Rightarrow> 's" where
  "takeBackIp R K1 K4 K5 counted res identifier s =
     (let s1 = ZREM R K1 res s; m = identifier @ '':'' @ res
      in if counted
         then (if ZSCORE R s1 K4 m \<noteq> None then bucketDrop R K5 identifier (ZREM R K4 m s1) else ZREM R K4 m s1)
         else s1)"

definition takeBackClient :: "'s redis \<Rightarrow> key \<Rightarrow> key \<Rightarrow> ms \<Rightarrow> credential_outcome \<Rightarrow> bool \<Rightarrow> string \<Rightarrow> string
    \<Rightarrow> round_limit_policy \<Rightarrow> 's \<Rightarrow> 's" where
  "takeBackClient R K7 K8 now outcome hasAccount res account p s =
     (let s1 = ZREM R K8 res s
      in if outcome = OutcomeWithdrawn then ZREM R K7 res s1
         else if hasAccount
         then PEXPIRE R K7 (cll_windowMs (rp_client p)) (ZADD R K7 now (''a:'' @ account) (ZREM R K7 res s1))
         else s1)"

definition SETTLE_CREDENTIAL_SCRIPT :: "'s redis \<Rightarrow> key \<Rightarrow> key \<Rightarrow> key \<Rightarrow> key \<Rightarrow> key \<Rightarrow> key \<Rightarrow> key \<Rightarrow> key \<Rightarrow> key \<Rightarrow> key \<Rightarrow> key
    \<Rightarrow> ms \<Rightarrow> bool \<Rightarrow> bool \<Rightarrow> bool \<Rightarrow> bool \<Rightarrow> bool \<Rightarrow> credential_outcome \<Rightarrow> string \<Rightarrow> string \<Rightarrow> string
    \<Rightarrow> round_limit_policy \<Rightarrow> 's \<Rightarrow> round_limit_alert list \<times> 's" where
  "SETTLE_CREDENTIAL_SCRIPT R K1 K2 K3 K4 K5 K6 K7 K8 K9 K10 K11 now hasIp hasBucket hasId hasClient hasAccount
       outcome res identifier account p s =
     (if outcome = OutcomeFailure
      then let (a1, s1) = (if hasIp then settleFailureIp R K1 K2 K3 K4 K5 K6 now hasBucket p s else ([], s));
               (a2, s2) = (if hasClient then settleFailureClient R K7 K8 K9 K10 K11 now p s1 else ([], s1))
           in (a1 @ a2, s2)
      else let s1 = (if hasIp then takeBackIp R K1 K4 K5 (hasBucket \<and> hasId) res identifier s else s);
               s2 = (if hasClient then takeBackClient R K7 K8 now outcome hasAccount res account p s1 else s1)
           in ([], s2))"

definition REGISTRATION_START_SCRIPT :: "'s redis \<Rightarrow> key \<Rightarrow> key \<Rightarrow> ms \<Rightarrow> bool \<Rightarrow> bool \<Rightarrow> string \<Rightarrow> registration_limits
    \<Rightarrow> 's \<Rightarrow> round_decision \<times> 's" where
  "REGISTRATION_START_SCRIPT R K1 K2 now hasIp hasClient member g s =
     (let i = reg_endUserIp g; c = reg_client g;
          s1 = (if hasIp then prune R K1 now (windowMs i) s else s) in
      if hasIp \<and> ZCARD R s1 K1 \<ge> limit i
      then (RoundRefused RegistrationEndUserIp (slot R s1 K1 now (windowMs i) (limit i)) [], s1)
      else
        let s2 = (if hasClient then prune R K2 now (windowMs c) s1 else s1) in
        if hasClient \<and> ZCARD R s2 K2 \<ge> limit c
        then (RoundRefused RegistrationClient (slot R s2 K2 now (windowMs c) (limit c)) [], s2)
        else
          let s3 = (if hasIp then PEXPIRE R K1 (windowMs i) (ZADD R K1 now member s2) else s2);
              s4 = (if hasClient then PEXPIRE R K2 (windowMs c) (ZADD R K2 now member s3) else s3)
          in (Admitted [] False, s4))"

subsection \<open>The store\<close>

definition roundLimitKey :: "string \<Rightarrow> string list \<Rightarrow> key" where
  "roundLimitKey realmId parts = ''round-limits:{'' @ realmId @ ''}:'' @ join_colon parts"

record round_keys =
  rk_realmId :: string
  rk_environment :: round_environment
  rk_endUserIpHmac :: "string option"
  rk_ipBucketHmac :: "string option"
  rk_clientKey :: "string option"

record credential_keys = round_keys +
  rk_reservation :: string
  rk_identifierHmac :: "string option"

text \<open>
  The rows of a round: the IP, the bucket (only with an IP) and the client's hash, with the
  key of a name under each; a row the round lacks keys a name the scripts never write.
\<close>

definition row_ip :: "('a) round_keys_scheme \<Rightarrow> string option" where
  "row_ip keys = rk_endUserIpHmac keys"

definition row_bucket :: "('a) round_keys_scheme \<Rightarrow> string option" where
  "row_bucket keys = (if rk_endUserIpHmac keys = None then None else rk_ipBucketHmac keys)"

definition row_client :: "(string \<Rightarrow> string) \<Rightarrow> ('a) round_keys_scheme \<Rightarrow> string option" where
  "row_client hashPart keys = map_option hashPart (rk_clientKey keys)"

definition dash :: "string option \<Rightarrow> string" where
  "dash x = (case x of None \<Rightarrow> ''-'' | Some v \<Rightarrow> v)"

definition ipKey :: "('a) round_keys_scheme \<Rightarrow> string \<Rightarrow> key" where
  "ipKey keys name = roundLimitKey (rk_realmId keys) [''ip'', dash (row_ip keys), name]"

definition bucketKey :: "('a) round_keys_scheme \<Rightarrow> string \<Rightarrow> key" where
  "bucketKey keys name = roundLimitKey (rk_realmId keys) [''bucket'', dash (row_bucket keys), name]"

definition clientKey :: "(string \<Rightarrow> string) \<Rightarrow> ('a) round_keys_scheme \<Rightarrow> string list \<Rightarrow> key" where
  "clientKey hashPart keys names = roundLimitKey (rk_realmId keys) (''client'' # dash (row_client hashPart keys) # names)"

text \<open>The checks \<open>rows\<close>, \<open>credentialArgs\<close> and \<open>roundLimitKey\<close> make, in the order they throw.\<close>

definition checkRows :: "('a) round_keys_scheme \<Rightarrow> round_limit_error option" where
  "checkRows keys =
     (if \<not> opt_part (row_ip keys) then Some (RoundPartOutOfShape ''an IP HMAC'')
      else if \<not> opt_part (row_bucket keys) then Some (RoundPartOutOfShape ''a bucket HMAC'')
      else None)"

definition checkCredentialArgs :: "credential_keys \<Rightarrow> round_limit_error option" where
  "checkCredentialArgs r =
     (if \<not> KEY_PART (rk_reservation r) then Some (RoundPartOutOfShape ''a reservation'')
      else if \<not> opt_part (rk_identifierHmac r) then Some (RoundPartOutOfShape ''an identifier HMAC'')
      else None)"

definition checkRealm :: "('a) round_keys_scheme \<Rightarrow> round_limit_error option" where
  "checkRealm keys = (if KEY_PART (rk_realmId keys) then None else Some (RoundPartOutOfShape ''a realm id''))"

fun first_of :: "'e option list \<Rightarrow> 'e option" where
  "first_of [] = None"
| "first_of (None # xs) = first_of xs"
| "first_of (Some e # xs) = Some e"

definition identifierOf :: "credential_keys \<Rightarrow> string" where
  "identifierOf r = (case rk_identifierHmac r of None \<Rightarrow> '''' | Some i \<Rightarrow> i)"

definition roundDecisionOf :: "round_decision \<Rightarrow> round_decision" where
  "roundDecisionOf d = (case d of RoundRefused l wait a \<Rightarrow> RoundRefused l (max 1 wait) a | _ \<Rightarrow> d)"

definition admitRound :: "'s redis \<Rightarrow> (string \<Rightarrow> string) \<Rightarrow> round_limit_policies \<Rightarrow> ms \<Rightarrow> string \<Rightarrow> round_keys \<Rightarrow> 's
    \<Rightarrow> round_limit_error + round_decision \<times> 's" where
  "admitRound R hashPart ps at member keys s =
     (case first_of [checkRows keys, checkRealm keys] of
        Some e \<Rightarrow> Inl e
      | None \<Rightarrow>
          let (d, s') = ADMIT_ROUND_SCRIPT R (ipKey keys ''block'') (clientKey hashPart keys [''rounds''])
                (clientKey hashPart keys [''alert'', ''rounds'']) (bucketKey keys ''failures'')
                (bucketKey keys ''identifiers'') (ipKey keys ''failures'') (clientKey hashPart keys [''credential''])
                (clientKey hashPart keys [''failures'']) at
                (row_ip keys \<noteq> None) (row_client hashPart keys \<noteq> None) (row_bucket keys \<noteq> None) member
                (roundLimitPolicyFor (rk_environment keys) ps) s
          in Inr (roundDecisionOf d, s'))"

definition reserveCredential :: "'s redis \<Rightarrow> (string \<Rightarrow> string) \<Rightarrow> round_limit_policies \<Rightarrow> ms \<Rightarrow> credential_keys \<Rightarrow> 's
    \<Rightarrow> round_limit_error + round_decision \<times> 's" where
  "reserveCredential R hashPart ps now r s =
     (case first_of [checkRows r, checkCredentialArgs r, checkRealm r] of
        Some e \<Rightarrow> Inl e
      | None \<Rightarrow>
          let (d, s') = RESERVE_CREDENTIAL_SCRIPT R (ipKey r ''failures'') (ipKey r ''block'') (ipKey r ''pace'')
                (bucketKey r ''failures'') (bucketKey r ''identifiers'') (clientKey hashPart r [''credential''])
                (clientKey hashPart r [''failures'']) (clientKey hashPart r [''pace'']) now
                (row_ip r \<noteq> None) (row_bucket r \<noteq> None) (identifierOf r \<noteq> '''') (row_client hashPart r \<noteq> None)
                (rk_reservation r) (identifierOf r) (roundLimitPolicyFor (rk_environment r) ps) s
          in Inr (roundDecisionOf d, s'))"

definition settleCredential :: "'s redis \<Rightarrow> (string \<Rightarrow> string) \<Rightarrow> round_limit_policies \<Rightarrow> ms \<Rightarrow> credential_keys
    \<Rightarrow> credential_outcome \<Rightarrow> string option \<Rightarrow> 's \<Rightarrow> round_limit_error + round_limit_alert list \<times> 's" where
  "settleCredential R hashPart ps now r outcome accountKey s =
     (case first_of [checkRows r, checkCredentialArgs r, checkRealm r] of
        Some e \<Rightarrow> Inl e
      | None \<Rightarrow>
          let account = (case accountKey of None \<Rightarrow> '''' | Some a \<Rightarrow> hashPart a)
          in Inr (SETTLE_CREDENTIAL_SCRIPT R (ipKey r ''failures'') (ipKey r ''block'') (ipKey r ''pace'')
                (bucketKey r ''failures'') (bucketKey r ''identifiers'') (bucketKey r ''alert'')
                (clientKey hashPart r [''credential'']) (clientKey hashPart r [''failures''])
                (clientKey hashPart r [''pace'']) (clientKey hashPart r [''alert'', ''ratio''])
                (clientKey hashPart r [''alert'', ''budget'']) now
                (row_ip r \<noteq> None) (row_bucket r \<noteq> None) (identifierOf r \<noteq> '''') (row_client hashPart r \<noteq> None)
                (account \<noteq> '''') outcome (rk_reservation r) (identifierOf r) account
                (roundLimitPolicyFor (rk_environment r) ps) s))"

definition reserveRegistrationStart :: "'s redis \<Rightarrow> (string \<Rightarrow> string) \<Rightarrow> round_limit_policies \<Rightarrow> ms \<Rightarrow> string \<Rightarrow> round_keys
    \<Rightarrow> 's \<Rightarrow> round_limit_error + round_decision \<times> 's" where
  "reserveRegistrationStart R hashPart ps at member keys s =
     (case first_of [checkRows keys, checkRealm keys] of
        Some e \<Rightarrow> Inl e
      | None \<Rightarrow>
          let (d, s') = REGISTRATION_START_SCRIPT R
                (roundLimitKey (rk_realmId keys) [''registration'', ''ip'', dash (row_ip keys)])
                (roundLimitKey (rk_realmId keys) [''registration'', ''client'', dash (row_client hashPart keys)]) at
                (row_ip keys \<noteq> None) (row_client hashPart keys \<noteq> None) member
                (rp_registrationStarts (roundLimitPolicyFor (rk_environment keys) ps)) s
          in Inr (roundDecisionOf d, s'))"

subsection \<open>The limiter hook\<close>

datatype limit_verdict = Continue bool | Throttled int

datatype credential_verdict = CredentialThrottled int | CredentialReserved credential_keys

record alert_event =
  ae_realmId :: string
  ae_alert :: round_limit_alert
  ae_endUserIpHmac :: "string option"
  ae_ipBucketHmac :: "string option"
  ae_clientId :: "string option"

text \<open>\<open>ipDigest\<close> is the keyed HMAC of an address within a realm.\<close>

record hook_round =
  hr_realmId :: string
  hr_clientId :: string
  hr_endUserIp :: "string option"
  hr_environment :: "string option"

definition keysOf :: "(string \<Rightarrow> string \<Rightarrow> string) \<Rightarrow> bool \<Rightarrow> hook_round \<Rightarrow> round_keys" where
  "keysOf ipDigest perClient h =
     (let ip = (case hr_endUserIp h of Some e \<Rightarrow> if e = '''' then None else Some e | None \<Rightarrow> None)
      in \<lparr>rk_realmId = hr_realmId h, rk_environment = roundEnvironmentOf (hr_environment h),
          rk_endUserIpHmac = map_option (ipDigest (hr_realmId h)) ip,
          rk_ipBucketHmac = map_option (\<lambda>e. ipDigest (hr_realmId h) (endUserIpBucket e)) ip,
          rk_clientKey = (if perClient then Some (hr_clientId h) else None)\<rparr>)"

definition verdictOf :: "round_decision \<Rightarrow> limit_verdict" where
  "verdictOf d = (case d of Admitted _ soft \<Rightarrow> Continue soft
     | RoundRefused _ wait _ \<Rightarrow> Throttled (retryAfterSeconds wait))"

definition alerted :: "('a) round_keys_scheme \<Rightarrow> string \<Rightarrow> round_limit_alert list \<Rightarrow> alert_event list" where
  "alerted keys clientId as = map (\<lambda>a. \<lparr>ae_realmId = rk_realmId keys, ae_alert = a,
     ae_endUserIpHmac = (if a = EndUserIpBlocked then rk_endUserIpHmac keys else None),
     ae_ipBucketHmac = (if a = IpBucketIdentifiers then rk_ipBucketHmac keys else None),
     ae_clientId = (if a \<in> {ClientFailureRatio, ClientFailureBudget, ClientRoundsAlert} then Some clientId else None)\<rparr>) as"

definition limiterRound :: "'s redis \<Rightarrow> (string \<Rightarrow> string) \<Rightarrow> round_limit_policies \<Rightarrow> (string \<Rightarrow> string \<Rightarrow> string)
    \<Rightarrow> bool \<Rightarrow> ms \<Rightarrow> string \<Rightarrow> hook_round \<Rightarrow> 's
    \<Rightarrow> round_limit_error + limit_verdict \<times> alert_event list \<times> 's" where
  "limiterRound R hashPart ps ipDigest perClient now member h s =
     (let keys = keysOf ipDigest perClient h in
      case admitRound R hashPart ps now member keys s of
        Inl e \<Rightarrow> Inl e
      | Inr (d, s') \<Rightarrow> Inr (verdictOf d, alerted keys (hr_clientId h) (alerts_of d), s'))"

definition limiterReserve :: "'s redis \<Rightarrow> (string \<Rightarrow> string) \<Rightarrow> round_limit_policies \<Rightarrow> (string \<Rightarrow> string \<Rightarrow> string)
    \<Rightarrow> bool \<Rightarrow> ms \<Rightarrow> string \<Rightarrow> hook_round \<Rightarrow> string option \<Rightarrow> 's
    \<Rightarrow> round_limit_error + credential_verdict \<times> alert_event list \<times> 's" where
  "limiterReserve R hashPart ps ipDigest perClient now res h identifierHmac s =
     (let keys = round_keys.extend (keysOf ipDigest perClient h)
            \<lparr>rk_reservation = res, rk_identifierHmac = identifierHmac\<rparr> in
      case reserveCredential R hashPart ps now keys s of
        Inl e \<Rightarrow> Inl e
      | Inr (d, s') \<Rightarrow>
          Inr (case d of RoundRefused _ wait _ \<Rightarrow> CredentialThrottled (retryAfterSeconds wait)
                 | Admitted _ _ \<Rightarrow> CredentialReserved keys,
               alerted keys (hr_clientId h) (alerts_of d), s'))"

text \<open>
  The reservation's \<open>settle\<close>: the flag \<open>settled\<close> is set before the store is called, so a second
  call throws whatever the first one met.
\<close>

definition limiterSettle :: "'s redis \<Rightarrow> (string \<Rightarrow> string) \<Rightarrow> round_limit_policies \<Rightarrow> ms \<Rightarrow> credential_keys \<Rightarrow> string
    \<Rightarrow> credential_outcome \<Rightarrow> string option \<Rightarrow> bool \<times> 's \<Rightarrow> (round_limit_error + alert_event list) \<times> bool \<times> 's" where
  "limiterSettle R hashPart ps now keys clientId outcome userId st =
     (case st of (settled, s) \<Rightarrow>
        if settled then (Inl SettledTwice, True, s)
        else (case settleCredential R hashPart ps now keys outcome
                     (if outcome = OutcomeSuccess then userId else None) s of
                Inl e \<Rightarrow> (Inl e, True, s)
              | Inr (as, s') \<Rightarrow> (Inr (alerted keys clientId as), True, s')))"

definition limiterRegistrationStart :: "'s redis \<Rightarrow> (string \<Rightarrow> string) \<Rightarrow> round_limit_policies \<Rightarrow> (string \<Rightarrow> string \<Rightarrow> string)
    \<Rightarrow> bool \<Rightarrow> ms \<Rightarrow> string \<Rightarrow> hook_round \<Rightarrow> 's
    \<Rightarrow> round_limit_error + limit_verdict \<times> alert_event list \<times> 's" where
  "limiterRegistrationStart R hashPart ps ipDigest perClient now member h s =
     (let keys = keysOf ipDigest perClient h in
      case reserveRegistrationStart R hashPart ps now member keys s of
        Inl e \<Rightarrow> Inl e
      | Inr (d, s') \<Rightarrow> Inr (verdictOf d, alerted keys (hr_clientId h) (alerts_of d), s'))"

end
