(* ===== verification/Round_Limit_Bounds.thy ===== *)
theory Round_Limit_Bounds
  imports Round_Limits
begin

text \<open>
  What the round limits guarantee: what each script does to each log and mark, the keys of the
  rows, the runs of a store under interleaved rounds, reservations, settlements, registration
  starts and expiry, and the bounds that hold in every such run.
\<close>

subsection \<open>The scripts, log by log\<close>

context redis_store
begin

lemma ZCARD_prune: "ZCARD R (prune R k now w s) k = int (card (newer (ZSCORE R s k) (now - w)))"
  by (simp add: ZCARD_eq)

lemma mark_prune [simp]: "k' \<noteq> k \<Longrightarrow> mark R (prune R k now w s) k' = mark R s k'"
  by (simp add: mark_def)

lemma view_prune: "k' \<noteq> k \<Longrightarrow> view R (prune R k now w s) k' = view R s k'"
  by (simp add: prune_def frame_zset)

lemma view_extend: "k' \<noteq> k \<Longrightarrow> view R (extendMark R k now u s) k' = view R s k'"
  by (simp add: extendMark_def frame_string)

lemma view_bucketDrop: "k' \<noteq> K5 \<Longrightarrow> view R (bucketDrop R K5 i s) k' = view R s k'"
  by (simp add: bucketDrop_def Let_def frame_hash)

lemma view_bucketDropAll: "k' \<noteq> K5 \<Longrightarrow> view R (bucketDropAll R K5 ms s) k' = view R s k'"
  by (induction ms arbitrary: s) (auto simp: view_bucketDrop split: option.splits)

lemma view_pruneBucket: "k' \<noteq> K4 \<Longrightarrow> k' \<noteq> K5 \<Longrightarrow> view R (pruneBucket R K4 K5 now w s) k' = view R s k'"
  by (simp add: pruneBucket_def frame_zset view_bucketDropAll)

lemma view_admitSoft:
  "k \<notin> {K4, K5, K6, K7, K8} \<Longrightarrow>
    view R (snd (admitSoft R K4 K5 K6 K7 K8 now hasIp hasClient hasBucket p s)) k = view R s k"
  by (simp add: admitSoft_def Let_def view_prune view_pruneBucket)

lemma view_reserveIp:
  "reserveIp R K1 K2 K3 K4 K5 now hasBucket p s = (d, s') \<Longrightarrow> k \<notin> {K1, K4, K5} \<Longrightarrow> view R s' k = view R s k"
  by (auto simp: reserveIp_def Let_def view_prune view_pruneBucket split: if_splits)

lemma view_reserveClient:
  "reserveClient R K6 K7 K8 now p s = (d, s') \<Longrightarrow> k \<notin> {K6, K7} \<Longrightarrow> view R s' k = view R s k"
  by (auto simp: reserveClient_def Let_def view_prune split: if_splits)

lemma view_recordIp:
  "k \<notin> {K1, K3, K4, K5} \<Longrightarrow> view R (recordIp R K1 K3 K4 K5 now hb hi res i ips bs p s) k = view R s k"
  by (simp add: recordIp_def Let_def view_PEXPIRE frame_zset frame_hash view_extend)

lemma view_recordClient:
  "k \<notin> {K6, K7, K8} \<Longrightarrow> view R (recordClient R K6 K7 K8 now res soft p s) k = view R s k"
  by (simp add: recordClient_def Let_def view_PEXPIRE frame_zset view_extend)

lemma view_claim_snd: "k' \<noteq> k \<Longrightarrow> view R (snd (claim R k now ttl s)) k' = view R s k'"
  by (simp add: claim_def frame_string)

lemma view_settleFailureIp:
  "k \<notin> {K1, K2, K3, K4, K5, K6} \<Longrightarrow> view R (snd (settleFailureIp R K1 K2 K3 K4 K5 K6 now hb p s)) k = view R s k"
  by (simp add: settleFailureIp_def Let_def split_beta view_prune view_pruneBucket view_extend frame_string
      view_claim_snd)

lemma view_settleFailureClient:
  "k \<notin> {K7, K8, K9, K10, K11} \<Longrightarrow> view R (snd (settleFailureClient R K7 K8 K9 K10 K11 now p s)) k = view R s k"
  by (simp add: settleFailureClient_def Let_def split_beta view_prune view_extend frame_string view_claim_snd)

lemma view_takeBackIp:
  "k \<notin> {K1, K4, K5} \<Longrightarrow> view R (takeBackIp R K1 K4 K5 c res i s) k = view R s k"
  by (simp add: takeBackIp_def Let_def frame_zset view_bucketDrop)

lemma view_takeBackClient:
  "k \<notin> {K7, K8} \<Longrightarrow> view R (takeBackClient R K7 K8 now oc ha res a p s) k = view R s k"
  by (simp add: takeBackClient_def Let_def frame_zset view_PEXPIRE)

end

fun is_admitted :: "round_decision \<Rightarrow> bool" where
  "is_admitted (Admitted _ _) = True"
| "is_admitted _ = False"

lemma roundDecisionOf_admitted [simp]: "is_admitted (roundDecisionOf d) = is_admitted d"
  by (cases d) (simp_all add: roundDecisionOf_def)

context redis_store
begin

lemma ZSCORE_of_view: "view R s' k = view R s k \<Longrightarrow> ZSCORE R s' k = ZSCORE R s k"
  by (simp add: view_def)

lemma admit_client_log:
  assumes "ADMIT_ROUND_SCRIPT R K1 K2 K3 K4 K5 K6 K7 K8 now hasIp True hasBucket member p s = (d, s')"
    and "K2 \<notin> {K3, K4, K5, K6, K7, K8}"
  shows "log_move now \<lparr>limit = cll_maxRounds (rp_client p), windowMs = cll_maxRoundsWindowMs (rp_client p)\<rparr> member
    (is_admitted d) (ZSCORE R s K2) (ZSCORE R s' K2)"
proof -
  let ?w = "cll_maxRoundsWindowMs (rp_client p)"
  let ?s2 = "PEXPIRE R K2 ?w (ZADD R K2 now member (prune R K2 now ?w s))"
  have "ZSCORE R (snd (claim R K3 now ?w (prune R K2 now ?w s))) K2 = keep_newer (ZSCORE R s K2) (now - ?w)"
    using assms(2) ZSCORE_of_view[OF view_claim_snd] by simp
  moreover have "ZSCORE R (snd (admitSoft R K4 K5 K6 K7 K8 now hasIp True hasBucket p ?s2)) K2 = (keep_newer (ZSCORE R s K2) (now - ?w))(member \<mapsto> now)"
    using assms(2) ZSCORE_of_view[OF view_admitSoft] by simp
  ultimately show ?thesis
    using assms(1) by (auto simp: ADMIT_ROUND_SCRIPT_def Let_def split_beta log_move_def ZCARD_prune split: if_splits)
qed

lemma view_admit:
  assumes "ADMIT_ROUND_SCRIPT R K1 K2 K3 K4 K5 K6 K7 K8 now hasIp hasClient hasBucket member p s = (d, s')"
    and "k \<notin> {K3, K4, K5, K6, K7, K8}" and "hasClient \<longrightarrow> k \<noteq> K2"
  shows "view R s' k = view R s k"
  using assms view_admitSoft[of k K4 K5 K6 K7 K8]
  by (auto simp: ADMIT_ROUND_SCRIPT_def Let_def split_beta view_prune view_claim_snd view_PEXPIRE frame_zset
      split: if_splits)

lemma admitSoft_ip_log:
  assumes "K6 \<notin> {K4, K5, K7, K8}"
  shows "ZSCORE R (snd (admitSoft R K4 K5 K6 K7 K8 now hasIp hasClient hasBucket p s)) K6
    = (if hasIp then keep_newer (ZSCORE R s K6) (now - ipl_windowMs (rp_endUserIp p)) else ZSCORE R s K6)"
  using assms ZSCORE_of_view[OF view_pruneBucket, of K6 K4 K5] by (simp add: admitSoft_def Let_def)

lemma admit_ip_log:
  assumes "ADMIT_ROUND_SCRIPT R K1 K2 K3 K4 K5 K6 K7 K8 now hasIp hasClient hasBucket member p s = (d, s')"
    and "K6 \<notin> {K2, K3, K4, K5, K7, K8}"
  shows "ZSCORE R s' K6 \<in> {ZSCORE R s K6, keep_newer (ZSCORE R s K6) (now - ipl_windowMs (rp_endUserIp p))}"
  using assms admitSoft_ip_log[of K6 K4 K5 K7 K8 now hasIp hasClient hasBucket p]
    ZSCORE_of_view[OF view_claim_snd, of K6 K3]
  by (auto simp: ADMIT_ROUND_SCRIPT_def Let_def split_beta split: if_splits)

lemma reserveIp_log:
  assumes "reserveIp R K1 K2 K3 K4 K5 now hasBucket p s = (x, s')" and "K1 \<notin> {K2, K3, K4, K5}"
  shows "ZSCORE R s' K1 \<in> {ZSCORE R s K1, keep_newer (ZSCORE R s K1) (now - ipl_windowMs (rp_endUserIp p))}"
    and "x = Inr y \<Longrightarrow> int (card (newer (ZSCORE R s K1) (now - ipl_windowMs (rp_endUserIp p)))) < ipl_hardFailures (rp_endUserIp p)
      \<and> ZSCORE R s' K1 = keep_newer (ZSCORE R s K1) (now - ipl_windowMs (rp_endUserIp p))"
    and "x = Inl d \<Longrightarrow> \<not> is_admitted d"
  using assms ZSCORE_of_view[OF view_pruneBucket, of K1 K4 K5]
  by (auto simp: reserveIp_def Let_def ZCARD_prune split: if_splits)

lemma reserveClient_refuses: "reserveClient R K6 K7 K8 now p s = (Inl d, s') \<Longrightarrow> \<not> is_admitted d"
  by (auto simp: reserveClient_def Let_def split: if_splits)

lemma recordIp_log:
  assumes "K1 \<notin> {K3, K4, K5}"
  shows "ZSCORE R (recordIp R K1 K3 K4 K5 now hb hi res i ips bs p s) K1 = (ZSCORE R s K1)(res \<mapsto> now)"
  using assms ZSCORE_of_view[OF view_extend, of K1 K3] by (simp add: recordIp_def Let_def)

lemma reserve_ip_log:
  assumes sc: "RESERVE_CREDENTIAL_SCRIPT R K1 K2 K3 K4 K5 K6 K7 K8 now True hb hi hc res i p s = (d, s')"
    and k: "K1 \<notin> {K2, K3, K4, K5, K6, K7, K8}"
  shows "log_move now \<lparr>limit = ipl_hardFailures (rp_endUserIp p), windowMs = ipl_windowMs (rp_endUserIp p)\<rparr> res
    (is_admitted d) (ZSCORE R s K1) (ZSCORE R s' K1)"
proof -
  obtain x s1 where x: "reserveIp R K1 K2 K3 K4 K5 now hb p s = (x, s1)" by (cases "reserveIp R K1 K2 K3 K4 K5 now hb p s")
  obtain y s2 where y: "(if hc then reserveClient R K6 K7 K8 now p s1 else (Inr False, s1)) = (y, s2)"
    by (cases "if hc then reserveClient R K6 K7 K8 now p s1 else (Inr False, s1)")
  have z2: "ZSCORE R s2 K1 = ZSCORE R s1 K1"
    using y k view_reserveClient[THEN ZSCORE_of_view, of K6 K7 K8 now p s1 y s2 K1] by (auto split: if_splits)
  have rec: "ZSCORE R (recordClient R K6 K7 K8 now res c p (recordIp R K1 K3 K4 K5 now hb hi res i a b p s2)) K1
      = (ZSCORE R s1 K1)(res \<mapsto> now)" for a b c
    using k ZSCORE_of_view[OF view_recordClient, of K1 K6 K7 K8] by (simp add: recordIp_log z2)
  have rec': "ZSCORE R (recordIp R K1 K3 K4 K5 now hb hi res i a b p s2) K1 = (ZSCORE R s1 K1)(res \<mapsto> now)" for a b
    using k by (simp add: recordIp_log z2)
  note ip = reserveIp_log[OF x] 
  show ?thesis
  proof (cases x)
    case (Inl e)
    with sc x ip k show ?thesis by (auto simp: RESERVE_CREDENTIAL_SCRIPT_def log_move_def)
  next
    case (Inr ab)
    obtain a b where ab: "ab = (a, b)" by (cases ab)
    show ?thesis
    proof (cases y)
      case (Inl e)
      then have "\<not> is_admitted e" using y reserveClient_refuses by (auto split: if_splits)
      with sc x Inr ab y Inl ip k z2 show ?thesis by (auto simp: RESERVE_CREDENTIAL_SCRIPT_def log_move_def)
    next
      case (Inr c)
      with sc x \<open>x = Inr ab\<close> ab y ip k rec rec' show ?thesis
        by (auto simp: RESERVE_CREDENTIAL_SCRIPT_def log_move_def Let_def)
    qed
  qed
qed

lemma view_reserve:
  assumes "RESERVE_CREDENTIAL_SCRIPT R K1 K2 K3 K4 K5 K6 K7 K8 now hasIp hb hi hc res i p s = (d, s')"
    and "k \<notin> {K4, K5, K6, K7, K8}" and "hasIp \<longrightarrow> k \<notin> {K1, K3}"
  shows "view R s' k = view R s k"
  using assms
  by (auto simp: RESERVE_CREDENTIAL_SCRIPT_def Let_def view_recordIp view_recordClient
      dest!: view_reserveIp[where k = k] view_reserveClient[where k = k] split: if_splits prod.splits sum.splits)

lemma settle_ip_log:
  assumes sc: "SETTLE_CREDENTIAL_SCRIPT R K1 K2 K3 K4 K5 K6 K7 K8 K9 K10 K11 now True hb hi hc ha oc res i a p s = (as, s')"
    and k: "K1 \<notin> {K2, K3, K4, K5, K6, K7, K8, K9, K10, K11}"
  shows "ZSCORE R s' K1 = (if oc = OutcomeFailure then keep_newer (ZSCORE R s K1) (now - ipl_windowMs (rp_endUserIp p))
    else (ZSCORE R s K1)(res := None))"
proof -
  have f: "ZSCORE R (snd (settleFailureIp R K1 K2 K3 K4 K5 K6 now hb p s)) K1 = keep_newer (ZSCORE R s K1) (now - ipl_windowMs (rp_endUserIp p))"
    using k ZSCORE_of_view[OF view_pruneBucket, of K1 K4 K5] ZSCORE_of_view[OF view_extend, of K1 K3] ZSCORE_of_view[OF view_claim_snd, of K1 K6]
    by (simp add: settleFailureIp_def Let_def split_beta)
  have t: "ZSCORE R (takeBackIp R K1 K4 K5 c res i s) K1 = (ZSCORE R s K1)(res := None)" for c
    using k ZSCORE_of_view[OF view_bucketDrop, of K1 K5] by (simp add: takeBackIp_def Let_def)
  from sc k f t show ?thesis
    using ZSCORE_of_view[OF view_settleFailureClient, of K1 K7 K8 K9 K10 K11] ZSCORE_of_view[OF view_takeBackClient, of K1 K7 K8]
    by (auto simp: SETTLE_CREDENTIAL_SCRIPT_def Let_def split_beta split: if_splits)
qed

lemma view_settle:
  assumes "SETTLE_CREDENTIAL_SCRIPT R K1 K2 K3 K4 K5 K6 K7 K8 K9 K10 K11 now hasIp hb hi hc ha oc res i a p s = (as, s')"
    and "k \<notin> {K4, K5, K6, K7, K8, K9, K10, K11}" and "hasIp \<longrightarrow> k \<notin> {K1, K2, K3}"
  shows "view R s' k = view R s k"
  using assms
  by (auto simp: SETTLE_CREDENTIAL_SCRIPT_def Let_def split_beta view_settleFailureIp view_settleFailureClient
      view_takeBackIp view_takeBackClient split: if_splits)

lemma registration_ip_log:
  assumes "REGISTRATION_START_SCRIPT R K1 K2 now True hasClient member g s = (d, s')" and "K1 \<noteq> K2"
  shows "log_move now (reg_endUserIp g) member (is_admitted d) (ZSCORE R s K1) (ZSCORE R s' K1)"
  using assms by (auto simp: REGISTRATION_START_SCRIPT_def Let_def log_move_def ZCARD_prune split: if_splits)

lemma view_registration:
  assumes "REGISTRATION_START_SCRIPT R K1 K2 now hasIp hasClient member g s = (d, s')"
    and "hasIp \<longrightarrow> k \<noteq> K1" and "hasClient \<longrightarrow> k \<noteq> K2"
  shows "view R s' k = view R s k"
  using assms by (auto simp: REGISTRATION_START_SCRIPT_def Let_def view_prune view_PEXPIRE frame_zset split: if_splits)

end

subsection \<open>The keys of the rows\<close>

abbreviation colon_free :: "string \<Rightarrow> bool" where
  "colon_free x \<equiv> CHR '':'' \<notin> set x"

lemma split_join:
  assumes "\<forall>x \<in> set xs. colon_free x" and "xs \<noteq> []"
  shows "split_on (CHR '':'') (join_colon xs) = xs"
  using assms by (induction xs rule: join_colon.induct) (auto simp: split_on_part split_on_append)

lemma roundLimitKey_inject:
  assumes "KEY_PART r" and "KEY_PART r'" and "\<forall>x \<in> set xs. colon_free x" and "\<forall>x \<in> set ys. colon_free x"
    and "xs \<noteq> []" and "ys \<noteq> []"
  shows "roundLimitKey r xs = roundLimitKey r' ys \<longleftrightarrow> r = r' \<and> xs = ys"
proof
  assume "roundLimitKey r xs = roundLimitKey r' ys"
  then have "r @ CHR ''}'' # '':'' @ join_colon xs = r' @ CHR ''}'' # '':'' @ join_colon ys"
    by (simp add: roundLimitKey_def)
  from append_sep_inject[OF KEY_PART_no_close[OF assms(1)] KEY_PART_no_close[OF assms(2)] this]
  have "r = r'" "join_colon xs = join_colon ys" by auto
  then show "r = r' \<and> xs = ys"
    using split_join[OF assms(3,5)] split_join[OF assms(4,6)] by metis
qed simp

lemma dash_colon_free: "opt_part x \<Longrightarrow> colon_free (dash x)"
  by (auto simp: opt_part_def dash_def KEY_PART_no_colon split: option.splits)

definition hash_parts :: "(string \<Rightarrow> string) \<Rightarrow> bool" where
  "hash_parts hashPart \<longleftrightarrow> (\<forall>x. colon_free (hashPart x))"

lemma row_client_colon_free: "hash_parts h \<Longrightarrow> colon_free (dash (row_client h keys))"
  by (auto simp: hash_parts_def row_client_def dash_def split: option.splits)

lemma checks_ok:
  assumes "checkRows keys = None" and "checkRealm keys = None"
  shows "KEY_PART (rk_realmId keys)" "colon_free (dash (row_ip keys))" "colon_free (dash (row_bucket keys))"
  using assms by (auto simp: checkRows_def checkRealm_def dash_colon_free split: if_splits)

text \<open>When the keys of two rows meet.\<close>

lemma row_keys_eq:
  assumes "checkRows keys = None" and "checkRealm keys = None" and "KEY_PART r" and "\<forall>x \<in> set xs. colon_free x" and "xs \<noteq> []"
  shows "colon_free n \<Longrightarrow> ipKey keys n = roundLimitKey r xs \<longleftrightarrow> rk_realmId keys = r \<and> [''ip'', dash (row_ip keys), n] = xs"
    and "colon_free n \<Longrightarrow> bucketKey keys n = roundLimitKey r xs \<longleftrightarrow> rk_realmId keys = r \<and> [''bucket'', dash (row_bucket keys), n] = xs"
    and "hash_parts h \<Longrightarrow> \<forall>x \<in> set ns. colon_free x \<Longrightarrow>
      clientKey h keys ns = roundLimitKey r xs \<longleftrightarrow> rk_realmId keys = r \<and> ''client'' # dash (row_client h keys) # ns = xs"
  unfolding ipKey_def bucketKey_def clientKey_def
  using checks_ok[OF assms(1,2)] row_client_colon_free
  by (intro roundLimitKey_inject[OF _ assms(3) _ assms(4) _ assms(5)]; simp)+

subsection \<open>Runs of the store\<close>

text \<open>
  A run keeps the histories of the rounds, reservations and registration starts it decided, and
  the reservations taken back. Every round of the run meets the same environment \<open>e\<close>. A
  reservation is settled under the keys it was made with, as the limiter's closure does. The
  watched log \<open>K\<close> expires only once nothing in it is younger than its window \<open>w\<close>.
\<close>

record 's rounds_state =
  rs_store :: 's
  rs_clock :: ms
  rs_rounds :: "(ms \<times> round_keys \<times> round_decision) list"
  rs_reserved :: "(ms \<times> credential_keys \<times> round_decision) list"
  rs_taken :: "string list"
  rs_starts :: "(ms \<times> round_keys \<times> round_decision) list"

definition reservation_ids :: "'s rounds_state \<Rightarrow> string list" where
  "reservation_ids st = map (\<lambda>(t, r, d). rk_reservation r) (rs_reserved st)"

inductive rounds_reachable :: "'s redis \<Rightarrow> (string \<Rightarrow> string) \<Rightarrow> round_limit_policies \<Rightarrow> round_environment \<Rightarrow> key \<Rightarrow> ms
    \<Rightarrow> 's rounds_state \<Rightarrow> bool"
  for R h ps e K w where
  rounds_start: "ZSCORE R s K = Map.empty \<Longrightarrow> rounds_reachable R h ps e K w
    \<lparr>rs_store = s, rs_clock = t, rs_rounds = [], rs_reserved = [], rs_taken = [], rs_starts = []\<rparr>"
| rounds_tick: "rounds_reachable R h ps e K w st \<Longrightarrow> rs_clock st \<le> t \<Longrightarrow>
    rounds_reachable R h ps e K w (st\<lparr>rs_clock := t\<rparr>)"
| rounds_admit: "rounds_reachable R h ps e K w st \<Longrightarrow> rk_environment keys = e \<Longrightarrow>
    (\<forall>k. member \<notin> dom (ZSCORE R (rs_store st) k)) \<Longrightarrow>
    admitRound R h ps (rs_clock st) member keys (rs_store st) = Inr (d, s') \<Longrightarrow>
    rounds_reachable R h ps e K w (st\<lparr>rs_store := s', rs_rounds := (rs_clock st, keys, d) # rs_rounds st\<rparr>)"
| rounds_reserve: "rounds_reachable R h ps e K w st \<Longrightarrow> rk_environment r = e \<Longrightarrow>
    rk_reservation r \<notin> set (reservation_ids st) \<Longrightarrow>
    reserveCredential R h ps (rs_clock st) r (rs_store st) = Inr (d, s') \<Longrightarrow>
    rounds_reachable R h ps e K w (st\<lparr>rs_store := s', rs_reserved := (rs_clock st, r, d) # rs_reserved st\<rparr>)"
| rounds_settle: "rounds_reachable R h ps e K w st \<Longrightarrow> (t, r, d) \<in> set (rs_reserved st) \<Longrightarrow>
    settleCredential R h ps (rs_clock st) r oc account (rs_store st) = Inr (as, s') \<Longrightarrow>
    rounds_reachable R h ps e K w (st\<lparr>rs_store := s',
      rs_taken := (if oc = OutcomeFailure then rs_taken st else rk_reservation r # rs_taken st)\<rparr>)"
| rounds_registration: "rounds_reachable R h ps e K w st \<Longrightarrow> rk_environment keys = e \<Longrightarrow>
    (\<forall>k. member \<notin> dom (ZSCORE R (rs_store st) k)) \<Longrightarrow>
    reserveRegistrationStart R h ps (rs_clock st) member keys (rs_store st) = Inr (d, s') \<Longrightarrow>
    rounds_reachable R h ps e K w (st\<lparr>rs_store := s', rs_starts := (rs_clock st, keys, d) # rs_starts st\<rparr>)"
| rounds_expire: "rounds_reachable R h ps e K w st \<Longrightarrow>
    k \<noteq> K \<or> (\<forall>m x. ZSCORE R (rs_store st) K m = Some x \<longrightarrow> x \<le> rs_clock st - w) \<Longrightarrow>
    rounds_reachable R h ps e K w (st\<lparr>rs_store := DEL R k (rs_store st)\<rparr>)"

definition rounds_of :: "(string \<Rightarrow> string) \<Rightarrow> string \<Rightarrow> string \<Rightarrow> 's rounds_state \<Rightarrow> ms list" where
  "rounds_of h realm client st = map fst (filter (\<lambda>(t, k, d). is_admitted d \<and> rk_realmId k = realm
     \<and> rk_clientKey k \<noteq> None \<and> dash (row_client h k) = client) (rs_rounds st))"

definition starts_of :: "string \<Rightarrow> string \<Rightarrow> 's rounds_state \<Rightarrow> ms list" where
  "starts_of realm ip st = map fst (filter (\<lambda>(t, k, d). is_admitted d \<and> rk_realmId k = realm
     \<and> rk_endUserIpHmac k = Some ip) (rs_starts st))"

text \<open>The credential rounds of an IP that were admitted and not taken back.\<close>

definition failures_of :: "string \<Rightarrow> string \<Rightarrow> 's rounds_state \<Rightarrow> (string \<times> ms) list" where
  "failures_of realm ip st = map (\<lambda>(t, k, d). (rk_reservation k, t)) (filter (\<lambda>(t, k, d). is_admitted d \<and> rk_realmId k = realm
     \<and> rk_endUserIpHmac k = Some ip \<and> rk_reservation k \<notin> set (rs_taken st)) (rs_reserved st))"

subsection \<open>The operations behind the checks\<close>

lemma first_of_None: "first_of xs = None \<longleftrightarrow> (\<forall>x \<in> set xs. x = None)"
  by (induction xs rule: first_of.induct) auto

lemma admitRound_script:
  assumes "admitRound R h ps now member keys s = Inr (d, s')"
  obtains d0 where "checkRows keys = None" "checkRealm keys = None" "d = roundDecisionOf d0"
    "ADMIT_ROUND_SCRIPT R (ipKey keys ''block'') (clientKey h keys [''rounds''])
       (clientKey h keys [''alert'', ''rounds'']) (bucketKey keys ''failures'')
       (bucketKey keys ''identifiers'') (ipKey keys ''failures'') (clientKey h keys [''credential''])
       (clientKey h keys [''failures'']) now (row_ip keys \<noteq> None) (row_client h keys \<noteq> None) (row_bucket keys \<noteq> None) member
       (roundLimitPolicyFor (rk_environment keys) ps) s = (d0, s')"
  using assms that unfolding admitRound_def
  by (cases "first_of [checkRows keys, checkRealm keys]") (auto simp: first_of_None split_beta prod_eq_iff)

lemma reserveCredential_script:
  assumes "reserveCredential R h ps now r s = Inr (d, s')"
  obtains d0 where "checkRows r = None" "checkRealm r = None" "checkCredentialArgs r = None" "d = roundDecisionOf d0"
    "RESERVE_CREDENTIAL_SCRIPT R (ipKey r ''failures'') (ipKey r ''block'') (ipKey r ''pace'')
       (bucketKey r ''failures'') (bucketKey r ''identifiers'') (clientKey h r [''credential''])
       (clientKey h r [''failures'']) (clientKey h r [''pace'']) now
       (row_ip r \<noteq> None) (row_bucket r \<noteq> None) (identifierOf r \<noteq> '''') (row_client h r \<noteq> None)
       (rk_reservation r) (identifierOf r) (roundLimitPolicyFor (rk_environment r) ps) s = (d0, s')"
  using assms that unfolding reserveCredential_def
  by (cases "first_of [checkRows r, checkCredentialArgs r, checkRealm r]") (auto simp: first_of_None split_beta prod_eq_iff)

lemma settleCredential_script:
  assumes "settleCredential R h ps now r oc account s = Inr (as, s')"
  obtains a where "checkRows r = None" "checkRealm r = None" "checkCredentialArgs r = None"
    "SETTLE_CREDENTIAL_SCRIPT R (ipKey r ''failures'') (ipKey r ''block'') (ipKey r ''pace'')
       (bucketKey r ''failures'') (bucketKey r ''identifiers'') (bucketKey r ''alert'')
       (clientKey h r [''credential'']) (clientKey h r [''failures''])
       (clientKey h r [''pace'']) (clientKey h r [''alert'', ''ratio''])
       (clientKey h r [''alert'', ''budget'']) now
       (row_ip r \<noteq> None) (row_bucket r \<noteq> None) (identifierOf r \<noteq> '''') (row_client h r \<noteq> None)
       (a \<noteq> '''') oc (rk_reservation r) (identifierOf r) a
       (roundLimitPolicyFor (rk_environment r) ps) s = (as, s')"
  using assms that unfolding settleCredential_def
  by (cases "first_of [checkRows r, checkCredentialArgs r, checkRealm r]") (auto simp: first_of_None Let_def)

lemma reserveRegistrationStart_script:
  assumes "reserveRegistrationStart R h ps now member keys s = Inr (d, s')"
  obtains d0 where "checkRows keys = None" "checkRealm keys = None" "d = roundDecisionOf d0"
    "REGISTRATION_START_SCRIPT R
       (roundLimitKey (rk_realmId keys) [''registration'', ''ip'', dash (row_ip keys)])
       (roundLimitKey (rk_realmId keys) [''registration'', ''client'', dash (row_client h keys)]) now
       (row_ip keys \<noteq> None) (row_client h keys \<noteq> None) member
       (rp_registrationStarts (roundLimitPolicyFor (rk_environment keys) ps)) s = (d0, s')"
  using assms that unfolding reserveRegistrationStart_def
  by (cases "first_of [checkRows keys, checkRealm keys]") (auto simp: first_of_None split_beta prod_eq_iff)

lemma registration_keys_eq:
  assumes "checkRows keys = None" and "checkRealm keys = None" and "KEY_PART r" and "\<forall>x \<in> set xs. colon_free x" and "xs \<noteq> []"
    and "hash_parts h"
  shows "roundLimitKey (rk_realmId keys) [''registration'', ''ip'', dash (row_ip keys)] = roundLimitKey r xs
      \<longleftrightarrow> rk_realmId keys = r \<and> [''registration'', ''ip'', dash (row_ip keys)] = xs"
    and "roundLimitKey (rk_realmId keys) [''registration'', ''client'', dash (row_client h keys)] = roundLimitKey r xs
      \<longleftrightarrow> rk_realmId keys = r \<and> [''registration'', ''client'', dash (row_client h keys)] = xs"
  using checks_ok[OF assms(1,2)] row_client_colon_free[OF assms(6)]
  by (intro roundLimitKey_inject[OF _ assms(3) _ assms(4) _ assms(5)]; simp)+

context redis_store
begin

lemma admitRound_client_log:
  assumes "admitRound R h ps now member keys s = Inr (d, s')" and h: "hash_parts h" and r: "KEY_PART r" "colon_free c"
  shows "let K = roundLimitKey r [''client'', c, ''rounds'']; p = roundLimitPolicyFor (rk_environment keys) ps in
    log_move now \<lparr>limit = cll_maxRounds (rp_client p), windowMs = cll_maxRoundsWindowMs (rp_client p)\<rparr> member
    (is_admitted d \<and> rk_realmId keys = r \<and> rk_clientKey keys \<noteq> None \<and> dash (row_client h keys) = c)
    (ZSCORE R s K) (ZSCORE R s' K)"
proof -
  let ?K = "roundLimitKey r [''client'', c, ''rounds'']"
  from assms(1) obtain d0 where ok: "checkRows keys = None" "checkRealm keys = None" and d: "d = roundDecisionOf d0"
    and sc: "ADMIT_ROUND_SCRIPT R (ipKey keys ''block'') (clientKey h keys [''rounds''])
       (clientKey h keys [''alert'', ''rounds'']) (bucketKey keys ''failures'')
       (bucketKey keys ''identifiers'') (ipKey keys ''failures'') (clientKey h keys [''credential''])
       (clientKey h keys [''failures'']) now (row_ip keys \<noteq> None) (row_client h keys \<noteq> None) (row_bucket keys \<noteq> None) member
       (roundLimitPolicyFor (rk_environment keys) ps) s = (d0, s')" by (rule admitRound_script)
  note eq = row_keys_eq[OF ok r(1), of "[''client'', c, ''rounds'']"]
  have other: "?K \<notin> {clientKey h keys [''alert'', ''rounds''], bucketKey keys ''failures'', bucketKey keys ''identifiers'',
      ipKey keys ''failures'', clientKey h keys [''credential''], clientKey h keys [''failures'']}"
    using r h by (auto simp: eq dest!: sym[of ?K])
  have K2: "clientKey h keys [''rounds''] = ?K \<longleftrightarrow> rk_realmId keys = r \<and> dash (row_client h keys) = c"
    using r h by (simp add: eq(3))
  show ?thesis
  proof (cases "rk_realmId keys = r \<and> rk_clientKey keys \<noteq> None \<and> dash (row_client h keys) = c")
    case True
    then have "row_client h keys \<noteq> None" by (simp add: row_client_def)
    with sc True K2 have "ADMIT_ROUND_SCRIPT R (ipKey keys ''block'') ?K
       (clientKey h keys [''alert'', ''rounds'']) (bucketKey keys ''failures'')
       (bucketKey keys ''identifiers'') (ipKey keys ''failures'') (clientKey h keys [''credential''])
       (clientKey h keys [''failures'']) now (row_ip keys \<noteq> None) True (row_bucket keys \<noteq> None) member
       (roundLimitPolicyFor (rk_environment keys) ps) s = (d0, s')" by simp
    from admit_client_log[OF this other] True d show ?thesis by (simp add: Let_def)
  next
    case False
    then have "row_client h keys \<noteq> None \<longrightarrow> ?K \<noteq> clientKey h keys [''rounds'']"
      using K2 by (auto simp: row_client_def)
    from ZSCORE_of_view[OF view_admit[OF sc other this]] False show ?thesis by (auto simp: Let_def log_move_def)
  qed
qed

text \<open>No other operation touches the log of a client's rounds.\<close>

lemma others_keep_client_rounds:
  assumes h: "hash_parts h" and r: "KEY_PART r" "colon_free c"
  defines "K \<equiv> roundLimitKey r [''client'', c, ''rounds'']"
  shows "reserveCredential R h ps now q s = Inr (d, s') \<Longrightarrow> ZSCORE R s' K = ZSCORE R s K"
    and "settleCredential R h ps now q oc a s = Inr (as, s') \<Longrightarrow> ZSCORE R s' K = ZSCORE R s K"
    and "reserveRegistrationStart R h ps now member keys s = Inr (d, s') \<Longrightarrow> ZSCORE R s' K = ZSCORE R s K"
proof -
  show "ZSCORE R s' K = ZSCORE R s K" if "reserveCredential R h ps now q s = Inr (d, s')"
    using that
  proof (rule reserveCredential_script)
    fix d0 assume ok: "checkRows q = None" "checkRealm q = None"
      and sc: "RESERVE_CREDENTIAL_SCRIPT R (ipKey q ''failures'') (ipKey q ''block'') (ipKey q ''pace'')
       (bucketKey q ''failures'') (bucketKey q ''identifiers'') (clientKey h q [''credential''])
       (clientKey h q [''failures'']) (clientKey h q [''pace'']) now
       (row_ip q \<noteq> None) (row_bucket q \<noteq> None) (identifierOf q \<noteq> '''') (row_client h q \<noteq> None)
       (rk_reservation q) (identifierOf q) (roundLimitPolicyFor (rk_environment q) ps) s = (d0, s')"
    note eq = row_keys_eq[OF ok r(1), of "[''client'', c, ''rounds'']"]
    show ?thesis using r h by (intro ZSCORE_of_view[OF view_reserve[OF sc]]) (auto simp: eq K_def dest!: sym[of K] sym[of "roundLimitKey _ _"])
  qed
  show "ZSCORE R s' K = ZSCORE R s K" if "settleCredential R h ps now q oc a s = Inr (as, s')"
    using that
  proof (rule settleCredential_script)
    fix a assume ok: "checkRows q = None" "checkRealm q = None"
      and sc: "SETTLE_CREDENTIAL_SCRIPT R (ipKey q ''failures'') (ipKey q ''block'') (ipKey q ''pace'')
       (bucketKey q ''failures'') (bucketKey q ''identifiers'') (bucketKey q ''alert'')
       (clientKey h q [''credential'']) (clientKey h q [''failures''])
       (clientKey h q [''pace'']) (clientKey h q [''alert'', ''ratio''])
       (clientKey h q [''alert'', ''budget'']) now
       (row_ip q \<noteq> None) (row_bucket q \<noteq> None) (identifierOf q \<noteq> '''') (row_client h q \<noteq> None)
       (a \<noteq> '''') oc (rk_reservation q) (identifierOf q) a
       (roundLimitPolicyFor (rk_environment q) ps) s = (as, s')"
    note eq = row_keys_eq[OF ok r(1), of "[''client'', c, ''rounds'']"]
    show ?thesis using r h by (intro ZSCORE_of_view[OF view_settle[OF sc]]) (auto simp: eq K_def dest!: sym[of "roundLimitKey _ _"])
  qed
  show "ZSCORE R s' K = ZSCORE R s K" if "reserveRegistrationStart R h ps now member keys s = Inr (d, s')"
    using that
  proof (rule reserveRegistrationStart_script)
    fix d0 assume ok: "checkRows keys = None" "checkRealm keys = None"
      and sc: "REGISTRATION_START_SCRIPT R
       (roundLimitKey (rk_realmId keys) [''registration'', ''ip'', dash (row_ip keys)])
       (roundLimitKey (rk_realmId keys) [''registration'', ''client'', dash (row_client h keys)]) now
       (row_ip keys \<noteq> None) (row_client h keys \<noteq> None) member
       (rp_registrationStarts (roundLimitPolicyFor (rk_environment keys) ps)) s = (d0, s')"
    note eq = registration_keys_eq[OF ok r(1), of "[''client'', c, ''rounds'']"]
    have "roundLimitKey (rk_realmId keys) [''registration'', ''ip'', dash (row_ip keys)] \<noteq> K"
      "roundLimitKey (rk_realmId keys) [''registration'', ''client'', dash (row_client h keys)] \<noteq> K"
      unfolding K_def using r h by (simp_all add: eq)
    then show ?thesis by (intro ZSCORE_of_view[OF view_registration[OF sc]]) auto
  qed
qed

end

context redis_store
begin

lemma reserve_failures_log:
  assumes "reserveCredential R h ps now q s = Inr (d, s')" and h: "hash_parts h" and r: "KEY_PART r" "colon_free i"
  shows "let K = roundLimitKey r [''ip'', i, ''failures'']; p = roundLimitPolicyFor (rk_environment q) ps in
    log_move now \<lparr>limit = ipl_hardFailures (rp_endUserIp p), windowMs = ipl_windowMs (rp_endUserIp p)\<rparr> (rk_reservation q)
    (is_admitted d \<and> rk_realmId q = r \<and> rk_endUserIpHmac q = Some i) (ZSCORE R s K) (ZSCORE R s' K)"
proof -
  let ?K = "roundLimitKey r [''ip'', i, ''failures'']"
  from assms(1) obtain d0 where ok: "checkRows q = None" "checkRealm q = None" and d: "d = roundDecisionOf d0"
    and sc: "RESERVE_CREDENTIAL_SCRIPT R (ipKey q ''failures'') (ipKey q ''block'') (ipKey q ''pace'')
       (bucketKey q ''failures'') (bucketKey q ''identifiers'') (clientKey h q [''credential''])
       (clientKey h q [''failures'']) (clientKey h q [''pace'']) now
       (row_ip q \<noteq> None) (row_bucket q \<noteq> None) (identifierOf q \<noteq> '''') (row_client h q \<noteq> None)
       (rk_reservation q) (identifierOf q) (roundLimitPolicyFor (rk_environment q) ps) s = (d0, s')"
    by (rule reserveCredential_script)
  note eq = row_keys_eq[OF ok r(1), of "[''ip'', i, ''failures'']"]
  have other: "?K \<notin> {ipKey q ''block'', ipKey q ''pace'', bucketKey q ''failures'', bucketKey q ''identifiers'',
      clientKey h q [''credential''], clientKey h q [''failures''], clientKey h q [''pace'']}"
    using r h by (auto simp: eq dest!: sym[of ?K])
  have K1: "ipKey q ''failures'' = ?K \<longleftrightarrow> rk_realmId q = r \<and> dash (row_ip q) = i" using r by (simp add: eq(1))
  show ?thesis
  proof (cases "rk_realmId q = r \<and> rk_endUserIpHmac q = Some i")
    case True
    then have "ipKey q ''failures'' = ?K" "row_ip q \<noteq> None" using K1 by (simp_all add: row_ip_def dash_def)
    from reserve_ip_log[OF sc[unfolded this(1) eqTrueI[OF this(2)]] other] True d show ?thesis by (simp add: Let_def)
  next
    case False
    then have "row_ip q \<noteq> None \<longrightarrow> ?K \<notin> {ipKey q ''failures'', ipKey q ''pace''}"
      using K1 other by (auto simp: row_ip_def dash_def)
    with ZSCORE_of_view[OF view_reserve[OF sc]] other False show ?thesis by (auto simp: Let_def log_move_def)
  qed
qed

lemma settle_failures_log:
  assumes "settleCredential R h ps now q oc account s = Inr (as, s')" and h: "hash_parts h" and r: "KEY_PART r" "colon_free i"
  shows "let K = roundLimitKey r [''ip'', i, ''failures'']; p = roundLimitPolicyFor (rk_environment q) ps in
    ZSCORE R s' K = (if rk_realmId q = r \<and> rk_endUserIpHmac q = Some i
      then if oc = OutcomeFailure then keep_newer (ZSCORE R s K) (now - ipl_windowMs (rp_endUserIp p))
           else (ZSCORE R s K)(rk_reservation q := None)
      else ZSCORE R s K)"
proof -
  let ?K = "roundLimitKey r [''ip'', i, ''failures'']"
  from assms(1) obtain a where ok: "checkRows q = None" "checkRealm q = None"
    and sc: "SETTLE_CREDENTIAL_SCRIPT R (ipKey q ''failures'') (ipKey q ''block'') (ipKey q ''pace'')
       (bucketKey q ''failures'') (bucketKey q ''identifiers'') (bucketKey q ''alert'')
       (clientKey h q [''credential'']) (clientKey h q [''failures''])
       (clientKey h q [''pace'']) (clientKey h q [''alert'', ''ratio''])
       (clientKey h q [''alert'', ''budget'']) now
       (row_ip q \<noteq> None) (row_bucket q \<noteq> None) (identifierOf q \<noteq> '''') (row_client h q \<noteq> None)
       (a \<noteq> '''') oc (rk_reservation q) (identifierOf q) a
       (roundLimitPolicyFor (rk_environment q) ps) s = (as, s')" by (rule settleCredential_script)
  note eq = row_keys_eq[OF ok r(1), of "[''ip'', i, ''failures'']"]
  have other: "?K \<notin> {ipKey q ''block'', ipKey q ''pace'', bucketKey q ''failures'', bucketKey q ''identifiers'', bucketKey q ''alert'',
      clientKey h q [''credential''], clientKey h q [''failures''], clientKey h q [''pace''],
      clientKey h q [''alert'', ''ratio''], clientKey h q [''alert'', ''budget'']}"
    using r h by (auto simp: eq dest!: sym[of ?K])
  have K1: "ipKey q ''failures'' = ?K \<longleftrightarrow> rk_realmId q = r \<and> dash (row_ip q) = i" using r by (simp add: eq(1))
  show ?thesis
  proof (cases "rk_realmId q = r \<and> rk_endUserIpHmac q = Some i")
    case True
    then have "ipKey q ''failures'' = ?K" "row_ip q \<noteq> None" using K1 by (simp_all add: row_ip_def dash_def)
    from settle_ip_log[OF sc[unfolded this(1) eqTrueI[OF this(2)]] other] True show ?thesis by (simp add: Let_def)
  next
    case False
    then have "row_ip q \<noteq> None \<longrightarrow> ?K \<notin> {ipKey q ''failures'', ipKey q ''block'', ipKey q ''pace''}"
      using K1 other by (auto simp: row_ip_def dash_def)
    with ZSCORE_of_view[OF view_settle[OF sc]] other False show ?thesis by (auto simp: Let_def)
  qed
qed

lemma admit_failures_log:
  assumes "admitRound R h ps now member keys s = Inr (d, s')" and h: "hash_parts h" and r: "KEY_PART r" "colon_free i"
  shows "let K = roundLimitKey r [''ip'', i, ''failures'']; p = roundLimitPolicyFor (rk_environment keys) ps in
    ZSCORE R s' K \<in> {ZSCORE R s K, keep_newer (ZSCORE R s K) (now - ipl_windowMs (rp_endUserIp p))}"
proof -
  let ?K = "roundLimitKey r [''ip'', i, ''failures'']"
  from assms(1) obtain d0 where ok: "checkRows keys = None" "checkRealm keys = None"
    and sc: "ADMIT_ROUND_SCRIPT R (ipKey keys ''block'') (clientKey h keys [''rounds''])
       (clientKey h keys [''alert'', ''rounds'']) (bucketKey keys ''failures'')
       (bucketKey keys ''identifiers'') (ipKey keys ''failures'') (clientKey h keys [''credential''])
       (clientKey h keys [''failures'']) now (row_ip keys \<noteq> None) (row_client h keys \<noteq> None) (row_bucket keys \<noteq> None) member
       (roundLimitPolicyFor (rk_environment keys) ps) s = (d0, s')" by (rule admitRound_script)
  note eq = row_keys_eq[OF ok r(1), of "[''ip'', i, ''failures'']"]
  have other: "?K \<notin> {clientKey h keys [''rounds''], clientKey h keys [''alert'', ''rounds''], bucketKey keys ''failures'',
      bucketKey keys ''identifiers'', clientKey h keys [''credential''], clientKey h keys [''failures'']}"
    using r h by (auto simp: eq dest!: sym[of ?K])
  show ?thesis
  proof (cases "ipKey keys ''failures'' = ?K")
    case True
    from admit_ip_log[OF sc[unfolded True] other] show ?thesis by (simp add: Let_def)
  next
    case False
    then have n: "?K \<notin> {clientKey h keys [''alert'', ''rounds''], bucketKey keys ''failures'',
      bucketKey keys ''identifiers'', ipKey keys ''failures'', clientKey h keys [''credential''], clientKey h keys [''failures'']}"
      using other by auto
    from ZSCORE_of_view[OF view_admit[OF sc n]] other show ?thesis by (simp add: Let_def)
  qed
qed

lemma registration_failures_log:
  assumes "reserveRegistrationStart R h ps now member keys s = Inr (d, s')" and h: "hash_parts h" and r: "KEY_PART r" "colon_free i"
  shows "ZSCORE R s' (roundLimitKey r [''ip'', i, ''failures'']) = ZSCORE R s (roundLimitKey r [''ip'', i, ''failures''])"
  using assms(1)
proof (rule reserveRegistrationStart_script)
  let ?K = "roundLimitKey r [''ip'', i, ''failures'']"
  fix d0 assume ok: "checkRows keys = None" "checkRealm keys = None"
    and sc: "REGISTRATION_START_SCRIPT R
     (roundLimitKey (rk_realmId keys) [''registration'', ''ip'', dash (row_ip keys)])
     (roundLimitKey (rk_realmId keys) [''registration'', ''client'', dash (row_client h keys)]) now
     (row_ip keys \<noteq> None) (row_client h keys \<noteq> None) member
     (rp_registrationStarts (roundLimitPolicyFor (rk_environment keys) ps)) s = (d0, s')"
  note eq = registration_keys_eq[OF ok r(1), of "[''ip'', i, ''failures'']"]
  have "roundLimitKey (rk_realmId keys) [''registration'', ''ip'', dash (row_ip keys)] \<noteq> ?K"
    "roundLimitKey (rk_realmId keys) [''registration'', ''client'', dash (row_client h keys)] \<noteq> ?K"
    using r h by (simp_all add: eq)
  then show ?thesis by (intro ZSCORE_of_view[OF view_registration[OF sc]]) auto
qed

end

subsection \<open>The bounds\<close>

lemma held_inv_move:
  assumes "held_inv (windowMs W) (limit W) now z H" and "log_move now W m rec z z'" and "m \<notin> fst ` set H" and "0 \<le> windowMs W"
  shows "held_inv (windowMs W) (limit W) now z' (if rec then (m, now) # H else H)"
proof (cases rec)
  case True
  let ?y = "keep_newer z (now - windowMs W)"
  have "held_inv (windowMs W) (limit W) now ?y H" by (rule held_inv_prune[OF assms(1)]) simp
  moreover have "int (card (newer ?y (now - windowMs W))) < limit W"
    using assms(2) True by (simp add: log_move_def newer_keep_newer)
  ultimately have "held_inv (windowMs W) (limit W) now (?y(m \<mapsto> now)) ((m, now) # H)"
    using assms(3,4) by (intro held_inv_record)
  with True assms(2) show ?thesis by (simp add: log_move_def)
next
  case False
  with assms(1,2) held_inv_prune[OF assms(1)] show ?thesis by (auto simp: log_move_def)
qed

lemma checkRoundLimitPolicy_ok:
  assumes "checkRoundLimitPolicy p = Inr q"
  shows "q = p" "1 \<le> ipl_hardFailures (rp_endUserIp p)" "1000 \<le> ipl_windowMs (rp_endUserIp p)"
    "1 \<le> cll_maxRounds (rp_client p)" "1000 \<le> cll_maxRoundsWindowMs (rp_client p)" "1000 \<le> ipl_blockMs (rp_endUserIp p)"
    "1 \<le> limit (reg_endUserIp (rp_registrationStarts p))" "1000 \<le> windowMs (reg_endUserIp (rp_registrationStarts p))"
  using assms
  by (simp_all add: checkRoundLimitPolicy_def Let_def checkTime_def checkCount_def checkDelay_def whole_at_least_def
      split: if_splits)

lemma roundLimitPolicies_ok:
  assumes "roundLimitPolicies p = Inr ps"
  shows "checkRoundLimitPolicy (roundLimitPolicyFor e ps) = Inr (roundLimitPolicyFor e ps)"
proof -
  have "checkRoundLimitPolicy y = Inr y" if "checkRoundLimitPolicy x = Inr y" for x y
    using that checkRoundLimitPolicy_ok(1) by metis
  with assms show ?thesis by (auto simp: roundLimitPolicies_def roundLimitPolicyFor_def split: sum.splits)
qed

lemma failures_of_taken:
  "failures_of r i (st\<lparr>rs_store := s, rs_taken := m # rs_taken st\<rparr>) = filter (\<lambda>e. fst e \<noteq> m) (failures_of r i st)"
  by (simp add: failures_of_def filter_map comp_def case_prod_unfold conj_ac)

lemma failures_of_ids: "fst ` set (failures_of r i st) \<subseteq> set (reservation_ids st)"
  by (force simp: failures_of_def reservation_ids_def)

context redis_store
begin

lemma client_rounds_inv:
  assumes run: "rounds_reachable R h ps e (roundLimitKey r [''client'', c, ''rounds'']) (cll_maxRoundsWindowMs (rp_client p)) st"
    and p: "p = roundLimitPolicyFor e ps" "checkRoundLimitPolicy p = Inr p"
    and h: "hash_parts h" "KEY_PART r" "colon_free c"
  shows "log_inv (cll_maxRoundsWindowMs (rp_client p)) (cll_maxRounds (rp_client p)) (rs_clock st)
    (ZSCORE R (rs_store st) (roundLimitKey r [''client'', c, ''rounds''])) (rounds_of h r c st)"
  using run
proof induction
  case (rounds_start s t)
  then show ?case using checkRoundLimitPolicy_ok(4)[OF p(2)] by (simp add: rounds_of_def log_inv_empty)
next
  case (rounds_tick st t)
  then show ?case using log_inv_tick by (fastforce simp: rounds_of_def)
next
  case (rounds_admit st keys member d s')
  note move = admitRound_client_log[OF rounds_admit.hyps(4) h, unfolded Let_def rounds_admit.hyps(2) p(1)[symmetric]]
  from log_inv_move[OF _ move] rounds_admit.IH rounds_admit.hyps(3) checkRoundLimitPolicy_ok(5)[OF p(2)]
  show ?case by (auto simp: rounds_of_def split: if_splits)
next
  case (rounds_expire st k)
  then show ?case
    using log_inv_drop[OF rounds_expire.IH] by (cases "k = roundLimitKey r [''client'', c, ''rounds'']") (simp_all add: rounds_of_def)
qed (simp_all add: rounds_of_def others_keep_client_rounds[OF h])

lemma ip_failures_inv:
  assumes run: "rounds_reachable R h ps e (roundLimitKey r [''ip'', i, ''failures'']) (ipl_windowMs (rp_endUserIp p)) st"
    and p: "p = roundLimitPolicyFor e ps" "checkRoundLimitPolicy p = Inr p"
    and h: "hash_parts h" "KEY_PART r" "colon_free i"
  shows "held_inv (ipl_windowMs (rp_endUserIp p)) (ipl_hardFailures (rp_endUserIp p)) (rs_clock st)
      (ZSCORE R (rs_store st) (roundLimitKey r [''ip'', i, ''failures''])) (failures_of r i st)
    \<and> (\<forall>(t, q, d) \<in> set (rs_reserved st). rk_environment q = e) \<and> distinct (reservation_ids st)
    \<and> set (rs_taken st) \<subseteq> set (reservation_ids st)" (is "?held st \<and> ?env st \<and> ?dist st \<and> ?taken st")
  using run
proof induction
  case (rounds_start s t)
  then show ?case using checkRoundLimitPolicy_ok(2)[OF p(2)] by (simp add: failures_of_def reservation_ids_def held_inv_empty)
next
  case (rounds_tick st t)
  then show ?case using held_inv_tick by (fastforce simp: failures_of_def reservation_ids_def)
next
  case (rounds_admit st keys member d s')
  note move = admit_failures_log[OF rounds_admit.hyps(4) h, unfolded Let_def rounds_admit.hyps(2) p(1)[symmetric]]
  from move rounds_admit.IH held_inv_prune[where c = "rs_clock st - ipl_windowMs (rp_endUserIp p)"]
  show ?case by (auto simp: failures_of_def reservation_ids_def)
next
  case (rounds_reserve st q d s')
  note move = reserve_failures_log[OF rounds_reserve.hyps(4) h, unfolded Let_def rounds_reserve.hyps(2) p(1)[symmetric]]
  have "rk_reservation q \<notin> fst ` set (failures_of r i st)" using rounds_reserve.hyps(3) failures_of_ids[of r i st] by auto
  from held_inv_move[OF _ move this] rounds_reserve.IH checkRoundLimitPolicy_ok(3)[OF p(2)] rounds_reserve.hyps(2,3)
  show ?case by (auto simp: failures_of_def reservation_ids_def split: if_splits)
next
  case (rounds_settle st t q d oc account as s')
  have env: "rk_environment q = e" using rounds_settle.IH rounds_settle.hyps(2) by blast
  note move = settle_failures_log[OF rounds_settle.hyps(3) h, unfolded Let_def env p(1)[symmetric]]
  have keep: "filter (\<lambda>e. fst e \<noteq> rk_reservation q) (failures_of r i st) = failures_of r i st"
    if "\<not> (rk_realmId q = r \<and> rk_endUserIpHmac q = Some i)"
  proof -
    have "rk_reservation q' = rk_reservation q \<Longrightarrow> q' = q" if "(t', q', d') \<in> set (rs_reserved st)" for t' q' d'
      using rounds_settle.IH rounds_settle.hyps(2) that by (fastforce simp: reservation_ids_def distinct_map inj_on_def)
    with that show ?thesis by (auto simp: failures_of_def intro!: filter_True)
  qed
  have "?held (st\<lparr>rs_store := s', rs_taken := (if oc = OutcomeFailure then rs_taken st else rk_reservation q # rs_taken st)\<rparr>)"
  proof (cases "oc = OutcomeFailure")
    case True
    with move rounds_settle.IH held_inv_prune[where c = "rs_clock st - ipl_windowMs (rp_endUserIp p)"]
    show ?thesis by (auto simp: failures_of_def)
  next
    case False
    with move rounds_settle.IH held_inv_remove[of _ _ "rs_clock st"] keep show ?thesis
      by (auto simp: failures_of_taken)
  qed
  moreover have "rk_reservation q \<in> set (reservation_ids st)"
    using rounds_settle.hyps(2) by (force simp: reservation_ids_def)
  ultimately show ?case using rounds_settle.IH by (auto simp: reservation_ids_def)
next
  case (rounds_registration st keys member d s')
  then show ?case using registration_failures_log[OF _ h] by (simp add: failures_of_def reservation_ids_def)
next
  case (rounds_expire st k)
  then show ?case
    using held_inv_drop[where now = "rs_clock st"]
    by (cases "k = roundLimitKey r [''ip'', i, ''failures'']") (auto simp: failures_of_def reservation_ids_def)
qed

end

subsection \<open>The bucket's identifiers\<close>

text \<open>
  The hash beside a bucket's log counts, per identifier, the members of the log that stand for
  it; its length, which the scripts compare with the bucket's limit, is then the number of
  distinct identifiers that failed within the window.
\<close>

definition members_of :: "(string \<rightharpoonup> int) \<Rightarrow> string \<Rightarrow> string set" where
  "members_of z i = {m \<in> dom z. before_last_colon m = Some i}"

definition hash_counts :: "(string \<rightharpoonup> rval) \<Rightarrow> (string \<Rightarrow> nat) \<Rightarrow> bool" where
  "hash_counts H cnt \<longleftrightarrow> (\<forall>i. H i = (if cnt i = 0 then None else Some (RInt (int (cnt i)))))"

definition bucket_inv :: "'s redis \<Rightarrow> 's \<Rightarrow> key \<Rightarrow> key \<Rightarrow> bool" where
  "bucket_inv R s K4 K5 \<longleftrightarrow> hash_counts (HGET R s K5) (\<lambda>i. card (members_of (ZSCORE R s K4) i))"

lemma before_last_colon_member: "colon_free res \<Longrightarrow> before_last_colon (i @ CHR '':'' # res) = Some i"
  using dropWhile_part[of "rev res" "rev i"] by (simp add: before_last_colon_def)

context redis_store
begin

lemma bucketDrop_counts:
  assumes "hash_counts (HGET R s K5) cnt"
  shows "hash_counts (HGET R (bucketDrop R K5 i s) K5) (cnt(i := cnt i - 1))"
  using assms by (auto simp: hash_counts_def bucketDrop_def Let_def split: if_splits)

lemma bucketDropAll_counts:
  assumes "hash_counts (HGET R s K5) cnt"
  shows "hash_counts (HGET R (bucketDropAll R K5 ms s) K5)
    (\<lambda>i. cnt i - length (filter (\<lambda>m. before_last_colon m = Some i) ms))"
  using assms
proof (induction ms arbitrary: s cnt)
  case (Cons m ms)
  show ?case
  proof (cases "before_last_colon m")
    case None
    with Cons.IH[OF Cons.prems] show ?thesis by simp
  next
    case (Some i)
    from Cons.IH[OF bucketDrop_counts[OF Cons.prems, of i]] Some show ?thesis
      by (auto simp: hash_counts_def fun_upd_def split: if_splits)
  qed
qed simp

lemma pruneBucket_inv:
  assumes inv: "bucket_inv R s K4 K5" and K: "K4 \<noteq> K5"
  shows "bucket_inv R (pruneBucket R K4 K5 now w s) K4 K5"
proof -
  let ?hi = "now - w" and ?z = "ZSCORE R s K4"
  let ?gone = "ZRANGEBYSCORE_UPTO R s K4 ?hi"
  have z': "ZSCORE R (pruneBucket R K4 K5 now w s) K4 = keep_newer ?z ?hi"
    using ZSCORE_of_view[OF view_bucketDropAll[OF K]] by (simp add: pruneBucket_def)
  have h: "HGET R (pruneBucket R K4 K5 now w s) K5 = HGET R (bucketDropAll R K5 ?gone s) K5"
    using K by (simp add: pruneBucket_def)
  have "card (members_of (keep_newer ?z ?hi) i) = card (members_of ?z i) - length (filter (\<lambda>m. before_last_colon m = Some i) ?gone)" for i
  proof -
    let ?old = "{m \<in> set ?gone. before_last_colon m = Some i}"
    have "length (filter (\<lambda>m. before_last_colon m = Some i) ?gone) = card ?old"
      using distinct_card[OF distinct_filter[OF ZRANGEBYSCORE_UPTO_distinct]] by simp
    moreover have "members_of (keep_newer ?z ?hi) i = members_of ?z i - ?old"
      by (auto simp: members_of_def newer_def ZRANGEBYSCORE_UPTO_set)
    moreover have "?old \<subseteq> members_of ?z i" by (auto simp: members_of_def ZRANGEBYSCORE_UPTO_set)
    moreover have "finite ?old" by simp
    ultimately show ?thesis by (simp add: card_Diff_subset)
  qed
  then show ?thesis using bucketDropAll_counts[OF inv[unfolded bucket_inv_def], of ?gone]
    by (simp add: bucket_inv_def z' h)
qed

lemma bucket_inv_frame:
  "view R s' K4 = view R s K4 \<Longrightarrow> view R s' K5 = view R s K5 \<Longrightarrow> bucket_inv R s' K4 K5 = bucket_inv R s K4 K5"
  by (simp add: bucket_inv_def view_def)

lemma bucket_inv_record:
  assumes inv: "bucket_inv R s K4 K5" and K: "K4 \<noteq> K5" and res: "colon_free res"
    and fresh: "i @ CHR '':'' # res \<notin> dom (ZSCORE R s K4)"
  shows "bucket_inv R (HINCRBY R K5 i 1 (ZADD R K4 now (i @ CHR '':'' # res) s)) K4 K5"
proof -
  let ?m = "i @ CHR '':'' # res"
  have m: "members_of ((ZSCORE R s K4)(?m \<mapsto> now)) j = (if j = i then insert ?m (members_of (ZSCORE R s K4) j) else members_of (ZSCORE R s K4) j)" for j
    by (auto simp: members_of_def before_last_colon_member[OF res])
  have fin: "finite (members_of (ZSCORE R s K4) j)" for j
    by (rule finite_subset[OF _ finite_zset]) (auto simp: members_of_def)
  have "?m \<notin> members_of (ZSCORE R s K4) i" using fresh by (auto simp: members_of_def)
  with inv K fin show ?thesis by (auto simp: bucket_inv_def hash_counts_def m)
qed

lemma bucket_inv_remove:
  assumes inv: "bucket_inv R s K4 K5" and K: "K4 \<noteq> K5" and res: "colon_free res"
    and there: "i @ CHR '':'' # res \<in> dom (ZSCORE R s K4)"
  shows "bucket_inv R (bucketDrop R K5 i (ZREM R K4 (i @ CHR '':'' # res) s)) K4 K5"
proof -
  let ?m = "i @ CHR '':'' # res"
  have m: "members_of ((ZSCORE R s K4)(?m := None)) j = (if j = i then members_of (ZSCORE R s K4) j - {?m} else members_of (ZSCORE R s K4) j)" for j
    by (auto simp: members_of_def before_last_colon_member[OF res])
  have "?m \<in> members_of (ZSCORE R s K4) i" using there by (simp add: members_of_def before_last_colon_member[OF res])
  then have c: "card (members_of (ZSCORE R s K4) i - {?m}) = card (members_of (ZSCORE R s K4) i) - 1"
    by (simp add: card_Diff_singleton)
  have "hash_counts (HGET R (ZREM R K4 ?m s) K5) (\<lambda>i. card (members_of (ZSCORE R s K4) i))"
    using inv K by (simp add: bucket_inv_def)
  from bucketDrop_counts[OF this, of i] have "hash_counts (HGET R (bucketDrop R K5 i (ZREM R K4 ?m s)) K5)
      (\<lambda>j. card (members_of ((ZSCORE R s K4)(?m := None)) j))"
    by (rule back_subst[of "hash_counts _"]) (auto simp: m c)
  then show ?thesis using ZSCORE_of_view[OF view_bucketDrop[OF K], of i "ZREM R K4 ?m s"] by (simp add: bucket_inv_def)
qed

lemma bucket_inv_HLEN:
  assumes "bucket_inv R s K4 K5"
  shows "HLEN R s K5 = int (card {i. members_of (ZSCORE R s K4) i \<noteq> {}})"
proof -
  have "finite (members_of (ZSCORE R s K4) i)" for i
    by (rule finite_subset[OF _ finite_zset]) (auto simp: members_of_def)
  then have "dom (HGET R s K5) = {i. members_of (ZSCORE R s K4) i \<noteq> {}}"
    using assms by (auto simp: bucket_inv_def hash_counts_def split: if_splits)
  then show ?thesis by (simp add: HLEN_eq)
qed

end

context redis_store
begin

lemma bucket_prune: "k \<notin> {K4, K5} \<Longrightarrow> bucket_inv R (prune R k now w s) K4 K5 = bucket_inv R s K4 K5"
  by (rule bucket_inv_frame) (auto simp: view_prune)

lemma bucket_extend: "k \<notin> {K4, K5} \<Longrightarrow> bucket_inv R (extendMark R k now u s) K4 K5 = bucket_inv R s K4 K5"
  by (rule bucket_inv_frame) (auto simp: view_extend)

lemma bucket_claim: "k \<notin> {K4, K5} \<Longrightarrow> bucket_inv R (snd (claim R k now w s)) K4 K5 = bucket_inv R s K4 K5"
  by (rule bucket_inv_frame) (auto simp: view_claim_snd)

lemma bucket_cmds:
  "bucket_inv R (PEXPIRE R k ttl s) K4 K5 = bucket_inv R s K4 K5"
  "k \<notin> {K4, K5} \<Longrightarrow> bucket_inv R (ZADD R k x m s) K4 K5 = bucket_inv R s K4 K5"
  "k \<notin> {K4, K5} \<Longrightarrow> bucket_inv R (ZREM R k m s) K4 K5 = bucket_inv R s K4 K5"
  "k \<notin> {K4, K5} \<Longrightarrow> bucket_inv R (SET R k v ttl s) K4 K5 = bucket_inv R s K4 K5"
  by (rule bucket_inv_frame; auto simp: view_PEXPIRE frame_zset frame_string)+

lemmas bucket_frames = bucket_prune bucket_extend bucket_claim bucket_cmds pruneBucket_inv

lemma admit_bucket:
  assumes "ADMIT_ROUND_SCRIPT R K1 K2 K3 K4 K5 K6 K7 K8 now hasIp hasClient hasBucket member p s = (d, s')"
    and "K4 \<noteq> K5" and "{K2, K3, K6, K7, K8} \<inter> {K4, K5} = {}" and inv: "bucket_inv R s K4 K5"
  shows "bucket_inv R s' K4 K5"
proof -
  have "bucket_inv R (snd (admitSoft R K4 K5 K6 K7 K8 now hasIp hasClient hasBucket p x)) K4 K5" if "bucket_inv R x K4 K5" for x
    using assms that by (auto simp: admitSoft_def Let_def bucket_frames)
  with assms show ?thesis
    by (auto simp: ADMIT_ROUND_SCRIPT_def Let_def split_beta bucket_frames split: if_splits)
qed

lemma reserve_bucket:
  assumes sc: "RESERVE_CREDENTIAL_SCRIPT R K1 K2 K3 K4 K5 K6 K7 K8 now hasIp hb hi hc res i p s = (d, s')"
    and K: "K4 \<noteq> K5" "{K1, K3, K6, K7, K8} \<inter> {K4, K5} = {}" and inv: "bucket_inv R s K4 K5"
    and res: "colon_free res" "i @ CHR '':'' # res \<notin> dom (ZSCORE R s K4)"
  shows "bucket_inv R s' K4 K5"
proof -
  let ?m = "i @ CHR '':'' # res"
  define good where "good x \<longleftrightarrow> bucket_inv R x K4 K5 \<and> ?m \<notin> dom (ZSCORE R x K4)" for x
  have prune: "good (prune R k now w x)" if "good x" "k \<notin> {K4, K5}" for k w x
    using that by (auto simp: good_def bucket_prune)
  have pb: "good (pruneBucket R K4 K5 now w x)" if "good x" for w x
  proof -
    have "ZSCORE R (pruneBucket R K4 K5 now w x) K4 = keep_newer (ZSCORE R x K4) (now - w)"
      using ZSCORE_of_view[OF view_bucketDropAll[OF K(1)]] by (simp add: pruneBucket_def)
    with that pruneBucket_inv[OF _ K(1)] show ?thesis by (auto simp: good_def newer_def)
  qed
  have ip: "good x'" if "reserveIp R K1 K2 K3 K4 K5 now hb p x = (y, x')" "good x" for x y x'
    using that K prune pb by (auto simp: reserveIp_def Let_def split: if_splits)
  have cl: "good x'" if "reserveClient R K6 K7 K8 now p x = (y, x')" "good x" for x y x'
    using that K prune by (auto simp: reserveClient_def Let_def split: if_splits)
  have rip: "bucket_inv R (recordIp R K1 K3 K4 K5 now hb hi res i a b p x) K4 K5" if g: "good x" for a b x
  proof -
    define x3 where "x3 = (let s1 = PEXPIRE R K1 (ipl_windowMs (rp_endUserIp p)) (ZADD R K1 now res x);
        s2 = (if a then extendMark R K3 now (now + ipl_delayMs (rp_endUserIp p)) s1 else s1)
      in if b then extendMark R K3 now (now + bkl_delayMs (rp_ipBucket p)) s2 else s2)"
    have "view R x3 k = view R x k" if "k \<in> {K4, K5}" for k
      using that K by (auto simp: x3_def Let_def view_extend view_PEXPIRE frame_zset)
    then have "bucket_inv R x3 K4 K5" "?m \<notin> dom (ZSCORE R x3 K4)"
      using g bucket_inv_frame[of x3 K4 x K5] ZSCORE_of_view[of x3 K4 x] by (auto simp: good_def)
    then have "bucket_inv R (HINCRBY R K5 i 1 (ZADD R K4 now ?m x3)) K4 K5" by (intro bucket_inv_record K(1) res(1))
    with \<open>bucket_inv R x3 K4 K5\<close> show ?thesis
      by (simp add: recordIp_def Let_def x3_def bucket_cmds)
  qed
  have rcl: "bucket_inv R (recordClient R K6 K7 K8 now res c p x) K4 K5 = bucket_inv R x K4 K5" for c x
    using K by (auto simp: recordClient_def Let_def bucket_frames)
  have "good s" using inv res by (simp add: good_def)
  then show ?thesis
    using sc rip rcl by (auto simp: RESERVE_CREDENTIAL_SCRIPT_def Let_def good_def[symmetric] dest!: ip cl
      split: if_splits prod.splits sum.splits) (auto simp: good_def)
qed

lemma settle_bucket:
  assumes sc: "SETTLE_CREDENTIAL_SCRIPT R K1 K2 K3 K4 K5 K6 K7 K8 K9 K10 K11 now hasIp hb hi hc ha oc res i a p s = (as, s')"
    and K: "K4 \<noteq> K5" "{K1, K2, K3, K6, K7, K8, K9, K10, K11} \<inter> {K4, K5} = {}" and inv: "bucket_inv R s K4 K5"
    and res: "colon_free res"
  shows "bucket_inv R s' K4 K5"
proof -
  have f1: "bucket_inv R (snd (settleFailureIp R K1 K2 K3 K4 K5 K6 now hb p s)) K4 K5"
    using K inv by (auto simp: settleFailureIp_def Let_def split_beta bucket_frames)
  have f2: "bucket_inv R (snd (settleFailureClient R K7 K8 K9 K10 K11 now p x)) K4 K5 = bucket_inv R x K4 K5" for x
    by (rule bucket_inv_frame; rule view_settleFailureClient; use K in auto)
  have t2: "bucket_inv R (takeBackClient R K7 K8 now oc ha res a p x) K4 K5 = bucket_inv R x K4 K5" for x
    by (rule bucket_inv_frame; rule view_takeBackClient; use K in auto)
  have t1: "bucket_inv R (takeBackIp R K1 K4 K5 c res i s) K4 K5" for c
  proof -
    let ?m = "i @ CHR '':'' # res" and ?s1 = "ZREM R K1 res s"
    have i1: "bucket_inv R ?s1 K4 K5" using inv K by (auto simp: bucket_cmds)
    have "bucket_inv R (ZREM R K4 ?m ?s1) K4 K5" if "ZSCORE R ?s1 K4 ?m = None"
      using i1 that K(1) by (simp add: bucket_inv_def fun_upd_idem)
    with i1 bucket_inv_remove[OF i1 K(1) res, of i] show ?thesis
      by (auto simp: takeBackIp_def Let_def)
  qed
  from sc f1 f2 t1 t2 inv show ?thesis
    by (auto simp: SETTLE_CREDENTIAL_SCRIPT_def Let_def split_beta split: if_splits)
qed

end

lemma bucket_keys_apart:
  assumes "checkRows q = None" and "checkRealm q = None" and "hash_parts h"
  shows "bucketKey q ''failures'' \<noteq> bucketKey q ''identifiers''"
    "{ipKey q ''failures'', ipKey q ''block'', ipKey q ''pace'', bucketKey q ''alert'', clientKey h q [''credential''],
      clientKey h q [''failures''], clientKey h q [''pace''], clientKey h q [''alert'', ''ratio''], clientKey h q [''alert'', ''budget'']}
      \<inter> {bucketKey q ''failures'', bucketKey q ''identifiers''} = {}"
  using checks_ok[OF assms(1,2)] row_client_colon_free[OF assms(3), of q]
  by (auto simp: ipKey_def bucketKey_def clientKey_def roundLimitKey_inject)

lemma credential_args_colon_free: "checkCredentialArgs q = None \<Longrightarrow> colon_free (rk_reservation q)"
  by (auto simp: checkCredentialArgs_def KEY_PART_no_colon split: if_splits)

context redis_store
begin

lemma reserveCredential_bucket:
  assumes "reserveCredential R h ps now q s = Inr (d, s')" and h: "hash_parts h"
    and inv: "bucket_inv R s (bucketKey q ''failures'') (bucketKey q ''identifiers'')"
    and fresh: "identifierOf q @ CHR '':'' # rk_reservation q \<notin> dom (ZSCORE R s (bucketKey q ''failures''))"
  shows "bucket_inv R s' (bucketKey q ''failures'') (bucketKey q ''identifiers'')"
proof (rule reserveCredential_script[OF assms(1)])
  fix d0 assume ok: "checkRows q = None" "checkRealm q = None" and ca: "checkCredentialArgs q = None"
    and sc: "RESERVE_CREDENTIAL_SCRIPT R (ipKey q ''failures'') (ipKey q ''block'') (ipKey q ''pace'')
       (bucketKey q ''failures'') (bucketKey q ''identifiers'') (clientKey h q [''credential''])
       (clientKey h q [''failures'']) (clientKey h q [''pace'']) now
       (row_ip q \<noteq> None) (row_bucket q \<noteq> None) (identifierOf q \<noteq> '''') (row_client h q \<noteq> None)
       (rk_reservation q) (identifierOf q) (roundLimitPolicyFor (rk_environment q) ps) s = (d0, s')"
  show ?thesis
    by (rule reserve_bucket[OF sc bucket_keys_apart(1)[OF ok h] _ inv credential_args_colon_free[OF ca] fresh])
      (use bucket_keys_apart(2)[OF ok h] in blast)
qed

lemma settleCredential_bucket:
  assumes "settleCredential R h ps now q oc a s = Inr (as, s')" and h: "hash_parts h"
    and inv: "bucket_inv R s (bucketKey q ''failures'') (bucketKey q ''identifiers'')"
  shows "bucket_inv R s' (bucketKey q ''failures'') (bucketKey q ''identifiers'')"
proof (rule settleCredential_script[OF assms(1)])
  fix a assume ok: "checkRows q = None" "checkRealm q = None" and ca: "checkCredentialArgs q = None"
    and sc: "SETTLE_CREDENTIAL_SCRIPT R (ipKey q ''failures'') (ipKey q ''block'') (ipKey q ''pace'')
       (bucketKey q ''failures'') (bucketKey q ''identifiers'') (bucketKey q ''alert'')
       (clientKey h q [''credential'']) (clientKey h q [''failures''])
       (clientKey h q [''pace'']) (clientKey h q [''alert'', ''ratio''])
       (clientKey h q [''alert'', ''budget'']) now
       (row_ip q \<noteq> None) (row_bucket q \<noteq> None) (identifierOf q \<noteq> '''') (row_client h q \<noteq> None)
       (a \<noteq> '''') oc (rk_reservation q) (identifierOf q) a
       (roundLimitPolicyFor (rk_environment q) ps) s = (as, s')"
  show ?thesis
    by (rule settle_bucket[OF sc bucket_keys_apart[OF ok h] inv credential_args_colon_free[OF ca]])
qed

text \<open>The hard block: what a failure at the limit writes, and what it then refuses.\<close>

lemma settle_block_mark:
  assumes sc: "settleFailureIp R K1 K2 K3 K4 K5 K6 now hb p s = (as, s')"
    and K: "K2 \<notin> {K1, K3, K4, K5, K6}" and b: "EndUserIpBlocked \<in> set as"
  shows "mark R s' K2 = now + ipl_blockMs (rp_endUserIp p)"
proof -
  have GET_of_view: "view R x k = view R y k \<Longrightarrow> GET R x k = GET R y k" for x y k by (simp add: view_def)
  note fr = GET_of_view[OF view_pruneBucket, of K2 K4 K5] GET_of_view[OF view_extend, of K2 K3] GET_of_view[OF view_claim_snd, of K2 K6]
  show ?thesis
    using sc b K fr unfolding settleFailureIp_def Let_def split_beta
    by (auto simp: mark_def split: if_splits)
qed

lemma settleCredential_block:
  assumes "settleCredential R h ps now q OutcomeFailure a s = Inr (as, s')" and h: "hash_parts h" and b: "EndUserIpBlocked \<in> set as"
  shows "rk_endUserIpHmac q \<noteq> None \<and> mark R s' (ipKey q ''block'')
    = now + ipl_blockMs (rp_endUserIp (roundLimitPolicyFor (rk_environment q) ps))"
proof (rule settleCredential_script[OF assms(1)])
  let ?p = "roundLimitPolicyFor (rk_environment q) ps"
  fix a assume ok: "checkRows q = None" "checkRealm q = None"
    and sc: "SETTLE_CREDENTIAL_SCRIPT R (ipKey q ''failures'') (ipKey q ''block'') (ipKey q ''pace'')
       (bucketKey q ''failures'') (bucketKey q ''identifiers'') (bucketKey q ''alert'')
       (clientKey h q [''credential'']) (clientKey h q [''failures''])
       (clientKey h q [''pace'']) (clientKey h q [''alert'', ''ratio''])
       (clientKey h q [''alert'', ''budget'']) now
       (row_ip q \<noteq> None) (row_bucket q \<noteq> None) (identifierOf q \<noteq> '''') (row_client h q \<noteq> None)
       (a \<noteq> '''') OutcomeFailure (rk_reservation q) (identifierOf q) a ?p s = (as, s')"
  let ?ip = "settleFailureIp R (ipKey q ''failures'') (ipKey q ''block'') (ipKey q ''pace'')
       (bucketKey q ''failures'') (bucketKey q ''identifiers'') (bucketKey q ''alert'') now (row_bucket q \<noteq> None) ?p s"
  let ?cl = "\<lambda>x. settleFailureClient R (clientKey h q [''credential'']) (clientKey h q [''failures''])
       (clientKey h q [''pace'']) (clientKey h q [''alert'', ''ratio'']) (clientKey h q [''alert'', ''budget'']) now ?p x"
  have ne: "ipKey q ''block'' \<notin> {ipKey q ''failures'', ipKey q ''pace'', bucketKey q ''failures'', bucketKey q ''identifiers'', bucketKey q ''alert''}"
    "ipKey q ''block'' \<notin> {clientKey h q [''credential''], clientKey h q [''failures''],
       clientKey h q [''pace''], clientKey h q [''alert'', ''ratio''], clientKey h q [''alert'', ''budget'']}"
    using checks_ok[OF ok] row_client_colon_free[OF h, of q]
    by (auto simp: ipKey_def bucketKey_def clientKey_def roundLimitKey_inject)
  have cl: "EndUserIpBlocked \<notin> set (fst (?cl x))" for x
    by (simp add: settleFailureClient_def Let_def split_beta)
  with sc b have ip: "row_ip q \<noteq> None"
    by (auto simp: SETTLE_CREDENTIAL_SCRIPT_def split_beta split: if_splits)
  have "EndUserIpBlocked \<in> set (fst ?ip)"
    using sc b ip cl by (auto simp: SETTLE_CREDENTIAL_SCRIPT_def split_beta split: if_splits)
  then have "mark R (snd ?ip) (ipKey q ''block'') = now + ipl_blockMs (rp_endUserIp ?p)"
    by (intro settle_block_mark[OF surjective_pairing ne(1)])
  moreover have "s' = snd ?ip \<or> s' = snd (?cl (snd ?ip))"
    using sc ip by (auto simp: SETTLE_CREDENTIAL_SCRIPT_def split_beta split: if_splits)
  moreover have "mark R (snd (?cl x)) (ipKey q ''block'') = mark R x (ipKey q ''block'')" for x
    using view_settleFailureClient[OF ne(2), of now ?p x] by (simp add: mark_def view_def)
  ultimately show ?thesis using ip by (auto simp: row_ip_def)
qed

lemma blocked_refused:
  assumes "rk_endUserIpHmac keys \<noteq> None" and "mark R s (ipKey keys ''block'') > t"
  shows "admitRound R h ps t member keys s = Inr (d, s') \<Longrightarrow> d = RoundRefused EndUserIpLimit (mark R s (ipKey keys ''block'') - t) [] \<and> s' = s"
  using assms
  by (auto simp: row_ip_def ADMIT_ROUND_SCRIPT_def roundDecisionOf_def max_def elim!: admitRound_script)

lemma blocked_credential_refused:
  assumes "rk_endUserIpHmac q \<noteq> None" and "mark R s (ipKey q ''block'') > t"
  shows "reserveCredential R h ps t q s = Inr (d, s') \<Longrightarrow> d = RoundRefused EndUserIpLimit (mark R s (ipKey q ''block'') - t) [] \<and> s' = s"
  using assms
  by (auto simp: row_ip_def RESERVE_CREDENTIAL_SCRIPT_def reserveIp_def roundDecisionOf_def max_def elim!: reserveCredential_script)

end

text \<open>The shipped policy with its three derived numbers as variables.\<close>

definition literal_policy :: "int \<Rightarrow> int \<Rightarrow> int \<Rightarrow> round_limit_policy" where
  "literal_policy n B D = \<lparr>
     rp_endUserIp = \<lparr>ipl_windowMs = 900000, ipl_softFailures = 10, ipl_hardFailures = 30, ipl_blockMs = 900000, ipl_delayMs = 30000\<rparr>,
     rp_ipBucket = \<lparr>bkl_windowMs = 900000, bkl_maxIdentifiers = 20, bkl_delayMs = 30000\<rparr>,
     rp_client = \<lparr>cll_windowMs = 300000, cll_ratioMinRounds = 200, cll_ratioPercent = 50, cll_failureBudget = B,
       cll_delayMs = D, cll_maxRounds = n, cll_maxRoundsWindowMs = 60000\<rparr>,
     rp_registrationStarts = \<lparr>reg_endUserIp = \<lparr>limit = 3, windowMs = 3600000\<rparr>, reg_client = \<lparr>limit = 1000, windowMs = 3600000\<rparr>\<rparr>\<rparr>"

lemma literal_policy_passes:
  assumes "1 \<le> n" "n \<le> 10000000" "1 \<le> B" "B \<le> 5000000" "1 \<le> D" "D \<le> 300000"
  shows "roundLimitPolicies (literal_policy n B D)
    = Inr \<lparr>strictPolicy = literal_policy n B D, relaxedPolicy = relaxedRoundLimitPolicy (literal_policy n B D)\<rparr>"
proof -
  have strict: "checkRoundLimitPolicy (literal_policy n B D) = Inr (literal_policy n B D)"
    using assms by (simp add: checkRoundLimitPolicy_def literal_policy_def Let_def checkTime_def checkCount_def checkDelay_def
        whole_at_least_def isSafeInteger_def MAX_SAFE_INTEGER_def)
  have t: "1 \<le> shorter D" "shorter D \<le> 300000" "shorter 30000 = 3000"
    using assms by (auto simp: shorter_def floor_div_def DEVELOPMENT_ROUND_LIMIT_FACTOR_def)
  have "checkRoundLimitPolicy (relaxedRoundLimitPolicy (literal_policy n B D)) = Inr (relaxedRoundLimitPolicy (literal_policy n B D))"
    using assms t by (simp add: checkRoundLimitPolicy_def literal_policy_def relaxedRoundLimitPolicy_def Let_def checkTime_def
        checkCount_def checkDelay_def whole_at_least_def isSafeInteger_def MAX_SAFE_INTEGER_def DEVELOPMENT_ROUND_LIMIT_FACTOR_def)
  with strict show ?thesis by (simp add: roundLimitPolicies_def)
qed

text \<open>The default policies and two rounds on the empty store, for the witnesses.\<close>

definition demo_policies :: round_limit_policies where
  "demo_policies = \<lparr>strictPolicy = literal_policy 600 300 1000, relaxedPolicy = relaxedRoundLimitPolicy (literal_policy 600 300 1000)\<rparr>"

lemma demo_policies_ok: "roundLimitPolicies (literal_policy 600 300 1000) = Inr demo_policies"
  using literal_policy_passes[of 600 300 1000] by (simp add: demo_policies_def)

lemma demo_hash: "hash_parts (\<lambda>_. ''h'')"
  by (simp add: hash_parts_def)

lemma demo_realm: "KEY_PART ''r''"
  by (simp add: KEY_PART_def key_char_def)

definition client_round :: round_keys where
  "client_round = \<lparr>rk_realmId = ''r'', rk_environment = Production, rk_endUserIpHmac = None, rk_ipBucketHmac = None,
     rk_clientKey = Some ''c''\<rparr>"

definition ip_round :: credential_keys where
  "ip_round = \<lparr>rk_realmId = ''r'', rk_environment = Production, rk_endUserIpHmac = Some ''i'', rk_ipBucketHmac = None,
     rk_clientKey = None, rk_reservation = ''res'', rk_identifierHmac = None\<rparr>"

lemma mem_empty_counts: "ZCARD mem_redis mem_empty k = 0" "mark mem_redis mem_empty k = 0"
  by (simp_all add: mem.ZCARD_eq mark_def)

lemma client_round_admitted:
  "\<exists>b s1. admitRound mem_redis (\<lambda>_. ''h'') demo_policies 5 ''m'' client_round mem_empty = Inr (Admitted [] b, s1)"
proof -
  have ok: "checkRows client_round = None" "checkRealm client_round = None"
    by (simp_all add: checkRows_def checkRealm_def client_round_def row_ip_def row_bucket_def opt_part_def demo_realm)
  then show ?thesis
    by (simp add: admitRound_def ADMIT_ROUND_SCRIPT_def split_beta Let_def row_ip_def row_client_def client_round_def
        prune_mem_empty mem_empty_counts roundDecisionOf_def roundLimitPolicyFor_def demo_policies_def literal_policy_def)
qed

lemma ip_round_admitted:
  "\<exists>s1. reserveCredential mem_redis (\<lambda>_. ''h'') demo_policies 5 ip_round mem_empty = Inr (Admitted [] False, s1)"
proof -
  have ok: "checkRows ip_round = None" "checkCredentialArgs ip_round = None" "checkRealm ip_round = None"
    by (simp_all add: checkRows_def checkCredentialArgs_def checkRealm_def ip_round_def row_ip_def row_bucket_def opt_part_def
        KEY_PART_def key_char_def)
  then show ?thesis
    by (simp add: reserveCredential_def RESERVE_CREDENTIAL_SCRIPT_def reserveIp_def split_beta Let_def row_ip_def row_bucket_def
        row_client_def ip_round_def prune_mem_empty mem_empty_counts roundDecisionOf_def roundLimitPolicyFor_def
        demo_policies_def literal_policy_def)
qed

subsection \<open>Properties\<close>





text \<open>
  Beside a bucket's log stands a hash of counts per identifier. Every operation keeps the
  two in step, so the hash's length is the number of distinct identifiers with a live failure
  in the log: what the bucket's limit is about.
\<close>

theorem bucket_counts_distinct_identifiers:
  assumes "redis_store R" and "hash_parts h" and "bucket_inv R s (bucketKey q ''failures'') (bucketKey q ''identifiers'')"
    and "identifierOf q @ CHR '':'' # rk_reservation q \<notin> dom (ZSCORE R s (bucketKey q ''failures''))"
  shows "HLEN R s (bucketKey q ''identifiers'') = int (card {i. members_of (ZSCORE R s (bucketKey q ''failures'')) i \<noteq> {}})
    \<and> (\<forall>now d s'. reserveCredential R h ps now q s = Inr (d, s') \<longrightarrow>
        bucket_inv R s' (bucketKey q ''failures'') (bucketKey q ''identifiers''))
    \<and> (\<forall>now oc a as s'. settleCredential R h ps now q oc a s = Inr (as, s') \<longrightarrow>
        bucket_inv R s' (bucketKey q ''failures'') (bucketKey q ''identifiers''))"
  using redis_store.bucket_inv_HLEN[OF assms(1,3)] redis_store.reserveCredential_bucket[OF assms(1) _ assms(2-4)]
    redis_store.settleCredential_bucket[OF assms(1) _ assms(2,3)] by blast

theorem bucket_counts_distinct_identifiers_witness:
  "\<exists>d s'. reserveCredential mem_redis (\<lambda>_. ''h'') demo_policies 5 ip_round mem_empty = Inr (d, s')
     \<and> bucket_inv mem_redis s' (bucketKey ip_round ''failures'') (bucketKey ip_round ''identifiers'')"
proof -
  have "bucket_inv mem_redis mem_empty (bucketKey ip_round ''failures'') (bucketKey ip_round ''identifiers'')"
    by (simp add: bucket_inv_def hash_counts_def members_of_def mem_redis_def mem_empty_def)
  from bucket_counts_distinct_identifiers[OF mem.redis_store_axioms demo_hash this] ip_round_admitted
  show ?thesis by fastforce
qed

text \<open>
  The failure that meets an end-user IP's hard limit blocks the IP: until \<open>blockMs\<close> later,
  every round and every credential round of that IP is refused with the time that is left, and
  neither counts anywhere nor changes the store.
\<close>

theorem hard_block_refuses:
  assumes "redis_store R" and "hash_parts h" and "settleCredential R h ps now q OutcomeFailure a s = Inr (as, s')"
    and "EndUserIpBlocked \<in> set as" and "u = now + ipl_blockMs (rp_endUserIp (roundLimitPolicyFor (rk_environment q) ps))"
    and "t < u" and "rk_realmId keys = rk_realmId q" and "rk_endUserIpHmac keys = rk_endUserIpHmac q"
    and "rk_realmId c = rk_realmId q" and "rk_endUserIpHmac c = rk_endUserIpHmac q"
  shows "(admitRound R h ps t member keys s' = Inr (d, s1) \<longrightarrow> d = RoundRefused EndUserIpLimit (u - t) [] \<and> s1 = s')
    \<and> (reserveCredential R h ps t c s' = Inr (d, s1) \<longrightarrow> d = RoundRefused EndUserIpLimit (u - t) [] \<and> s1 = s')"
proof -
  have m: "rk_endUserIpHmac q \<noteq> None" "mark R s' (ipKey q ''block'') = u"
    using redis_store.settleCredential_block[OF assms(1,3,2,4)] assms(5) by auto
  have "ipKey keys ''block'' = ipKey q ''block''" "ipKey c ''block'' = ipKey q ''block''"
    using assms(7-10) by (simp_all add: ipKey_def row_ip_def)
  with m assms(6,8,10) redis_store.blocked_refused[OF assms(1), of keys t s' h ps member d s1]
    redis_store.blocked_credential_refused[OF assms(1), of c t s' h ps d s1]
  show ?thesis by metis
qed

definition strict_once :: round_limit_policies where
  "strict_once = (let p = literal_policy 600 300 1000; q = p\<lparr>rp_endUserIp := (rp_endUserIp p)\<lparr>ipl_softFailures := 1, ipl_hardFailures := 1\<rparr>\<rparr>
     in \<lparr>strictPolicy = q, relaxedPolicy = q\<rparr>)"

theorem hard_block_refuses_witness:
  "\<exists>as s'. settleCredential mem_redis (\<lambda>_. ''h'') strict_once 5 ip_round OutcomeFailure None
       (ZADD mem_redis (ipKey ip_round ''failures'') 5 ''res'' mem_empty) = Inr (as, s')
     \<and> EndUserIpBlocked \<in> set as
     \<and> (\<forall>d s1. reserveCredential mem_redis (\<lambda>_. ''h'') strict_once 6 ip_round s' = Inr (d, s1) \<longrightarrow>
          d = RoundRefused EndUserIpLimit 899999 [])"
proof -
  let ?s = "ZADD mem_redis (ipKey ip_round ''failures'') 5 ''res'' mem_empty"
  have ok: "checkRows ip_round = None" "checkCredentialArgs ip_round = None" "checkRealm ip_round = None"
    by (simp_all add: checkRows_def checkCredentialArgs_def checkRealm_def ip_round_def row_ip_def row_bucket_def opt_part_def
        KEY_PART_def key_char_def)
  have "newer [''res'' \<mapsto> (5::int)] (- 899995) = {''res''}" by (auto simp: newer_def)
  then have c: "ZCARD mem_redis (prune mem_redis (ipKey ip_round ''failures'') 5 900000 ?s) (ipKey ip_round ''failures'') = 1"
    by (simp add: mem.ZCARD_prune)
  have m: "mark mem_redis (prune mem_redis (ipKey ip_round ''failures'') 5 900000 ?s) (ipKey ip_round ''block'') \<le> 5"
    by (simp add: mark_def prune_def mem_redis_def mem_empty_def)
  obtain as s' where s': "settleCredential mem_redis (\<lambda>_. ''h'') strict_once 5 ip_round OutcomeFailure None ?s = Inr (as, s')"
    and as: "EndUserIpBlocked \<in> set as"
    using ok c m by (auto simp: settleCredential_def Let_def SETTLE_CREDENTIAL_SCRIPT_def settleFailureIp_def split_beta
        row_ip_def strict_once_def literal_policy_def roundLimitPolicyFor_def ip_round_def)
  have blk: "ipl_blockMs (rp_endUserIp (roundLimitPolicyFor (rk_environment ip_round) strict_once)) = 900000"
    by (simp add: strict_once_def literal_policy_def roundLimitPolicyFor_def Let_def)
  from hard_block_refuses[OF mem.redis_store_axioms demo_hash s' as refl, of 6 "round_keys.truncate ip_round" ip_round]
  have "reserveCredential mem_redis (\<lambda>_. ''h'') strict_once 6 ip_round s' = Inr (d, s1) \<Longrightarrow> d = RoundRefused EndUserIpLimit 899999 []" for d s1
    by (simp add: round_keys.truncate_def blk)
  with s' as show ?thesis by blast
qed

text \<open>
  The shipped policy passes its check and so does its development form, whatever
  \<open>FIRST_PARTY_CLIENT_MAX_ROUNDS\<close> the operator sets between 1 and ten million; an IP or a bucket held
  to its delay meets the hard limit no sooner than its window ends, and the client's failure
  budget is a tenth of the rounds its window admits.
\<close>

theorem round_limit_policy_passes:
  assumes "1 \<le> n" and "n \<le> 10000000"
  shows "roundLimitPolicies (roundLimitPolicy (Some n) None)
      = Inr \<lparr>strictPolicy = roundLimitPolicy (Some n) None, relaxedPolicy = relaxedRoundLimitPolicy (roundLimitPolicy (Some n) None)\<rparr>
    \<and> (let p = roundLimitPolicy (Some n) None in
        ipl_delayMs (rp_endUserIp p) * ipl_hardFailures (rp_endUserIp p) = ipl_windowMs (rp_endUserIp p)
        \<and> (2 \<le> n \<longrightarrow> cll_failureBudget (rp_client p) * 10 \<le> 5 * cll_maxRounds (rp_client p)
          \<and> 5 * cll_maxRounds (rp_client p) < (cll_failureBudget (rp_client p) + 1) * 10))"
proof -
  define B where "B = max 1 (n * 5 div 10)"
  have b: "1 \<le> B" "B \<le> 5000000" using assms by (auto simp: B_def)
  have d: "1 \<le> max 1 (300000 div B)" "max 1 (300000 div B) \<le> 300000"
    using b zdiv_mono2[of 300000 1 B] by auto
  have p: "roundLimitPolicy (Some n) None = literal_policy n B (max 1 (300000 div B))"
    by (simp add: roundLimitPolicy_def literal_policy_def MINUTE_MS_def HOUR_MS_def floor_div_def B_def Let_def)
  have budget: "B * 10 \<le> 5 * n \<and> 5 * n < (B + 1) * 10" if "2 \<le> n" using that by (auto simp: B_def max_def)
  have "roundLimitPolicies (literal_policy n B (max 1 (300000 div B))) = Inr \<lparr>strictPolicy = literal_policy n B (max 1 (300000 div B)),
      relaxedPolicy = relaxedRoundLimitPolicy (literal_policy n B (max 1 (300000 div B)))\<rparr>"
    by (rule literal_policy_passes[OF assms b d])
  with budget show ?thesis unfolding p Let_def by (simp add: literal_policy_def)
qed

theorem round_limit_policy_passes_witness:
  "roundLimitPolicies (roundLimitPolicy (Some 600) None) = Inr \<lparr>strictPolicy = roundLimitPolicy (Some 600) None,
     relaxedPolicy = relaxedRoundLimitPolicy (roundLimitPolicy (Some 600) None)\<rparr>"
  using round_limit_policy_passes[of 600] by simp

end
