(* ===== verification/Base32.thy ===== *)
theory Base32
  imports Prelude "HOL-Library.Word"
begin

text \<open>
  Base32 without padding (RFC 4648), as \<open>base32Encode\<close> of \<open>totp.ts\<close> and \<open>base32\<close> of
  \<open>recovery-codes.ts\<close> (both under \<open>libs/server/sign-in-engine/src/lib/\<close>) compute it: a 32-bit
  shift buffer drained five bits at a time. The two functions differ in their alphabet only,
  which is an argument here. JavaScript's \<open><<\<close>, \<open>|\<close>, \<open>&\<close> and \<open>>>>\<close> work on 32-bit patterns,
  so the buffer is a \<open>32 word\<close>.

  The theorem of this theory reads the characters back, five bits each: they spell the bytes,
  eight bits each, padded with zero bits to a whole character.
\<close>

unbundle bit_operations_syntax

type_synonym byte = "8 word"

fun drain :: "string \<Rightarrow> 32 word \<Rightarrow> nat \<Rightarrow> string \<times> nat" where
  "drain A buffer bits =
     (if bits \<ge> 5
      then (let (out, left) = drain A buffer (bits - 5)
            in ((A ! unat (drop_bit (bits - 5) buffer AND 31)) # out, left))
      else ([], bits))"

declare drain.simps [simp del]

fun base32_loop :: "string \<Rightarrow> byte list \<Rightarrow> 32 word \<Rightarrow> nat \<Rightarrow> string" where
  "base32_loop A [] buffer bits =
     (if bits > 0 then [A ! unat (push_bit (5 - bits) buffer AND 31)] else [])"
| "base32_loop A (byte # bytes) buffer bits =
     (let buffer1 = push_bit 8 buffer OR ucast byte;
          (out, left) = drain A buffer1 (bits + 8)
      in out @ base32_loop A bytes (buffer1 AND (push_bit left 1 - 1)) left)"

definition base32 :: "string \<Rightarrow> byte list \<Rightarrow> string" where
  "base32 A bytes = base32_loop A bytes 0 0"

subsection \<open>Bits, highest first\<close>

definition top_bits :: "'a::semiring_bits \<Rightarrow> nat \<Rightarrow> bool list" where
  "top_bits x n = map (bit x) (rev [0..<n])"

definition char_bits :: "string \<Rightarrow> char \<Rightarrow> bool list" where
  "char_bits A c = top_bits (length (takeWhile (\<lambda>x. x \<noteq> c) A)) 5"

text \<open>What the proofs need of an alphabet: 32 characters, all different.\<close>

definition alphabet32 :: "string \<Rightarrow> bool" where
  "alphabet32 A \<longleftrightarrow> length A = 32 \<and> distinct A"

lemma index_of_nth: "distinct A \<Longrightarrow> i < length A \<Longrightarrow> length (takeWhile (\<lambda>x. x \<noteq> A ! i) A) = i"
proof (induction A arbitrary: i)
  case (Cons a A)
  then show ?case by (cases i) (auto simp: nth_eq_iff_index_eq)
qed simp

lemma and_31: "(w AND 31 :: 32 word) = take_bit 5 w"
  by (simp add: take_bit_eq_mask mask_eq_exp_minus_1)

lemma unat_and_31: "unat (w AND 31 :: 32 word) < 32"
  using take_bit_nat_less_exp[of 5 "unat w"] by (simp add: and_31 unsigned_take_bit_eq)

lemma char_bits_nth:
  assumes "alphabet32 A"
  shows "char_bits A (A ! unat (w AND 31 :: 32 word)) = top_bits w 5"
proof -
  have "bit (unat (w AND 31)) n = bit w n" if "n < 5" for n
    using that by (simp add: and_31 unsigned_take_bit_eq bit_take_bit_iff bit_unsigned_iff)
  moreover have "length (takeWhile (\<lambda>x. x \<noteq> A ! unat (w AND 31)) A) = unat (w AND 31)"
    using assms unat_and_31 by (intro index_of_nth) (auto simp: alphabet32_def)
  ultimately show ?thesis by (auto simp: char_bits_def top_bits_def)
qed

lemma top_bits_split: "k \<le> n \<Longrightarrow> top_bits x n = map (bit x) (rev [k..<n]) @ top_bits x k"
proof -
  assume "k \<le> n"
  then have "[0..<n] = [0..<k] @ [k..<n]" using upt_add_eq_append[of 0 k "n - k"] by simp
  then show ?thesis by (simp add: top_bits_def del: upt_conv_Nil)
qed

lemma length_top_bits [simp]: "length (top_bits x n) = n"
  by (simp add: top_bits_def)

lemma top_bits_drop: "top_bits (drop_bit k w) n = map (bit w) (rev [k..<k + n])"
proof -
  have "[k..<k + n] = map (\<lambda>i. k + i) [0..<n]" using map_add_upt[of k n] by (simp add: add.commute)
  then show ?thesis by (simp add: top_bits_def rev_map bit_drop_bit_eq comp_def)
qed

lemma drain_bits:
  assumes "alphabet32 A" and "drain A buffer bits = (out, left)"
  shows "left < 5 \<and> concat (map (char_bits A) out) @ top_bits buffer left = top_bits buffer bits \<and> bits = 5 * length out + left"
  using assms(2)
proof (induction bits arbitrary: out left rule: less_induct)
  case (less bits)
  show ?case
  proof (cases "5 \<le> bits")
    case True
    obtain out' left' where d: "drain A buffer (bits - 5) = (out', left')" by (cases "drain A buffer (bits - 5)")
    with less.prems True have out: "out = (A ! unat (drop_bit (bits - 5) buffer AND 31)) # out'" "left' = left"
      by (auto simp: drain.simps[of A buffer bits])
    have "top_bits buffer bits = top_bits (drop_bit (bits - 5) buffer) 5 @ top_bits buffer (bits - 5)"
      using True top_bits_split[of "bits - 5" bits buffer] by (simp add: top_bits_drop)
    with less.IH[OF _ d] out True show ?thesis by (auto simp: char_bits_nth[OF assms(1)])
  next
    case False
    with less.prems show ?thesis by (auto simp: drain.simps[of A buffer bits])
  qed
qed

lemma mask_keeps: "n \<le> 32 \<Longrightarrow> top_bits ((w :: 32 word) AND (push_bit n 1 - 1)) n = top_bits w n"
proof -
  have "push_bit n (1 :: 32 word) - 1 = mask n" by (simp add: mask_eq_exp_minus_1)
  then show "n \<le> 32 \<Longrightarrow> ?thesis" by (auto simp: top_bits_def bit_and_iff bit_mask_iff)
qed

lemma shift_in:
  "n \<le> 24 \<Longrightarrow> top_bits (push_bit 8 (w :: 32 word) OR ucast (b :: byte)) (n + 8) = top_bits w n @ top_bits b 8"
proof -
  assume n: "n \<le> 24"
  let ?x = "push_bit 8 w OR ucast b"
  have "[8..<n + 8] = map (\<lambda>i. i + 8) [0..<n]" using map_add_upt[of 8 n] by simp
  then have "map (bit ?x) (rev [8..<n + 8]) = top_bits w n"
    using n by (auto simp: top_bits_def rev_map bit_or_iff bit_push_bit_iff bit_ucast_iff dest: bit_imp_le_length)
  moreover have "top_bits ?x 8 = top_bits b 8"
    by (auto simp: top_bits_def bit_or_iff bit_push_bit_iff bit_ucast_iff)
  ultimately show ?thesis using top_bits_split[of 8 "n + 8" ?x] by simp
qed

lemma base32_loop_bits:
  assumes A: "alphabet32 A" and "bits < 5"
  shows "\<exists>k < 5. concat (map (char_bits A) (base32_loop A bytes buffer bits))
      = top_bits buffer bits @ concat (map (\<lambda>b. top_bits b 8) bytes) @ replicate k False"
  using assms(2)
proof (induction bytes arbitrary: buffer bits)
  case Nil
  show ?case
  proof (cases "bits = 0")
    case True
    then show ?thesis by (intro exI[of _ 0]) (simp add: top_bits_def)
  next
    case False
    have "top_bits (push_bit (5 - bits) buffer) 5
        = map (bit (push_bit (5 - bits) buffer)) (rev [5 - bits..<5]) @ top_bits (push_bit (5 - bits) buffer) (5 - bits)"
      by (rule top_bits_split) simp
    moreover have "top_bits (push_bit (5 - bits) buffer) (5 - bits) = replicate (5 - bits) False"
      by (auto simp: top_bits_def bit_push_bit_iff intro!: nth_equalityI simp: rev_nth)
    moreover have "map (bit (push_bit (5 - bits) buffer)) (rev [5 - bits..<5]) = top_bits buffer bits"
    proof -
      have "[5 - bits..<5] = map (\<lambda>i. i + (5 - bits)) [0..<bits]" using map_add_upt[of "5 - bits" bits] Nil by simp
      with Nil show ?thesis by (auto simp: top_bits_def rev_map bit_push_bit_iff)
    qed
    ultimately show ?thesis using Nil False by (intro exI[of _ "5 - bits"]) (simp add: char_bits_nth[OF A])
  qed
next
  case (Cons b bytes)
  let ?w = "push_bit 8 buffer OR ucast b"
  obtain out left where d: "drain A ?w (bits + 8) = (out, left)" by (cases "drain A ?w (bits + 8)")
  note db = drain_bits[OF A d]
  then have "left < 5" by simp
  from Cons.IH[OF this, of "?w AND (push_bit left 1 - 1)"] obtain k where k: "k < 5"
    "concat (map (char_bits A) (base32_loop A bytes (?w AND (push_bit left 1 - 1)) left))
      = top_bits ?w left @ concat (map (\<lambda>b. top_bits b 8) bytes) @ replicate k False"
    using mask_keeps[of left ?w] \<open>left < 5\<close> by auto
  have "concat (map (char_bits A) out) @ top_bits ?w left = top_bits buffer bits @ top_bits b 8"
    using db shift_in[of bits buffer b] Cons.prems by simp
  then have "concat (map (char_bits A) (base32_loop A (b # bytes) buffer bits))
      = top_bits buffer bits @ concat (map (\<lambda>b. top_bits b 8) (b # bytes)) @ replicate k False"
    using d k(2) by (simp add: append_assoc[symmetric] del: append_assoc)
  with k(1) show ?case by blast
qed

lemma base32_bits:
  assumes "alphabet32 A"
  shows "\<exists>k < 5. concat (map (char_bits A) (base32 A bytes)) = concat (map (\<lambda>b. top_bits b 8) bytes) @ replicate k False"
  using base32_loop_bits[OF assms, of 0 bytes 0] by (simp add: base32_def top_bits_def)

lemma length_base32:
  assumes "alphabet32 A"
  shows "length (base32 A bytes) = (8 * length bytes + 4) div 5"
proof -
  obtain k where "k < 5" and eq: "concat (map (char_bits A) (base32 A bytes)) = concat (map (\<lambda>b. top_bits b 8) bytes) @ replicate k False"
    using base32_bits[OF assms] by blast
  have "length (concat (map (char_bits A) (base32 A bytes))) = 5 * length (base32 A bytes)"
    by (induction "base32 A bytes") (simp_all add: length_concat char_bits_def comp_def sum_list_triv)
  moreover have "length (concat (map (\<lambda>b. top_bits b 8) bytes)) = 8 * length bytes"
    by (induction bytes) simp_all
  ultimately have "5 * length (base32 A bytes) = 8 * length bytes + k" using arg_cong[OF eq, of length] by simp
  with \<open>k < 5\<close> show ?thesis by linarith
qed

lemma set_base32_loop:
  assumes "alphabet32 A"
  shows "set (base32_loop A bytes buffer bits) \<subseteq> set A"
proof -
  have nth: "A ! unat (w AND 31 :: 32 word) \<in> set A" for w
    using assms unat_and_31[of w] by (simp add: alphabet32_def)
  have drain: "set (fst (drain A buffer bits)) \<subseteq> set A" for buffer bits
  proof (induction bits rule: less_induct)
    case (less bits)
    show ?case
    proof (cases "5 \<le> bits")
      case True
      then have "set (fst (drain A buffer (bits - 5))) \<subseteq> set A" by (intro less.IH) simp
      with True nth show ?thesis by (subst drain.simps) (simp add: split_beta)
    next
      case False
      then show ?thesis by (subst drain.simps) simp
    qed
  qed
  show ?thesis
  proof (induction bytes arbitrary: buffer bits)
    case (Cons b bytes)
    with drain show ?case by (simp add: Let_def split_beta)
  qed (use nth in auto)
qed

lemma top_bits_inject: "top_bits (a :: byte) 8 = top_bits b 8 \<Longrightarrow> a = b"
  by (rule bit_eqI) (auto simp: top_bits_def map_eq_conv)

lemma concat_bytes_inject:
  "length as = length bs \<Longrightarrow> concat (map (\<lambda>b :: byte. top_bits b 8) as) = concat (map (\<lambda>b. top_bits b 8) bs) \<Longrightarrow> as = bs"
  by (induction as bs rule: list_induct2) (auto dest: top_bits_inject)

lemma length_concat_bytes: "length (concat (map (\<lambda>b :: byte. top_bits b 8) bs)) = 8 * length bs"
  by (induction bs) simp_all

lemma base32_inject:
  assumes "alphabet32 A"
  shows "base32 A as = base32 A bs \<longleftrightarrow> as = bs"
proof
  assume eq: "base32 A as = base32 A bs"
  obtain k where k: "k < 5" "concat (map (char_bits A) (base32 A as)) = concat (map (\<lambda>b. top_bits b 8) as) @ replicate k False"
    using base32_bits[OF assms] by blast
  obtain l where l: "l < 5" "concat (map (char_bits A) (base32 A bs)) = concat (map (\<lambda>b. top_bits b 8) bs) @ replicate l False"
    using base32_bits[OF assms] by blast
  have e: "concat (map (\<lambda>b. top_bits b 8) as) @ replicate k False = concat (map (\<lambda>b. top_bits b 8) bs) @ replicate l False"
    using eq k(2) l(2) by simp
  have "8 * length as + k = 8 * length bs + l" using arg_cong[OF e, of length] by (simp add: length_concat_bytes)
  then have len: "length as = length bs" using k(1) l(1) by linarith
  with e have "concat (map (\<lambda>b. top_bits b 8) as) = concat (map (\<lambda>b. top_bits b 8) bs)"
    by (simp add: append_eq_append_conv length_concat_bytes)
  then show "as = bs" by (rule concat_bytes_inject[OF len])
qed simp

end
