(* ===== verification/Table.thy ===== *)
theory Table
  imports Prelude
begin

text \<open>
  A database table as the list of its rows, and the SQL statements the repositories under
  \<open>libs/infra/db\<close> issue: \<open>SELECT\<close>, \<open>UPDATE ... WHERE ... RETURNING\<close>, \<open>DELETE ... WHERE ... RETURNING\<close>
  and \<open>INSERT\<close>. One statement is one atomic step on the table; PostgreSQL checks an \<open>UPDATE\<close>'s
  condition on the row a concurrent writer left, so an interleaving of statements is a sequence
  of such steps. A row's \<open>created_at\<close> and \<open>updated_at\<close> are left out: no code reads them back.
\<close>

type_synonym 'r tab = "'r list"

definition select_where :: "('r \<Rightarrow> bool) \<Rightarrow> 'r tab \<Rightarrow> 'r list" where
  "select_where P t = filter P t"

definition limit1 :: "'r list \<Rightarrow> 'r option" where
  "limit1 rs = (case rs of [] \<Rightarrow> None | r # _ \<Rightarrow> Some r)"

text \<open>The rows an update returns are the rows as written.\<close>

definition update_where :: "('r \<Rightarrow> bool) \<Rightarrow> ('r \<Rightarrow> 'r) \<Rightarrow> 'r tab \<Rightarrow> 'r list \<times> 'r tab" where
  "update_where P f t = (map f (filter P t), map (\<lambda>r. if P r then f r else r) t)"

definition delete_where :: "('r \<Rightarrow> bool) \<Rightarrow> 'r tab \<Rightarrow> 'r list \<times> 'r tab" where
  "delete_where P t = (filter P t, filter (\<lambda>r. \<not> P r) t)"

text \<open>A unique index: no two rows with the same key.\<close>

definition unique_on :: "('r \<Rightarrow> 'k) \<Rightarrow> 'r tab \<Rightarrow> bool" where
  "unique_on key t \<longleftrightarrow> distinct (map key t)"

lemma unique_on_update:
  assumes "unique_on key t" and "\<And>r. P r \<Longrightarrow> key (f r) = key r"
  shows "unique_on key (snd (update_where P f t))"
proof -
  have "map key (map (\<lambda>r. if P r then f r else r) t) = map key t" using assms(2) by auto
  with assms(1) show ?thesis by (simp add: unique_on_def update_where_def del: map_map)
qed

lemma unique_on_delete: "unique_on key t \<Longrightarrow> unique_on key (snd (delete_where P t))"
  by (simp add: unique_on_def delete_where_def distinct_map_filter)

lemma unique_on_append: "unique_on key t \<Longrightarrow> key r \<notin> key ` set t \<Longrightarrow> unique_on key (t @ [r])"
  by (simp add: unique_on_def)

text \<open>Under a unique index, a condition that fixes the key names at most one row.\<close>

lemma unique_on_filter:
  assumes "unique_on key t" and "\<And>r. P r \<Longrightarrow> key r = k"
  shows "filter P t = [] \<or> (\<exists>r \<in> set t. P r \<and> filter P t = [r])"
  using assms
proof (induction t)
  case (Cons r t)
  show ?case
  proof (cases "P r")
    case True
    then have "filter P t = []" using Cons.prems by (auto simp: unique_on_def filter_empty_conv image_iff)
    with True show ?thesis by simp
  next
    case False
    with Cons show ?thesis by (auto simp: unique_on_def)
  qed
qed simp

lemma unique_on_same: "unique_on key t \<Longrightarrow> r \<in> set t \<Longrightarrow> r' \<in> set t \<Longrightarrow> key r = key r' \<Longrightarrow> r = r'"
  by (auto simp: unique_on_def distinct_map inj_on_def)

lemma update_where_none: "filter P t = [] \<Longrightarrow> update_where P f t = ([], t)"
  by (auto simp: update_where_def filter_empty_conv intro: map_idI)

end
