(* ===== verification/User_Credentials.thy ===== *)
theory User_Credentials
  imports Table
begin

text \<open>
  The \<open>user_credentials\<close> table and its repository
  (\<open>libs/infra/db/src/lib/repositories/user-credentials.repository.ts\<close>): one row per credential,
  unique on realm, provider type and external subject. Every operation is one statement; the
  JSON document of a row is a partial map from its keys. Row ids are drawn by the database, so
  an inserted row's id is an argument.
\<close>

datatype json = JNum int | JStr string | JBool bool | JNull | JOther

type_synonym jdata = "string \<rightharpoonup> json"

record credential_row =
  cr_id :: string
  cr_userId :: string
  cr_realmId :: string
  cr_providerType :: string
  cr_externalSub :: string
  cr_data :: jdata
  cr_disabledAt :: "int option"

type_synonym credentials = "credential_row tab"

datatype repo_error = UniqueConstraintError string | NotFoundError string

definition PASSWORD_PROVIDER_TYPE :: string where
  "PASSWORD_PROVIDER_TYPE = ''password''"

definition TOTP_PROVIDER_TYPE :: string where
  "TOTP_PROVIDER_TYPE = ''totp''"

definition PASSWORD_DATA_KEYS :: "string list" where
  "PASSWORD_DATA_KEYS = [''password_hash'', ''email_verified'', ''password_normalization'']"

definition cred_key :: "credential_row \<Rightarrow> string \<times> string \<times> string" where
  "cred_key r = (cr_realmId r, cr_providerType r, cr_externalSub r)"

definition create_credential :: "credential_row \<Rightarrow> credentials \<Rightarrow> repo_error + credential_row \<times> credentials" where
  "create_credential r t =
     (if cred_key r \<in> set (map cred_key t)
      then Inl (UniqueConstraintError ''idx_user_credentials_realm_provider_sub_unique'')
      else Inr (r, t @ [r]))"

definition cred_findById :: "string \<Rightarrow> string \<Rightarrow> credentials \<Rightarrow> credential_row option" where
  "cred_findById realmId i t = limit1 (select_where (\<lambda>r. cr_realmId r = realmId \<and> cr_id r = i) t)"

definition findByRealmProviderSub :: "string \<Rightarrow> string \<Rightarrow> string \<Rightarrow> credentials \<Rightarrow> credential_row option" where
  "findByRealmProviderSub realmId providerType externalSub t =
     limit1 (select_where (\<lambda>r. cr_realmId r = realmId \<and> cr_providerType r = providerType \<and> cr_externalSub r = externalSub) t)"

definition findByUserIdAndType :: "string \<Rightarrow> string \<Rightarrow> credentials \<Rightarrow> credential_row option" where
  "findByUserIdAndType userId providerType t =
     limit1 (select_where (\<lambda>r. cr_userId r = userId \<and> cr_providerType r = providerType) t)"

definition findAllByRealmAndExternalSub :: "string \<Rightarrow> string \<Rightarrow> credentials \<Rightarrow> credential_row list" where
  "findAllByRealmAndExternalSub realmId externalSub t =
     select_where (\<lambda>r. cr_realmId r = realmId \<and> cr_externalSub r = externalSub) t"

definition findAllByUserIdAndType :: "string \<Rightarrow> string \<Rightarrow> credentials \<Rightarrow> credential_row list" where
  "findAllByUserIdAndType userId providerType t =
     select_where (\<lambda>r. cr_userId r = userId \<and> cr_providerType r = providerType) t"

definition findAllByUserId :: "string \<Rightarrow> credentials \<Rightarrow> credential_row list" where
  "findAllByUserId userId t = select_where (\<lambda>r. cr_userId r = userId) t"

definition updateCredentialData :: "string \<Rightarrow> jdata \<Rightarrow> credentials \<Rightarrow> repo_error + credential_row \<times> credentials" where
  "updateCredentialData i credentialData t =
     (case update_where (\<lambda>r. cr_id r = i) (\<lambda>r. r\<lparr>cr_data := credentialData\<rparr>) t of
        ([], t') \<Rightarrow> Inl (NotFoundError i)
      | (r # _, t') \<Rightarrow> Inr (r, t'))"

definition setEmailVerified :: "string \<Rightarrow> credentials \<Rightarrow> repo_error + credential_row \<times> credentials" where
  "setEmailVerified i t =
     (case update_where (\<lambda>r. cr_id r = i) (\<lambda>r. r\<lparr>cr_data := (cr_data r)(''email_verified'' \<mapsto> JBool True)\<rparr>) t of
        ([], t') \<Rightarrow> Inl (NotFoundError i)
      | (r # _, t') \<Rightarrow> Inr (r, t'))"

text \<open>\<open>(data - keys) || passwordData\<close>: the password's own keys dropped, the new ones merged in.\<close>

definition merge_password :: "jdata \<Rightarrow> jdata \<Rightarrow> jdata" where
  "merge_password d new = (\<lambda>k. case new k of Some v \<Rightarrow> Some v
     | None \<Rightarrow> if k \<in> set PASSWORD_DATA_KEYS then None else d k)"

definition updatePassword :: "string \<Rightarrow> string \<Rightarrow> jdata \<Rightarrow> string option \<Rightarrow> credentials \<Rightarrow> credential_row option \<times> credentials" where
  "updatePassword realmId i passwordData expected t =
     (let (rs, t') = update_where
        (\<lambda>r. cr_realmId r = realmId \<and> cr_id r = i \<and> cr_providerType r = PASSWORD_PROVIDER_TYPE
           \<and> (case expected of None \<Rightarrow> True | Some h \<Rightarrow> cr_data r ''password_hash'' = Some (JStr h)))
        (\<lambda>r. r\<lparr>cr_data := merge_password (cr_data r) passwordData, cr_disabledAt := None\<rparr>) t
      in (limit1 rs, t'))"

definition setDisabledAt :: "string \<Rightarrow> string \<Rightarrow> string \<Rightarrow> int \<Rightarrow> credentials \<Rightarrow> credential_row option \<times> credentials" where
  "setDisabledAt realmId providerType externalSub at t =
     (let (rs, t') = update_where
        (\<lambda>r. cr_realmId r = realmId \<and> cr_providerType r = providerType \<and> cr_externalSub r = externalSub \<and> cr_disabledAt r = None)
        (\<lambda>r. r\<lparr>cr_disabledAt := Some at\<rparr>) t
      in (limit1 rs, t'))"

definition clearDisabledAt :: "string \<Rightarrow> string \<Rightarrow> string \<Rightarrow> credentials \<Rightarrow> credential_row option \<times> credentials" where
  "clearDisabledAt realmId providerType externalSub t =
     (let (rs, t') = update_where
        (\<lambda>r. cr_realmId r = realmId \<and> cr_providerType r = providerType \<and> cr_externalSub r = externalSub \<and> cr_disabledAt r \<noteq> None)
        (\<lambda>r. r\<lparr>cr_disabledAt := None\<rparr>) t
      in (limit1 rs, t'))"

text \<open>The step is taken only by an enabled TOTP whose last accepted step is a lower number.\<close>

definition takes_step :: "string \<Rightarrow> string \<Rightarrow> int \<Rightarrow> credential_row \<Rightarrow> bool" where
  "takes_step realmId userId step r \<longleftrightarrow>
     cr_realmId r = realmId \<and> cr_providerType r = TOTP_PROVIDER_TYPE \<and> cr_externalSub r = userId \<and> cr_userId r = userId
     \<and> cr_disabledAt r = None
     \<and> (case cr_data r ''last_step'' of Some (JNum n) \<Rightarrow> n < step | _ \<Rightarrow> False)"

definition acceptTotpStep :: "string \<Rightarrow> string \<Rightarrow> int \<Rightarrow> credentials \<Rightarrow> bool \<times> credentials" where
  "acceptTotpStep realmId userId step t =
     (if \<not> isSafeInteger step \<or> step < 0 then (False, t)
      else let (rs, t') = update_where (takes_step realmId userId step)
                  (\<lambda>r. r\<lparr>cr_data := (cr_data r)(''last_step'' \<mapsto> JNum step)\<rparr>) t
           in (length rs = 1, t'))"

text \<open>\<open>INSERT ... ON CONFLICT DO UPDATE ... WHERE user_id = ...\<close>: another user's row stays and nothing returns.\<close>

definition upsertTotp :: "string \<Rightarrow> string \<Rightarrow> string \<Rightarrow> jdata \<Rightarrow> credentials \<Rightarrow> credential_row option \<times> credentials" where
  "upsertTotp newId realmId userId credentialData t =
     (let key = (realmId, TOTP_PROVIDER_TYPE, userId) in
      if key \<in> set (map cred_key t)
      then let (rs, t') = update_where (\<lambda>r. cred_key r = key \<and> cr_userId r = userId)
                  (\<lambda>r. r\<lparr>cr_data := credentialData, cr_disabledAt := None\<rparr>) t
           in (limit1 rs, t')
      else let r = \<lparr>cr_id = newId, cr_userId = userId, cr_realmId = realmId, cr_providerType = TOTP_PROVIDER_TYPE,
                    cr_externalSub = userId, cr_data = credentialData, cr_disabledAt = None\<rparr>
           in (Some r, t @ [r]))"

definition cred_deleteById :: "string \<Rightarrow> string \<Rightarrow> credentials \<Rightarrow> credential_row option \<times> credentials" where
  "cred_deleteById realmId i t =
     (let (rs, t') = delete_where (\<lambda>r. cr_realmId r = realmId \<and> cr_id r = i) t in (limit1 rs, t'))"

subsection \<open>The index stays unique\<close>

lemmas cred_ops = create_credential_def updateCredentialData_def setEmailVerified_def updatePassword_def
  setDisabledAt_def clearDisabledAt_def acceptTotpStep_def upsertTotp_def cred_deleteById_def

lemma update_unique:
  assumes "unique_on cred_key t" and "update_where P f t = (rs, t')" and "\<And>r. cred_key (f r) = cred_key r"
  shows "unique_on cred_key t'"
  using unique_on_update[OF assms(1), of P f] assms(2,3) by simp

lemma cred_key_upd [simp]:
  "cred_key (r\<lparr>cr_data := d\<rparr>) = cred_key r" "cred_key (r\<lparr>cr_disabledAt := x\<rparr>) = cred_key r"
  by (simp_all add: cred_key_def)

lemma unique_ops:
  assumes u: "unique_on cred_key t"
  shows "create_credential r t = Inr (x, t') \<Longrightarrow> unique_on cred_key t'"
    and "updateCredentialData i d t = Inr (x, t') \<Longrightarrow> unique_on cred_key t'"
    and "setEmailVerified i t = Inr (x, t') \<Longrightarrow> unique_on cred_key t'"
    and "updatePassword realm i d e t = (y, t') \<Longrightarrow> unique_on cred_key t'"
    and "setDisabledAt realm p s at t = (y, t') \<Longrightarrow> unique_on cred_key t'"
    and "clearDisabledAt realm p s t = (y, t') \<Longrightarrow> unique_on cred_key t'"
    and "acceptTotpStep realm user step t = (b, t') \<Longrightarrow> unique_on cred_key t'"
    and "upsertTotp newId realm user d t = (y, t') \<Longrightarrow> unique_on cred_key t'"
    and "cred_deleteById realm i t = (y, t') \<Longrightarrow> unique_on cred_key t'"
proof -
  show "create_credential r t = Inr (x, t') \<Longrightarrow> unique_on cred_key t'"
    using u by (auto simp: create_credential_def unique_on_append split: if_splits)
  show "upsertTotp newId realm user d t = (y, t') \<Longrightarrow> unique_on cred_key t'"
    using u by (auto simp: upsertTotp_def Let_def split_beta cred_key_def[of "\<lparr>cr_id = _, cr_userId = _, cr_realmId = _, cr_providerType = _, cr_externalSub = _, cr_data = _, cr_disabledAt = _\<rparr>"]
        intro!: unique_on_append unique_on_update split: if_splits)
  show "cred_deleteById realm i t = (y, t') \<Longrightarrow> unique_on cred_key t'"
    using unique_on_delete[OF u] by (auto simp: cred_deleteById_def split_beta)
qed (use u in \<open>auto simp: cred_ops Let_def split_beta split: if_splits prod.splits list.splits dest: update_unique intro!: unique_on_update\<close>)

end
