(* ===== verification/Users.thy ===== *)
theory Users
  imports Table User_Credentials
begin

text \<open>
  The users table (\<open>libs/infra/db/src/lib/repositories/users.repository.ts\<close>, with the trigger of
  migration 0044 that keeps \<open>not_valid_before\<close>) and whether an account still accepts a credential
  it was issued (\<open>apps/auth-server/src/app/helpers/account-validity.ts\<close>). \<open>guid\<close> is the shape check
  of the validation library; the database's clock is an argument. A row's names and metadata are
  left out: nothing modelled here reads them.
\<close>

subsection \<open>Ids and realms\<close>

definition is_hex :: "char \<Rightarrow> bool" where
  "is_hex c \<longleftrightarrow> c \<in> set ''0123456789abcdefABCDEF''"

definition UUID_PATTERN :: "string \<Rightarrow> bool" where
  "UUID_PATTERN s = (let g = split_on (CHR ''-'') s
     in map length g = [8, 4, 4, 4, 12] \<and> list_all (list_all is_hex) g)"

text \<open>What the code modelled here reads of a realm's row.\<close>

record realm_row =
  rl_id :: string
  rl_enabled :: bool
  rl_isOperator :: bool
  rl_issuer :: "string option"
  rl_ssoMaxLifespan :: "int option"
  rl_ssoIdleTimeout :: "int option"

type_synonym realms = "realm_row tab"

definition realm_findById :: "string \<Rightarrow> realms \<Rightarrow> realm_row option" where
  "realm_findById i rs = limit1 (select_where (\<lambda>r. rl_id r = i) rs)"

subsection \<open>The table\<close>

record user_row =
  ur_realmId :: string
  ur_id :: string
  ur_enabled :: bool
  ur_notValidBefore :: "ms option"
  ur_lastLoginAt :: "ms option"

type_synonym users = "user_row tab"

definition userOfRealm :: "string \<Rightarrow> string \<Rightarrow> user_row \<Rightarrow> bool" where
  "userOfRealm realmId i = (\<lambda>u. ur_realmId u = realmId \<and> ur_id u = i)"

definition user_create :: "user_row \<Rightarrow> users \<Rightarrow> user_row \<times> users" where
  "user_create u us = (u, us @ [u])"

definition user_findById :: "(string \<Rightarrow> bool) \<Rightarrow> string \<Rightarrow> string \<Rightarrow> users \<Rightarrow> user_row option" where
  "user_findById guid realmId i us = (if \<not> guid i then None else limit1 (select_where (userOfRealm realmId i) us))"

definition user_findByIdOrThrow :: "(string \<Rightarrow> bool) \<Rightarrow> string \<Rightarrow> string \<Rightarrow> users \<Rightarrow> repo_error + user_row" where
  "user_findByIdOrThrow guid realmId i us =
     (case user_findById guid realmId i us of None \<Rightarrow> Inl (NotFoundError i) | Some u \<Rightarrow> Inr u)"

text \<open>The trigger \<open>users_not_valid_before\<close>: the time of a disablement, by the database's clock, only moves forward.\<close>

definition notValidBefore_trigger :: "ms \<Rightarrow> user_row \<Rightarrow> user_row \<Rightarrow> user_row" where
  "notValidBefore_trigger clock old new =
     (if ur_enabled old \<and> \<not> ur_enabled new
      then new\<lparr>ur_notValidBefore := Some (case ur_notValidBefore new of None \<Rightarrow> clock | Some n \<Rightarrow> max n clock)\<rparr>
      else new)"

record user_change =
  uc_enabled :: "bool option"
  uc_lastLoginAt :: "ms option option"

definition apply_change :: "user_change \<Rightarrow> user_row \<Rightarrow> user_row" where
  "apply_change c u =
     (let u1 = (case uc_enabled c of None \<Rightarrow> u | Some e \<Rightarrow> u\<lparr>ur_enabled := e\<rparr>)
      in case uc_lastLoginAt c of None \<Rightarrow> u1 | Some l \<Rightarrow> u1\<lparr>ur_lastLoginAt := l\<rparr>)"

definition user_update :: "(string \<Rightarrow> bool) \<Rightarrow> ms \<Rightarrow> string \<Rightarrow> string \<Rightarrow> user_change \<Rightarrow> users \<Rightarrow> repo_error + user_row \<times> users" where
  "user_update guid clock realmId i c us =
     (if \<not> guid i then Inl (NotFoundError i)
      else case update_where (userOfRealm realmId i) (\<lambda>u. notValidBefore_trigger clock u (apply_change c u)) us of
             ([], _) \<Rightarrow> Inl (NotFoundError i)
           | (u # _, us') \<Rightarrow> Inr (u, us'))"

definition updateLastLogin :: "(string \<Rightarrow> bool) \<Rightarrow> ms \<Rightarrow> string \<Rightarrow> string \<Rightarrow> users \<Rightarrow> repo_error + user_row \<times> users" where
  "updateLastLogin guid now realmId i us =
     (if \<not> guid i then Inl (NotFoundError i)
      else case update_where (userOfRealm realmId i) (\<lambda>u. u\<lparr>ur_lastLoginAt := Some now\<rparr>) us of
             ([], _) \<Rightarrow> Inl (NotFoundError i)
           | (u # _, us') \<Rightarrow> Inr (u, us'))"

definition user_delete :: "(string \<Rightarrow> bool) \<Rightarrow> string \<Rightarrow> string \<Rightarrow> users \<Rightarrow> bool \<times> users" where
  "user_delete guid realmId i us =
     (if \<not> guid i then (False, us)
      else let (gone, us') = delete_where (userOfRealm realmId i) us in (gone \<noteq> [], us'))"

subsection \<open>Whether an account still accepts a credential\<close>

definition NOT_VALID_BEFORE_MARGIN_MS :: ms where "NOT_VALID_BEFORE_MARGIN_MS = 1000"

datatype account_refusal = UserDisabled | IssuedBeforeDisablement

definition issuedBeforeDisablement :: "user_row \<Rightarrow> ms option \<Rightarrow> bool" where
  "issuedBeforeDisablement u issuedAt = (case ur_notValidBefore u of
      None \<Rightarrow> False
    | Some n \<Rightarrow> (case issuedAt of None \<Rightarrow> True | Some t \<Rightarrow> t \<le> n + NOT_VALID_BEFORE_MARGIN_MS))"

definition accountCredentialRefusal :: "user_row \<Rightarrow> ms option \<Rightarrow> account_refusal option" where
  "accountCredentialRefusal u issuedAt =
     (if \<not> ur_enabled u then Some UserDisabled
      else if issuedBeforeDisablement u issuedAt then Some IssuedBeforeDisablement
      else None)"

definition accessTokenIssuedAt :: "int option \<Rightarrow> ms option" where
  "accessTokenIssuedAt iat = map_option (\<lambda>s. s * 1000) iat"

lemma user_findById_Some:
  "user_findById guid realmId i us = Some u \<Longrightarrow> u \<in> set us \<and> ur_realmId u = realmId \<and> ur_id u = i \<and> guid i"
  by (auto simp: user_findById_def limit1_def select_where_def userOfRealm_def filter_eq_Cons_iff split: if_splits list.splits)

text \<open>Runs of the table: the times at which the account was disabled, newest first.\<close>

inductive user_run :: "(string \<Rightarrow> bool) \<Rightarrow> string \<Rightarrow> string \<Rightarrow> users \<Rightarrow> ms list \<Rightarrow> bool" for guid realm i where
  user_run_start: "unique_on (\<lambda>u. (ur_realmId u, ur_id u)) us \<Longrightarrow> user_run guid realm i us []"
| user_run_update: "user_run guid realm i us h \<Longrightarrow> user_findById guid realm i us = Some old \<Longrightarrow>
    user_update guid clock realm i c us = Inr (new, us') \<Longrightarrow>
    user_run guid realm i us' (if ur_enabled old \<and> \<not> ur_enabled new then clock # h else h)"
| user_run_login: "user_run guid realm i us h \<Longrightarrow> updateLastLogin guid now realm i us = Inr (u, us') \<Longrightarrow> user_run guid realm i us' h"
| user_run_other: "user_run guid realm i us h \<Longrightarrow> (realm', j) \<noteq> (realm, i) \<Longrightarrow>
    user_update guid clock realm' j c us = Inr (u, us') \<Longrightarrow> user_run guid realm i us' h"

definition stamped :: "string \<Rightarrow> string \<Rightarrow> users \<Rightarrow> ms list \<Rightarrow> bool" where
  "stamped realm i us h \<longleftrightarrow> unique_on (\<lambda>u. (ur_realmId u, ur_id u)) us
     \<and> (\<forall>u \<in> set us. userOfRealm realm i u \<longrightarrow> (\<forall>t \<in> set h. \<exists>n. ur_notValidBefore u = Some n \<and> t \<le> n))"

lemma apply_change_same [simp]:
  "ur_realmId (apply_change c u) = ur_realmId u" "ur_id (apply_change c u) = ur_id u"
  "ur_notValidBefore (apply_change c u) = ur_notValidBefore u"
  by (auto simp: apply_change_def Let_def split: option.splits)

lemma trigger_same [simp]:
  "ur_realmId (notValidBefore_trigger clock old new) = ur_realmId new" "ur_id (notValidBefore_trigger clock old new) = ur_id new"
  "ur_enabled (notValidBefore_trigger clock old new) = ur_enabled new"
  by (auto simp: notValidBefore_trigger_def)

lemma trigger_forward:
  "ur_notValidBefore new = Some n \<Longrightarrow> \<exists>n'. ur_notValidBefore (notValidBefore_trigger clock old new) = Some n' \<and> n \<le> n'"
  by (auto simp: notValidBefore_trigger_def)

lemma stamped_update:
  assumes "stamped realm i us h" and "\<And>u. (ur_realmId (f u), ur_id (f u)) = (ur_realmId u, ur_id u)"
    and "\<And>u. u \<in> set us \<Longrightarrow> P u \<Longrightarrow> userOfRealm realm i u \<Longrightarrow> \<forall>t \<in> set h'. \<exists>n. ur_notValidBefore (f u) = Some n \<and> t \<le> n"
    and "\<And>u. u \<in> set us \<Longrightarrow> \<not> P u \<Longrightarrow> userOfRealm realm i u \<Longrightarrow> set h' \<subseteq> set h"
  shows "stamped realm i (snd (update_where P f us)) h'"
  unfolding stamped_def
proof (intro conjI ballI impI)
  show "unique_on (\<lambda>u. (ur_realmId u, ur_id u)) (snd (update_where P f us))"
    using assms(1,2) by (intro unique_on_update) (auto simp: stamped_def)
  fix u' t assume u': "u' \<in> set (snd (update_where P f us))" "userOfRealm realm i u'" and t: "t \<in> set h'"
  obtain u where u: "u \<in> set us" "u' = (if P u then f u else u)" using u'(1) by (auto simp: update_where_def)
  have key: "userOfRealm realm i u" using u(2) u'(2) assms(2)[of u] by (auto simp: userOfRealm_def split: if_splits)
  show "\<exists>n. ur_notValidBefore u' = Some n \<and> t \<le> n"
    using assms(1) assms(3)[OF u(1) _ key] assms(4)[OF u(1) _ key] u key t by (cases "P u") (auto simp: stamped_def dest: subsetD)
qed

lemma user_run_stamped: "user_run guid realm i us h \<Longrightarrow> stamped realm i us h"
proof (induction rule: user_run.induct)
  case (user_run_start us)
  then show ?case by (simp add: stamped_def)
next
  case (user_run_update us h old clock c new us')
  let ?f = "\<lambda>u. notValidBefore_trigger clock u (apply_change c u)" and ?P = "userOfRealm realm i"
  obtain rest where us': "us' = snd (update_where ?P ?f us)" and rest: "map ?f (filter ?P us) = new # rest"
    using user_run_update.hyps(3) by (auto simp: user_update_def update_where_def split: if_splits list.splits)
  have new: "new \<in> set (map ?f (filter ?P us))" unfolding rest by simp
  have un: "unique_on (\<lambda>u. (ur_realmId u, ur_id u)) us" using user_run_update.IH by (simp add: stamped_def)
  have old: "old \<in> set us" "?P old" using user_findById_Some[OF user_run_update.hyps(2)] by (auto simp: userOfRealm_def)
  have only: "u = old" if "u \<in> set us" "?P u" for u
    using unique_on_same[OF un that(1) old(1)] that(2) old(2) by (simp add: userOfRealm_def)
  have nw: "new = ?f old" using new only by auto
  have "\<exists>n. ur_notValidBefore (?f old) = Some n \<and> t \<le> n" if "t \<in> set (if ur_enabled old \<and> \<not> ur_enabled new then clock # h else h)" for t
  proof (cases "t \<in> set h")
    case True
    then obtain n where "ur_notValidBefore old = Some n" "t \<le> n" using user_run_update.IH old by (auto simp: stamped_def)
    with trigger_forward[of "apply_change c old" n clock old] show ?thesis by auto
  next
    case False
    with that have "t = clock" "ur_enabled old" "\<not> ur_enabled new" by (auto split: if_splits)
    then show ?thesis using nw by (auto simp: notValidBefore_trigger_def split: option.splits)
  qed
  then show ?case unfolding us' using only
    by (intro stamped_update[OF user_run_update.IH]) auto
next
  case (user_run_login us h now u us')
  have "us' = snd (update_where (userOfRealm realm i) (\<lambda>u. u\<lparr>ur_lastLoginAt := Some now\<rparr>) us)"
    using user_run_login.hyps(2) by (auto simp: updateLastLogin_def update_where_def split: if_splits list.splits)
  then show ?case using user_run_login.IH
    by (simp only:, intro stamped_update[OF user_run_login.IH]) (auto simp: stamped_def)
next
  case (user_run_other us h realm' j clock c u us')
  have "us' = snd (update_where (userOfRealm realm' j) (\<lambda>u. notValidBefore_trigger clock u (apply_change c u)) us)"
    using user_run_other.hyps(3) by (auto simp: user_update_def update_where_def split: if_splits list.splits)
  then show ?case using user_run_other.hyps(2)
    by (simp only:, intro stamped_update[OF user_run_other.IH]) (auto simp: userOfRealm_def)
qed

subsection \<open>Properties\<close>

text \<open>
  C31. A credential does not come back with its account: once the account was disabled at a time, in
  every later state of the table (enabled and disabled again any number of times, signed in, other
  accounts changed), it refuses every credential issued up to a second after that time, and every
  credential with no issue time; a disabled account refuses every credential.
\<close>

theorem disabled_credential_never_returns:
  assumes "user_run guid realm i us h" and "disabledAt \<in> set h" and "user_findById guid realm i us = Some u"
    and "issuedAt = None \<or> (\<exists>t. issuedAt = Some t \<and> t \<le> disabledAt + 1000)"
  shows "accountCredentialRefusal u issuedAt \<noteq> None"
proof -
  have "u \<in> set us" "userOfRealm realm i u" using user_findById_Some[OF assms(3)] by (auto simp: userOfRealm_def)
  then obtain n where "ur_notValidBefore u = Some n" "disabledAt \<le> n"
    using user_run_stamped[OF assms(1)] assms(2) by (auto simp: stamped_def)
  with assms(4) show ?thesis
    by (auto simp: accountCredentialRefusal_def issuedBeforeDisablement_def NOT_VALID_BEFORE_MARGIN_MS_def)
qed

theorem disabled_credential_never_returns_witness:
  "\<exists>us u. user_run (\<lambda>_. True) ''r'' ''u'' us [50] \<and> user_findById (\<lambda>_. True) ''r'' ''u'' us = Some u \<and> ur_enabled u
     \<and> accountCredentialRefusal u (Some 900) \<noteq> None \<and> accountCredentialRefusal u (Some 2000) = None"
proof -
  let ?g = "\<lambda>_ :: string. True"
  let ?u = "\<lambda>e n. \<lparr>ur_realmId = ''r'', ur_id = ''u'', ur_enabled = e, ur_notValidBefore = n, ur_lastLoginAt = None\<rparr>"
  have s: "user_run ?g ''r'' ''u'' [?u True None] []" by (rule user_run_start) (simp add: unique_on_def)
  have find: "user_findById ?g ''r'' ''u'' [?u e n] = Some (?u e n)" for e n
    by (simp add: user_findById_def limit1_def select_where_def userOfRealm_def)
  have upd: "user_update ?g at ''r'' ''u'' \<lparr>uc_enabled = Some e', uc_lastLoginAt = None\<rparr> [?u e n]
      = Inr (notValidBefore_trigger at (?u e n) (?u e' n), [notValidBefore_trigger at (?u e n) (?u e' n)])" for at e e' n
    by (simp add: user_update_def update_where_def userOfRealm_def apply_change_def)
  from user_run_update[OF s find upd[of 50 False]] have "user_run ?g ''r'' ''u'' [?u False (Some 50)] [50]"
    by (simp add: notValidBefore_trigger_def)
  from user_run_update[OF this find upd[of 60 True]] have r: "user_run ?g ''r'' ''u'' [?u True (Some 50)] [50]"
    by (simp add: notValidBefore_trigger_def)
  have "accountCredentialRefusal (?u True (Some 50)) (Some 900) \<noteq> None"
    by (rule disabled_credential_never_returns[OF r _ find, where disabledAt = 50]) simp_all
  with r find show ?thesis
    by (intro exI[of _ "[?u True (Some 50)]"] exI[of _ "?u True (Some 50)"])
      (auto simp: accountCredentialRefusal_def issuedBeforeDisablement_def NOT_VALID_BEFORE_MARGIN_MS_def)
qed

end
