(* ===== verification/Totp.thy ===== *)
theory Totp
  imports Base32 Users
begin

text \<open>
  TOTP as a second factor: the codes (\<open>libs/server/sign-in-engine/src/lib/totp.ts\<close>) and the
  credential over \<open>user_credentials\<close> (\<open>libs/fastify/plugins/sign-in-engine/src/lib/totp.ts\<close>).
  HMAC-SHA-1, the cipher that seals a secret, the random bytes, the clock and the callbacks the
  auth server wires in are arguments. Strings are ASCII.
\<close>

subsection \<open>The codes\<close>

datatype totp_error =
    BadCounter
  | BadMac
  | NoSecretInCiphertext
  | ShortRandom
  | NotACiphertext
  | CipherFailed
  | RowNotATotp
  | RecordFailed

definition TOTP_DIGITS :: nat where "TOTP_DIGITS = 6"

definition TOTP_PERIOD_SECONDS :: int where "TOTP_PERIOD_SECONDS = 30"

definition TOTP_TOLERANCE_STEPS :: int where "TOTP_TOLERANCE_STEPS = 1"

definition TOTP_SECRET_BYTES :: nat where "TOTP_SECRET_BYTES = 20"

definition TOTP_SEALED_MAX_LENGTH :: nat where "TOTP_SEALED_MAX_LENGTH = 1024"

definition LABEL_PART_MAX :: nat where "LABEL_PART_MAX = 128"

definition BASE32_ALPHABET :: string where
  "BASE32_ALPHABET = ''ABCDEFGHIJKLMNOPQRSTUVWXYZ234567''"

definition base32Encode :: "byte list \<Rightarrow> string" where
  "base32Encode bytes = base32 BASE32_ALPHABET bytes"

definition is_digit :: "char \<Rightarrow> bool" where
  "is_digit c \<longleftrightarrow> c \<in> set ''0123456789''"

definition CODE_PATTERN :: "string \<Rightarrow> bool" where
  "CODE_PATTERN s \<longleftrightarrow> length s = 6 \<and> list_all is_digit s"

text \<open>\<open>Math.floor(nowMs / 1000 / 30)\<close> on whole milliseconds.\<close>

definition totpStep :: "ms \<Rightarrow> int" where
  "totpStep nowMs = nowMs div (1000 * TOTP_PERIOD_SECONDS)"

definition counter_bytes :: "int \<Rightarrow> byte list" where
  "counter_bytes n = map (\<lambda>i. word_of_int (drop_bit (8 * i) n)) (rev [0..<8])"

definition readUInt32BE :: "byte list \<Rightarrow> nat \<Rightarrow> nat option" where
  "readUInt32BE m i = (if i + 4 \<le> length m
     then Some (foldl (\<lambda>a b. a * 256 + unat b) 0 (take 4 (drop i m))) else None)"

definition padStart :: "nat \<Rightarrow> string \<Rightarrow> string" where
  "padStart n s = replicate (n - length s) (CHR ''0'') @ s"

definition hotp :: "(byte list \<Rightarrow> byte list \<Rightarrow> byte list) \<Rightarrow> byte list \<Rightarrow> int \<Rightarrow> totp_error + string" where
  "hotp hmac secret counter =
     (if \<not> isSafeInteger counter \<or> counter < 0 then Inl BadCounter
      else
        let mac = hmac secret (counter_bytes counter) in
        if mac = [] then Inl BadMac
        else case readUInt32BE mac (unat (last mac AND 0x0f)) of
               None \<Rightarrow> Inl BadMac
             | Some v \<Rightarrow> Inr (padStart TOTP_DIGITS (dec (v mod 2 ^ 31 mod 10 ^ TOTP_DIGITS))))"

definition totpCode :: "(byte list \<Rightarrow> byte list \<Rightarrow> byte list) \<Rightarrow> byte list \<Rightarrow> int \<Rightarrow> totp_error + string" where
  "totpCode hmac secret step = hotp hmac secret step"

text \<open>The loop over the window: every step is computed; the first match later than \<open>lastStep\<close> is kept.\<close>

fun matchLoop :: "(byte list \<Rightarrow> byte list \<Rightarrow> byte list) \<Rightarrow> byte list \<Rightarrow> string \<Rightarrow> int \<Rightarrow> int list \<Rightarrow> int option
    \<Rightarrow> totp_error + int option" where
  "matchLoop hmac secret presented lastStep [] matched = Inr matched"
| "matchLoop hmac secret presented lastStep (step # steps) matched =
     (if step < 0 then matchLoop hmac secret presented lastStep steps matched
      else case totpCode hmac secret step of
             Inl e \<Rightarrow> Inl e
           | Inr c \<Rightarrow> matchLoop hmac secret presented lastStep steps
               (if c = presented \<and> step > lastStep \<and> matched = None then Some step else matched))"

definition matchTotpCode :: "(byte list \<Rightarrow> byte list \<Rightarrow> byte list) \<Rightarrow> byte list \<Rightarrow> string \<Rightarrow> ms \<Rightarrow> int
    \<Rightarrow> totp_error + int option" where
  "matchTotpCode hmac secret code nowMs lastStep =
     (let presented = (if CODE_PATTERN code then code else ''000000''); now = totpStep nowMs in
      case matchLoop hmac secret presented lastStep [now - TOTP_TOLERANCE_STEPS..now + TOTP_TOLERANCE_STEPS] None of
        Inl e \<Rightarrow> Inl e
      | Inr matched \<Rightarrow> Inr (if CODE_PATTERN code then matched else None))"

definition uri_unreserved :: "char \<Rightarrow> bool" where
  "uri_unreserved c \<longleftrightarrow> c \<in> set ''ABCDEFGHIJKLMNOPQRSTUVWXYZabcdefghijklmnopqrstuvwxyz0123456789-_.!~*()'' \<or> c = CHR 0x27"

definition encodeURIComponent :: "string \<Rightarrow> string" where
  "encodeURIComponent s = concat (map (\<lambda>c. if uri_unreserved c then [c]
     else [CHR ''%'', ''0123456789ABCDEF'' ! (of_char c div 16), ''0123456789ABCDEF'' ! (of_char c mod 16)]) s)"

definition otpauthUri :: "string \<Rightarrow> string \<Rightarrow> string \<Rightarrow> string" where
  "otpauthUri secret issuer account =
     (let i = encodeURIComponent (take LABEL_PART_MAX issuer); a = encodeURIComponent (take LABEL_PART_MAX account)
      in ''otpauth://totp/'' @ i @ '':'' @ a @ ''?secret='' @ secret @ ''&issuer='' @ i
         @ ''&algorithm=SHA1&digits=6&period=30'')"

subsection \<open>The stored credential\<close>

record stored_totp =
  st_sealed :: string
  st_lastStep :: int
  st_disabled :: bool

definition storedOf :: "credential_row \<Rightarrow> stored_totp option" where
  "storedOf r = (case (cr_data r ''secret'', cr_data r ''last_step'') of
      (Some (JStr secret), Some (JNum lastStep)) \<Rightarrow>
        if secret = '''' \<or> length secret > TOTP_SEALED_MAX_LENGTH \<or> \<not> isSafeInteger lastStep \<or> lastStep < 0 then None
        else Some \<lparr>st_sealed = secret, st_lastStep = lastStep, st_disabled = (cr_disabledAt r \<noteq> None)\<rparr>
    | _ \<Rightarrow> None)"

definition totp_read :: "string \<Rightarrow> string \<Rightarrow> credentials \<Rightarrow> totp_error + stored_totp option" where
  "totp_read realmId userId t = (case findByRealmProviderSub realmId TOTP_PROVIDER_TYPE userId t of
      None \<Rightarrow> Inr None
    | Some r \<Rightarrow> if cr_realmId r \<noteq> realmId \<or> cr_userId r \<noteq> userId then Inr None
        else (case storedOf r of None \<Rightarrow> Inl RowNotATotp | Some s \<Rightarrow> Inr (Some s)))"

text \<open>
  \<open>passwordCredentialDataSchema\<close> and \<open>upstreamCredentialDataSchema\<close>
  (\<open>libs/server/federation/src/providers\<close>), as far as a document passes them.
\<close>

definition passwordDataVerified :: "jdata \<Rightarrow> bool" where
  "passwordDataVerified d \<longleftrightarrow>
     (case d ''password_hash'' of Some (JStr h) \<Rightarrow> h \<noteq> '''' | _ \<Rightarrow> False)
     \<and> (case d ''password_normalization'' of None \<Rightarrow> True | Some v \<Rightarrow> v = JStr ''nfc'')
     \<and> d ''email_verified'' = Some (JBool True)"

definition isUpstreamCredentialData :: "jdata \<Rightarrow> bool" where
  "isUpstreamCredentialData d \<longleftrightarrow> d ''kind'' = Some (JStr ''upstream'')"

definition upstreamDataVerified :: "jdata \<Rightarrow> bool" where
  "upstreamDataVerified d \<longleftrightarrow>
     (case d ''iss'' of None \<Rightarrow> True | Some (JStr i) \<Rightarrow> i \<noteq> '''' \<and> length i \<le> 2048 | _ \<Rightarrow> False)
     \<and> d ''verified'' = Some (JBool True)"

definition claimed :: "credential_row list \<Rightarrow> bool" where
  "claimed rs = list_all (\<lambda>r.
     if cr_providerType r = PASSWORD_PROVIDER_TYPE then passwordDataVerified (cr_data r)
     else if isUpstreamCredentialData (cr_data r) then upstreamDataVerified (cr_data r)
     else True) rs"

datatype totp_binding = Bound | BindingRefused string

text \<open>
  The binding's transaction: a throw of \<open>recorded\<close> rolls it back. \<open>newId\<close> is the id of a row the
  insert may add, \<open>recorded\<close> whether the record of a row's binding is written.
\<close>

definition totp_store_bind :: "(string \<Rightarrow> bool) \<Rightarrow> users \<Rightarrow> string \<Rightarrow> (string \<Rightarrow> bool) \<Rightarrow> string \<Rightarrow> string \<Rightarrow> string \<Rightarrow> int \<Rightarrow> credentials
    \<Rightarrow> totp_error + totp_binding \<times> credentials" where
  "totp_store_bind guid us newId recorded realmId userId sealed step t =
     (case user_findById guid realmId userId us of
        None \<Rightarrow> Inr (BindingRefused ''subject_mismatch'', t)
      | Some u \<Rightarrow>
          if \<not> ur_enabled u then Inr (BindingRefused ''account_disabled'', t)
          else if \<not> claimed (filter (\<lambda>r. cr_realmId r = realmId) (findAllByUserId userId t))
          then Inr (BindingRefused ''account_unclaimed'', t)
          else case upsertTotp newId realmId userId [''secret'' \<mapsto> JStr sealed, ''last_step'' \<mapsto> JNum step] t of
                 (None, t') \<Rightarrow> Inr (BindingRefused ''subject_mismatch'', t')
               | (Some r, t') \<Rightarrow> if recorded (cr_id r) then Inr (Bound, t') else Inl RecordFailed)"

subsection \<open>The service\<close>

text \<open>\<open>cipher_open\<close> opens a ciphertext for an account; \<open>None\<close> is a throw.\<close>

definition openSecret :: "(string \<Rightarrow> string \<Rightarrow> string \<Rightarrow> byte list option) \<Rightarrow> string \<Rightarrow> string \<Rightarrow> string
    \<Rightarrow> totp_error + byte list" where
  "openSecret cipher_open realmId userId sealed = (case cipher_open realmId userId sealed of
      None \<Rightarrow> Inl CipherFailed
    | Some secret \<Rightarrow> if length secret \<noteq> TOTP_SECRET_BYTES then Inl NoSecretInCiphertext else Inr secret)"

datatype totp_verification = TotpAccepted | TotpRefused

definition totp_verify :: "(byte list \<Rightarrow> byte list \<Rightarrow> byte list) \<Rightarrow> (string \<Rightarrow> string \<Rightarrow> string \<Rightarrow> byte list option)
    \<Rightarrow> ms \<Rightarrow> string \<Rightarrow> string \<Rightarrow> string \<Rightarrow> credentials \<Rightarrow> totp_error + totp_verification \<times> credentials" where
  "totp_verify hmac cipher_open now realmId userId code t =
     (case totp_read realmId userId t of
        Inl e \<Rightarrow> Inl e
      | Inr None \<Rightarrow> Inr (TotpRefused, t)
      | Inr (Some s) \<Rightarrow>
          if st_disabled s then Inr (TotpRefused, t)
          else case openSecret cipher_open realmId userId (st_sealed s) of
            Inl e \<Rightarrow> Inl e
          | Inr secret \<Rightarrow>
              (case matchTotpCode hmac secret code now (st_lastStep s) of
                 Inl e \<Rightarrow> Inl e
               | Inr None \<Rightarrow> Inr (TotpRefused, t)
               | Inr (Some step) \<Rightarrow>
                   let (took, t') = acceptTotpStep realmId userId step t
                   in Inr (if took then TotpAccepted else TotpRefused, t')))"

record totp_display =
  td_secret :: string
  td_otpauthUri :: string

definition displayOf :: "string \<Rightarrow> string \<Rightarrow> byte list \<Rightarrow> totp_display" where
  "displayOf issuer identifier secret =
     (let s = base32Encode secret in \<lparr>td_secret = s, td_otpauthUri = otpauthUri s issuer identifier\<rparr>)"

definition checkedSealed :: "string option \<Rightarrow> totp_error + string" where
  "checkedSealed sealed = (case sealed of
      None \<Rightarrow> Inl CipherFailed
    | Some s \<Rightarrow> if s = '''' \<or> length s > TOTP_SEALED_MAX_LENGTH then Inl NotACiphertext else Inr s)"

definition totp_start :: "(string \<Rightarrow> string \<Rightarrow> byte list \<Rightarrow> string option) \<Rightarrow> byte list \<Rightarrow> string \<Rightarrow> string \<Rightarrow> string \<Rightarrow> string
    \<Rightarrow> totp_error + string \<times> totp_display" where
  "totp_start cipher_seal drawn issuer realmId userId identifier =
     (if length drawn \<noteq> TOTP_SECRET_BYTES then Inl ShortRandom
      else case checkedSealed (cipher_seal realmId userId drawn) of
             Inl e \<Rightarrow> Inl e
           | Inr sealed \<Rightarrow> Inr (sealed, displayOf issuer identifier drawn))"

definition totp_showAgain :: "(string \<Rightarrow> string \<Rightarrow> string \<Rightarrow> byte list option) \<Rightarrow> string \<Rightarrow> string \<Rightarrow> string \<Rightarrow> string \<Rightarrow> string
    \<Rightarrow> totp_error + totp_display" where
  "totp_showAgain cipher_open issuer realmId userId identifier sealed =
     (case openSecret cipher_open realmId userId sealed of
        Inl e \<Rightarrow> Inl e
      | Inr secret \<Rightarrow> Inr (displayOf issuer identifier secret))"

definition totp_check :: "(byte list \<Rightarrow> byte list \<Rightarrow> byte list) \<Rightarrow> (string \<Rightarrow> string \<Rightarrow> string \<Rightarrow> byte list option)
    \<Rightarrow> ms \<Rightarrow> string \<Rightarrow> string \<Rightarrow> string \<Rightarrow> string \<Rightarrow> totp_error + int option" where
  "totp_check hmac cipher_open now realmId userId sealed code =
     (case openSecret cipher_open realmId userId sealed of
        Inl e \<Rightarrow> Inl e
      | Inr secret \<Rightarrow> matchTotpCode hmac secret code now (- 1))"

text \<open>The notices a call sends are listed; a notice that fails is reported and changes nothing.\<close>

datatype totp_notice = NoticeBound | NoticeDisabled

definition totp_bind :: "(string \<Rightarrow> string \<Rightarrow> string \<Rightarrow> byte list option) \<Rightarrow> (string \<Rightarrow> bool) \<Rightarrow> users \<Rightarrow> string \<Rightarrow> (string \<Rightarrow> bool)
    \<Rightarrow> string \<Rightarrow> string \<Rightarrow> string \<Rightarrow> int \<Rightarrow> credentials \<Rightarrow> totp_error + totp_binding \<times> totp_notice list \<times> credentials" where
  "totp_bind cipher_open guid us newId recorded realmId userId sealed step t =
     (case openSecret cipher_open realmId userId sealed of
        Inl e \<Rightarrow> Inl e
      | Inr _ \<Rightarrow>
          (case totp_store_bind guid us newId recorded realmId userId sealed step t of
             Inl e \<Rightarrow> Inl e
           | Inr (b, t') \<Rightarrow> Inr (b, (if b = Bound then [NoticeBound] else []), t')))"

text \<open>The hard action: \<open>armed\<close> is \<open>None\<close> when the question throws, which is reported and disables nothing.\<close>

definition totp_ceilingReached :: "bool option \<Rightarrow> int \<Rightarrow> string \<Rightarrow> string \<Rightarrow> credentials \<Rightarrow> totp_notice list \<times> credentials" where
  "totp_ceilingReached armed now realmId userId t =
     (if armed \<noteq> Some True then ([], t)
      else case setDisabledAt realmId TOTP_PROVIDER_TYPE userId now t of
             (None, t') \<Rightarrow> ([], t')
           | (Some _, t') \<Rightarrow> ([NoticeDisabled], t'))"

subsection \<open>What a code is\<close>

lemma alphabet32_upper: "alphabet32 BASE32_ALPHABET"
  by (simp add: alphabet32_def BASE32_ALPHABET_def)

lemma digit_chars: "\<forall>d < 10. is_digit (digit_char d)"
proof -
  have "list_all (\<lambda>d. is_digit (digit_char d)) [0..<10]" by code_simp
  then show ?thesis by (simp add: list_all_iff)
qed

lemma dec_all_digits: "list_all is_digit (dec n)"
  using dec_digits[of n] digit_chars by (fastforce simp: list_all_iff)

lemma length_dec: "n < 10 ^ k \<Longrightarrow> 0 < k \<Longrightarrow> length (dec n) \<le> k"
proof (induction k arbitrary: n)
  case (Suc k)
  show ?case
  proof (cases "n < 10")
    case True
    then show ?thesis by (simp add: dec.simps[of n])
  next
    case False
    with Suc.prems have "n div 10 < 10 ^ k" by (simp add: less_mult_imp_div_less mult.commute)
    moreover have "0 < k" using False Suc.prems by (cases k) auto
    ultimately show ?thesis using Suc.IH[of "n div 10"] False by (simp add: dec.simps[of n])
  qed
qed simp

lemma padStart_code: "n < 10 ^ 6 \<Longrightarrow> CODE_PATTERN (padStart 6 (dec n))"
proof -
  assume "n < 10 ^ 6"
  then have l: "length (dec n) \<le> 6" by (rule length_dec) simp
  have "is_digit (CHR ''0'')" by (simp add: is_digit_def)
  then have "list_all is_digit (replicate (6 - length (dec n)) (CHR ''0'') @ dec n)"
    using dec_all_digits[of n] by (auto simp: list_all_iff)
  with l show ?thesis by (simp add: CODE_PATTERN_def padStart_def)
qed

definition hmac_sha1 :: "(byte list \<Rightarrow> byte list \<Rightarrow> byte list) \<Rightarrow> bool" where
  "hmac_sha1 hmac \<longleftrightarrow> (\<forall>k m. length (hmac k m) = 20)"

lemma unat_and_15: "unat (b AND 0x0f :: byte) < 16"
proof -
  have "b AND 0x0f = take_bit 4 b" by (simp add: take_bit_eq_mask mask_eq_exp_minus_1)
  then show ?thesis using take_bit_nat_less_exp[of 4 "unat b"] by (simp add: unsigned_take_bit_eq)
qed

lemma hotp_total:
  assumes "hmac_sha1 hmac" and "isSafeInteger counter" and "0 \<le> counter"
  shows "\<exists>c. hotp hmac secret counter = Inr c \<and> CODE_PATTERN c"
proof -
  let ?mac = "hmac secret (counter_bytes counter)"
  have l: "length ?mac = 20" using assms(1) by (simp add: hmac_sha1_def)
  then have "?mac \<noteq> []" by auto
  moreover obtain v where "readUInt32BE ?mac (unat (last ?mac AND 0x0f)) = Some v"
    using l unat_and_15[of "last ?mac"] by (auto simp: readUInt32BE_def)
  ultimately show ?thesis
    using assms(2,3) padStart_code[of "v mod 2 ^ 31 mod 10 ^ 6"] by (simp add: hotp_def Let_def TOTP_DIGITS_def)
qed

definition code_at :: "(byte list \<Rightarrow> byte list \<Rightarrow> byte list) \<Rightarrow> byte list \<Rightarrow> string \<Rightarrow> int \<Rightarrow> int \<Rightarrow> bool" where
  "code_at hmac secret code lastStep s \<longleftrightarrow> 0 \<le> s \<and> lastStep < s \<and> totpCode hmac secret s = Inr code"

lemma matchLoop_find:
  assumes "hmac_sha1 hmac" and "\<forall>s \<in> set steps. isSafeInteger s"
  shows "matchLoop hmac secret code lastStep steps matched
    = Inr (case matched of Some s \<Rightarrow> Some s | None \<Rightarrow> find (code_at hmac secret code lastStep) steps)"
  using assms(2)
proof (induction steps arbitrary: matched)
  case (Cons s steps)
  show ?case
  proof (cases "s < 0")
    case True
    with Cons show ?thesis by (simp add: code_at_def split: option.splits)
  next
    case False
    obtain c where c: "totpCode hmac secret s = Inr c"
      using hotp_total[OF assms(1), of s secret] Cons.prems False by (auto simp: totpCode_def)
    with False Cons show ?thesis by (auto simp: code_at_def split: option.splits)
  qed
qed (simp split: option.splits)

lemma matchTotpCode_find:
  assumes "hmac_sha1 hmac" and "isSafeInteger (totpStep now - 1)" and "isSafeInteger (totpStep now + 1)"
  shows "matchTotpCode hmac secret code now lastStep
    = Inr (if CODE_PATTERN code then find (code_at hmac secret code lastStep) [totpStep now - 1..totpStep now + 1] else None)"
proof -
  have "\<forall>s \<in> set [totpStep now - 1..totpStep now + 1]. isSafeInteger s"
    using assms(2,3) by (auto simp: isSafeInteger_def)
  from matchLoop_find[OF assms(1) this] show ?thesis
    by (simp add: matchTotpCode_def Let_def TOTP_TOLERANCE_STEPS_def)
qed

lemma find_upto_least:
  "find P [a..b] = Some s \<longleftrightarrow> a \<le> s \<and> s \<le> b \<and> P s \<and> (\<forall>u. a \<le> u \<and> u < s \<longrightarrow> \<not> P u)"
proof (induction "nat (b - a + 1)" arbitrary: a)
  case 0
  then show ?case by simp
next
  case (Suc n)
  then have le: "a \<le> b" by simp
  have ih: "find P [a + 1..b] = Some s \<longleftrightarrow> a + 1 \<le> s \<and> s \<le> b \<and> P s \<and> (\<forall>u. a + 1 \<le> u \<and> u < s \<longrightarrow> \<not> P u)"
    using Suc by (intro Suc.hyps(1)) simp
  show ?case
  proof (cases "P a")
    case True
    with le show ?thesis by (subst upto_rec1[OF le]) (auto simp: not_less dest: spec[of _ a])
  next
    case False
    have "(\<forall>u. a + 1 \<le> u \<and> u < s \<longrightarrow> \<not> P u) \<longleftrightarrow> (\<forall>u. a \<le> u \<and> u < s \<longrightarrow> \<not> P u)"
      using False by (auto, metis add1_zle_eq order_le_less)
    moreover have "P s \<Longrightarrow> a + 1 \<le> s \<longleftrightarrow> a \<le> s" using False by (cases "s = a") auto
    ultimately show ?thesis using False ih by (subst upto_rec1[OF le]) auto
  qed
qed

subsection \<open>A step is taken once\<close>

text \<open>
  Runs of the table, with the steps the account's TOTP accepted since it was last bound, newest
  first. Statements of concurrent rounds interleave freely: \<open>totp_run_accept\<close> takes any step at
  any time, whatever a round read before.
\<close>

inductive totp_run :: "string \<Rightarrow> string \<Rightarrow> credentials \<Rightarrow> int list \<Rightarrow> bool" for realm user where
  totp_run_start: "unique_on cred_key t \<Longrightarrow> totp_run realm user t []"
| totp_run_accept: "totp_run realm user t h \<Longrightarrow> acceptTotpStep realm user step t = (took, t') \<Longrightarrow>
    totp_run realm user t' (if took then step # h else h)"
| totp_run_bind: "totp_run realm user t h \<Longrightarrow>
    upsertTotp newId realm user [''secret'' \<mapsto> JStr sealed, ''last_step'' \<mapsto> JNum step] t = (Some r, t') \<Longrightarrow>
    totp_run realm user t' [step]"
| totp_run_disable: "totp_run realm user t h \<Longrightarrow> setDisabledAt realm' p s at t = (x, t') \<Longrightarrow> totp_run realm user t' h"
| totp_run_enable: "totp_run realm user t h \<Longrightarrow> clearDisabledAt realm' p s t = (x, t') \<Longrightarrow> totp_run realm user t' h"
| totp_run_password: "totp_run realm user t h \<Longrightarrow> updatePassword realm' i d e t = (x, t') \<Longrightarrow> totp_run realm user t' h"
| totp_run_verified: "totp_run realm user t h \<Longrightarrow> setEmailVerified i t = Inr (x, t') \<Longrightarrow> totp_run realm user t' h"
| totp_run_create: "totp_run realm user t h \<Longrightarrow> cred_key r \<noteq> (realm, TOTP_PROVIDER_TYPE, user) \<Longrightarrow>
    create_credential r t = Inr (x, t') \<Longrightarrow> totp_run realm user t' h"
| totp_run_delete: "totp_run realm user t h \<Longrightarrow> cred_deleteById realm' i t = (x, t') \<Longrightarrow> totp_run realm user t' h"

definition last_at_least :: "int \<Rightarrow> credential_row \<Rightarrow> bool" where
  "last_at_least n r \<longleftrightarrow> (\<exists>m. cr_data r ''last_step'' = Some (JNum m) \<and> n \<le> m)"

definition totp_inv :: "string \<Rightarrow> string \<Rightarrow> credentials \<Rightarrow> int list \<Rightarrow> bool" where
  "totp_inv realm user t h \<longleftrightarrow> unique_on cred_key t \<and> sorted_wrt (>) h
     \<and> (\<forall>r \<in> set t. cred_key r = (realm, TOTP_PROVIDER_TYPE, user) \<longrightarrow> h \<noteq> [] \<longrightarrow> last_at_least (hd h) r)"

lemma totp_inv_update:
  assumes "totp_inv realm user t h" and "update_where P f t = (rs, t')"
    and "\<And>r. cred_key (f r) = cred_key r"
    and "\<And>r. P r \<Longrightarrow> cred_key r = (realm, TOTP_PROVIDER_TYPE, user) \<Longrightarrow> cr_data (f r) ''last_step'' = cr_data r ''last_step''"
  shows "totp_inv realm user t' h"
proof -
  have "last_at_least (hd h) (f r)" if "r \<in> set t" "P r" "cred_key (f r) = (realm, TOTP_PROVIDER_TYPE, user)" "h \<noteq> []" for r
    using assms(1,3,4) that by (auto simp: totp_inv_def last_at_least_def)
  moreover have "unique_on cred_key t'" using assms(1-3) update_unique by (auto simp: totp_inv_def)
  ultimately show ?thesis using assms(1,2) by (auto simp: totp_inv_def update_where_def)
qed

lemma merge_password_other: "k \<notin> set PASSWORD_DATA_KEYS \<Longrightarrow> new k = None \<Longrightarrow> merge_password d new k = d k"
  by (simp add: merge_password_def)

lemma totp_inv_accept:
  assumes inv: "totp_inv realm user t h" and acc: "acceptTotpStep realm user step t = (took, t')"
  shows "totp_inv realm user t' (if took then step # h else h)"
proof -
  let ?key = "(realm, TOTP_PROVIDER_TYPE, user)"
  let ?f = "\<lambda>r. r\<lparr>cr_data := (cr_data r)(''last_step'' \<mapsto> JNum step)\<rparr>"
  have u: "unique_on cred_key t" using inv by (simp add: totp_inv_def)
  have P: "takes_step realm user step r \<Longrightarrow> cred_key r = ?key" for r by (simp add: takes_step_def cred_key_def)
  consider (none) "filter (takes_step realm user step) t = []" | (one) r where "r \<in> set t" "takes_step realm user step r"
      "filter (takes_step realm user step) t = [r]"
    using unique_on_filter[OF u P] by blast
  then show ?thesis
  proof cases
    case none
    then have "took = False" "t' = t" using acc by (auto simp: acceptTotpStep_def update_where_none split: if_splits)
    with inv show ?thesis by simp
  next
    case one
    show ?thesis
    proof (cases took)
      case False
      then have "t' = t" using acc one(3) by (auto simp: acceptTotpStep_def update_where_def split: if_splits)
      with inv False show ?thesis by simp
    next
      case True
      then have t': "t' = map (\<lambda>r. if takes_step realm user step r then ?f r else r) t"
        using acc by (auto simp: acceptTotpStep_def update_where_def Let_def split: if_splits)
      have lt: "h = [] \<or> hd h < step" using inv one(1,2) P[OF one(2)] by (auto simp: totp_inv_def last_at_least_def takes_step_def split: option.splits json.splits)
      moreover have "sorted_wrt (>) (step # h)"
        using inv lt by (cases h) (auto simp: totp_inv_def)
      moreover have "last_at_least step r'" if in_t': "r' \<in> set t'" and key: "cred_key r' = ?key" for r'
      proof -
        obtain q where q: "q \<in> set t" "r' = (if takes_step realm user step q then ?f q else q)" using in_t' unfolding t' set_map by blast
        then have "cred_key q = ?key" using key by (auto split: if_splits)
        then have "q = r" using unique_on_same[OF u q(1) one(1)] P[OF one(2)] by simp
        then show ?thesis using q(2) one(2) by (simp add: last_at_least_def)
      qed
      moreover have "unique_on cred_key t'" by (rule unique_ops(7)[OF u acc])
      ultimately show ?thesis using True by (auto simp: totp_inv_def)
    qed
  qed
qed

lemma acceptTotpStep_refused:
  assumes "unique_on cred_key t" and "acceptTotpStep realm user step t = (False, t')"
  shows "t' = t"
proof -
  have "filter (takes_step realm user step) t = [] \<or> (\<exists>r \<in> set t. takes_step realm user step r \<and> filter (takes_step realm user step) t = [r])"
    by (rule unique_on_filter[OF assms(1), where k = "(realm, TOTP_PROVIDER_TYPE, user)"]) (simp add: takes_step_def cred_key_def)
  with assms(2) show ?thesis
    by (auto simp: acceptTotpStep_def update_where_none Let_def split_beta split: if_splits)
      (simp add: update_where_def)
qed

lemma totp_inv_bind:
  assumes inv: "totp_inv realm user t h"
    and b: "upsertTotp newId realm user [''secret'' \<mapsto> JStr sealed, ''last_step'' \<mapsto> JNum step] t = (Some r, t')"
  shows "totp_inv realm user t' [step]"
proof -
  let ?key = "(realm, TOTP_PROVIDER_TYPE, user)" and ?d = "[''secret'' \<mapsto> JStr sealed, ''last_step'' \<mapsto> JNum step]"
  have u: "unique_on cred_key t" using inv by (simp add: totp_inv_def)
  have "last_at_least step r'" if r': "r' \<in> set t'" "cred_key r' = ?key" for r'
  proof (cases "?key \<in> set (map cred_key t)")
    case True
    let ?P = "\<lambda>r. cred_key r = ?key \<and> cr_userId r = user"
    from b True have ne: "filter ?P t \<noteq> []" and t': "t' = map (\<lambda>r. if ?P r then r\<lparr>cr_data := ?d, cr_disabledAt := None\<rparr> else r) t"
      by (auto simp: upsertTotp_def Let_def update_where_def limit1_def split: if_splits list.splits)
    from ne obtain q where q: "q \<in> set t" "?P q" by (auto simp: filter_empty_conv)
    from r' t' obtain x where x: "x \<in> set t" "r' = (if ?P x then x\<lparr>cr_data := ?d, cr_disabledAt := None\<rparr> else x)" by auto
    then have "cred_key x = ?key" using r'(2) by (auto split: if_splits)
    then have "x = q" using unique_on_same[OF u x(1) q(1)] q(2) by simp
    with x(2) q(2) show ?thesis by (simp add: last_at_least_def)
  next
    case False
    then have "\<forall>q \<in> set t. cred_key q \<noteq> ?key" by force
    with False b r' show ?thesis by (auto simp: upsertTotp_def Let_def last_at_least_def)
  qed
  with unique_ops(8)[OF u b] show ?thesis by (simp add: totp_inv_def)
qed

lemma totp_run_inv: "totp_run realm user t h \<Longrightarrow> totp_inv realm user t h"
proof (induction rule: totp_run.induct)
  case (totp_run_start t)
  then show ?case by (simp add: totp_inv_def)
next
  case (totp_run_accept t h step took t')
  then show ?case by (intro totp_inv_accept)
next
  case (totp_run_bind t h newId sealed step r t')
  then show ?case by (intro totp_inv_bind)
next
  case (totp_run_disable t h realm' p s at x t')
  then show ?case
    by (auto simp: setDisabledAt_def Let_def split_beta prod_eq_iff elim: totp_inv_update[OF _ surjective_pairing])
next
  case (totp_run_enable t h realm' p s x t')
  then show ?case
    by (auto simp: clearDisabledAt_def Let_def split_beta prod_eq_iff elim: totp_inv_update[OF _ surjective_pairing])
next
  case (totp_run_password t h realm' i d e x t')
  have "t' = snd (update_where (\<lambda>r. cr_realmId r = realm' \<and> cr_id r = i \<and> cr_providerType r = PASSWORD_PROVIDER_TYPE
           \<and> (case e of None \<Rightarrow> True | Some h \<Rightarrow> cr_data r ''password_hash'' = Some (JStr h)))
        (\<lambda>r. r\<lparr>cr_data := merge_password (cr_data r) d, cr_disabledAt := None\<rparr>) t)"
    using totp_run_password.hyps(2) by (auto simp: updatePassword_def split_beta)
  then show ?case
    by (simp only:, intro totp_inv_update[OF totp_run_password.IH surjective_pairing])
      (auto simp: cred_key_def TOTP_PROVIDER_TYPE_def PASSWORD_PROVIDER_TYPE_def)
next
  case (totp_run_verified t h i x t')
  have "t' = snd (update_where (\<lambda>r. cr_id r = i) (\<lambda>r. r\<lparr>cr_data := (cr_data r)(''email_verified'' \<mapsto> JBool True)\<rparr>) t)"
    using totp_run_verified.hyps(2) by (auto simp: setEmailVerified_def split: prod.splits list.splits)
  then show ?case using totp_inv_update[OF totp_run_verified.IH surjective_pairing] by simp
next
  case (totp_run_create t h r x t')
  then have "unique_on cred_key t'" using unique_ops(1) by (auto simp: totp_inv_def)
  with totp_run_create show ?case by (auto simp: totp_inv_def create_credential_def split: if_splits)
next
  case (totp_run_delete t h realm' i x t')
  then have "unique_on cred_key t'" using unique_ops(9) by (auto simp: totp_inv_def)
  with totp_run_delete show ?case by (auto simp: totp_inv_def cred_deleteById_def delete_where_def)
qed

subsection \<open>Properties\<close>


definition one_totp :: credentials where
  "one_totp = [\<lparr>cr_id = ''1'', cr_userId = ''u'', cr_realmId = ''r'', cr_providerType = ''totp'', cr_externalSub = ''u'',
     cr_data = [''secret'' \<mapsto> JStr ''x'', ''last_step'' \<mapsto> JNum 3], cr_disabledAt = None\<rparr>]"


text \<open>
  C26. The match is exact: for a well-formed code and a clock whose steps are safe integers, the
  matcher returns the earliest step within one of the current step that is later than the last
  accepted one and whose code it is, and nothing when there is none; it never fails.
\<close>

theorem match_is_earliest_fresh_step:
  assumes "hmac_sha1 hmac" and "0 \<le> now" and "now \<le> MAX_SAFE_INTEGER"
  shows "\<exists>m. matchTotpCode hmac secret code now lastStep = Inr m
    \<and> (\<forall>s. m = Some s \<longleftrightarrow> CODE_PATTERN code \<and> now div 30000 - 1 \<le> s \<and> s \<le> now div 30000 + 1
        \<and> 0 \<le> s \<and> lastStep < s \<and> hotp hmac secret s = Inr code
        \<and> (\<forall>u. now div 30000 - 1 \<le> u \<and> u < s \<and> 0 \<le> u \<and> lastStep < u \<longrightarrow> hotp hmac secret u \<noteq> Inr code))"
proof -
  have st: "totpStep now = now div 30000" by (simp add: totpStep_def TOTP_PERIOD_SECONDS_def)
  have "now div 30000 \<le> 300239975158033" using assms(3) by (simp add: MAX_SAFE_INTEGER_def)
  moreover have "0 \<le> now div 30000" using assms(2) by simp
  ultimately have "isSafeInteger (totpStep now - 1)" "isSafeInteger (totpStep now + 1)"
    by (simp_all add: st isSafeInteger_def MAX_SAFE_INTEGER_def)
  from matchTotpCode_find[OF assms(1) this, of secret code lastStep]
  show ?thesis
    by (auto simp: find_upto_least code_at_def totpCode_def st)
qed

lemma hotp_zeros: "0 \<le> n \<Longrightarrow> isSafeInteger n \<Longrightarrow> hotp (\<lambda>k m. replicate 20 0) secret n = Inr ''000000''"
proof -
  have "foldl (\<lambda>a b. a * 256 + unat b) 0 (replicate n (0 :: byte)) = 0" for n by (induction n) simp_all
  then have "readUInt32BE (replicate 20 0) 0 = Some 0" by (simp add: readUInt32BE_def)
  moreover have "padStart 6 (dec 0) = ''000000''" by code_simp
  moreover assume "0 \<le> n" "isSafeInteger n"
  ultimately show ?thesis by (simp add: hotp_def Let_def TOTP_DIGITS_def)
qed

theorem match_is_earliest_fresh_step_witness:
  "hmac_sha1 (\<lambda>k m. replicate 20 0) \<and> (\<exists>m. matchTotpCode (\<lambda>k m. replicate 20 0) [] ''000000'' 90000 2 = Inr m \<and> m = Some 3)"
proof -
  let ?h = "\<lambda>k m :: byte list. replicate 20 (0 :: byte)"
  have h: "hmac_sha1 ?h" by (simp add: hmac_sha1_def)
  have code: "CODE_PATTERN ''000000''" by (simp add: CODE_PATTERN_def is_digit_def)
  have b: "(0 :: int) \<le> 90000" "90000 \<le> MAX_SAFE_INTEGER" by (simp_all add: MAX_SAFE_INTEGER_def)
  obtain m where m: "matchTotpCode ?h [] ''000000'' 90000 2 = Inr m"
    and iff: "\<And>s. m = Some s \<longleftrightarrow> CODE_PATTERN ''000000'' \<and> 90000 div 30000 - 1 \<le> s \<and> s \<le> 90000 div 30000 + 1
        \<and> 0 \<le> s \<and> 2 < s \<and> hotp ?h [] s = Inr ''000000''
        \<and> (\<forall>u. 90000 div 30000 - 1 \<le> u \<and> u < s \<and> 0 \<le> u \<and> 2 < u \<longrightarrow> hotp ?h [] u \<noteq> Inr ''000000'')"
    using match_is_earliest_fresh_step[OF h b, of "[]" "''000000''" 2] by blast
  have "m = Some 3" using iff[of 3] code hotp_zeros[of 3] by (auto simp: isSafeInteger_def MAX_SAFE_INTEGER_def)
  with m h show ?thesis by blast
qed

text \<open>
  C27. A verification that accepts read an enabled TOTP of the account whose ciphertext opened to a
  20-byte secret, matched the code within one step of the clock, later than the last accepted
  step, and left that step in the row; anything else changes no row.
\<close>

theorem verify_accepts_fresh_code_only:
  assumes "unique_on cred_key t" and "totp_verify hmac cipher_open now realm user code t = Inr (v, t')"
  shows "(v = TotpAccepted \<longrightarrow> (\<exists>s secret step r. totp_read realm user t = Inr (Some s) \<and> \<not> st_disabled s
      \<and> cipher_open realm user (st_sealed s) = Some secret \<and> length secret = 20
      \<and> matchTotpCode hmac secret code now (st_lastStep s) = Inr (Some step) \<and> st_lastStep s < step
      \<and> r \<in> set t' \<and> cred_key r = (realm, TOTP_PROVIDER_TYPE, user) \<and> cr_data r ''last_step'' = Some (JNum step)))
    \<and> (v = TotpRefused \<longrightarrow> t' = t)"
proof (cases v)
  case TotpRefused
  have "t' = t"
  proof -
    note acceptTotpStep_refused[OF assms(1)]
    with assms(2) TotpRefused show ?thesis
      by (auto simp: totp_verify_def split: sum.splits option.splits if_splits prod.splits)
  qed
  with TotpRefused show ?thesis by simp
next
  case TotpAccepted
  from assms(2) TotpAccepted obtain s secret step where rd: "totp_read realm user t = Inr (Some s)" "\<not> st_disabled s"
    and op: "openSecret cipher_open realm user (st_sealed s) = Inr secret"
    and mt: "matchTotpCode hmac secret code now (st_lastStep s) = Inr (Some step)"
    and ac: "acceptTotpStep realm user step t = (True, t')"
    by (auto simp: totp_verify_def split: sum.splits option.splits if_splits prod.splits)
  have sec: "cipher_open realm user (st_sealed s) = Some secret" "length secret = 20"
    using op by (auto simp: openSecret_def TOTP_SECRET_BYTES_def split: option.splits if_splits)
  let ?f = "\<lambda>r. r\<lparr>cr_data := (cr_data r)(''last_step'' \<mapsto> JNum step)\<rparr>"
  from ac have one: "length (filter (takes_step realm user step) t) = 1"
    and t': "t' = map (\<lambda>r. if takes_step realm user step r then ?f r else r) t"
    by (auto simp: acceptTotpStep_def update_where_def Let_def split: if_splits)
  from one obtain q where "filter (takes_step realm user step) t = [q]" by (auto simp: length_Suc_conv)
  then have "q \<in> set (filter (takes_step realm user step) t)" by simp
  then have qin: "q \<in> set t" "takes_step realm user step q" by simp_all
  then have "?f q \<in> set t'" unfolding t' set_map by (intro image_eqI[of _ _ q]) simp_all
  note q = qin this
  have key: "cred_key q = (realm, TOTP_PROVIDER_TYPE, user)" using q(2) by (simp add: takes_step_def cred_key_def)
  have "st_lastStep s < step"
  proof -
    from rd(1) obtain r where "r \<in> set t" "cred_key r = (realm, TOTP_PROVIDER_TYPE, user)" "storedOf r = Some s"
      by (auto simp: totp_read_def findByRealmProviderSub_def select_where_def limit1_def cred_key_def filter_eq_Cons_iff
          split: option.splits list.splits if_splits)
    moreover then have "r = q" using unique_on_same[OF assms(1) _ q(1)] key by simp
    ultimately show ?thesis using q(2) by (auto simp: storedOf_def takes_step_def split: option.splits json.splits if_splits)
  qed
  moreover have "cred_key (?f q) = (realm, TOTP_PROVIDER_TYPE, user)" using key by simp
  moreover have "cr_data (?f q) ''last_step'' = Some (JNum step)" by simp
  ultimately show ?thesis using TotpAccepted rd sec mt q(3) by blast
qed

theorem verify_accepts_fresh_code_only_witness:
  "\<exists>t'. totp_verify (\<lambda>k m. replicate 20 0) (\<lambda>_ _ _. Some (replicate 20 0)) 150000 ''r'' ''u'' ''000000'' one_totp = Inr (TotpAccepted, t')
     \<and> (\<exists>r \<in> set t'. cr_data r ''last_step'' = Some (JNum 4))"
proof -
  let ?h = "\<lambda>k m :: byte list. replicate 20 (0 :: byte)" and ?sec = "replicate 20 (0 :: byte)"
  let ?s = "\<lparr>st_sealed = ''x'', st_lastStep = 3, st_disabled = False\<rparr>"
  have u: "unique_on cred_key one_totp" by (simp add: unique_on_def one_totp_def)
  have rd: "totp_read ''r'' ''u'' one_totp = Inr (Some ?s)"
    by (simp add: totp_read_def findByRealmProviderSub_def select_where_def limit1_def one_totp_def TOTP_PROVIDER_TYPE_def
        storedOf_def TOTP_SEALED_MAX_LENGTH_def isSafeInteger_def MAX_SAFE_INTEGER_def)
  have mt: "matchTotpCode ?h ?sec ''000000'' 150000 3 = Inr (Some 4)"
    by (subst matchTotpCode_find)
      (simp_all add: hmac_sha1_def totpStep_def TOTP_PERIOD_SECONDS_def isSafeInteger_def MAX_SAFE_INTEGER_def
        CODE_PATTERN_def is_digit_def code_at_def totpCode_def hotp_zeros upto.simps)
  obtain t' where t': "acceptTotpStep ''r'' ''u'' 4 one_totp = (True, t')"
    by (simp add: acceptTotpStep_def update_where_def takes_step_def one_totp_def TOTP_PROVIDER_TYPE_def isSafeInteger_def MAX_SAFE_INTEGER_def)
  have v: "totp_verify ?h (\<lambda>_ _ _. Some ?sec) 150000 ''r'' ''u'' ''000000'' one_totp = Inr (TotpAccepted, t')"
    by (simp add: totp_verify_def rd mt t' openSecret_def TOTP_SECRET_BYTES_def)
  from verify_accepts_fresh_code_only[OF u v] rd mt v show ?thesis by force
qed

text \<open>
  The base32 text of a secret holds every bit of it: read back five bits a character, the
  characters spell the bytes with fewer than five zero bits after them; so a text stands for one
  secret, it has the length the format says, and only the alphabet's characters occur.
\<close>

theorem base32Encode_is_faithful:
  "(\<exists>k < 5. concat (map (char_bits BASE32_ALPHABET) (base32Encode bytes))
       = concat (map (\<lambda>b. top_bits b 8) bytes) @ replicate k False)
   \<and> length (base32Encode bytes) = (8 * length bytes + 4) div 5
   \<and> set (base32Encode bytes) \<subseteq> set BASE32_ALPHABET
   \<and> (base32Encode bytes = base32Encode bytes' \<longleftrightarrow> bytes = bytes')"
  unfolding base32Encode_def
  using base32_bits[OF alphabet32_upper] length_base32[OF alphabet32_upper] set_base32_loop[OF alphabet32_upper]
    base32_inject[OF alphabet32_upper] by (auto simp: base32_def)

end
