(* ===== verification/Recovery_Codes.thy ===== *)
theory Recovery_Codes
  imports Base32 Totp "HOL-Library.Char_ord" "HOL-Library.List_Lexorder"
begin

text \<open>
  Recovery codes: how a code is drawn, shown and typed back
  (\<open>libs/server/sign-in-engine/src/lib/recovery-codes.ts\<close>), the table that holds the sets
  (\<open>libs/infra/db/src/lib/repositories/user-recovery-codes.repository.ts\<close>) and the adapter between
  them (\<open>libs/fastify/plugins/sign-in-engine/src/lib/recovery-codes.ts\<close>). The random source, the
  password hasher, the lookup digest, the clock and the ids the database draws are arguments.
\<close>

subsection \<open>The codes\<close>

datatype recovery_error =
    ShortRandomBytes
  | SourceRepeats
  | CodeCannotBeTyped
  | TimeOutOfRange string
  | EmptyHash
  | BadLookupDigests
  | NoSuchUser
  | SetNotWritten
  | RegenerationWroteNoSet
  | MoreUnusedThanASet
  | UseNotRecorded

definition RECOVERY_CODE_COUNT :: nat where "RECOVERY_CODE_COUNT = 10"

definition RECOVERY_CODE_BITS :: nat where "RECOVERY_CODE_BITS = 80"

definition RECOVERY_ALPHABET :: string where
  "RECOVERY_ALPHABET = ''abcdefghijklmnopqrstuvwxyz234567''"

definition RECOVERY_CODE_LENGTH :: nat where
  "RECOVERY_CODE_LENGTH = RECOVERY_CODE_BITS div 5"

definition in_alphabet :: "string \<Rightarrow> bool" where
  "in_alphabet s = list_all (\<lambda>c. c \<in> set RECOVERY_ALPHABET) s"

definition RECOVERY_CODE_PATTERN :: "string \<Rightarrow> bool" where
  "RECOVERY_CODE_PATTERN s = (let g = split_on (CHR ''-'') s
     in length g = 4 \<and> list_all (\<lambda>x. length x = 4 \<and> in_alphabet x) g)"

definition NORMALIZED_PATTERN :: "string \<Rightarrow> bool" where
  "NORMALIZED_PATTERN s \<longleftrightarrow> length s = 16 \<and> in_alphabet s"

definition generateRecoveryCode :: "byte list \<Rightarrow> recovery_error + string" where
  "generateRecoveryCode bytes =
     (if length bytes \<noteq> RECOVERY_CODE_BITS div 8 then Inl ShortRandomBytes
      else let raw = base32 RECOVERY_ALPHABET bytes
           in Inr (take 4 raw @ ''-'' @ take 4 (drop 4 raw) @ ''-'' @ take 4 (drop 8 raw) @ ''-'' @ take 4 (drop 12 raw)))"

text \<open>The \<open>draws\<close>-th call of the source is \<open>random draws\<close>; a \<open>Set\<close> keeps its insertion order.\<close>

function recoverySetLoop :: "(nat \<Rightarrow> byte list) \<Rightarrow> string list \<Rightarrow> nat \<Rightarrow> recovery_error + string list" where
  "recoverySetLoop random codes draws =
     (if length codes \<ge> RECOVERY_CODE_COUNT then Inr codes
      else if draws \<ge> RECOVERY_CODE_COUNT * 2 then Inl SourceRepeats
      else case generateRecoveryCode (random draws) of
             Inl e \<Rightarrow> Inl e
           | Inr c \<Rightarrow> recoverySetLoop random (if c \<in> set codes then codes else codes @ [c]) (draws + 1))"
  by pat_completeness auto
termination by (relation "measure (\<lambda>(r, c, draws). RECOVERY_CODE_COUNT * 2 - draws)") auto

declare recoverySetLoop.simps [simp del]

definition generateRecoveryCodeSet :: "(nat \<Rightarrow> byte list) \<Rightarrow> recovery_error + string list" where
  "generateRecoveryCodeSet random = recoverySetLoop random [] 0"

definition normalizeRecoveryCode :: "string \<Rightarrow> string option" where
  "normalizeRecoveryCode typed =
     (if length typed > 64 then None
      else let normalized = map to_lower (filter (\<lambda>c. \<not> is_space c \<and> c \<noteq> CHR ''-'') typed)
           in if NORMALIZED_PATTERN normalized \<and> length normalized = RECOVERY_CODE_LENGTH then Some normalized else None)"

subsection \<open>The table\<close>

record recovery_row =
  rc_id :: string
  rc_realmId :: string
  rc_userId :: string
  rc_codeHash :: string
  rc_lookupDigest :: "string option"
  rc_createdAt :: ms
  rc_usedAt :: "ms option"
  rc_confirmedAt :: "ms option"

type_synonym recovery_table = "recovery_row tab"

record recovery_status =
  rs_issued :: bool
  rs_unused :: nat
  rs_confirmed :: bool

definition ofAccount :: "string \<Rightarrow> string \<Rightarrow> recovery_row \<Rightarrow> bool" where
  "ofAccount realmId userId r \<longleftrightarrow> rc_realmId r = realmId \<and> rc_userId r = userId"

definition checkedTime :: "ms \<Rightarrow> bool" where
  "checkedTime at \<longleftrightarrow> isSafeInteger at \<and> at > 0"

definition recoveryStatus :: "string \<Rightarrow> string \<Rightarrow> recovery_table \<Rightarrow> recovery_status" where
  "recoveryStatus realmId userId t =
     (let rs = select_where (ofAccount realmId userId) t
      in \<lparr>rs_issued = (rs \<noteq> []), rs_unused = length (filter (\<lambda>r. rc_usedAt r = None) rs),
          rs_confirmed = (rs \<noteq> [] \<and> list_all (\<lambda>r. rc_confirmedAt r \<noteq> None) rs)\<rparr>)"

definition findUnused :: "string \<Rightarrow> string \<Rightarrow> recovery_table \<Rightarrow> (string \<times> string) list" where
  "findUnused realmId userId t =
     map (\<lambda>r. (rc_id r, rc_codeHash r))
       (sort_key rc_id (select_where (\<lambda>r. ofAccount realmId userId r \<and> rc_usedAt r = None) t))"

definition lockUser :: "users \<Rightarrow> string \<Rightarrow> string \<Rightarrow> bool" where
  "lockUser us realmId userId \<longleftrightarrow> limit1 (select_where (userOfRealm realmId userId) us) \<noteq> None"

text \<open>\<open>newIds\<close> are the ids the database gives the rows of the new set.\<close>

definition newSetRows :: "string list \<Rightarrow> string \<Rightarrow> string \<Rightarrow> string list \<Rightarrow> string list option \<Rightarrow> ms \<Rightarrow> recovery_row list" where
  "newSetRows newIds realmId userId codeHashes lookupDigests createdAt =
     map (\<lambda>(index, i, h). \<lparr>rc_id = i, rc_realmId = realmId, rc_userId = userId, rc_codeHash = h,
            rc_lookupDigest = (case lookupDigests of None \<Rightarrow> None | Some ds \<Rightarrow> Some (ds ! index)),
            rc_createdAt = createdAt, rc_usedAt = None, rc_confirmedAt = None\<rparr>)
       (zip [0..<length codeHashes] (zip newIds codeHashes))"

definition replaceSet :: "users \<Rightarrow> string list \<Rightarrow> string \<Rightarrow> string \<Rightarrow> string list \<Rightarrow> string list option \<Rightarrow> ms \<Rightarrow> bool
    \<Rightarrow> recovery_table \<Rightarrow> recovery_error + string option \<times> recovery_table" where
  "replaceSet us newIds realmId userId codeHashes lookupDigests createdAt keepConfirmed t =
     (if \<not> checkedTime createdAt then Inl (TimeOutOfRange ''issue time'')
      else if codeHashes = [] \<or> '''' \<in> set codeHashes then Inl EmptyHash
      else if (case lookupDigests of None \<Rightarrow> False | Some ds \<Rightarrow> length ds \<noteq> length codeHashes \<or> '''' \<in> set ds)
      then Inl BadLookupDigests
      else if \<not> lockUser us realmId userId then Inl NoSuchUser
      else if keepConfirmed \<and> limit1 (select_where (\<lambda>r. ofAccount realmId userId r \<and> rc_confirmedAt r \<noteq> None) t) \<noteq> None
      then Inr (None, t)
      else let t1 = snd (delete_where (ofAccount realmId userId) t);
               rows = newSetRows newIds realmId userId codeHashes lookupDigests createdAt
           in case rows of [] \<Rightarrow> Inl SetNotWritten | r # _ \<Rightarrow> Inr (Some (rc_id r), t1 @ rows))"

definition markUsed :: "string \<Rightarrow> string \<Rightarrow> string \<Rightarrow> ms \<Rightarrow> recovery_table \<Rightarrow> recovery_error + bool \<times> recovery_table" where
  "markUsed realmId userId i usedAt t =
     (if \<not> checkedTime usedAt then Inl (TimeOutOfRange ''use time'')
      else let (rs, t') = update_where (\<lambda>r. ofAccount realmId userId r \<and> rc_id r = i \<and> rc_usedAt r = None)
                  (\<lambda>r. r\<lparr>rc_usedAt := Some usedAt\<rparr>) t
           in Inr (length rs = 1, t'))"

definition findByLookupDigest :: "string \<Rightarrow> string \<Rightarrow> recovery_table \<Rightarrow> string option" where
  "findByLookupDigest realmId digest t =
     (if digest = '''' then None
      else case remdups (map rc_userId (select_where
             (\<lambda>r. rc_realmId r = realmId \<and> rc_lookupDigest r = Some digest \<and> rc_usedAt r = None) t)) of
             [u] \<Rightarrow> Some u
           | _ \<Rightarrow> None)"

definition SET_ID_PATTERN :: "string \<Rightarrow> bool" where
  "SET_ID_PATTERN s = UUID_PATTERN s"

definition confirmSet :: "users \<Rightarrow> string \<Rightarrow> string \<Rightarrow> string \<Rightarrow> ms \<Rightarrow> recovery_table
    \<Rightarrow> recovery_error + bool \<times> recovery_table" where
  "confirmSet us realmId userId setId confirmedAt t =
     (if \<not> checkedTime confirmedAt then Inl (TimeOutOfRange ''confirmation time'')
      else if \<not> SET_ID_PATTERN setId \<or> \<not> lockUser us realmId userId then Inr (False, t)
      else if limit1 (select_where (\<lambda>r. ofAccount realmId userId r \<and> rc_id r = setId) t) = None then Inr (False, t)
      else Inr (True, snd (update_where (\<lambda>r. ofAccount realmId userId r \<and> rc_confirmedAt r = None)
             (\<lambda>r. r\<lparr>rc_confirmedAt := Some confirmedAt\<rparr>) t)))"

subsection \<open>The service\<close>

text \<open>
  The \<open>n\<close>-th hash the hasher makes of a code (each under a salt of its own) is \<open>hash n code\<close>;
  \<open>verifyHash h code\<close> is its check. \<open>lookup\<close> is the digest and whether the account is findable,
  absent where the deployment has none.
\<close>

record recovery_deps =
  rd_hash :: "nat \<Rightarrow> string \<Rightarrow> string"
  rd_verify :: "string \<Rightarrow> string \<Rightarrow> bool"
  rd_lookup :: "((string \<Rightarrow> string \<Rightarrow> string) \<times> (string \<Rightarrow> string \<Rightarrow> bool)) option"
  rd_users :: "users"

fun all_some :: "'a option list \<Rightarrow> 'a list option" where
  "all_some [] = Some []"
| "all_some (None # xs) = None"
| "all_some (Some x # xs) = map_option ((#) x) (all_some xs)"

definition newSet :: "recovery_deps \<Rightarrow> (nat \<Rightarrow> byte list) \<Rightarrow> string list \<Rightarrow> ms \<Rightarrow> string \<Rightarrow> string \<Rightarrow> bool \<Rightarrow> recovery_table
    \<Rightarrow> recovery_error + (string list \<times> string) option \<times> recovery_table" where
  "newSet D random newIds now realmId userId keepConfirmed t =
     (case generateRecoveryCodeSet random of
        Inl e \<Rightarrow> Inl e
      | Inr codes \<Rightarrow>
          (case all_some (map normalizeRecoveryCode codes) of
             None \<Rightarrow> Inl CodeCannotBeTyped
           | Some normalized \<Rightarrow>
               let hashes = map (\<lambda>(n, c). rd_hash D n c) (zip [0..<length normalized] normalized);
                   digests = (case rd_lookup D of
                       Some (digest, findable) \<Rightarrow> if findable realmId userId then Some (map (digest realmId) normalized) else None
                     | None \<Rightarrow> None)
               in (case replaceSet (rd_users D) newIds realmId userId hashes digests now keepConfirmed t of
                     Inl e \<Rightarrow> Inl e
                   | Inr (None, t') \<Rightarrow> Inr (None, t')
                   | Inr (Some setId, t') \<Rightarrow> Inr (Some (codes, setId), t'))))"

definition issueRecoveryCodes :: "recovery_deps \<Rightarrow> (nat \<Rightarrow> byte list) \<Rightarrow> string list \<Rightarrow> ms \<Rightarrow> string \<Rightarrow> string \<Rightarrow> recovery_table
    \<Rightarrow> recovery_error + (string list \<times> string) option \<times> recovery_table" where
  "issueRecoveryCodes D random newIds now realmId userId t = newSet D random newIds now realmId userId True t"

definition replaceRecoveryCodes :: "recovery_deps \<Rightarrow> (nat \<Rightarrow> byte list) \<Rightarrow> string list \<Rightarrow> ms \<Rightarrow> string \<Rightarrow> string \<Rightarrow> recovery_table
    \<Rightarrow> recovery_error + (string list \<times> string) \<times> recovery_table" where
  "replaceRecoveryCodes D random newIds now realmId userId t =
     (case newSet D random newIds now realmId userId False t of
        Inl e \<Rightarrow> Inl e
      | Inr (None, t') \<Rightarrow> Inl RegenerationWroteNoSet
      | Inr (Some s, t') \<Rightarrow> Inr (s, t'))"

definition findAccount :: "recovery_deps \<Rightarrow> string \<Rightarrow> string \<Rightarrow> recovery_table \<Rightarrow> string option" where
  "findAccount D realmId code t = (case (rd_lookup D, normalizeRecoveryCode code) of
      (Some (digest, _), Some normalized) \<Rightarrow> findByLookupDigest realmId (digest realmId normalized) t
    | _ \<Rightarrow> None)"

text \<open>
  The adapter's \<open>take\<close>: the use, with the number of codes left, is recorded in the same transaction,
  or the take is rolled back. The notice after the commit changes no answer.
\<close>

definition takeCode :: "(nat \<Rightarrow> bool) \<Rightarrow> string \<Rightarrow> string \<Rightarrow> string \<Rightarrow> ms \<Rightarrow> recovery_table \<Rightarrow> recovery_error + bool \<times> recovery_table" where
  "takeCode recorded realmId userId i at t =
     (case markUsed realmId userId i at t of
        Inl e \<Rightarrow> Inl e
      | Inr (False, t') \<Rightarrow> Inr (False, t')
      | Inr (True, t') \<Rightarrow> if recorded (rs_unused (recoveryStatus realmId userId t')) then Inr (True, t') else Inl UseNotRecorded)"

fun find_index :: "('a \<Rightarrow> bool) \<Rightarrow> 'a list \<Rightarrow> nat option" where
  "find_index P [] = None"
| "find_index P (x # xs) = (if P x then Some 0 else map_option Suc (find_index P xs))"

text \<open>\<open>decoy\<close> is the hash of a secret nobody holds; every hash is checked whatever matched.\<close>

definition redeem :: "recovery_deps \<Rightarrow> string \<Rightarrow> (nat \<Rightarrow> bool) \<Rightarrow> ms \<Rightarrow> string \<Rightarrow> string \<Rightarrow> string \<Rightarrow> recovery_table
    \<Rightarrow> recovery_error + bool \<times> recovery_table" where
  "redeem D decoy recorded now realmId userId code t =
     (let normalized = normalizeRecoveryCode code; unused = findUnused realmId userId t in
      if length unused > RECOVERY_CODE_COUNT then Inl MoreUnusedThanASet
      else
        let hashes = map snd unused @ replicate (RECOVERY_CODE_COUNT - length unused) decoy;
            presented = (case normalized of Some n \<Rightarrow> n | None \<Rightarrow> take 64 code);
            matches = map (\<lambda>h. rd_verify D h presented) hashes
        in if normalized = None then Inr (False, t)
           else case find_index (\<lambda>(at, m). m \<and> at < length unused) (zip [0..<length matches] matches) of
                  None \<Rightarrow> Inr (False, t)
                | Some index \<Rightarrow> takeCode recorded realmId userId (fst (unused ! index)) now t)"

definition confirmRecoveryCodes :: "recovery_deps \<Rightarrow> ms \<Rightarrow> string \<Rightarrow> string \<Rightarrow> string \<Rightarrow> recovery_table
    \<Rightarrow> recovery_error + bool \<times> recovery_table" where
  "confirmRecoveryCodes D now realmId userId setId t = confirmSet (rd_users D) realmId userId setId now t"

subsection \<open>A code as it is shown and typed\<close>

lemma alphabet32_lower: "alphabet32 RECOVERY_ALPHABET"
  by (simp add: alphabet32_def RECOVERY_ALPHABET_def)

lemma alphabet_chars: "c \<in> set RECOVERY_ALPHABET \<Longrightarrow> to_lower c = c \<and> \<not> is_space c \<and> c \<noteq> CHR ''-''"
proof -
  have "list_all (\<lambda>c. to_lower c = c \<and> \<not> is_space c \<and> c \<noteq> CHR ''-'') RECOVERY_ALPHABET" by code_simp
  then show "c \<in> set RECOVERY_ALPHABET \<Longrightarrow> to_lower c = c \<and> \<not> is_space c \<and> c \<noteq> CHR ''-''"
    by (simp add: list_all_iff)
qed

text \<open>What \<open>normalizeRecoveryCode\<close> strips and folds.\<close>

definition typed_core :: "string \<Rightarrow> string" where
  "typed_core typed = map to_lower (filter (\<lambda>c. \<not> is_space c \<and> c \<noteq> CHR ''-'') typed)"

lemma typed_core_append [simp]: "typed_core (xs @ ys) = typed_core xs @ typed_core ys"
  by (simp add: typed_core_def)

lemma typed_core_dash [simp]: "typed_core (CHR ''-'' # ys) = typed_core ys"
  by (simp add: typed_core_def)

lemma typed_core_alphabet: "in_alphabet xs \<Longrightarrow> typed_core xs = xs"
  by (induction xs) (auto simp: typed_core_def in_alphabet_def dest: alphabet_chars)

lemma normalize_core:
  "normalizeRecoveryCode typed = (if length typed \<le> 64 \<and> length (typed_core typed) = 16 \<and> in_alphabet (typed_core typed)
     then Some (typed_core typed) else None)"
  by (auto simp: normalizeRecoveryCode_def typed_core_def NORMALIZED_PATTERN_def RECOVERY_CODE_LENGTH_def RECOVERY_CODE_BITS_def Let_def)

definition raw_code :: "byte list \<Rightarrow> string" where
  "raw_code bytes = base32 RECOVERY_ALPHABET bytes"

definition shown :: "string \<Rightarrow> string" where
  "shown raw = take 4 raw @ ''-'' @ take 4 (drop 4 raw) @ ''-'' @ take 4 (drop 8 raw) @ ''-'' @ take 4 (drop 12 raw)"

lemma raw_code_shape:
  assumes "length bytes = 10"
  shows "length (raw_code bytes) = 16" and "in_alphabet (raw_code bytes)"
proof -
  show "length (raw_code bytes) = 16" using length_base32[OF alphabet32_lower, of bytes] assms by (simp add: raw_code_def)
  show "in_alphabet (raw_code bytes)"
    using set_base32_loop[OF alphabet32_lower] by (auto simp: raw_code_def base32_def in_alphabet_def list_all_iff)
qed

lemma generate_shown: "generateRecoveryCode bytes = (if length bytes = 10 then Inr (shown (raw_code bytes)) else Inl ShortRandomBytes)"
  by (simp add: generateRecoveryCode_def RECOVERY_CODE_BITS_def shown_def raw_code_def Let_def)

lemma four_groups: "length raw = 16 \<Longrightarrow> take 4 raw @ take 4 (drop 4 raw) @ take 4 (drop 8 raw) @ take 4 (drop 12 raw) = raw"
  by (metis append.assoc append_take_drop_id drop_drop numeral_Bit0 add_numeral_special(3) length_drop take_all
      order_refl take_add numeral_plus_numeral add_num_simps)

lemma in_alphabet_sub: "in_alphabet raw \<Longrightarrow> in_alphabet (take n (drop m raw))"
  by (auto simp: in_alphabet_def list_all_iff dest: in_set_takeD in_set_dropD)


lemma shown_code:
  assumes "length raw = 16" and "in_alphabet raw"
  shows "RECOVERY_CODE_PATTERN (shown raw)" and "normalizeRecoveryCode (shown raw) = Some raw" and "length (shown raw) = 19"
proof -
  let ?g = "\<lambda>m. take 4 (drop m raw)"
  have al: "in_alphabet (?g m)" for m using in_alphabet_sub[OF assms(2)] .
  then have nd: "CHR ''-'' \<notin> set (?g m)" for m by (auto simp: in_alphabet_def list_all_iff dest: alphabet_chars)
  have sh: "shown raw = ?g 0 @ CHR ''-'' # ?g 4 @ CHR ''-'' # ?g 8 @ CHR ''-'' # ?g 12" by (simp add: shown_def)
  have "split_on (CHR ''-'') (shown raw) = [?g 0, ?g 4, ?g 8, ?g 12]"
    unfolding sh using nd nd[of 0] by (simp add: split_on_append split_on_part)
  then show "RECOVERY_CODE_PATTERN (shown raw)" using al[of 0] al[of 12] al assms(1) by (simp add: RECOVERY_CODE_PATTERN_def)
  show l: "length (shown raw) = 19" using assms(1) by (simp add: sh)
  have "typed_core (shown raw) = ?g 0 @ ?g 4 @ ?g 8 @ ?g 12"
    unfolding sh using typed_core_alphabet[OF al] by (simp only: typed_core_append typed_core_dash)
  also have "\<dots> = raw" using four_groups[OF assms(1)] by simp
  finally show "normalizeRecoveryCode (shown raw) = Some raw" using assms l by (simp add: normalize_core)
qed

subsection \<open>The set that is drawn\<close>

definition add_code :: "string list \<Rightarrow> string \<Rightarrow> string list" where
  "add_code codes c = (if c \<in> set codes then codes else codes @ [c])"

definition drawn :: "(nat \<Rightarrow> byte list) \<Rightarrow> nat \<Rightarrow> string list" where
  "drawn random k = foldl add_code [] (map (\<lambda>i. shown (raw_code (random i))) [0..<k])"

lemma drawn_simps: "drawn random 0 = []" "drawn random (Suc k) = add_code (drawn random k) (shown (raw_code (random k)))"
  by (simp_all add: drawn_def)

lemma set_drawn: "set (drawn random k) = (\<lambda>i. shown (raw_code (random i))) ` {..<k}"
  by (induction k) (auto simp: drawn_simps add_code_def lessThan_Suc)

lemma distinct_drawn: "distinct (drawn random k)"
  by (induction k) (auto simp: drawn_simps add_code_def)

lemma drawn_prefix: "j \<le> k \<Longrightarrow> \<exists>ys. drawn random k = drawn random j @ ys"
  by (induction k rule: dec_induct) (auto simp: drawn_simps add_code_def)

lemma length_drawn: "length (drawn random k) = card ((\<lambda>i. shown (raw_code (random i))) ` {..<k})"
  using distinct_card[OF distinct_drawn, of random k] by (simp add: set_drawn)

lemma recoverySetLoop_drawn:
  assumes "\<And>i. length (random i) = 10" and "draws \<le> 20" and "length (drawn random draws) \<le> 10"
  shows "recoverySetLoop random (drawn random draws) draws
    = (if length (drawn random 20) \<ge> 10 then Inr (take 10 (drawn random 20)) else Inl SourceRepeats)"
  using assms(2,3)
proof (induction "20 - draws" arbitrary: draws)
  case 0
  then show ?case by (simp add: recoverySetLoop.simps[of random _ 20] RECOVERY_CODE_COUNT_def)
next
  case (Suc n)
  obtain ys where ys: "drawn random 20 = drawn random draws @ ys" using drawn_prefix[OF Suc.prems(1)] by blast
  show ?case
  proof (cases "length (drawn random draws) = 10")
    case True
    with ys show ?thesis by (simp add: recoverySetLoop.simps[of random _ draws] RECOVERY_CODE_COUNT_def)
  next
    case False
    then have lt: "length (drawn random draws) < 10" "draws < 20" using Suc by simp_all
    then have "length (drawn random (Suc draws)) \<le> 10" by (simp add: drawn_simps add_code_def)
    then have "recoverySetLoop random (drawn random (Suc draws)) (Suc draws)
        = (if length (drawn random 20) \<ge> 10 then Inr (take 10 (drawn random 20)) else Inl SourceRepeats)"
      using Suc lt by (intro Suc.hyps(1)) simp_all
    then show ?thesis using lt
      by (simp add: recoverySetLoop.simps[of random _ draws] RECOVERY_CODE_COUNT_def generate_shown assms(1) drawn_simps add_code_def)
  qed
qed

lemma generate_set:
  assumes "\<And>i. length (random i) = 10"
  shows "generateRecoveryCodeSet random
    = (if length (drawn random 20) \<ge> 10 then Inr (take 10 (drawn random 20)) else Inl SourceRepeats)"
  using recoverySetLoop_drawn[OF assms, of 0] by (simp add: generateRecoveryCodeSet_def drawn_simps)


subsection \<open>A code is taken once\<close>

text \<open>
  Runs of the table, with the ids of the codes taken so far and every id the database has given
  out. Statements of concurrent rounds interleave freely: \<open>recovery_take\<close> marks any id at any time,
  whatever a round read before.
\<close>

inductive recovery_run :: "users \<Rightarrow> recovery_table \<Rightarrow> string list \<Rightarrow> string set \<Rightarrow> bool" for us where
  recovery_start: "unique_on rc_id t \<Longrightarrow> rc_id ` set t \<subseteq> ids \<Longrightarrow> recovery_run us t [] ids"
| recovery_take: "recovery_run us t taken ids \<Longrightarrow> markUsed realm user i at t = Inr (took, t') \<Longrightarrow>
    recovery_run us t' (if took then i # taken else taken) ids"
| recovery_replace: "recovery_run us t taken ids \<Longrightarrow>
    replaceSet us newIds realm user hashes digests at keep t = Inr (s, t') \<Longrightarrow>
    distinct newIds \<Longrightarrow> set newIds \<inter> ids = {} \<Longrightarrow> recovery_run us t' taken (ids \<union> set newIds)"
| recovery_confirm: "recovery_run us t taken ids \<Longrightarrow> confirmSet us realm user setId at t = Inr (c, t') \<Longrightarrow>
    recovery_run us t' taken ids"

definition recovery_inv :: "recovery_table \<Rightarrow> string list \<Rightarrow> string set \<Rightarrow> bool" where
  "recovery_inv t taken ids \<longleftrightarrow> unique_on rc_id t \<and> rc_id ` set t \<subseteq> ids \<and> distinct taken \<and> set taken \<subseteq> ids
     \<and> (\<forall>r \<in> set t. rc_id r \<in> set taken \<longrightarrow> rc_usedAt r \<noteq> None)"

lemma markUsed_cases:
  assumes "unique_on rc_id t" and "markUsed realm user i at t = Inr (took, t')"
  shows "(\<not> took \<and> t' = t)
    \<or> (took \<and> t' = map (\<lambda>r. if rc_id r = i then r\<lparr>rc_usedAt := Some at\<rparr> else r) t
        \<and> (\<exists>r \<in> set t. rc_id r = i \<and> ofAccount realm user r \<and> rc_usedAt r = None))"
proof -
  let ?P = "\<lambda>r. ofAccount realm user r \<and> rc_id r = i \<and> rc_usedAt r = None"
  from assms(2) have m: "took = (length (filter ?P t) = 1)" "t' = snd (update_where ?P (\<lambda>r. r\<lparr>rc_usedAt := Some at\<rparr>) t)"
    by (auto simp: markUsed_def Let_def split_beta update_where_def split: if_splits)
  consider (none) "filter ?P t = []" | (one) r where "r \<in> set t" "?P r" "filter ?P t = [r]"
    using unique_on_filter[OF assms(1), of ?P i] by blast
  then show ?thesis
  proof cases
    case none
    with m show ?thesis by (simp add: update_where_none)
  next
    case one
    have "?P x \<longleftrightarrow> rc_id x = i" if "x \<in> set t" for x
      using unique_on_same[OF assms(1) that one(1)] one(2) by auto
    then have "t' = map (\<lambda>r. if rc_id r = i then r\<lparr>rc_usedAt := Some at\<rparr> else r) t"
      unfolding m(2) update_where_def by auto
    with one m(1) show ?thesis by auto
  qed
qed

lemma set_newSetRows:
  "r \<in> set (newSetRows newIds realm user hashes digests at) \<Longrightarrow>
     rc_id r \<in> set newIds \<and> ofAccount realm user r \<and> rc_usedAt r = None \<and> rc_confirmedAt r = None \<and> rc_createdAt r = at"
  by (auto simp: newSetRows_def ofAccount_def in_set_zip)

lemma ids_newSetRows:
  assumes "length newIds = length hashes"
  shows "map rc_id (newSetRows newIds realm user hashes digests at) = newIds"
    and "map rc_codeHash (newSetRows newIds realm user hashes digests at) = hashes"
  using assms by (auto simp: newSetRows_def intro!: nth_equalityI)


lemma newSetRows_Nil [simp]: "newSetRows [] realm user hashes digests at = []"
  by (simp add: newSetRows_def)

lemma replaceSet_cases:
  assumes "replaceSet us newIds realm user hashes digests at keep t = Inr (s, t')"
  shows "(s = None \<and> t' = t \<and> keep \<and> (\<exists>r \<in> set t. ofAccount realm user r \<and> rc_confirmedAt r \<noteq> None))
    \<or> (s = Some (hd newIds) \<and> newIds \<noteq> [] \<and> hashes \<noteq> [] \<and> (keep \<longrightarrow> (\<forall>r \<in> set t. ofAccount realm user r \<longrightarrow> rc_confirmedAt r = None))
        \<and> t' = filter (\<lambda>r. \<not> ofAccount realm user r) t @ newSetRows newIds realm user hashes digests at)"
proof -
  have hd: "newSetRows newIds realm user hashes digests at = r # rs \<Longrightarrow> newIds \<noteq> [] \<and> rc_id r = hd newIds" for r rs
    by (cases newIds; cases hashes) (auto simp: newSetRows_def upt_conv_Cons simp del: upt_Suc)
  have lim: "limit1 (select_where P t) \<noteq> None \<longleftrightarrow> (\<exists>r \<in> set t. P r)" for P
    by (auto simp: limit1_def select_where_def filter_empty_conv split: list.splits) (metis filter_empty_conv list.distinct(1))
  from assms show ?thesis
    unfolding replaceSet_def lim
    by (auto simp: delete_where_def Let_def split: if_splits list.splits dest: hd)
qed

lemma find_index_Some: "find_index P xs = Some n \<longleftrightarrow> n < length xs \<and> P (xs ! n) \<and> (\<forall>m < n. \<not> P (xs ! m))"
proof (induction xs arbitrary: n)
  case (Cons x xs)
  then show ?case by (cases n) (auto simp: All_less_Suc2)
qed simp

lemma find_index_None: "find_index P xs = None \<longleftrightarrow> (\<forall>m < length xs. \<not> P (xs ! m))"
  by (induction xs) (auto simp: nth_Cons All_less_Suc2)

lemma recovery_inv_take:
  assumes "recovery_inv t taken ids" and "markUsed realm user i at t = Inr (took, t')"
  shows "recovery_inv t' (if took then i # taken else taken) ids"
proof -
  have u: "unique_on rc_id t" using assms(1) by (simp add: recovery_inv_def)
  from markUsed_cases[OF u assms(2)] show ?thesis
  proof (elim disjE conjE bexE)
    fix r assume a: "took" "t' = map (\<lambda>r. if rc_id r = i then r\<lparr>rc_usedAt := Some at\<rparr> else r) t"
      "r \<in> set t" "rc_id r = i" "rc_usedAt r = None"
    have "map rc_id t' = map rc_id t" unfolding a(2) by auto
    then have "unique_on rc_id t'" "rc_id ` set t' = rc_id ` set t" using u unfolding unique_on_def by (simp, metis set_map)
    moreover have "i \<notin> set taken" "i \<in> ids" using a(3-5) assms(1) by (auto simp: recovery_inv_def)
    ultimately show ?thesis using assms(1) a(1,2) by (auto simp: recovery_inv_def)
  qed (use assms(1) in simp)
qed

lemma recovery_inv_replace:
  assumes "recovery_inv t taken ids" and "replaceSet us newIds realm user hashes digests at keep t = Inr (s, t')"
    and "distinct newIds" and "set newIds \<inter> ids = {}"
  shows "recovery_inv t' taken (ids \<union> set newIds)"
  using replaceSet_cases[OF assms(2)]
proof (elim disjE conjE)
  let ?rows = "newSetRows newIds realm user hashes digests at"
  assume t': "t' = filter (\<lambda>r. \<not> ofAccount realm user r) t @ ?rows"
  have "\<exists>n. map rc_id ?rows = take n newIds"
    by (rule exI[of _ "length ?rows"], rule nth_equalityI) (auto simp: newSetRows_def)
  then obtain n where n: "map rc_id ?rows = take n newIds" ..
  then have dn: "distinct (map rc_id ?rows)" using assms(3) by (simp add: distinct_take)
  have "rc_id ` set ?rows \<subseteq> set newIds" using n by (metis set_map set_take_subset)
  moreover have "rc_id ` set (filter (\<lambda>r. \<not> ofAccount realm user r) t) \<subseteq> ids" using assms(1) by (auto simp: recovery_inv_def)
  moreover have "distinct (map rc_id (filter (\<lambda>r. \<not> ofAccount realm user r) t))"
    using assms(1) by (simp add: recovery_inv_def unique_on_def distinct_map_filter)
  ultimately have "unique_on rc_id t'" using dn assms(4) unfolding t' unique_on_def by auto
  moreover have "\<forall>r \<in> set ?rows. rc_id r \<notin> set taken"
    using assms(1,4) set_newSetRows[of _ newIds realm user hashes digests at] unfolding recovery_inv_def by blast
  ultimately show ?thesis using assms(1) \<open>rc_id ` set ?rows \<subseteq> set newIds\<close> unfolding t' recovery_inv_def by auto
qed (use assms(1) in \<open>auto simp: recovery_inv_def\<close>)

lemma recovery_run_inv: "recovery_run us t taken ids \<Longrightarrow> recovery_inv t taken ids"
proof (induction rule: recovery_run.induct)
  case (recovery_start t ids)
  then show ?case by (simp add: recovery_inv_def)
next
  case (recovery_take t taken ids realm user i at took t')
  then show ?case by (intro recovery_inv_take)
next
  case (recovery_replace t taken ids newIds realm user hashes digests at keep s t')
  then show ?case by (intro recovery_inv_replace)
next
  case (recovery_confirm t taken ids realm user setId at c t')
  have t': "t' = t \<or> t' = map (\<lambda>r. if ofAccount realm user r \<and> rc_confirmedAt r = None then r\<lparr>rc_confirmedAt := Some at\<rparr> else r) t"
    using recovery_confirm.hyps(2) by (auto simp: confirmSet_def update_where_def split: if_splits)
  then have "map rc_id t' = map rc_id t" by auto
  then have "unique_on rc_id t'" "rc_id ` set t' = rc_id ` set t"
    using recovery_confirm.IH unfolding recovery_inv_def unique_on_def by (simp, metis set_map)
  with t' recovery_confirm.IH show ?case by (auto simp: recovery_inv_def)
qed


subsection \<open>Redemption\<close>

definition unusedOf :: "string \<Rightarrow> string \<Rightarrow> recovery_row \<Rightarrow> bool" where
  "unusedOf realm user = (\<lambda>r. ofAccount realm user r \<and> rc_usedAt r = None)"

lemma length_findUnused: "length (findUnused realm user t) = length (filter (unusedOf realm user) t)"
  by (simp add: findUnused_def select_where_def unusedOf_def)

lemma redeem_cases:
  assumes n: "normalizeRecoveryCode code = Some n" and few: "length (filter (unusedOf realm user) t) \<le> 10"
  shows "(\<exists>r \<in> set t. unusedOf realm user r \<and> rd_verify D (rc_codeHash r) n
        \<and> redeem D decoy recorded now realm user code t = takeCode recorded realm user (rc_id r) now t)
    \<or> ((\<forall>r \<in> set t. unusedOf realm user r \<longrightarrow> \<not> rd_verify D (rc_codeHash r) n)
        \<and> redeem D decoy recorded now realm user code t = Inr (False, t))"
proof -
  define U where "U = sort_key rc_id (filter (unusedOf realm user) t)"
  have fu: "findUnused realm user t = map (\<lambda>r. (rc_id r, rc_codeHash r)) U"
    by (simp add: findUnused_def select_where_def unusedOf_def U_def)
  have lU: "length U \<le> 10" using few by (simp add: U_def)
  have setU: "set U = {r \<in> set t. unusedOf realm user r}" by (auto simp: U_def)
  define ms where "ms = map (\<lambda>h. rd_verify D h n) (map rc_codeHash U @ replicate (10 - length U) decoy)"
  define Q where "Q = (\<lambda>(at, m :: bool). m \<and> at < length U)"
  have lm: "length ms = 10" using lU by (simp add: ms_def)
  have Q: "m < 10 \<Longrightarrow> Q (zip [0..<length ms] ms ! m) \<longleftrightarrow> m < length U \<and> rd_verify D (rc_codeHash (U ! m)) n" for m
    using lm by (auto simp: Q_def ms_def nth_append)
  have red: "redeem D decoy recorded now realm user code t = (case find_index Q (zip [0..<length ms] ms) of
      None \<Rightarrow> Inr (False, t) | Some index \<Rightarrow> takeCode recorded realm user (fst (map (\<lambda>r. (rc_id r, rc_codeHash r)) U ! index)) now t)"
    using n lU by (simp add: redeem_def Let_def fu RECOVERY_CODE_COUNT_def ms_def Q_def comp_def)
  show ?thesis
  proof (cases "find_index Q (zip [0..<length ms] ms)")
    case None
    then have "\<not> rd_verify D (rc_codeHash (U ! m)) n" if "m < length U" for m
      using that lU Q[of m] lm unfolding find_index_None by auto
    then have "\<forall>r \<in> set U. \<not> rd_verify D (rc_codeHash r) n" by (auto simp: in_set_conv_nth)
    with None red setU show ?thesis by auto
  next
    case (Some i)
    then have i: "i < length U" "rd_verify D (rc_codeHash (U ! i)) n"
      using Q[of i] lm unfolding find_index_Some by auto
    then have "U ! i \<in> set U" by simp
    with i Some red setU fu show ?thesis by auto
  qed
qed

lemma recoverySetLoop_codes:
  assumes "recoverySetLoop random codes draws = Inr cs" and "distinct codes" and "length codes \<le> 10"
    and "\<forall>c \<in> set codes. \<exists>b. length b = 10 \<and> c = shown (raw_code b)"
  shows "distinct cs \<and> length cs = 10 \<and> (\<forall>c \<in> set cs. \<exists>b. length b = 10 \<and> c = shown (raw_code b))"
  using assms
proof (induction random codes draws rule: recoverySetLoop.induct)
  case (1 random codes draws)
  show ?case
  proof (cases "length codes \<ge> 10")
    case True
    with 1 show ?thesis by (auto simp: recoverySetLoop.simps[of random codes draws] RECOVERY_CODE_COUNT_def)
  next
    case False
    with "1.prems"(1) have d: "\<not> draws \<ge> 20" and b: "length (random draws) = 10"
      and rec: "recoverySetLoop random (add_code codes (shown (raw_code (random draws)))) (draws + 1) = Inr cs"
      by (auto simp: recoverySetLoop.simps[of random codes draws] RECOVERY_CODE_COUNT_def generate_shown add_code_def split: if_splits)
    let ?c = "shown (raw_code (random draws))"
    have gen: "generateRecoveryCode (random draws) = Inr ?c" using b by (simp add: generate_shown)
    have "\<not> RECOVERY_CODE_COUNT \<le> length codes" "\<not> RECOVERY_CODE_COUNT * 2 \<le> draws"
      using False d by (simp_all add: RECOVERY_CODE_COUNT_def)
    note ih = "1.IH"[OF this gen, folded add_code_def, OF rec]
    have "distinct (add_code codes ?c)" "length (add_code codes ?c) \<le> 10" using "1.prems"(2) False by (simp_all add: add_code_def)
    moreover have "\<forall>c \<in> set (add_code codes ?c). \<exists>b. length b = 10 \<and> c = shown (raw_code b)"
      using "1.prems"(4) b by (auto simp: add_code_def)
    ultimately show ?thesis by (rule ih)
  qed
qed

lemma all_some_map: "all_some (map f xs) = Some ys \<longleftrightarrow> map f xs = map Some ys"
proof (induction xs arbitrary: ys)
  case (Cons x xs)
  show ?case
  proof (cases "f x")
    case None
    then show ?thesis by (cases ys) auto
  next
    case (Some y)
    with Cons show ?thesis by (cases ys) auto
  qed
qed auto

lemma generated_codes:
  assumes "generateRecoveryCodeSet random = Inr codes"
  obtains raws where "distinct raws" "length raws = 10" "codes = map shown raws" "all_some (map normalizeRecoveryCode codes) = Some raws"
    "\<forall>x \<in> set raws. length x = 16 \<and> in_alphabet x"
proof -
  have cs: "distinct codes" "length codes = 10" "\<forall>c \<in> set codes. \<exists>b. length b = 10 \<and> c = shown (raw_code b)"
    using recoverySetLoop_codes[of random "[]" 0 codes] assms by (auto simp: generateRecoveryCodeSet_def)
  then obtain f where f: "\<forall>c \<in> set codes. length (f c) = 10 \<and> c = shown (raw_code (f c))" by metis
  let ?raws = "map (\<lambda>c. raw_code (f c)) codes"
  have sh: "codes = map shown ?raws" using f by (auto intro: map_idI[symmetric])
  have n: "map normalizeRecoveryCode codes = map Some ?raws"
  proof -
    have "normalizeRecoveryCode c = Some (raw_code (f c))" if "c \<in> set codes" for c
      using f that shown_code(2)[OF raw_code_shape] by metis
    then show ?thesis by simp
  qed
  have "distinct (map shown ?raws)" using cs(1) sh by simp
  then have "distinct ?raws" by (simp only: distinct_map)
  moreover have "\<forall>x \<in> set ?raws. length x = 16 \<and> in_alphabet x" using f raw_code_shape by auto
  ultimately show thesis using that[of ?raws] cs(2) sh n by (simp add: all_some_map del: map_map)
qed


lemma markUsed_takes:
  assumes "unique_on rc_id t" and "r \<in> set t" and "unusedOf realm user r" and "checkedTime at"
  shows "markUsed realm user (rc_id r) at t = Inr (True, map (\<lambda>x. if rc_id x = rc_id r then x\<lparr>rc_usedAt := Some at\<rparr> else x) t)"
proof -
  obtain took t' where m: "markUsed realm user (rc_id r) at t = Inr (took, t')"
    using assms(4) by (auto simp: markUsed_def split_beta)
  let ?P = "\<lambda>x. ofAccount realm user x \<and> rc_id x = rc_id r \<and> rc_usedAt x = None"
  have "filter ?P t \<noteq> []" using assms(2,3) by (auto simp: filter_empty_conv unusedOf_def)
  then have "length (filter ?P t) = 1" using unique_on_filter[OF assms(1), of ?P "rc_id r"] by auto
  then have "took" using m by (auto simp: markUsed_def split_beta update_where_def split: if_splits)
  with markUsed_cases[OF assms(1) m] m show ?thesis by auto
qed

lemma newSet_written:
  assumes "newSet D random newIds now realm user keep t = Inr (Some (codes, setId), t')"
  obtains raws digests where "distinct raws" "length raws = 10" "codes = map shown raws" "setId = hd newIds"
    "\<forall>x \<in> set raws. length x = 16 \<and> in_alphabet x"
    "t' = filter (\<lambda>r. \<not> ofAccount realm user r) t
        @ newSetRows newIds realm user (map (\<lambda>(n, c). rd_hash D n c) (zip [0..<10] raws)) digests now"
proof -
  obtain cs where cs: "generateRecoveryCodeSet random = Inr cs"
    using assms by (auto simp: newSet_def split: sum.splits)
  obtain raws where raws: "distinct raws" "length raws = 10" "cs = map shown raws" "all_some (map normalizeRecoveryCode cs) = Some raws"
    "\<forall>x \<in> set raws. length x = 16 \<and> in_alphabet x" by (rule generated_codes[OF cs])
  let ?h = "map (\<lambda>(n, c). rd_hash D n c) (zip [0..<10] raws)"
  obtain ds where "replaceSet (rd_users D) newIds realm user ?h ds now keep t = Inr (Some setId, t')" and "codes = cs"
    using assms cs raws(2,4) by (auto simp: newSet_def Let_def split: sum.splits option.splits prod.splits)
  with replaceSet_cases[of "rd_users D" newIds realm user ?h ds now keep t "Some setId" t'] that[of raws ds] raws show thesis by auto
qed

lemma nth_newSetRows:
  assumes "length newIds = 10" and "length raws = 10" and "j < 10"
  shows "rc_id (newSetRows newIds realm user (map (\<lambda>(n, c). rd_hash D n c) (zip [0..<10] raws)) ds now ! j) = newIds ! j"
    and "rc_codeHash (newSetRows newIds realm user (map (\<lambda>(n, c). rd_hash D n c) (zip [0..<10] raws)) ds now ! j) = rd_hash D j (raws ! j)"
  using assms by (simp_all add: newSetRows_def)

text \<open>What a new set leaves: its rows, each with a code of its own that only its own hash accepts.\<close>

lemma newSet_table:
  assumes ok: "\<And>n c c'. rd_verify D (rd_hash D n c) c' \<longleftrightarrow> c = c'"
    and set: "newSet D random newIds now realm user keep t = Inr (Some (codes, setId), t')"
    and ids: "length newIds = 10" "distinct newIds" "set newIds \<inter> rc_id ` set t = {}" "unique_on rc_id t"
  obtains codeOf where "unique_on rc_id t'" "length (filter (unusedOf realm user) t') = 10"
    "\<And>r c. r \<in> set t' \<Longrightarrow> unusedOf realm user r \<Longrightarrow> rd_verify D (rc_codeHash r) c \<longleftrightarrow> c = codeOf (rc_id r)"
    "\<And>r r'. r \<in> set t' \<Longrightarrow> r' \<in> set t' \<Longrightarrow> unusedOf realm user r \<Longrightarrow> unusedOf realm user r' \<Longrightarrow>
        codeOf (rc_id r) = codeOf (rc_id r') \<Longrightarrow> rc_id r = rc_id r'"
    "\<And>c. c \<in> set codes \<Longrightarrow> \<exists>r \<in> set t'. unusedOf realm user r \<and> normalizeRecoveryCode c = Some (codeOf (rc_id r))"
proof -
  obtain raws ds where raws: "distinct raws" "length raws = 10" "codes = map shown raws" "\<forall>x \<in> set raws. length x = 16 \<and> in_alphabet x"
    and t': "t' = filter (\<lambda>r. \<not> ofAccount realm user r) t
        @ newSetRows newIds realm user (map (\<lambda>(n, c). rd_hash D n c) (zip [0..<10] raws)) ds now"
    by (rule newSet_written[OF set])
  let ?R = "newSetRows newIds realm user (map (\<lambda>(n, c). rd_hash D n c) (zip [0..<10] raws)) ds now"
  have lR: "length ?R = 10" using ids(1) raws(2) by (simp add: newSetRows_def)
  note nth = nth_newSetRows[OF ids(1) raws(2)]
  have unR: "\<forall>r \<in> set ?R. unusedOf realm user r" by (auto simp: unusedOf_def dest: set_newSetRows)
  have rows: "{r \<in> set t'. unusedOf realm user r} = set ?R" using unR by (auto simp: t' unusedOf_def)
  have row: "\<exists>j < 10. r = ?R ! j \<and> rc_id r = newIds ! j \<and> rc_codeHash r = rd_hash D j (raws ! j)" if "r \<in> set ?R" for r
    using that lR nth by (metis in_set_conv_nth)
  define codeOf where "codeOf i = raws ! (THE j. j < 10 \<and> newIds ! j = i)" for i
  have code: "codeOf (newIds ! j) = raws ! j" if "j < 10" for j
  proof -
    have "(THE k. k < 10 \<and> newIds ! k = newIds ! j) = j"
      using that ids(1,2) by (intro the_equality) (auto simp: nth_eq_iff_index_eq)
    then show ?thesis by (simp add: codeOf_def)
  qed
  have "map rc_id ?R = newIds" using ids(1) raws(2) by (intro ids_newSetRows(1)) simp
  then have "unique_on rc_id t'" using ids(2-4) by (auto simp: t' unique_on_def distinct_map_filter)
  moreover have "length (filter (unusedOf realm user) t') = 10"
  proof -
    have "filter (unusedOf realm user) t' = ?R" using unR by (simp add: t' unusedOf_def)
    then show ?thesis using lR by simp
  qed
  moreover have "rd_verify D (rc_codeHash r) c \<longleftrightarrow> c = codeOf (rc_id r)" if "r \<in> set t'" "unusedOf realm user r" for r c
  proof -
    have "r \<in> set ?R" using that rows by blast
    from row[OF this] show ?thesis using ok code by auto
  qed
  moreover have "rc_id r = rc_id r'" if "r \<in> set t'" "r' \<in> set t'" "unusedOf realm user r" "unusedOf realm user r'"
      "codeOf (rc_id r) = codeOf (rc_id r')" for r r'
  proof -
    have "r \<in> set ?R" "r' \<in> set ?R" using that rows by blast+
    from row[OF this(1)] row[OF this(2)] show ?thesis using that(5) code raws(1,2) by (auto simp: nth_eq_iff_index_eq)
  qed
  moreover have "\<exists>r \<in> set t'. unusedOf realm user r \<and> normalizeRecoveryCode c = Some (codeOf (rc_id r))" if c: "c \<in> set codes" for c
  proof -
    obtain j where j: "j < 10" "c = shown (raws ! j)" using c raws(2,3) by (auto simp: in_set_conv_nth)
    then have "?R ! j \<in> set ?R" using lR by simp
    moreover have "normalizeRecoveryCode c = Some (raws ! j)" using j raws(2,4) shown_code(2)[of "raws ! j"] by simp
    ultimately show ?thesis using rows code[OF j(1)] nth(1)[OF j(1)] by (metis (mono_tags, lifting) mem_Collect_eq)
  qed
  ultimately show thesis by (rule that)
qed


lemma redeem_hit:
  assumes n: "normalizeRecoveryCode code = Some n" and few: "length (filter (unusedOf realm user) t) \<le> 10"
    and u: "unique_on rc_id t" and at: "checkedTime now" "\<forall>k. recorded k"
    and r: "r \<in> set t" "unusedOf realm user r" "rd_verify D (rc_codeHash r) n"
  obtains q where "q \<in> set t" "unusedOf realm user q" "rd_verify D (rc_codeHash q) n"
    "redeem D decoy recorded now realm user code t
       = Inr (True, map (\<lambda>x. if rc_id x = rc_id q then x\<lparr>rc_usedAt := Some now\<rparr> else x) t)"
  using redeem_cases[OF n few, of D decoy recorded now]
proof (elim disjE conjE bexE)
  fix q assume q: "q \<in> set t" "unusedOf realm user q" "rd_verify D (rc_codeHash q) n"
    and red: "redeem D decoy recorded now realm user code t = takeCode recorded realm user (rc_id q) now t"
  from red markUsed_takes[OF u q(1,2) at(1)] at(2)
  have "redeem D decoy recorded now realm user code t
       = Inr (True, map (\<lambda>x. if rc_id x = rc_id q then x\<lparr>rc_usedAt := Some now\<rparr> else x) t)" by (simp add: takeCode_def)
  with q show thesis by (rule that)
qed (use r in blast)

lemma set_mark_used:
  "r \<in> set (map (\<lambda>x. if rc_id x = i then x\<lparr>rc_usedAt := Some now\<rparr> else x) t) \<Longrightarrow> unusedOf realm user r \<Longrightarrow>
     r \<in> set t \<and> rc_id r \<noteq> i"
  by (auto simp: unusedOf_def split: if_splits)

lemma unused_after_mark:
  assumes "unique_on rc_id t" and "q \<in> set t" and "unusedOf realm user q"
  shows "Suc (length (filter (unusedOf realm user) (map (\<lambda>x. if rc_id x = rc_id q then x\<lparr>rc_usedAt := Some at\<rparr> else x) t)))
    = length (filter (unusedOf realm user) t)"
  using assms
proof (induction t)
  case (Cons x t)
  show ?case
  proof (cases "x = q")
    case True
    then have "\<forall>y \<in> set t. rc_id y \<noteq> rc_id q" using Cons.prems(1) by (simp add: unique_on_def image_iff) metis
    then have "map (\<lambda>x. if rc_id x = rc_id q then x\<lparr>rc_usedAt := Some at\<rparr> else x) t = t" by (intro map_idI) simp
    with True Cons.prems(3) show ?thesis by (simp add: unusedOf_def del: filter_map map_eq_conv)
  next
    case False
    with Cons.prems have "rc_id x \<noteq> rc_id q" "q \<in> set t" "unique_on rc_id t" by (auto simp: unique_on_def)
    with Cons show ?thesis by simp
  qed
qed simp

subsection \<open>Properties\<close>

text \<open>
  C28. A recovery code is taken once: in every interleaving of the statements on the table (codes
  taken by any number of rounds, sets issued, replaced and confirmed for any accounts, under ids
  the database never gives twice), no row is taken twice, and one that was taken is never taken
  again.
\<close>

theorem recovery_code_taken_once:
  assumes "recovery_run us t taken ids"
  shows "distinct taken \<and> (\<forall>realm user i at t'. i \<in> set taken \<longrightarrow> markUsed realm user i at t \<noteq> Inr (True, t'))"
proof -
  have inv: "recovery_inv t taken ids" by (rule recovery_run_inv[OF assms])
  have False if "i \<in> set taken" "markUsed realm user i at t = Inr (True, t')" for realm user i at t'
    using recovery_inv_take[OF inv that(2)] that(1) by (simp add: recovery_inv_def)
  with inv show ?thesis by (auto simp: recovery_inv_def)
qed

definition one_code :: recovery_table where
  "one_code = [\<lparr>rc_id = ''1'', rc_realmId = ''r'', rc_userId = ''u'', rc_codeHash = ''h'', rc_lookupDigest = None,
     rc_createdAt = 1, rc_usedAt = None, rc_confirmedAt = None\<rparr>]"

theorem recovery_code_taken_once_witness:
  "\<exists>t. recovery_run [] t [''1''] {''1''} \<and> (\<forall>t'. markUsed ''r'' ''u'' ''1'' 6 t \<noteq> Inr (True, t'))"
proof -
  obtain t where "markUsed ''r'' ''u'' ''1'' 5 one_code = Inr (True, t)"
    by (simp add: markUsed_def one_code_def update_where_def ofAccount_def checkedTime_def isSafeInteger_def MAX_SAFE_INTEGER_def)
  moreover have "recovery_run [] one_code [] {''1''}" by (rule recovery_start) (simp_all add: unique_on_def one_code_def)
  ultimately have "recovery_run [] t [''1''] {''1''}" using recovery_take by fastforce
  with recovery_code_taken_once[OF this] show ?thesis by auto
qed



definition plain_hasher :: recovery_deps where
  "plain_hasher = \<lparr>rd_hash = (\<lambda>n c. c), rd_verify = (\<lambda>h c. h = c), rd_lookup = None,
     rd_users = [\<lparr>ur_realmId = ''r'', ur_id = ''u'', ur_enabled = True, ur_notValidBefore = None, ur_lastLoginAt = None\<rparr>]\<rparr>"

definition counting_bytes :: "nat \<Rightarrow> byte list" where
  "counting_bytes n = word_of_nat n # replicate 9 0"





lemma confirmSet_True:
  assumes "confirmSet us realm user sid at t = Inr (True, t')"
  shows "(\<exists>r \<in> set t. ofAccount realm user r \<and> rc_id r = sid)"
    and "t' = map (\<lambda>r. if ofAccount realm user r \<and> rc_confirmedAt r = None then r\<lparr>rc_confirmedAt := Some at\<rparr> else r) t"
    and "lockUser us realm user"
  using assms by (auto simp: confirmSet_def update_where_def limit1_def select_where_def filter_empty_conv filter_eq_Cons_iff
      split: if_splits list.splits)

text \<open>
  A confirmed set is kept, and only the set that was shown is confirmed: after a set was
  confirmed, issuing codes to the account writes nothing and says so, and the account reads as
  confirmed; a regeneration replaces it by exactly the new codes, all unused and unconfirmed, and
  from then on the old set's id confirms nothing. Other accounts keep their rows.
\<close>

theorem confirmed_set_is_kept:
  assumes "confirmSet us realm user sid at t = Inr (True, t1)"
    and "hashes \<noteq> []" and "'''' \<notin> set hashes" and "checkedTime at'" and "length newIds = length hashes" and "sid \<notin> set newIds"
  shows "replaceSet us newIds realm user hashes None at' True t1 = Inr (None, t1)
    \<and> rs_confirmed (recoveryStatus realm user t1)
    \<and> (\<exists>t2. replaceSet us newIds realm user hashes None at' False t1 = Inr (Some (hd newIds), t2)
        \<and> map rc_codeHash (filter (ofAccount realm user) t2) = hashes
        \<and> recoveryStatus realm user t2 = \<lparr>rs_issued = True, rs_unused = length hashes, rs_confirmed = False\<rparr>
        \<and> filter (\<lambda>r. \<not> ofAccount realm user r) t2 = filter (\<lambda>r. \<not> ofAccount realm user r) t
        \<and> (checkedTime at'' \<longrightarrow> confirmSet us realm user sid at'' t2 = Inr (False, t2)))"
proof -
  have ac: "ofAccount realm user (r\<lparr>rc_confirmedAt := v\<rparr>) = ofAccount realm user r" for r v by (simp add: ofAccount_def)
  obtain r where r: "r \<in> set t" "ofAccount realm user r" "rc_id r = sid" using confirmSet_True(1)[OF assms(1)] by blast
  note t1 = confirmSet_True(2)[OF assms(1)] and lock = confirmSet_True(3)[OF assms(1)]
  have conf: "x \<in> set t1 \<Longrightarrow> ofAccount realm user x \<Longrightarrow> rc_confirmedAt x \<noteq> None" for x
    unfolding t1 by (auto simp: ac split: if_splits)
  define x where "x = (if ofAccount realm user r \<and> rc_confirmedAt r = None then r\<lparr>rc_confirmedAt := Some at\<rparr> else r)"
  have x: "x \<in> set t1" "ofAccount realm user x" using r(1,2) unfolding t1 x_def set_map by (blast, simp add: ac)
  then have acct: "filter (ofAccount realm user) t1 \<noteq> []" by (auto simp: filter_empty_conv)
  have "limit1 (select_where (\<lambda>r. ofAccount realm user r \<and> rc_confirmedAt r \<noteq> None) t1) \<noteq> None"
    using x conf[OF x] by (auto simp: limit1_def select_where_def filter_empty_conv split: list.splits)
  then have keep: "replaceSet us newIds realm user hashes None at' True t1 = Inr (None, t1)"
    using assms(2-4) lock by (simp add: replaceSet_def)
  have st: "rs_confirmed (recoveryStatus realm user t1)"
    using acct conf by (auto simp: recoveryStatus_def select_where_def Let_def list_all_iff)
  let ?R = "newSetRows newIds realm user hashes None at'"
  let ?t2 = "filter (\<lambda>r. \<not> ofAccount realm user r) t1 @ ?R"
  have ne: "?R \<noteq> []" using assms(2,5) ids_newSetRows(1)[OF assms(5)] by (metis length_0_conv map_is_Nil_conv)
  then have rep: "replaceSet us newIds realm user hashes None at' False t1 = Inr (Some (hd newIds), ?t2)"
    using assms(2-4) lock ids_newSetRows(1)[OF assms(5), of realm user None at']
    by (auto simp: replaceSet_def delete_where_def Let_def split: list.splits)
  have fR: "filter (ofAccount realm user) ?t2 = ?R" by (auto simp: filter_empty_conv dest: set_newSetRows intro!: filter_True)
  have nR: "filter (\<lambda>r. \<not> ofAccount realm user r) ?t2 = filter (\<lambda>r. \<not> ofAccount realm user r) t"
  proof -
    have "filter (\<lambda>r. \<not> ofAccount realm user r) ?R = []" by (auto simp: filter_empty_conv dest: set_newSetRows)
    moreover have "filter (\<lambda>r. \<not> ofAccount realm user r) t1 = filter (\<lambda>r. \<not> ofAccount realm user r) t"
      unfolding t1 by (induction t) (auto simp: ac)
    ultimately show ?thesis by simp
  qed
  have unused: "filter (\<lambda>r. rc_usedAt r = None) ?R = ?R" by (auto dest: set_newSetRows intro!: filter_True)
  have lR: "length ?R = length hashes" using ids_newSetRows(1)[OF assms(5), of realm user None at'] assms(5) by (metis length_map)
  have st2: "recoveryStatus realm user ?t2 = \<lparr>rs_issued = True, rs_unused = length hashes, rs_confirmed = False\<rparr>"
    proof -
    have "rc_confirmedAt (hd ?R) = None" using set_newSetRows[OF hd_in_set[OF ne]] by simp
    then show ?thesis unfolding recoveryStatus_def select_where_def fR Let_def using unused lR ne by (cases ?R) auto
  qed
  have gone: "filter (\<lambda>r. ofAccount realm user r \<and> rc_id r = sid) ?t2 = []"
    using assms(6) by (auto simp: filter_empty_conv dest: set_newSetRows)
  have "checkedTime at'' \<longrightarrow> confirmSet us realm user sid at'' ?t2 = Inr (False, ?t2)"
    using gone by (simp add: confirmSet_def select_where_def limit1_def del: filter_append)
  with keep st rep fR ids_newSetRows(2)[OF assms(5)] st2 nR show ?thesis by auto
qed


definition one_set :: recovery_table where
  "one_set = [\<lparr>rc_id = ''01234567-89ab-cdef-0123-456789abcdef'', rc_realmId = ''r'', rc_userId = ''u'', rc_codeHash = ''h'',
     rc_lookupDigest = None, rc_createdAt = 1, rc_usedAt = None, rc_confirmedAt = None\<rparr>]"

theorem confirmed_set_is_kept_witness:
  "\<exists>t1. confirmSet (rd_users plain_hasher) ''r'' ''u'' ''01234567-89ab-cdef-0123-456789abcdef'' 5 one_set = Inr (True, t1)
     \<and> replaceSet (rd_users plain_hasher) [''n''] ''r'' ''u'' [''k''] None 6 True t1 = Inr (None, t1)"
proof -
  let ?us = "rd_users plain_hasher" and ?sid = "''01234567-89ab-cdef-0123-456789abcdef''"
  have "(case confirmSet ?us ''r'' ''u'' ?sid 5 one_set of Inr (True, _) \<Rightarrow> True | _ \<Rightarrow> False)" by code_simp
  then obtain t1 where t1: "confirmSet ?us ''r'' ''u'' ?sid 5 one_set = Inr (True, t1)"
    by (auto split: sum.splits prod.splits bool.splits)
  have "checkedTime 6" by (simp add: checkedTime_def isSafeInteger_def MAX_SAFE_INTEGER_def)
  from confirmed_set_is_kept[OF t1 _ _ this, of "[''k'']" "[''n'']"] t1 show ?thesis by auto
qed

end
