(* ===== verification/Scopes.thy ===== *)
theory Scopes
  imports Users
begin

text \<open>
  What a client may ask for: the agent scope modes
  (\<open>apps/auth-server/src/app/helpers/scope-modes.ts\<close>), the reserved \<open>qauth:\<close> scopes and
  \<open>urn:qauth:aud:\<close> audiences (\<open>libs/shared/validation\<close>, \<open>helpers/admin-scopes.ts\<close>,
  \<open>api-conventions/families.ts\<close>), and the scope and audience rules of
  \<open>helpers/client-auth.ts\<close>. Scopes and audiences are ASCII text. The system client's id, read from
  the environment, is an argument.
\<close>

subsection \<open>The client\<close>

record oauth_client =
  oc_id :: string
  oc_realmId :: string
  oc_clientId :: string
  oc_name :: string
  oc_grantTypes :: "string list"
  oc_scopes :: "string list"
  oc_audience :: "string list option"
  oc_authMethod :: "string option"
  oc_isAgent :: "bool option"
  oc_maxAgentMode :: "string option"
  oc_redirectUris :: "string list option"
  oc_metadata :: jdata
  oc_dynamicRegisteredAt :: "ms option"
  oc_backchannelLogoutUri :: "string option"

type_synonym clients = "oauth_client tab"

definition isPublicClient :: "oauth_client \<Rightarrow> bool" where
  "isPublicClient c \<longleftrightarrow> oc_authMethod c = Some ''none''"

definition isAgentClient :: "oauth_client \<Rightarrow> bool" where
  "isAgentClient c \<longleftrightarrow> oc_isAgent c = Some True"

definition isCimdClient :: "oauth_client \<Rightarrow> bool" where
  "isCimdClient c \<longleftrightarrow> oc_metadata c ''registrationType'' = Some (JStr ''cimd'')"

subsection \<open>Agent scope modes\<close>

datatype agent_mode = ReadOnly | AdminMode | Exec

definition AGENT_MODES :: "agent_mode list" where "AGENT_MODES = [ReadOnly, AdminMode, Exec]"

fun mode_name :: "agent_mode \<Rightarrow> string" where
  "mode_name ReadOnly = ''readonly''"
| "mode_name AdminMode = ''admin''"
| "mode_name Exec = ''exec''"

fun AGENT_MODE_SCOPES :: "agent_mode \<Rightarrow> string" where
  "AGENT_MODE_SCOPES ReadOnly = ''agent:readonly''"
| "AGENT_MODE_SCOPES AdminMode = ''agent:admin''"
| "AGENT_MODE_SCOPES Exec = ''agent:exec''"

fun AGENT_MODE_RANK :: "agent_mode \<Rightarrow> nat" where
  "AGENT_MODE_RANK ReadOnly = 1"
| "AGENT_MODE_RANK AdminMode = 2"
| "AGENT_MODE_RANK Exec = 3"

definition SCOPE_TO_MODE :: "string \<Rightarrow> agent_mode option" where
  "SCOPE_TO_MODE = map_of (map (\<lambda>m. (AGENT_MODE_SCOPES m, m)) AGENT_MODES)"

definition parseAgentMode :: "string option \<Rightarrow> agent_mode option" where
  "parseAgentMode v = (case v of None \<Rightarrow> None | Some s \<Rightarrow> find (\<lambda>m. mode_name m = s) AGENT_MODES)"

definition isAgentModeScope :: "string \<Rightarrow> bool" where
  "isAgentModeScope s \<longleftrightarrow> SCOPE_TO_MODE s \<noteq> None"

definition agentModeForScope :: "string \<Rightarrow> agent_mode option" where
  "agentModeForScope s = SCOPE_TO_MODE s"

definition isModeWithinCap :: "agent_mode \<Rightarrow> agent_mode option \<Rightarrow> bool" where
  "isModeWithinCap m cap = (case cap of None \<Rightarrow> False | Some c \<Rightarrow> AGENT_MODE_RANK m \<le> AGENT_MODE_RANK c)"

fun highestMode_loop :: "string list \<Rightarrow> agent_mode option \<Rightarrow> agent_mode option" where
  "highestMode_loop [] highest = highest"
| "highestMode_loop (s # ss) highest = highestMode_loop ss (case agentModeForScope s of
      None \<Rightarrow> highest
    | Some m \<Rightarrow> (case highest of None \<Rightarrow> Some m
        | Some h \<Rightarrow> if AGENT_MODE_RANK m > AGENT_MODE_RANK h then Some m else highest))"

definition highestAgentModeInScopes :: "string list \<Rightarrow> agent_mode option" where
  "highestAgentModeInScopes ss = highestMode_loop ss None"

definition findExceedingAgentScopes :: "string list \<Rightarrow> bool \<Rightarrow> agent_mode option \<Rightarrow> string list" where
  "findExceedingAgentScopes ss isAgent cap = filter (\<lambda>s. case agentModeForScope s of
      None \<Rightarrow> False | Some m \<Rightarrow> \<not> isAgent \<or> \<not> isModeWithinCap m cap) ss"

record agent_scope_context =
  ac_isAgent :: bool
  ac_maxAgentMode :: "agent_mode option"

definition toAgentScopeContext :: "oauth_client \<Rightarrow> agent_scope_context" where
  "toAgentScopeContext c = \<lparr>ac_isAgent = isAgentClient c, ac_maxAgentMode = parseAgentMode (oc_maxAgentMode c)\<rparr>"

text \<open>\<open>InvalidScopeError\<close>, with the scopes it names.\<close>

datatype scope_error = ExceedsAgentMode "string list" | NotPermitted "string list"

definition enforceAgentScopeCap :: "string list \<Rightarrow> agent_scope_context \<Rightarrow> scope_error option" where
  "enforceAgentScopeCap ss a = (case findExceedingAgentScopes ss (ac_isAgent a) (ac_maxAgentMode a) of
      [] \<Rightarrow> None | ex \<Rightarrow> Some (ExceedsAgentMode ex))"

definition findExceedingAgentScopesForClient :: "string option \<Rightarrow> oauth_client \<Rightarrow> string list" where
  "findExceedingAgentScopesForClient requested c =
     (let a = toAgentScopeContext c
      in findExceedingAgentScopes (js_words (case requested of None \<Rightarrow> '''' | Some s \<Rightarrow> s)) (ac_isAgent a) (ac_maxAgentMode a))"

definition validateScopes :: "string option \<Rightarrow> string list \<Rightarrow> agent_scope_context option \<Rightarrow> scope_error + string list" where
  "validateScopes requestedScopes allowed agent = (case requestedScopes of
      None \<Rightarrow> Inr []
    | Some s \<Rightarrow>
        if list_all is_space s then Inr []
        else let requested = dedup (js_words s) in
          case (case agent of None \<Rightarrow> None | Some a \<Rightarrow> enforceAgentScopeCap requested a) of
            Some e \<Rightarrow> Inl e
          | None \<Rightarrow> (case filter (\<lambda>x. x \<notin> set allowed) requested of
                [] \<Rightarrow> Inr requested | dis \<Rightarrow> Inl (NotPermitted dis)))"

subsection \<open>Reserved scopes and audiences\<close>

definition starts_ci :: "string \<Rightarrow> string \<Rightarrow> bool" where
  "starts_ci p s \<longleftrightarrow> map to_lower (take (length p) s) = p"

definition isReservedQauthScope :: "string \<Rightarrow> bool" where
  "isReservedQauthScope s = starts_ci ''qauth:'' s"

definition isReservedAudience :: "string \<Rightarrow> bool" where
  "isReservedAudience s = starts_ci ''urn:qauth:aud:'' (dropWhile is_space s)"

datatype permission_class = ReadClass | WriteClass | SecurityClass

definition PERMISSION_CLASSES :: "permission_class list" where
  "PERMISSION_CLASSES = [ReadClass, WriteClass, SecurityClass]"

fun ADMIN_SCOPES :: "permission_class \<Rightarrow> string" where
  "ADMIN_SCOPES ReadClass = ''qauth:admin:read''"
| "ADMIN_SCOPES WriteClass = ''qauth:admin:write''"
| "ADMIN_SCOPES SecurityClass = ''qauth:admin:security''"

definition ADMIN_SCOPE_LIST :: "string list" where
  "ADMIN_SCOPE_LIST = map ADMIN_SCOPES PERMISSION_CLASSES"

definition permissionClassOfScope :: "string \<Rightarrow> permission_class option" where
  "permissionClassOfScope = map_of (map (\<lambda>c. (ADMIN_SCOPES c, c)) PERMISSION_CLASSES)"

definition isAdminScope :: "string \<Rightarrow> bool" where
  "isAdminScope s \<longleftrightarrow> permissionClassOfScope s \<noteq> None"

text \<open>A token's scopes: the \<open>scope\<close> claim, split on the space character alone, or a list already split.\<close>

datatype token_scopes = ScopeClaim string | ScopeList "string list"

fun tokenScopeSet :: "token_scopes \<Rightarrow> string list" where
  "tokenScopeSet (ScopeClaim s) = filter (\<lambda>x. x \<noteq> '''') (split_on (CHR '' '') s)"
| "tokenScopeSet (ScopeList ss) = ss"

definition allowedPermissionClasses :: "token_scopes \<Rightarrow> permission_class list" where
  "allowedPermissionClasses ts = dedup (List.map_filter permissionClassOfScope (tokenScopeSet ts))"

datatype api_family = AdminApi | AccountApi | DeveloperApi

fun API_FAMILY_AUDIENCES :: "api_family \<Rightarrow> string" where
  "API_FAMILY_AUDIENCES AdminApi = ''urn:qauth:aud:admin:v1-rc.0''"
| "API_FAMILY_AUDIENCES AccountApi = ''urn:qauth:aud:account:v1-rc.0''"
| "API_FAMILY_AUDIENCES DeveloperApi = ''urn:qauth:aud:developer:v1-rc.0''"

text \<open>A scope of the account or developer API names its family and whether it reaches writes.\<close>

definition API_FAMILY_SCOPES :: "(string \<times> api_family \<times> bool) list" where
  "API_FAMILY_SCOPES =
     [(''qauth:account:read'', AccountApi, False), (''qauth:account:write'', AccountApi, True),
      (''qauth:developer:read'', DeveloperApi, False), (''qauth:developer:write'', DeveloperApi, True)]"

definition familyScopeOf :: "string \<Rightarrow> (api_family \<times> bool) option" where
  "familyScopeOf s = map_of API_FAMILY_SCOPES s"

subsection \<open>Audiences\<close>

text \<open>The \<open>aud\<close> claim: one value or a list.\<close>

datatype aud = OneAud string | ManyAud "string list"

fun aud_flat :: "aud \<Rightarrow> string list" where
  "aud_flat (OneAud a) = [a]"
| "aud_flat (ManyAud as) = as"

definition aud_of :: "string list \<Rightarrow> string \<Rightarrow> aud" where
  "aud_of as other = (case as of [] \<Rightarrow> OneAud other | [a] \<Rightarrow> OneAud a | _ \<Rightarrow> ManyAud as)"

definition AUDIENCE_ENTRY_MAX_LENGTH :: nat where "AUDIENCE_ENTRY_MAX_LENGTH = 256"

definition AUDIENCE_MAX_ENTRIES :: nat where "AUDIENCE_MAX_ENTRIES = 20"

definition audienceSchema :: "string list option \<Rightarrow> string list option" where
  "audienceSchema a = (case a of
      None \<Rightarrow> None
    | Some as \<Rightarrow> if length as \<le> AUDIENCE_MAX_ENTRIES
        \<and> list_all (\<lambda>x. x \<noteq> '''' \<and> length x \<le> AUDIENCE_ENTRY_MAX_LENGTH) as then Some as else None)"

definition resolveAudience :: "oauth_client \<Rightarrow> string list \<Rightarrow> aud" where
  "resolveAudience c resource =
     (if resource \<noteq> [] then aud_of resource ''''
      else case audienceSchema (oc_audience c) of
             None \<Rightarrow> OneAud (oc_clientId c)
           | Some as \<Rightarrow> aud_of as (oc_clientId c))"

definition userGrantDefaultAudience :: "string \<Rightarrow> oauth_client \<Rightarrow> string list" where
  "userGrantDefaultAudience systemClientId c = (case audienceSchema (oc_audience c) of
      None \<Rightarrow> []
    | Some as \<Rightarrow> if oc_clientId c = systemClientId then as else filter (\<lambda>v. \<not> isReservedAudience v) as)"

definition resolveUserGrantAudience :: "string \<Rightarrow> oauth_client \<Rightarrow> string list \<Rightarrow> aud" where
  "resolveUserGrantAudience systemClientId c resource =
     (if resource \<noteq> [] then resolveAudience c resource
      else aud_of (userGrantDefaultAudience systemClientId c) (oc_clientId c))"

definition isSelfRegisteredClient :: "oauth_client \<Rightarrow> bool" where
  "isSelfRegisteredClient c \<longleftrightarrow> isCimdClient c \<or> oc_metadata c ''registrationType'' = Some (JStr ''dynamic'')
     \<or> oc_dynamicRegisteredAt c \<noteq> None"

definition unlistedReservedAudiences :: "oauth_client \<Rightarrow> aud \<Rightarrow> string list" where
  "unlistedReservedAudiences c a =
     (let listed = (if isSelfRegisteredClient c then [] else case audienceSchema (oc_audience c) of None \<Rightarrow> [] | Some as \<Rightarrow> as)
      in filter (\<lambda>v. isReservedAudience v \<and> v \<notin> set listed) (aud_flat a))"

definition withoutAdminAudience :: "aud \<Rightarrow> string \<Rightarrow> aud" where
  "withoutAdminAudience a clientId = aud_of (filter (\<lambda>v. v \<noteq> API_FAMILY_AUDIENCES AdminApi) (aud_flat a)) clientId"

end
