(* ===== verification/Authorization_Codes.thy ===== *)
theory Authorization_Codes
  imports Scopes
begin

text \<open>
  The authorization codes (\<open>libs/infra/db/src/lib/repositories/authorization-codes.repository.ts\<close>). A
  code has no realm of its own: the client it was issued to pins it. The clock is an argument.
\<close>

record auth_code =
  cd_id :: string
  cd_code :: string
  cd_oauthClientId :: string
  cd_userId :: string
  cd_redirectUri :: string
  cd_codeChallenge :: string
  cd_nonce :: "string option"
  cd_authTime :: "ms option"
  cd_amr :: "string list option"
  cd_assuranceLevel :: "string option"
  cd_sessionExpiresAt :: "ms option"
  cd_sessionId :: "string option"
  cd_scopes :: "string list"
  cd_resource :: "string list"
  cd_dpopJkt :: "string option"
  cd_expiresAt :: ms
  cd_used :: bool
  cd_usedAt :: "ms option"
  cd_createdAt :: ms

type_synonym codes = "auth_code tab"

text \<open>The join with the client a row was issued to, on the client's realm.\<close>

definition client_of_realm :: "clients \<Rightarrow> string \<Rightarrow> string \<Rightarrow> bool" where
  "client_of_realm cs realmId i = list_ex (\<lambda>c. oc_id c = i \<and> oc_realmId c = realmId) cs"

definition code_create :: "auth_code \<Rightarrow> codes \<Rightarrow> auth_code \<times> codes" where
  "code_create c t = (c, t @ [c])"

definition findByCode :: "clients \<Rightarrow> ms \<Rightarrow> string \<Rightarrow> string \<Rightarrow> codes \<Rightarrow> auth_code option" where
  "findByCode cs now realmId code t = limit1 (select_where (\<lambda>c. client_of_realm cs realmId (cd_oauthClientId c)
     \<and> cd_code c = code \<and> \<not> cd_used c \<and> cd_expiresAt c > now) t)"

definition findByCodeIncludingUsed :: "clients \<Rightarrow> string \<Rightarrow> string \<Rightarrow> codes \<Rightarrow> auth_code option" where
  "findByCodeIncludingUsed cs realmId code t = limit1 (select_where (\<lambda>c. client_of_realm cs realmId (cd_oauthClientId c)
     \<and> cd_code c = code) t)"

definition spend :: "ms \<Rightarrow> auth_code \<Rightarrow> auth_code" where
  "spend now c = c\<lparr>cd_used := True, cd_usedAt := Some now\<rparr>"

definition code_markUsed :: "ms \<Rightarrow> string \<Rightarrow> codes \<Rightarrow> repo_error + auth_code \<times> codes" where
  "code_markUsed now i t = (case update_where (\<lambda>c. cd_id c = i \<and> \<not> cd_used c) (spend now) t of
      ([], _) \<Rightarrow> Inl (NotFoundError i)
    | (c # _, t') \<Rightarrow> Inr (c, t'))"

definition invalidateForUser :: "ms \<Rightarrow> string \<Rightarrow> codes \<Rightarrow> nat \<times> codes" where
  "invalidateForUser now userId t =
     (let (rs, t') = update_where (\<lambda>c. cd_userId c = userId \<and> \<not> cd_used c) (spend now) t in (length rs, t'))"

definition invalidateForUserAndClient :: "ms \<Rightarrow> string \<Rightarrow> string \<Rightarrow> codes \<Rightarrow> nat \<times> codes" where
  "invalidateForUserAndClient now userId oauthClientId t =
     (let (rs, t') = update_where (\<lambda>c. cd_userId c = userId \<and> cd_oauthClientId c = oauthClientId \<and> \<not> cd_used c) (spend now) t
      in (length rs, t'))"

definition code_deleteExpired :: "ms \<Rightarrow> codes \<Rightarrow> nat \<times> codes" where
  "code_deleteExpired now t = (let (rs, t') = delete_where (\<lambda>c. cd_expiresAt c < now) t in (length rs, t'))"

subsection \<open>A code is spent once\<close>

lemma spend_same [simp]: "cd_id (spend now c) = cd_id c" "cd_used (spend now c)" "cd_code (spend now c) = cd_code c"
  "cd_oauthClientId (spend now c) = cd_oauthClientId c" "cd_userId (spend now c) = cd_userId c" "cd_sessionId (spend now c) = cd_sessionId c"
  by (simp_all add: spend_def)

lemma code_markUsed_cases:
  assumes "unique_on cd_id t"
  shows "code_markUsed now i t = (case find (\<lambda>c. cd_id c = i \<and> \<not> cd_used c) t of
      None \<Rightarrow> Inl (NotFoundError i)
    | Some c \<Rightarrow> Inr (spend now c, map (\<lambda>x. if cd_id x = i \<and> \<not> cd_used x then spend now x else x) t))"
proof -
  let ?P = "\<lambda>c. cd_id c = i \<and> \<not> cd_used c"
  have f: "find ?P t = (case filter ?P t of [] \<Rightarrow> None | c # _ \<Rightarrow> Some c)" by (induction t) auto
  show ?thesis unfolding f by (auto simp: code_markUsed_def update_where_def split: list.splits)
qed

end
