(* ===== verification/Refresh_Tokens.thy ===== *)
theory Refresh_Tokens
  imports Authorization_Codes
begin

text \<open>
  The refresh tokens (\<open>libs/infra/db/src/lib/repositories/refresh-tokens.repository.ts\<close>) and the lifetime
  of a family (\<open>apps/auth-server/src/app/helpers/refresh-family.ts\<close>). The clock and the URL parser are
  arguments. The advisory locks are modelled in \<open>Refresh_Locks\<close>; here a statement is one step.
\<close>

subsection \<open>The lifetime of a family\<close>

text \<open>\<open>parseUrl\<close> is the platform's URL parser: the protocol and the host name, or nothing when it throws.\<close>

type_synonym url_parser = "string \<Rightarrow> (string \<times> string) option"

definition LOOPBACK_HOSTS :: "string list" where "LOOPBACK_HOSTS = [''localhost'', ''::1'']"

definition isIpv4LoopbackHost :: "string \<Rightarrow> bool" where
  "isIpv4LoopbackHost host = (let octets = split_on (CHR ''.'') host in
     length octets = 4
     \<and> list_all (\<lambda>o'. 1 \<le> length o' \<and> length o' \<le> 3 \<and> (case undec o' of None \<Rightarrow> False | Some n \<Rightarrow> n \<le> 255)) octets
     \<and> undec (hd octets) = Some 127)"

definition strip_brackets :: "string \<Rightarrow> string" where
  "strip_brackets h = (let a = (case h of [] \<Rightarrow> [] | c # cs \<Rightarrow> if c = CHR ''['' then cs else h)
     in if a \<noteq> [] \<and> last a = CHR '']'' then butlast a else a)"

definition isHttpLocalhostRedirect :: "url_parser \<Rightarrow> string \<Rightarrow> bool" where
  "isHttpLocalhostRedirect parseUrl uri = (case parseUrl uri of
      None \<Rightarrow> False
    | Some (protocol, hostname) \<Rightarrow>
        if protocol \<noteq> ''http:'' then False
        else let host = strip_brackets (map to_lower hostname) in host \<in> set LOOPBACK_HOSTS \<or> isIpv4LoopbackHost host)"

definition isNativeAppRedirectUri :: "url_parser \<Rightarrow> string \<Rightarrow> bool" where
  "isNativeAppRedirectUri parseUrl uri = (case parseUrl uri of
      None \<Rightarrow> False
    | Some (protocol, _) \<Rightarrow>
        if protocol = ''https:'' then False
        else if protocol = ''http:'' then isHttpLocalhostRedirect parseUrl uri
        else True)"

definition isBrowserBasedClient :: "url_parser \<Rightarrow> oauth_client \<Rightarrow> bool" where
  "isBrowserBasedClient parseUrl c =
     (if oc_authMethod c \<noteq> Some ''none'' then False
      else let uris = (case oc_redirectUris c of None \<Rightarrow> [] | Some us \<Rightarrow> us) in uris = [] \<or> \<not> list_all (isNativeAppRedirectUri parseUrl) uris)"

definition refreshFamilyEnd :: "ms \<Rightarrow> int option \<Rightarrow> ms option \<Rightarrow> ms option" where
  "refreshFamilyEnd familyCreatedAt ssoMaxLifespanSeconds familySessionExpiresAt = (case ssoMaxLifespanSeconds of
      None \<Rightarrow> None
    | Some s \<Rightarrow> let byLimit = familyCreatedAt + s * 1000
        in Some (case familySessionExpiresAt of None \<Rightarrow> byLimit | Some e \<Rightarrow> min byLimit e))"

definition refreshTokenExpiresAt :: "ms \<Rightarrow> int \<Rightarrow> ms option \<Rightarrow> ms" where
  "refreshTokenExpiresAt now lifespanSeconds familyEnd =
     (let sliding = now + lifespanSeconds * 1000 in case familyEnd of None \<Rightarrow> sliding | Some e \<Rightarrow> min sliding e)"

definition rotatedRefreshTokenExpiresAt :: "ms \<Rightarrow> int \<Rightarrow> ms option \<Rightarrow> ms \<Rightarrow> bool \<Rightarrow> ms" where
  "rotatedRefreshTokenExpiresAt now lifespanSeconds familyEnd replacedExpiresAt browserBased =
     (let expiresAt = refreshTokenExpiresAt now lifespanSeconds familyEnd
      in if browserBased then min expiresAt replacedExpiresAt else expiresAt)"

definition refreshFamilyEnded :: "ms option \<Rightarrow> ms \<Rightarrow> bool" where
  "refreshFamilyEnded familyEnd now = (case familyEnd of None \<Rightarrow> False | Some e \<Rightarrow> now \<ge> e)"

subsection \<open>The table\<close>

record refresh_token =
  rt_id :: string
  rt_tokenHash :: string
  rt_userId :: string
  rt_oauthClientId :: string
  rt_familyId :: string
  rt_familyCreatedAt :: ms
  rt_familySessionExpiresAt :: "ms option"
  rt_authTime :: "ms option"
  rt_amr :: "string list option"
  rt_scopes :: "string list"
  rt_resource :: "string list"
  rt_expiresAt :: ms
  rt_revoked :: bool
  rt_revokedAt :: "ms option"
  rt_revokedReason :: "string option"
  rt_previousTokenHash :: "string option"
  rt_cnfJkt :: "string option"
  rt_authorizationCodeId :: "string option"
  rt_createdAt :: ms

type_synonym tokens = "refresh_token tab"

definition token_create :: "refresh_token \<Rightarrow> tokens \<Rightarrow> repo_error + refresh_token \<times> tokens" where
  "token_create r t =
     (if rt_tokenHash r \<in> set (map rt_tokenHash t) then Inl (UniqueConstraintError ''refresh_tokens_token_hash_unique'')
      else if rt_authorizationCodeId r \<noteq> None \<and> rt_authorizationCodeId r \<in> set (map rt_authorizationCodeId t)
      then Inl (UniqueConstraintError ''idx_refresh_tokens_authorization_code_id'')
      else Inr (r, t @ [r]))"

definition findByTokenHash :: "clients \<Rightarrow> ms \<Rightarrow> string \<Rightarrow> string \<Rightarrow> tokens \<Rightarrow> refresh_token option" where
  "findByTokenHash cs now realmId h t = limit1 (select_where (\<lambda>r. client_of_realm cs realmId (rt_oauthClientId r)
     \<and> rt_tokenHash r = h \<and> \<not> rt_revoked r \<and> rt_expiresAt r > now) t)"

definition findByTokenHashIncludingRevoked :: "clients \<Rightarrow> string \<Rightarrow> string \<Rightarrow> tokens \<Rightarrow> refresh_token option" where
  "findByTokenHashIncludingRevoked cs realmId h t = limit1 (select_where (\<lambda>r. client_of_realm cs realmId (rt_oauthClientId r)
     \<and> rt_tokenHash r = h) t)"

definition token_findByUserId :: "ms \<Rightarrow> string \<Rightarrow> tokens \<Rightarrow> refresh_token list" where
  "token_findByUserId now userId t = select_where (\<lambda>r. rt_userId r = userId \<and> \<not> rt_revoked r \<and> rt_expiresAt r > now) t"

definition revoked_as :: "ms \<Rightarrow> string option \<Rightarrow> refresh_token \<Rightarrow> refresh_token" where
  "revoked_as now reason r = r\<lparr>rt_revoked := True, rt_revokedAt := Some now, rt_revokedReason := reason\<rparr>"

definition token_revoke :: "ms \<Rightarrow> string \<Rightarrow> string option \<Rightarrow> tokens \<Rightarrow> repo_error + refresh_token \<times> tokens" where
  "token_revoke now i reason t = (case update_where (\<lambda>r. rt_id r = i) (revoked_as now reason) t of
      ([], _) \<Rightarrow> Inl (NotFoundError i)
    | (r # _, t') \<Rightarrow> Inr (r, t'))"

definition revokeIfActive :: "ms \<Rightarrow> string \<Rightarrow> string \<Rightarrow> tokens \<Rightarrow> refresh_token option \<times> tokens" where
  "revokeIfActive now i reason t =
     (let (rs, t') = update_where (\<lambda>r. rt_id r = i \<and> \<not> rt_revoked r) (revoked_as now (Some reason)) t in (limit1 rs, t'))"

definition revokeFamily :: "ms \<Rightarrow> string \<Rightarrow> string option \<Rightarrow> tokens \<Rightarrow> nat \<times> tokens" where
  "revokeFamily now familyId reason t =
     (let (rs, t') = update_where (\<lambda>r. rt_familyId r = familyId \<and> \<not> rt_revoked r) (revoked_as now reason) t in (length rs, t'))"

definition revokeFamilyByAuthorizationCode :: "ms \<Rightarrow> string \<Rightarrow> string \<Rightarrow> tokens \<Rightarrow> (string option \<times> nat) \<times> tokens" where
  "revokeFamilyByAuthorizationCode now codeId reason t =
     (let first = limit1 (select_where (\<lambda>r. rt_authorizationCodeId r = Some codeId) t);
          families = map rt_familyId (select_where (\<lambda>r. rt_authorizationCodeId r = Some codeId) t);
          (rs, t') = update_where (\<lambda>r. rt_familyId r \<in> set families \<and> \<not> rt_revoked r) (revoked_as now (Some reason)) t
      in ((map_option rt_familyId first, length rs), t'))"

definition revokeAllForUser :: "ms \<Rightarrow> string \<Rightarrow> string option \<Rightarrow> tokens \<Rightarrow> tokens" where
  "revokeAllForUser now userId reason t =
     snd (update_where (\<lambda>r. rt_userId r = userId \<and> \<not> rt_revoked r \<and> rt_expiresAt r > now) (revoked_as now reason) t)"

definition revokeAllForUserAndClient :: "ms \<Rightarrow> string \<Rightarrow> string \<Rightarrow> string \<Rightarrow> tokens \<Rightarrow> nat \<times> tokens" where
  "revokeAllForUserAndClient now userId oauthClientId reason t =
     (let (rs, t') = update_where (\<lambda>r. rt_userId r = userId \<and> rt_oauthClientId r = oauthClientId \<and> \<not> rt_revoked r) (revoked_as now (Some reason)) t
      in (length rs, t'))"

definition revokeAllForClient :: "ms \<Rightarrow> string \<Rightarrow> string \<Rightarrow> tokens \<Rightarrow> nat \<times> tokens" where
  "revokeAllForClient now oauthClientId reason t =
     (let (rs, t') = update_where (\<lambda>r. rt_oauthClientId r = oauthClientId \<and> \<not> rt_revoked r) (revoked_as now (Some reason)) t
      in (length rs, t'))"

definition token_deleteExpired :: "ms \<Rightarrow> tokens \<Rightarrow> nat \<times> tokens" where
  "token_deleteExpired now t =
     (let (rs, t') = delete_where (\<lambda>r. rt_expiresAt r < now
            \<and> \<not> list_ex (\<lambda>live. rt_familyId live = rt_familyId r \<and> rt_expiresAt live \<ge> now) t) t
      in (length rs, t'))"

end
