(* ===== verification/Refresh_Locks.thy ===== *)
theory Refresh_Locks
  imports Refresh_Tokens
begin

text \<open>
  Rotation against bulk revocation: the advisory locks of
  \<open>libs/infra/db/src/lib/repositories/refresh-tokens.repository.ts\<close> (\<open>lockUserTokens\<close>,
  \<open>lockClientTokens\<close>) and the transactions that take them, interleaved statement by statement under
  READ COMMITTED: a statement reads the rows committed when it starts, an \<open>UPDATE\<close> waits for the row's
  uncommitted writer and checks its condition again on the row that writer left, and a transaction's
  writes and locks end with its commit or its abort. A bulk \<open>UPDATE\<close> finds its rows once, when it
  starts, and visits them one by one. Rows are never deleted here (\<open>deleteExpired\<close> is not part of
  this model).
\<close>

subsection \<open>The statements\<close>

datatype lock_key = UserKey string | ClientKey string

text \<open>The bulk revocations; \<open>ByUser\<close> carries the time its condition compares with.\<close>

datatype bulk =
    ByFamily string
  | ByCode string
  | ByUser string ms
  | ByUserClient string string
  | ByClient string

text \<open>The lock a revocation takes first, \<open>None\<close> for a NULL key, which locks nothing.\<close>

fun bulk_key :: "bulk \<Rightarrow> tokens \<Rightarrow> lock_key option" where
  "bulk_key (ByFamily f) t = map_option (\<lambda>r. UserKey (rt_userId r)) (limit1 (select_where (\<lambda>r. rt_familyId r = f) t))"
| "bulk_key (ByCode c) t = map_option (\<lambda>r. UserKey (rt_userId r)) (limit1 (select_where (\<lambda>r. rt_authorizationCodeId r = Some c) t))"
| "bulk_key (ByUser u now) t = Some (UserKey u)"
| "bulk_key (ByUserClient u c) t = Some (UserKey u)"
| "bulk_key (ByClient c) t = Some (ClientKey c)"

text \<open>The condition of its \<open>UPDATE\<close> beside \<open>revoked = false\<close>; the subquery of \<open>ByCode\<close> reads the rows \<open>t\<close> of its start.\<close>

fun bulk_covers :: "bulk \<Rightarrow> tokens \<Rightarrow> refresh_token \<Rightarrow> bool" where
  "bulk_covers (ByFamily f) t r = (rt_familyId r = f)"
| "bulk_covers (ByCode c) t r = (rt_familyId r \<in> set (map rt_familyId (select_where (\<lambda>r. rt_authorizationCodeId r = Some c) t)))"
| "bulk_covers (ByUser u now) t r = (rt_userId r = u \<and> rt_expiresAt r > now)"
| "bulk_covers (ByUserClient u c) t r = (rt_userId r = u \<and> rt_oauthClientId r = c)"
| "bulk_covers (ByClient c) t r = (rt_oauthClientId r = c)"

text \<open>The rows a caller asks to revoke: for \<open>ByUser\<close> every token of the user, whatever its expiry.\<close>

fun bulk_targets :: "bulk \<Rightarrow> refresh_token \<Rightarrow> bool" where
  "bulk_targets (ByFamily f) r = (rt_familyId r = f)"
| "bulk_targets (ByCode c) r = (rt_authorizationCodeId r = Some c)"
| "bulk_targets (ByUser u now) r = (rt_userId r = u)"
| "bulk_targets (ByUserClient u c) r = (rt_userId r = u \<and> rt_oauthClientId r = c)"
| "bulk_targets (ByClient c) r = (rt_oauthClientId r = c)"

text \<open>
  Where a transaction stands. A rotation carries the row its request read; \<open>RotWon\<close> has won the
  compare-and-set at the time it carries and \<open>RotDone\<close> has inserted the child. A bulk revocation
  carries the families it was asked to revoke as they stood when it began, the lock it got, the rows
  of the statement's start, the ids it has still to visit and those it has revoked.
\<close>

datatype txn =
    RotStart refresh_token
  | RotUser refresh_token
  | RotLocked refresh_token
  | RotWon refresh_token ms
  | RotLost refresh_token
  | RotDone refresh_token ms refresh_token
  | NewStart refresh_token
  | NewLocked refresh_token
  | NewDone refresh_token
  | BulkStart bulk "string list"
  | BulkLocked bulk "string list" "lock_key option"
  | BulkUpdating bulk "string list" "lock_key option" tokens "string list" "(string \<times> ms \<times> string option) list"

text \<open>The locks it holds: \<open>True\<close> for \<open>pg_advisory_xact_lock\<close>, \<open>False\<close> for the shared one.\<close>

fun tx_locks :: "txn \<Rightarrow> (lock_key \<times> bool) set" where
  "tx_locks (RotUser r) = {(UserKey (rt_userId r), False)}"
| "tx_locks (RotLocked r) = {(UserKey (rt_userId r), False), (ClientKey (rt_oauthClientId r), False)}"
| "tx_locks (RotWon r now) = {(UserKey (rt_userId r), False), (ClientKey (rt_oauthClientId r), False)}"
| "tx_locks (RotLost r) = {(UserKey (rt_userId r), False), (ClientKey (rt_oauthClientId r), False)}"
| "tx_locks (RotDone r now child) = {(UserKey (rt_userId r), False), (ClientKey (rt_oauthClientId r), False)}"
| "tx_locks (NewLocked r) = {(ClientKey (rt_oauthClientId r), False)}"
| "tx_locks (NewDone r) = {(ClientKey (rt_oauthClientId r), False)}"
| "tx_locks (BulkLocked b known (Some k)) = {(k, True)}"
| "tx_locks (BulkUpdating b known (Some k) snap todo marks) = {(k, True)}"
| "tx_locks _ = {}"

text \<open>The rows it has revoked, with the time and the reason, and the rows it has inserted: what its commit writes.\<close>

fun tx_marks :: "txn \<Rightarrow> (string \<times> ms \<times> string option) list" where
  "tx_marks (RotWon r now) = [(rt_id r, now, Some ''rotated'')]"
| "tx_marks (RotDone r now child) = [(rt_id r, now, Some ''rotated'')]"
| "tx_marks (BulkUpdating b known k snap todo marks) = marks"
| "tx_marks _ = []"

fun tx_new :: "txn \<Rightarrow> tokens" where
  "tx_new (RotDone r now child) = [child]"
| "tx_new (NewDone r) = [r]"
| "tx_new _ = []"

fun can_commit :: "txn \<Rightarrow> bool" where
  "can_commit (RotLost r) = True"
| "can_commit (RotDone r now child) = True"
| "can_commit (NewDone r) = True"
| "can_commit (BulkUpdating b known k snap todo marks) = (todo = [])"
| "can_commit _ = False"

text \<open>The committed rows, the transactions in flight, and the ids and family ids ever drawn.\<close>

record lock_state =
  ls_rows :: tokens
  ls_txs :: "nat \<Rightarrow> txn option"
  ls_ids :: "string set"
  ls_families :: "string set"

definition set_tx :: "nat \<Rightarrow> txn option \<Rightarrow> lock_state \<Rightarrow> lock_state" where
  "set_tx n t s = s\<lparr>ls_txs := (ls_txs s)(n := t)\<rparr>"

definition can_share :: "lock_state \<Rightarrow> nat \<Rightarrow> lock_key \<Rightarrow> bool" where
  "can_share s n k \<longleftrightarrow> (\<forall>m t. m \<noteq> n \<longrightarrow> ls_txs s m = Some t \<longrightarrow> (k, True) \<notin> tx_locks t)"

definition can_exclude :: "lock_state \<Rightarrow> nat \<Rightarrow> lock_key \<Rightarrow> bool" where
  "can_exclude s n k \<longleftrightarrow> (\<forall>m t b. m \<noteq> n \<longrightarrow> ls_txs s m = Some t \<longrightarrow> (k, b) \<notin> tx_locks t)"

text \<open>An \<open>UPDATE\<close> goes on with a row once no other transaction holds an uncommitted change of it.\<close>

definition row_free :: "lock_state \<Rightarrow> nat \<Rightarrow> string \<Rightarrow> bool" where
  "row_free s n i \<longleftrightarrow> (\<forall>m t. m \<noteq> n \<longrightarrow> ls_txs s m = Some t \<longrightarrow> i \<notin> fst ` set (tx_marks t))"

definition mark_row :: "(string \<times> ms \<times> string option) list \<Rightarrow> refresh_token \<Rightarrow> refresh_token" where
  "mark_row marks r = (case map_of marks (rt_id r) of None \<Rightarrow> r | Some (now, reason) \<Rightarrow> revoked_as now reason r)"

definition commit_rows :: "txn \<Rightarrow> tokens \<Rightarrow> tokens" where
  "commit_rows t rows = map (mark_row (tx_marks t)) rows @ tx_new t"

definition commit_tx :: "nat \<Rightarrow> txn \<Rightarrow> lock_state \<Rightarrow> lock_state" where
  "commit_tx n t s = set_tx n None (s\<lparr>ls_rows := commit_rows t (ls_rows s)\<rparr>)"

text \<open>What no statement changes of a row: the owner, the client and the family.\<close>

definition ident :: "refresh_token \<Rightarrow> string \<times> string \<times> string" where
  "ident r = (rt_userId r, rt_oauthClientId r, rt_familyId r)"

definition live_row :: "lock_state \<Rightarrow> string \<Rightarrow> (refresh_token \<Rightarrow> bool) \<Rightarrow> bool" where
  "live_row s i cov \<longleftrightarrow> (\<exists>r \<in> set (ls_rows s). rt_id r = i \<and> cov r \<and> \<not> rt_revoked r)"

definition pending_rows :: "lock_state \<Rightarrow> refresh_token set" where
  "pending_rows s = {r. \<exists>m t. ls_txs s m = Some t \<and> r \<in> set (tx_new t)}"

text \<open>
  One statement of one transaction. A new family draws fresh ids, carries a code no stored or pending
  row carries (the unique index), and a rotation's child carries none.
\<close>

inductive lock_step :: "lock_state \<Rightarrow> lock_state \<Rightarrow> bool" where
  begin_rotation: "ls_txs s n = None \<Longrightarrow> r \<in> set (ls_rows s) \<Longrightarrow> lock_step s (set_tx n (Some (RotStart r)) s)"
| begin_new: "ls_txs s n = None \<Longrightarrow> lock_step s (set_tx n (Some (NewStart r)) s)"
| begin_bulk: "ls_txs s n = None \<Longrightarrow>
    lock_step s (set_tx n (Some (BulkStart b (map rt_familyId (filter (bulk_targets b) (ls_rows s))))) s)"
| rot_user: "ls_txs s n = Some (RotStart r) \<Longrightarrow> can_share s n (UserKey (rt_userId r)) \<Longrightarrow>
    lock_step s (set_tx n (Some (RotUser r)) s)"
| rot_client: "ls_txs s n = Some (RotUser r) \<Longrightarrow> can_share s n (ClientKey (rt_oauthClientId r)) \<Longrightarrow>
    lock_step s (set_tx n (Some (RotLocked r)) s)"
| rot_win: "ls_txs s n = Some (RotLocked r) \<Longrightarrow> row_free s n (rt_id r) \<Longrightarrow> live_row s (rt_id r) (\<lambda>_. True) \<Longrightarrow>
    lock_step s (set_tx n (Some (RotWon r now)) s)"
| rot_lose: "ls_txs s n = Some (RotLocked r) \<Longrightarrow> row_free s n (rt_id r) \<Longrightarrow> \<not> live_row s (rt_id r) (\<lambda>_. True) \<Longrightarrow>
    lock_step s (set_tx n (Some (RotLost r)) s)"
| rot_insert: "ls_txs s n = Some (RotWon r now) \<Longrightarrow> ident child = ident r \<Longrightarrow> rt_authorizationCodeId child = None \<Longrightarrow>
    rt_id child \<notin> ls_ids s \<Longrightarrow>
    lock_step s (set_tx n (Some (RotDone r now child)) (s\<lparr>ls_ids := insert (rt_id child) (ls_ids s)\<rparr>))"
| new_lock: "ls_txs s n = Some (NewStart r) \<Longrightarrow> can_share s n (ClientKey (rt_oauthClientId r)) \<Longrightarrow>
    lock_step s (set_tx n (Some (NewLocked r)) s)"
| new_insert: "ls_txs s n = Some (NewLocked r) \<Longrightarrow> rt_id r \<notin> ls_ids s \<Longrightarrow> rt_familyId r \<notin> ls_families s \<Longrightarrow>
    (\<forall>x \<in> set (ls_rows s) \<union> pending_rows s. rt_authorizationCodeId x = None \<or> rt_authorizationCodeId x \<noteq> rt_authorizationCodeId r) \<Longrightarrow>
    lock_step s (set_tx n (Some (NewDone r))
      (s\<lparr>ls_ids := insert (rt_id r) (ls_ids s), ls_families := insert (rt_familyId r) (ls_families s)\<rparr>))"
| bulk_lock: "ls_txs s n = Some (BulkStart b known) \<Longrightarrow> bulk_key b (ls_rows s) = Some k \<Longrightarrow> can_exclude s n k \<Longrightarrow>
    lock_step s (set_tx n (Some (BulkLocked b known (Some k))) s)"
| bulk_no_lock: "ls_txs s n = Some (BulkStart b known) \<Longrightarrow> bulk_key b (ls_rows s) = None \<Longrightarrow>
    lock_step s (set_tx n (Some (BulkLocked b known None)) s)"
| bulk_snapshot: "ls_txs s n = Some (BulkLocked b known k) \<Longrightarrow>
    lock_step s (set_tx n (Some (BulkUpdating b known k (ls_rows s)
      (map rt_id (filter (\<lambda>r. bulk_covers b (ls_rows s) r \<and> \<not> rt_revoked r) (ls_rows s))) [])) s)"
| bulk_row: "ls_txs s n = Some (BulkUpdating b known k snap (i # todo) marks) \<Longrightarrow> row_free s n i \<Longrightarrow>
    lock_step s (set_tx n (Some (BulkUpdating b known k snap todo
      (if live_row s i (bulk_covers b snap) then (i, now, reason) # marks else marks))) s)"
| commit: "ls_txs s n = Some t \<Longrightarrow> can_commit t \<Longrightarrow> lock_step s (commit_tx n t s)"
| abort: "ls_txs s n = Some t \<Longrightarrow> lock_step s (set_tx n None s)"

text \<open>It starts with no transaction in flight, from rows whose ids, families and codes each belong to one owner and client.\<close>

definition same_key :: "refresh_token \<Rightarrow> refresh_token \<Rightarrow> bool" where
  "same_key x y \<longleftrightarrow> rt_id x = rt_id y \<or> rt_familyId x = rt_familyId y
     \<or> (rt_authorizationCodeId x \<noteq> None \<and> rt_authorizationCodeId x = rt_authorizationCodeId y)"

definition one_owner :: "refresh_token set \<Rightarrow> bool" where
  "one_owner R \<longleftrightarrow> (\<forall>x \<in> R. \<forall>y \<in> R. same_key x y \<longrightarrow> ident x = ident y)"

inductive lock_reachable :: "lock_state \<Rightarrow> bool" where
  lock_start: "ls_txs s = (\<lambda>_. None) \<Longrightarrow> rt_id ` set (ls_rows s) \<subseteq> ls_ids s \<Longrightarrow>
    rt_familyId ` set (ls_rows s) \<subseteq> ls_families s \<Longrightarrow> one_owner (set (ls_rows s)) \<Longrightarrow> lock_reachable s"
| lock_next: "lock_reachable s \<Longrightarrow> lock_step s s' \<Longrightarrow> lock_reachable s'"


subsection \<open>The invariant\<close>

definition seen :: "lock_state \<Rightarrow> refresh_token set" where
  "seen s = set (ls_rows s) \<union> pending_rows s"

definition carried :: "tokens \<Rightarrow> refresh_token \<Rightarrow> bool" where
  "carried rows r \<longleftrightarrow> (\<exists>x \<in> set rows. rt_id x = rt_id r \<and> ident x = ident r)"

definition key_of :: "lock_key option \<Rightarrow> refresh_token \<Rightarrow> bool" where
  "key_of k x \<longleftrightarrow> k = Some (UserKey (rt_userId x)) \<or> k = Some (ClientKey (rt_oauthClientId x))"

fun guarded :: "bulk \<Rightarrow> bool" where
  "guarded (ByUser u now) = False"
| "guarded _ = True"

text \<open>
  What holds of each transaction: a rotation's row is stored; a new family is in no stored row; a
  revocation asked to end stored families holds the exclusive lock of their owner or client, and has
  revoked or has still to visit every live row of theirs.
\<close>

definition asked :: "tokens \<Rightarrow> bulk \<Rightarrow> string list \<Rightarrow> lock_key option \<Rightarrow> bool" where
  "asked rows b known k \<longleftrightarrow> (\<forall>f \<in> set known. \<exists>x \<in> set rows. rt_familyId x = f \<and> bulk_targets b x \<and> key_of k x)"

definition visiting :: "tokens \<Rightarrow> bulk \<Rightarrow> string list \<Rightarrow> tokens \<Rightarrow> string set \<Rightarrow> bool" where
  "visiting rows b known snap ids \<longleftrightarrow>
     (\<forall>y \<in> set rows. rt_familyId y \<in> set known \<longrightarrow> bulk_covers b snap y \<and> (rt_revoked y \<or> rt_id y \<in> ids))"

fun tx_ok :: "tokens \<Rightarrow> txn \<Rightarrow> bool" where
  "tx_ok rows (RotStart r) = carried rows r"
| "tx_ok rows (RotUser r) = carried rows r"
| "tx_ok rows (RotLocked r) = carried rows r"
| "tx_ok rows (RotWon r now) = carried rows r"
| "tx_ok rows (RotLost r) = carried rows r"
| "tx_ok rows (RotDone r now child) = (carried rows r \<and> ident child = ident r \<and> rt_authorizationCodeId child = None)"
| "tx_ok rows (NewStart r) = True"
| "tx_ok rows (NewLocked r) = True"
| "tx_ok rows (NewDone r) = (rt_familyId r \<notin> rt_familyId ` set rows)"
| "tx_ok rows (BulkStart b known) = (\<forall>f \<in> set known. \<exists>x \<in> set rows. rt_familyId x = f \<and> bulk_targets b x)"
| "tx_ok rows (BulkLocked b known k) = asked rows b known k"
| "tx_ok rows (BulkUpdating b known k snap todo marks) =
     (asked rows b known k \<and> (guarded b \<longrightarrow> visiting rows b known snap (set todo \<union> fst ` set marks)))"

definition locks_ok :: "lock_state \<Rightarrow> bool" where
  "locks_ok s \<longleftrightarrow> (\<forall>m n t u k b. m \<noteq> n \<longrightarrow> ls_txs s m = Some t \<longrightarrow> ls_txs s n = Some u
     \<longrightarrow> (k, True) \<in> tx_locks t \<longrightarrow> (k, b) \<notin> tx_locks u)"

definition new_ok :: "lock_state \<Rightarrow> bool" where
  "new_ok s \<longleftrightarrow> (\<forall>m n r t. m \<noteq> n \<longrightarrow> ls_txs s m = Some (NewDone r) \<longrightarrow> ls_txs s n = Some t
     \<longrightarrow> rt_familyId r \<notin> rt_familyId ` set (tx_new t))"

definition drawn_ok :: "lock_state \<Rightarrow> bool" where
  "drawn_ok s \<longleftrightarrow> rt_id ` seen s \<subseteq> ls_ids s \<and> rt_familyId ` seen s \<subseteq> ls_families s"

definition txs_ok :: "lock_state \<Rightarrow> bool" where
  "txs_ok s \<longleftrightarrow> (\<forall>m t. ls_txs s m = Some t \<longrightarrow> tx_ok (ls_rows s) t)"

definition lock_inv :: "lock_state \<Rightarrow> bool" where
  "lock_inv s \<longleftrightarrow> one_owner (seen s) \<and> drawn_ok s \<and> locks_ok s \<and> new_ok s \<and> txs_ok s"

lemma set_tx_simps [simp]:
  "ls_rows (set_tx n t s) = ls_rows s" "ls_ids (set_tx n t s) = ls_ids s" "ls_families (set_tx n t s) = ls_families s"
  "ls_txs (set_tx n t s) m = (if m = n then t else ls_txs s m)"
  by (simp_all add: set_tx_def)

lemma commit_tx_simps [simp]:
  "ls_rows (commit_tx n t s) = commit_rows t (ls_rows s)" "ls_ids (commit_tx n t s) = ls_ids s"
  "ls_families (commit_tx n t s) = ls_families s"
  "ls_txs (commit_tx n t s) m = (if m = n then None else ls_txs s m)"
  by (simp_all add: commit_tx_def)

lemma mark_row_keeps [simp]:
  "rt_id (mark_row marks r) = rt_id r" "ident (mark_row marks r) = ident r"
  "rt_authorizationCodeId (mark_row marks r) = rt_authorizationCodeId r" "rt_familyId (mark_row marks r) = rt_familyId r"
  "rt_userId (mark_row marks r) = rt_userId r" "rt_oauthClientId (mark_row marks r) = rt_oauthClientId r"
  "rt_expiresAt (mark_row marks r) = rt_expiresAt r"
  by (auto simp: mark_row_def revoked_as_def ident_def split: option.split)

lemma mark_row_revoked: "rt_revoked (mark_row marks r) \<longleftrightarrow> rt_revoked r \<or> rt_id r \<in> fst ` set marks"
proof (cases "map_of marks (rt_id r)")
  case None
  then have "rt_id r \<notin> fst ` set marks" by (simp add: map_of_eq_None_iff)
  with None show ?thesis by (simp add: mark_row_def)
next
  case (Some p)
  then have "rt_id r \<in> fst ` set marks" by (force dest: map_of_SomeD)
  then show ?thesis using Some by (simp add: mark_row_def revoked_as_def split: prod.split)
qed

lemma mark_row_bulk [simp]:
  "bulk_targets b (mark_row marks r) = bulk_targets b r" "bulk_covers b snap (mark_row marks r) = bulk_covers b snap r"
  "key_of k (mark_row marks r) = key_of k r"
  by (cases b; simp add: key_of_def)+

lemma identD:
  assumes "ident x = ident y"
  shows "rt_userId x = rt_userId y" "rt_oauthClientId x = rt_oauthClientId y" "rt_familyId x = rt_familyId y"
  using assms by (simp_all add: ident_def)

lemma one_ownerD:
  assumes "one_owner R" and "x \<in> R" and "y \<in> R"
  shows "rt_id x = rt_id y \<Longrightarrow> ident x = ident y" and "rt_familyId x = rt_familyId y \<Longrightarrow> ident x = ident y"
    and "rt_authorizationCodeId x = Some c \<Longrightarrow> rt_authorizationCodeId y = Some c \<Longrightarrow> ident x = ident y"
proof -
  have "same_key x y \<Longrightarrow> ident x = ident y" using assms unfolding one_owner_def by blast
  then show "rt_id x = rt_id y \<Longrightarrow> ident x = ident y" and "rt_familyId x = rt_familyId y \<Longrightarrow> ident x = ident y"
    and "rt_authorizationCodeId x = Some c \<Longrightarrow> rt_authorizationCodeId y = Some c \<Longrightarrow> ident x = ident y"
    by (simp_all add: same_key_def)
qed

lemma one_owner_through:
  assumes "one_owner R"
    and "\<And>z. z \<in> Q \<Longrightarrow> \<exists>x \<in> R. rt_id x = rt_id z \<and> ident x = ident z \<and> rt_authorizationCodeId x = rt_authorizationCodeId z"
  shows "one_owner Q"
  unfolding one_owner_def
proof (intro ballI impI)
  fix y z assume "y \<in> Q" "z \<in> Q" and k: "same_key y z"
  then obtain x w where x: "x \<in> R" "rt_id x = rt_id y" "ident x = ident y" "rt_authorizationCodeId x = rt_authorizationCodeId y"
    and w: "w \<in> R" "rt_id w = rt_id z" "ident w = ident z" "rt_authorizationCodeId w = rt_authorizationCodeId z"
    using assms(2) by meson
  have "same_key x w" using k x(2,4) w(2,4) identD(3)[OF x(3)] identD(3)[OF w(3)] by (simp add: same_key_def)
  then have "ident x = ident w" using assms(1) x(1) w(1) unfolding one_owner_def by blast
  then show "ident y = ident z" using x(3) w(3) by simp
qed

lemma one_owner_insert:
  assumes "one_owner R" and "\<And>x. x \<in> R \<Longrightarrow> same_key x r \<Longrightarrow> ident x = ident r"
  shows "one_owner (insert r R)"
  unfolding one_owner_def
proof (intro ballI impI)
  have sym: "same_key a b \<Longrightarrow> same_key b a" for a b unfolding same_key_def by metis
  fix x y assume "x \<in> insert r R" "y \<in> insert r R" "same_key x y"
  then consider "x = r" "y = r" | "x = r" "y \<in> R" | "x \<in> R" "y = r" | "x \<in> R" "y \<in> R" by blast
  then show "ident x = ident y"
  proof cases
    case 2
    then show ?thesis using assms(2)[of y] sym[of x y] \<open>same_key x y\<close> by simp
  next
    case 3
    then show ?thesis using assms(2)[of x] \<open>same_key x y\<close> by simp
  next
    case 4
    then show ?thesis using assms(1) \<open>same_key x y\<close> unfolding one_owner_def by blast
  qed simp
qed


subsection \<open>Every statement keeps it\<close>

lemma rows_seen: "x \<in> set (ls_rows s) \<Longrightarrow> x \<in> seen s"
  by (simp add: seen_def)

lemma pending_seen: "ls_txs s n = Some t \<Longrightarrow> x \<in> set (tx_new t) \<Longrightarrow> x \<in> seen s"
  by (auto simp: seen_def pending_rows_def)

lemma lock_invD:
  assumes "lock_inv s"
  shows "one_owner (seen s)" "drawn_ok s" "locks_ok s" "new_ok s" "txs_ok s" "ls_txs s m = Some t \<Longrightarrow> tx_ok (ls_rows s) t"
  using assms by (auto simp: lock_inv_def txs_ok_def)

lemma pending_set_tx:
  assumes "ls_txs s1 = ls_txs s"
  shows "pending_rows (set_tx n t s1) \<subseteq> (case t of None \<Rightarrow> {} | Some u \<Rightarrow> set (tx_new u)) \<union> pending_rows s"
  using assms by (auto simp: pending_rows_def split: if_splits)

lemma seen_set_tx:
  assumes "ls_txs s1 = ls_txs s" and "ls_rows s1 = ls_rows s"
  shows "seen (set_tx n t s1) \<subseteq> (case t of None \<Rightarrow> {} | Some u \<Rightarrow> set (tx_new u)) \<union> seen s"
  using pending_set_tx[OF assms(1), of n t] assms(2) by (auto simp: seen_def)

lemma seen_commit:
  assumes "ls_txs s n = Some t" and "z \<in> seen (commit_tx n t s)"
  shows "\<exists>x \<in> seen s. rt_id x = rt_id z \<and> ident x = ident z \<and> rt_authorizationCodeId x = rt_authorizationCodeId z"
proof -
  from assms(2) consider x where "x \<in> set (ls_rows s)" "z = mark_row (tx_marks t) x" | "z \<in> set (tx_new t)" | "z \<in> pending_rows s"
    by (auto simp: seen_def commit_rows_def pending_rows_def split: if_splits)
  then show ?thesis
  proof cases
    case 1
    then show ?thesis using rows_seen[of x s] by (intro bexI[of _ x]) simp_all
  next
    case 2
    then show ?thesis using pending_seen[OF assms(1), of z] by blast
  next
    case 3
    then show ?thesis by (auto simp: seen_def)
  qed
qed

lemma carried_commit: "carried rows r \<Longrightarrow> carried (commit_rows t rows) r"
  unfolding carried_def commit_rows_def by (metis UnI1 image_eqI list.set_map mark_row_keeps(1,2) set_append)

lemma asked_commit: "asked rows b known k \<Longrightarrow> asked (commit_rows t rows) b known k"
  unfolding asked_def commit_rows_def by (metis UnI1 image_eqI list.set_map mark_row_bulk(1,3) mark_row_keeps(4) set_append)

lemma carried_family: "carried rows r \<Longrightarrow> rt_familyId r \<in> rt_familyId ` set rows"
  unfolding carried_def by (metis identD(3) image_eqI)

text \<open>No transaction beside a revocation can hold the locks of a rotation of a family it was asked to end.\<close>

lemma rotation_excluded:
  assumes "lock_inv s" and "ls_txs s m = Some (BulkUpdating b known k snap todo marks)" and "ls_txs s n = Some t" and "m \<noteq> n"
    and "(UserKey (rt_userId r), False) \<in> tx_locks t" and "(ClientKey (rt_oauthClientId r), False) \<in> tx_locks t"
    and "carried (ls_rows s) r"
  shows "rt_familyId r \<notin> set known"
proof
  assume f: "rt_familyId r \<in> set known"
  have "asked (ls_rows s) b known k" using lock_invD(6)[OF assms(1,2)] by simp
  then obtain x where x: "x \<in> set (ls_rows s)" "rt_familyId x = rt_familyId r" "key_of k x" using f by (auto simp: asked_def)
  from assms(7) obtain y where y: "y \<in> set (ls_rows s)" "ident y = ident r" by (auto simp: carried_def)
  have "ident x = ident y"
    using one_ownerD(2)[OF lock_invD(1)[OF assms(1)] rows_seen[OF x(1)] rows_seen[OF y(1)]] x(2) identD(3)[OF y(2)] by simp
  then have o: "ident x = ident r" using y(2) by simp
  from x(3) obtain k' where k': "k = Some k'" "(k', False) \<in> tx_locks t"
    using assms(5,6) identD(1,2)[OF o] by (auto simp: key_of_def)
  have "(k', True) \<in> tx_locks (BulkUpdating b known k snap todo marks)" using k'(1) by simp
  then show False using lock_invD(3)[OF assms(1)] assms(2-4) k'(2) unfolding locks_ok_def by blast
qed

lemma pending_excluded:
  assumes "lock_inv s" and "ls_txs s m = Some (BulkUpdating b known k snap todo marks)" and "ls_txs s n = Some t" and "m \<noteq> n"
    and "z \<in> set (tx_new t)"
  shows "rt_familyId z \<notin> set known"
  using assms(5)
proof (cases t rule: tx_new.cases)
  case (1 r now child)
  with lock_invD(6)[OF assms(1,3)] have "carried (ls_rows s) r" "ident child = ident r" by simp_all
  then show ?thesis using rotation_excluded[OF assms(1-4), of r] 1 assms(5) identD(3)[of child r] by simp
next
  case (2 r)
  with lock_invD(6)[OF assms(1,3)] have "rt_familyId r \<notin> rt_familyId ` set (ls_rows s)" by simp
  moreover have "asked (ls_rows s) b known k" using lock_invD(6)[OF assms(1,2)] by simp
  ultimately have "rt_familyId r \<notin> set known" unfolding asked_def by (metis image_eqI)
  then show ?thesis using 2 assms(5) by simp
qed simp_all

lemma tx_ok_commit:
  assumes "lock_inv s" and "ls_txs s m = Some u" and "ls_txs s n = Some t" and "m \<noteq> n"
  shows "tx_ok (commit_rows t (ls_rows s)) u"
proof -
  note ok = lock_invD(6)[OF assms(1,2)]
  show ?thesis
  proof (cases u)
    case (NewDone r)
    then have "rt_familyId r \<notin> rt_familyId ` set (tx_new t)" using lock_invD(4)[OF assms(1)] assms(2-4) unfolding new_ok_def by blast
    then show ?thesis using NewDone ok by (auto simp: commit_rows_def)
  next
    case (BulkStart b known)
    have "\<exists>x \<in> set (commit_rows t (ls_rows s)). rt_familyId x = f \<and> bulk_targets b x" if "f \<in> set known" for f
    proof -
      from ok BulkStart that obtain x where "x \<in> set (ls_rows s)" "rt_familyId x = f" "bulk_targets b x" by auto
      then show ?thesis by (intro bexI[of _ "mark_row (tx_marks t) x"]) (simp_all add: commit_rows_def)
    qed
    then show ?thesis using BulkStart by simp
  next
    case (BulkLocked b known k)
    then show ?thesis using ok asked_commit by simp
  next
    case (BulkUpdating b known k snap todo marks)
    have "rt_familyId z \<notin> set known" if "z \<in> set (tx_new t)" for z
      using pending_excluded[OF assms(1) assms(2)[unfolded BulkUpdating] assms(3,4) that] .
    then have "visiting (ls_rows s) b known snap ids \<Longrightarrow> visiting (commit_rows t (ls_rows s)) b known snap ids" for ids
      by (auto simp: visiting_def commit_rows_def mark_row_revoked)
    then show ?thesis using ok BulkUpdating asked_commit by simp
  qed (use ok carried_commit in simp_all)
qed


text \<open>The lock a revocation asks for is that of every family it was asked to end.\<close>

lemma bulk_key_of_target:
  assumes "one_owner (set rows)" and "x \<in> set rows" and "bulk_targets b x"
  shows "key_of (bulk_key b rows) x"
proof -
  have hit: "\<exists>y \<in> set rows. P y \<and> limit1 (select_where P rows) = Some y" if "P x" for P
  proof -
    have "x \<in> set (filter P rows)" using assms(2) that by simp
    then obtain y ys where "filter P rows = y # ys" by (cases "filter P rows") auto
    moreover have "y \<in> set (filter P rows)" by (simp add: \<open>filter P rows = y # ys\<close>)
    then have "y \<in> set rows" "P y" by simp_all
    ultimately show ?thesis by (intro bexI[of _ y]) (simp_all add: limit1_def select_where_def)
  qed
  show ?thesis
  proof (cases b)
    case (ByFamily f)
    then have "rt_familyId x = f" using assms(3) by simp
    from hit[of "\<lambda>r. rt_familyId r = f", OF this] obtain y where y: "y \<in> set rows" "rt_familyId y = f" "limit1 (select_where (\<lambda>r. rt_familyId r = f) rows) = Some y"
      by blast
    have "ident y = ident x" by (rule one_ownerD(2)[OF assms(1) y(1) assms(2)]) (simp add: y(2) \<open>rt_familyId x = f\<close>)
    then show ?thesis using ByFamily y(3) identD(1)[of y x] by (simp add: key_of_def)
  next
    case (ByCode c)
    then have "rt_authorizationCodeId x = Some c" using assms(3) by simp
    from hit[of "\<lambda>r. rt_authorizationCodeId r = Some c", OF this] obtain y where y: "y \<in> set rows" "rt_authorizationCodeId y = Some c"
      "limit1 (select_where (\<lambda>r. rt_authorizationCodeId r = Some c) rows) = Some y" by blast
    have "ident y = ident x" using one_ownerD(3)[OF assms(1) y(1) assms(2) y(2)] \<open>rt_authorizationCodeId x = Some c\<close> by blast
    then show ?thesis using ByCode y(3) identD(1)[of y x] by (simp add: key_of_def)
  qed (use assms(3) in \<open>simp_all add: key_of_def\<close>)
qed

lemma asked_lock:
  assumes "one_owner (set rows)" and "tx_ok rows (BulkStart b known)"
  shows "asked rows b known (bulk_key b rows)"
  using assms(2) bulk_key_of_target[OF assms(1)] unfolding asked_def tx_ok.simps by blast

text \<open>The statement's start finds every live row of those families.\<close>

lemma target_covers_family:
  assumes "one_owner (set rows)" and "guarded b" and "x \<in> set rows" and "bulk_targets b x" and "y \<in> set rows"
    and "rt_familyId y = rt_familyId x"
  shows "bulk_covers b rows y"
proof -
  have "ident y = ident x" using one_ownerD(2)[OF assms(1,5,3,6)] .
  then show ?thesis using assms(2-4,6) identD[of y x] by (cases b) (auto simp: select_where_def)
qed

lemma visiting_start:
  assumes "one_owner (set rows)" and "asked rows b known k" and "guarded b"
  shows "visiting rows b known rows (set (map rt_id (filter (\<lambda>r. bulk_covers b rows r \<and> \<not> rt_revoked r) rows)) \<union> fst ` set [])"
proof -
  have "bulk_covers b rows y" if y: "y \<in> set rows" "rt_familyId y \<in> set known" for y
  proof -
    from assms(2) y(2) obtain x where "x \<in> set rows" "rt_familyId x = rt_familyId y" "bulk_targets b x" by (auto simp: asked_def)
    then show ?thesis using target_covers_family[OF assms(1,3)] y(1) by metis
  qed
  then show ?thesis by (auto simp: visiting_def)
qed

lemma visiting_row:
  assumes "visiting (ls_rows s) b known snap (set (i # todo) \<union> fst ` set marks)"
  shows "visiting (ls_rows s) b known snap
    (set todo \<union> fst ` set (if live_row s i (bulk_covers b snap) then (i, now, reason) # marks else marks))"
  using assms unfolding visiting_def live_row_def by auto

lemma one_owner_rows: "lock_inv s \<Longrightarrow> one_owner (set (ls_rows s))"
  using lock_invD(1) by (auto simp: one_owner_def seen_def)

lemma owner_of_insert:
  assumes "lock_inv s" and "carried (ls_rows s) r" and "ident c = ident r" and "rt_authorizationCodeId c = None" and "rt_id c \<notin> ls_ids s"
  shows "one_owner (insert c (seen s))"
proof (rule one_owner_insert[OF lock_invD(1)[OF assms(1)]])
  fix x assume x: "x \<in> seen s" "same_key x c"
  from assms(2) obtain y where y: "y \<in> set (ls_rows s)" "ident y = ident r" by (auto simp: carried_def)
  have "rt_id x \<noteq> rt_id c" using x(1) assms(5) lock_invD(2)[OF assms(1)] by (auto simp: drawn_ok_def)
  then have "rt_familyId x = rt_familyId y" using x(2) assms(4) identD(3)[OF assms(3)] identD(3)[OF y(2)] by (auto simp: same_key_def)
  then have "ident x = ident y" using one_ownerD(2)[OF lock_invD(1)[OF assms(1)] x(1) rows_seen[OF y(1)]] by simp
  then show "ident x = ident c" using y(2) assms(3) by simp
qed

lemma owner_of_new:
  assumes "lock_inv s" and "rt_id c \<notin> ls_ids s" and "rt_familyId c \<notin> ls_families s"
    and "\<forall>x \<in> set (ls_rows s) \<union> pending_rows s. rt_authorizationCodeId x = None \<or> rt_authorizationCodeId x \<noteq> rt_authorizationCodeId c"
  shows "one_owner (insert c (seen s))"
proof (rule one_owner_insert[OF lock_invD(1)[OF assms(1)]])
  fix x assume x: "x \<in> seen s" "same_key x c"
  have "rt_id x \<noteq> rt_id c" "rt_familyId x \<noteq> rt_familyId c"
    using x(1) assms(2,3) lock_invD(2)[OF assms(1)] by (auto simp: drawn_ok_def)
  then have "rt_authorizationCodeId x \<noteq> None" "rt_authorizationCodeId x = rt_authorizationCodeId c" using x(2) unfolding same_key_def by metis+
  then show "ident x = ident c" using x(1) assms(4) unfolding seen_def by metis
qed


definition granted :: "lock_state \<Rightarrow> nat \<Rightarrow> txn \<Rightarrow> bool" where
  "granted s n u \<longleftrightarrow> (\<forall>k b. (k, b) \<in> tx_locks u \<longrightarrow>
     (\<exists>t. ls_txs s n = Some t \<and> (k, b) \<in> tx_locks t) \<or> (\<not> b \<and> can_share s n k) \<or> can_exclude s n k)"

lemma locks_ok_set:
  assumes "locks_ok s" and "ls_txs s1 = ls_txs s" and "\<And>u. t = Some u \<Longrightarrow> granted s n u"
  shows "locks_ok (set_tx n t s1)"
  unfolding locks_ok_def
proof (intro allI impI notI)
  fix m m' a c k b
  assume mm: "m \<noteq> m'" and a: "ls_txs (set_tx n t s1) m = Some a" and c: "ls_txs (set_tx n t s1) m' = Some c"
    and ka: "(k, True) \<in> tx_locks a" and kc: "(k, b) \<in> tx_locks c"
  have old: "\<not> ((k, True) \<in> tx_locks x \<and> (k, b) \<in> tx_locks y)" if "i \<noteq> j" "ls_txs s i = Some x" "ls_txs s j = Some y" for i j x y b
    using assms(1) that unfolding locks_ok_def by blast
  consider "m = n" "m' \<noteq> n" | "m' = n" "m \<noteq> n" | "m \<noteq> n" "m' \<noteq> n" using mm by blast
  then show False
  proof cases
    case 1
    then have "t = Some a" "ls_txs s m' = Some c" using a c assms(2) by simp_all
    then show ?thesis using assms(3)[of a] ka kc old[of n m' _ c b] 1 unfolding granted_def can_exclude_def by blast
  next
    case 2
    then have "t = Some c" "ls_txs s m = Some a" using a c assms(2) by simp_all
    then show ?thesis using assms(3)[of c] ka kc old[of m n a] 2 unfolding granted_def can_exclude_def can_share_def by blast
  next
    case 3
    then show ?thesis using old[of m m' a c b] a c ka kc mm assms(2) by simp
  qed
qed

lemma inv_quiet:
  assumes "lock_inv s" and "\<And>u. t = Some u \<Longrightarrow> tx_new u = [] \<and> tx_ok (ls_rows s) u \<and> granted s n u"
  shows "lock_inv (set_tx n t s)"
proof -
  have new: "(case t of None \<Rightarrow> {} | Some u \<Rightarrow> set (tx_new u)) = {}" using assms(2) by (simp split: option.split)
  have sub: "seen (set_tx n t s) \<subseteq> seen s" using seen_set_tx[of s s n t] new by simp
  have "one_owner (seen (set_tx n t s))" using lock_invD(1)[OF assms(1)] sub unfolding one_owner_def by blast
  moreover have "drawn_ok (set_tx n t s)" using lock_invD(2)[OF assms(1)] sub unfolding drawn_ok_def by auto
  moreover have "locks_ok (set_tx n t s)" using locks_ok_set[OF lock_invD(3)[OF assms(1)]] assms(2) by blast
  moreover have "t \<noteq> Some (NewDone r)" for r using assms(2) by auto
  then have "new_ok (set_tx n t s)" using lock_invD(4)[OF assms(1)] assms(2) unfolding new_ok_def
    by (auto split: if_splits)
  moreover have "txs_ok (set_tx n t s)" using lock_invD(5)[OF assms(1)] assms(2) by (simp add: txs_ok_def)
  ultimately show ?thesis by (simp add: lock_inv_def)
qed

lemma inv_insert:
  assumes "lock_inv s" and "ls_txs s1 = ls_txs s" and "ls_rows s1 = ls_rows s"
    and "rt_id c \<in> ls_ids s1" "ls_ids s \<subseteq> ls_ids s1" "rt_familyId c \<in> ls_families s1" "ls_families s \<subseteq> ls_families s1"
    and "tx_new u = [c]" and "one_owner (insert c (seen s))" and "granted s n u" and "tx_ok (ls_rows s) u"
    and "\<And>m r. m \<noteq> n \<Longrightarrow> ls_txs s m = Some (NewDone r) \<Longrightarrow> rt_familyId r \<noteq> rt_familyId c"
    and "\<And>m r t. m \<noteq> n \<Longrightarrow> u = NewDone r \<Longrightarrow> ls_txs s m = Some t \<Longrightarrow> rt_familyId r \<notin> rt_familyId ` set (tx_new t)"
  shows "lock_inv (set_tx n (Some u) s1)"
proof -
  have sub: "seen (set_tx n (Some u) s1) \<subseteq> insert c (seen s)" using seen_set_tx[OF assms(2,3), of n "Some u"] assms(8) by simp
  have "one_owner (seen (set_tx n (Some u) s1))" using assms(9) sub unfolding one_owner_def by blast
  moreover have "drawn_ok (set_tx n (Some u) s1)"
  proof -
    have "rt_id ` seen (set_tx n (Some u) s1) \<subseteq> insert (rt_id c) (rt_id ` seen s)"
      "rt_familyId ` seen (set_tx n (Some u) s1) \<subseteq> insert (rt_familyId c) (rt_familyId ` seen s)" using sub by blast+
    moreover have "insert (rt_id c) (rt_id ` seen s) \<subseteq> ls_ids s1" "insert (rt_familyId c) (rt_familyId ` seen s) \<subseteq> ls_families s1"
      using lock_invD(2)[OF assms(1)] assms(4-7) by (auto simp: drawn_ok_def)
    ultimately show ?thesis unfolding drawn_ok_def set_tx_simps by blast
  qed
  moreover have "locks_ok (set_tx n (Some u) s1)" using locks_ok_set[OF lock_invD(3)[OF assms(1)] assms(2)] assms(10) by blast
  moreover have "new_ok (set_tx n (Some u) s1)"
    unfolding new_ok_def
  proof (intro allI impI)
    fix i j r t assume "i \<noteq> j" "ls_txs (set_tx n (Some u) s1) i = Some (NewDone r)" "ls_txs (set_tx n (Some u) s1) j = Some t"
    then show "rt_familyId r \<notin> rt_familyId ` set (tx_new t)"
      using lock_invD(4)[OF assms(1), unfolded new_ok_def, rule_format, of i j r t] assms(2,8) assms(12)[of i r] assms(13)[of j r t]
      by (cases "i = n"; cases "j = n") auto
  qed
  moreover have "txs_ok (set_tx n (Some u) s1)" using lock_invD(5)[OF assms(1)] assms(2,3,11) by (simp add: txs_ok_def)
  ultimately show ?thesis by (simp add: lock_inv_def)
qed

lemma inv_commit:
  assumes "lock_inv s" and "ls_txs s n = Some t"
  shows "lock_inv (commit_tx n t s)"
proof -
  note thru = seen_commit[OF assms(2)]
  have "one_owner (seen (commit_tx n t s))" using one_owner_through[OF lock_invD(1)[OF assms(1)] thru] .
  moreover have "drawn_ok (commit_tx n t s)"
    unfolding drawn_ok_def
  proof (intro conjI subsetI)
    fix i assume "i \<in> rt_id ` seen (commit_tx n t s)"
    then obtain z where "z \<in> seen (commit_tx n t s)" "i = rt_id z" by blast
    with thru obtain x where "x \<in> seen s" "rt_id x = i" by metis
    then show "i \<in> ls_ids (commit_tx n t s)" using lock_invD(2)[OF assms(1)] unfolding drawn_ok_def by auto
  next
    fix i assume "i \<in> rt_familyId ` seen (commit_tx n t s)"
    then obtain z where "z \<in> seen (commit_tx n t s)" "i = rt_familyId z" by blast
    with thru obtain x where "x \<in> seen s" "rt_familyId x = i" using identD(3) by metis
    then show "i \<in> ls_families (commit_tx n t s)" using lock_invD(2)[OF assms(1)] unfolding drawn_ok_def by auto
  qed
  moreover have "locks_ok (commit_tx n t s)" using lock_invD(3)[OF assms(1)] unfolding locks_ok_def by auto
  moreover have "new_ok (commit_tx n t s)" using lock_invD(4)[OF assms(1)] unfolding new_ok_def by auto
  moreover have "txs_ok (commit_tx n t s)" using tx_ok_commit[OF assms(1) _ assms(2)] by (simp add: txs_ok_def)
  ultimately show ?thesis by (simp add: lock_inv_def)
qed


theorem lock_inv_step:
  assumes "lock_inv s" and "lock_step s s'"
  shows "lock_inv s'"
  using assms(2,1)
proof (cases rule: lock_step.cases)
  case (begin_rotation n r)
  then show ?thesis using inv_quiet[OF assms(1), of "Some (RotStart r)" n] by (auto simp: granted_def carried_def)
next
  case (begin_new n r)
  then show ?thesis using inv_quiet[OF assms(1), of "Some (NewStart r)" n] by (auto simp: granted_def)
next
  case (begin_bulk n b)
  then show ?thesis using inv_quiet[OF assms(1), of "Some (BulkStart b (map rt_familyId (filter (bulk_targets b) (ls_rows s))))" n]
    by (auto simp: granted_def)
next
  case (rot_user n r)
  then show ?thesis using inv_quiet[OF assms(1), of "Some (RotUser r)" n] lock_invD(6)[OF assms(1) rot_user(2)] by (auto simp: granted_def)
next
  case (rot_client n r)
  then show ?thesis using inv_quiet[OF assms(1), of "Some (RotLocked r)" n] lock_invD(6)[OF assms(1) rot_client(2)] by (auto simp: granted_def)
next
  case (rot_win n r now)
  then show ?thesis using inv_quiet[OF assms(1), of "Some (RotWon r now)" n] lock_invD(6)[OF assms(1) rot_win(2)] by (auto simp: granted_def)
next
  case (rot_lose n r)
  then show ?thesis using inv_quiet[OF assms(1), of "Some (RotLost r)" n] lock_invD(6)[OF assms(1) rot_lose(2)] by (auto simp: granted_def)
next
  case (rot_insert n r now child)
  have ok: "carried (ls_rows s) r" using lock_invD(6)[OF assms(1) rot_insert(2)] by simp
  have fam: "rt_familyId child = rt_familyId r" using identD(3)[OF rot_insert(3)] .
  have "rt_familyId child \<in> rt_familyId ` set (ls_rows s)" using carried_family[OF ok] fam by simp
  moreover from this have "rt_familyId x \<noteq> rt_familyId child" if "ls_txs s m = Some (NewDone x)" for m x
    using lock_invD(6)[OF assms(1) that] by auto
  ultimately have "rt_familyId child \<in> ls_families s" and "\<And>m x. ls_txs s m = Some (NewDone x) \<Longrightarrow> rt_familyId x \<noteq> rt_familyId child"
    using lock_invD(2)[OF assms(1)] by (auto simp: drawn_ok_def seen_def)
  then show ?thesis unfolding rot_insert(1)
    using owner_of_insert[OF assms(1) ok rot_insert(3-5)] rot_insert(2) ok rot_insert(3,4)
    by (intro inv_insert[OF assms(1), where c = child]) (auto simp: granted_def)
next
  case (new_lock n r)
  then show ?thesis using inv_quiet[OF assms(1), of "Some (NewLocked r)" n] by (auto simp: granted_def)
next
  case (new_insert n r)
  have fresh: "x \<in> seen s \<Longrightarrow> rt_familyId x \<noteq> rt_familyId r" for x using lock_invD(2)[OF assms(1)] new_insert(4) by (auto simp: drawn_ok_def)
  then have "rt_familyId r \<notin> rt_familyId ` set (ls_rows s)" and "\<And>m t. ls_txs s m = Some t \<Longrightarrow> rt_familyId r \<notin> rt_familyId ` set (tx_new t)"
    using rows_seen pending_seen by fastforce+
  moreover from this have "\<And>m x. ls_txs s m = Some (NewDone x) \<Longrightarrow> rt_familyId x \<noteq> rt_familyId r" by fastforce
  ultimately show ?thesis unfolding new_insert(1)
    using owner_of_new[OF assms(1) new_insert(3-5)] new_insert(2)
    by (intro inv_insert[OF assms(1), where c = r]) (auto simp: granted_def)
next
  case (bulk_lock n b known k)
  then show ?thesis using inv_quiet[OF assms(1), of "Some (BulkLocked b known (Some k))" n]
      asked_lock[OF one_owner_rows[OF assms(1)] lock_invD(6)[OF assms(1) bulk_lock(2)]] by (auto simp: granted_def)
next
  case (bulk_no_lock n b known)
  then show ?thesis using inv_quiet[OF assms(1), of "Some (BulkLocked b known None)" n]
      asked_lock[OF one_owner_rows[OF assms(1)] lock_invD(6)[OF assms(1) bulk_no_lock(2)]] by (auto simp: granted_def)
next
  case (bulk_snapshot n b known k)
  have "asked (ls_rows s) b known k" using lock_invD(6)[OF assms(1) bulk_snapshot(2)] by simp
  then show ?thesis unfolding bulk_snapshot(1) using visiting_start[OF one_owner_rows[OF assms(1)]] bulk_snapshot(2)
    by (intro inv_quiet[OF assms(1)]) (cases k; force simp: granted_def)
next
  case (bulk_row n b known k snap i todo marks now reason)
  define marks' where "marks' = (if live_row s i (bulk_covers b snap) then (i, now, reason) # marks else marks)"
  define u where "u = BulkUpdating b known k snap todo marks'"
  have "tx_new u = [] \<and> tx_ok (ls_rows s) u"
    using lock_invD(6)[OF assms(1) bulk_row(2)] visiting_row[of s b known snap i todo marks now reason] by (auto simp: u_def marks'_def)
  moreover have "granted s n u" using bulk_row(2) by (cases k) (auto simp: u_def granted_def)
  ultimately show ?thesis unfolding bulk_row(1) using inv_quiet[OF assms(1), of "Some u" n] by (simp add: u_def marks'_def)
next
  case (commit n t)
  then show ?thesis using inv_commit[OF assms(1)] by simp
next
  case (abort n t)
  then show ?thesis using inv_quiet[OF assms(1), of None n] by simp
qed

theorem lock_inv_reachable: "lock_reachable s \<Longrightarrow> lock_inv s"
proof (induction rule: lock_reachable.induct)
  case (lock_start s)
  then show ?case
    by (auto simp: lock_inv_def drawn_ok_def locks_ok_def new_ok_def txs_ok_def seen_def pending_rows_def)
next
  case (lock_next s s')
  then show ?case using lock_inv_step by blast
qed


subsection \<open>A revoked family stays revoked\<close>

definition dead :: "string \<Rightarrow> lock_state \<Rightarrow> bool" where
  "dead f s \<longleftrightarrow> f \<in> ls_families s \<and> (\<forall>r \<in> set (ls_rows s). rt_familyId r = f \<longrightarrow> rt_revoked r)
     \<and> (\<forall>m t. ls_txs s m = Some t \<longrightarrow> f \<notin> rt_familyId ` set (tx_new t))
     \<and> (\<forall>m r now. ls_txs s m = Some (RotWon r now) \<longrightarrow> rt_familyId r \<noteq> f)"

lemma dead_set_tx:
  assumes "dead f s" and "ls_txs s1 = ls_txs s" and "ls_rows s1 = ls_rows s" and "ls_families s \<subseteq> ls_families s1"
    and "\<And>u. t = Some u \<Longrightarrow> f \<notin> rt_familyId ` set (tx_new u)"
    and "\<And>r now. t = Some (RotWon r now) \<Longrightarrow> rt_familyId r \<noteq> f"
  shows "dead f (set_tx n t s1)"
  using assms unfolding dead_def by auto

lemma won_row_of_family:
  assumes "lock_inv s" and "carried (ls_rows s) r" and "live_row s (rt_id r) (\<lambda>_. True)" and "dead f s"
  shows "rt_familyId r \<noteq> f"
proof
  assume f: "rt_familyId r = f"
  from assms(3) obtain x where x: "x \<in> set (ls_rows s)" "rt_id x = rt_id r" "\<not> rt_revoked x" by (auto simp: live_row_def)
  from assms(2) obtain y where y: "y \<in> set (ls_rows s)" "rt_id y = rt_id r" "ident y = ident r" by (auto simp: carried_def)
  have "ident x = ident y" using one_ownerD(1)[OF lock_invD(1)[OF assms(1)] rows_seen[OF x(1)] rows_seen[OF y(1)]] x(2) y(2) by simp
  then have "rt_familyId x = f" using identD(3)[of x y] identD(3)[OF y(3)] f by simp
  then show False using assms(4) x(1,3) by (simp add: dead_def)
qed

lemma dead_step:
  assumes "lock_inv s" and "dead f s" and "lock_step s s'"
  shows "dead f s'"
  using assms(3)
proof (cases rule: lock_step.cases)
  case (rot_win n r now)
  then have "rt_familyId r \<noteq> f" using won_row_of_family[OF assms(1) _ rot_win(4) assms(2)] lock_invD(6)[OF assms(1) rot_win(2)] by simp
  then show ?thesis unfolding rot_win(1) by (intro dead_set_tx[OF assms(2)]) auto
next
  case (rot_insert n r now child)
  then have "rt_familyId r \<noteq> f" using assms(2) unfolding dead_def by blast
  then have "rt_familyId child \<noteq> f" using identD(3)[OF rot_insert(3)] by simp
  then show ?thesis unfolding rot_insert(1) by (intro dead_set_tx[OF assms(2)]) auto
next
  case (new_insert n r)
  then have "rt_familyId r \<noteq> f" using assms(2) by (auto simp: dead_def)
  then show ?thesis unfolding new_insert(1) by (intro dead_set_tx[OF assms(2)]) auto
next
  case (commit n t)
  then show ?thesis using assms(2) by (auto simp: dead_def commit_rows_def mark_row_revoked)
qed (auto intro!: dead_set_tx[OF assms(2)])

lemma dead_steps: "lock_step\<^sup>*\<^sup>* s s' \<Longrightarrow> lock_inv s \<Longrightarrow> dead f s \<Longrightarrow> dead f s' \<and> lock_inv s'"
  by (induction rule: rtranclp_induct) (use dead_step lock_inv_step in blast)+

lemma dead_after_revocation:
  assumes "lock_inv s" and "ls_txs s n = Some (BulkUpdating b known k snap [] marks)" and "guarded b" and "f \<in> set known"
  shows "dead f (commit_tx n (BulkUpdating b known k snap [] marks) s)"
proof -
  note ok = lock_invD(6)[OF assms(1,2)]
  then obtain x where x: "x \<in> set (ls_rows s)" "rt_familyId x = f" using assms(4) by (auto simp: asked_def)
  then have "f \<in> ls_families s" using lock_invD(2)[OF assms(1)] by (auto simp: drawn_ok_def seen_def)
  moreover have "rt_revoked (mark_row marks r)" if "r \<in> set (ls_rows s)" "rt_familyId r = f" for r
    using ok that assms(3,4) by (auto simp: visiting_def mark_row_revoked)
  moreover have "f \<notin> rt_familyId ` set (tx_new t)" if "ls_txs s m = Some t" "m \<noteq> n" for m t
    using pending_excluded[OF assms(1,2) that(1)] that(2) assms(4) by auto
  moreover have won: "rt_familyId r \<noteq> f" if "ls_txs s m = Some (RotWon r now)" "m \<noteq> n" for m r now
    using rotation_excluded[OF assms(1,2) that(1), of r] that lock_invD(6)[OF assms(1) that(1)] assms(4) by auto
  moreover have "\<forall>m r now. ls_txs (commit_tx n (BulkUpdating b known k snap [] marks) s) m = Some (RotWon r now) \<longrightarrow> rt_familyId r \<noteq> f"
    using won by (metis commit_tx_simps(4) option.distinct(1))
  ultimately show ?thesis unfolding dead_def by (auto simp: commit_rows_def)
qed

text \<open>
  C2. In every interleaving of rotations, new families and revocations, statement by statement: once a
  revocation by family, by authorization code, by user and client or by client commits, no token of
  a family that was stored when it began and that it was asked to end is live, then or at any later
  time. A rotation in flight either committed before, and its child is revoked, or loses.
\<close>

theorem revoked_family_stays_revoked:
  assumes "lock_reachable s" and "ls_txs s n = Some (BulkUpdating b known k snap [] marks)"
    and "\<And>u now. b \<noteq> ByUser u now" and "f \<in> set known"
    and "lock_step\<^sup>*\<^sup>* (commit_tx n (BulkUpdating b known k snap [] marks) s) s'"
    and "r \<in> set (ls_rows s')" and "rt_familyId r = f"
  shows "rt_revoked r"
proof -
  have g: "guarded b" using assms(3) by (cases b) auto
  note inv = lock_inv_reachable[OF assms(1)]
  have "dead f (commit_tx n (BulkUpdating b known k snap [] marks) s)" by (rule dead_after_revocation[OF inv assms(2) g assms(4)])
  moreover have "lock_inv (commit_tx n (BulkUpdating b known k snap [] marks) s)" by (rule inv_commit[OF inv assms(2)])
  ultimately have "dead f s'" using dead_steps[OF assms(5)] by blast
  then show ?thesis using assms(6,7) by (simp add: dead_def)
qed


text \<open>One token of one family, for the concrete runs below.\<close>

definition example_token :: refresh_token where
  "example_token = \<lparr>rt_id = ''a'', rt_tokenHash = ''h'', rt_userId = ''u'', rt_oauthClientId = ''c'', rt_familyId = ''f'',
     rt_familyCreatedAt = 0, rt_familySessionExpiresAt = None, rt_authTime = None, rt_amr = None, rt_scopes = [], rt_resource = [],
     rt_expiresAt = 100, rt_revoked = False, rt_revokedAt = None, rt_revokedReason = None, rt_previousTokenHash = None, rt_cnfJkt = None,
     rt_authorizationCodeId = None, rt_createdAt = 0\<rparr>"

definition example_state :: "txn option \<Rightarrow> txn option \<Rightarrow> lock_state" where
  "example_state t u = \<lparr>ls_rows = [example_token], ls_txs = (\<lambda>_. None)(0 := t, 1 := u), ls_ids = {''a''}, ls_families = {''f''}\<rparr>"

lemma example_start: "lock_reachable (example_state None None)"
  by (rule lock_start) (simp_all add: example_state_def example_token_def one_owner_def fun_eq_iff)

lemma example_set_tx [simp]:
  "set_tx 0 t' (example_state t u) = example_state t' u" "set_tx 1 u' (example_state t u) = example_state t u'"
  "set_tx (Suc 0) u' (example_state t u) = example_state t u'"
  by (simp_all add: set_tx_def example_state_def fun_upd_twist)

lemma example_state_simps [simp]:
  "ls_rows (example_state t u) = [example_token]" "ls_txs (example_state t u) 0 = t" "ls_txs (example_state t u) (Suc 0) = u"
  "ls_ids (example_state t u) = {''a''}" "ls_families (example_state t u) = {''f''}"
  by (simp_all add: example_state_def)

lemma example_txs: "ls_txs (example_state t u) m = Some x \<Longrightarrow> (m = 0 \<and> t = Some x) \<or> (m = 1 \<and> u = Some x)"
  by (auto simp: example_state_def split: if_splits)

lemma example_rotation_begins: "lock_reachable (example_state None (Some (RotStart example_token)))"
  using lock_next[OF example_start begin_rotation[of _ 1 example_token]] by simp

lemma example_family_run:
  "lock_reachable (example_state (Some (BulkUpdating (ByFamily ''f'') [''f''] (Some (UserKey ''u'')) [example_token] []
     [(''a'', 5, None)])) (Some (RotStart example_token)))"
proof -
  let ?u = "Some (RotStart example_token)"
  have 1: "lock_reachable (example_state (Some (BulkStart (ByFamily ''f'') [''f''])) ?u)"
    using lock_next[OF example_rotation_begins begin_bulk[of _ 0 "ByFamily ''f''"]] by (simp add: example_token_def)
  have "can_exclude (example_state (Some (BulkStart (ByFamily ''f'') [''f''])) ?u) 0 (UserKey ''u'')"
    by (auto simp: can_exclude_def dest!: example_txs)
  then have 2: "lock_reachable (example_state (Some (BulkLocked (ByFamily ''f'') [''f''] (Some (UserKey ''u'')))) ?u)"
    using lock_next[OF 1 bulk_lock[of _ 0]] by (simp add: select_where_def limit1_def example_token_def)
  have 3: "lock_reachable (example_state (Some (BulkUpdating (ByFamily ''f'') [''f''] (Some (UserKey ''u'')) [example_token] [''a''] [])) ?u)"
    using lock_next[OF 2 bulk_snapshot[of _ 0]] by (simp add: example_token_def)
  have "row_free (example_state (Some (BulkUpdating (ByFamily ''f'') [''f''] (Some (UserKey ''u'')) [example_token] [''a''] [])) ?u) 0 ''a''"
    by (auto simp: row_free_def dest!: example_txs)
  from lock_next[OF 3 bulk_row[OF _ this, where now = 5 and reason = None]] show ?thesis
    by (simp add: live_row_def example_token_def)
qed

theorem revoked_family_stays_revoked_witness:
  "rt_revoked (hd (ls_rows (commit_tx 0 (BulkUpdating (ByFamily ''f'') [''f''] (Some (UserKey ''u'')) [example_token] []
     [(''a'', 5, None)]) (example_state (Some (BulkUpdating (ByFamily ''f'') [''f''] (Some (UserKey ''u'')) [example_token] []
     [(''a'', 5, None)])) (Some (RotStart example_token))))))"
  by (rule revoked_family_stays_revoked[OF example_family_run _ _ _ rtranclp.rtrancl_refl, of 0 "ByFamily ''f''" "[''f'']" "Some (UserKey ''u'')"
        "[example_token]" "[(''a'', 5, None)]" "''f''"])
     (simp_all add: commit_rows_def example_token_def)

text \<open>
  C33. The revocation of all of a user's tokens compares \<open>expires_at\<close> with its own time, so the guarantee
  above does not hold for it: a rotation whose request read the token just before it expired finds it
  unrevoked afterwards, and its child is live after the user signed out everywhere.
\<close>

theorem sign_out_everywhere_misses_a_rotation:
  "\<exists>s s' known k snap marks r. lock_reachable s
     \<and> ls_txs s 0 = Some (BulkUpdating (ByUser ''u'' 101) known k snap [] marks) \<and> ''f'' \<in> set known
     \<and> lock_step\<^sup>*\<^sup>* (commit_tx 0 (BulkUpdating (ByUser ''u'' 101) known k snap [] marks) s) s'
     \<and> r \<in> set (ls_rows s') \<and> rt_familyId r = ''f'' \<and> rt_userId r = ''u'' \<and> \<not> rt_revoked r \<and> rt_expiresAt r > 101"
proof -
  let ?u = "Some (RotStart example_token)" and ?b = "ByUser ''u'' 101" and ?k = "Some (UserKey ''u'')"
  let ?t = "BulkUpdating ?b [''f''] ?k [example_token] [] []"
  let ?child = "example_token\<lparr>rt_id := ''b'', rt_tokenHash := ''h2'', rt_expiresAt := 1000\<rparr>"
  have 1: "lock_reachable (example_state (Some (BulkStart ?b [''f''])) ?u)"
    using lock_next[OF example_rotation_begins begin_bulk[of _ 0 ?b]] by (simp add: example_token_def)
  have "can_exclude (example_state (Some (BulkStart ?b [''f''])) ?u) 0 (UserKey ''u'')"
    by (auto simp: can_exclude_def dest!: example_txs)
  then have 2: "lock_reachable (example_state (Some (BulkLocked ?b [''f''] ?k)) ?u)"
    using lock_next[OF 1 bulk_lock[of _ 0]] by simp
  have 3: "lock_reachable (example_state (Some ?t) ?u)"
    using lock_next[OF 2 bulk_snapshot[of _ 0]] by (simp add: example_token_def)
  have c: "commit_tx 0 ?t (example_state (Some ?t) ?u) = example_state None ?u"
    by (simp add: commit_tx_def commit_rows_def set_tx_def example_state_def mark_row_def fun_eq_iff)
  have share: "can_share (example_state None (Some x)) 1 k" for x k by (auto simp: can_share_def dest!: example_txs)
  have free: "row_free (example_state None (Some x)) 1 i" for x i by (auto simp: row_free_def dest!: example_txs)
  have 4: "lock_step (example_state None ?u) (example_state None (Some (RotUser example_token)))"
    using rot_user[of "example_state None ?u" 1 example_token] share by simp
  have 5: "lock_step (example_state None (Some (RotUser example_token))) (example_state None (Some (RotLocked example_token)))"
    using rot_client[of "example_state None (Some (RotUser example_token))" 1 example_token] share by simp
  have 6: "lock_step (example_state None (Some (RotLocked example_token))) (example_state None (Some (RotWon example_token 102)))"
    using rot_win[of "example_state None (Some (RotLocked example_token))" 1 example_token] free
    by (simp add: live_row_def) (simp add: example_token_def)
  let ?s = "set_tx 1 (Some (RotDone example_token 102 ?child)) (example_state None (Some (RotWon example_token 102))\<lparr>ls_ids := {''b'', ''a''}\<rparr>)"
  have 7: "lock_step (example_state None (Some (RotWon example_token 102))) ?s"
    using rot_insert[of "example_state None (Some (RotWon example_token 102))" 1 example_token 102 ?child]
    by (simp add: ident_def) (simp add: example_token_def)
  have 8: "lock_step ?s (commit_tx 1 (RotDone example_token 102 ?child) ?s)" by (rule commit) simp_all
  have "lock_step\<^sup>*\<^sup>* (commit_tx 0 ?t (example_state (Some ?t) ?u)) (commit_tx 1 (RotDone example_token 102 ?child) ?s)"
    unfolding c using 4 5 6 7 8 by (meson converse_rtranclp_into_rtranclp rtranclp.rtrancl_refl)
  moreover have "?child \<in> set (ls_rows (commit_tx 1 (RotDone example_token 102 ?child) ?s))" by (simp add: commit_rows_def)
  moreover have "rt_familyId ?child = ''f'' \<and> rt_userId ?child = ''u'' \<and> \<not> rt_revoked ?child \<and> rt_expiresAt ?child > 101"
    by (simp add: example_token_def)
  moreover have "ls_txs (example_state (Some ?t) ?u) 0 = Some ?t" by simp
  ultimately show ?thesis using 3 by (metis list.set_intros(1))
qed

end
