(* ===== verification/Admin_Authority.thy ===== *)
theory Admin_Authority
  imports Scopes "HOL-Library.Product_Lexorder" "HOL-Library.Char_ord" "HOL-Library.List_Lexorder"
begin

text \<open>
  Who administers what: the permission catalog, the built-in and custom roles, the grants and what
  an admin token may do to a realm
  (\<open>apps/auth-server/src/app/helpers/admin-permissions.ts\<close>, \<open>admin-roles.ts\<close>, \<open>admin-authority.ts\<close>,
  \<open>admin-issuance.ts\<close> and the repositories \<open>admin-roles.repository.ts\<close>,
  \<open>admin-grants.repository.ts\<close> under \<open>libs/infra/db\<close>). The database's clock, the ids it draws and
  the id shapes of the validation library are arguments.
\<close>

subsection \<open>The permission catalog\<close>

record admin_permission =
  ap_id :: string
  ap_class :: permission_class
  ap_resource :: string
  ap_retiredIn :: "string option"

fun class_name :: "permission_class \<Rightarrow> string" where
  "class_name ReadClass = ''read''"
| "class_name WriteClass = ''write''"
| "class_name SecurityClass = ''security''"

definition is_lower :: "char \<Rightarrow> bool" where
  "is_lower c \<longleftrightarrow> c \<in> set ''abcdefghijklmnopqrstuvwxyz''"

definition is_alnum :: "char \<Rightarrow> bool" where
  "is_alnum c \<longleftrightarrow> c \<in> set ''abcdefghijklmnopqrstuvwxyzABCDEFGHIJKLMNOPQRSTUVWXYZ0123456789''"

definition camel_segment :: "string \<Rightarrow> bool" where
  "camel_segment s = (case s of [] \<Rightarrow> False | c # cs \<Rightarrow> is_lower c \<and> list_all is_alnum cs)"

definition RESOURCE_PATTERN :: "string \<Rightarrow> bool" where
  "RESOURCE_PATTERN s = list_all camel_segment (split_on (CHR ''.'') s)"

definition PERMISSION_ID_PATTERN :: "string \<Rightarrow> bool" where
  "PERMISSION_ID_PATTERN s \<longleftrightarrow> RESOURCE_PATTERN s \<and> length (split_on (CHR ''.'') s) \<ge> 2"

datatype permission_error = BadPermissionId | BadResource | ClassNotInId | DefinedTwice | DifferOnlyInCase

text \<open>The checks of an entry but those of its description and of its release tag, which nothing else reads.\<close>

definition assertPermission :: "admin_permission \<Rightarrow> permission_error option" where
  "assertPermission p =
     (if \<not> PERMISSION_ID_PATTERN (ap_id p) then Some BadPermissionId
      else if \<not> RESOURCE_PATTERN (ap_resource p) \<or> take (length (ap_resource p) + 1) (ap_id p) \<noteq> ap_resource p @ ''.'' then Some BadResource
      else let action = last (split_on (CHR ''.'') (ap_id p))
           in if action \<in> set (map class_name PERMISSION_CLASSES) \<and> action \<noteq> class_name (ap_class p) then Some ClassNotInId else None)"

type_synonym registry = "admin_permission list"

fun registry_loop :: "admin_permission list \<Rightarrow> registry \<Rightarrow> permission_error + registry" where
  "registry_loop [] done = Inr done"
| "registry_loop (p # ps) done =
     (case assertPermission p of
        Some e \<Rightarrow> Inl e
      | None \<Rightarrow> (case find (\<lambda>q. map to_lower (ap_id q) = map to_lower (ap_id p)) done of
            Some q \<Rightarrow> Inl (if ap_id q = ap_id p then DefinedTwice else DifferOnlyInCase)
          | None \<Rightarrow> registry_loop ps (done @ [p])))"

definition createPermissionRegistry :: "admin_permission list \<Rightarrow> permission_error + registry" where
  "createPermissionRegistry ps = registry_loop ps []"

definition reg_active :: "registry \<Rightarrow> admin_permission list" where
  "reg_active reg = filter (\<lambda>p. ap_retiredIn p = None) reg"

definition reg_get :: "registry \<Rightarrow> string \<Rightarrow> admin_permission option" where
  "reg_get reg i = find (\<lambda>p. ap_id p = i) reg"

definition isGrantable :: "registry \<Rightarrow> string \<Rightarrow> bool" where
  "isGrantable reg i = (case reg_get reg i of None \<Rightarrow> False | Some p \<Rightarrow> ap_retiredIn p = None)"

definition ofClass :: "registry \<Rightarrow> permission_class \<Rightarrow> admin_permission list" where
  "ofClass reg c = filter (\<lambda>p. ap_class p = c) (reg_active reg)"

definition ADMIN_PERMISSIONS :: "admin_permission list" where
  "ADMIN_PERMISSIONS = map (\<lambda>(i, c, r). \<lparr>ap_id = i, ap_class = c, ap_resource = r, ap_retiredIn = None\<rparr>)
     [(''realms.read'', ReadClass, ''realms''), (''realms.export'', ReadClass, ''realms''),
      (''realms.import.plan'', ReadClass, ''realms''), (''realms.policies.write'', WriteClass, ''realms.policies''),
      (''realms.policies.security'', SecurityClass, ''realms.policies''), (''plugins.read'', ReadClass, ''plugins''),
      (''plugins.write'', WriteClass, ''plugins''), (''plugins.security'', SecurityClass, ''plugins''),
      (''approvals.read'', ReadClass, ''approvals''), (''approvals.approve'', SecurityClass, ''approvals'')]"

subsection \<open>Roles\<close>

definition BUILT_IN_ROLE_CLASSES :: "(string \<times> permission_class list) list" where
  "BUILT_IN_ROLE_CLASSES = [(''viewer'', [ReadClass]), (''editor'', [ReadClass, WriteClass]),
     (''security-admin'', [ReadClass, WriteClass, SecurityClass])]"

definition BUILT_IN_ROLE_NAMES :: "string list" where
  "BUILT_IN_ROLE_NAMES = map fst BUILT_IN_ROLE_CLASSES"

definition builtInRolesOf :: "registry \<Rightarrow> string \<Rightarrow> string list option" where
  "builtInRolesOf reg name = map_option (\<lambda>cs. map ap_id (filter (\<lambda>p. ap_class p \<in> set cs) (reg_active reg)))
     (map_of BUILT_IN_ROLE_CLASSES name)"

fun customRole_loop :: "registry \<Rightarrow> string list \<Rightarrow> string list \<Rightarrow> string list \<Rightarrow> string list \<Rightarrow> string list \<times> string list \<times> string list" where
  "customRole_loop reg [] unknown retired listed = (unknown, retired, listed)"
| "customRole_loop reg (i # is) unknown retired listed = (case reg_get reg i of
      None \<Rightarrow> customRole_loop reg is (unknown @ [i]) retired listed
    | Some p \<Rightarrow> if ap_retiredIn p \<noteq> None then customRole_loop reg is unknown (retired @ [i]) listed
        else customRole_loop reg is unknown retired (listed @ [i]))"

definition validateCustomRole :: "registry \<Rightarrow> string list \<Rightarrow> string list \<times> string list + string list" where
  "validateCustomRole reg ids = (let (unknown, retired, listed) = customRole_loop reg ids [] [] [] in
     if unknown \<noteq> [] \<or> retired \<noteq> [] then Inl (unknown, retired)
     else Inr (map ap_id (filter (\<lambda>p. ap_id p \<in> set listed) (reg_active reg))))"

definition effectivePermissions :: "registry \<Rightarrow> string list \<Rightarrow> token_scopes \<Rightarrow> string list" where
  "effectivePermissions reg rolePermissions ts = dedup (filter (\<lambda>i. isGrantable reg i
     \<and> (case reg_get reg i of None \<Rightarrow> False | Some p \<Rightarrow> ap_class p \<in> set (allowedPermissionClasses ts))) rolePermissions)"

record admin_role =
  ar_id :: string
  ar_realmId :: string
  ar_name :: string
  ar_permissionIds :: "string list"
  ar_disabledAt :: "ms option"

record admin_grant =
  ag_id :: string
  ag_userId :: string
  ag_builtInRole :: "string option"
  ag_roleId :: "string option"
  ag_targetRealmId :: "string option"
  ag_createdBy :: "string option"
  ag_createdAt :: ms
  ag_lastSecurityChangeAt :: ms
  ag_revokedAt :: "ms option"

record admin_db =
  db_realms :: realms
  db_users :: users
  db_roles :: "admin_role tab"
  db_grants :: "admin_grant tab"

datatype admin_error = BadRequest string | GrantConflict | RoleNameTaken

definition ADMIN_ROLE_NAME_MAX_LENGTH :: nat where "ADMIN_ROLE_NAME_MAX_LENGTH = 64"

definition isAdminRecordId :: "string \<Rightarrow> bool" where
  "isAdminRecordId s = UUID_PATTERN s"

text \<open>Words of lower-case letters and digits joined by single hyphens, the first starting with a letter.\<close>

definition isAdminRoleName :: "string \<Rightarrow> bool" where
  "isAdminRoleName s \<longleftrightarrow> length s \<le> ADMIN_ROLE_NAME_MAX_LENGTH
     \<and> (case s of [] \<Rightarrow> False | c # _ \<Rightarrow> is_lower c)
     \<and> list_all (\<lambda>w. w \<noteq> [] \<and> list_all (\<lambda>c. is_lower c \<or> c \<in> set ''0123456789'') w) (split_on (CHR ''-'') s)"


text \<open>\<open>foldRoleName\<close> on ASCII names: lower case, runs of white space, underscores and hyphens one hyphen, trimmed.\<close>

definition is_sep :: "char \<Rightarrow> bool" where
  "is_sep c \<longleftrightarrow> is_space c \<or> c = CHR ''_'' \<or> c = CHR ''-''"

fun fold_seps :: "string \<Rightarrow> string" where
  "fold_seps [] = []"
| "fold_seps (c # cs) = (if is_sep c
     then (case cs of [] \<Rightarrow> ''-'' | d # _ \<Rightarrow> if is_sep d then fold_seps cs else CHR ''-'' # fold_seps cs)
     else c # fold_seps cs)"

definition foldRoleName :: "string \<Rightarrow> string" where
  "foldRoleName name = (let trim = dropWhile (\<lambda>c. c = CHR ''-'')
     in rev (trim (rev (trim (fold_seps (map to_lower name))))))"

definition builtInRoleNameOf :: "string \<Rightarrow> string option" where
  "builtInRoleNameOf name = find (\<lambda>b. b = foldRoleName name) BUILT_IN_ROLE_NAMES"

definition isBuiltInRoleName :: "string \<Rightarrow> bool" where
  "isBuiltInRoleName name \<longleftrightarrow> builtInRoleNameOf name \<noteq> None"

definition checkedPermissionIds :: "registry \<Rightarrow> string list \<Rightarrow> admin_error + string list" where
  "checkedPermissionIds reg ids = (case validateCustomRole reg ids of
      Inl _ \<Rightarrow> Inl (BadRequest ''permissions it cannot hold'') | Inr ok \<Rightarrow> Inr ok)"

subsection \<open>The roles repository\<close>

definition role_create :: "registry \<Rightarrow> string \<Rightarrow> string \<Rightarrow> string \<Rightarrow> string list \<Rightarrow> admin_db \<Rightarrow> admin_error + admin_role \<times> admin_db" where
  "role_create reg newId realmId name ids db =
     (if \<not> isAdminRecordId realmId then Inl (BadRequest ''realm id'')
      else if \<not> isAdminRoleName name then Inl (BadRequest ''role name'')
      else if isBuiltInRoleName name then Inl (BadRequest ''built-in role name'')
      else case checkedPermissionIds reg ids of
             Inl e \<Rightarrow> Inl e
           | Inr ok \<Rightarrow>
               if (realmId, name) \<in> set (map (\<lambda>r. (ar_realmId r, ar_name r)) (db_roles db)) then Inl RoleNameTaken
               else let r = \<lparr>ar_id = newId, ar_realmId = realmId, ar_name = name, ar_permissionIds = ok, ar_disabledAt = None\<rparr>
                    in Inr (r, db\<lparr>db_roles := db_roles db @ [r]\<rparr>))"

definition role_findById :: "string \<Rightarrow> string \<Rightarrow> admin_db \<Rightarrow> admin_role option" where
  "role_findById realmId roleId db =
     (if \<not> isAdminRecordId realmId \<or> \<not> isAdminRecordId roleId then None
      else limit1 (select_where (\<lambda>r. ar_id r = roleId \<and> ar_realmId r = realmId) (db_roles db)))"

definition role_listByRealm :: "string \<Rightarrow> admin_db \<Rightarrow> admin_role list" where
  "role_listByRealm realmId db = (if \<not> isAdminRecordId realmId then []
     else sort_key ar_name (select_where (\<lambda>r. ar_realmId r = realmId) (db_roles db)))"

record role_changes =
  rch_permissionIds :: "string list option"
  rch_disabled :: "bool option"

text \<open>Every live grant of a role that changed is stamped: what it gives changed.\<close>

definition role_update :: "registry \<Rightarrow> ms \<Rightarrow> string \<Rightarrow> string \<Rightarrow> role_changes \<Rightarrow> admin_db \<Rightarrow> admin_error + admin_role option \<times> admin_db" where
  "role_update reg clock realmId roleId ch db =
     (if \<not> isAdminRecordId realmId \<or> \<not> isAdminRecordId roleId then Inr (None, db)
      else case (case rch_permissionIds ch of None \<Rightarrow> Inr None | Some ids \<Rightarrow> map_sum id Some (checkedPermissionIds reg ids)) of
        Inl e \<Rightarrow> Inl e
      | Inr ids \<Rightarrow>
          (case limit1 (select_where (\<lambda>r. ar_id r = roleId \<and> ar_realmId r = realmId) (db_roles db)) of
             None \<Rightarrow> Inr (None, db)
           | Some cur \<Rightarrow>
               let permissionsChange = (case ids of None \<Rightarrow> False | Some is \<Rightarrow> is \<noteq> ar_permissionIds cur);
                   disabledChange = (case rch_disabled ch of None \<Rightarrow> False | Some d \<Rightarrow> d \<noteq> (ar_disabledAt cur \<noteq> None))
               in if \<not> permissionsChange \<and> \<not> disabledChange then Inr (Some cur, db)
                  else
                    let f = (\<lambda>r. r\<lparr>ar_permissionIds := (if permissionsChange then (case ids of None \<Rightarrow> [] | Some is \<Rightarrow> is) else ar_permissionIds r),
                                 ar_disabledAt := (if disabledChange then (if rch_disabled ch = Some True then Some clock else None) else ar_disabledAt r)\<rparr>);
                        (rows, roles') = update_where (\<lambda>r. ar_id r = roleId) f (db_roles db);
                        (_, grants') = update_where (\<lambda>g. ag_roleId g = Some roleId \<and> ag_revokedAt g = None)
                           (\<lambda>g. g\<lparr>ag_lastSecurityChangeAt := max clock (ag_lastSecurityChangeAt g)\<rparr>) (db_grants db)
                    in Inr (limit1 rows, db\<lparr>db_roles := roles', db_grants := grants'\<rparr>)))"

subsection \<open>The grants repository\<close>

datatype grant_role = BuiltInRole string | CustomRole string

record new_grant =
  ng_userId :: string
  ng_role :: grant_role
  ng_targetRealmId :: "string option"
  ng_createdBy :: "string option"

text \<open>The account a grant is for, with whether its realm is the operator's.\<close>

definition grant_account :: "admin_db \<Rightarrow> string \<Rightarrow> (string \<times> bool) option" where
  "grant_account db userId = limit1 (concat (map (\<lambda>u. map (\<lambda>r. (ur_realmId u, rl_isOperator r))
     (select_where (\<lambda>r. rl_id r = ur_realmId u) (db_realms db))) (select_where (\<lambda>u. ur_id u = userId) (db_users db))))"

definition resolve_grant_role :: "admin_db \<Rightarrow> string \<Rightarrow> string option \<Rightarrow> grant_role \<Rightarrow> admin_error + string option \<times> string option" where
  "resolve_grant_role db accountRealm target role = (case role of
      BuiltInRole name \<Rightarrow> if name \<notin> set BUILT_IN_ROLE_NAMES then Inl (BadRequest ''not a built-in role'') else Inr (Some name, None)
    | CustomRole roleId \<Rightarrow>
        (case (if isAdminRecordId roleId then limit1 (select_where (\<lambda>r. ar_id r = roleId) (db_roles db)) else None) of
           None \<Rightarrow> Inl (BadRequest ''no such role'')
         | Some r \<Rightarrow> if ar_realmId r \<noteq> accountRealm \<and> Some (ar_realmId r) \<noteq> target then Inl (BadRequest ''role of another realm'')
             else if ar_disabledAt r \<noteq> None then Inl (BadRequest ''disabled role'') else Inr (None, Some roleId)))"

definition live_key :: "admin_grant \<Rightarrow> string \<times> string option \<times> string option \<times> string option" where
  "live_key g = (ag_userId g, ag_roleId g, (if ag_roleId g = None then ag_builtInRole g else None), ag_targetRealmId g)"

definition grant_create :: "string \<Rightarrow> ms \<Rightarrow> new_grant \<Rightarrow> admin_db \<Rightarrow> admin_error + admin_grant \<times> admin_db" where
  "grant_create newId clock ng db =
     (if \<not> isAdminRecordId (ng_userId ng) then Inl (BadRequest ''account id'')
      else if (case ng_targetRealmId ng of None \<Rightarrow> False | Some t \<Rightarrow> \<not> isAdminRecordId t) then Inl (BadRequest ''target realm id'')
      else if (case ng_createdBy ng of None \<Rightarrow> False | Some c \<Rightarrow> \<not> isAdminRecordId c) then Inl (BadRequest ''creator id'')
      else case grant_account db (ng_userId ng) of
        None \<Rightarrow> Inl (BadRequest ''no such account'')
      | Some (realm, isOperator) \<Rightarrow>
          if ng_targetRealmId ng = None \<and> \<not> isOperator then Inl (BadRequest ''every realm is the operator's'')
          else if (case ng_targetRealmId ng of None \<Rightarrow> False | Some t \<Rightarrow> t \<noteq> realm \<and> \<not> isOperator) then Inl (BadRequest ''own realm only'')
          else if (case ng_targetRealmId ng of None \<Rightarrow> False | Some t \<Rightarrow> realm_findById t (db_realms db) = None) then Inl (BadRequest ''no such realm'')
          else case resolve_grant_role db realm (ng_targetRealmId ng) (ng_role ng) of
            Inl e \<Rightarrow> Inl e
          | Inr (builtIn, roleId) \<Rightarrow>
              let g = \<lparr>ag_id = newId, ag_userId = ng_userId ng, ag_builtInRole = builtIn, ag_roleId = roleId,
                    ag_targetRealmId = ng_targetRealmId ng, ag_createdBy = ng_createdBy ng, ag_createdAt = clock,
                    ag_lastSecurityChangeAt = clock, ag_revokedAt = None\<rparr>
              in if live_key g \<in> set (map live_key (select_where (\<lambda>x. ag_revokedAt x = None) (db_grants db))) then Inl GrantConflict
                 else Inr (g, db\<lparr>db_grants := db_grants db @ [g]\<rparr>))"

definition heldInRealm :: "admin_db \<Rightarrow> string \<Rightarrow> admin_grant \<Rightarrow> bool" where
  "heldInRealm db realmId g \<longleftrightarrow> ag_userId g \<in> set (map ur_id (select_where (\<lambda>u. ur_realmId u = realmId) (db_users db)))"

definition seenFromRealm :: "admin_db \<Rightarrow> string \<Rightarrow> admin_grant \<Rightarrow> bool" where
  "seenFromRealm db realmId g \<longleftrightarrow> ag_targetRealmId g = Some realmId \<or> heldInRealm db realmId g"

definition grant_findById :: "string \<Rightarrow> string \<Rightarrow> admin_db \<Rightarrow> admin_grant option" where
  "grant_findById realmId grantId db =
     (if \<not> isAdminRecordId realmId \<or> \<not> isAdminRecordId grantId then None
      else limit1 (select_where (\<lambda>g. ag_id g = grantId \<and> seenFromRealm db realmId g) (db_grants db)))"

definition by_creation :: "admin_grant list \<Rightarrow> admin_grant list" where
  "by_creation gs = sort_key (\<lambda>g. (ag_createdAt g, ag_id g)) gs"

definition grant_listByUser :: "string \<Rightarrow> string \<Rightarrow> admin_db \<Rightarrow> admin_grant list" where
  "grant_listByUser realmId userId db =
     (if \<not> isAdminRecordId realmId \<or> \<not> isAdminRecordId userId then []
      else by_creation (select_where (\<lambda>g. ag_userId g = userId \<and> seenFromRealm db realmId g) (db_grants db)))"

definition roleOf :: "admin_db \<Rightarrow> admin_grant \<Rightarrow> admin_role option" where
  "roleOf db g = (case ag_roleId g of None \<Rightarrow> None | Some i \<Rightarrow> limit1 (select_where (\<lambda>r. ar_id r = i) (db_roles db)))"

definition listLive :: "string \<Rightarrow> string \<Rightarrow> admin_db \<Rightarrow> (admin_grant \<times> admin_role option) list" where
  "listLive realmId userId db =
     (if \<not> isAdminRecordId realmId \<or> \<not> isAdminRecordId userId then []
      else map (\<lambda>g. (g, roleOf db g))
        (by_creation (select_where (\<lambda>g. ag_userId g = userId \<and> seenFromRealm db realmId g \<and> ag_revokedAt g = None
           \<and> (ag_roleId g = None \<or> (case roleOf db g of None \<Rightarrow> True | Some r \<Rightarrow> ar_disabledAt r = None))) (db_grants db))))"

definition grant_revoke :: "ms \<Rightarrow> string \<Rightarrow> string \<Rightarrow> admin_db \<Rightarrow> admin_grant option \<times> admin_db" where
  "grant_revoke clock realmId grantId db =
     (if \<not> isAdminRecordId realmId \<or> \<not> isAdminRecordId grantId then (None, db)
      else let (rows, gs) = update_where (\<lambda>g. ag_id g = grantId \<and> ag_revokedAt g = None \<and> heldInRealm db realmId g)
                  (\<lambda>g. let now = max clock (ag_lastSecurityChangeAt g) in g\<lparr>ag_revokedAt := Some now, ag_lastSecurityChangeAt := now\<rparr>) (db_grants db)
           in (limit1 rows, db\<lparr>db_grants := gs\<rparr>))"


subsection \<open>What an admin token may do\<close>

definition grantedPermissionIds :: "registry \<Rightarrow> admin_grant \<times> admin_role option \<Rightarrow> string list" where
  "grantedPermissionIds reg live = (case ag_builtInRole (fst live) of
      Some name \<Rightarrow> (case builtInRolesOf reg name of None \<Rightarrow> [] | Some ids \<Rightarrow> ids)
    | None \<Rightarrow> (case snd live of None \<Rightarrow> [] | Some r \<Rightarrow> ar_permissionIds r))"

definition grantFitsRealmRule :: "admin_grant \<times> admin_role option \<Rightarrow> realm_row \<Rightarrow> bool" where
  "grantFitsRealmRule live accountRealm =
     (let target = ag_targetRealmId (fst live) in
      if \<not> rl_isOperator accountRealm \<and> target \<noteq> Some (rl_id accountRealm) then False
      else if ag_roleId (fst live) \<noteq> None then
        (case snd live of
           None \<Rightarrow> False
         | Some r \<Rightarrow> ar_disabledAt r = None \<and> (ar_realmId r = rl_id accountRealm \<or> Some (ar_realmId r) = target))
      else True)"

definition realmForIssuer :: "realms \<Rightarrow> string \<Rightarrow> realm_row option" where
  "realmForIssuer rs issuer = (case limit1 (select_where (\<lambda>r. rl_issuer r = Some issuer) rs) of
      None \<Rightarrow> None | Some r \<Rightarrow> if rl_issuer r = Some issuer then Some r else None)"

record authority_request =
  aq_iss :: string
  aq_sub :: string
  aq_iat :: "int option"
  aq_scopes :: "token_scopes option"
  aq_targetRealmId :: string

datatype authority_refusal = IssuerUnknown | AccountInactive | RealmNotFound

record authority =
  au_issuerRealm :: realm_row
  au_operator :: bool
  au_targetRealm :: realm_row
  au_userId :: string
  au_permissions :: "string list"
  au_rolePermissions :: "string list"
  au_grantIds :: "string list"

definition resolveAdminAuthority :: "registry \<Rightarrow> (string \<Rightarrow> bool) \<Rightarrow> (string \<Rightarrow> bool) \<Rightarrow> admin_db \<Rightarrow> authority_request
    \<Rightarrow> authority_refusal + authority" where
  "resolveAdminAuthority reg uuid guid db q =
     (case realmForIssuer (db_realms db) (aq_iss q) of
        None \<Rightarrow> Inl IssuerUnknown
      | Some issuerRealm \<Rightarrow>
          if \<not> rl_enabled issuerRealm then Inl IssuerUnknown
          else if \<not> uuid (aq_sub q) then Inl AccountInactive
          else case user_findById guid (rl_id issuerRealm) (aq_sub q) (db_users db) of
            None \<Rightarrow> Inl AccountInactive
          | Some user \<Rightarrow>
              if accountCredentialRefusal user (accessTokenIssuedAt (aq_iat q)) \<noteq> None \<or> ur_realmId user \<noteq> rl_id issuerRealm
              then Inl AccountInactive
              else if \<not> uuid (aq_targetRealmId q) then Inl RealmNotFound
              else
                let target = map to_lower (aq_targetRealmId q); operator = rl_isOperator issuerRealm in
                if \<not> operator \<and> target \<noteq> rl_id issuerRealm then Inl RealmNotFound
                else
                  let matching = filter (\<lambda>g. grantFitsRealmRule g issuerRealm
                        \<and> (ag_targetRealmId (fst g) = Some target \<or> (operator \<and> ag_targetRealmId (fst g) = None)))
                        (listLive (rl_id issuerRealm) (ur_id user) db)
                  in if matching = [] then Inl RealmNotFound
                     else case realm_findById target (db_realms db) of
                       None \<Rightarrow> Inl RealmNotFound
                     | Some targetRealm \<Rightarrow>
                         if \<not> operator \<and> rl_isOperator targetRealm then Inl RealmNotFound
                         else
                           let granted = concat (map (grantedPermissionIds reg) matching) in
                           Inr \<lparr>au_issuerRealm = issuerRealm, au_operator = operator, au_targetRealm = targetRealm,
                                au_userId = ur_id user,
                                au_permissions = effectivePermissions reg granted (case aq_scopes q of None \<Rightarrow> ScopeList [] | Some s \<Rightarrow> s),
                                au_rolePermissions = effectivePermissions reg granted (ScopeList ADMIN_SCOPE_LIST),
                                au_grantIds = map (\<lambda>g. ag_id (fst g)) matching\<rparr>)"

subsection \<open>What reaches a token\<close>

definition heldPermissionClasses :: "registry \<Rightarrow> (string \<Rightarrow> bool) \<Rightarrow> admin_db \<Rightarrow> string \<Rightarrow> string option \<Rightarrow> permission_class list" where
  "heldPermissionClasses reg guid db realmId userId = (case userId of
      None \<Rightarrow> []
    | Some u \<Rightarrow> (case user_findById guid realmId u (db_users db) of
        None \<Rightarrow> []
      | Some user \<Rightarrow> if \<not> ur_enabled user then []
          else (case realm_findById realmId (db_realms db) of
            None \<Rightarrow> []
          | Some accountRealm \<Rightarrow>
              dedup (List.map_filter (\<lambda>i. if isGrantable reg i then map_option ap_class (reg_get reg i) else None)
                (concat (map (grantedPermissionIds reg)
                   (filter (\<lambda>g. grantFitsRealmRule g accountRealm) (listLive realmId (ur_id user) db))))))))"

record issuance_request =
  ir_client :: oauth_client
  ir_realmId :: string
  ir_userId :: "string option"
  ir_namesUser :: "bool option"
  ir_scopes :: "string list"
  ir_aud :: aud
  ir_dpopBound :: bool

record issuance =
  is_scopes :: "string list"
  is_withheld :: "string list"
  is_audienceRefused :: bool
  is_proofMissing :: bool

definition allowedByGrants :: "issuance_request \<Rightarrow> permission_class list \<Rightarrow> string \<Rightarrow> bool" where
  "allowedByGrants q held scope =
     (if \<not> isReservedQauthScope scope then True
      else case familyScopeOf scope of
        Some (family, _) \<Rightarrow>
          (case ir_namesUser q of Some b \<Rightarrow> b | None \<Rightarrow> ir_userId q \<noteq> None)
          \<and> unlistedReservedAudiences (ir_client q) (OneAud (API_FAMILY_AUDIENCES family)) = []
      | None \<Rightarrow> unlistedReservedAudiences (ir_client q) (OneAud (API_FAMILY_AUDIENCES AdminApi)) = []
          \<and> (case permissionClassOfScope scope of None \<Rightarrow> False | Some c \<Rightarrow> c \<in> set held))"

definition adminIssuance :: "registry \<Rightarrow> (string \<Rightarrow> bool) \<Rightarrow> admin_db \<Rightarrow> issuance_request \<Rightarrow> issuance" where
  "adminIssuance reg guid db q =
     (let reserved = filter isReservedQauthScope (ir_scopes q);
          namesAdmin = API_FAMILY_AUDIENCES AdminApi \<in> set (aud_flat (ir_aud q)) in
      if reserved = [] \<and> \<not> namesAdmin
      then \<lparr>is_scopes = ir_scopes q, is_withheld = [], is_audienceRefused = False, is_proofMissing = False\<rparr>
      else
        let held = (if namesAdmin \<or> list_ex isAdminScope reserved then heldPermissionClasses reg guid db (ir_realmId q) (ir_userId q) else []);
            audienceRefused = (namesAdmin \<and> held = []);
            unbound = (\<lambda>s. \<not> ir_dpopBound q \<and> isAdminScope s \<and> allowedByGrants q held s);
            issuable = (\<lambda>s. allowedByGrants q held s \<and> \<not> unbound s)
        in \<lparr>is_scopes = filter issuable (ir_scopes q), is_withheld = filter (\<lambda>s. \<not> issuable s) (ir_scopes q),
            is_audienceRefused = audienceRefused,
            is_proofMissing = (\<not> ir_dpopBound q \<and> ((namesAdmin \<and> \<not> audienceRefused) \<or> list_ex unbound (ir_scopes q)))\<rparr>)"

subsection \<open>Lemmas\<close>

lemma select_limit1: "limit1 (select_where P t) = Some r \<Longrightarrow> r \<in> set t \<and> P r"
  by (auto simp: limit1_def select_where_def filter_eq_Cons_iff split: list.splits)

lemma set_listLive:
  assumes "(g, r) \<in> set (listLive realmId userId db)"
  shows "g \<in> set (db_grants db) \<and> ag_userId g = userId \<and> ag_revokedAt g = None \<and> r = roleOf db g
    \<and> (ag_roleId g \<noteq> None \<longrightarrow> (\<forall>x. roleOf db g = Some x \<longrightarrow> ar_disabledAt x = None))"
  using assms by (auto simp: listLive_def by_creation_def select_where_def split: if_splits option.splits)

lemma set_effective:
  "i \<in> set (effectivePermissions reg granted ts) \<longleftrightarrow> i \<in> set granted \<and> isGrantable reg i
     \<and> (\<exists>p. reg_get reg i = Some p \<and> ap_class p \<in> set (allowedPermissionClasses ts))"
  by (auto simp: effectivePermissions_def split: option.splits)

lemma permissionClass_scope: "permissionClassOfScope s = Some c \<longleftrightarrow> s = ADMIN_SCOPES c"
  by (cases c) (auto simp: permissionClassOfScope_def PERMISSION_CLASSES_def split: if_splits)

lemma permissionClass_admin [simp]: "permissionClassOfScope (ADMIN_SCOPES c) = Some c"
  by (simp add: permissionClass_scope)

lemma set_map_filter: "set (List.map_filter f xs) = {y. \<exists>x \<in> set xs. f x = Some y}"
  by (induction xs) (auto simp: map_filter_simps split: option.splits)

lemma set_allowedClasses: "c \<in> set (allowedPermissionClasses ts) \<longleftrightarrow> ADMIN_SCOPES c \<in> set (tokenScopeSet ts)"
  by (auto simp: allowedPermissionClasses_def set_map_filter permissionClass_scope)

lemma roleOf_Some: "roleOf db g = Some r \<Longrightarrow> r \<in> set (db_roles db) \<and> ag_roleId g = Some (ar_id r)"
  by (auto simp: roleOf_def dest: select_limit1 split: option.splits)


text \<open>A grant of the account that is live and whose role holds a permission.\<close>

definition grant_gives :: "registry \<Rightarrow> admin_db \<Rightarrow> string \<Rightarrow> admin_grant \<Rightarrow> string \<Rightarrow> bool" where
  "grant_gives reg db userId g i \<longleftrightarrow> g \<in> set (db_grants db) \<and> ag_userId g = userId \<and> ag_revokedAt g = None
     \<and> (case ag_builtInRole g of
          Some name \<Rightarrow> (\<exists>cs p. (name, cs) \<in> set BUILT_IN_ROLE_CLASSES \<and> p \<in> set (reg_active reg) \<and> ap_id p = i \<and> ap_class p \<in> set cs)
        | None \<Rightarrow> (\<exists>r \<in> set (db_roles db). ag_roleId g = Some (ar_id r) \<and> ar_disabledAt r = None \<and> i \<in> set (ar_permissionIds r)))"

lemma granted_gives:
  assumes "(g, r) \<in> set (listLive realmId userId db)" and "i \<in> set (grantedPermissionIds reg (g, r))"
  shows "grant_gives reg db userId g i"
proof (cases "ag_builtInRole g")
  case None
  then obtain x where x: "r = Some x" "i \<in> set (ar_permissionIds x)" using assms(2) by (auto simp: grantedPermissionIds_def split: option.splits)
  with set_listLive[OF assms(1)] have "roleOf db g = Some x" by auto
  from roleOf_Some[OF this] set_listLive[OF assms(1)] x None show ?thesis by (auto simp: grant_gives_def)
next
  case (Some name)
  show ?thesis
  proof (cases "map_of BUILT_IN_ROLE_CLASSES name")
    case None
    with Some assms(2) show ?thesis by (simp add: grantedPermissionIds_def builtInRolesOf_def)
  next
    case (Some cs)
    with \<open>ag_builtInRole g = Some name\<close> obtain p where "p \<in> set (reg_active reg)" "ap_id p = i" "ap_class p \<in> set cs"
      using assms(2) by (auto simp: grantedPermissionIds_def builtInRolesOf_def)
    with set_listLive[OF assms(1)] map_of_SomeD[OF Some] \<open>ag_builtInRole g = Some name\<close> show ?thesis by (auto simp: grant_gives_def)
  qed
qed

lemma resolve_allowed:
  assumes "resolveAdminAuthority reg uuid guid db q = Inr a"
  obtains user matching where
    "realmForIssuer (db_realms db) (aq_iss q) = Some (au_issuerRealm a)" "rl_enabled (au_issuerRealm a)"
    "user_findById guid (rl_id (au_issuerRealm a)) (aq_sub q) (db_users db) = Some user"
    "accountCredentialRefusal user (accessTokenIssuedAt (aq_iat q)) = None"
    "\<not> rl_isOperator (au_issuerRealm a) \<longrightarrow> map to_lower (aq_targetRealmId q) = rl_id (au_issuerRealm a) \<and> \<not> rl_isOperator (au_targetRealm a)"
    "matching = filter (\<lambda>g. grantFitsRealmRule g (au_issuerRealm a)
        \<and> (ag_targetRealmId (fst g) = Some (map to_lower (aq_targetRealmId q)) \<or> (rl_isOperator (au_issuerRealm a) \<and> ag_targetRealmId (fst g) = None)))
        (listLive (rl_id (au_issuerRealm a)) (ur_id user) db)"
    "matching \<noteq> []" "realm_findById (map to_lower (aq_targetRealmId q)) (db_realms db) = Some (au_targetRealm a)"
    "au_permissions a = effectivePermissions reg (concat (map (grantedPermissionIds reg) matching)) (case aq_scopes q of None \<Rightarrow> ScopeList [] | Some s \<Rightarrow> s)"
  using assms unfolding resolveAdminAuthority_def
  by (auto simp: Let_def split: option.splits if_splits)



definition uuid_a :: string where "uuid_a = ''aaaaaaaa-0000-0000-0000-000000000000''"

definition uuid_b :: string where "uuid_b = ''bbbbbbbb-0000-0000-0000-000000000000''"

definition small_admin_db :: admin_db where
  "small_admin_db = \<lparr>db_realms = [\<lparr>rl_id = uuid_a, rl_enabled = True, rl_isOperator = False, rl_issuer = Some ''https://a'',
       rl_ssoMaxLifespan = None, rl_ssoIdleTimeout = None\<rparr>],
     db_users = [\<lparr>ur_realmId = uuid_a, ur_id = uuid_b, ur_enabled = True, ur_notValidBefore = None, ur_lastLoginAt = None\<rparr>],
     db_roles = [],
     db_grants = [\<lparr>ag_id = uuid_a, ag_userId = uuid_b, ag_builtInRole = Some ''editor'', ag_roleId = None, ag_targetRealmId = Some uuid_a,
       ag_createdBy = None, ag_createdAt = 1, ag_lastSecurityChangeAt = 1, ag_revokedAt = None\<rparr>]\<rparr>"

definition small_request :: authority_request where
  "small_request = \<lparr>aq_iss = ''https://a'', aq_sub = uuid_b, aq_iat = Some 5, aq_scopes = Some (ScopeClaim ''qauth:admin:write openid''),
     aq_targetRealmId = uuid_a\<rparr>"


lemma set_heldClasses:
  assumes "c \<in> set (heldPermissionClasses reg guid db realmId userId)"
  shows "\<exists>u g i p. userId = Some u \<and> grant_gives reg db u g i \<and> reg_get reg i = Some p \<and> ap_retiredIn p = None \<and> ap_class p = c"
proof -
  obtain u where u0: "userId = Some u" using assms by (cases userId) (auto simp: heldPermissionClasses_def)
  obtain user where us: "user_findById guid realmId u (db_users db) = Some user" "ur_enabled user"
    using assms u0 by (cases "user_findById guid realmId u (db_users db)") (auto simp: heldPermissionClasses_def split: if_split_asm)
  obtain ar where "realm_findById realmId (db_realms db) = Some ar"
    using assms u0 us by (cases "realm_findById realmId (db_realms db)") (auto simp: heldPermissionClasses_def)
  with assms u0 us have c: "c \<in> set (List.map_filter (\<lambda>i. if isGrantable reg i then map_option ap_class (reg_get reg i) else None)
                (concat (map (grantedPermissionIds reg) (filter (\<lambda>g. grantFitsRealmRule g ar) (listLive realmId (ur_id user) db)))))"
    by (simp add: heldPermissionClasses_def)
  note u = u0 us(1)
  from c obtain i g x p where "(g, x) \<in> set (listLive realmId (ur_id user) db)" "i \<in> set (grantedPermissionIds reg (g, x))"
    "isGrantable reg i" "reg_get reg i = Some p" "ap_class p = c"
    by (auto simp: set_map_filter split: if_splits)
  with granted_gives[of g x realmId "ur_id user" db i reg] user_findById_Some[OF u(2)] u(1) show ?thesis
    by (auto simp: isGrantable_def)
qed

lemma admin_scope_reserved: "isReservedQauthScope (ADMIN_SCOPES c)" "familyScopeOf (ADMIN_SCOPES c) = None"
proof -
  have "list_all (\<lambda>c. isReservedQauthScope (ADMIN_SCOPES c) \<and> familyScopeOf (ADMIN_SCOPES c) = None) PERMISSION_CLASSES" by code_simp
  moreover have "c \<in> set PERMISSION_CLASSES" by (cases c) (simp_all add: PERMISSION_CLASSES_def)
  ultimately show "isReservedQauthScope (ADMIN_SCOPES c)" "familyScopeOf (ADMIN_SCOPES c) = None" by (simp_all add: list_all_iff)
qed

lemma isAdminScope_iff: "isAdminScope s \<longleftrightarrow> (\<exists>c. s = ADMIN_SCOPES c)"
  by (auto simp: isAdminScope_def permissionClass_scope)



definition console_client :: oauth_client where
  "console_client = \<lparr>oc_id = ''c'', oc_realmId = uuid_a, oc_clientId = ''console'', oc_name = ''Console'', oc_grantTypes = [''refresh_token''],
     oc_scopes = [''openid'', ''qauth:admin:write''], oc_audience = Some [''urn:qauth:aud:admin:v1-rc.0''], oc_authMethod = Some ''none'',
     oc_isAgent = None, oc_maxAgentMode = None, oc_redirectUris = None, oc_metadata = Map.empty, oc_dynamicRegisteredAt = None,
     oc_backchannelLogoutUri = None\<rparr>"

definition console_issuance :: issuance_request where
  "console_issuance = \<lparr>ir_client = console_client, ir_realmId = uuid_a, ir_userId = Some uuid_b, ir_namesUser = None,
     ir_scopes = [''openid'', ''qauth:admin:write'', ''qauth:admin:security'', ''QAuth:x''], ir_aud = OneAud ''console'', ir_dpopBound = True\<rparr>"


end
