(* ===== verification/Consents.thy ===== *)
theory Consents
  imports Admin_Authority "HOL-Library.AList"
begin

text \<open>
  The stored consents (\<open>libs/infra/db/src/lib/repositories/oauth-consents.repository.ts\<close>), the rules
  that let a request go without the consent screen
  (\<open>apps/auth-server/src/app/helpers/consent.ts\<close>, \<open>libs/shared/validation/src/lib/first-party-profile.ts\<close>)
  and the step-up decision (\<open>helpers/step-up.ts\<close>). The clock, the ids the database draws and the badge
  window of the environment are arguments. A JavaScript \<open>Map\<close> or record of scopes per resource is an
  association list in insertion order.
\<close>

subsection \<open>The stored consents\<close>

record consent =
  cs_id :: string
  cs_userId :: string
  cs_oauthClientId :: string
  cs_realmId :: string
  cs_scopes :: "string list"
  cs_resourceScopes :: "(string \<times> string list) list"
  cs_grantedAt :: ms
  cs_revokedAt :: "ms option"

type_synonym consents = "consent tab"

definition activeConsentOf :: "string \<Rightarrow> string \<Rightarrow> string \<Rightarrow> consent \<Rightarrow> bool" where
  "activeConsentOf realmId userId oauthClientId c \<longleftrightarrow>
     cs_realmId c = realmId \<and> cs_userId c = userId \<and> cs_oauthClientId c = oauthClientId \<and> cs_revokedAt c = None"

definition activeConsentsOf :: "string \<Rightarrow> string \<Rightarrow> consent \<Rightarrow> bool" where
  "activeConsentsOf realmId userId c \<longleftrightarrow> cs_realmId c = realmId \<and> cs_userId c = userId \<and> cs_revokedAt c = None"

text \<open>The partial unique index: one active row per user and client.\<close>

definition active_taken :: "consent \<Rightarrow> consents \<Rightarrow> bool" where
  "active_taken c t \<longleftrightarrow> cs_revokedAt c = None \<and>
     list_ex (\<lambda>x. cs_revokedAt x = None \<and> cs_userId x = cs_userId c \<and> cs_oauthClientId x = cs_oauthClientId c) t"

definition consent_create :: "consent \<Rightarrow> consents \<Rightarrow> repo_error + consent \<times> consents" where
  "consent_create c t =
     (if active_taken c t then Inl (UniqueConstraintError ''idx_oauth_consents_user_client_active'') else Inr (c, t @ [c]))"

definition findActive :: "string \<Rightarrow> string \<Rightarrow> string \<Rightarrow> consents \<Rightarrow> consent option" where
  "findActive realmId userId oauthClientId t = limit1 (select_where (activeConsentOf realmId userId oauthClientId) t)"

definition listActiveForUser :: "string \<Rightarrow> string \<Rightarrow> consents \<Rightarrow> consent list" where
  "listActiveForUser realmId userId t = rev (sort_key cs_grantedAt (rev (select_where (activeConsentsOf realmId userId) t)))"

definition union_scopes :: "string list \<Rightarrow> string list \<Rightarrow> string list" where
  "union_scopes a b = sort (dedup (a @ b))"

fun merge_resources :: "string list \<Rightarrow> string list \<Rightarrow> (string \<times> string list) list \<Rightarrow> (string \<times> string list) list" where
  "merge_resources scopes [] merged = merged"
| "merge_resources scopes (r # rs) merged =
     merge_resources scopes rs
       (AList.update r (union_scopes (case map_of merged r of None \<Rightarrow> [] | Some prior \<Rightarrow> prior) scopes) merged)"

fun from_entries :: "string list \<Rightarrow> (string \<times> string list) list \<Rightarrow> string list \<Rightarrow> (string \<times> string list) list" where
  "from_entries [] acc scopes = acc"
| "from_entries (r # rs) acc scopes = from_entries rs (AList.update r (sort scopes) acc) scopes"

definition upsertGrant :: "string \<Rightarrow> ms \<Rightarrow> string \<Rightarrow> string \<Rightarrow> string \<Rightarrow> string list \<Rightarrow> string list \<Rightarrow> consents
    \<Rightarrow> repo_error + consent \<times> consents" where
  "upsertGrant newId now realmId userId oauthClientId scopes resources t =
     (case findActive realmId userId oauthClientId t of
        Some existing \<Rightarrow>
          (case update_where (\<lambda>c. cs_id c = cs_id existing)
             (\<lambda>c. c\<lparr>cs_scopes := union_scopes (cs_scopes existing) scopes,
                    cs_resourceScopes := merge_resources scopes resources (cs_resourceScopes existing),
                    cs_grantedAt := now\<rparr>) t of
             ([], t') \<Rightarrow> Inl (NotFoundError (cs_id existing))
           | (c # _, t') \<Rightarrow> Inr (c, t'))
      | None \<Rightarrow> consent_create \<lparr>cs_id = newId, cs_userId = userId, cs_oauthClientId = oauthClientId, cs_realmId = realmId,
           cs_scopes = sort scopes, cs_resourceScopes = from_entries resources [] scopes, cs_grantedAt = now, cs_revokedAt = None\<rparr> t)"

definition consent_revoke :: "ms \<Rightarrow> string \<Rightarrow> string \<Rightarrow> consents \<Rightarrow> repo_error + consent \<times> consents" where
  "consent_revoke now realmId i t =
     (case update_where (\<lambda>c. cs_realmId c = realmId \<and> cs_id c = i \<and> cs_revokedAt c = None) (\<lambda>c. c\<lparr>cs_revokedAt := Some now\<rparr>) t of
        ([], t') \<Rightarrow> Inl (NotFoundError i)
      | (c # _, t') \<Rightarrow> Inr (c, t'))"

subsection \<open>First-party clients\<close>

datatype policy_member = PolicyList "string list" | PolicyBool bool | PolicyOther

datatype policy_value = PolicyNull | PolicyNotObject | PolicyObject "(string \<times> policy_member) list"

record first_party_policy =
  fp_flows :: "string list"
  fp_emailCodeAfterPassword :: bool
  fp_pkceRequired :: bool

definition FIRST_PARTY_PROFILES :: "string list" where "FIRST_PARTY_PROFILES = [''web_redirect'', ''native_backend'']"

definition FIRST_PARTY_FLOWS :: "string list" where "FIRST_PARTY_FLOWS = [''login'', ''register'', ''reset'']"

text \<open>\<open>firstPartyPolicySchema.safeParse\<close>: a strict object, each member parsed or defaulted.\<close>

definition parse_flows :: "policy_member option \<Rightarrow> string list option" where
  "parse_flows v = (case v of
      None \<Rightarrow> Some [''login'']
    | Some (PolicyList fs) \<Rightarrow> if set fs \<subseteq> set FIRST_PARTY_FLOWS \<and> fs \<noteq> [] \<and> distinct fs then Some fs else None
    | Some _ \<Rightarrow> None)"

definition parse_flag :: "bool \<Rightarrow> policy_member option \<Rightarrow> bool option" where
  "parse_flag d v = (case v of None \<Rightarrow> Some d | Some (PolicyBool b) \<Rightarrow> Some b | Some _ \<Rightarrow> None)"

definition firstPartyPolicySchema :: "policy_value \<Rightarrow> first_party_policy option" where
  "firstPartyPolicySchema v = (case v of
      PolicyObject ms \<Rightarrow>
        if \<not> set (map fst ms) \<subseteq> {''flows'', ''email_code_after_password'', ''pkce_required''} then None
        else (case (parse_flows (map_of ms ''flows''), parse_flag False (map_of ms ''email_code_after_password''),
                    parse_flag True (map_of ms ''pkce_required'')) of
            (Some f, Some e, Some p) \<Rightarrow> Some \<lparr>fp_flows = f, fp_emailCodeAfterPassword = e, fp_pkceRequired = p\<rparr>
          | _ \<Rightarrow> None)
    | _ \<Rightarrow> None)"

record fp_client = oauth_client +
  oc_firstPartyProfile :: "string option"
  oc_firstPartyPolicy :: policy_value
  oc_developerId :: "string option"

datatype resolved_profile = WebRedirect | NativeBackend first_party_policy

definition resolveFirstPartyProfile :: "fp_client \<Rightarrow> resolved_profile option" where
  "resolveFirstPartyProfile c = (case oc_firstPartyProfile c of
      None \<Rightarrow> None
    | Some profile \<Rightarrow>
        if profile \<notin> set FIRST_PARTY_PROFILES then None
        else if oc_authMethod c \<noteq> Some ''private_key_jwt'' then None
        else if oc_developerId c \<noteq> None \<or> oc_isAgent c = Some True \<or> oc_dynamicRegisteredAt c \<noteq> None then None
        else if oc_metadata c ''registrationType'' \<in> {Some (JStr ''dynamic''), Some (JStr ''cimd'')} then None
        else if profile = ''web_redirect'' then (if oc_firstPartyPolicy c = PolicyNull then Some WebRedirect else None)
        else if ''authorization_code'' \<notin> set (oc_grantTypes c) then None
        else map_option NativeBackend (firstPartyPolicySchema (oc_firstPartyPolicy c)))"

subsection \<open>Whether the consent screen can be skipped\<close>

definition isScopeSubset :: "string list \<Rightarrow> string list \<Rightarrow> bool" where
  "isScopeSubset requested granted \<longleftrightarrow> requested = [] \<or> list_all (\<lambda>s. s \<in> set granted) requested"

definition consentCovers :: "consent \<Rightarrow> string list \<Rightarrow> string list \<Rightarrow> bool" where
  "consentCovers c scopes resources \<longleftrightarrow> isScopeSubset scopes (cs_scopes c)
     \<and> list_all (\<lambda>r. case map_of (cs_resourceScopes c) r of None \<Rightarrow> False | Some g \<Rightarrow> isScopeSubset scopes g) resources"

definition filterRequestedScopes :: "string option \<Rightarrow> oauth_client \<Rightarrow> string list" where
  "filterRequestedScopes raw c =
     dedup (filter (\<lambda>s. s \<in> set (oc_scopes c)) (js_words (case raw of None \<Rightarrow> [] | Some r \<Rightarrow> r)))"

definition DANGEROUS_SCOPE_PREFIXES :: "string list" where "DANGEROUS_SCOPE_PREFIXES = [''write:'']"

definition DANGEROUS_EXACT_SCOPES :: "string list" where
  "DANGEROUS_EXACT_SCOPES = [AGENT_MODE_SCOPES AdminMode, AGENT_MODE_SCOPES Exec]"

definition isDangerousScope :: "string \<Rightarrow> bool" where
  "isDangerousScope s \<longleftrightarrow> s \<in> set DANGEROUS_EXACT_SCOPES \<or> list_ex (\<lambda>p. take (length p) s = p) DANGEROUS_SCOPE_PREFIXES"

definition administrativeConsentScopes :: "fp_client \<Rightarrow> string list \<Rightarrow> string list" where
  "administrativeConsentScopes c requested =
     (if resolveFirstPartyProfile c = None then [] else filter (\<lambda>s. \<not> isDangerousScope s) requested)"

definition administrativeConsentFor :: "fp_client \<Rightarrow> string list \<Rightarrow> (resolved_profile \<times> string list) option" where
  "administrativeConsentFor c requested = (case resolveFirstPartyProfile c of
      None \<Rightarrow> None
    | Some p \<Rightarrow> if list_ex isDangerousScope requested then None else Some (p, requested))"

definition forcesLoginPrompt :: "fp_client \<Rightarrow> bool" where
  "forcesLoginPrompt c = (case resolveFirstPartyProfile c of Some (NativeBackend _) \<Rightarrow> True | _ \<Rightarrow> False)"

text \<open>A registration time of zero is falsy, like none.\<close>

definition isDynamicClientWithinBadgeWindow :: "int \<Rightarrow> ms \<Rightarrow> fp_client \<Rightarrow> bool" where
  "isDynamicClientWithinBadgeWindow badgeDays now c = (case oc_dynamicRegisteredAt c of
      None \<Rightarrow> False
    | Some at \<Rightarrow> at \<noteq> 0 \<and> badgeDays > 0 \<and> now - at < badgeDays * 24 * 60 * 60 * 1000)"

definition canSkipConsent :: "int \<Rightarrow> ms \<Rightarrow> consent option \<Rightarrow> fp_client \<Rightarrow> string list \<Rightarrow> string list \<Rightarrow> bool" where
  "canSkipConsent badgeDays now consent c scopes resources =
     (if oc_isAgent c = Some True then False
      else if resolveFirstPartyProfile c \<noteq> None \<and> list_ex isDangerousScope scopes then False
      else if administrativeConsentFor c scopes \<noteq> None then True
      else case consent of
        None \<Rightarrow> False
      | Some g \<Rightarrow>
          if cs_revokedAt g \<noteq> None then False
          else if isDynamicClientWithinBadgeWindow badgeDays now c then False
          else consentCovers g scopes resources)"

subsection \<open>The step-up decision\<close>

datatype prompt_mode = PromptLogin | PromptConsent | PromptNone

definition parsePromptMode :: "string option \<Rightarrow> prompt_mode option" where
  "parsePromptMode v = (if v = Some ''login'' then Some PromptLogin else if v = Some ''consent'' then Some PromptConsent
     else if v = Some ''none'' then Some PromptNone else None)"

definition elevatedScopes :: "string list \<Rightarrow> string list \<Rightarrow> string list" where
  "elevatedScopes requested prior = dedup (filter (\<lambda>s. s \<notin> set prior) requested)"

record step_up_input =
  su_requestedScopes :: "string list"
  su_priorConsentScopes :: "string list"
  su_prompt :: "prompt_mode option"
  su_maxAgeSeconds :: "int option"
  su_authTimeMs :: ms
  su_nowMs :: ms
  su_freshAuthWindowMs :: ms
  su_enforceDangerousStepUp :: "bool option"
  su_forceFreshLogin :: bool

record step_up_decision =
  sd_elevated :: "string list"
  sd_dangerous :: "string list"
  sd_requiresFreshLogin :: bool
  sd_requiresConsent :: bool

definition evaluateStepUp :: "step_up_input \<Rightarrow> step_up_decision" where
  "evaluateStepUp i =
     (let elevated = elevatedScopes (su_requestedScopes i) (su_priorConsentScopes i);
          dangerous = filter isDangerousScope (su_requestedScopes i);
          requiresConsent = elevated \<noteq> [] \<or> su_prompt i = Some PromptConsent;
          authAgeMs = su_nowMs i - su_authTimeMs i;
          dangerousForcesLogin = (case su_enforceDangerousStepUp i of None \<Rightarrow> True | Some b \<Rightarrow> b) \<and> dangerous \<noteq> [];
          authIsFresh = authAgeMs \<le> su_freshAuthWindowMs i;
          loginRequirement = (dangerousForcesLogin \<or> su_prompt i = Some PromptLogin \<or> su_forceFreshLogin i) \<and> \<not> authIsFresh;
          maxAgeExceeded = (case su_maxAgeSeconds i of None \<Rightarrow> False | Some m \<Rightarrow> authAgeMs div 1000 > m)
      in \<lparr>sd_elevated = elevated, sd_dangerous = dangerous, sd_requiresFreshLogin = loginRequirement \<or> maxAgeExceeded,
          sd_requiresConsent = requiresConsent\<rparr>)"

datatype prompt_none_error = LoginRequired | ConsentRequired

definition stepUpErrorForPromptNone :: "step_up_decision \<Rightarrow> prompt_none_error option" where
  "stepUpErrorForPromptNone d =
     (if sd_requiresFreshLogin d then Some LoginRequired else if sd_requiresConsent d then Some ConsentRequired else None)"


subsection \<open>A consent covers exactly what was granted\<close>

text \<open>A grant as the log keeps it: its scopes and its resources.\<close>

type_synonym grant_log = "(string list \<times> string list) list"

text \<open>
  A run of the table, with the grants of one user and client in one realm since their consent was last
  revoked. Row ids the database draws are fresh.
\<close>

inductive consent_run :: "string \<Rightarrow> string \<Rightarrow> string \<Rightarrow> consents \<Rightarrow> grant_log \<Rightarrow> bool" for realmId u c where
  consents_start: "consent_run realmId u c [] []"
| consent_granted: "consent_run realmId u c t log \<Longrightarrow> newId \<notin> set (map cs_id t) \<Longrightarrow>
    upsertGrant newId now realmId u c scopes resources t = Inr (row, t') \<Longrightarrow>
    consent_run realmId u c t' ((scopes, resources) # log)"
| other_granted: "consent_run realmId u c t log \<Longrightarrow> newId \<notin> set (map cs_id t) \<Longrightarrow> (realm', u', c') \<noteq> (realmId, u, c) \<Longrightarrow>
    upsertGrant newId now realm' u' c' scopes resources t = Inr (row, t') \<Longrightarrow> consent_run realmId u c t' log"
| consent_revoked: "consent_run realmId u c t log \<Longrightarrow> consent_revoke now realm' i t = Inr (row, t') \<Longrightarrow>
    (cs_realmId row, cs_userId row, cs_oauthClientId row) = (realmId, u, c) \<Longrightarrow> consent_run realmId u c t' []"
| other_revoked: "consent_run realmId u c t log \<Longrightarrow> consent_revoke now realm' i t = Inr (row, t') \<Longrightarrow>
    (cs_realmId row, cs_userId row, cs_oauthClientId row) \<noteq> (realmId, u, c) \<Longrightarrow> consent_run realmId u c t' log"

definition granted_scopes :: "grant_log \<Rightarrow> string set" where
  "granted_scopes log = \<Union> (set ` fst ` set log)"

definition granted_at :: "grant_log \<Rightarrow> string \<Rightarrow> string set option" where
  "granted_at log r = (let at = filter (\<lambda>g. r \<in> set (snd g)) log in if at = [] then None else Some (granted_scopes at))"

text \<open>What a row holds, as sets.\<close>

definition row_matches :: "grant_log \<Rightarrow> consent \<Rightarrow> bool" where
  "row_matches log x \<longleftrightarrow> set (cs_scopes x) = granted_scopes log
     \<and> (\<forall>r. map_option set (map_of (cs_resourceScopes x) r) = granted_at log r)"

definition one_active :: "consents \<Rightarrow> bool" where
  "one_active t \<longleftrightarrow> (\<forall>x \<in> set t. \<forall>y \<in> set t. cs_revokedAt x = None \<longrightarrow> cs_revokedAt y = None \<longrightarrow>
     cs_userId x = cs_userId y \<longrightarrow> cs_oauthClientId x = cs_oauthClientId y \<longrightarrow> x = y)"

definition consents_ok :: "string \<Rightarrow> string \<Rightarrow> string \<Rightarrow> consents \<Rightarrow> grant_log \<Rightarrow> bool" where
  "consents_ok realmId u c t log \<longleftrightarrow> unique_on cs_id t \<and> one_active t
     \<and> (\<forall>x \<in> set t. activeConsentOf realmId u c x \<longrightarrow> row_matches log x)
     \<and> ((\<forall>x \<in> set t. \<not> activeConsentOf realmId u c x) \<longrightarrow> log = [])"

lemma set_union_scopes [simp]: "set (union_scopes a b) = set a \<union> set b"
  by (simp add: union_scopes_def)

lemma merge_resources_map:
  "map_option set (map_of (merge_resources scopes rs merged) r) =
     (if r \<in> set rs then Some (set scopes \<union> (case map_of merged r of None \<Rightarrow> {} | Some g \<Rightarrow> set g))
      else map_option set (map_of merged r))"
proof (induction rs arbitrary: merged)
  case (Cons q rs)
  show ?case by (subst merge_resources.simps, subst Cons.IH) (auto simp: update_conv' split: option.split)
qed simp

lemma from_entries_map:
  "map_option set (map_of (from_entries rs acc scopes) r) = (if r \<in> set rs then Some (set scopes) else map_option set (map_of acc r))"
  by (induction rs arbitrary: acc) (auto simp: update_conv')

lemma granted_Cons:
  "granted_scopes (g # log) = set (fst g) \<union> granted_scopes log"
  "granted_at ((scopes, resources) # log) r =
     (if r \<in> set resources then Some (set scopes \<union> (case granted_at log r of None \<Rightarrow> {} | Some s \<Rightarrow> s)) else granted_at log r)"
  by (auto simp: granted_scopes_def granted_at_def Let_def filter_empty_conv)

lemma granted_Nil [simp]: "granted_scopes [] = {}" "granted_at [] r = None"
  by (simp_all add: granted_scopes_def granted_at_def)

lemma case_of_sets:
  assumes "map_option set a = b"
  shows "(case a of None \<Rightarrow> False | Some g \<Rightarrow> P (set g)) = (case b of None \<Rightarrow> False | Some g \<Rightarrow> P g)"
    and "(case a of None \<Rightarrow> {} | Some g \<Rightarrow> set g) = (case b of None \<Rightarrow> {} | Some g \<Rightarrow> g)"
  using assms by (cases a; auto)+

lemma row_matches_merge:
  assumes "row_matches log x"
  shows "row_matches ((scopes, resources) # log)
    (x\<lparr>cs_scopes := union_scopes (cs_scopes x) scopes, cs_resourceScopes := merge_resources scopes resources (cs_resourceScopes x),
       cs_grantedAt := now\<rparr>)"
proof -
  have "(case map_of (cs_resourceScopes x) r of None \<Rightarrow> {} | Some g \<Rightarrow> set g) = (case granted_at log r of None \<Rightarrow> {} | Some s \<Rightarrow> s)" for r
    using assms by (intro case_of_sets(2)) (simp add: row_matches_def)
  then show ?thesis using assms by (simp add: row_matches_def granted_Cons merge_resources_map Un_commute)
qed


definition merged_row :: "string list \<Rightarrow> string list \<Rightarrow> ms \<Rightarrow> consent \<Rightarrow> consent" where
  "merged_row scopes resources now x = x\<lparr>cs_scopes := union_scopes (cs_scopes x) scopes,
     cs_resourceScopes := merge_resources scopes resources (cs_resourceScopes x), cs_grantedAt := now\<rparr>"

definition first_row :: "string \<Rightarrow> ms \<Rightarrow> string \<Rightarrow> string \<Rightarrow> string \<Rightarrow> string list \<Rightarrow> string list \<Rightarrow> consent" where
  "first_row newId now realmId u c scopes resources = \<lparr>cs_id = newId, cs_userId = u, cs_oauthClientId = c, cs_realmId = realmId,
     cs_scopes = sort scopes, cs_resourceScopes = from_entries resources [] scopes, cs_grantedAt = now, cs_revokedAt = None\<rparr>"

lemma merged_row_keeps [simp]:
  "cs_id (merged_row s r now x) = cs_id x" "cs_userId (merged_row s r now x) = cs_userId x"
  "cs_oauthClientId (merged_row s r now x) = cs_oauthClientId x" "cs_realmId (merged_row s r now x) = cs_realmId x"
  "cs_revokedAt (merged_row s r now x) = cs_revokedAt x" "activeConsentOf realmId u c (merged_row s r now x) = activeConsentOf realmId u c x"
  by (simp_all add: merged_row_def activeConsentOf_def)

lemma upsertGrant_cases:
  assumes "unique_on cs_id t" and "upsertGrant newId now realmId u c scopes resources t = Inr (row, t')"
  obtains (merged) e where "e \<in> set t" "activeConsentOf realmId u c e"
      "t' = map (\<lambda>x. if x = e then merged_row scopes resources now x else x) t"
    | (first) "\<forall>x \<in> set t. \<not> activeConsentOf realmId u c x" "t' = t @ [first_row newId now realmId u c scopes resources]"
      "\<not> active_taken (first_row newId now realmId u c scopes resources) t"
proof (cases "findActive realmId u c t")
  case None
  then have "\<forall>x \<in> set t. \<not> activeConsentOf realmId u c x"
    by (auto simp: findActive_def limit1_def select_where_def filter_empty_conv split: list.splits)
  moreover have "consent_create (first_row newId now realmId u c scopes resources) t = Inr (row, t')"
    using assms(2) None by (simp add: upsertGrant_def first_row_def)
  ultimately show ?thesis using that(2) by (auto simp: consent_create_def split: if_splits)
next
  case (Some e)
  then have "filter (activeConsentOf realmId u c) t = e # tl (filter (activeConsentOf realmId u c) t)"
    by (auto simp: findActive_def limit1_def select_where_def split: list.splits)
  then have "e \<in> set (filter (activeConsentOf realmId u c) t)" by (metis list.set_intros(1))
  then have e: "e \<in> set t" "activeConsentOf realmId u c e" by simp_all
  have same: "cs_id x = cs_id e \<longleftrightarrow> x = e" if "x \<in> set t" for x using unique_on_same[OF assms(1) that e(1)] by blast
  have "t' = map (\<lambda>x. if cs_id x = cs_id e then x\<lparr>cs_scopes := union_scopes (cs_scopes e) scopes,
      cs_resourceScopes := merge_resources scopes resources (cs_resourceScopes e), cs_grantedAt := now\<rparr> else x) t"
    using assms(2) Some by (auto simp: upsertGrant_def update_where_def split: list.splits)
  also have "\<dots> = map (\<lambda>x. if x = e then merged_row scopes resources now x else x) t"
    by (rule map_cong) (auto simp: same merged_row_def)
  finally show ?thesis using that(1) e by blast
qed

lemma consent_revoke_cases:
  assumes "unique_on cs_id t" and "consent_revoke now realmId i t = Inr (row, t')"
  obtains e where "e \<in> set t" "cs_revokedAt e = None" "row = e\<lparr>cs_revokedAt := Some now\<rparr>"
    "t' = map (\<lambda>x. if x = e then x\<lparr>cs_revokedAt := Some now\<rparr> else x) t"
proof -
  define P :: "consent \<Rightarrow> bool" where "P x \<longleftrightarrow> cs_realmId x = realmId \<and> cs_id x = i \<and> cs_revokedAt x = None" for x
  from assms(2) have r: "map (\<lambda>x. x\<lparr>cs_revokedAt := Some now\<rparr>) (filter P t) \<noteq> []"
      "row = hd (map (\<lambda>x. x\<lparr>cs_revokedAt := Some now\<rparr>) (filter P t))"
      "t' = map (\<lambda>x. if P x then x\<lparr>cs_revokedAt := Some now\<rparr> else x) t"
    by (auto simp: consent_revoke_def update_where_def P_def[abs_def] split: list.splits)
  from unique_on_filter[OF assms(1), of P i] r(1) obtain e where e: "e \<in> set t" "P e" "filter P t = [e]" by (auto simp: P_def)
  have "set (filter P t) = {e}" using e(3) by simp
  then have "P x \<longleftrightarrow> x = e" if "x \<in> set t" for x using that by auto
  then have "t' = map (\<lambda>x. if x = e then x\<lparr>cs_revokedAt := Some now\<rparr> else x) t" unfolding r(3) by (intro map_cong) auto
  then show ?thesis using that[of e] e r(2) by (simp add: P_def)
qed

lemma one_active_map:
  assumes "one_active t" and "\<And>x. cs_userId (f x) = cs_userId x" and "\<And>x. cs_oauthClientId (f x) = cs_oauthClientId x"
    and "\<And>x. cs_revokedAt (f x) = None \<Longrightarrow> cs_revokedAt x = None"
  shows "one_active (map f t)"
  using assms unfolding one_active_def by (auto; metis)

lemma unique_on_map:
  assumes "unique_on key t" and "\<And>x. key (f x) = key x"
  shows "unique_on key (map f t)"
  using assms by (simp add: unique_on_def comp_def)


lemma change_one_row:
  assumes "unique_on cs_id t" and "one_active t" and "\<And>x. cs_id (f x) = cs_id x" and "\<And>x. cs_userId (f x) = cs_userId x"
    and "\<And>x. cs_oauthClientId (f x) = cs_oauthClientId x" and "\<And>x. cs_revokedAt (f x) = None \<Longrightarrow> cs_revokedAt x = None"
  shows "unique_on cs_id (map (\<lambda>x. if x = e then f x else x) t)" and "one_active (map (\<lambda>x. if x = e then f x else x) t)"
proof -
  show "unique_on cs_id (map (\<lambda>x. if x = e then f x else x) t)" using assms(1,3) by (intro unique_on_map) simp_all
  show "one_active (map (\<lambda>x. if x = e then f x else x) t)"
    by (rule one_active_map[OF assms(2)]) (use assms(4-6) in \<open>auto split: if_splits\<close>)
qed

lemma one_active_append:
  assumes "one_active t" and "\<not> active_taken r t" and "cs_revokedAt r = None"
  shows "one_active (t @ [r])"
  using assms unfolding one_active_def active_taken_def list_ex_iff by (metis Un_iff empty_iff empty_set set_ConsD set_append)

lemma active_same:
  assumes "one_active t" and "x \<in> set t" and "activeConsentOf realmId u c x" and "e \<in> set t" and "cs_revokedAt e = None"
    and "cs_userId e = u" and "cs_oauthClientId e = c"
  shows "x = e"
  using assms unfolding one_active_def activeConsentOf_def by blast

lemma consents_okI:
  assumes "unique_on cs_id t" and "one_active t" and "\<And>x. x \<in> set t \<Longrightarrow> activeConsentOf realmId u c x \<Longrightarrow> row_matches log x"
    and "log \<noteq> [] \<Longrightarrow> \<exists>x \<in> set t. activeConsentOf realmId u c x"
  shows "consents_ok realmId u c t log"
  using assms by (auto simp: consents_ok_def)

lemma consents_okD:
  assumes "consents_ok realmId u c t log"
  shows "unique_on cs_id t" "one_active t" "x \<in> set t \<Longrightarrow> activeConsentOf realmId u c x \<Longrightarrow> row_matches log x"
    "log \<noteq> [] \<Longrightarrow> \<exists>x \<in> set t. activeConsentOf realmId u c x"
  using assms by (auto simp: consents_ok_def)

text \<open>A change of a row that is not the active row of the pair leaves its log as it is.\<close>

lemma consents_ok_other:
  assumes "consents_ok realmId u c t log" and "\<not> activeConsentOf realmId u c e" and "\<not> activeConsentOf realmId u c (f e)"
    and "\<And>x. cs_id (f x) = cs_id x" and "\<And>x. cs_userId (f x) = cs_userId x"
    and "\<And>x. cs_oauthClientId (f x) = cs_oauthClientId x" and "\<And>x. cs_revokedAt (f x) = None \<Longrightarrow> cs_revokedAt x = None"
  shows "consents_ok realmId u c (map (\<lambda>x. if x = e then f x else x) t) log"
proof (rule consents_okI)
  show "unique_on cs_id (map (\<lambda>x. if x = e then f x else x) t)" "one_active (map (\<lambda>x. if x = e then f x else x) t)"
    using change_one_row[OF consents_okD(1,2)[OF assms(1)] assms(4-7)] by blast+
next
  fix x assume "x \<in> set (map (\<lambda>x. if x = e then f x else x) t)" and a: "activeConsentOf realmId u c x"
  then have "x \<in> set t" using assms(3) by (auto split: if_splits)
  then show "row_matches log x" using consents_okD(3)[OF assms(1)] a by blast
next
  assume "log \<noteq> []"
  then obtain x where x: "x \<in> set t" "activeConsentOf realmId u c x" using consents_okD(4)[OF assms(1)] by blast
  moreover have "x \<noteq> e" using x(2) assms(2) by blast
  ultimately show "\<exists>x \<in> set (map (\<lambda>x. if x = e then f x else x) t). activeConsentOf realmId u c x" by (intro bexI[of _ x]) (auto simp: image_iff)
qed

lemma consents_ok_granted:
  assumes ok: "consents_ok realmId u c t log" and "newId \<notin> set (map cs_id t)"
    and up: "upsertGrant newId now realmId u c scopes resources t = Inr (row, t')"
  shows "consents_ok realmId u c t' ((scopes, resources) # log)"
  using consents_okD(1)[OF ok] up
proof (cases rule: upsertGrant_cases)
  case (merged e)
  let ?m = "merged_row scopes resources now e"
  have m: "row_matches ((scopes, resources) # log) ?m"
    unfolding merged_row_def by (rule row_matches_merge[OF consents_okD(3)[OF ok merged(1,2)]])
  have in': "?m \<in> set t'" unfolding merged(3) using merged(1) by force
  have one: "one_active t'" unfolding merged(3) by (rule change_one_row(2)[OF consents_okD(1,2)[OF ok]]) simp_all
  have uni: "unique_on cs_id t'" unfolding merged(3) by (rule change_one_row(1)[OF consents_okD(1,2)[OF ok]]) simp_all
  have "row_matches ((scopes, resources) # log) x" if "x \<in> set t'" "activeConsentOf realmId u c x" for x
    using active_same[OF one that in'] merged(2) m by (simp add: activeConsentOf_def)
  moreover have "activeConsentOf realmId u c ?m" using merged(2) by simp
  ultimately show ?thesis using one uni in' unfolding consents_ok_def by blast
next
  case first
  let ?r = "first_row newId now realmId u c scopes resources"
  have log: "log = []" using first(1) consents_okD(4)[OF ok] by blast
  have "row_matches ((scopes, resources) # log) ?r"
    by (simp add: log row_matches_def first_row_def granted_Cons from_entries_map)
  moreover have "one_active t'" unfolding first(2) by (rule one_active_append[OF consents_okD(2)[OF ok] first(3)]) (simp add: first_row_def)
  moreover have "unique_on cs_id t'" using consents_okD(1)[OF ok] assms(2) unfolding first(2) by (simp add: unique_on_def first_row_def)
  moreover have "activeConsentOf realmId u c ?r" by (simp add: activeConsentOf_def first_row_def)
  ultimately show ?thesis using first(1) unfolding first(2) by (intro consents_okI) auto
qed

lemma consents_ok_other_granted:
  assumes ok: "consents_ok realmId u c t log" and "newId \<notin> set (map cs_id t)" and ne: "(realm', u', c') \<noteq> (realmId, u, c)"
    and up: "upsertGrant newId now realm' u' c' scopes resources t = Inr (row, t')"
  shows "consents_ok realmId u c t' log"
  using consents_okD(1)[OF ok] up
proof (cases rule: upsertGrant_cases)
  case (merged e)
  then have "\<not> activeConsentOf realmId u c e" using ne by (auto simp: activeConsentOf_def)
  then show ?thesis unfolding merged(3) by (intro consents_ok_other[OF ok]) simp_all
next
  case first
  let ?r = "first_row newId now realm' u' c' scopes resources"
  have "\<not> activeConsentOf realmId u c ?r" using ne by (auto simp: activeConsentOf_def first_row_def)
  moreover have "one_active t'" unfolding first(2) by (rule one_active_append[OF consents_okD(2)[OF ok] first(3)]) (simp add: first_row_def)
  moreover have "unique_on cs_id t'" using consents_okD(1)[OF ok] assms(2) unfolding first(2) by (simp add: unique_on_def first_row_def)
  ultimately show ?thesis using consents_okD(3,4)[OF ok] unfolding first(2) by (intro consents_okI) auto
qed

lemma consents_ok_revoked:
  assumes ok: "consents_ok realmId u c t log" and rv: "consent_revoke now realm' i t = Inr (row, t')"
  shows "consents_ok realmId u c t' (if (cs_realmId row, cs_userId row, cs_oauthClientId row) = (realmId, u, c) then [] else log)"
proof -
  obtain e where e: "e \<in> set t" "cs_revokedAt e = None"
    "row = e\<lparr>cs_revokedAt := Some now\<rparr>" "t' = map (\<lambda>x. if x = e then x\<lparr>cs_revokedAt := Some now\<rparr> else x) t"
    by (rule consent_revoke_cases[OF consents_okD(1)[OF ok] rv])
  show ?thesis
  proof (cases "(cs_realmId row, cs_userId row, cs_oauthClientId row) = (realmId, u, c)")
    case True
    have "\<not> activeConsentOf realmId u c x" if "x \<in> set t'" for x
    proof
      assume a: "activeConsentOf realmId u c x"
      from that obtain y where y: "y \<in> set t" "x = (if y = e then y\<lparr>cs_revokedAt := Some now\<rparr> else y)" unfolding e(4) by auto
      then have "y \<noteq> e" using a by (auto simp: activeConsentOf_def)
      then have "x \<in> set t" "x \<noteq> e" using y by simp_all
      then show False using active_same[OF consents_okD(2)[OF ok] _ a e(1,2)] True e(3) by simp
    qed
    moreover have "unique_on cs_id t'" unfolding e(4) by (rule change_one_row(1)[OF consents_okD(1,2)[OF ok]]) simp_all
    moreover have "one_active t'" unfolding e(4) by (rule change_one_row(2)[OF consents_okD(1,2)[OF ok]]) simp_all
    ultimately show ?thesis using True by (simp add: consents_ok_def)
  next
    case False
    then have "\<not> activeConsentOf realmId u c e" using e(3) by (auto simp: activeConsentOf_def)
    then have "consents_ok realmId u c t' log" unfolding e(4) by (intro consents_ok_other[OF ok]) (simp_all add: activeConsentOf_def)
    then show ?thesis using False by (simp only: if_False)
  qed
qed

lemma consents_ok_run: "consent_run realmId u c t log \<Longrightarrow> consents_ok realmId u c t log"
proof (induction rule: consent_run.induct)
  case consents_start
  then show ?case by (simp add: consents_ok_def unique_on_def one_active_def)
next
  case (consent_granted t log newId now scopes resources row t')
  then show ?case using consents_ok_granted by blast
next
  case (other_granted t log newId realm' u' c' now scopes resources row t')
  then show ?case using consents_ok_other_granted by blast
next
  case (consent_revoked t log now realm' i row t')
  then show ?case using consents_ok_revoked[OF consent_revoked(4,2)] by simp
next
  case (other_revoked t log now realm' i row t')
  then show ?case using consents_ok_revoked[OF other_revoked(4,2)] by argo
qed

lemma isScopeSubset_iff: "isScopeSubset a b \<longleftrightarrow> set a \<subseteq> set b"
  by (auto simp: isScopeSubset_def list_all_iff)

text \<open>
  C17. In every run of grants and revocations over the consents table, the active consent of a user
  and client covers a request exactly when every scope asked for was granted since the last
  revocation and, for every resource named, was granted together with that resource; without an
  active consent nothing has been granted since. So no approval for one resource server is ever used
  for another, and a revoked approval covers nothing.
\<close>

theorem consent_covers_exactly_what_was_granted:
  assumes "consent_run realmId u c t log"
  shows "case findActive realmId u c t of
      None \<Rightarrow> log = []
    | Some x \<Rightarrow> cs_revokedAt x = None \<and> (consentCovers x scopes resources \<longleftrightarrow>
        (\<forall>s. s \<in> set scopes \<longrightarrow> (\<exists>g. g \<in> set log \<and> s \<in> set (fst g)))
        \<and> (\<forall>r. r \<in> set resources \<longrightarrow> (\<exists>g. g \<in> set log \<and> r \<in> set (snd g))
             \<and> (\<forall>s. s \<in> set scopes \<longrightarrow> (\<exists>g. g \<in> set log \<and> r \<in> set (snd g) \<and> s \<in> set (fst g)))))"
proof (cases "findActive realmId u c t")
  case None
  then have "\<forall>x \<in> set t. \<not> activeConsentOf realmId u c x"
    by (auto simp: findActive_def limit1_def select_where_def filter_empty_conv split: list.splits)
  then show ?thesis using consents_ok_run[OF assms] None by (simp add: consents_ok_def)
next
  case (Some x)
  then have "x \<in> set (filter (activeConsentOf realmId u c) t)"
    by (auto simp: findActive_def limit1_def select_where_def simp del: set_filter split: list.splits)
  then have x: "activeConsentOf realmId u c x" and m: "row_matches log x" using consents_ok_run[OF assms] by (simp_all add: consents_ok_def)
  have "(case map_of (cs_resourceScopes x) r of None \<Rightarrow> False | Some g \<Rightarrow> isScopeSubset scopes g) \<longleftrightarrow>
      (case granted_at log r of None \<Rightarrow> False | Some g \<Rightarrow> set scopes \<subseteq> g)" for r
    using m case_of_sets(1)[of "map_of (cs_resourceScopes x) r" "granted_at log r" "\<lambda>g. set scopes \<subseteq> g"]
    unfolding isScopeSubset_iff row_matches_def by blast
  then have "consentCovers x scopes resources \<longleftrightarrow> set scopes \<subseteq> granted_scopes log
      \<and> (\<forall>r \<in> set resources. case granted_at log r of None \<Rightarrow> False | Some g \<Rightarrow> set scopes \<subseteq> g)"
    using m by (simp add: consentCovers_def isScopeSubset_iff row_matches_def list_all_iff)
  also have "\<dots> \<longleftrightarrow> (\<forall>s. s \<in> set scopes \<longrightarrow> (\<exists>g. g \<in> set log \<and> s \<in> set (fst g)))
        \<and> (\<forall>r. r \<in> set resources \<longrightarrow> (\<exists>g. g \<in> set log \<and> r \<in> set (snd g))
             \<and> (\<forall>s. s \<in> set scopes \<longrightarrow> (\<exists>g. g \<in> set log \<and> r \<in> set (snd g) \<and> s \<in> set (fst g))))"
  proof -
    have "(case granted_at log r of None \<Rightarrow> False | Some g \<Rightarrow> set scopes \<subseteq> g) \<longleftrightarrow> (\<exists>g. g \<in> set log \<and> r \<in> set (snd g))
        \<and> (\<forall>s. s \<in> set scopes \<longrightarrow> (\<exists>g. g \<in> set log \<and> r \<in> set (snd g) \<and> s \<in> set (fst g)))" for r
    proof (cases "\<exists>g. g \<in> set log \<and> r \<in> set (snd g)")
      case True
      then have "filter (\<lambda>g. r \<in> set (snd g)) log \<noteq> []" by (metis filter_empty_conv)
      then have "granted_at log r = Some (granted_scopes (filter (\<lambda>g. r \<in> set (snd g)) log))"
        by (simp add: granted_at_def)
      moreover have "set scopes \<subseteq> granted_scopes (filter (\<lambda>g. r \<in> set (snd g)) log) \<longleftrightarrow>
          (\<forall>s. s \<in> set scopes \<longrightarrow> (\<exists>g. g \<in> set log \<and> r \<in> set (snd g) \<and> s \<in> set (fst g)))"
        by (simp add: granted_scopes_def subset_iff)
      ultimately show ?thesis using True by simp
    next
      case False
      then have "granted_at log r = None" by (auto simp: granted_at_def Let_def filter_empty_conv)
      then show ?thesis using False by simp
    qed
    moreover have "set scopes \<subseteq> granted_scopes log \<longleftrightarrow> (\<forall>s. s \<in> set scopes \<longrightarrow> (\<exists>g. g \<in> set log \<and> s \<in> set (fst g)))"
      by (simp add: granted_scopes_def subset_iff Bex_def)
    ultimately show ?thesis unfolding Ball_def by simp
  qed
  finally show ?thesis using Some x by (simp add: activeConsentOf_def)
qed


text \<open>Two approvals, each at its own resource: neither covers the other's scope at its resource.\<close>

definition example_consents :: consents where
  "example_consents = [\<lparr>cs_id = ''i'', cs_userId = ''u'', cs_oauthClientId = ''c'', cs_realmId = ''r'', cs_scopes = [''a'', ''b''],
     cs_resourceScopes = [(''X'', [''a'']), (''Y'', [''b''])], cs_grantedAt = 2, cs_revokedAt = None\<rparr>]"

lemma example_consents_run: "consent_run ''r'' ''u'' ''c'' example_consents [([''b''], [''Y'']), ([''a''], [''X''])]"
proof -
  have 1: "upsertGrant ''i'' 1 ''r'' ''u'' ''c'' [''a''] [''X''] [] =
      Inr (\<lparr>cs_id = ''i'', cs_userId = ''u'', cs_oauthClientId = ''c'', cs_realmId = ''r'', cs_scopes = [''a''],
        cs_resourceScopes = [(''X'', [''a''])], cs_grantedAt = 1, cs_revokedAt = None\<rparr>,
       [\<lparr>cs_id = ''i'', cs_userId = ''u'', cs_oauthClientId = ''c'', cs_realmId = ''r'', cs_scopes = [''a''],
        cs_resourceScopes = [(''X'', [''a''])], cs_grantedAt = 1, cs_revokedAt = None\<rparr>])"
    by (simp add: upsertGrant_def findActive_def select_where_def limit1_def consent_create_def active_taken_def)
  have 2: "upsertGrant ''j'' 2 ''r'' ''u'' ''c'' [''b''] [''Y'']
       [\<lparr>cs_id = ''i'', cs_userId = ''u'', cs_oauthClientId = ''c'', cs_realmId = ''r'', cs_scopes = [''a''],
        cs_resourceScopes = [(''X'', [''a''])], cs_grantedAt = 1, cs_revokedAt = None\<rparr>] =
      Inr (hd example_consents, example_consents)"
    by (simp add: upsertGrant_def findActive_def select_where_def limit1_def update_where_def activeConsentOf_def union_scopes_def
        dedup_def example_consents_def)
  show ?thesis by (rule consent_granted[OF consent_granted[OF consents_start _ 1] _ 2]) simp_all
qed

theorem consent_covers_exactly_what_was_granted_witness:
  "consentCovers (hd example_consents) [''a''] [''X''] \<and> \<not> consentCovers (hd example_consents) [''a''] [''Y'']"
proof -
  have f: "findActive ''r'' ''u'' ''c'' example_consents = Some (hd example_consents)" by code_simp
  note covers = consent_covers_exactly_what_was_granted[OF example_consents_run, unfolded f option.case]
  have "consentCovers (hd example_consents) [''a''] [''X'']" using covers[of "[''a'']" "[''X'']"] by (simp add: ex_disj_distrib conj_disj_distribR)
  moreover have "\<not> consentCovers (hd example_consents) [''a''] [''Y'']" using covers[of "[''a'']" "[''Y'']"] by (simp add: ex_disj_distrib conj_disj_distribR)
  ultimately show ?thesis by blast
qed

subsection \<open>What goes without the screen, and when a fresh sign-in is needed\<close>

text \<open>
  C18. An authorization goes on without the consent screen and without a new sign-in only when the client
  is no agent, every scope asked for is either waived by the operator's first-party profile and not
  dangerous or covered, at every resource, by the stored consent it was judged against, and, where
  the environment enforces it, a dangerous scope comes with a sign-in inside the freshness window;
  and no sign-in is asked for twice: right after one, whatever the scopes, the prompt and a
  non-negative \<open>max_age\<close> say, no further one is required.
\<close>

theorem skipped_screen_was_consented:
  assumes "canSkipConsent badgeDays now consent c scopes resources"
    and "\<not> sd_requiresFreshLogin (evaluateStepUp i)" and "su_requestedScopes i = scopes"
  shows "\<not> isAgentClient (oauth_client.truncate c)
    \<and> ((resolveFirstPartyProfile c \<noteq> None \<and> list_all (\<lambda>s. \<not> isDangerousScope s) scopes)
      \<or> (\<exists>g. consent = Some g \<and> cs_revokedAt g = None \<and> consentCovers g scopes resources))
    \<and> (\<forall>s. su_enforceDangerousStepUp i \<noteq> Some False \<longrightarrow> s \<in> set scopes \<longrightarrow> isDangerousScope s \<longrightarrow>
        su_nowMs i - su_authTimeMs i \<le> su_freshAuthWindowMs i)
    \<and> (\<forall>m. su_maxAgeSeconds i = Some m \<longrightarrow> (su_nowMs i - su_authTimeMs i) div 1000 \<le> m)
    \<and> (\<forall>a t. 0 \<le> t - a \<longrightarrow> t - a \<le> su_freshAuthWindowMs i \<longrightarrow> t - a < 1000 \<longrightarrow> (\<forall>m. su_maxAgeSeconds i = Some m \<longrightarrow> 0 \<le> m) \<longrightarrow>
        \<not> sd_requiresFreshLogin (evaluateStepUp (i\<lparr>su_authTimeMs := a, su_nowMs := t\<rparr>)))"
proof (intro conjI allI impI)
  show "\<not> isAgentClient (oauth_client.truncate c)"
    using assms(1) by (auto simp: canSkipConsent_def isAgentClient_def oauth_client.truncate_def split: if_splits)
  show "(resolveFirstPartyProfile c \<noteq> None \<and> list_all (\<lambda>s. \<not> isDangerousScope s) scopes)
      \<or> (\<exists>g. consent = Some g \<and> cs_revokedAt g = None \<and> consentCovers g scopes resources)"
    using assms(1) by (auto simp: canSkipConsent_def administrativeConsentFor_def list_ex_iff list_all_iff
        split: if_splits option.splits)
next
  fix s assume "su_enforceDangerousStepUp i \<noteq> Some False" "s \<in> set scopes" "isDangerousScope s"
  then show "su_nowMs i - su_authTimeMs i \<le> su_freshAuthWindowMs i"
    using assms(2,3) by (auto simp: evaluateStepUp_def Let_def filter_empty_conv split: option.splits)
next
  fix m assume "su_maxAgeSeconds i = Some m"
  then show "(su_nowMs i - su_authTimeMs i) div 1000 \<le> m" using assms(2) by (simp add: evaluateStepUp_def Let_def)
next
  fix a t :: ms assume w: "0 \<le> t - a" "t - a \<le> su_freshAuthWindowMs i" "t - a < 1000" "\<forall>m. su_maxAgeSeconds i = Some m \<longrightarrow> 0 \<le> m"
  have "(t - a) div 1000 = 0" using w(1,3) by simp
  then show "\<not> sd_requiresFreshLogin (evaluateStepUp (i\<lparr>su_authTimeMs := a, su_nowMs := t\<rparr>))"
    using w(2,4) by (auto simp: evaluateStepUp_def Let_def split: option.split)
qed

definition example_client :: fp_client where
  "example_client = \<lparr>oc_id = ''c'', oc_realmId = ''r'', oc_clientId = ''app'', oc_name = ''App'', oc_grantTypes = [''authorization_code''],
     oc_scopes = [''a'', ''b''], oc_audience = None, oc_authMethod = Some ''none'', oc_isAgent = Some False, oc_maxAgentMode = None,
     oc_redirectUris = None, oc_metadata = (\<lambda>_. None), oc_dynamicRegisteredAt = None, oc_backchannelLogoutUri = None,
     oc_firstPartyProfile = None, oc_firstPartyPolicy = PolicyNull, oc_developerId = None\<rparr>"

definition example_step_up :: step_up_input where
  "example_step_up = \<lparr>su_requestedScopes = [''a''], su_priorConsentScopes = [''a'', ''b''], su_prompt = None, su_maxAgeSeconds = Some 60,
     su_authTimeMs = 1000, su_nowMs = 31000, su_freshAuthWindowMs = 300000, su_enforceDangerousStepUp = None, su_forceFreshLogin = False\<rparr>"

theorem skipped_screen_was_consented_witness:
  "\<not> isAgentClient (oauth_client.truncate example_client)
   \<and> (su_nowMs example_step_up - su_authTimeMs example_step_up) div 1000 \<le> 60
   \<and> \<not> sd_requiresFreshLogin (evaluateStepUp (example_step_up\<lparr>su_authTimeMs := 90000, su_nowMs := 90010\<rparr>))"
proof -
  have s: "canSkipConsent 7 31000 (Some (hd example_consents)) example_client [''a''] [''X'']" by code_simp
  have f: "\<not> sd_requiresFreshLogin (evaluateStepUp example_step_up)" by code_simp
  have r: "su_requestedScopes example_step_up = [''a'']" by code_simp
  note skip = skipped_screen_was_consented[OF s f r]
  have m: "su_maxAgeSeconds example_step_up = Some 60" "su_freshAuthWindowMs example_step_up = 300000"
    by (simp_all add: example_step_up_def)
  from skip have a: "\<not> isAgentClient (oauth_client.truncate example_client)" by blast
  from skip have b: "\<forall>m. su_maxAgeSeconds example_step_up = Some m \<longrightarrow> (su_nowMs example_step_up - su_authTimeMs example_step_up) div 1000 \<le> m"
    by blast
  from skip have c: "\<forall>a t. 0 \<le> t - a \<longrightarrow> t - a \<le> su_freshAuthWindowMs example_step_up \<longrightarrow> t - a < 1000 \<longrightarrow>
      (\<forall>m. su_maxAgeSeconds example_step_up = Some m \<longrightarrow> 0 \<le> m) \<longrightarrow>
      \<not> sd_requiresFreshLogin (evaluateStepUp (example_step_up\<lparr>su_authTimeMs := a, su_nowMs := t\<rparr>))" by blast
  show ?thesis using a b[rule_format, OF m(1)] c[rule_format, of 90010 90000] m by simp
qed

end
