(* ===== verification/Token_Endpoint.thy ===== *)
theory Token_Endpoint
  imports Consents Refresh_Tokens
begin

text \<open>
  The code and refresh grants of \<open>apps/auth-server/src/app/routes/oauth/token.ts\<close>
  (\<open>handleAuthorizationCode\<close>, \<open>handleRefreshToken\<close> and their helpers) and the records of issued access
  tokens (\<open>helpers/grant-access-tokens.ts\<close>). Each handler is two functions, the checks on what it
  reads and its transaction on what it finds later, so that another request may run in between. A
  handler's result is an error or a value, with the state it leaves: tables, events, and the two Redis
  records (access tokens by grant, the denylist). The clock's readings, the values drawn at random, the
  SHA-256 of a verifier and of a token, the URL parser, the signer and whether Redis answers are
  arguments. The e-mail and profile claims, the metrics and the log lines are left out.
\<close>

subsection \<open>The state and the request\<close>

text \<open>A Redis hash of the access tokens of a grant, named by the code or the family.\<close>

datatype grant_key = CODE_ACCESS_TOKENS string | REFRESH_FAMILY_ACCESS_TOKENS string

datatype token_event =
    RequestFailed string string "string option" "(string option \<times> nat) option"
  | FamilyRevoked string string string nat
  | TokenIssued string "string list" "string list" "string list" int "string option"

record grant_db =
  gd_admin :: admin_db
  gd_clients :: clients
  gd_codes :: codes
  gd_tokens :: tokens
  gd_consents :: consents
  gd_events :: "token_event list"
  gd_recorded :: "(grant_key \<times> string \<times> int) list"
  gd_denied :: "string list"

datatype oauth_error = UnauthorizedClient | InvalidGrant | InvalidTarget | InvalidScope | InvalidDpopProof | ServerError

fun error_code :: "oauth_error \<Rightarrow> string" where
  "error_code UnauthorizedClient = ''unauthorized_client''"
| "error_code InvalidGrant = ''invalid_grant''"
| "error_code InvalidTarget = ''invalid_target''"
| "error_code InvalidScope = ''invalid_scope''"
| "error_code InvalidDpopProof = ''invalid_dpop_proof''"
| "error_code ServerError = ''server_error''"

record token_lifetimes =
  tl_access :: int
  tl_development :: int
  tl_refresh :: int
  tl_admin :: int

text \<open>\<open>HandlerContext\<close>: the client, the realm's values, the environment policy and the proof key.\<close>

record handler_ctx =
  hc_client :: oauth_client
  hc_realmId :: string
  hc_ssoMaxLifespan :: "int option"
  hc_lifetimes :: token_lifetimes
  hc_pkceRequired :: bool
  hc_longTier :: bool
  hc_dpop :: bool
  hc_dpopThumbprint :: "string option"
  hc_systemClientId :: string

text \<open>The claims of an access token and of an ID token that the handlers choose.\<close>

record access_claims =
  at_sub :: string
  at_clientId :: string
  at_scope :: "string list"
  at_aud :: aud
  at_cnf :: "string option"
  at_authTime :: "ms option"
  at_amr :: "string list option"
  at_sid :: "string option"
  at_expiresIn :: int

record id_claims =
  it_sub :: string
  it_audience :: string
  it_nonce :: "string option"
  it_authTime :: "ms option"
  it_amr :: "string list option"
  it_assurance :: "string option"
  it_sid :: "string option"
  it_expiresIn :: int

text \<open>What is not this code: the catalog, the id shape, SHA-256, the URL parser and the signer, which may fail.\<close>

record token_deps =
  dp_registry :: registry
  dp_guid :: "string \<Rightarrow> bool"
  dp_verifyChallenge :: "string \<Rightarrow> string \<Rightarrow> bool"
  dp_hashToken :: "string \<Rightarrow> string"
  dp_parseUrl :: url_parser
  dp_sign :: "access_claims \<Rightarrow> (string \<times> string \<times> int) option"
  dp_signId :: "id_claims \<Rightarrow> string option"

text \<open>What a request draws and when it reads the clock, and whether Redis answers.\<close>

record token_draws =
  dr_token :: string
  dr_familyId :: string
  dr_rowId :: string
  dr_readAt :: ms
  dr_issuedAt :: ms
  dr_writeAt :: ms
  dr_redisUp :: bool

record token_response =
  tr_access :: string
  tr_refresh :: "string option"
  tr_expiresIn :: int
  tr_type :: string
  tr_scope :: "string list"
  tr_id :: "string option"

type_synonym 'a handled = "(oauth_error + 'a) \<times> grant_db"

subsection \<open>Helpers\<close>

definition emit :: "token_event \<Rightarrow> grant_db \<Rightarrow> grant_db" where
  "emit e d = d\<lparr>gd_events := gd_events d @ [e]\<rparr>"

text \<open>\<open>emitRequestFailed\<close> and the \<open>throw\<close> that follows it.\<close>

definition refuse :: "oauth_error \<Rightarrow> string \<Rightarrow> string option \<Rightarrow> grant_db \<Rightarrow> 'a handled" where
  "refuse e reason user d = (Inl e, emit (RequestFailed (error_code e) reason user None) d)"

definition tokenTypeFor :: "handler_ctx \<Rightarrow> string" where
  "tokenTypeFor C = (if hc_dpopThumbprint C = None then ''Bearer'' else ''DPoP'')"

definition dpopConfirmation :: "handler_ctx \<Rightarrow> string option" where
  "dpopConfirmation C = hc_dpopThumbprint C"

definition recordedSignIn :: "ms option \<Rightarrow> string list option \<Rightarrow> ms option \<times> string list option" where
  "recordedSignIn authTime amr = (case authTime of
      None \<Rightarrow> (None, None)
    | Some t \<Rightarrow> (Some t, if amr = None \<or> amr = Some [] then None else amr))"

definition accountSessionClaim :: "aud \<Rightarrow> string option \<Rightarrow> string option" where
  "accountSessionClaim a sessionId =
     (if aud_flat a \<noteq> [API_FAMILY_AUDIENCES AccountApi] then None
      else case sessionId of None \<Rightarrow> None | Some s \<Rightarrow> if s = [] then None else Some s)"

definition isAdminToken :: "string list \<Rightarrow> aud \<Rightarrow> bool" where
  "isAdminToken scopes a \<longleftrightarrow> API_FAMILY_AUDIENCES AdminApi \<in> set (aud_flat a) \<or> list_ex isAdminScope scopes"

definition refreshTokenBinding :: "handler_ctx \<Rightarrow> string list \<Rightarrow> aud \<Rightarrow> string option" where
  "refreshTokenBinding C scopes a = (if isPublicClient (hc_client C) \<or> isAdminToken scopes a then hc_dpopThumbprint C else None)"

definition dpopBindingRefusal :: "handler_ctx \<Rightarrow> string option \<Rightarrow> (oauth_error \<times> string) option" where
  "dpopBindingRefusal C bound = (case bound of
      None \<Rightarrow> None
    | Some jkt \<Rightarrow>
        if \<not> hc_dpop C then Some (InvalidGrant, ''dpop_disabled'')
        else (case hc_dpopThumbprint C of
            None \<Rightarrow> Some (InvalidDpopProof, ''dpop_missing_proof'')
          | Some t \<Rightarrow> if t \<noteq> jkt then Some (InvalidDpopProof, ''dpop_key_mismatch'') else None))"

definition ADMIN_ACCESS_TOKEN_MAX_LIFESPAN_SECONDS :: int where "ADMIN_ACCESS_TOKEN_MAX_LIFESPAN_SECONDS = 900"

definition accessTokenLifespanForPolicy :: "handler_ctx \<Rightarrow> int" where
  "accessTokenLifespanForPolicy C = (if hc_longTier C then tl_development (hc_lifetimes C) else tl_access (hc_lifetimes C))"

definition accessTokenLifespanFor :: "handler_ctx \<Rightarrow> aud \<Rightarrow> int" where
  "accessTokenLifespanFor C a =
     (let tier = accessTokenLifespanForPolicy C
      in if API_FAMILY_AUDIENCES AdminApi \<in> set (aud_flat a)
         then min (min tier (tl_admin (hc_lifetimes C))) ADMIN_ACCESS_TOKEN_MAX_LIFESPAN_SECONDS else tier)"

text \<open>\<open>spendGrant\<close>: whether the spending found its row, and the table it leaves.\<close>

definition spendGrant :: "repo_error + 'r \<times> 't \<Rightarrow> 't \<Rightarrow> bool \<times> 't" where
  "spendGrant r t = (case r of Inl _ \<Rightarrow> (False, t) | Inr (_, t') \<Rightarrow> (True, t'))"

definition recordKeys :: "string option \<Rightarrow> string option \<Rightarrow> grant_key list" where
  "recordKeys codeId familyId =
     (case codeId of Some c \<Rightarrow> if c = [] then [] else [CODE_ACCESS_TOKENS c] | None \<Rightarrow> [])
     @ (case familyId of Some f \<Rightarrow> if f = [] then [] else [REFRESH_FAMILY_ACCESS_TOKENS f] | None \<Rightarrow> [])"

text \<open>Times of a token are in seconds, the clock's in milliseconds.\<close>

definition recordGrantAccessToken :: "bool \<Rightarrow> ms \<Rightarrow> string \<Rightarrow> int \<Rightarrow> string option \<Rightarrow> string option \<Rightarrow> grant_db \<Rightarrow> grant_db" where
  "recordGrantAccessToken redisUp now jti expires codeId familyId d =
     (if \<not> redisUp \<or> jti = [] \<or> expires * 1000 - now \<le> 0 then d
      else d\<lparr>gd_recorded := gd_recorded d @ map (\<lambda>k. (k, jti, expires)) (recordKeys codeId familyId)\<rparr>)"

definition revokeGrantAccessTokens :: "bool \<Rightarrow> ms \<Rightarrow> string option \<Rightarrow> string option \<Rightarrow> grant_db \<Rightarrow> grant_db" where
  "revokeGrantAccessTokens redisUp now codeId familyId d =
     (if \<not> redisUp then d
      else d\<lparr>gd_denied := gd_denied d @ map (fst \<circ> snd)
        (filter (\<lambda>(k, jti, expires). k \<in> set (recordKeys codeId familyId) \<and> expires * 1000 - now > 0) (gd_recorded d))\<rparr>)"

definition emitFamilyRevoked :: "string \<Rightarrow> string \<Rightarrow> string option \<Rightarrow> nat \<Rightarrow> grant_db \<Rightarrow> grant_db" where
  "emitFamilyRevoked reason user family n d = (case family of
      None \<Rightarrow> d
    | Some f \<Rightarrow> if n < 1 then d else emit (FamilyRevoked reason user f n) d)"

definition rejectCodeReplay :: "token_draws \<Rightarrow> auth_code \<Rightarrow> grant_db \<Rightarrow> 'a handled" where
  "rejectCodeReplay D a d =
     (let ((family, n), tokens) = revokeFamilyByAuthorizationCode (dr_writeAt D) (cd_id a) ''code_replay'' (gd_tokens d);
          d1 = emit (RequestFailed ''invalid_grant'' ''code_replay'' (Some (cd_userId a)) (Some (family, n))) (d\<lparr>gd_tokens := tokens\<rparr>);
          d2 = emitFamilyRevoked ''code_replay'' (cd_userId a) family n d1
      in (Inl InvalidGrant, revokeGrantAccessTokens (dr_redisUp D) (dr_writeAt D) (Some (cd_id a)) family d2))"

definition rejectRefreshTokenReplay :: "token_draws \<Rightarrow> refresh_token \<Rightarrow> grant_db \<Rightarrow> 'a handled" where
  "rejectRefreshTokenReplay D s d =
     (let (n, tokens) = revokeFamily (dr_writeAt D) (rt_familyId s) (Some ''replay_detected'') (gd_tokens d);
          d1 = emit (RequestFailed ''invalid_grant'' ''refresh_replay'' (Some (rt_userId s)) (Some (Some (rt_familyId s), n)))
                 (d\<lparr>gd_tokens := tokens\<rparr>);
          d2 = emitFamilyRevoked ''refresh_replay'' (rt_userId s) (Some (rt_familyId s)) n d1
      in (Inl InvalidGrant, revokeGrantAccessTokens (dr_redisUp D) (dr_writeAt D) None (Some (rt_familyId s)) d2))"

text \<open>\<open>assertReservedAudiencesListed\<close> and \<open>issuableScopes\<close>: the refusal, with its reason, or the scopes to issue.\<close>

definition assertReservedAudiencesListed :: "handler_ctx \<Rightarrow> aud \<Rightarrow> (oauth_error \<times> string) option" where
  "assertReservedAudiencesListed C a =
     (if unlistedReservedAudiences (hc_client C) a = [] then None else Some (InvalidTarget, ''reserved_audience_not_listed''))"

definition issuableScopes :: "token_deps \<Rightarrow> handler_ctx \<Rightarrow> string option \<Rightarrow> string list \<Rightarrow> aud \<Rightarrow> bool \<Rightarrow> grant_db
    \<Rightarrow> (oauth_error \<times> string) + string list" where
  "issuableScopes P C userId scopes a dpopBound d =
     (let decision = adminIssuance (dp_registry P) (dp_guid P) (gd_admin d)
            \<lparr>ir_client = hc_client C, ir_realmId = hc_realmId C, ir_userId = userId, ir_namesUser = None, ir_scopes = scopes, ir_aud = a,
             ir_dpopBound = dpopBound\<rparr>;
          namesAdmin = API_FAMILY_AUDIENCES AdminApi \<in> set (aud_flat a)
      in if is_audienceRefused decision then Inl (InvalidTarget, ''admin_audience_without_grant'')
         else if is_proofMissing decision \<and> (namesAdmin \<or> is_scopes decision = [])
         then Inl (if hc_dpop C \<and> hc_dpopThumbprint C = None then InvalidDpopProof else if namesAdmin then InvalidTarget else InvalidScope,
                   ''admin_token_without_dpop'')
         else if is_scopes decision = [] \<and> is_withheld decision \<noteq> []
         then Inl (InvalidScope, if list_ex isAdminScope (is_withheld decision) then ''admin_scope_without_grant'' else ''reserved_scope_not_issued'')
         else Inr (is_scopes decision))"

fun refusal_reason :: "account_refusal \<Rightarrow> string" where
  "refusal_reason UserDisabled = ''user_disabled''"
| "refusal_reason IssuedBeforeDisablement = ''issued_before_disablement''"


subsection \<open>The code grant\<close>

record code_request =
  cq_code :: string
  cq_redirectUri :: "string option"
  cq_verifier :: string
  cq_resource :: "string list"

text \<open>What the checks settled for the transaction: the code, the refresh row to store, and the tokens to sign.\<close>

record code_plan =
  cp_code :: auth_code
  cp_refresh :: "refresh_token option"
  cp_refreshToken :: "string option"
  cp_access :: access_claims
  cp_id :: "id_claims option"
  cp_scopes :: "string list"
  cp_resource :: "string list"

datatype 'p checked = Proceed 'p | Replayed

definition newRefreshRow :: "token_deps \<Rightarrow> handler_ctx \<Rightarrow> token_draws \<Rightarrow> auth_code \<Rightarrow> string list \<Rightarrow> string list \<Rightarrow> aud \<Rightarrow> refresh_token" where
  "newRefreshRow P C D a issued resource aud =
     (let (authTime, amr) = recordedSignIn (cd_authTime a) (cd_amr a) in
      \<lparr>rt_id = dr_rowId D, rt_tokenHash = dp_hashToken P (dr_token D), rt_userId = cd_userId a, rt_oauthClientId = oc_id (hc_client C),
       rt_familyId = dr_familyId D, rt_familyCreatedAt = dr_issuedAt D, rt_familySessionExpiresAt = cd_sessionExpiresAt a,
       rt_authTime = authTime, rt_amr = amr, rt_scopes = cd_scopes a, rt_resource = resource,
       rt_expiresAt = refreshTokenExpiresAt (dr_issuedAt D) (tl_refresh (hc_lifetimes C))
         (refreshFamilyEnd (dr_issuedAt D) (hc_ssoMaxLifespan C) (cd_sessionExpiresAt a)),
       rt_revoked = False, rt_revokedAt = None, rt_revokedReason = None, rt_previousTokenHash = None,
       rt_cnfJkt = refreshTokenBinding C issued aud, rt_authorizationCodeId = Some (cd_id a), rt_createdAt = dr_writeAt D\<rparr>)"

definition burn_code :: "token_draws \<Rightarrow> auth_code \<Rightarrow> grant_db \<Rightarrow> grant_db" where
  "burn_code D a d = d\<lparr>gd_codes := snd (spendGrant (code_markUsed (dr_writeAt D) (cd_id a) (gd_codes d)) (gd_codes d))\<rparr>"

text \<open>The checks of the request against the code it names, in order: the refusal and whose event it is, or nothing.\<close>

definition codeRequestRefusal :: "token_deps \<Rightarrow> handler_ctx \<Rightarrow> code_request \<Rightarrow> auth_code \<Rightarrow> (oauth_error \<times> string) option" where
  "codeRequestRefusal P C q a =
     (if cd_oauthClientId a \<noteq> oc_id (hc_client C) then Some (InvalidGrant, ''client_mismatch'')
      else case cq_redirectUri q of
        None \<Rightarrow> Some (InvalidGrant, ''redirect_uri_missing'')
      | Some uri \<Rightarrow>
          if uri = [] then Some (InvalidGrant, ''redirect_uri_missing'')
          else if uri \<noteq> cd_redirectUri a then Some (InvalidGrant, ''redirect_uri_mismatch'')
          else if cd_codeChallenge a = [] \<and> cq_verifier q \<noteq> [] then Some (InvalidGrant, ''pkce_downgrade'')
          else if cd_codeChallenge a = [] \<and> hc_pkceRequired C then Some (InvalidGrant, ''pkce_required'')
          else if cd_codeChallenge a \<noteq> [] \<and> \<not> dp_verifyChallenge P (cq_verifier q) (cd_codeChallenge a) then Some (InvalidGrant, ''pkce_mismatch'')
          else case dpopBindingRefusal C (cd_dpopJkt a) of
            Some (e, reason) \<Rightarrow> Some (if cd_used a then InvalidGrant else e, reason)
          | None \<Rightarrow>
              if cq_resource q \<noteq> [] \<and> list_ex (\<lambda>r. r \<notin> set (cd_resource a)) (cq_resource q)
              then Some (if cd_used a then InvalidGrant else InvalidTarget, ''resource_outside_binding'')
              else None)"

text \<open>What is left once the request and the account pass: the consent, the audience and the scopes.\<close>

definition codePlan :: "token_deps \<Rightarrow> handler_ctx \<Rightarrow> token_draws \<Rightarrow> code_request \<Rightarrow> auth_code \<Rightarrow> user_row \<Rightarrow> grant_db \<Rightarrow> code_plan checked handled" where
  "codePlan P C D q a user d =
     (let resource = (if cq_resource q \<noteq> [] then cq_resource q else cd_resource a);
          covered = (case findActive (hc_realmId C) (ur_id user) (oc_id (hc_client C)) (gd_consents d) of
            None \<Rightarrow> False | Some g \<Rightarrow> consentCovers g (cd_scopes a) resource);
          (authTime, amr) = recordedSignIn (cd_authTime a) (cd_amr a);
          aud = resolveUserGrantAudience (hc_systemClientId C) (hc_client C) resource;
          expiresIn = accessTokenLifespanFor C aud
      in case assertReservedAudiencesListed C aud of
           Some (e, reason) \<Rightarrow> refuse e reason (Some (ur_id user)) d
         | None \<Rightarrow> (case issuableScopes P C (Some (ur_id user)) (cd_scopes a) aud (hc_dpopThumbprint C \<noteq> None) d of
             Inl (e, reason) \<Rightarrow> refuse e reason (Some (ur_id user)) d
           | Inr issued \<Rightarrow> (Inr (Proceed \<lparr>cp_code = a,
               cp_refresh = (if covered then Some (newRefreshRow P C D a issued resource aud) else None),
               cp_refreshToken = (if covered then Some (dr_token D) else None),
               cp_access = \<lparr>at_sub = ur_id user, at_clientId = oc_clientId (hc_client C), at_scope = issued, at_aud = aud,
                 at_cnf = dpopConfirmation C, at_authTime = authTime, at_amr = amr, at_sid = accountSessionClaim aud (cd_sessionId a),
                 at_expiresIn = expiresIn\<rparr>,
               cp_id = (if ''openid'' \<in> set (cd_scopes a) then Some \<lparr>it_sub = ur_id user, it_audience = oc_clientId (hc_client C),
                 it_nonce = cd_nonce a, it_authTime = authTime, it_amr = amr, it_assurance = cd_assuranceLevel a, it_sid = cd_sessionId a,
                 it_expiresIn = tl_access (hc_lifetimes C)\<rparr> else None),
               cp_scopes = issued, cp_resource = resource\<rparr>), d)))"

text \<open>\<open>handleAuthorizationCode\<close> up to its transaction. \<open>Replayed\<close> is a spent code its own client presented in full.\<close>

definition authCodeChecks :: "token_deps \<Rightarrow> handler_ctx \<Rightarrow> token_draws \<Rightarrow> code_request \<Rightarrow> grant_db \<Rightarrow> (auth_code \<times> code_plan checked) handled" where
  "authCodeChecks P C D q d =
     (if ''authorization_code'' \<notin> set (oc_grantTypes (hc_client C)) then refuse UnauthorizedClient ''grant_type_not_allowed'' None d
      else case findByCodeIncludingUsed (gd_clients d) (hc_realmId C) (cq_code q) (gd_codes d) of
        None \<Rightarrow> refuse InvalidGrant ''code_invalid'' None d
      | Some a \<Rightarrow>
          if \<not> cd_used a \<and> cd_expiresAt a \<le> dr_readAt D then refuse InvalidGrant ''code_invalid'' None d
          else case codeRequestRefusal P C q a of
            Some (e, reason) \<Rightarrow> refuse e reason (Some (cd_userId a)) d
          | None \<Rightarrow>
              if cd_used a then (Inr (a, Replayed), d)
              else case user_findById (dp_guid P) (hc_realmId C) (cd_userId a) (db_users (gd_admin d)) of
                None \<Rightarrow> refuse InvalidGrant ''user_not_found'' None d
              | Some user \<Rightarrow>
                  (case accountCredentialRefusal user (Some (min (cd_createdAt a) (case cd_authTime a of None \<Rightarrow> cd_createdAt a | Some t \<Rightarrow> t))) of
                     Some r \<Rightarrow> refuse InvalidGrant (refusal_reason r) (Some (ur_id user)) (burn_code D a d)
                   | None \<Rightarrow>
                       (case enforceAgentScopeCap (cd_scopes a) (toAgentScopeContext (hc_client C)) of
                          Some _ \<Rightarrow> refuse InvalidScope ''scope_exceeds_agent_mode'' (Some (ur_id user)) (burn_code D a d)
                        | None \<Rightarrow> (case codePlan P C D q a user d of
                              (Inl e, d') \<Rightarrow> (Inl e, d')
                            | (Inr p, d') \<Rightarrow> (Inr (a, p), d')))))"

text \<open>
  Its transaction: spend the code, store the refresh token, sign, record. A failure rolls the tables
  back; what Redis was told stays.
\<close>

definition redeemCode :: "token_deps \<Rightarrow> handler_ctx \<Rightarrow> token_draws \<Rightarrow> code_plan \<Rightarrow> grant_db \<Rightarrow> token_response handled" where
  "redeemCode P C D p d =
     (let a = cp_code p in case spendGrant (code_markUsed (dr_writeAt D) (cd_id a) (gd_codes d)) (gd_codes d) of
        (False, _) \<Rightarrow> rejectCodeReplay D a d
      | (True, codes) \<Rightarrow>
          (case (case cp_refresh p of None \<Rightarrow> Inr (gd_tokens d) | Some r \<Rightarrow> map_sum id snd (token_create r (gd_tokens d))) of
             Inl _ \<Rightarrow> (Inl ServerError, d)
           | Inr tokens \<Rightarrow>
               (case dp_sign P (cp_access p) of
                  None \<Rightarrow> (Inl ServerError, d)
                | Some (tok, jti, expires) \<Rightarrow>
                    let family = map_option rt_familyId (cp_refresh p);
                        d1 = recordGrantAccessToken (dr_redisUp D) (dr_writeAt D) jti expires (Some (cd_id a)) family d;
                        idToken = (case cp_id p of None \<Rightarrow> Some None | Some c \<Rightarrow> map_option Some (dp_signId P c))
                    in (case idToken of
                          None \<Rightarrow> (Inl ServerError, d1)
                        | Some i \<Rightarrow>
                            (Inr \<lparr>tr_access = tok, tr_refresh = cp_refreshToken p, tr_expiresIn = at_expiresIn (cp_access p),
                               tr_type = tokenTypeFor C, tr_scope = cp_scopes p, tr_id = i\<rparr>,
                             emit (TokenIssued ''authorization_code'' (cp_scopes p) (aud_flat (at_aud (cp_access p))) (cp_resource p)
                                (at_expiresIn (cp_access p)) family)
                               (d1\<lparr>gd_codes := codes, gd_tokens := tokens\<rparr>))))))"

definition handleAuthorizationCode :: "token_deps \<Rightarrow> handler_ctx \<Rightarrow> token_draws \<Rightarrow> code_request \<Rightarrow> grant_db \<Rightarrow> token_response handled" where
  "handleAuthorizationCode P C D q d = (case authCodeChecks P C D q d of
      (Inl e, d') \<Rightarrow> (Inl e, d')
    | (Inr (a, Replayed), d') \<Rightarrow> rejectCodeReplay D a d'
    | (Inr (a, Proceed p), d') \<Rightarrow> redeemCode P C D p d')"

subsection \<open>The refresh grant\<close>

record refresh_request =
  rq_token :: string
  rq_scope :: "string option"
  rq_resource :: "string list"

record refresh_plan =
  rp_stored :: refresh_token
  rp_child :: refresh_token
  rp_access :: access_claims
  rp_scopes :: "string list"
  rp_resource :: "string list"

text \<open>Down-scoping: the scopes asked for, within those stored.\<close>

definition grantedScopesOf :: "refresh_request \<Rightarrow> refresh_token \<Rightarrow> string list option" where
  "grantedScopesOf q s = (case rq_scope q of
      Some raw \<Rightarrow> let requested = dedup (js_words raw)
        in if filter (\<lambda>x. x \<notin> set (rt_scopes s)) requested \<noteq> [] then None else Some requested
    | None \<Rightarrow> Some (dedup (rt_scopes s)))"

definition childRow :: "token_deps \<Rightarrow> handler_ctx \<Rightarrow> token_draws \<Rightarrow> refresh_request \<Rightarrow> refresh_token \<Rightarrow> string list \<Rightarrow> string list \<Rightarrow> string list \<Rightarrow> aud \<Rightarrow> refresh_token" where
  "childRow P C D q s granted issued resource aud =
     (let familyScopes = (if rt_cnfJkt s \<noteq> None then granted
            else filter (\<lambda>x. \<not> isReservedQauthScope x \<or> familyScopeOf x \<noteq> None) granted)
      in s\<lparr>rt_id := dr_rowId D, rt_tokenHash := dp_hashToken P (dr_token D), rt_oauthClientId := oc_id (hc_client C),
           rt_scopes := familyScopes, rt_resource := resource,
           rt_expiresAt := rotatedRefreshTokenExpiresAt (dr_readAt D) (tl_refresh (hc_lifetimes C))
             (refreshFamilyEnd (rt_familyCreatedAt s) (hc_ssoMaxLifespan C) (rt_familySessionExpiresAt s))
             (rt_expiresAt s) (isBrowserBasedClient (dp_parseUrl P) (hc_client C)),
           rt_revoked := False, rt_revokedAt := None, rt_revokedReason := None,
           rt_previousTokenHash := Some (dp_hashToken P (rq_token q)),
           rt_cnfJkt := (case rt_cnfJkt s of Some j \<Rightarrow> Some j | None \<Rightarrow> refreshTokenBinding C issued aud),
           rt_authorizationCodeId := None, rt_createdAt := dr_writeAt D\<rparr>)"

definition refreshPlan :: "token_deps \<Rightarrow> handler_ctx \<Rightarrow> token_draws \<Rightarrow> refresh_request \<Rightarrow> refresh_token \<Rightarrow> user_row \<Rightarrow> grant_db \<Rightarrow> refresh_plan checked handled" where
  "refreshPlan P C D q s user d = (case grantedScopesOf q s of
      None \<Rightarrow> refuse InvalidScope ''scope_exceeds_refresh_token'' (Some (ur_id user)) d
    | Some granted \<Rightarrow>
        (case validateScopes (Some (js_join granted)) (oc_scopes (hc_client C)) (Some (toAgentScopeContext (hc_client C))) of
           Inl _ \<Rightarrow> refuse InvalidScope ''scope_not_allowed_for_client'' (Some (ur_id user)) d
         | Inr _ \<Rightarrow>
             if rq_resource q \<noteq> [] \<and> list_ex (\<lambda>r. r \<notin> set (rt_resource s)) (rq_resource q)
             then refuse InvalidTarget ''resource_outside_binding'' (Some (ur_id user)) d
             else
               let resource = (if rq_resource q \<noteq> [] then rq_resource q else rt_resource s);
                   aud = resolveUserGrantAudience (hc_systemClientId C) (hc_client C) resource;
                   expiresIn = accessTokenLifespanFor C aud;
                   bound = (rt_cnfJkt s \<noteq> None);
                   (authTime, amr) = recordedSignIn (rt_authTime s) (rt_amr s)
               in case assertReservedAudiencesListed C aud of
                    Some (e, reason) \<Rightarrow> refuse e reason (Some (ur_id user)) d
                  | None \<Rightarrow>
                      if \<not> bound \<and> API_FAMILY_AUDIENCES AdminApi \<in> set (aud_flat aud)
                      then refuse InvalidGrant ''admin_refresh_token_unbound'' (Some (ur_id user)) d
                      else (case issuableScopes P C (Some (ur_id user)) granted aud bound d of
                          Inl (e, reason) \<Rightarrow> refuse e reason (Some (ur_id user)) d
                        | Inr issued \<Rightarrow> (Inr (Proceed \<lparr>rp_stored = s, rp_child = childRow P C D q s granted issued resource aud,
                            rp_access = \<lparr>at_sub = ur_id user, at_clientId = oc_clientId (hc_client C), at_scope = issued, at_aud = aud,
                              at_cnf = dpopConfirmation C, at_authTime = authTime, at_amr = amr, at_sid = None, at_expiresIn = expiresIn\<rparr>,
                            rp_scopes = issued, rp_resource = resource\<rparr>), d))))"

definition refreshChecks :: "token_deps \<Rightarrow> handler_ctx \<Rightarrow> token_draws \<Rightarrow> refresh_request \<Rightarrow> grant_db \<Rightarrow> (refresh_token \<times> refresh_plan checked) handled" where
  "refreshChecks P C D q d =
     (if ''refresh_token'' \<notin> set (oc_grantTypes (hc_client C)) then refuse UnauthorizedClient ''grant_type_not_allowed'' None d
      else case findByTokenHashIncludingRevoked (gd_clients d) (hc_realmId C) (dp_hashToken P (rq_token q)) (gd_tokens d) of
        None \<Rightarrow> refuse InvalidGrant ''refresh_token_unknown'' None d
      | Some s \<Rightarrow>
          if rt_oauthClientId s \<noteq> oc_id (hc_client C) then refuse InvalidGrant ''client_mismatch'' (Some (rt_userId s)) d
          else case dpopBindingRefusal C (rt_cnfJkt s) of
            Some (e, reason) \<Rightarrow> refuse e reason (Some (rt_userId s)) d
          | None \<Rightarrow>
              if rt_revoked s then (Inr (s, Replayed), d)
              else if refreshFamilyEnded (refreshFamilyEnd (rt_familyCreatedAt s) (hc_ssoMaxLifespan C) (rt_familySessionExpiresAt s)) (dr_readAt D)
              then refuse InvalidGrant ''refresh_family_expired'' (Some (rt_userId s))
                     (d\<lparr>gd_tokens := snd (revokeFamily (dr_writeAt D) (rt_familyId s) (Some ''family_expired'') (gd_tokens d))\<rparr>)
              else if rt_expiresAt s \<le> dr_readAt D then refuse InvalidGrant ''refresh_token_expired'' (Some (rt_userId s)) d
              else case user_findById (dp_guid P) (hc_realmId C) (rt_userId s) (db_users (gd_admin d)) of
                None \<Rightarrow> refuse InvalidGrant ''user_not_found'' None d
              | Some user \<Rightarrow>
                  (case accountCredentialRefusal user (Some (min (rt_familyCreatedAt s) (rt_createdAt s))) of
                     Some r \<Rightarrow> refuse InvalidGrant (refusal_reason r) (Some (ur_id user))
                       (d\<lparr>gd_tokens := snd (spendGrant (token_revoke (dr_writeAt D) (rt_id s) (Some (refusal_reason r)) (gd_tokens d)) (gd_tokens d))\<rparr>)
                   | None \<Rightarrow> (case refreshPlan P C D q s user d of
                         (Inl e, d') \<Rightarrow> (Inl e, d')
                       | (Inr p, d') \<Rightarrow> (Inr (s, p), d'))))"

definition rotateToken :: "token_deps \<Rightarrow> handler_ctx \<Rightarrow> token_draws \<Rightarrow> refresh_plan \<Rightarrow> grant_db \<Rightarrow> token_response handled" where
  "rotateToken P C D p d =
     (let s = rp_stored p in case revokeIfActive (dr_writeAt D) (rt_id s) ''rotated'' (gd_tokens d) of
        (None, _) \<Rightarrow> rejectRefreshTokenReplay D s d
      | (Some _, tokens) \<Rightarrow>
          (case token_create (rp_child p) tokens of
             Inl _ \<Rightarrow> (Inl ServerError, d)
           | Inr (_, tokens') \<Rightarrow>
               (case dp_sign P (rp_access p) of
                  None \<Rightarrow> (Inl ServerError, d)
                | Some (tok, jti, expires) \<Rightarrow>
                    (Inr \<lparr>tr_access = tok, tr_refresh = Some (dr_token D), tr_expiresIn = at_expiresIn (rp_access p),
                       tr_type = tokenTypeFor C, tr_scope = rp_scopes p, tr_id = None\<rparr>,
                     emit (TokenIssued ''refresh_token'' (rp_scopes p) (aud_flat (at_aud (rp_access p))) (rp_resource p)
                        (at_expiresIn (rp_access p)) (Some (rt_familyId s)))
                       (recordGrantAccessToken (dr_redisUp D) (dr_writeAt D) jti expires None (Some (rt_familyId s))
                          (d\<lparr>gd_tokens := tokens'\<rparr>))))))"

definition handleRefreshToken :: "token_deps \<Rightarrow> handler_ctx \<Rightarrow> token_draws \<Rightarrow> refresh_request \<Rightarrow> grant_db \<Rightarrow> token_response handled" where
  "handleRefreshToken P C D q d = (case refreshChecks P C D q d of
      (Inl e, d') \<Rightarrow> (Inl e, d')
    | (Inr (s, Replayed), d') \<Rightarrow> rejectRefreshTokenReplay D s d'
    | (Inr (s, Proceed p), d') \<Rightarrow> rotateToken P C D p d')"


subsection \<open>What the parts change\<close>

lemma emit_keeps [simp]:
  "gd_codes (emit e d) = gd_codes d" "gd_tokens (emit e d) = gd_tokens d" "gd_denied (emit e d) = gd_denied d"
  "gd_recorded (emit e d) = gd_recorded d" "gd_admin (emit e d) = gd_admin d" "gd_clients (emit e d) = gd_clients d"
  by (simp_all add: emit_def)

lemma refuse_iff: "refuse e reason user d = (r, d') \<longleftrightarrow> r = Inl e \<and> d' = emit (RequestFailed (error_code e) reason user None) d"
  by (auto simp: refuse_def)

lemma emitFamilyRevoked_keeps [simp]:
  "gd_codes (emitFamilyRevoked reason user f n d) = gd_codes d" "gd_tokens (emitFamilyRevoked reason user f n d) = gd_tokens d"
  "gd_denied (emitFamilyRevoked reason user f n d) = gd_denied d" "gd_recorded (emitFamilyRevoked reason user f n d) = gd_recorded d"
  by (auto simp: emitFamilyRevoked_def split: option.split)

lemma recordGrantAccessToken_keeps [simp]:
  "gd_codes (recordGrantAccessToken up now jti x c f d) = gd_codes d" "gd_tokens (recordGrantAccessToken up now jti x c f d) = gd_tokens d"
  "gd_denied (recordGrantAccessToken up now jti x c f d) = gd_denied d"
  by (simp_all add: recordGrantAccessToken_def)

lemma revokeGrantAccessTokens_keeps [simp]:
  "gd_codes (revokeGrantAccessTokens up now c f d) = gd_codes d" "gd_tokens (revokeGrantAccessTokens up now c f d) = gd_tokens d"
  by (simp_all add: revokeGrantAccessTokens_def)

lemma revokeGrantAccessTokens_denies:
  assumes "(k, jti, x) \<in> set (gd_recorded d)" and "k \<in> set (recordKeys c f)" and "x * 1000 > now"
  shows "jti \<in> set (gd_denied (revokeGrantAccessTokens True now c f d))"
  using assms by (force simp: revokeGrantAccessTokens_def)

lemma rejectCodeReplay_result:
  "fst (rejectCodeReplay D a d) = Inl InvalidGrant" "gd_codes (snd (rejectCodeReplay D a d)) = gd_codes d"
  "gd_tokens (snd (rejectCodeReplay D a d)) = snd (revokeFamilyByAuthorizationCode (dr_writeAt D) (cd_id a) ''code_replay'' (gd_tokens d))"
  by (simp_all add: rejectCodeReplay_def Let_def split: prod.split)

lemma rejectRefreshTokenReplay_result:
  "fst (rejectRefreshTokenReplay D s d) = Inl InvalidGrant" "gd_codes (snd (rejectRefreshTokenReplay D s d)) = gd_codes d"
  "gd_tokens (snd (rejectRefreshTokenReplay D s d)) = snd (revokeFamily (dr_writeAt D) (rt_familyId s) (Some ''replay_detected'') (gd_tokens d))"
  by (simp_all add: rejectRefreshTokenReplay_def Let_def split: prod.split)

text \<open>The checks of the code grant: what a plan was made from, and when a code is burned.\<close>

lemma codePlan_cases:
  assumes "codePlan P C D q a user d = (r, d')"
  shows "(\<exists>e reason u. r = Inl e \<and> d' = emit (RequestFailed (error_code e) reason u None) d)
    \<or> (\<exists>p. r = Inr (Proceed p) \<and> cp_code p = a \<and> d' = d)"
  using assms by (auto simp: codePlan_def Let_def refuse_iff split: option.splits sum.splits prod.splits)

lemma burn_code_keeps [simp]: "gd_tokens (burn_code D a d) = gd_tokens d" "gd_denied (burn_code D a d) = gd_denied d"
  by (simp_all add: burn_code_def)

definition proven_code :: "token_deps \<Rightarrow> handler_ctx \<Rightarrow> token_draws \<Rightarrow> code_request \<Rightarrow> grant_db \<Rightarrow> auth_code \<Rightarrow> bool" where
  "proven_code P C D q d a \<longleftrightarrow> ''authorization_code'' \<in> set (oc_grantTypes (hc_client C))
     \<and> findByCodeIncludingUsed (gd_clients d) (hc_realmId C) (cq_code q) (gd_codes d) = Some a
     \<and> (cd_used a \<or> cd_expiresAt a > dr_readAt D) \<and> codeRequestRefusal P C q a = None"

lemma authCodeChecks_cases:
  assumes "authCodeChecks P C D q d = (r, d')"
  obtains (refused) e reason user where "r = Inl e" "d' = emit (RequestFailed (error_code e) reason user None) d"
    | (burned) e reason user a where "r = Inl e" "proven_code P C D q d a" "\<not> cd_used a"
        "d' = emit (RequestFailed (error_code e) reason user None) (burn_code D a d)"
    | (replay) a where "r = Inr (a, Replayed)" "d' = d" "proven_code P C D q d a" "cd_used a"
    | (plan) a p where "r = Inr (a, Proceed p)" "d' = d" "cp_code p = a" "proven_code P C D q d a" "\<not> cd_used a"
proof (cases "''authorization_code'' \<in> set (oc_grantTypes (hc_client C))")
  case False
  then show ?thesis using assms refused by (simp add: authCodeChecks_def refuse_iff)
next
  case g: True
  show ?thesis
  proof (cases "findByCodeIncludingUsed (gd_clients d) (hc_realmId C) (cq_code q) (gd_codes d)")
    case None
    then show ?thesis using assms g refused by (simp add: authCodeChecks_def refuse_iff)
  next
    case (Some a)
    consider (bad) "\<not> cd_used a" "cd_expiresAt a \<le> dr_readAt D" | (wrong) x where "cd_used a \<or> cd_expiresAt a > dr_readAt D" "codeRequestRefusal P C q a = Some x"
      | (ok) "cd_used a \<or> cd_expiresAt a > dr_readAt D" "codeRequestRefusal P C q a = None" by fastforce
    then show ?thesis
    proof cases
      case bad
      then show ?thesis using assms g Some refused by (simp add: authCodeChecks_def refuse_iff)
    next
      case wrong
      then show ?thesis using assms g Some refused by (cases x) (auto simp: authCodeChecks_def refuse_iff)
    next
      case ok
      then have pv: "proven_code P C D q d a" using g Some by (simp add: proven_code_def)
      show ?thesis
      proof (cases "cd_used a")
        case True
        then show ?thesis using assms g Some ok replay[of a] pv by (simp add: authCodeChecks_def)
      next
        case False
        then have e: "\<not> cd_expiresAt a \<le> dr_readAt D" using ok by simp
        note base = assms g Some ok(2) False e
        show ?thesis
        proof (cases "user_findById (dp_guid P) (hc_realmId C) (cd_userId a) (db_users (gd_admin d))")
          case None
          then show ?thesis using base refused by (simp add: authCodeChecks_def refuse_iff)
        next
          case u: (Some user)
          let ?t = "Some (min (cd_createdAt a) (case cd_authTime a of None \<Rightarrow> cd_createdAt a | Some t \<Rightarrow> t))"
          show ?thesis
          proof (cases "accountCredentialRefusal user ?t \<noteq> None \<or> enforceAgentScopeCap (cd_scopes a) (toAgentScopeContext (hc_client C)) \<noteq> None")
            case True
            then show ?thesis using base u burned[OF _ pv False]
              by (cases "accountCredentialRefusal user ?t") (auto simp: authCodeChecks_def refuse_iff)
          next
            case f: False
            obtain r1 d1 where c: "codePlan P C D q a user d = (r1, d1)" by fastforce
            show ?thesis using codePlan_cases[OF c] base u f c refused plan[OF _ _ _ pv False]
              by (elim disjE exE conjE) (simp_all add: authCodeChecks_def, blast+)
          qed
        qed
      qed
    qed
  qed
qed


subsection \<open>A code is redeemed once\<close>

text \<open>
  The code grant among everything else that touches the codes: requests are checked and their
  transactions run in any order, with logouts, consent revocations and the clean-up between them.
  \<open>redeemed\<close> lists the ids of the codes whose transaction issued tokens, \<open>ids\<close> the ids ever drawn.
\<close>

inductive codes_change :: "string set \<Rightarrow> codes \<Rightarrow> string set \<Rightarrow> codes \<Rightarrow> bool" where
  code_created: "cd_id c \<notin> ids \<Longrightarrow> codes_change ids t (insert (cd_id c) ids) (snd (code_create c t))"
| codes_of_user: "codes_change ids t ids (snd (invalidateForUser now u t))"
| codes_of_grant: "codes_change ids t ids (snd (invalidateForUserAndClient now u c t))"
| codes_expired: "codes_change ids t ids (snd (code_deleteExpired now t))"

inductive code_run :: "token_deps \<Rightarrow> string set \<Rightarrow> grant_db \<Rightarrow> (handler_ctx \<times> token_draws \<times> code_plan) list \<Rightarrow> string list \<Rightarrow> bool" for P where
  codes_start: "cd_id ` set (gd_codes d) \<subseteq> ids \<Longrightarrow> code_run P ids d [] []"
| request_checked: "code_run P ids d pending redeemed \<Longrightarrow> authCodeChecks P C D q d = (r, d') \<Longrightarrow>
    code_run P ids d' (case r of Inr (a, Proceed p) \<Rightarrow> (C, D, p) # pending | _ \<Rightarrow> pending) redeemed"
| replay_refused: "code_run P ids d pending redeemed \<Longrightarrow> code_run P ids (snd (rejectCodeReplay D a d :: token_response handled)) pending redeemed"
| transaction_run: "code_run P ids d pending redeemed \<Longrightarrow> (C, D, p) \<in> set pending \<Longrightarrow> redeemCode P C D p d = (r, d') \<Longrightarrow>
    code_run P ids d' (remove1 (C, D, p) pending) (case r of Inl _ \<Rightarrow> redeemed | Inr _ \<Rightarrow> cd_id (cp_code p) # redeemed)"
| codes_changed: "code_run P ids d pending redeemed \<Longrightarrow> codes_change ids (gd_codes d) ids' t \<Longrightarrow>
    code_run P ids' (d\<lparr>gd_codes := t\<rparr>) pending redeemed"
| others_changed: "code_run P ids d pending redeemed \<Longrightarrow> gd_codes d' = gd_codes d \<Longrightarrow> code_run P ids d' pending redeemed"

definition spent_in :: "codes \<Rightarrow> string \<Rightarrow> bool" where
  "spent_in t i \<longleftrightarrow> (\<forall>c \<in> set t. cd_id c = i \<longrightarrow> cd_used c)"

lemma spent_markUsed: "spent_in t i \<Longrightarrow> code_markUsed now j t = Inr (c, t') \<Longrightarrow> spent_in t' i"
  by (auto simp: code_markUsed_def update_where_def spent_in_def split: list.splits)

lemma markUsed_spends:
  assumes "code_markUsed now i t = Inr (c, t')"
  shows "spent_in t' i" and "\<not> spent_in t i" and "cd_id ` set t' = cd_id ` set t" and "i \<in> cd_id ` set t"
proof -
  from assms have f: "filter (\<lambda>c. cd_id c = i \<and> \<not> cd_used c) t \<noteq> []"
    and t': "t' = map (\<lambda>c. if cd_id c = i \<and> \<not> cd_used c then spend now c else c) t"
    by (auto simp: code_markUsed_def update_where_def split: list.splits)
  from f obtain x where x: "x \<in> set t" "cd_id x = i" "\<not> cd_used x" unfolding filter_empty_conv by blast
  have "cd_id (if cd_id y = i \<and> \<not> cd_used y then spend now y else y) = i \<Longrightarrow>
      cd_used (if cd_id y = i \<and> \<not> cd_used y then spend now y else y)" for y by (cases "cd_id y = i \<and> \<not> cd_used y") simp_all
  then show "spent_in t' i" unfolding t' spent_in_def set_map ball_simps by simp
  show "\<not> spent_in t i" using x unfolding spent_in_def by blast
  have "map cd_id t' = map cd_id t" unfolding t' map_map by (rule map_cong) auto
  then show "cd_id ` set t' = cd_id ` set t" by (metis list.set_map)
  show "i \<in> cd_id ` set t" using x by blast
qed

lemma burn_code_spent:
  "cd_id ` set (gd_codes (burn_code D a d)) = cd_id ` set (gd_codes d)" "spent_in (gd_codes d) i \<Longrightarrow> spent_in (gd_codes (burn_code D a d)) i"
  using markUsed_spends(3) spent_markUsed
  by (auto simp: burn_code_def spendGrant_def split: sum.splits prod.splits dest!: markUsed_spends(3))

lemma redeemCode_cases:
  assumes "redeemCode P C D p d = (r, d')"
  obtains (failed) e where "r = Inl e" "gd_codes d' = gd_codes d"
    | (issued) resp c codes where "r = Inr resp" "code_markUsed (dr_writeAt D) (cd_id (cp_code p)) (gd_codes d) = Inr (c, codes)" "gd_codes d' = codes"
proof (cases "code_markUsed (dr_writeAt D) (cd_id (cp_code p)) (gd_codes d)")
  case (Inl x)
  then have "(r, d') = rejectCodeReplay D (cp_code p) d" using assms by (simp add: redeemCode_def spendGrant_def Let_def)
  then show ?thesis using failed rejectCodeReplay_result(1,2) by (metis fst_conv snd_conv)
next
  case (Inr x)
  then show ?thesis using assms failed issued
    by (cases x) (auto simp: redeemCode_def spendGrant_def Let_def split: sum.splits option.splits prod.splits)
qed

lemma codes_change_spent:
  assumes "codes_change ids t ids' t'" and "cd_id ` set t \<subseteq> ids"
  shows "cd_id ` set t' \<subseteq> ids'" and "ids \<subseteq> ids'" and "i \<in> ids \<Longrightarrow> spent_in t i \<Longrightarrow> spent_in t' i"
  using assms
  by (cases rule: codes_change.cases;
      auto simp: code_create_def invalidateForUser_def invalidateForUserAndClient_def code_deleteExpired_def update_where_def delete_where_def
        spent_in_def Let_def)+

lemma code_run_inv:
  "code_run P ids d pending redeemed \<Longrightarrow>
    cd_id ` set (gd_codes d) \<subseteq> ids \<and> distinct redeemed \<and> (\<forall>i \<in> set redeemed. i \<in> ids \<and> spent_in (gd_codes d) i)"
proof (induction rule: code_run.induct)
  case (request_checked ids d pending redeemed C D q r d')
  from request_checked(2) show ?case
    by (cases rule: authCodeChecks_cases) (use request_checked.IH burn_code_spent in auto)
next
  case (transaction_run ids d pending redeemed C D p r d')
  from transaction_run(3) show ?case
  proof (cases rule: redeemCode_cases)
    case (issued resp c codes)
    note m = markUsed_spends[OF issued(2)]
    have "cd_id (cp_code p) \<notin> set redeemed" using transaction_run.IH m(2) by blast
    moreover have "spent_in codes i" if "i \<in> set redeemed" for i using transaction_run.IH spent_markUsed[OF _ issued(2)] that by blast
    ultimately show ?thesis using transaction_run.IH m issued by auto
  qed (use transaction_run.IH in simp)
next
  case (codes_changed ids d pending redeemed ids' t)
  then show ?case using codes_change_spent[OF codes_changed(2)] by auto
qed (simp_all add: rejectCodeReplay_result)

text \<open>
  C1. However the checks and the transactions of token requests interleave with each other and with
  logouts, consent revocations and clean-ups, no authorization code ever issues tokens twice, and a
  code that issued tokens never counts as unused again.
\<close>

theorem code_redeemed_once:
  assumes "code_run P ids d pending redeemed"
  shows "distinct redeemed \<and> (\<forall>i c. i \<in> set redeemed \<longrightarrow> c \<in> set (gd_codes d) \<longrightarrow> cd_id c = i \<longrightarrow> cd_used c)"
  using code_run_inv[OF assms] by (auto simp: spent_in_def)


subsection \<open>A replayed code\<close>

lemma revoked_as_keeps [simp]:
  "rt_id (revoked_as now reason r) = rt_id r" "rt_familyId (revoked_as now reason r) = rt_familyId r" "rt_revoked (revoked_as now reason r)"
  by (simp_all add: revoked_as_def)

text \<open>A revocation of the unrevoked rows with a family among some: what it leaves.\<close>

lemma revoke_families:
  fixes t :: tokens and F :: "string \<Rightarrow> bool" and now :: ms and reason :: "string option"
  defines "u \<equiv> snd (update_where (\<lambda>r. F (rt_familyId r) \<and> \<not> rt_revoked r) (revoked_as now reason) t)"
  shows "r \<in> set u \<Longrightarrow> F (rt_familyId r) \<Longrightarrow> rt_revoked r" and "r \<in> set t \<Longrightarrow> \<not> F (rt_familyId r) \<Longrightarrow> r \<in> set u"
    and "map rt_id u = map rt_id t"
proof -
  define g where "g x = (if F (rt_familyId x) \<and> \<not> rt_revoked x then revoked_as now reason x else x)" for x
  have u: "u = map g t" by (simp add: u_def update_where_def g_def[abs_def])
  have "F (rt_familyId (g x)) \<Longrightarrow> rt_revoked (g x)" for x by (cases "F (rt_familyId x) \<and> \<not> rt_revoked x") (simp_all add: g_def)
  then show "r \<in> set u \<Longrightarrow> F (rt_familyId r) \<Longrightarrow> rt_revoked r" unfolding u by (metis imageE list.set_map)
  show "r \<in> set t \<Longrightarrow> \<not> F (rt_familyId r) \<Longrightarrow> r \<in> set u" unfolding u by (simp add: image_iff) (metis g_def)
  have "rt_id (g x) = rt_id x" for x by (simp add: g_def)
  then show "map rt_id u = map rt_id t" unfolding u by simp
qed

definition started_by :: "string \<Rightarrow> tokens \<Rightarrow> string \<Rightarrow> bool" where
  "started_by i t f \<longleftrightarrow> (\<exists>x \<in> set t. rt_authorizationCodeId x = Some i \<and> rt_familyId x = f)"

lemma image_filtered: "y \<in> g ` {x \<in> A. Q x} \<longleftrightarrow> (\<exists>x \<in> A. Q x \<and> g x = y)"
  by auto

lemma revokeFamilyByAuthorizationCode_update:
  "snd (revokeFamilyByAuthorizationCode now i reason t) =
     snd (update_where (\<lambda>r. started_by i t (rt_familyId r) \<and> \<not> rt_revoked r) (revoked_as now (Some reason)) t)"
proof -
  have "(\<lambda>r :: refresh_token. rt_familyId r \<in> set (map rt_familyId (select_where (\<lambda>r. rt_authorizationCodeId r = Some i) t)) \<and> \<not> rt_revoked r) =
      (\<lambda>r. started_by i t (rt_familyId r) \<and> \<not> rt_revoked r)"
    unfolding started_by_def set_map select_where_def set_filter image_filtered by (rule refl)
  then show ?thesis unfolding revokeFamilyByAuthorizationCode_def Let_def case_prod_beta snd_conv by (simp only:)
qed

lemma revokeFamily_update:
  "snd (revokeFamily now f reason t) = snd (update_where (\<lambda>r. rt_familyId r = f \<and> \<not> rt_revoked r) (revoked_as now reason) t)"
  by (simp add: revokeFamily_def update_where_def)

lemma rejectCodeReplay_denies:
  assumes "dr_redisUp D" and "(k, jti, x) \<in> set (gd_recorded d)" and "x * 1000 > dr_writeAt D"
    and "k \<in> set (recordKeys (Some (cd_id a)) (map_option rt_familyId (limit1 (select_where (\<lambda>r. rt_authorizationCodeId r = Some (cd_id a)) (gd_tokens d)))))"
  shows "jti \<in> set (gd_denied (snd (rejectCodeReplay D a d)))"
  using assms revokeGrantAccessTokens_denies[of k jti x]
  by (auto simp: rejectCodeReplay_def revokeFamilyByAuthorizationCode_def Let_def emitFamilyRevoked_def split: prod.split option.split)

lemma rejectRefreshTokenReplay_denies:
  assumes "dr_redisUp D" and "(REFRESH_FAMILY_ACCESS_TOKENS (rt_familyId s), jti, x) \<in> set (gd_recorded d)" and "x * 1000 > dr_writeAt D"
    and "rt_familyId s \<noteq> []"
  shows "jti \<in> set (gd_denied (snd (rejectRefreshTokenReplay D s d)))"
  using assms revokeGrantAccessTokens_denies[of "REFRESH_FAMILY_ACCESS_TOKENS (rt_familyId s)" jti x]
  by (auto simp: rejectRefreshTokenReplay_def Let_def recordKeys_def emitFamilyRevoked_def split: prod.split)



subsection \<open>A refresh never widens, and a replay ends the family\<close>

definition owned_token :: "token_deps \<Rightarrow> handler_ctx \<Rightarrow> refresh_request \<Rightarrow> grant_db \<Rightarrow> refresh_token \<Rightarrow> bool" where
  "owned_token P C q d s \<longleftrightarrow> ''refresh_token'' \<in> set (oc_grantTypes (hc_client C))
     \<and> findByTokenHashIncludingRevoked (gd_clients d) (hc_realmId C) (dp_hashToken P (rq_token q)) (gd_tokens d) = Some s
     \<and> rt_oauthClientId s = oc_id (hc_client C) \<and> dpopBindingRefusal C (rt_cnfJkt s) = None"

abbreviation family_end :: "handler_ctx \<Rightarrow> refresh_token \<Rightarrow> ms option" where
  "family_end C s \<equiv> refreshFamilyEnd (rt_familyCreatedAt s) (hc_ssoMaxLifespan C) (rt_familySessionExpiresAt s)"

text \<open>A token its client may refresh now, and its account.\<close>

definition usable_token :: "token_deps \<Rightarrow> handler_ctx \<Rightarrow> token_draws \<Rightarrow> grant_db \<Rightarrow> refresh_token \<Rightarrow> user_row \<Rightarrow> bool" where
  "usable_token P C D d s user \<longleftrightarrow> \<not> rt_revoked s \<and> \<not> refreshFamilyEnded (family_end C s) (dr_readAt D) \<and> rt_expiresAt s > dr_readAt D
     \<and> user_findById (dp_guid P) (hc_realmId C) (rt_userId s) (db_users (gd_admin d)) = Some user
     \<and> accountCredentialRefusal user (Some (min (rt_familyCreatedAt s) (rt_createdAt s))) = None"

definition planned :: "token_deps \<Rightarrow> handler_ctx \<Rightarrow> token_draws \<Rightarrow> refresh_request \<Rightarrow> refresh_token \<Rightarrow> refresh_plan \<Rightarrow> bool" where
  "planned P C D q s p \<longleftrightarrow> rp_stored p = s \<and> (\<exists>granted issued resource aud.
      grantedScopesOf q s = Some granted \<and> set granted \<subseteq> set (rt_scopes s) \<and> set issued \<subseteq> set granted \<and> set resource \<subseteq> set (rt_resource s)
      \<and> rp_child p = childRow P C D q s granted issued resource aud \<and> at_scope (rp_access p) = issued \<and> rp_scopes p = issued
      \<and> aud = resolveUserGrantAudience (hc_systemClientId C) (hc_client C) resource \<and> at_aud (rp_access p) = aud
      \<and> at_expiresIn (rp_access p) = accessTokenLifespanFor C aud)"

lemma issuable_subset: "issuableScopes P C u scopes a bound d = Inr issued \<Longrightarrow> set issued \<subseteq> set scopes"
  by (auto simp: issuableScopes_def adminIssuance_def Let_def split: if_splits)

lemma granted_subset: "grantedScopesOf q s = Some granted \<Longrightarrow> set granted \<subseteq> set (rt_scopes s)"
  by (auto simp: grantedScopesOf_def Let_def filter_empty_conv split: option.splits if_splits)

definition refused_with :: "oauth_error + 'a \<Rightarrow> grant_db \<Rightarrow> grant_db \<Rightarrow> bool" where
  "refused_with r d d' \<longleftrightarrow> (\<exists>e reason u. r = Inl e \<and> d' = emit (RequestFailed (error_code e) reason u None) d)"

lemma refused_withI: "refuse e reason u d = (r, d') \<Longrightarrow> refused_with r d d'"
  unfolding refused_with_def refuse_def prod.inject by blast

lemma refreshPlan_cases:
  assumes "refreshPlan P C D q s user d = (r, d')"
  shows "refused_with r d d'
    \<or> (\<exists>p. r = Inr (Proceed p) \<and> planned P C D q s p \<and> d' = d)"
proof (cases "grantedScopesOf q s")
  case None
  then show ?thesis using assms by (auto simp: refreshPlan_def dest: refused_withI)
next
  case (Some granted)
  let ?res = "if rq_resource q \<noteq> [] then rq_resource q else rt_resource s"
  let ?aud = "resolveUserGrantAudience (hc_systemClientId C) (hc_client C) ?res"
  show ?thesis
  proof (cases "(\<exists>e. validateScopes (Some (js_join granted)) (oc_scopes (hc_client C)) (Some (toAgentScopeContext (hc_client C))) = Inl e)
      \<or> rq_resource q \<noteq> [] \<and> list_ex (\<lambda>r. r \<notin> set (rt_resource s)) (rq_resource q)")
    case True
    then show ?thesis using assms Some by (auto simp: refreshPlan_def dest: refused_withI split: sum.splits if_splits)
  next
    case False
    then obtain ok where v: "validateScopes (Some (js_join granted)) (oc_scopes (hc_client C)) (Some (toAgentScopeContext (hc_client C))) = Inr ok"
      by (cases "validateScopes (Some (js_join granted)) (oc_scopes (hc_client C)) (Some (toAgentScopeContext (hc_client C)))") auto
    have res: "set ?res \<subseteq> set (rt_resource s)" using False by (auto simp: list_ex_iff)
    obtain t m where si: "recordedSignIn (rt_authTime s) (rt_amr s) = (t, m)" by fastforce
    note base = assms Some v False si
    show ?thesis
    proof (cases "assertReservedAudiencesListed C ?aud")
      case (Some x)
      then show ?thesis using base by (cases x) (auto simp: refreshPlan_def Let_def dest: refused_withI)
    next
      case None
      show ?thesis
      proof (cases "rt_cnfJkt s = None \<and> API_FAMILY_AUDIENCES AdminApi \<in> set (aud_flat ?aud)")
        case True
        then show ?thesis using base None by (auto simp: refreshPlan_def Let_def dest: refused_withI)
      next
        case unbound: False
        show ?thesis
        proof (cases "issuableScopes P C (Some (ur_id user)) granted ?aud (rt_cnfJkt s \<noteq> None) d")
          case (Inl x)
          then show ?thesis using base None unbound by (cases x) (auto simp: refreshPlan_def Let_def dest: refused_withI)
        next
          case (Inr issued)
          define p where "p = \<lparr>rp_stored = s, rp_child = childRow P C D q s granted issued ?res ?aud,
            rp_access = \<lparr>at_sub = ur_id user, at_clientId = oc_clientId (hc_client C), at_scope = issued, at_aud = ?aud,
              at_cnf = dpopConfirmation C, at_authTime = t, at_amr = m, at_sid = None, at_expiresIn = accessTokenLifespanFor C ?aud\<rparr>,
            rp_scopes = issued, rp_resource = ?res\<rparr>"
          have "r = Inr (Proceed p) \<and> d' = d" using base None unbound Inr by (auto simp: refreshPlan_def Let_def p_def)
          moreover have "planned P C D q s p" unfolding planned_def
            using \<open>grantedScopesOf q s = Some granted\<close> granted_subset issuable_subset[OF Inr] res
            by (intro conjI exI[of _ granted] exI[of _ issued] exI[of _ ?res] exI[of _ ?aud]) (simp_all add: p_def)
          ultimately show ?thesis by blast
        qed
      qed
    qed
  qed
qed


lemma refreshChecks_cases:
  assumes "refreshChecks P C D q d = (r, d')"
  obtains (refused) e reason user where "r = Inl e" "d' = emit (RequestFailed (error_code e) reason user None) d"
      "\<And>s. owned_token P C q d s \<Longrightarrow> \<not> rt_revoked s"
    | (ended) e reason user s tokens where "r = Inl e" "owned_token P C q d s" "\<not> rt_revoked s"
        "d' = emit (RequestFailed (error_code e) reason user None) (d\<lparr>gd_tokens := tokens\<rparr>)"
    | (replay) s where "r = Inr (s, Replayed)" "d' = d" "owned_token P C q d s" "rt_revoked s"
    | (plan) s user p where "r = Inr (s, Proceed p)" "d' = d" "owned_token P C q d s" "usable_token P C D d s user" "planned P C D q s p"
proof (cases "\<exists>s. owned_token P C q d s")
  case False
  then show ?thesis using assms refused
    by (auto simp: refreshChecks_def refuse_iff owned_token_def split: if_splits option.splits prod.splits)
next
  case True
  then obtain s where s: "owned_token P C q d s" by blast
  then have base: "''refresh_token'' \<in> set (oc_grantTypes (hc_client C))" "rt_oauthClientId s = oc_id (hc_client C)"
    "findByTokenHashIncludingRevoked (gd_clients d) (hc_realmId C) (dp_hashToken P (rq_token q)) (gd_tokens d) = Some s"
    "dpopBindingRefusal C (rt_cnfJkt s) = None" by (simp_all add: owned_token_def)
  have only: "s' = s" if "owned_token P C q d s'" for s' using that base(3) by (simp add: owned_token_def)
  show ?thesis
  proof (cases "rt_revoked s")
    case True
    then show ?thesis using assms base replay[OF _ _ s True] by (simp add: refreshChecks_def)
  next
    case live: False
    then have ref: "\<And>s'. owned_token P C q d s' \<Longrightarrow> \<not> rt_revoked s'" using only by blast
    note base = assms base live
    show ?thesis
    proof (cases "refreshFamilyEnded (family_end C s) (dr_readAt D)")
      case True
      then show ?thesis using base ended[OF _ s live] by (simp add: refreshChecks_def refuse_iff)
    next
      case open': False
      show ?thesis
      proof (cases "rt_expiresAt s \<le> dr_readAt D \<or> user_findById (dp_guid P) (hc_realmId C) (rt_userId s) (db_users (gd_admin d)) = None")
        case True
        then show ?thesis using base open' refused[OF _ _ ref] by (auto simp: refreshChecks_def refuse_iff split: if_splits)
      next
        case False
        then obtain user where u: "user_findById (dp_guid P) (hc_realmId C) (rt_userId s) (db_users (gd_admin d)) = Some user" by blast
        show ?thesis
        proof (cases "accountCredentialRefusal user (Some (min (rt_familyCreatedAt s) (rt_createdAt s)))")
          case (Some x)
          then show ?thesis using base open' False u ended[OF _ s live] by (simp add: refreshChecks_def refuse_iff)
        next
          case None
          then have use: "usable_token P C D d s user" using live open' False u by (simp add: usable_token_def)
          obtain r1 d1 where c: "refreshPlan P C D q s user d = (r1, d1)" by fastforce
          show ?thesis using refreshPlan_cases[OF c, unfolded refused_with_def] base open' False u None c refused[OF _ _ ref] plan[OF _ _ s use]
            by (elim disjE exE conjE) (simp_all add: refreshChecks_def, blast+)
        qed
      qed
    qed
  qed
qed


lemma childRow_narrows:
  assumes "set granted \<subseteq> set (rt_scopes s)"
    and "c = childRow P C D q s granted issued resource aud"
  shows "rt_familyId c = rt_familyId s" "rt_userId c = rt_userId s" "rt_familyCreatedAt c = rt_familyCreatedAt s"
    "rt_familySessionExpiresAt c = rt_familySessionExpiresAt s" "rt_authTime c = rt_authTime s" "rt_amr c = rt_amr s"
    "rt_resource c = resource" "\<not> rt_revoked c" "set (rt_scopes c) \<subseteq> set (rt_scopes s)"
    "rt_cnfJkt s \<noteq> None \<Longrightarrow> rt_cnfJkt c = rt_cnfJkt s"
    "rt_cnfJkt s = None \<Longrightarrow> x \<in> set (rt_scopes c) \<Longrightarrow> \<not> isAdminScope x"
    "family_end C s = Some e \<Longrightarrow> rt_expiresAt c \<le> e"
    "isBrowserBasedClient (dp_parseUrl P) (hc_client C) \<Longrightarrow> rt_expiresAt c \<le> rt_expiresAt s"
proof -
  have "\<not> (isAdminScope x \<and> (\<not> isReservedQauthScope x \<or> familyScopeOf x \<noteq> None))" for x
  proof
    assume a: "isAdminScope x \<and> (\<not> isReservedQauthScope x \<or> familyScopeOf x \<noteq> None)"
    then obtain cl where "x = ADMIN_SCOPES cl" using isAdminScope_iff by blast
    then show False using a by (cases cl) (simp_all add: isReservedQauthScope_def starts_ci_def familyScopeOf_def API_FAMILY_SCOPES_def to_lower_def)
  qed
  then show "rt_cnfJkt s = None \<Longrightarrow> x \<in> set (rt_scopes c) \<Longrightarrow> \<not> isAdminScope x"
    by (auto simp: assms(2) childRow_def Let_def)
qed (use assms(1) in \<open>auto simp: assms(2) childRow_def Let_def rotatedRefreshTokenExpiresAt_def refreshTokenExpiresAt_def split: option.splits if_splits\<close>)

lemma rotateToken_cases:
  assumes "rotateToken P C D p d = (r, d')"
  obtains (lost) "(r, d') = rejectRefreshTokenReplay D (rp_stored p) d"
    | (failed) "r = Inl ServerError" "d' = d"
    | (rotated) resp where "r = Inr resp" "tr_scope resp = rp_scopes p" "gd_denied d' = gd_denied d"
        "gd_tokens d' = snd (revokeIfActive (dr_writeAt D) (rt_id (rp_stored p)) ''rotated'' (gd_tokens d)) @ [rp_child p]"
proof (cases "revokeIfActive (dr_writeAt D) (rt_id (rp_stored p)) ''rotated'' (gd_tokens d)")
  case (Pair found tokens)
  show ?thesis
  proof (cases found)
    case None
    then show ?thesis using assms Pair lost by (simp add: rotateToken_def Let_def)
  next
    case (Some x)
    then show ?thesis using assms Pair failed rotated
      by (auto simp: rotateToken_def Let_def token_create_def split: sum.splits option.splits prod.splits if_splits)
  qed
qed

lemma revokeIfActive_revokes: "t \<in> set (snd (revokeIfActive now i reason ts)) \<Longrightarrow> rt_id t = i \<Longrightarrow> rt_revoked t"
proof -
  assume "t \<in> set (snd (revokeIfActive now i reason ts))" and i: "rt_id t = i"
  then obtain y where "t = (if rt_id y = i \<and> \<not> rt_revoked y then revoked_as now (Some reason) y else y)"
    by (auto simp only: revokeIfActive_def update_where_def Let_def prod.case snd_conv set_map)
  then show "rt_revoked t" using i by (cases "rt_id y = i \<and> \<not> rt_revoked y") simp_all
qed

text \<open>
  C8. A refresh that answers with tokens was asked by the token's own client with its DPoP key, for a
  token neither revoked nor expired, in a family not past its end, of an account that is enabled and
  was not disabled since. The presented token is revoked and one child is added, of the same family,
  start, session end, sign-in time and methods, with scopes and resources among those stored, under
  the family's key if it has one and without admin scopes if it has none; it expires no later than
  the family's end and, for a browser-based client, no later than the token it replaces. The access
  token's scopes are among those stored.
\<close>

theorem refresh_never_widens:
  assumes "handleRefreshToken P C D q d = (Inr resp, d')"
  shows "\<exists>s user old child. owned_token P C q d s \<and> usable_token P C D d s user \<and> gd_tokens d' = old @ [child]
    \<and> map rt_id old = map rt_id (gd_tokens d) \<and> (\<forall>t. t \<in> set old \<longrightarrow> rt_id t = rt_id s \<longrightarrow> rt_revoked t)
    \<and> rt_familyId child = rt_familyId s \<and> rt_userId child = rt_userId s \<and> rt_familyCreatedAt child = rt_familyCreatedAt s
    \<and> rt_familySessionExpiresAt child = rt_familySessionExpiresAt s \<and> rt_authTime child = rt_authTime s \<and> rt_amr child = rt_amr s
    \<and> set (rt_scopes child) \<subseteq> set (rt_scopes s) \<and> set (rt_resource child) \<subseteq> set (rt_resource s) \<and> set (tr_scope resp) \<subseteq> set (rt_scopes s)
    \<and> (rt_cnfJkt s \<noteq> None \<longrightarrow> rt_cnfJkt child = rt_cnfJkt s)
    \<and> (rt_cnfJkt s = None \<longrightarrow> (\<forall>x. x \<in> set (rt_scopes child) \<longrightarrow> \<not> isAdminScope x))
    \<and> (\<forall>e. family_end C s = Some e \<longrightarrow> rt_expiresAt child \<le> e)
    \<and> (isBrowserBasedClient (dp_parseUrl P) (hc_client C) \<longrightarrow> rt_expiresAt child \<le> rt_expiresAt s)"
proof -
  obtain r1 d1 where c: "refreshChecks P C D q d = (r1, d1)" by fastforce
  from c show ?thesis
  proof (cases rule: refreshChecks_cases)
    case (refused e reason user)
    then show ?thesis using assms c by (simp add: handleRefreshToken_def)
  next
    case (ended e reason user s tokens)
    then show ?thesis using assms c by (simp add: handleRefreshToken_def)
  next
    case (replay s)
    then have "(Inr resp, d') = rejectRefreshTokenReplay D s d" using assms c by (simp add: handleRefreshToken_def)
    then show ?thesis using rejectRefreshTokenReplay_result(1) by (metis Inr_not_Inl fst_conv)
  next
    case (plan s user p)
    then have rot: "rotateToken P C D p d = (Inr resp, d')" using assms c by (simp add: handleRefreshToken_def)
    have st: "rp_stored p = s" using plan(5) by (simp add: planned_def)
    from plan(5) obtain granted issued resource aud where g: "set granted \<subseteq> set (rt_scopes s)" "set issued \<subseteq> set granted"
      "set resource \<subseteq> set (rt_resource s)" "rp_child p = childRow P C D q s granted issued resource aud" "rp_scopes p = issued"
      unfolding planned_def by blast
    note child = childRow_narrows[OF g(1) g(4)]
    from rot show ?thesis
    proof (cases rule: rotateToken_cases)
      case lost
      then show ?thesis using rejectRefreshTokenReplay_result(1) by (metis Inr_not_Inl fst_conv)
    next
      case failed
      then show ?thesis by simp
    next
      case (rotated resp')
      let ?old = "snd (revokeIfActive (dr_writeAt D) (rt_id s) ''rotated'' (gd_tokens d))"
      have ids: "map rt_id ?old = map rt_id (gd_tokens d)" by (simp add: revokeIfActive_def update_where_def Let_def)
      have "set (tr_scope resp) \<subseteq> set (rt_scopes s)" using rotated(1,2) g by auto
      moreover have "set (rt_resource (rp_child p)) \<subseteq> set (rt_resource s)" using child(7) g(3) by simp
      ultimately show ?thesis
        using plan(3,4) rotated(4) st ids child revokeIfActive_revokes[of _ "dr_writeAt D" "rt_id s" "''rotated''" "gd_tokens d"]
        by (intro exI[of _ s] exI[of _ user] exI[of _ ?old] exI[of _ "rp_child p"]) blast
    qed
  qed
qed


text \<open>
  C9. A refresh request changes a refresh token or the denylist only when the presented token belongs to
  the authenticated client and its DPoP binding holds. When such a token is already revoked, the
  answer is \<open>invalid_grant\<close>; every token of its family is then revoked, every other token is left as it
  was, and, while Redis answers, each unexpired access token recorded for the family is on the denylist.
\<close>

theorem refresh_replay_ends_the_family:
  assumes "handleRefreshToken P C D q d = (r, d')"
  shows "((gd_tokens d', gd_denied d') \<noteq> (gd_tokens d, gd_denied d) \<longrightarrow> (\<exists>s. owned_token P C q d s))
    \<and> (\<forall>s. owned_token P C q d s \<longrightarrow> rt_revoked s \<longrightarrow>
        r = Inl InvalidGrant \<and> map rt_id (gd_tokens d') = map rt_id (gd_tokens d)
        \<and> (\<forall>t. t \<in> set (gd_tokens d') \<longrightarrow> rt_familyId t = rt_familyId s \<longrightarrow> rt_revoked t)
        \<and> (\<forall>t. t \<in> set (gd_tokens d) \<longrightarrow> rt_familyId t \<noteq> rt_familyId s \<longrightarrow> t \<in> set (gd_tokens d'))
        \<and> (\<forall>jti x. dr_redisUp D \<longrightarrow> rt_familyId s \<noteq> [] \<longrightarrow> (REFRESH_FAMILY_ACCESS_TOKENS (rt_familyId s), jti, x) \<in> set (gd_recorded d) \<longrightarrow>
             x * 1000 > dr_writeAt D \<longrightarrow> jti \<in> set (gd_denied d')))"
proof -
  obtain r1 d1 where c: "refreshChecks P C D q d = (r1, d1)" by fastforce
  have uniq: "s' = s" if "owned_token P C q d s" "owned_token P C q d s'" for s s' using that by (simp add: owned_token_def)
  from c show ?thesis
  proof (cases rule: refreshChecks_cases)
    case (refused e reason user)
    have "d' = d1" using assms c refused by (simp add: handleRefreshToken_def)
    then have "gd_tokens d' = gd_tokens d" "gd_denied d' = gd_denied d" using refused(2) by simp_all
    then show ?thesis using refused(3) by simp
  next
    case (ended e reason user s tokens)
    then have "\<forall>s. owned_token P C q d s \<longrightarrow> \<not> rt_revoked s" using uniq[OF ended(2)] by blast
    then show ?thesis using ended(2) by blast
  next
    case (plan s user p)
    then have "\<forall>s. owned_token P C q d s \<longrightarrow> \<not> rt_revoked s" using uniq[OF plan(3)] unfolding usable_token_def by blast
    then show ?thesis using plan(3) by blast
  next
    case (replay s)
    have h: "(r, d') = rejectRefreshTokenReplay D s d" using assms c replay by (simp add: handleRefreshToken_def)
    have r: "r = Inl InvalidGrant" using h rejectRefreshTokenReplay_result(1) by (metis fst_conv)
    have d': "d' = snd (rejectRefreshTokenReplay D s d :: token_response handled)" using h by (metis snd_conv)
    have t: "gd_tokens d' = snd (update_where (\<lambda>t. (\<lambda>f. f = rt_familyId s) (rt_familyId t) \<and> \<not> rt_revoked t)
        (revoked_as (dr_writeAt D) (Some ''replay_detected'')) (gd_tokens d))"
      unfolding d' by (simp only: rejectRefreshTokenReplay_result(3) revokeFamily_update)
    note rows = revoke_families[where F = "\<lambda>f. f = rt_familyId s" and now = "dr_writeAt D" and reason = "Some ''replay_detected''"
        and t = "gd_tokens d", folded t]
    have den: "jti \<in> set (gd_denied d')" if "dr_redisUp D" "rt_familyId s \<noteq> []"
      "(REFRESH_FAMILY_ACCESS_TOKENS (rt_familyId s), jti, x) \<in> set (gd_recorded d)" "x * 1000 > dr_writeAt D" for jti x
      unfolding d' by (rule rejectRefreshTokenReplay_denies[OF that(1,3,4,2)])
    show ?thesis
    proof (intro conjI allI impI)
      show "\<exists>s. owned_token P C q d s" using replay(3) by blast
    next
      fix s' assume "owned_token P C q d s'"
      then have "s' = s" by (rule uniq[OF replay(3)])
      then show "r = Inl InvalidGrant" "map rt_id (gd_tokens d') = map rt_id (gd_tokens d)"
        "\<And>t. t \<in> set (gd_tokens d') \<Longrightarrow> rt_familyId t = rt_familyId s' \<Longrightarrow> rt_revoked t"
        "\<And>t. t \<in> set (gd_tokens d) \<Longrightarrow> rt_familyId t \<noteq> rt_familyId s' \<Longrightarrow> t \<in> set (gd_tokens d')"
        "\<And>jti x. dr_redisUp D \<Longrightarrow> rt_familyId s' \<noteq> [] \<Longrightarrow> (REFRESH_FAMILY_ACCESS_TOKENS (rt_familyId s'), jti, x) \<in> set (gd_recorded d) \<Longrightarrow>
          x * 1000 > dr_writeAt D \<Longrightarrow> jti \<in> set (gd_denied d')"
        using r rows den by (blast | simp only:)+
    qed
  qed
qed

text \<open>
  The comment of \<open>spendGrant\<close> calls \<open>refreshTokens.revoke\<close> a compare-and-set whose loser is told so.
  The statement has no such condition: it finds a revoked token too and writes over its reason.
\<close>

theorem revoke_is_no_compare_and_set:
  assumes "r \<in> set t" and "rt_revoked r"
  shows "\<exists>t'. spendGrant (token_revoke now (rt_id r) reason t) t = (True, t') \<and> revoked_as now reason r \<in> set t'"
proof -
  have "map (revoked_as now reason) (filter (\<lambda>x. rt_id x = rt_id r) t) \<noteq> []" using assms(1) by (auto simp: filter_empty_conv)
  then obtain y ys where "map (revoked_as now reason) (filter (\<lambda>x. rt_id x = rt_id r) t) = y # ys" by (meson neq_Nil_conv)
  then have "spendGrant (token_revoke now (rt_id r) reason t) t = (True, map (\<lambda>x. if rt_id x = rt_id r then revoked_as now reason x else x) t)"
    by (simp add: spendGrant_def token_revoke_def update_where_def)
  moreover have "revoked_as now reason r \<in> set (map (\<lambda>x. if rt_id x = rt_id r then revoked_as now reason x else x) t)"
    using assms(1) by (force simp: image_iff)
  ultimately show ?thesis by blast
qed

subsection \<open>Concrete requests\<close>

definition ex_client :: oauth_client where
  "ex_client = \<lparr>oc_id = ''c'', oc_realmId = ''r'', oc_clientId = ''app'', oc_name = ''App'',
     oc_grantTypes = [''authorization_code'', ''refresh_token''], oc_scopes = [''a'', ''b''], oc_audience = None,
     oc_authMethod = Some ''private_key_jwt'', oc_isAgent = Some False, oc_maxAgentMode = None, oc_redirectUris = None,
     oc_metadata = (\<lambda>_. None), oc_dynamicRegisteredAt = None, oc_backchannelLogoutUri = None\<rparr>"

definition ex_deps :: token_deps where
  "ex_deps = \<lparr>dp_registry = ADMIN_PERMISSIONS, dp_guid = (\<lambda>_. True), dp_verifyChallenge = (\<lambda>v c. v = c), dp_hashToken = (\<lambda>t. CHR ''#'' # t),
     dp_parseUrl = (\<lambda>_. None), dp_sign = (\<lambda>c. Some (''at'', ''jti'', 2000)), dp_signId = (\<lambda>c. Some ''id'')\<rparr>"

definition ex_ctx :: handler_ctx where
  "ex_ctx = \<lparr>hc_client = ex_client, hc_realmId = ''r'', hc_ssoMaxLifespan = Some 3600,
     hc_lifetimes = \<lparr>tl_access = 300, tl_development = 3600, tl_refresh = 86400, tl_admin = 300\<rparr>, hc_pkceRequired = True, hc_longTier = False,
     hc_dpop = False, hc_dpopThumbprint = None, hc_systemClientId = ''portal''\<rparr>"

definition ex_draws :: token_draws where
  "ex_draws = \<lparr>dr_token = ''t1'', dr_familyId = ''f1'', dr_rowId = ''i1'', dr_readAt = 1000, dr_issuedAt = 1001, dr_writeAt = 1002, dr_redisUp = True\<rparr>"

definition ex_code :: auth_code where
  "ex_code = \<lparr>cd_id = ''k'', cd_code = ''code'', cd_oauthClientId = ''c'', cd_userId = ''u'', cd_redirectUri = ''https://app/cb'',
     cd_codeChallenge = ''v'', cd_nonce = None, cd_authTime = Some 500, cd_amr = Some [''pwd''], cd_assuranceLevel = None,
     cd_sessionExpiresAt = None, cd_sessionId = None, cd_scopes = [''a'', ''b''], cd_resource = [], cd_dpopJkt = None, cd_expiresAt = 60000,
     cd_used = False, cd_usedAt = None, cd_createdAt = 900\<rparr>"

definition ex_row :: refresh_token where
  "ex_row = \<lparr>rt_id = ''i0'', rt_tokenHash = ''#t0'', rt_userId = ''u'', rt_oauthClientId = ''c'', rt_familyId = ''f0'', rt_familyCreatedAt = 600,
     rt_familySessionExpiresAt = None, rt_authTime = Some 500, rt_amr = Some [''pwd''], rt_scopes = [''a'', ''b''], rt_resource = [],
     rt_expiresAt = 90000, rt_revoked = False, rt_revokedAt = None, rt_revokedReason = None, rt_previousTokenHash = None, rt_cnfJkt = None,
     rt_authorizationCodeId = Some ''k'', rt_createdAt = 600\<rparr>"

definition ex_db :: "codes \<Rightarrow> tokens \<Rightarrow> grant_db" where
  "ex_db codes tokens = \<lparr>gd_admin = \<lparr>db_realms = [], db_users = [\<lparr>ur_realmId = ''r'', ur_id = ''u'', ur_enabled = True, ur_notValidBefore = None,
       ur_lastLoginAt = None\<rparr>], db_roles = [], db_grants = []\<rparr>,
     gd_clients = [ex_client], gd_codes = codes, gd_tokens = tokens,
     gd_consents = [\<lparr>cs_id = ''g'', cs_userId = ''u'', cs_oauthClientId = ''c'', cs_realmId = ''r'', cs_scopes = [''a'', ''b''],
       cs_resourceScopes = [], cs_grantedAt = 1, cs_revokedAt = None\<rparr>],
     gd_events = [], gd_recorded = [(REFRESH_FAMILY_ACCESS_TOKENS ''f0'', ''jti0'', 2000)], gd_denied = []\<rparr>"

definition ex_code_request :: code_request where
  "ex_code_request = \<lparr>cq_code = ''code'', cq_redirectUri = Some ''https://app/cb'', cq_verifier = ''v'', cq_resource = []\<rparr>"

definition ex_refresh_request :: refresh_request where
  "ex_refresh_request = \<lparr>rq_token = ''t0'', rq_scope = Some ''a'', rq_resource = []\<rparr>"


lemma ex_redeemed:
  "case authCodeChecks ex_deps ex_ctx ex_draws ex_code_request (ex_db [ex_code] []) of
     (Inr (a, Proceed p), d1) \<Rightarrow>
       (case redeemCode ex_deps ex_ctx ex_draws p d1 of
          (Inr _, d2) \<Rightarrow> cd_id (cp_code p) = ''k'' \<and> map cd_id (gd_codes d2) = [''k''] | _ \<Rightarrow> False)
   | _ \<Rightarrow> False"
  by code_simp

theorem code_redeemed_once_witness:
  "\<exists>d pending. code_run ex_deps {''k''} d pending [''k''] \<and> map cd_id (gd_codes d) = [''k''] \<and> cd_used (hd (gd_codes d))"
proof -
  obtain r1 d1 where e: "authCodeChecks ex_deps ex_ctx ex_draws ex_code_request (ex_db [ex_code] []) = (r1, d1)" by fastforce
  from e have "\<exists>a p. r1 = Inr (a, Proceed p)"
    by (cases rule: authCodeChecks_cases) (use ex_redeemed[unfolded e prod.case] in \<open>simp_all only: sum.case prod.case checked.case sum.inject, blast+\<close>)
  then obtain a p where c: "authCodeChecks ex_deps ex_ctx ex_draws ex_code_request (ex_db [ex_code] []) = (Inr (a, Proceed p), d1)" using e by blast
  obtain r2 d2 where e2: "redeemCode ex_deps ex_ctx ex_draws p d1 = (r2, d2)" by fastforce
  have "\<exists>resp. r2 = Inr resp \<and> cd_id (cp_code p) = ''k'' \<and> map cd_id (gd_codes d2) = [''k'']"
    using ex_redeemed[unfolded c prod.case sum.case checked.case e2] by (cases r2) (simp_all only: sum.case simp_thms sum.inject)
  then obtain resp where r2: "r2 = Inr resp" and k: "cd_id (cp_code p) = ''k''" and ids: "map cd_id (gd_codes d2) = [''k'']" by (elim exE conjE)
  note s = e2[unfolded r2] k ids
  have "code_run ex_deps {''k''} (ex_db [ex_code] []) [] []" by (rule codes_start) (simp add: ex_db_def ex_code_def)
  from request_checked[OF this c] have "code_run ex_deps {''k''} d1 [(ex_ctx, ex_draws, p)] []" by simp
  from transaction_run[OF this _ s(1)] have run: "code_run ex_deps {''k''} d2 [] [''k'']" using s(2) by simp
  from s(3) have "hd (gd_codes d2) \<in> set (gd_codes d2)" "cd_id (hd (gd_codes d2)) = ''k''" by (cases "gd_codes d2"; simp)+
  then have "cd_used (hd (gd_codes d2))" using code_redeemed_once[OF run] by auto
  with run s(3) have "code_run ex_deps {''k''} d2 [] [''k''] \<and> map cd_id (gd_codes d2) = [''k''] \<and> cd_used (hd (gd_codes d2))" by (intro conjI)
  then show ?thesis by (intro exI)
qed



theorem refresh_never_widens_witness:
  "\<exists>resp d' child. handleRefreshToken ex_deps ex_ctx ex_draws ex_refresh_request (ex_db [] [ex_row]) = (Inr resp, d')
     \<and> child \<in> set (gd_tokens d') \<and> rt_familyId child = ''f0'' \<and> set (rt_scopes child) \<subseteq> {''a'', ''b''} \<and> rt_expiresAt child \<le> 3600600"
proof -
  let ?d = "ex_db [] [ex_row]"
  have "(case handleRefreshToken ex_deps ex_ctx ex_draws ex_refresh_request ?d of (Inr _, _) \<Rightarrow> True | _ \<Rightarrow> False)" by code_simp
  then obtain resp d' where h: "handleRefreshToken ex_deps ex_ctx ex_draws ex_refresh_request ?d = (Inr resp, d')"
    by (auto split: prod.split_asm sum.split_asm)
  from refresh_never_widens[OF h] obtain s child old where s: "owned_token ex_deps ex_ctx ex_refresh_request ?d s" "gd_tokens d' = old @ [child]"
    "rt_familyId child = rt_familyId s" "set (rt_scopes child) \<subseteq> set (rt_scopes s)"
    "\<forall>e. family_end ex_ctx s = Some e \<longrightarrow> rt_expiresAt child \<le> e" by blast
  have "owned_token ex_deps ex_ctx ex_refresh_request ?d ex_row" by code_simp
  then have "s = ex_row" using s(1) by (simp add: owned_token_def)
  moreover have "family_end ex_ctx ex_row = Some 3600600" by code_simp
  ultimately show ?thesis using h s(2-5) by (intro exI[of _ resp] exI[of _ d'] exI[of _ child]) (simp add: ex_row_def)
qed

theorem refresh_replay_ends_the_family_witness:
  "\<exists>d'. handleRefreshToken ex_deps ex_ctx ex_draws ex_refresh_request (ex_db [] [revoked_as 700 (Some ''rotated'') ex_row,
       ex_row\<lparr>rt_id := ''i1'', rt_tokenHash := ''#t9''\<rparr>]) = (Inl InvalidGrant, d')
     \<and> length (gd_tokens d') = 2 \<and> ''jti0'' \<in> set (gd_denied d')"
proof -
  let ?s = "revoked_as 700 (Some ''rotated'') ex_row"
  let ?d = "ex_db [] [?s, ex_row\<lparr>rt_id := ''i1'', rt_tokenHash := ''#t9''\<rparr>]"
  obtain r d' where h: "handleRefreshToken ex_deps ex_ctx ex_draws ex_refresh_request ?d = (r, d')" by fastforce
  have p: "owned_token ex_deps ex_ctx ex_refresh_request ?d ?s" by code_simp
  have u: "rt_revoked ?s" by simp
  note all = refresh_replay_ends_the_family[OF h, THEN conjunct2, THEN spec, THEN mp, OF p, THEN mp, OF u]
  from all have r: "r = Inl InvalidGrant" and ids: "map rt_id (gd_tokens d') = map rt_id (gd_tokens ?d)"
    and den: "\<forall>jti x. dr_redisUp ex_draws \<longrightarrow> rt_familyId ?s \<noteq> [] \<longrightarrow> (REFRESH_FAMILY_ACCESS_TOKENS (rt_familyId ?s), jti, x) \<in> set (gd_recorded ?d) \<longrightarrow>
      x * 1000 > dr_writeAt ex_draws \<longrightarrow> jti \<in> set (gd_denied d')" by blast+
  have "''jti0'' \<in> set (gd_denied d')"
    by (rule den[rule_format, of _ 2000]) (simp_all add: ex_db_def ex_draws_def ex_row_def revoked_as_def)
  moreover have "length (gd_tokens d') = 2" using arg_cong[OF ids, of length] by (simp add: ex_db_def)
  ultimately show ?thesis using h r by blast
qed

end
