(* ===== verification/Sessions.thy ===== *)
theory Sessions
  imports Authorization_Codes "HOL-Library.Product_Lexorder" "HOL-Library.Char_ord" "HOL-Library.List_Lexorder"
begin

text \<open>
  The browser sessions (\<open>libs/infra/db/src/lib/repositories/sessions.repository.ts\<close>), the clients each has
  served, and the mint of an authorization code under a session
  (\<open>apps/auth-server/src/app/helpers/authorization-code.ts\<close>). A transaction that ends a session updates
  its row first, and a mint holds that row \<open>FOR SHARE\<close> until it commits, so each runs before or after
  the other and a transaction is one step here. The clocks, the ids and times the database draws and
  the random codes are arguments.
\<close>

subsection \<open>The tables\<close>

definition SESSION_REVOKED_REASONS :: "string list" where
  "SESSION_REVOKED_REASONS = [''sign_out'', ''sign_out_everywhere'', ''admin'', ''reset'', ''key_retired'', ''browser_limit'', ''idle'', ''expired'']"

record session =
  se_id :: string
  se_realmId :: string
  se_userId :: string
  se_authTime :: ms
  se_amr :: "string list"
  se_recoveryCodeUsed :: bool
  se_assuranceLevel :: "string option"
  se_ipAddress :: "string option"
  se_userAgent :: "string option"
  se_expiresAt :: ms
  se_revokedAt :: "ms option"
  se_revokedReason :: "string option"
  se_createdAt :: ms
  se_lastSeenAt :: ms

record session_client =
  sc_sessionId :: string
  sc_oauthClientId :: string
  sc_firstSeenAt :: ms

text \<open>A registry row with its client's identity, and whether the client asks for back-channel logout.\<close>

record client_detail = session_client +
  sc_clientId :: string
  sc_clientName :: string
  sc_notify :: bool

datatype session_event =
  ClientSessionEnded (ev_realm: string) (ev_user: string) (ev_client: string) (ev_sid: string) (ev_reason: string)

record session_db =
  sd_realms :: realms
  sd_clients :: clients
  sd_sessions :: "session tab"
  sd_registry :: "session_client tab"
  sd_codes :: codes
  sd_events :: "session_event list"

type_synonym ended_session = "session \<times> client_detail list"

record 'e id_batch =
  bt_ended :: "'e list"
  bt_last :: "string option"
  bt_selected :: nat

definition end_as :: "ms \<Rightarrow> string \<Rightarrow> session \<Rightarrow> session" where
  "end_as at reason s = s\<lparr>se_revokedAt := Some at, se_revokedReason := Some reason\<rparr>"

abbreviation unrevoked :: "session \<Rightarrow> bool" where
  "unrevoked s \<equiv> se_revokedAt s = None"

subsection \<open>Ending sessions\<close>

definition withClientDetails :: "clients \<Rightarrow> (string \<Rightarrow> string option) \<Rightarrow> session_client list \<Rightarrow> client_detail list" where
  "withClientDetails cs realmOf rows =
     sort_key (\<lambda>d. (sc_firstSeenAt d, sc_sessionId d, sc_oauthClientId d))
       (List.maps (\<lambda>r. case find (\<lambda>c. oc_id c = sc_oauthClientId r) cs of
            None \<Rightarrow> []
          | Some c \<Rightarrow> if Some (oc_realmId c) \<noteq> realmOf (sc_sessionId r) then []
              else [\<lparr>sc_sessionId = sc_sessionId r, sc_oauthClientId = sc_oauthClientId r, sc_firstSeenAt = sc_firstSeenAt r,
                sc_clientId = oc_clientId c, sc_clientName = oc_name c, sc_notify = (oc_backchannelLogoutUri c \<noteq> None)\<rparr>]) rows)"

definition realm_of :: "session list \<Rightarrow> string \<Rightarrow> string option" where
  "realm_of ss = map_of (rev (map (\<lambda>s. (se_id s, se_realmId s)) ss))"

definition ended_events :: "session \<Rightarrow> client_detail list \<Rightarrow> session_event list" where
  "ended_events s ds = map (\<lambda>d. ClientSessionEnded (se_realmId s) (se_userId s) (sc_clientId d) (se_id s)
       (case se_revokedReason s of None \<Rightarrow> ''unknown'' | Some r \<Rightarrow> r))
     (filter (\<lambda>d. sc_notify d \<and> sc_sessionId d = se_id s) ds)"

definition finishEnded :: "ms \<Rightarrow> session list \<Rightarrow> session_db \<Rightarrow> ended_session list \<times> session_db" where
  "finishEnded at ended d =
     (if ended = [] then ([], d)
      else let ids = map se_id ended;
               (removed, registry) = delete_where (\<lambda>r. sc_sessionId r \<in> set ids) (sd_registry d);
               details = withClientDetails (sd_clients d) (realm_of ended) removed;
               (_, codes) = update_where (\<lambda>c. (case cd_sessionId c of None \<Rightarrow> False | Some i \<Rightarrow> i \<in> set ids) \<and> \<not> cd_used c) (spend at) (sd_codes d);
               sorted = sort_key se_id ended
           in (map (\<lambda>s. (s, filter (\<lambda>r. sc_sessionId r = se_id s) details)) sorted,
               d\<lparr>sd_registry := registry, sd_codes := codes,
                 sd_events := sd_events d @ List.maps (\<lambda>s. ended_events s details) sorted\<rparr>))"

text \<open>The rows a batch locks: those not yet ended that a condition picks, in id order, up to a limit.\<close>

definition select_ids :: "(session \<Rightarrow> bool) \<Rightarrow> nat option \<Rightarrow> session tab \<Rightarrow> string list" where
  "select_ids P limit t =
     (let ids = sort (map se_id (select_where P t)) in case limit of None \<Rightarrow> ids | Some n \<Rightarrow> take n ids)"

definition endSelected :: "ms \<Rightarrow> (session \<Rightarrow> bool) \<Rightarrow> string \<Rightarrow> nat option \<Rightarrow> session_db \<Rightarrow> ended_session id_batch \<times> session_db" where
  "endSelected at P reason limit d =
     (let locked = select_ids (\<lambda>s. unrevoked s \<and> P s) limit (sd_sessions d) in
      if locked = [] then (\<lparr>bt_ended = [], bt_last = None, bt_selected = 0\<rparr>, d)
      else let (ended, ss) = update_where (\<lambda>s. se_id s \<in> set locked \<and> unrevoked s) (end_as at reason) (sd_sessions d);
               (done', d') = finishEnded at ended (d\<lparr>sd_sessions := ss\<rparr>)
           in (\<lparr>bt_ended = done', bt_last = Some (last locked), bt_selected = length locked\<rparr>, d'))"

subsection \<open>The repository\<close>

definition session_create :: "session \<Rightarrow> session_db \<Rightarrow> session \<times> session_db" where
  "session_create s d =
     (let row = s\<lparr>se_revokedAt := None, se_revokedReason := None\<rparr> in (row, d\<lparr>sd_sessions := sd_sessions d @ [row]\<rparr>))"

definition session_findById :: "string \<Rightarrow> string \<Rightarrow> session_db \<Rightarrow> session option" where
  "session_findById realmId i d = limit1 (select_where (\<lambda>s. se_realmId s = realmId \<and> se_id s = i) (sd_sessions d))"

definition updateLastSeen :: "ms \<Rightarrow> string \<Rightarrow> string \<Rightarrow> ms \<Rightarrow> session_db \<Rightarrow> bool \<times> session_db" where
  "updateLastSeen now realmId i minIntervalMs d =
     (let (rs, t) = update_where (\<lambda>s. se_realmId s = realmId \<and> se_id s = i \<and> unrevoked s \<and> se_expiresAt s > now
            \<and> se_lastSeenAt s \<le> now - minIntervalMs) (\<lambda>s. s\<lparr>se_lastSeenAt := now\<rparr>) (sd_sessions d)
      in (rs \<noteq> [], d\<lparr>sd_sessions := t\<rparr>))"

definition session_revoke :: "ms \<Rightarrow> string \<Rightarrow> string \<Rightarrow> string \<Rightarrow> string option \<Rightarrow> session_db \<Rightarrow> ended_session option \<times> session_db" where
  "session_revoke at realmId i reason userId d =
     (case update_where (\<lambda>s. se_realmId s = realmId \<and> se_id s = i \<and> unrevoked s
          \<and> (case userId of None \<Rightarrow> True | Some u \<Rightarrow> se_userId s = u)) (end_as at reason) (sd_sessions d) of
        ([], t) \<Rightarrow> (None, d)
      | (s # _, t) \<Rightarrow> (let (ended, d') = finishEnded at [s] (d\<lparr>sd_sessions := t\<rparr>) in (limit1 ended, d')))"

definition session_listActive :: "ms \<Rightarrow> string \<Rightarrow> string \<Rightarrow> session_db \<Rightarrow> session list" where
  "session_listActive now realmId userId d =
     rev (sort_key (\<lambda>s. (se_createdAt s, se_id s))
       (select_where (\<lambda>s. se_realmId s = realmId \<and> se_userId s = userId \<and> unrevoked s \<and> se_expiresAt s > now) (sd_sessions d)))"

definition recordClient :: "ms \<Rightarrow> ms \<Rightarrow> string \<Rightarrow> string \<Rightarrow> string \<Rightarrow> session_db \<Rightarrow> bool \<times> session_db" where
  "recordClient now dbNow realmId sessionId oauthClientId d =
     (case limit1 (select_where (\<lambda>s. list_ex (\<lambda>c. oc_id c = oauthClientId \<and> oc_realmId c = se_realmId s) (sd_clients d)
          \<and> se_realmId s = realmId \<and> se_id s = sessionId \<and> unrevoked s \<and> se_expiresAt s > now) (sd_sessions d)) of
        None \<Rightarrow> (False, d)
      | Some live \<Rightarrow>
          (True, if list_ex (\<lambda>r. sc_sessionId r = se_id live \<and> sc_oauthClientId r = oauthClientId) (sd_registry d) then d
             else d\<lparr>sd_registry := sd_registry d @ [\<lparr>sc_sessionId = se_id live, sc_oauthClientId = oauthClientId, sc_firstSeenAt = dbNow\<rparr>]\<rparr>))"

definition registryRows :: "ms \<Rightarrow> string \<Rightarrow> (session \<Rightarrow> session_client \<Rightarrow> bool) \<Rightarrow> session_db \<Rightarrow> session_client list" where
  "registryRows now realmId Q d =
     sort_key (\<lambda>r. (sc_firstSeenAt r, sc_sessionId r, sc_oauthClientId r))
       (select_where (\<lambda>r. list_ex (\<lambda>s. se_id s = sc_sessionId r \<and> se_realmId s = realmId \<and> unrevoked s \<and> se_expiresAt s > now \<and> Q s r) (sd_sessions d))
         (sd_registry d))"

definition listClientsForSession :: "ms \<Rightarrow> string \<Rightarrow> string \<Rightarrow> session_db \<Rightarrow> session_client list" where
  "listClientsForSession now realmId sessionId d = registryRows now realmId (\<lambda>_ r. sc_sessionId r = sessionId) d"

definition listClientsForUser :: "ms \<Rightarrow> string \<Rightarrow> string \<Rightarrow> session_db \<Rightarrow> session_client list" where
  "listClientsForUser now realmId userId d = registryRows now realmId (\<lambda>s _. se_userId s = userId) d"

definition listSessionsForClient :: "ms \<Rightarrow> string \<Rightarrow> string \<Rightarrow> session_db \<Rightarrow> session_client list" where
  "listSessionsForClient now realmId oauthClientId d = registryRows now realmId (\<lambda>_ r. sc_oauthClientId r = oauthClientId) d"


text \<open>A page of a user's or a client's sessions, newest first, with the clients each has served.\<close>

datatype session_owner = OwnerUser string | OwnerClient string

definition owned_by :: "session_owner \<Rightarrow> session_db \<Rightarrow> session \<Rightarrow> bool" where
  "owned_by owner d s = (case owner of
      OwnerUser u \<Rightarrow> se_userId s = u
    | OwnerClient c \<Rightarrow> unrevoked s \<and> list_ex (\<lambda>r. sc_sessionId r = se_id s \<and> sc_oauthClientId r = c) (sd_registry d))"

definition listPage_rows :: "string \<Rightarrow> session_owner \<Rightarrow> (ms \<times> string) option \<Rightarrow> nat \<Rightarrow> session_db \<Rightarrow> session list" where
  "listPage_rows realmId owner after limit d =
     take limit (rev (sort_key (\<lambda>s. (se_createdAt s, se_id s))
       (select_where (\<lambda>s. se_realmId s = realmId \<and> owned_by owner d s
          \<and> (case after of None \<Rightarrow> True | Some p \<Rightarrow> (se_createdAt s, se_id s) < p)) (sd_sessions d))))"

definition session_listPage :: "string \<Rightarrow> session_owner \<Rightarrow> (ms \<times> string) option \<Rightarrow> nat \<Rightarrow> session_db \<Rightarrow> ended_session list" where
  "session_listPage realmId owner after limit d =
     (let rows = listPage_rows realmId owner after limit d;
          ids = map se_id (filter unrevoked rows);
          details = withClientDetails (sd_clients d) (realm_of rows) (select_where (\<lambda>r. sc_sessionId r \<in> set ids) (sd_registry d))
      in map (\<lambda>s. (s, filter (\<lambda>r. sc_sessionId r = se_id s) details)) rows)"

definition revokeForUser :: "ms \<Rightarrow> string \<Rightarrow> string \<Rightarrow> string \<Rightarrow> string option \<Rightarrow> ms option \<Rightarrow> session_db \<Rightarrow> ended_session list \<times> session_db" where
  "revokeForUser at realmId userId reason exceptId createdBefore d =
     (let (b, d') = endSelected at (\<lambda>s. se_realmId s = realmId \<and> se_userId s = userId
            \<and> (case exceptId of None \<Rightarrow> True | Some i \<Rightarrow> se_id s \<noteq> i)
            \<and> (case createdBefore of None \<Rightarrow> True | Some t \<Rightarrow> se_createdAt s < t)) reason None d
      in (bt_ended b, d'))"

definition after_id :: "string option \<Rightarrow> string \<Rightarrow> bool" where
  "after_id after i = (case after of None \<Rightarrow> True | Some a \<Rightarrow> a < i)"

definition revokeRealmBatch :: "ms \<Rightarrow> string \<Rightarrow> string \<Rightarrow> string option \<Rightarrow> ms \<Rightarrow> ms option \<Rightarrow> nat \<Rightarrow> session_db
    \<Rightarrow> ended_session id_batch \<times> session_db" where
  "revokeRealmBatch at realmId reason after createdThrough activeSince limit d =
     endSelected at (\<lambda>s. se_realmId s = realmId \<and> after_id after (se_id s) \<and> se_createdAt s \<le> createdThrough
        \<and> (case activeSince of None \<Rightarrow> True | Some t \<Rightarrow> t \<le> se_lastSeenAt s)) reason (Some limit) d"

text \<open>The ends of a session by the limits of its realm, and the clean-up that marks the sessions past one.\<close>

definition row_absoluteEnd :: "ms \<Rightarrow> realm_row \<Rightarrow> session \<Rightarrow> ms" where
  "row_absoluteEnd defaultMaxLifespanMs r s =
     min (se_expiresAt s) (se_createdAt s + (case rl_ssoMaxLifespan r of None \<Rightarrow> defaultMaxLifespanMs | Some m \<Rightarrow> m * 1000))"

definition row_idleEnd :: "realm_row \<Rightarrow> session \<Rightarrow> ms option" where
  "row_idleEnd r s = map_option (\<lambda>m. se_lastSeenAt s + m * 1000) (rl_ssoIdleTimeout r)"

definition row_lapsed :: "ms \<Rightarrow> ms \<Rightarrow> realm_row \<Rightarrow> session \<Rightarrow> bool" where
  "row_lapsed defaultMaxLifespanMs now r s \<longleftrightarrow> row_absoluteEnd defaultMaxLifespanMs r s \<le> now
     \<or> (case row_idleEnd r s of None \<Rightarrow> False | Some e \<Rightarrow> e \<le> now)"

definition lapse_reason :: "ms \<Rightarrow> realm_row \<Rightarrow> session \<Rightarrow> string" where
  "lapse_reason defaultMaxLifespanMs r s = (case row_idleEnd r s of
      Some e \<Rightarrow> if e < row_absoluteEnd defaultMaxLifespanMs r s then ''idle'' else ''expired''
    | None \<Rightarrow> ''expired'')"

definition realm_by_id :: "string \<Rightarrow> session_db \<Rightarrow> realm_row option" where
  "realm_by_id i d = find (\<lambda>r. rl_id r = i) (sd_realms d)"

definition lapsed_in :: "ms \<Rightarrow> ms \<Rightarrow> session_db \<Rightarrow> session \<Rightarrow> bool" where
  "lapsed_in defaultMaxLifespanMs now d s = (case realm_by_id (se_realmId s) d of
      None \<Rightarrow> False | Some r \<Rightarrow> row_lapsed defaultMaxLifespanMs now r s)"

definition end_lapsed :: "ms \<Rightarrow> ms \<Rightarrow> session_db \<Rightarrow> session \<Rightarrow> session" where
  "end_lapsed defaultMaxLifespanMs now d s = end_as now (case realm_by_id (se_realmId s) d of
      None \<Rightarrow> ''expired'' | Some r \<Rightarrow> lapse_reason defaultMaxLifespanMs r s) s"

definition revokeLapsedBatch :: "ms \<Rightarrow> ms \<Rightarrow> string option \<Rightarrow> nat \<Rightarrow> session_db \<Rightarrow> ended_session id_batch \<times> session_db" where
  "revokeLapsedBatch now defaultMaxLifespanMs after limit d =
     (let P = (\<lambda>s. unrevoked s \<and> lapsed_in defaultMaxLifespanMs now d s);
          locked = select_ids (\<lambda>s. P s \<and> after_id after (se_id s)) (Some limit) (sd_sessions d)
      in if locked = [] then (\<lparr>bt_ended = [], bt_last = None, bt_selected = 0\<rparr>, d)
      else let (ended, ss) = update_where (\<lambda>s. se_id s \<in> set locked \<and> P s) (end_lapsed defaultMaxLifespanMs now d) (sd_sessions d);
               (done', d') = finishEnded now ended (d\<lparr>sd_sessions := ss\<rparr>)
           in (\<lparr>bt_ended = done', bt_last = Some (last locked), bt_selected = length locked\<rparr>, d'))"

text \<open>The purge of ended rows. Their registry rows, if any, go with them (\<open>ON DELETE CASCADE\<close>).\<close>

definition ended_before :: "ms \<Rightarrow> session \<Rightarrow> bool" where
  "ended_before before s = (case se_revokedAt s of None \<Rightarrow> False | Some t \<Rightarrow> t < before)"

definition deleteEnded :: "ms \<Rightarrow> string option \<Rightarrow> nat \<Rightarrow> session_db \<Rightarrow> session id_batch \<times> session_db" where
  "deleteEnded before after limit d =
     (let doomed = select_ids (\<lambda>s. after_id after (se_id s) \<and> ended_before before s) (Some limit) (sd_sessions d)
      in if doomed = [] then (\<lparr>bt_ended = [], bt_last = None, bt_selected = 0\<rparr>, d)
      else let (deleted, ss) = delete_where (\<lambda>s. se_id s \<in> set doomed \<and> ended_before before s) (sd_sessions d)
           in (\<lparr>bt_ended = deleted, bt_last = Some (last doomed), bt_selected = length doomed\<rparr>,
               d\<lparr>sd_sessions := ss, sd_registry := filter (\<lambda>r. sc_sessionId r \<notin> se_id ` set deleted) (sd_registry d)\<rparr>))"

subsection \<open>Minting a code under a session\<close>

definition AUTHORIZATION_CODE_TTL_MS :: ms where "AUTHORIZATION_CODE_TTL_MS = 5 * 60 * 1000"

definition MAX_MINT_ATTEMPTS :: nat where "MAX_MINT_ATTEMPTS = 3"

definition challenge_char :: "char \<Rightarrow> bool" where
  "challenge_char c \<longleftrightarrow> (CHR ''A'' \<le> c \<and> c \<le> CHR ''Z'') \<or> (CHR ''a'' \<le> c \<and> c \<le> CHR ''z'') \<or> (CHR ''0'' \<le> c \<and> c \<le> CHR ''9'')
     \<or> c \<in> set ''._~-''"

definition isMintableCodeChallenge :: "string \<Rightarrow> string \<Rightarrow> bool" where
  "isMintableCodeChallenge challenge method \<longleftrightarrow> method = ''S256'' \<and> list_all challenge_char challenge
     \<and> 43 \<le> length challenge \<and> length challenge \<le> 128"

record code_grant =
  cg_oauthClientId :: string
  cg_userId :: string
  cg_redirectUri :: string
  cg_codeChallenge :: string
  cg_codeChallengeMethod :: string
  cg_scopes :: "string list"
  cg_resource :: "string list"
  cg_nonce :: "string option"
  cg_authTime :: "ms option"
  cg_amr :: "string list option"
  cg_assuranceLevel :: "string option"
  cg_sessionExpiresAt :: "ms option"
  cg_dpopJkt :: "string option"
  cg_session :: "(string \<times> string) option"

datatype mint_error = PkceChallengeRequiredError | UniqueConstraintError

datatype code_mint = Minted string | SessionEnded

definition storedAmr :: "code_grant \<Rightarrow> string list option" where
  "storedAmr g = (case (cg_authTime g, cg_amr g) of (Some _, Some amr) \<Rightarrow> if amr = [] then None else Some amr | _ \<Rightarrow> None)"

definition code_row :: "string \<Rightarrow> string \<Rightarrow> ms \<Rightarrow> ms \<Rightarrow> code_grant \<Rightarrow> auth_code" where
  "code_row i code expiresAt dbNow g =
     \<lparr>cd_id = i, cd_code = code, cd_oauthClientId = cg_oauthClientId g, cd_userId = cg_userId g, cd_redirectUri = cg_redirectUri g,
      cd_codeChallenge = cg_codeChallenge g, cd_nonce = cg_nonce g, cd_authTime = cg_authTime g, cd_amr = storedAmr g,
      cd_assuranceLevel = cg_assuranceLevel g, cd_sessionExpiresAt = cg_sessionExpiresAt g, cd_sessionId = map_option snd (cg_session g),
      cd_scopes = cg_scopes g, cd_resource = cg_resource g, cd_dpopJkt = cg_dpopJkt g, cd_expiresAt = expiresAt,
      cd_used = False, cd_usedAt = None, cd_createdAt = dbNow\<rparr>"

text \<open>The insert under a savepoint, tried again with another code when the code is taken.\<close>

fun mint_attempts :: "(nat \<Rightarrow> string) \<Rightarrow> (string \<Rightarrow> auth_code) \<Rightarrow> nat list \<Rightarrow> codes \<Rightarrow> mint_error + string \<times> codes" where
  "mint_attempts draw row [] t = Inl UniqueConstraintError"
| "mint_attempts draw row (n # ns) t =
     (if list_ex (\<lambda>c. cd_code c = draw n) t then mint_attempts draw row ns t
      else Inr (draw n, snd (code_create (row (draw n)) t)))"

definition mintIn :: "ms \<Rightarrow> ms \<Rightarrow> (nat \<Rightarrow> string) \<Rightarrow> string \<Rightarrow> code_grant \<Rightarrow> session_db \<Rightarrow> (mint_error + code_mint) \<times> session_db" where
  "mintIn now dbNow draw rowId g d =
     (let (live, d') = (case cg_session g of None \<Rightarrow> (True, d)
            | Some (realmId, sid) \<Rightarrow> recordClient now dbNow realmId sid (cg_oauthClientId g) d)
      in if \<not> live then (Inr SessionEnded, d)
         else case mint_attempts draw (\<lambda>code. code_row rowId code (now + AUTHORIZATION_CODE_TTL_MS) dbNow g) [1..<Suc MAX_MINT_ATTEMPTS] (sd_codes d') of
             Inl e \<Rightarrow> (Inl e, d)
           | Inr (code, codes) \<Rightarrow> (Inr (Minted code), d'\<lparr>sd_codes := codes\<rparr>))"

definition mintAuthorizationCode :: "ms \<Rightarrow> ms \<Rightarrow> (nat \<Rightarrow> string) \<Rightarrow> string \<Rightarrow> code_grant \<Rightarrow> session_db \<Rightarrow> (mint_error + code_mint) \<times> session_db" where
  "mintAuthorizationCode now dbNow draw rowId g d =
     (if \<not> isMintableCodeChallenge (cg_codeChallenge g) (cg_codeChallengeMethod g) then (Inl PkceChallengeRequiredError, d)
      else mintIn now dbNow draw rowId g d)"


subsection \<open>What ending sessions does\<close>

text \<open>
  Every operation that ends sessions is a transition of this form: the rows of some ids are marked ended,
  their registry rows go and the codes issued under them are spent.
\<close>

definition ends_to :: "string set \<Rightarrow> session_db \<Rightarrow> session_db \<Rightarrow> bool" where
  "ends_to E d d' \<longleftrightarrow> sd_realms d' = sd_realms d \<and> sd_clients d' = sd_clients d
     \<and> sd_registry d' = filter (\<lambda>r. sc_sessionId r \<notin> E) (sd_registry d)
     \<and> (\<forall>c. c \<in> set (sd_codes d') \<longrightarrow> \<not> cd_used c \<longrightarrow> c \<in> set (sd_codes d) \<and> (\<forall>i. cd_sessionId c = Some i \<longrightarrow> i \<notin> E))
     \<and> E \<subseteq> {se_id s |s. s \<in> set (sd_sessions d) \<and> unrevoked s}
     \<and> (\<exists>f. sd_sessions d' = map f (sd_sessions d)
          \<and> (\<forall>s. s \<in> set (sd_sessions d) \<longrightarrow> (if se_id s \<in> E then \<exists>at r. r \<in> set SESSION_REVOKED_REASONS \<and> f s = end_as at r s else f s = s)))"

lemma end_as_simps [simp]:
  "se_id (end_as at r s) = se_id s" "se_realmId (end_as at r s) = se_realmId s" "se_userId (end_as at r s) = se_userId s"
  "se_createdAt (end_as at r s) = se_createdAt s" "se_lastSeenAt (end_as at r s) = se_lastSeenAt s" "se_expiresAt (end_as at r s) = se_expiresAt s"
  "se_revokedAt (end_as at r s) = Some at" "se_revokedReason (end_as at r s) = Some r"
  by (simp_all add: end_as_def)

lemma finishEnded_state:
  assumes "finishEnded at ended d = (out, d')"
  shows "sd_sessions d' = sd_sessions d" "sd_realms d' = sd_realms d" "sd_clients d' = sd_clients d"
    "sd_registry d' = filter (\<lambda>r. sc_sessionId r \<notin> se_id ` set ended) (sd_registry d)"
    "c \<in> set (sd_codes d') \<Longrightarrow> \<not> cd_used c \<Longrightarrow> c \<in> set (sd_codes d) \<and> (\<forall>i. cd_sessionId c = Some i \<longrightarrow> i \<notin> se_id ` set ended)"
    "map fst out = sort_key se_id ended"
  using assms
  by (auto simp: finishEnded_def delete_where_def update_where_def Let_def comp_def split: if_splits option.splits)

text \<open>An update that ends the unended rows its condition picks, with the rest of its transaction.\<close>

lemma update_ends:
  assumes u: "unique_on se_id (sd_sessions d)" and P: "\<And>s. P s \<Longrightarrow> unrevoked s"
    and f: "\<And>s. s \<in> set (sd_sessions d) \<Longrightarrow> P s \<Longrightarrow> \<exists>at r. r \<in> set SESSION_REVOKED_REASONS \<and> f s = end_as at r s"
    and up: "update_where P f (sd_sessions d) = (ended, ss)" and fin: "finishEnded at ended (d\<lparr>sd_sessions := ss\<rparr>) = (out, d')"
  shows "ends_to {se_id s |s. s \<in> set (sd_sessions d) \<and> P s} d d'"
proof -
  let ?E = "{se_id s |s. s \<in> set (sd_sessions d) \<and> P s}"
  from up have ended: "ended = map f (filter P (sd_sessions d))" and ss: "ss = map (\<lambda>s. if P s then f s else s) (sd_sessions d)"
    by (simp_all add: update_where_def)
  have idf: "se_id (f s) = se_id s" if "s \<in> set (sd_sessions d)" "P s" for s using f[OF that] by auto
  have E: "se_id ` set ended = ?E" unfolding ended set_map image_image set_filter using idf by (auto intro!: image_eqI)
  have row: "if se_id s \<in> ?E then \<exists>at r. r \<in> set SESSION_REVOKED_REASONS \<and> (if P s then f s else s) = end_as at r s else (if P s then f s else s) = s"
    if s: "s \<in> set (sd_sessions d)" for s
  proof (cases "se_id s \<in> ?E")
    case True
    then have "P s" using unique_on_same[OF u s] by fastforce
    then show ?thesis using True f[OF s] by simp
  next
    case False
    then show ?thesis using s by auto
  qed
  note st = finishEnded_state[OF fin, unfolded E]
  have "\<exists>g. sd_sessions d' = map g (sd_sessions d) \<and> (\<forall>s. s \<in> set (sd_sessions d) \<longrightarrow>
      (if se_id s \<in> ?E then \<exists>at r. r \<in> set SESSION_REVOKED_REASONS \<and> g s = end_as at r s else g s = s))"
    using st(1) row by (intro exI[of _ "\<lambda>s. if P s then f s else s"]) (simp add: ss)
  moreover have "?E \<subseteq> {se_id s |s. s \<in> set (sd_sessions d) \<and> unrevoked s}" using P by blast
  moreover have "\<forall>c. c \<in> set (sd_codes d') \<longrightarrow> \<not> cd_used c \<longrightarrow> c \<in> set (sd_codes d) \<and> (\<forall>i. cd_sessionId c = Some i \<longrightarrow> i \<notin> ?E)"
    using st(5) by simp
  ultimately show ?thesis unfolding ends_to_def using st(2,3,4) by (intro conjI) simp_all
qed

lemma ends_to_nothing: "ends_to {} d d"
  by (auto simp: ends_to_def intro!: exI[of _ id])

lemma select_ids_mem: "set (select_ids P limit t) \<subseteq> {se_id s |s. s \<in> set t \<and> P s}"
proof
  fix i assume "i \<in> set (select_ids P limit t)"
  then have "i \<in> set (sort (map se_id (filter P t)))" by (cases limit) (auto simp: select_ids_def select_where_def Let_def dest: in_set_takeD)
  then show "i \<in> {se_id s |s. s \<in> set t \<and> P s}" by auto
qed

lemma endSelected_ends:
  assumes u: "unique_on se_id (sd_sessions d)" and r: "reason \<in> set SESSION_REVOKED_REASONS"
  shows "ends_to (set (select_ids (\<lambda>s. unrevoked s \<and> P s) limit (sd_sessions d))) d (snd (endSelected at P reason limit d))"
proof -
  let ?l = "select_ids (\<lambda>s. unrevoked s \<and> P s) limit (sd_sessions d)"
  let ?Q = "\<lambda>s. se_id s \<in> set ?l \<and> unrevoked s"
  have E: "{se_id s |s. s \<in> set (sd_sessions d) \<and> ?Q s} = set ?l" using select_ids_mem[of "\<lambda>s. unrevoked s \<and> P s" limit "sd_sessions d"] by auto
  obtain ended ss where up: "update_where ?Q (end_as at reason) (sd_sessions d) = (ended, ss)" by fastforce
  obtain out d' where fin: "finishEnded at ended (d\<lparr>sd_sessions := ss\<rparr>) = (out, d')" by fastforce
  have e: "ends_to (set ?l) d d'" using update_ends[OF u _ _ up fin] r unfolding E by blast
  show ?thesis
  proof (cases "?l = []")
    case True
    then show ?thesis by (simp add: endSelected_def ends_to_nothing)
  next
    case False
    then have "snd (endSelected at P reason limit d) = d'" using up fin by (simp add: endSelected_def Let_def)
    then show ?thesis using e by simp
  qed
qed

lemma session_revoke_ends:
  assumes u: "unique_on se_id (sd_sessions d)" and r: "reason \<in> set SESSION_REVOKED_REASONS"
  shows "\<exists>E. ends_to E d (snd (session_revoke at realmId i reason userId d)) \<and> E \<subseteq> {i}
     \<and> (fst (session_revoke at realmId i reason userId d) \<noteq> None \<longrightarrow> i \<in> E)"
proof -
  let ?Q = "\<lambda>s. se_realmId s = realmId \<and> se_id s = i \<and> unrevoked s \<and> (case userId of None \<Rightarrow> True | Some v \<Rightarrow> se_userId s = v)"
  obtain ended ss where up: "update_where ?Q (end_as at reason) (sd_sessions d) = (ended, ss)" by fastforce
  show ?thesis
  proof (cases ended)
    case Nil
    then have "session_revoke at realmId i reason userId d = (None, d)" using up by (simp add: session_revoke_def)
    then show ?thesis using ends_to_nothing[of d] by (intro exI[of _ "{}"]) simp
  next
    case (Cons s rest)
    have e: "ended = map (end_as at reason) (filter ?Q (sd_sessions d))" using up by (simp add: update_where_def)
    then have "filter ?Q (sd_sessions d) \<noteq> []" using Cons by auto
    then obtain s0 where s0: "s0 \<in> set (sd_sessions d)" "?Q s0" "filter ?Q (sd_sessions d) = [s0]"
      using unique_on_filter[OF u, of ?Q i] by blast
    then have rest: "ended = [s]" using Cons e by simp
    obtain out d' where fin: "finishEnded at ended (d\<lparr>sd_sessions := ss\<rparr>) = (out, d')" by fastforce
    have E: "{se_id x |x. x \<in> set (sd_sessions d) \<and> ?Q x} = {i}" using s0 by blast
    have "ends_to {i} d d'" using update_ends[OF u _ _ up fin] r unfolding E by blast
    moreover have "snd (session_revoke at realmId i reason userId d) = d'" using up fin unfolding rest by (simp add: session_revoke_def)
    ultimately show ?thesis by (intro exI[of _ "{i}"]) simp
  qed
qed

lemma revokeLapsedBatch_ends:
  assumes u: "unique_on se_id (sd_sessions d)"
  shows "ends_to (set (select_ids (\<lambda>s. (unrevoked s \<and> lapsed_in m now d s) \<and> after_id after (se_id s)) (Some limit) (sd_sessions d))) d
     (snd (revokeLapsedBatch now m after limit d))"
proof -
  let ?P = "\<lambda>s. unrevoked s \<and> lapsed_in m now d s"
  let ?l = "select_ids (\<lambda>s. ?P s \<and> after_id after (se_id s)) (Some limit) (sd_sessions d)"
  let ?Q = "\<lambda>s. se_id s \<in> set ?l \<and> ?P s"
  have E: "{se_id s |s. s \<in> set (sd_sessions d) \<and> ?Q s} = set ?l"
    using select_ids_mem[of "\<lambda>s. ?P s \<and> after_id after (se_id s)" "Some limit" "sd_sessions d"] by auto
  have reasons: "''idle'' \<in> set SESSION_REVOKED_REASONS" "''expired'' \<in> set SESSION_REVOKED_REASONS" by (simp_all add: SESSION_REVOKED_REASONS_def)
  then have f: "\<exists>at r. r \<in> set SESSION_REVOKED_REASONS \<and> end_lapsed m now d s = end_as at r s" for s
    by (auto simp: end_lapsed_def lapse_reason_def split: option.splits)
  obtain ended ss where up: "update_where ?Q (end_lapsed m now d) (sd_sessions d) = (ended, ss)" by fastforce
  obtain out d' where fin: "finishEnded now ended (d\<lparr>sd_sessions := ss\<rparr>) = (out, d')" by fastforce
  have e: "ends_to (set ?l) d d'" using update_ends[OF u _ f up fin] unfolding E by blast
  show ?thesis
  proof (cases "?l = []")
    case True
    then show ?thesis by (simp add: revokeLapsedBatch_def ends_to_nothing)
  next
    case False
    then have "snd (revokeLapsedBatch now m after limit d) = d'" using up fin by (simp add: revokeLapsedBatch_def Let_def)
    then show ?thesis using e by simp
  qed
qed


subsection \<open>Every run keeps the tables well-formed\<close>

text \<open>
  The transactions and statements on the tables, in any order. The first component collects every session
  id drawn so far. Codes are spent or deleted by other statements at will; realms change their limits
  and clients are added.
\<close>

inductive session_step :: "string set \<times> session_db \<Rightarrow> string set \<times> session_db \<Rightarrow> bool" where
  session_created: "se_id s \<notin> ids \<Longrightarrow> session_step (ids, d) (insert (se_id s) ids, snd (session_create s d))"
| session_seen: "0 \<le> iv \<Longrightarrow> session_step (ids, d) (ids, snd (updateLastSeen now realmId i iv d))"
| session_revoked: "reason \<in> set SESSION_REVOKED_REASONS \<Longrightarrow> session_step (ids, d) (ids, snd (session_revoke at realmId i reason userId d))"
| user_revoked: "reason \<in> set SESSION_REVOKED_REASONS \<Longrightarrow> session_step (ids, d) (ids, snd (revokeForUser at realmId u reason exceptId before d))"
| realm_batch: "reason \<in> set SESSION_REVOKED_REASONS \<Longrightarrow>
    session_step (ids, d) (ids, snd (revokeRealmBatch at realmId reason after through since limit d))"
| lapsed_batch: "session_step (ids, d) (ids, snd (revokeLapsedBatch now m after limit d))"
| sessions_purged: "session_step (ids, d) (ids, snd (deleteEnded before after limit d))"
| code_minted: "session_step (ids, d) (ids, snd (mintAuthorizationCode now dbNow draw rowId g d))"
| codes_spent: "\<forall>c. c \<in> set t \<longrightarrow> \<not> cd_used c \<longrightarrow> c \<in> set (sd_codes d) \<Longrightarrow> session_step (ids, d) (ids, d\<lparr>sd_codes := t\<rparr>)"
| realms_changed: "session_step (ids, d) (ids, d\<lparr>sd_realms := rs\<rparr>)"
| client_added: "session_step (ids, d) (ids, d\<lparr>sd_clients := sd_clients d @ [c]\<rparr>)"

definition empty_db :: "session_db \<Rightarrow> bool" where
  "empty_db d \<longleftrightarrow> sd_sessions d = [] \<and> sd_registry d = [] \<and> sd_codes d = []"

definition live_in :: "session_db \<Rightarrow> string \<Rightarrow> bool" where
  "live_in d i \<longleftrightarrow> (\<exists>s. s \<in> set (sd_sessions d) \<and> se_id s = i \<and> unrevoked s)"

definition served_in :: "session_db \<Rightarrow> session_client \<Rightarrow> bool" where
  "served_in d r \<longleftrightarrow> (\<exists>s. s \<in> set (sd_sessions d) \<and> se_id s = sc_sessionId r \<and> unrevoked s
     \<and> list_ex (\<lambda>c. oc_id c = sc_oauthClientId r \<and> oc_realmId c = se_realmId s) (sd_clients d))"

definition ended_pair :: "session \<Rightarrow> bool" where
  "ended_pair s \<longleftrightarrow> (unrevoked s \<longleftrightarrow> se_revokedReason s = None) \<and> (\<forall>r. se_revokedReason s = Some r \<longrightarrow> r \<in> set SESSION_REVOKED_REASONS)"

definition sessions_ok :: "string set \<Rightarrow> session_db \<Rightarrow> bool" where
  "sessions_ok ids d \<longleftrightarrow> unique_on se_id (sd_sessions d) \<and> se_id ` set (sd_sessions d) \<subseteq> ids
     \<and> (\<forall>s. s \<in> set (sd_sessions d) \<longrightarrow> ended_pair s)
     \<and> unique_on (\<lambda>r. (sc_sessionId r, sc_oauthClientId r)) (sd_registry d) \<and> (\<forall>r. r \<in> set (sd_registry d) \<longrightarrow> served_in d r)
     \<and> (\<forall>c i. c \<in> set (sd_codes d) \<longrightarrow> cd_sessionId c = Some i \<longrightarrow> \<not> cd_used c \<longrightarrow> live_in d i)"

lemma same_ids:
  assumes "map se_id t' = map se_id t"
  shows "unique_on se_id t' = unique_on se_id t \<and> se_id ` set t' = se_id ` set t"
proof
  show "unique_on se_id t' = unique_on se_id t" using assms by (simp add: unique_on_def)
  have "set (map se_id t') = set (map se_id t)" using assms by (rule arg_cong)
  then show "se_id ` set t' = se_id ` set t" by simp
qed

lemma ends_to_ok:
  assumes e: "ends_to E d d'" and ok: "sessions_ok ids d"
  shows "sessions_ok ids d'"
proof -
  from e obtain f where ss: "sd_sessions d' = map f (sd_sessions d)"
    and f: "\<And>s. s \<in> set (sd_sessions d) \<Longrightarrow> if se_id s \<in> E then \<exists>at r. r \<in> set SESSION_REVOKED_REASONS \<and> f s = end_as at r s else f s = s"
    by (auto simp: ends_to_def)
  have idf: "se_id (f s) = se_id s" if "s \<in> set (sd_sessions d)" for s using f[OF that] by (auto split: if_splits)
  have ids: "map se_id (sd_sessions d') = map se_id (sd_sessions d)" using idf by (simp add: ss)
  have kept: "s \<in> set (sd_sessions d')" if "s \<in> set (sd_sessions d)" "se_id s \<notin> E" for s using that f[OF that(1)] by (force simp: ss)
  have pair: "ended_pair s" if s: "s \<in> set (sd_sessions d')" for s
  proof -
    from s obtain s0 where s0: "s0 \<in> set (sd_sessions d)" "s = f s0" by (auto simp: ss)
    with ok have "ended_pair s0" by (simp add: sessions_ok_def)
    then show ?thesis using f[OF s0(1)] s0(2) by (cases "se_id s0 \<in> E") (auto simp: ended_pair_def)
  qed
  have served: "served_in d' r" if r: "r \<in> set (sd_registry d')" for r
  proof -
    from r e have "r \<in> set (sd_registry d)" "sc_sessionId r \<notin> E" by (auto simp: ends_to_def)
    then obtain s where s: "s \<in> set (sd_sessions d)" "se_id s = sc_sessionId r" "unrevoked s"
      and c: "list_ex (\<lambda>c. oc_id c = sc_oauthClientId r \<and> oc_realmId c = se_realmId s) (sd_clients d)"
      using ok unfolding sessions_ok_def served_in_def by metis
    have "sd_clients d' = sd_clients d" using e by (simp add: ends_to_def)
    then show ?thesis unfolding served_in_def using kept[OF s(1)] s c \<open>sc_sessionId r \<notin> E\<close> by (intro exI[of _ s]) simp
  qed
  have live: "live_in d' i" if c: "c \<in> set (sd_codes d')" "cd_sessionId c = Some i" "\<not> cd_used c" for c i
  proof -
    from c e have "c \<in> set (sd_codes d)" "i \<notin> E" by (auto simp: ends_to_def)
    then obtain s where s: "s \<in> set (sd_sessions d)" "se_id s = i" "unrevoked s" using ok c(2,3) unfolding sessions_ok_def live_in_def by metis
    then show ?thesis unfolding live_in_def using kept[OF s(1)] \<open>i \<notin> E\<close> by (intro exI[of _ s]) simp
  qed
  have "unique_on (\<lambda>r. (sc_sessionId r, sc_oauthClientId r)) (sd_registry d')"
    using e ok unique_on_delete[where key="\<lambda>r. (sc_sessionId r, sc_oauthClientId r)" and t="sd_registry d" and P="\<lambda>r. sc_sessionId r \<in> E"]
    by (simp add: ends_to_def sessions_ok_def delete_where_def)
  moreover have "unique_on se_id (sd_sessions d')" "se_id ` set (sd_sessions d') \<subseteq> ids"
    using ok same_ids[OF ids] by (simp_all add: sessions_ok_def)
  ultimately show ?thesis using pair served live by (simp add: sessions_ok_def)
qed

text \<open>A row that ended keeps its time and reason for ever, while it is there.\<close>

definition keeps_ended :: "session_db \<Rightarrow> session_db \<Rightarrow> bool" where
  "keeps_ended d d' \<longleftrightarrow> (\<forall>s s'. s \<in> set (sd_sessions d) \<longrightarrow> \<not> unrevoked s \<longrightarrow> s' \<in> set (sd_sessions d') \<longrightarrow> se_id s' = se_id s \<longrightarrow> s' = s)"

lemma ends_to_keeps_ended:
  assumes e: "ends_to E d d'" and u: "unique_on se_id (sd_sessions d)"
  shows "keeps_ended d d'"
  unfolding keeps_ended_def
proof (intro allI impI)
  fix s s' assume s: "s \<in> set (sd_sessions d)" "\<not> unrevoked s" and s': "s' \<in> set (sd_sessions d')" "se_id s' = se_id s"
  from e obtain f where ss: "sd_sessions d' = map f (sd_sessions d)"
    and f: "\<And>s. s \<in> set (sd_sessions d) \<Longrightarrow> if se_id s \<in> E then \<exists>at r. r \<in> set SESSION_REVOKED_REASONS \<and> f s = end_as at r s else f s = s"
    and E: "E \<subseteq> {se_id s |s. s \<in> set (sd_sessions d) \<and> unrevoked s}"
    unfolding ends_to_def by blast
  from s'(1) ss obtain s0 where s0: "s0 \<in> set (sd_sessions d)" "s' = f s0" by auto
  have "se_id s0 = se_id s" using f[OF s0(1)] s0(2) s'(2) by (auto split: if_splits)
  then have eq: "s0 = s" using unique_on_same[OF u s0(1) s(1)] by simp
  have "se_id s \<notin> E"
  proof
    assume "se_id s \<in> E"
    then obtain x where x: "x \<in> set (sd_sessions d)" "unrevoked x" "se_id x = se_id s" using E by auto
    from unique_on_same[OF u x(1) s(1) x(3)] x(2) s(2) show False by simp
  qed
  then show "s' = s" using f[OF s(1)] s0(2) eq by simp
qed

lemmas ending_ops = session_revoke_ends endSelected_ends revokeLapsedBatch_ends


lemma keeps_ended_same: "unique_on se_id (sd_sessions d) \<Longrightarrow> sd_sessions d' = sd_sessions d \<Longrightarrow> keeps_ended d d'"
  unfolding keeps_ended_def by (metis unique_on_same)

lemma live_in_mono: "live_in d i \<Longrightarrow> (\<And>s. s \<in> set (sd_sessions d) \<Longrightarrow> unrevoked s \<Longrightarrow> \<exists>s'. s' \<in> set (sd_sessions d') \<and> se_id s' = se_id s \<and> unrevoked s') \<Longrightarrow> live_in d' i"
  unfolding live_in_def by metis

lemma served_in_mono:
  assumes "served_in d r" and "set (sd_clients d) \<subseteq> set (sd_clients d')"
    and "\<And>s. s \<in> set (sd_sessions d) \<Longrightarrow> unrevoked s \<Longrightarrow> \<exists>s'. s' \<in> set (sd_sessions d') \<and> se_id s' = se_id s \<and> se_realmId s' = se_realmId s \<and> unrevoked s'"
  shows "served_in d' r"
proof -
  obtain s where s: "s \<in> set (sd_sessions d)" "se_id s = sc_sessionId r" "unrevoked s"
    and c: "list_ex (\<lambda>c. oc_id c = sc_oauthClientId r \<and> oc_realmId c = se_realmId s) (sd_clients d)"
    using assms(1) unfolding served_in_def by metis
  obtain s' where s': "s' \<in> set (sd_sessions d')" "se_id s' = se_id s" "se_realmId s' = se_realmId s" "unrevoked s'" using assms(3)[OF s(1,3)] by metis
  have "list_ex (\<lambda>c. oc_id c = sc_oauthClientId r \<and> oc_realmId c = se_realmId s') (sd_clients d')" using c assms(2) s'(3) by (auto simp: list_ex_iff)
  then show ?thesis unfolding served_in_def using s s' by (intro exI[of _ s']) simp
qed

text \<open>Rows of live sessions that stay live under their id and realm keep the registry and the codes in order.\<close>

lemma sessions_ok_rows:
  assumes ok: "sessions_ok ids d" and u: "unique_on se_id (sd_sessions d')" "se_id ` set (sd_sessions d') \<subseteq> ids'"
    and pair: "\<And>s. s \<in> set (sd_sessions d') \<Longrightarrow> ended_pair s"
    and reg: "set (sd_registry d') \<subseteq> set (sd_registry d)" "unique_on (\<lambda>r. (sc_sessionId r, sc_oauthClientId r)) (sd_registry d')"
    and cs: "set (sd_clients d) \<subseteq> set (sd_clients d')"
    and codes: "\<And>c. c \<in> set (sd_codes d') \<Longrightarrow> \<not> cd_used c \<Longrightarrow> c \<in> set (sd_codes d)"
    and live: "\<And>s. s \<in> set (sd_sessions d) \<Longrightarrow> unrevoked s \<Longrightarrow> \<exists>s'. s' \<in> set (sd_sessions d') \<and> se_id s' = se_id s \<and> se_realmId s' = se_realmId s \<and> unrevoked s'"
  shows "sessions_ok ids' d'"
proof -
  have "served_in d' r" if "r \<in> set (sd_registry d')" for r
  proof (rule served_in_mono[OF _ cs live])
    show "served_in d r" using ok reg(1) that unfolding sessions_ok_def by blast
  qed
  moreover have "live_in d' i" if c: "c \<in> set (sd_codes d')" "cd_sessionId c = Some i" "\<not> cd_used c" for c i
  proof (rule live_in_mono)
    show "live_in d i" using ok codes[OF c(1,3)] c(2,3) unfolding sessions_ok_def by metis
  qed (use live in metis)
  ultimately show ?thesis unfolding sessions_ok_def using u pair reg(2) by simp
qed

lemma session_create_ok:
  assumes ok: "sessions_ok ids d" and n: "se_id s \<notin> ids"
  shows "sessions_ok (insert (se_id s) ids) (snd (session_create s d))"
proof (rule sessions_ok_rows[OF ok])
  show "unique_on se_id (sd_sessions (snd (session_create s d)))"
    using ok n unfolding sessions_ok_def by (auto simp: session_create_def Let_def intro!: unique_on_append)
  show "ended_pair x" if "x \<in> set (sd_sessions (snd (session_create s d)))" for x
    using ok that by (auto simp: session_create_def Let_def sessions_ok_def ended_pair_def)
qed (use ok in \<open>auto simp: session_create_def Let_def sessions_ok_def\<close>)

lemma updateLastSeen_rows:
  "\<exists>f. sd_sessions (snd (updateLastSeen now realmId i iv d)) = map f (sd_sessions d)
     \<and> (\<forall>s. se_id (f s) = se_id s \<and> se_realmId (f s) = se_realmId s \<and> se_revokedAt (f s) = se_revokedAt s \<and> se_revokedReason (f s) = se_revokedReason s
        \<and> (\<not> unrevoked s \<longrightarrow> f s = s) \<and> se_createdAt (f s) = se_createdAt s \<and> (0 \<le> iv \<longrightarrow> se_lastSeenAt s \<le> se_lastSeenAt (f s)))"
  by (rule exI[of _ "\<lambda>s. if se_realmId s = realmId \<and> se_id s = i \<and> unrevoked s \<and> se_expiresAt s > now \<and> se_lastSeenAt s \<le> now - iv
      then s\<lparr>se_lastSeenAt := now\<rparr> else s"]) (simp add: updateLastSeen_def update_where_def Let_def)

lemma updateLastSeen_tables [simp]:
  "sd_registry (snd (updateLastSeen now realmId i iv d)) = sd_registry d" "sd_codes (snd (updateLastSeen now realmId i iv d)) = sd_codes d"
  "sd_clients (snd (updateLastSeen now realmId i iv d)) = sd_clients d" "sd_realms (snd (updateLastSeen now realmId i iv d)) = sd_realms d"
  by (simp_all add: updateLastSeen_def update_where_def Let_def)

lemma updateLastSeen_ok:
  assumes ok: "sessions_ok ids d"
  shows "sessions_ok ids (snd (updateLastSeen now realmId i iv d))" "keeps_ended d (snd (updateLastSeen now realmId i iv d))"
proof -
  let ?d = "snd (updateLastSeen now realmId i iv d)"
  obtain f where ss: "sd_sessions ?d = map f (sd_sessions d)"
    and f: "\<And>s. se_id (f s) = se_id s" "\<And>s. se_realmId (f s) = se_realmId s" "\<And>s. se_revokedAt (f s) = se_revokedAt s"
      "\<And>s. se_revokedReason (f s) = se_revokedReason s" "\<And>s. \<not> unrevoked s \<Longrightarrow> f s = s"
    using updateLastSeen_rows[of now realmId i iv d] by metis
  have u: "unique_on se_id (sd_sessions d)" using ok by (simp add: sessions_ok_def)
  have ids: "map se_id (sd_sessions ?d) = map se_id (sd_sessions d)" by (simp add: ss f(1))
  show "sessions_ok ids ?d"
  proof (rule sessions_ok_rows[OF ok])
    show "unique_on se_id (sd_sessions ?d)" "se_id ` set (sd_sessions ?d) \<subseteq> ids"
      using ok same_ids[OF ids] by (simp_all add: sessions_ok_def)
    show "ended_pair s" if "s \<in> set (sd_sessions ?d)" for s
      using that ok f(3,4) by (auto simp: ss sessions_ok_def ended_pair_def)
    show "\<exists>s'. s' \<in> set (sd_sessions ?d) \<and> se_id s' = se_id s \<and> se_realmId s' = se_realmId s \<and> unrevoked s'"
      if "s \<in> set (sd_sessions d)" "unrevoked s" for s
      using that f(1-3) by (intro exI[of _ "f s"]) (simp add: ss)
  qed (use ok in \<open>simp_all add: sessions_ok_def\<close>)
  show "keeps_ended d ?d" unfolding keeps_ended_def
  proof (intro allI impI)
    fix s s' assume s: "s \<in> set (sd_sessions d)" "\<not> unrevoked s" and s': "s' \<in> set (sd_sessions ?d)" "se_id s' = se_id s"
    then obtain s0 where s0: "s0 \<in> set (sd_sessions d)" "s' = f s0" by (auto simp: ss)
    then have "s0 = s" using unique_on_same[OF u s0(1) s(1)] s'(2) f(1) by simp
    then show "s' = s" using f(5)[OF s(2)] s0(2) by simp
  qed
qed


lemma session_create_keeps_ended:
  assumes ok: "sessions_ok ids d" and n: "se_id s \<notin> ids"
  shows "keeps_ended d (snd (session_create s d))"
  unfolding keeps_ended_def
proof (intro allI impI)
  fix x x' assume x: "x \<in> set (sd_sessions d)" and x': "x' \<in> set (sd_sessions (snd (session_create s d)))" "se_id x' = se_id x"
  have u: "unique_on se_id (sd_sessions d)" and "se_id x \<noteq> se_id s" using ok n x by (auto simp: sessions_ok_def)
  then have "x' \<in> set (sd_sessions d)" using x' by (auto simp: session_create_def Let_def)
  then show "x' = x" using unique_on_same[OF u _ x] x'(2) by blast
qed

lemma deleteEnded_state:
  "\<exists>D. sd_sessions (snd (deleteEnded before after limit d)) = filter (\<lambda>s. \<not> (se_id s \<in> D \<and> ended_before before s)) (sd_sessions d)
     \<and> sd_registry (snd (deleteEnded before after limit d)) =
         filter (\<lambda>r. sc_sessionId r \<notin> se_id ` {s \<in> set (sd_sessions d). se_id s \<in> D \<and> ended_before before s}) (sd_registry d)
     \<and> sd_codes (snd (deleteEnded before after limit d)) = sd_codes d \<and> sd_clients (snd (deleteEnded before after limit d)) = sd_clients d"
  by (rule exI[of _ "set (select_ids (\<lambda>s. after_id after (se_id s) \<and> ended_before before s) (Some limit) (sd_sessions d))"])
     (simp add: deleteEnded_def delete_where_def Let_def)

lemma deleteEnded_ok:
  assumes ok: "sessions_ok ids d"
  shows "sessions_ok ids (snd (deleteEnded before after limit d))" "keeps_ended d (snd (deleteEnded before after limit d))"
proof -
  let ?d = "snd (deleteEnded before after limit d)"
  from deleteEnded_state[of before after limit d] obtain D where ss: "sd_sessions ?d = filter (\<lambda>s. \<not> (se_id s \<in> D \<and> ended_before before s)) (sd_sessions d)"
    and reg: "sd_registry ?d = filter (\<lambda>r. sc_sessionId r \<notin> se_id ` {s \<in> set (sd_sessions d). se_id s \<in> D \<and> ended_before before s}) (sd_registry d)"
    and rest: "sd_codes ?d = sd_codes d" "sd_clients ?d = sd_clients d"
    by (elim exE conjE)
  have u: "unique_on se_id (sd_sessions d)" using ok by (simp add: sessions_ok_def)
  show "sessions_ok ids ?d"
  proof (rule sessions_ok_rows[OF ok])
    show "unique_on se_id (sd_sessions ?d)"
      using unique_on_delete[OF u, of "\<lambda>s. se_id s \<in> D \<and> ended_before before s"] by (simp add: ss delete_where_def)
    show "se_id ` set (sd_sessions ?d) \<subseteq> ids" using ok by (auto simp: ss sessions_ok_def)
    show "ended_pair s" if "s \<in> set (sd_sessions ?d)" for s using ok that by (simp add: ss sessions_ok_def)
    show "set (sd_registry ?d) \<subseteq> set (sd_registry d)" by (simp add: reg)
    show "unique_on (\<lambda>r. (sc_sessionId r, sc_oauthClientId r)) (sd_registry ?d)"
      using ok unfolding reg sessions_ok_def unique_on_def by (simp add: distinct_map_filter)
    show "\<exists>s'. s' \<in> set (sd_sessions ?d) \<and> se_id s' = se_id s \<and> se_realmId s' = se_realmId s \<and> unrevoked s'"
      if "s \<in> set (sd_sessions d)" "unrevoked s" for s
      using that by (intro exI[of _ s]) (simp add: ss ended_before_def)
  qed (simp_all add: rest)
  show "keeps_ended d ?d" unfolding keeps_ended_def
  proof (intro allI impI)
    fix s s' assume s: "s \<in> set (sd_sessions d)" and s': "s' \<in> set (sd_sessions ?d)" "se_id s' = se_id s"
    then have "s' \<in> set (sd_sessions d)" by (simp add: ss)
    then show "s' = s" using unique_on_same[OF u _ s s'(2)] by simp
  qed
qed

lemma recordClient_state:
  assumes "recordClient now dbNow realmId sid client d = (b, d')"
  shows "sd_sessions d' = sd_sessions d" "sd_codes d' = sd_codes d" "sd_clients d' = sd_clients d" "sd_realms d' = sd_realms d"
    "\<not> b \<Longrightarrow> d' = d"
    "b \<Longrightarrow> \<exists>s. s \<in> set (sd_sessions d) \<and> se_realmId s = realmId \<and> se_id s = sid \<and> unrevoked s \<and> se_expiresAt s > now
        \<and> list_ex (\<lambda>c. oc_id c = client \<and> oc_realmId c = se_realmId s) (sd_clients d)"
  using assms by (auto simp: recordClient_def select_where_def limit1_def filter_eq_Cons_iff split: option.splits list.splits if_splits)

lemma recordClient_registry:
  assumes "recordClient now dbNow realmId sid client d = (True, d')"
  shows "sd_registry d' = sd_registry d \<or> (sd_registry d' = sd_registry d @ [\<lparr>sc_sessionId = sid, sc_oauthClientId = client, sc_firstSeenAt = dbNow\<rparr>]
     \<and> (sid, client) \<notin> (\<lambda>r. (sc_sessionId r, sc_oauthClientId r)) ` set (sd_registry d))"
  using assms
  by (auto simp: recordClient_def select_where_def limit1_def filter_eq_Cons_iff list_ex_iff split: option.splits list.splits if_splits)

lemma recordClient_ok:
  assumes ok: "sessions_ok ids d" and r: "recordClient now dbNow realmId sid client d = (b, d')"
  shows "sessions_ok ids d'"
proof (cases b)
  case True
  note st = recordClient_state[OF r]
  obtain s where s: "s \<in> set (sd_sessions d)" "se_id s = sid" "unrevoked s"
    "list_ex (\<lambda>c. oc_id c = client \<and> oc_realmId c = se_realmId s) (sd_clients d)" using st(6)[OF True] by metis
  have mono: "served_in d' x" if "served_in d x" for x using that unfolding served_in_def st by simp
  have new: "served_in d' \<lparr>sc_sessionId = sid, sc_oauthClientId = client, sc_firstSeenAt = dbNow\<rparr>"
    unfolding served_in_def st using s by (intro exI[of _ s]) simp
  have old: "served_in d' x" if "x \<in> set (sd_registry d)" for x using mono ok that by (simp add: sessions_ok_def)
  have u: "unique_on (\<lambda>r. (sc_sessionId r, sc_oauthClientId r)) (sd_registry d)" using ok by (simp add: sessions_ok_def)
  note reg = recordClient_registry[OF r[unfolded True[THEN eqTrueI]]]
  have "served_in d' x" if x: "x \<in> set (sd_registry d')" for x
  proof (cases "x \<in> set (sd_registry d)")
    case False
    then have "x = \<lparr>sc_sessionId = sid, sc_oauthClientId = client, sc_firstSeenAt = dbNow\<rparr>" using reg x by auto
    then show ?thesis using new by simp
  qed (rule old)
  moreover have "unique_on (\<lambda>r. (sc_sessionId r, sc_oauthClientId r)) (sd_registry d')"
    using reg u unique_on_append[OF u, of "\<lparr>sc_sessionId = sid, sc_oauthClientId = client, sc_firstSeenAt = dbNow\<rparr>"] by auto
  moreover have "live_in d' i \<longleftrightarrow> live_in d i" for i by (simp add: live_in_def st)
  ultimately show ?thesis using ok by (simp add: sessions_ok_def st)
next
  case False
  then show ?thesis using ok recordClient_state(5)[OF r] by simp
qed

lemma mint_attempts_row:
  assumes "mint_attempts draw row ns t = Inr (code, t')"
  shows "t' = t @ [row code] \<and> code \<notin> cd_code ` set t"
  using assms by (induction ns) (auto simp: code_create_def list_ex_iff split: if_splits)


lemma mintIn_cases:
  assumes "mintIn now dbNow draw rowId g d = (r, d')"
  obtains (unchanged) "d' = d"
  | (minted) code d1 where "d' = d1\<lparr>sd_codes := sd_codes d1 @ [code_row rowId code (now + AUTHORIZATION_CODE_TTL_MS) dbNow g]\<rparr>" "r = Inr (Minted code)"
      "(cg_session g = None \<and> d1 = d) \<or> (\<exists>realmId sid. cg_session g = Some (realmId, sid) \<and> recordClient now dbNow realmId sid (cg_oauthClientId g) d = (True, d1))"
proof -
  obtain live d1 where l: "(case cg_session g of None \<Rightarrow> (True, d) | Some (realmId, sid) \<Rightarrow> recordClient now dbNow realmId sid (cg_oauthClientId g) d) = (live, d1)"
    by fastforce
  let ?m = "mint_attempts draw (\<lambda>code. code_row rowId code (now + AUTHORIZATION_CODE_TTL_MS) dbNow g) [1..<Suc MAX_MINT_ATTEMPTS] (sd_codes d1)"
  have e: "mintIn now dbNow draw rowId g d = (if \<not> live then (Inr SessionEnded, d) else case ?m of
      Inl e \<Rightarrow> (Inl e, d) | Inr (code, codes) \<Rightarrow> (Inr (Minted code), d1\<lparr>sd_codes := codes\<rparr>))"
    unfolding mintIn_def l Let_def prod.case ..
  show thesis
  proof (cases "live \<and> (\<exists>p. ?m = Inr p)")
    case True
    then obtain code t where m: "?m = Inr (code, t)" by force
    have "d' = d1\<lparr>sd_codes := t\<rparr>" "r = Inr (Minted code)" using assms True unfolding e m by simp_all
    moreover have "t = sd_codes d1 @ [code_row rowId code (now + AUTHORIZATION_CODE_TTL_MS) dbNow g]" using mint_attempts_row[OF m] by simp
    moreover have "(cg_session g = None \<and> d1 = d) \<or> (\<exists>realmId sid. cg_session g = Some (realmId, sid) \<and> recordClient now dbNow realmId sid (cg_oauthClientId g) d = (True, d1))"
      using l True by (cases "cg_session g") auto
    ultimately show thesis using minted[of d1 code] by simp
  next
    case False
    then have "d' = d" using assms unfolding e by (cases ?m) (auto split: if_splits)
    then show thesis by (rule unchanged)
  qed
qed

lemma code_row_simps [simp]: "cd_sessionId (code_row i code e now g) = map_option snd (cg_session g)" "\<not> cd_used (code_row i code e now g)"
  "cd_codeChallenge (code_row i code e now g) = cg_codeChallenge g"
  by (simp_all add: code_row_def)

lemma mint_ok:
  assumes ok: "sessions_ok ids d"
  shows "sessions_ok ids (snd (mintAuthorizationCode now dbNow draw rowId g d))"
    "sd_sessions (snd (mintAuthorizationCode now dbNow draw rowId g d)) = sd_sessions d"
    "c \<in> set (sd_codes (snd (mintAuthorizationCode now dbNow draw rowId g d))) \<Longrightarrow> c \<in> set (sd_codes d) \<or> isMintableCodeChallenge (cd_codeChallenge c) ''S256''"
proof -
  obtain r d' where e: "mintIn now dbNow draw rowId g d = (r, d')" by fastforce
  have mint: "isMintableCodeChallenge ch m \<Longrightarrow> isMintableCodeChallenge ch ''S256''" for ch m by (simp add: isMintableCodeChallenge_def)
  have "sessions_ok ids d' \<and> sd_sessions d' = sd_sessions d \<and> (\<forall>c. c \<in> set (sd_codes d') \<longrightarrow> c \<in> set (sd_codes d) \<or> cd_codeChallenge c = cg_codeChallenge g)"
    using e
  proof (cases rule: mintIn_cases)
    case unchanged
    then show ?thesis using ok by simp
  next
    case (minted code d1)
    have d1: "sessions_ok ids d1 \<and> sd_sessions d1 = sd_sessions d \<and> sd_codes d1 = sd_codes d
        \<and> (\<forall>i. map_option snd (cg_session g) = Some i \<longrightarrow> live_in d1 i)"
      using minted(3)
    proof
      assume "cg_session g = None \<and> d1 = d"
      then show ?thesis using ok by simp
    next
      assume "\<exists>realmId sid. cg_session g = Some (realmId, sid) \<and> recordClient now dbNow realmId sid (cg_oauthClientId g) d = (True, d1)"
      then obtain realmId sid where s: "cg_session g = Some (realmId, sid)" and rc: "recordClient now dbNow realmId sid (cg_oauthClientId g) d = (True, d1)"
        by (elim exE conjE)
      note st = recordClient_state[OF rc]
      have "live_in d1 sid" using st(6)[OF TrueI] unfolding live_in_def st(1) by metis
      then show ?thesis using recordClient_ok[OF ok rc] st(1,2) s by simp
    qed
    have ok1: "sessions_ok ids d1" and l: "\<And>i. map_option snd (cg_session g) = Some i \<Longrightarrow> live_in d1 i" using d1 by simp_all
    have same: "live_in d' i = live_in d1 i" "served_in d' x = served_in d1 x" for i x by (simp_all add: minted(1) live_in_def served_in_def)
    have "sessions_ok ids d'" using ok1 l unfolding sessions_ok_def same by (auto simp: minted(1))
    then show ?thesis using d1 by (auto simp: minted(1))
  qed
  then show "sessions_ok ids (snd (mintAuthorizationCode now dbNow draw rowId g d))"
    "sd_sessions (snd (mintAuthorizationCode now dbNow draw rowId g d)) = sd_sessions d"
    "c \<in> set (sd_codes (snd (mintAuthorizationCode now dbNow draw rowId g d))) \<Longrightarrow> c \<in> set (sd_codes d) \<or> isMintableCodeChallenge (cd_codeChallenge c) ''S256''"
    using e ok mint by (cases "isMintableCodeChallenge (cg_codeChallenge g) (cg_codeChallengeMethod g)"; auto simp: mintAuthorizationCode_def)+
qed

lemma ends_to_codes: "ends_to E d d' \<Longrightarrow> c \<in> set (sd_codes d') \<Longrightarrow> \<not> cd_used c \<Longrightarrow> c \<in> set (sd_codes d)"
  by (simp add: ends_to_def)

lemma ends_to_ids: "ends_to E d d' \<Longrightarrow> s \<in> set (sd_sessions d') \<Longrightarrow> se_id s \<in> se_id ` set (sd_sessions d)"
proof -
  assume e: "ends_to E d d'" and s: "s \<in> set (sd_sessions d')"
  from e obtain f where ss: "sd_sessions d' = map f (sd_sessions d)"
    and f: "\<And>s. s \<in> set (sd_sessions d) \<Longrightarrow> if se_id s \<in> E then \<exists>at r. r \<in> set SESSION_REVOKED_REASONS \<and> f s = end_as at r s else f s = s"
    by (auto simp: ends_to_def)
  from s ss obtain s0 where s0: "s0 \<in> set (sd_sessions d)" "s = f s0" by auto
  then have "se_id s = se_id s0" using f[OF s0(1)] by (auto split: if_splits)
  then show ?thesis using s0(1) by simp
qed

text \<open>What one step keeps.\<close>

definition step_keeps :: "string set \<Rightarrow> session_db \<Rightarrow> session_db \<Rightarrow> bool" where
  "step_keeps ids d d' \<longleftrightarrow> sessions_ok ids d' \<and> keeps_ended d d'
     \<and> (\<forall>c. c \<in> set (sd_codes d') \<longrightarrow> \<not> cd_used c \<longrightarrow> c \<in> set (sd_codes d) \<or> isMintableCodeChallenge (cd_codeChallenge c) ''S256'')"

lemma ends_to_step:
  assumes "sessions_ok ids d" and "ends_to E d d'"
  shows "step_keeps ids d d'"
  using ends_to_ok[OF assms(2,1)] ends_to_keeps_ended[OF assms(2)] ends_to_codes[OF assms(2)] assms(1)
  by (simp add: step_keeps_def sessions_ok_def)

lemma same_sessions_step:
  assumes ok: "sessions_ok ids d" and s: "sd_sessions d' = sd_sessions d" and r: "sd_registry d' = sd_registry d"
    and cs: "set (sd_clients d) \<subseteq> set (sd_clients d')" and codes: "\<And>c. c \<in> set (sd_codes d') \<Longrightarrow> \<not> cd_used c \<Longrightarrow> c \<in> set (sd_codes d)"
  shows "step_keeps ids d d'"
proof -
  have "sessions_ok ids d'" by (rule sessions_ok_rows[OF ok _ _ _ _ _ cs codes]) (use ok in \<open>auto simp: s r sessions_ok_def\<close>)
  moreover have "keeps_ended d d'" using keeps_ended_same[OF _ s] ok by (simp add: sessions_ok_def)
  ultimately show ?thesis using codes by (simp add: step_keeps_def)
qed

lemma revokeForUser_snd:
  "snd (revokeForUser at realmId u reason exceptId before d) = snd (endSelected at (\<lambda>s. se_realmId s = realmId \<and> se_userId s = u
      \<and> (case exceptId of None \<Rightarrow> True | Some i \<Rightarrow> se_id s \<noteq> i) \<and> (case before of None \<Rightarrow> True | Some t \<Rightarrow> se_createdAt s < t)) reason None d)"
  by (simp add: revokeForUser_def split: prod.split)

lemma session_step_keeps:
  assumes "session_step x y" and "sessions_ok (fst x) (snd x)"
  shows "step_keeps (fst y) (snd x) (snd y)"
  using assms
proof (induction rule: session_step.induct)
  case (session_created s ids d)
  then show ?case using session_create_ok[of ids d s] session_create_keeps_ended[of ids d s]
    by (simp add: step_keeps_def) (simp add: session_create_def Let_def)
next
  case (session_seen iv ids d now realmId i)
  then show ?case using updateLastSeen_ok[of ids d] by (simp add: step_keeps_def)
next
  case (session_revoked reason ids d at realmId i userId)
  then have u: "unique_on se_id (sd_sessions d)" by (simp add: sessions_ok_def)
  from session_revoke_ends[OF u session_revoked(1)] obtain E where "ends_to E d (snd (session_revoke at realmId i reason userId d))" by blast
  then show ?case using session_revoked(2) by (simp add: ends_to_step)
next
  case (user_revoked reason ids d at realmId u exceptId before)
  then have "unique_on se_id (sd_sessions d)" by (simp add: sessions_ok_def)
  note e = endSelected_ends[OF this user_revoked(1)]
  show ?case using ends_to_step[OF _ e] user_revoked(2) by (simp add: revokeForUser_snd)
next
  case (realm_batch reason ids d at realmId after through since limit)
  then have "unique_on se_id (sd_sessions d)" by (simp add: sessions_ok_def)
  from endSelected_ends[OF this realm_batch(1)] show ?case using realm_batch(2) by (auto simp: revokeRealmBatch_def intro: ends_to_step)
next
  case (lapsed_batch ids d now m after limit)
  then have "unique_on se_id (sd_sessions d)" by (simp add: sessions_ok_def)
  from ends_to_step[OF _ revokeLapsedBatch_ends[OF this]] lapsed_batch show ?case by simp
next
  case (sessions_purged ids d before after limit)
  then show ?case using deleteEnded_ok[of ids d] deleteEnded_state[of before after limit d] by (auto simp: step_keeps_def)
next
  case (code_minted ids d now dbNow draw rowId g)
  then show ?case using mint_ok[of ids d] keeps_ended_same by (auto simp: step_keeps_def sessions_ok_def)
qed (auto intro: same_sessions_step)


lemma session_run_ok:
  assumes "session_step\<^sup>*\<^sup>* x y" and "sessions_ok (fst x) (snd x)"
  shows "sessions_ok (fst y) (snd y)"
  using assms(1) assms(2) by (induction rule: rtranclp_induct) (use session_step_keeps in \<open>auto simp: step_keeps_def\<close>)

lemma session_run_codes:
  assumes "session_step\<^sup>*\<^sup>* x y" and "sessions_ok (fst x) (snd x)" and "sd_codes (snd x) = []"
    and "c \<in> set (sd_codes (snd y))" and "\<not> cd_used c"
  shows "isMintableCodeChallenge (cd_codeChallenge c) ''S256''"
  using assms
proof (induction arbitrary: c rule: rtranclp_induct)
  case (step y z)
  have "step_keeps (fst z) (snd y) (snd z)" by (rule session_step_keeps[OF step(2) session_run_ok[OF step(1) step(4)]])
  then show ?case using step(3)[OF step(4,5)] step(6,7) unfolding step_keeps_def by blast
qed simp

text \<open>Ids are never drawn twice, so a row that ended and was purged does not come back either.\<close>

lemma session_step_ids: "session_step x y \<Longrightarrow> fst x \<subseteq> fst y"
  by (induction rule: session_step.induct) auto

lemma session_step_new_row:
  assumes "session_step x y" and "s \<in> set (sd_sessions (snd y))" and "sessions_ok (fst x) (snd x)"
  shows "se_id s \<in> se_id ` set (sd_sessions (snd x)) \<or> se_id s \<notin> fst x"
  using assms
proof (induction rule: session_step.induct)
  case (session_created s0 ids d)
  then show ?case by (auto simp: session_create_def Let_def)
next
  case (session_seen iv ids d now realmId i)
  then show ?case using updateLastSeen_rows[of now realmId i iv d] by auto
next
  case (session_revoked reason ids d at realmId i userId)
  then have u: "unique_on se_id (sd_sessions d)" by (simp add: sessions_ok_def)
  from session_revoke_ends[OF u session_revoked(1)] obtain E where "ends_to E d (snd (session_revoke at realmId i reason userId d))" by blast
  from ends_to_ids[OF this] session_revoked(2) show ?case by simp
next
  case (user_revoked reason ids d at realmId u exceptId before)
  then have "unique_on se_id (sd_sessions d)" by (simp add: sessions_ok_def)
  note e = ends_to_ids[OF endSelected_ends[OF this user_revoked(1)]]
  show ?case using e user_revoked(2) by (simp add: revokeForUser_snd)
next
  case (realm_batch reason ids d at realmId after through since limit)
  then have "unique_on se_id (sd_sessions d)" by (simp add: sessions_ok_def)
  note e = ends_to_ids[OF endSelected_ends[OF this realm_batch(1)]]
  show ?case using e realm_batch(2) by (simp add: revokeRealmBatch_def)
next
  case (lapsed_batch ids d now m after limit)
  then have "unique_on se_id (sd_sessions d)" by (simp add: sessions_ok_def)
  note e = ends_to_ids[OF revokeLapsedBatch_ends[OF this]]
  show ?case using e lapsed_batch(1) by simp
next
  case (sessions_purged ids d before after limit)
  then show ?case using deleteEnded_state[of before after limit d] by auto
next
  case (code_minted ids d now dbNow draw rowId g)
  then show ?case using mint_ok(2)[of ids d] by auto
qed auto

text \<open>An id is ended once its row is marked, and stays so when the row is gone.\<close>

definition ended_id :: "string set \<Rightarrow> session_db \<Rightarrow> string \<Rightarrow> bool" where
  "ended_id ids d i \<longleftrightarrow> i \<in> ids \<and> \<not> live_in d i"

lemma ended_id_step:
  assumes "session_step x y" and ok: "sessions_ok (fst x) (snd x)" and e: "ended_id (fst x) (snd x) i"
  shows "ended_id (fst y) (snd y) i"
proof -
  have "\<not> live_in (snd y) i"
  proof
    assume "live_in (snd y) i"
    then obtain s where s: "s \<in> set (sd_sessions (snd y))" "se_id s = i" "unrevoked s" unfolding live_in_def by blast
    from session_step_new_row[OF assms(1) s(1) ok] s(2) e obtain s0 where s0: "s0 \<in> set (sd_sessions (snd x))" "se_id s0 = i"
      unfolding ended_id_def by auto
    have r: "\<not> unrevoked s0"
    proof
      assume "unrevoked s0"
      then have "live_in (snd x) i" unfolding live_in_def using s0 by (intro exI[of _ s0]) simp
      then show False using e by (simp add: ended_id_def)
    qed
    have "keeps_ended (snd x) (snd y)" using session_step_keeps[OF assms(1) ok] by (simp add: step_keeps_def)
    then have "s = s0" using r s0 s(1,2) by (simp add: keeps_ended_def)
    then show False using s(3) r by simp
  qed
  then show ?thesis using e session_step_ids[OF assms(1)] unfolding ended_id_def by blast
qed

lemma ended_id_run:
  assumes "session_step\<^sup>*\<^sup>* x y" and "sessions_ok (fst x) (snd x)" and "ended_id (fst x) (snd x) i"
  shows "ended_id (fst y) (snd y) i"
  using assms(1) assms(2-) by (induction rule: rtranclp_induct) (use ended_id_step session_run_ok in blast)+

lemma empty_db_ok: "empty_db d \<Longrightarrow> sessions_ok {} d"
  by (simp add: empty_db_def sessions_ok_def unique_on_def)

text \<open>
  C14. However sessions are created, used, revoked one by one, by user, by realm or for their age, purged, and
  codes minted under them, every row says when and why it ended or neither, with one of the eight
  reasons; ids are unique; the registry lists, once each, only clients of a session's own realm, and
  only for sessions that have not ended; an unspent code issued under a session names one that has not
  ended, and carries a PKCE challenge. Once a session has ended it is never live again, and no unspent
  code and no registry row names it ever after.
\<close>

theorem sessions_well_formed:
  assumes "empty_db d0" and "session_step\<^sup>*\<^sup>* ({}, d0) (ids, d)" and "session_step\<^sup>*\<^sup>* (ids, d) (ids', d')"
  shows "unique_on se_id (sd_sessions d)
    \<and> (\<forall>s. s \<in> set (sd_sessions d) \<longrightarrow> (se_revokedAt s = None \<longleftrightarrow> se_revokedReason s = None)
        \<and> (\<forall>r. se_revokedReason s = Some r \<longrightarrow> r \<in> set SESSION_REVOKED_REASONS))
    \<and> unique_on (\<lambda>r. (sc_sessionId r, sc_oauthClientId r)) (sd_registry d) \<and> (\<forall>r. r \<in> set (sd_registry d) \<longrightarrow> served_in d r)
    \<and> (\<forall>c. c \<in> set (sd_codes d) \<longrightarrow> \<not> cd_used c \<longrightarrow> isMintableCodeChallenge (cd_codeChallenge c) ''S256''
        \<and> (\<forall>i. cd_sessionId c = Some i \<longrightarrow> live_in d i))
    \<and> (\<forall>s. s \<in> set (sd_sessions d) \<longrightarrow> se_revokedAt s \<noteq> None \<longrightarrow> \<not> live_in d' (se_id s)
        \<and> (\<forall>r. r \<in> set (sd_registry d') \<longrightarrow> sc_sessionId r \<noteq> se_id s)
        \<and> (\<forall>c. c \<in> set (sd_codes d') \<longrightarrow> cd_sessionId c = Some (se_id s) \<longrightarrow> cd_used c))"
proof -
  have ok: "sessions_ok ids d" using session_run_ok[OF assms(2)] empty_db_ok[OF assms(1)] by simp
  have ok': "sessions_ok ids' d'" using session_run_ok[OF assms(3)] ok by simp
  have codes: "isMintableCodeChallenge (cd_codeChallenge c) ''S256''" if "c \<in> set (sd_codes d)" "\<not> cd_used c" for c
    using session_run_codes[OF assms(2)] empty_db_ok[OF assms(1)] assms(1) that by (simp add: empty_db_def)
  have gone: "\<not> live_in d' (se_id s)" if s: "s \<in> set (sd_sessions d)" "se_revokedAt s \<noteq> None" for s
  proof -
    have u: "unique_on se_id (sd_sessions d)" and i: "se_id s \<in> ids" using ok s(1) by (auto simp: sessions_ok_def)
    have "\<not> live_in d (se_id s)"
    proof
      assume "live_in d (se_id s)"
      then obtain x where x: "x \<in> set (sd_sessions d)" "se_id x = se_id s" "unrevoked x" unfolding live_in_def by (elim exE conjE)
      then show False using unique_on_same[OF u x(1) s(1)] s(2) by simp
    qed
    then have "ended_id ids d (se_id s)" using i by (simp add: ended_id_def)
    then show ?thesis using ended_id_run[OF assms(3), of "se_id s"] ok by (simp add: ended_id_def)
  qed
  have noreg: "sc_sessionId r \<noteq> i" if "r \<in> set (sd_registry d')" "\<not> live_in d' i" for r i
  proof -
    from ok' that(1) have "served_in d' r" by (simp add: sessions_ok_def)
    then have "live_in d' (sc_sessionId r)" unfolding served_in_def live_in_def by (elim exE conjE) (intro exI conjI)
    then show ?thesis using that(2) by auto
  qed
  have nocode: "cd_used c" if "c \<in> set (sd_codes d')" "cd_sessionId c = Some i" "\<not> live_in d' i" for c i
    using ok' that by (auto simp: sessions_ok_def)
  show ?thesis
  proof (intro conjI)
    show "\<forall>c. c \<in> set (sd_codes d) \<longrightarrow> \<not> cd_used c \<longrightarrow> isMintableCodeChallenge (cd_codeChallenge c) ''S256'' \<and> (\<forall>i. cd_sessionId c = Some i \<longrightarrow> live_in d i)"
      using ok codes by (simp add: sessions_ok_def)
    show "\<forall>s. s \<in> set (sd_sessions d) \<longrightarrow> se_revokedAt s \<noteq> None \<longrightarrow> \<not> live_in d' (se_id s)
        \<and> (\<forall>r. r \<in> set (sd_registry d') \<longrightarrow> sc_sessionId r \<noteq> se_id s)
        \<and> (\<forall>c. c \<in> set (sd_codes d') \<longrightarrow> cd_sessionId c = Some (se_id s) \<longrightarrow> cd_used c)"
      using gone noreg nocode by blast
  qed (use ok in \<open>simp_all add: sessions_ok_def ended_pair_def\<close>)
qed


definition example_session :: session where
  "example_session = \<lparr>se_id = ''s1'', se_realmId = ''r'', se_userId = ''u'', se_authTime = 1, se_amr = [''pwd''], se_recoveryCodeUsed = False,
     se_assuranceLevel = None, se_ipAddress = None, se_userAgent = None, se_expiresAt = 1000000, se_revokedAt = None, se_revokedReason = None,
     se_createdAt = 1, se_lastSeenAt = 1\<rparr>"

definition example_sessions :: session_db where
  "example_sessions = \<lparr>sd_realms = [], sd_clients = [\<lparr>oc_id = ''c'', oc_realmId = ''r'', oc_clientId = ''app'', oc_name = ''App'',
     oc_grantTypes = [], oc_scopes = [], oc_audience = None, oc_authMethod = None, oc_isAgent = None, oc_maxAgentMode = None,
     oc_redirectUris = None, oc_metadata = (\<lambda>_. None), oc_dynamicRegisteredAt = None, oc_backchannelLogoutUri = Some ''https://app/logout''\<rparr>],
     sd_sessions = [], sd_registry = [], sd_codes = [], sd_events = []\<rparr>"

definition example_grant :: code_grant where
  "example_grant = \<lparr>cg_oauthClientId = ''c'', cg_userId = ''u'', cg_redirectUri = ''https://app/cb'',
     cg_codeChallenge = replicate 43 CHR ''a'', cg_codeChallengeMethod = ''S256'', cg_scopes = [], cg_resource = [], cg_nonce = None,
     cg_authTime = None, cg_amr = None, cg_assuranceLevel = None, cg_sessionExpiresAt = None, cg_dpopJkt = None, cg_session = Some (''r'', ''s1'')\<rparr>"

definition example_minted :: session_db where
  "example_minted = snd (mintAuthorizationCode 5 5 (\<lambda>_. ''code'') ''k'' example_grant (snd (session_create example_session example_sessions)))"

definition example_ended :: session_db where
  "example_ended = snd (session_revoke 7 ''r'' ''s1'' ''sign_out'' None example_minted)"

theorem sessions_well_formed_witness:
  "map cd_sessionId (sd_codes example_ended) = [Some ''s1''] \<and> cd_used (hd (sd_codes example_ended))
   \<and> sd_events example_ended = [ClientSessionEnded ''r'' ''u'' ''app'' ''s1'' ''sign_out''] \<and> sd_registry example_ended = []"
proof -
  let ?d1 = "snd (session_create example_session example_sessions)"
  have id: "insert (se_id example_session) {} = {''s1''}" by (simp add: example_session_def)
  have 1: "session_step ({}, example_sessions) ({''s1''}, ?d1)" using session_created[of example_session "{}" example_sessions] id by simp
  have 2: "session_step ({''s1''}, ?d1) ({''s1''}, example_minted)" unfolding example_minted_def by (rule code_minted)
  have 3: "session_step ({''s1''}, example_minted) ({''s1''}, example_ended)"
    unfolding example_ended_def by (rule session_revoked) (simp add: SESSION_REVOKED_REASONS_def)
  have run: "session_step\<^sup>*\<^sup>* ({}, example_sessions) ({''s1''}, example_ended)"
    by (rule converse_rtranclp_into_rtranclp[where r=session_step, OF 1], rule converse_rtranclp_into_rtranclp[where r=session_step, OF 2],
        rule r_into_rtranclp[where r=session_step, OF 3])
  have e: "empty_db example_sessions" by (simp add: empty_db_def example_sessions_def)
  have s: "map cd_sessionId (sd_codes example_ended) = [Some ''s1'']" "sd_events example_ended = [ClientSessionEnded ''r'' ''u'' ''app'' ''s1'' ''sign_out'']"
    "sd_registry example_ended = []" "map se_id (sd_sessions example_ended) = [''s1'']" "map se_revokedAt (sd_sessions example_ended) = [Some 7]"
    by code_simp+
  obtain x where x: "sd_sessions example_ended = [x]" using s(4) by (cases "sd_sessions example_ended") auto
  note ended = sessions_well_formed[OF e run rtranclp.rtrancl_refl, THEN conjunct2, THEN conjunct2, THEN conjunct2, THEN conjunct2, THEN conjunct2,
      THEN spec, THEN mp, of x, unfolded x]
  have "hd (sd_codes example_ended) \<in> set (sd_codes example_ended)" "cd_sessionId (hd (sd_codes example_ended)) = Some ''s1''"
    using s(1) by (cases "sd_codes example_ended"; simp)+
  then have "cd_used (hd (sd_codes example_ended))" using ended s(4,5) x by simp
  then show ?thesis using s(1-3) by (intro conjI)
qed

end
