(* ===== verification/Batches.thy ===== *)
theory Batches
  imports Sessions
begin

text \<open>
  Work over a table in batches of ids: the loops of \<open>libs/server/sessions/src/lib/session-service.ts\<close>
  (\<open>revokeAllForRealm\<close>, \<open>endLapsed\<close>, \<open>purge\<close>) over the batched statements of \<open>sessions.repository.ts\<close>. Other
  requests write the table between two batches. The locale states what a batched statement promises;
  its lemma shows that the loop ends and reaches every row that was there when it began, and the
  three statements are shown to keep the promise.
\<close>

subsection \<open>The loop\<close>

text \<open>
  \<open>run k after d\<close> is the batch after id \<open>after\<close>, and \<open>env k\<close> what happens to the table between batch \<open>k\<close> and the
  next. The result lists what each batch ended. A loop that never ends is \<open>None\<close>.
\<close>

partial_function (option) sweep :: "(nat \<Rightarrow> string option \<Rightarrow> 'd \<Rightarrow> 'e id_batch \<times> 'd) \<Rightarrow> (nat \<Rightarrow> 'd \<Rightarrow> 'd) \<Rightarrow> nat \<Rightarrow> nat \<Rightarrow> string option
    \<Rightarrow> 'e list list \<Rightarrow> 'd \<Rightarrow> ('e list list \<times> 'd) option" where
  "sweep run env limit k after acc d =
     (let (b, d1) = run k after d in
      if bt_selected b = 0 then Some (acc, d1)
      else let acc' = acc @ [bt_ended b] in
        if bt_selected b < limit \<or> bt_last b = None then Some (acc', d1)
        else sweep run env limit (Suc k) (bt_last b) acc' (env k d1))"

declare sweep.simps [code]

subsection \<open>What a batched statement promises\<close>

text \<open>
  A batch takes the first \<open>limit\<close> ids after the given one that its condition picks, in order, and is over with
  them; what is over stays over, and what its condition picks stays picked until it is over.
\<close>

definition picked :: "string set \<Rightarrow> string option \<Rightarrow> nat \<Rightarrow> string list" where
  "picked C after limit = take limit (sorted_list_of_set {i \<in> C. after_id after i})"

text \<open>What other requests may do between two batches: they bring new ids into the condition from a finite set only.\<close>

definition tame :: "('d \<Rightarrow> bool) \<Rightarrow> ('d \<Rightarrow> string set) \<Rightarrow> ('d \<Rightarrow> string \<Rightarrow> bool) \<Rightarrow> string set \<Rightarrow> (nat \<Rightarrow> 'd \<Rightarrow> 'd) \<Rightarrow> bool" where
  "tame good cand over U env \<longleftrightarrow> finite U \<and> (\<forall>k d. good d \<longrightarrow> good (env k d) \<and> (cand d \<subseteq> U \<longrightarrow> cand (env k d) \<subseteq> U) \<and> (\<forall>i. over d i \<longrightarrow> over (env k d) i)
     \<and> (\<forall>i. i \<in> cand d \<longrightarrow> i \<in> cand (env k d) \<or> over (env k d) i))"

locale id_batches =
  fixes good :: "'d \<Rightarrow> bool" and cand :: "'d \<Rightarrow> string set" and over :: "'d \<Rightarrow> string \<Rightarrow> bool"
    and run :: "nat \<Rightarrow> nat \<Rightarrow> string option \<Rightarrow> 'd \<Rightarrow> 'e id_batch \<times> 'd"
  assumes cand_finite: "good d \<Longrightarrow> finite (cand d)"
    and selected: "good d \<Longrightarrow> bt_selected (fst (run limit k after d)) = length (picked (cand d) after limit)"
    and last_id: "good d \<Longrightarrow> bt_last (fst (run limit k after d)) = (if picked (cand d) after limit = [] then None else Some (last (picked (cand d) after limit)))"
    and run_good: "good d \<Longrightarrow> good (snd (run limit k after d))"
    and run_ends: "good d \<Longrightarrow> i \<in> set (picked (cand d) after limit) \<Longrightarrow> over (snd (run limit k after d)) i"
    and run_over: "good d \<Longrightarrow> over d i \<Longrightarrow> over (snd (run limit k after d)) i"
    and run_keeps: "good d \<Longrightarrow> i \<in> cand d \<Longrightarrow> i \<in> cand (snd (run limit k after d)) \<or> over (snd (run limit k after d)) i"
    and run_adds: "good d \<Longrightarrow> cand (snd (run limit k after d)) \<subseteq> cand d"
begin

lemma picked_sound:
  assumes "good d" and "i \<in> set (picked (cand d) after limit)"
  shows "i \<in> cand d" and "after_id after i"
  using assms cand_finite[OF assms(1)] by (auto simp: picked_def dest!: in_set_takeD)

lemma picked_complete:
  assumes "good d" and "length (picked (cand d) after limit) < limit" and "i \<in> cand d" and "after_id after i"
  shows "i \<in> set (picked (cand d) after limit)"
proof -
  have "length (sorted_list_of_set {i \<in> cand d. after_id after i}) < limit" using assms(2) by (auto simp: picked_def)
  then show ?thesis using assms cand_finite[OF assms(1)] by (simp add: picked_def)
qed

lemma picked_before_last:
  assumes "good d" and "picked (cand d) after limit \<noteq> []" and "i \<in> cand d" and "after_id after i"
    and "\<not> last (picked (cand d) after limit) < i"
  shows "i \<in> set (picked (cand d) after limit)"
proof (rule ccontr)
  let ?xs = "sorted_list_of_set {i \<in> cand d. after_id after i}"
  assume n: "i \<notin> set (picked (cand d) after limit)"
  have f: "finite {i \<in> cand d. after_id after i}" using cand_finite[OF assms(1)] by simp
  then have "i \<in> set ?xs" using assms(3,4) by simp
  then have "i \<in> set (take limit ?xs @ drop limit ?xs)" by simp
  then have i: "i \<in> set (drop limit ?xs)" using n unfolding picked_def set_append by blast
  have l: "last (picked (cand d) after limit) \<in> set (take limit ?xs)" using assms(2) last_in_set unfolding picked_def by blast
  have s: "sorted (take limit ?xs @ drop limit ?xs)" and dist: "distinct (take limit ?xs @ drop limit ?xs)" by (simp_all only: append_take_drop_id sorted_sorted_list_of_set distinct_sorted_list_of_set)
  have "last (picked (cand d) after limit) \<le> i" using s l i unfolding sorted_append by blast
  moreover have "last (picked (cand d) after limit) \<noteq> i" using dist l i unfolding distinct_append by blast
  ultimately have "last (picked (cand d) after limit) < i" by simp
  then show False using assms(5) by simp
qed

text \<open>The loop ends, whatever other requests do, and is over with every id its condition picked at the start.\<close>

lemma sweep_ends:
  assumes "tame good cand over U env" and "0 < limit" and "good d" and "cand d \<subseteq> U"
  shows "\<exists>res d'. sweep (run limit) env limit k after acc d = Some (res, d') \<and> good d' \<and> (\<forall>i. over d i \<longrightarrow> over d' i)
     \<and> (\<forall>i. i \<in> cand d \<longrightarrow> after_id after i \<longrightarrow> over d' i)"
  using assms(3,4)
proof (induction "card {i \<in> U. after_id after i}" arbitrary: k after acc d rule: less_induct)
  case less
  let ?p = "picked (cand d) after limit"
  obtain b d1 where r: "run limit k after d = (b, d1)" by fastforce
  note law = selected[OF less(2), of limit k after, unfolded r fst_conv] last_id[OF less(2), of limit k after, unfolded r fst_conv]
    run_good[OF less(2), of limit k after, unfolded r snd_conv] run_ends[OF less(2), of _ after limit k, unfolded r snd_conv]
    run_over[OF less(2), of _ limit k after, unfolded r snd_conv] run_keeps[OF less(2), of _ limit k after, unfolded r snd_conv]
    run_adds[OF less(2), of limit k after, unfolded r snd_conv]
  show ?case
  proof (cases "bt_selected b < limit \<or> bt_last b = None")
    case True
    then have short: "length ?p < limit" using law(1,2) assms(2) by (auto split: if_splits)
    have "over d1 i" if "i \<in> cand d" "after_id after i" for i using law(4) picked_complete[OF less(2) short that] by blast
    moreover have "\<exists>res. sweep (run limit) env limit k after acc d = Some (res, d1)" using True by (subst sweep.simps) (simp add: r Let_def)
    ultimately show ?thesis using law(3,5) by blast
  next
    case False
    then have ne: "?p \<noteq> []" and l: "bt_last b = Some (last ?p)" and s0: "bt_selected b \<noteq> 0" using law(1,2) assms(2) by (auto split: if_splits)
    have lp: "last ?p \<in> cand d" "after_id after (last ?p)" using picked_sound[OF less(2) last_in_set[OF ne]] by simp_all
    have U: "finite U" using assms(1) by (simp add: tame_def)
    let ?d2 = "env k d1"
    have good2: "good ?d2" and sub2: "cand ?d2 \<subseteq> U" and over2: "\<And>i. over d1 i \<Longrightarrow> over ?d2 i"
      and keep2: "\<And>i. i \<in> cand d1 \<Longrightarrow> i \<in> cand ?d2 \<or> over ?d2 i"
      using assms(1) law(3,7) less(3) unfolding tame_def by blast+
    have "{i \<in> U. after_id (Some (last ?p)) i} \<subset> {i \<in> U. after_id after i}"
    proof (rule psubsetI)
      show "{i \<in> U. after_id (Some (last ?p)) i} \<subseteq> {i \<in> U. after_id after i}" using lp(2) by (auto simp: after_id_def split: option.splits)
      have "last ?p \<in> {i \<in> U. after_id after i}" "last ?p \<notin> {i \<in> U. after_id (Some (last ?p)) i}" using lp less(3) by (auto simp: after_id_def)
      then show "{i \<in> U. after_id (Some (last ?p)) i} \<noteq> {i \<in> U. after_id after i}" by blast
    qed
    then have smaller: "card {i \<in> U. after_id (Some (last ?p)) i} < card {i \<in> U. after_id after i}" using U by (intro psubset_card_mono) simp_all
    from less(1)[OF smaller good2 sub2, of "Suc k" "acc @ [bt_ended b]"] obtain res d' where
      w: "sweep (run limit) env limit (Suc k) (Some (last ?p)) (acc @ [bt_ended b]) ?d2 = Some (res, d')" and g: "good d'"
      and o: "\<forall>i. over ?d2 i \<longrightarrow> over d' i" and c: "\<forall>i. i \<in> cand ?d2 \<longrightarrow> after_id (Some (last ?p)) i \<longrightarrow> over d' i" by blast
    have "sweep (run limit) env limit k after acc d = Some (res, d')" using False s0 l w by (subst sweep.simps) (simp add: r Let_def)
    moreover have "over d' i" if i: "i \<in> cand d" "after_id after i" for i
    proof (cases "last ?p < i")
      case True
      show ?thesis using law(6)[OF i(1)] over2 keep2 o c True by (auto simp: after_id_def)
    next
      case False
      have "over d1 i" by (rule law(4)[OF picked_before_last[OF less(2) ne i False]])
      then show ?thesis using over2 o by blast
    qed
    moreover have "\<forall>i. over d i \<longrightarrow> over d' i" using law(5) over2 o by blast
    ultimately show ?thesis using g by blast
  qed
qed

end


subsection \<open>The statements keep the promise\<close>

definition picked_by :: "(session_db \<Rightarrow> session \<Rightarrow> bool) \<Rightarrow> session_db \<Rightarrow> string set" where
  "picked_by Q d = {se_id s |s. s \<in> set (sd_sessions d) \<and> Q d s}"

definition ids_unique :: "session_db \<Rightarrow> bool" where
  "ids_unique d \<longleftrightarrow> unique_on se_id (sd_sessions d)"

lemma picked_by_finite: "finite (picked_by Q d)"
proof -
  have "picked_by Q d = se_id ` (set (sd_sessions d) \<inter> {s. Q d s})" by (auto simp: picked_by_def)
  then show ?thesis by simp
qed

lemma select_ids_picked:
  assumes "ids_unique d" and "\<And>s. P s \<longleftrightarrow> Q d s \<and> after_id after (se_id s)"
  shows "select_ids P (Some n) (sd_sessions d) = picked (picked_by Q d) after n"
proof -
  let ?ids = "map se_id (filter P (sd_sessions d))"
  have "set ?ids = {i \<in> picked_by Q d. after_id after i}" using assms(2) by (auto simp: picked_by_def)
  moreover have "distinct ?ids" using assms(1) unfolding ids_unique_def unique_on_def by (simp add: distinct_map_filter)
  ultimately have "sorted_list_of_set {i \<in> picked_by Q d. after_id after i} = sort ?ids"
    using sorted_list_of_set_sort_remdups[of ?ids] by (simp add: distinct_remdups_id)
  then show ?thesis by (simp add: select_ids_def select_where_def picked_def Let_def)
qed

text \<open>Rows marked ended in place.\<close>

definition marks :: "string set \<Rightarrow> session_db \<Rightarrow> session_db \<Rightarrow> bool" where
  "marks L d d' \<longleftrightarrow> sd_realms d' = sd_realms d \<and> (\<exists>f. sd_sessions d' = map f (sd_sessions d)
     \<and> (\<forall>s. s \<in> set (sd_sessions d) \<longrightarrow> (if se_id s \<in> L then \<exists>at r. f s = end_as at r s else f s = s)))"

lemma marks_ids: "marks L d d' \<Longrightarrow> map se_id (sd_sessions d') = map se_id (sd_sessions d)"
proof -
  assume "marks L d d'"
  then obtain f where ss: "sd_sessions d' = map f (sd_sessions d)"
    and f: "\<And>s. s \<in> set (sd_sessions d) \<Longrightarrow> if se_id s \<in> L then \<exists>at r. f s = end_as at r s else f s = s" by (auto simp: marks_def)
  have "se_id (f s) = se_id s" if "s \<in> set (sd_sessions d)" for s using f[OF that] by (auto split: if_splits)
  then show ?thesis by (simp add: ss)
qed

lemma marks_row:
  assumes "marks L d d'" and "s' \<in> set (sd_sessions d')"
  obtains s where "s \<in> set (sd_sessions d)" "se_id s' = se_id s" "if se_id s \<in> L then se_revokedAt s' \<noteq> None else s' = s"
proof -
  from assms(1) obtain f where ss: "sd_sessions d' = map f (sd_sessions d)"
    and f: "\<And>s. s \<in> set (sd_sessions d) \<Longrightarrow> if se_id s \<in> L then \<exists>at r. f s = end_as at r s else f s = s" by (auto simp: marks_def)
  from assms(2) ss obtain s where s: "s \<in> set (sd_sessions d)" "s' = f s" by auto
  show thesis by (rule that[OF s(1)]) (use f[OF s(1)] s(2) in \<open>auto split: if_splits\<close>)
qed

lemma marks_keeps_row: "marks L d d' \<Longrightarrow> s \<in> set (sd_sessions d) \<Longrightarrow> se_id s \<notin> L \<Longrightarrow> s \<in> set (sd_sessions d')"
  by (force simp: marks_def)

lemma marks_laws:
  assumes m: "marks L d d'" and u: "ids_unique d" and L: "L \<subseteq> picked_by Q d"
    and Q: "\<And>s. Q d' s = Q d s" and live: "\<forall>s. Q d s \<longrightarrow> unrevoked s"
  shows "ids_unique d'" and "i \<in> L \<Longrightarrow> \<not> live_in d' i" and "\<not> live_in d i \<Longrightarrow> \<not> live_in d' i"
    and "i \<in> picked_by Q d \<Longrightarrow> i \<in> picked_by Q d' \<or> \<not> live_in d' i" and "picked_by Q d' \<subseteq> picked_by Q d"
proof -
  show "ids_unique d'" using u same_ids[OF marks_ids[OF m]] by (simp add: ids_unique_def)
  show over: "\<not> live_in d' i" if "i \<in> L" for i
  proof
    assume "live_in d' i"
    then obtain s' where s': "s' \<in> set (sd_sessions d')" "se_id s' = i" "unrevoked s'" unfolding live_in_def by (elim exE conjE)
    from marks_row[OF m s'(1)] show False using s'(2,3) that by metis
  qed
  show "\<not> live_in d' i" if n: "\<not> live_in d i"
  proof
    assume "live_in d' i"
    then obtain s' where s': "s' \<in> set (sd_sessions d')" "se_id s' = i" "unrevoked s'" unfolding live_in_def by (elim exE conjE)
    obtain s where s: "s \<in> set (sd_sessions d)" "se_id s' = se_id s" "if se_id s \<in> L then se_revokedAt s' \<noteq> None else s' = s"
      by (rule marks_row[OF m s'(1)])
    then have "s' = s" using s'(3) by (simp split: if_splits)
    then have "live_in d i" unfolding live_in_def using s(1) s'(2,3) by (intro exI[of _ s]) simp
    then show False using n by simp
  qed
  show "i \<in> picked_by Q d' \<or> \<not> live_in d' i" if i: "i \<in> picked_by Q d"
  proof (cases "i \<in> L")
    case False
    from i obtain s where s: "s \<in> set (sd_sessions d)" "se_id s = i" "Q d s" by (auto simp: picked_by_def)
    then have "i \<in> picked_by Q d'" using marks_keeps_row[OF m s(1)] False Q by (auto simp: picked_by_def)
    then show ?thesis ..
  qed (use over in simp)
  show "picked_by Q d' \<subseteq> picked_by Q d"
  proof
    fix i assume "i \<in> picked_by Q d'"
    then obtain s' where s': "s' \<in> set (sd_sessions d')" "se_id s' = i" "Q d' s'" by (auto simp: picked_by_def)
    obtain s where s: "s \<in> set (sd_sessions d)" "se_id s' = se_id s" "if se_id s \<in> L then se_revokedAt s' \<noteq> None else s' = s"
      by (rule marks_row[OF m s'(1)])
    then have "s' = s" using live[rule_format, of s'] s'(3) Q by (simp split: if_splits)
    then show "i \<in> picked_by Q d" using s(1) s' Q by (auto simp: picked_by_def)
  qed
qed

lemma update_marks:
  assumes u: "ids_unique d" and L: "L \<subseteq> picked_by Q d" and P: "\<And>s. s \<in> set (sd_sessions d) \<Longrightarrow> Q d s \<Longrightarrow> P s"
    and f: "\<And>s. \<exists>at r. f s = end_as at r s"
    and up: "update_where (\<lambda>s. se_id s \<in> L \<and> P s) f (sd_sessions d) = (ended, ss)" and fin: "finishEnded at ended (d\<lparr>sd_sessions := ss\<rparr>) = (out, d')"
  shows "marks L d d'"
proof -
  have ss: "ss = map (\<lambda>s. if se_id s \<in> L \<and> P s then f s else s) (sd_sessions d)" using up by (simp add: update_where_def)
  have row: "P s" if s: "s \<in> set (sd_sessions d)" "se_id s \<in> L" for s
  proof -
    from s(2) L obtain x where x: "x \<in> set (sd_sessions d)" "se_id x = se_id s" "Q d x" by (auto simp: picked_by_def)
    have "x = s" by (rule unique_on_same[OF u[unfolded ids_unique_def] x(1) s(1) x(2)])
    then show ?thesis using P[OF x(1,3)] by simp
  qed
  have "sd_sessions d' = ss" "sd_realms d' = sd_realms d" using finishEnded_state(1,2)[OF fin] by simp_all
  then show ?thesis unfolding marks_def using row f by (intro conjI exI[of _ "\<lambda>s. if se_id s \<in> L \<and> P s then f s else s"]) (simp_all add: ss)
qed

lemma marks_nothing: "marks {} d d"
  by (auto simp: marks_def intro!: exI[of _ id])


lemma picked_sub: "set (picked (picked_by Q d) after n) \<subseteq> picked_by Q d"
  using picked_by_finite[of Q d] by (auto simp: picked_def dest!: in_set_takeD)

lemma endSelected_batch:
  assumes u: "ids_unique d" and P: "\<And>s. unrevoked s \<and> P s \<longleftrightarrow> Q d s \<and> after_id after (se_id s)"
    and live: "\<And>s. Q d s \<Longrightarrow> unrevoked s"
  shows "bt_selected (fst (endSelected at P reason (Some n) d)) = length (picked (picked_by Q d) after n)"
    and "bt_last (fst (endSelected at P reason (Some n) d)) = (if picked (picked_by Q d) after n = [] then None else Some (last (picked (picked_by Q d) after n)))"
    and "marks (set (picked (picked_by Q d) after n)) d (snd (endSelected at P reason (Some n) d))"
proof -
  let ?l = "picked (picked_by Q d) after n"
  have l: "select_ids (\<lambda>s. unrevoked s \<and> P s) (Some n) (sd_sessions d) = ?l" by (rule select_ids_picked[OF u]) (rule P)
  obtain ended ss where up: "update_where (\<lambda>s. se_id s \<in> set ?l \<and> unrevoked s) (end_as at reason) (sd_sessions d) = (ended, ss)" by fastforce
  obtain out d' where fin: "finishEnded at ended (d\<lparr>sd_sessions := ss\<rparr>) = (out, d')" by fastforce
  have e: "endSelected at P reason (Some n) d = (if ?l = [] then (\<lparr>bt_ended = [], bt_last = None, bt_selected = 0\<rparr>, d)
      else (\<lparr>bt_ended = out, bt_last = Some (last ?l), bt_selected = length ?l\<rparr>, d'))"
    unfolding endSelected_def l by (simp add: up fin Let_def)
  show "bt_selected (fst (endSelected at P reason (Some n) d)) = length ?l"
    "bt_last (fst (endSelected at P reason (Some n) d)) = (if ?l = [] then None else Some (last ?l))" unfolding e by simp_all
  have "marks (set ?l) d d'" by (rule update_marks[OF u picked_sub live _ up fin]) blast+
  then show "marks (set ?l) d (snd (endSelected at P reason (Some n) d))" unfolding e by (simp add: marks_nothing)
qed

definition realm_target :: "string \<Rightarrow> ms \<Rightarrow> ms option \<Rightarrow> session_db \<Rightarrow> session \<Rightarrow> bool" where
  "realm_target realmId through since d s \<longleftrightarrow> unrevoked s \<and> se_realmId s = realmId \<and> se_createdAt s \<le> through
     \<and> (case since of None \<Rightarrow> True | Some t \<Rightarrow> t \<le> se_lastSeenAt s)"

lemma realm_target_batch:
  "(unrevoked s \<and> se_realmId s = realmId \<and> after_id after (se_id s) \<and> se_createdAt s \<le> through \<and> (case since of None \<Rightarrow> True | Some t \<Rightarrow> t \<le> se_lastSeenAt s))
     \<longleftrightarrow> (realm_target realmId through since d s \<and> after_id after (se_id s))"
  by (auto simp: realm_target_def)

lemma realm_batch_laws:
  assumes u: "ids_unique d"
  shows "bt_selected (fst (revokeRealmBatch at realmId reason after through since n d)) = length (picked (picked_by (realm_target realmId through since) d) after n)"
    and "bt_last (fst (revokeRealmBatch at realmId reason after through since n d)) =
      (if picked (picked_by (realm_target realmId through since) d) after n = [] then None
       else Some (last (picked (picked_by (realm_target realmId through since) d) after n)))"
    and "marks (set (picked (picked_by (realm_target realmId through since) d) after n)) d (snd (revokeRealmBatch at realmId reason after through since n d))"
  unfolding revokeRealmBatch_def
  by (rule endSelected_batch[where Q="realm_target realmId through since", OF u realm_target_batch]; simp add: realm_target_def)+

text \<open>Each statement as a batch over the table and the ids drawn so far.\<close>

definition on_db :: "(session_db \<Rightarrow> 'e id_batch \<times> session_db) \<Rightarrow> string set \<times> session_db \<Rightarrow> 'e id_batch \<times> string set \<times> session_db" where
  "on_db f x = (let (b, d) = f (snd x) in (b, (fst x, d)))"

lemma on_db_simps [simp]: "fst (on_db f x) = fst (f (snd x))" "snd (on_db f x) = (fst x, snd (f (snd x)))"
  by (simp_all add: on_db_def split: prod.split)

abbreviation sessions_good :: "string set \<times> session_db \<Rightarrow> bool" where
  "sessions_good x \<equiv> sessions_ok (fst x) (snd x)"

abbreviation session_over :: "string set \<times> session_db \<Rightarrow> string \<Rightarrow> bool" where
  "session_over x i \<equiv> ended_id (fst x) (snd x) i"

lemma good_unique: "sessions_good x \<Longrightarrow> ids_unique (snd x)"
  by (simp add: sessions_ok_def ids_unique_def)

lemma good_picked_drawn: "sessions_good x \<Longrightarrow> i \<in> picked_by Q (snd x) \<Longrightarrow> i \<in> fst x"
  by (auto simp: sessions_ok_def picked_by_def)

text \<open>A statement that marks the picked rows ended, and is a step of the table, keeps the promise.\<close>

lemma marking_batches:
  fixes Q :: "session_db \<Rightarrow> session \<Rightarrow> bool"
  assumes step: "\<And>limit k after x. sessions_good x \<Longrightarrow> session_step x (fst x, snd (run limit k after (snd x)))"
    and sel: "\<And>limit k after d. ids_unique d \<Longrightarrow> bt_selected (fst (run limit k after d)) = length (picked (picked_by Q d) after limit)"
    and las: "\<And>limit k after d. ids_unique d \<Longrightarrow> bt_last (fst (run limit k after d)) =
        (if picked (picked_by Q d) after limit = [] then None else Some (last (picked (picked_by Q d) after limit)))"
    and mark: "\<And>limit k after d. ids_unique d \<Longrightarrow> marks (set (picked (picked_by Q d) after limit)) d (snd (run limit k after d))"
    and Q: "\<And>d d' s. sd_realms d' = sd_realms d \<Longrightarrow> Q d' s = Q d s" and live: "\<And>d s. Q d s \<Longrightarrow> unrevoked s"
  shows "id_batches sessions_good (\<lambda>x. picked_by Q (snd x)) session_over (\<lambda>limit k after. on_db (run limit k after))"
proof unfold_locales
  fix x :: "string set \<times> session_db" and limit k :: nat and after :: "string option" and i :: string
  let ?b = "on_db (run limit k after) x" and ?p = "picked (picked_by Q (snd x)) after limit"
  assume g: "sessions_good x"
  note u = good_unique[OF g]
  note m = mark[OF u, of after limit k]
  have lv: "\<forall>s. Q (snd x) s \<longrightarrow> unrevoked s" using live by blast
  have "sd_realms (snd (run limit k after (snd x))) = sd_realms (snd x)" using m by (simp add: marks_def)
  note laws = marks_laws[OF m u picked_sub Q[OF this] lv]
  note st = step[OF g, of limit k after]
  show "finite (picked_by Q (snd x))" by (rule picked_by_finite)
  show "bt_selected (fst ?b) = length ?p" using sel[OF u] by simp
  show "bt_last (fst ?b) = (if ?p = [] then None else Some (last ?p))" using las[OF u] by simp
  show "sessions_good (snd ?b)" using session_step_keeps[OF st g] by (simp add: step_keeps_def)
  show "session_over (snd ?b) i" if "i \<in> set ?p"
    using laws(2)[OF that] good_picked_drawn[OF g subsetD[OF picked_sub that]] by (simp add: ended_id_def)
  show "session_over x i \<Longrightarrow> session_over (snd ?b) i" using ended_id_step[OF st g] by simp
  show "i \<in> picked_by Q (snd (snd ?b)) \<or> session_over (snd ?b) i" if "i \<in> picked_by Q (snd x)"
    using laws(4)[OF that] good_picked_drawn[OF g that] by (auto simp: ended_id_def)
  show "picked_by Q (snd (snd ?b)) \<subseteq> picked_by Q (snd x)" using laws(5) by simp
qed

lemma realm_batches:
  assumes "reason \<in> set SESSION_REVOKED_REASONS"
  shows "id_batches sessions_good (\<lambda>x. picked_by (realm_target realmId through since) (snd x)) session_over
     (\<lambda>limit k after. on_db (revokeRealmBatch (clock k) realmId reason after through since limit))"
proof (rule marking_batches)
  show "session_step x (fst x, snd (revokeRealmBatch (clock k) realmId reason after through since limit (snd x)))" for x limit k after
    using realm_batch[OF assms, of "fst x" "snd x"] by simp
qed (simp_all add: realm_batch_laws realm_target_def)

definition lapsed_target :: "ms \<Rightarrow> ms \<Rightarrow> session_db \<Rightarrow> session \<Rightarrow> bool" where
  "lapsed_target m now d s \<longleftrightarrow> unrevoked s \<and> lapsed_in m now d s"

lemma lapsed_batch_laws:
  assumes u: "ids_unique d"
  shows "bt_selected (fst (revokeLapsedBatch now m after n d)) = length (picked (picked_by (lapsed_target m now) d) after n)"
    and "bt_last (fst (revokeLapsedBatch now m after n d)) =
      (if picked (picked_by (lapsed_target m now) d) after n = [] then None else Some (last (picked (picked_by (lapsed_target m now) d) after n)))"
    and "marks (set (picked (picked_by (lapsed_target m now) d) after n)) d (snd (revokeLapsedBatch now m after n d))"
proof -
  let ?Q = "lapsed_target m now"
  let ?l = "picked (picked_by ?Q d) after n"
  have l: "select_ids (\<lambda>s. (unrevoked s \<and> lapsed_in m now d s) \<and> after_id after (se_id s)) (Some n) (sd_sessions d) = ?l"
    by (rule select_ids_picked[OF u]) (simp add: lapsed_target_def)
  obtain ended ss where up: "update_where (\<lambda>s. se_id s \<in> set ?l \<and> unrevoked s \<and> lapsed_in m now d s) (end_lapsed m now d) (sd_sessions d) = (ended, ss)" by fastforce
  obtain out d' where fin: "finishEnded now ended (d\<lparr>sd_sessions := ss\<rparr>) = (out, d')" by fastforce
  have e: "revokeLapsedBatch now m after n d = (if ?l = [] then (\<lparr>bt_ended = [], bt_last = None, bt_selected = 0\<rparr>, d)
      else (\<lparr>bt_ended = out, bt_last = Some (last ?l), bt_selected = length ?l\<rparr>, d'))"
    unfolding revokeLapsedBatch_def Let_def l by (simp add: up fin)
  show "bt_selected (fst (revokeLapsedBatch now m after n d)) = length ?l"
    "bt_last (fst (revokeLapsedBatch now m after n d)) = (if ?l = [] then None else Some (last ?l))" unfolding e by simp_all
  have "marks (set ?l) d d'" by (rule update_marks[OF u picked_sub _ _ up fin]) (auto simp: lapsed_target_def end_lapsed_def)
  then show "marks (set ?l) d (snd (revokeLapsedBatch now m after n d))" unfolding e by (simp add: marks_nothing)
qed

interpretation lapsed_batches: id_batches sessions_good "\<lambda>x. picked_by (lapsed_target m now) (snd x)" session_over
    "\<lambda>limit k after. on_db (revokeLapsedBatch now m after limit)"
  for m now
proof (rule marking_batches)
  show "session_step x (fst x, snd (revokeLapsedBatch now m after limit (snd x)))" for x limit after
    using lapsed_batch[of "fst x" "snd x"] by simp
qed (simp_all add: lapsed_batch_laws lapsed_target_def lapsed_in_def realm_by_id_def)

definition purge_target :: "ms \<Rightarrow> session_db \<Rightarrow> session \<Rightarrow> bool" where
  "purge_target before d s \<longleftrightarrow> ended_before before s"

lemma purge_batch_laws:
  assumes u: "ids_unique d"
  shows "bt_selected (fst (deleteEnded before after n d)) = length (picked (picked_by (purge_target before) d) after n)"
    and "bt_last (fst (deleteEnded before after n d)) =
      (if picked (picked_by (purge_target before) d) after n = [] then None else Some (last (picked (picked_by (purge_target before) d) after n)))"
    and "sd_sessions (snd (deleteEnded before after n d)) =
      filter (\<lambda>s. \<not> (se_id s \<in> set (picked (picked_by (purge_target before) d) after n) \<and> ended_before before s)) (sd_sessions d)"
proof -
  have l: "select_ids (\<lambda>s. after_id after (se_id s) \<and> ended_before before s) (Some n) (sd_sessions d) = picked (picked_by (purge_target before) d) after n"
    by (rule select_ids_picked[OF u]) (auto simp: purge_target_def)
  show "bt_selected (fst (deleteEnded before after n d)) = length (picked (picked_by (purge_target before) d) after n)"
    "bt_last (fst (deleteEnded before after n d)) =
      (if picked (picked_by (purge_target before) d) after n = [] then None else Some (last (picked (picked_by (purge_target before) d) after n)))"
    "sd_sessions (snd (deleteEnded before after n d)) =
      filter (\<lambda>s. \<not> (se_id s \<in> set (picked (picked_by (purge_target before) d) after n) \<and> ended_before before s)) (sd_sessions d)"
    unfolding deleteEnded_def l Let_def delete_where_def by (simp_all split: prod.split)
qed

text \<open>The purge is over with a row once it is gone; ids are never drawn twice, so it does not come back.\<close>

definition purged_id :: "string set \<times> session_db \<Rightarrow> string \<Rightarrow> bool" where
  "purged_id x i \<longleftrightarrow> i \<in> fst x \<and> i \<notin> se_id ` set (sd_sessions (snd x))"

lemma purged_id_step: "session_step x y \<Longrightarrow> sessions_good x \<Longrightarrow> purged_id x i \<Longrightarrow> purged_id y i"
  unfolding purged_id_def using session_step_ids session_step_new_row by blast

interpretation purge_batches: id_batches sessions_good "\<lambda>x. picked_by (purge_target before) (snd x)" purged_id
    "\<lambda>limit k after. on_db (deleteEnded before after limit)"
  for before
proof unfold_locales
  fix x :: "string set \<times> session_db" and limit k :: nat and after :: "string option" and i :: string
  let ?Q = "purge_target before" and ?b = "on_db (deleteEnded before after limit) x"
  let ?p = "picked (picked_by ?Q (snd x)) after limit"
  assume g: "sessions_good x"
  note u = good_unique[OF g]
  note b = purge_batch_laws[OF u, where n=limit and before=before and after=after]
  have st: "session_step x (fst x, snd (deleteEnded before after limit (snd x)))" using sessions_purged[of "fst x" "snd x"] by simp
  have same: "s = s'" if "s \<in> set (sd_sessions (snd x))" "s' \<in> set (sd_sessions (snd x))" "se_id s = se_id s'" for s s'
    by (rule unique_on_same[OF u[unfolded ids_unique_def] that])
  show "finite (picked_by ?Q (snd x))" by (rule picked_by_finite)
  show "bt_selected (fst ?b) = length ?p" using b(1) by simp
  show "bt_last (fst ?b) = (if ?p = [] then None else Some (last ?p))" using b(2) by simp
  show "sessions_good (snd ?b)" using session_step_keeps[OF st g] by (simp add: step_keeps_def)
  show "purged_id (snd ?b) i" if i: "i \<in> set ?p"
  proof -
    from subsetD[OF picked_sub i] obtain s where s: "s \<in> set (sd_sessions (snd x))" "se_id s = i" "ended_before before s"
      by (auto simp: picked_by_def purge_target_def)
    have "i \<notin> se_id ` set (sd_sessions (snd (snd ?b)))" using i s(2,3) same[OF _ s(1)] by (auto simp: b(3))
    moreover have "i \<in> fst x" using good_picked_drawn[OF g subsetD[OF picked_sub i]] .
    ultimately show ?thesis by (simp add: purged_id_def)
  qed
  show "purged_id x i \<Longrightarrow> purged_id (snd ?b) i" using purged_id_step[OF st g] by simp
  show "i \<in> picked_by ?Q (snd (snd ?b)) \<or> purged_id (snd ?b) i" if i: "i \<in> picked_by ?Q (snd x)"
  proof (cases "i \<in> se_id ` set (sd_sessions (snd (snd ?b)))")
    case True
    from i obtain s where s: "s \<in> set (sd_sessions (snd x))" "se_id s = i" "ended_before before s" by (auto simp: picked_by_def purge_target_def)
    from True obtain s' where s': "s' \<in> set (sd_sessions (snd (snd ?b)))" "se_id s' = i" by auto
    then have "s' = s" using same[OF _ s(1)] s(2) by (simp add: b(3))
    then show ?thesis using s' s(3) by (auto simp: picked_by_def purge_target_def)
  next
    case False
    then show ?thesis using good_picked_drawn[OF g i] by (simp add: purged_id_def)
  qed
  show "picked_by ?Q (snd (snd ?b)) \<subseteq> picked_by ?Q (snd x)" by (auto simp: picked_by_def purge_target_def b(3))
qed


subsection \<open>What other requests do between two batches\<close>

definition row_persists :: "session \<Rightarrow> string set \<times> session_db \<Rightarrow> bool" where
  "row_persists s y \<longleftrightarrow> (\<exists>s'. s' \<in> set (sd_sessions (snd y)) \<and> se_id s' = se_id s \<and> se_realmId s' = se_realmId s
     \<and> se_createdAt s' = se_createdAt s \<and> se_lastSeenAt s \<le> se_lastSeenAt s' \<and> unrevoked s') \<or> session_over y (se_id s)"

lemma row_persists_same: "s \<in> set (sd_sessions (snd y)) \<Longrightarrow> unrevoked s \<Longrightarrow> row_persists s y"
  by (auto simp: row_persists_def)

lemma ends_to_row:
  assumes e: "ends_to E d d'" and s: "s \<in> set (sd_sessions d)" "unrevoked s" and i: "se_id s \<in> ids"
  shows "row_persists s (ids, d')"
proof -
  from e obtain f where ss: "sd_sessions d' = map f (sd_sessions d)"
    and f: "\<And>s. s \<in> set (sd_sessions d) \<Longrightarrow> if se_id s \<in> E then \<exists>at r. r \<in> set SESSION_REVOKED_REASONS \<and> f s = end_as at r s else f s = s"
    by (auto simp: ends_to_def)
  show ?thesis
  proof (cases "se_id s \<in> E")
    case True
    have "\<not> live_in d' (se_id s)"
    proof
      assume "live_in d' (se_id s)"
      then obtain s' where s': "s' \<in> set (sd_sessions d')" "se_id s' = se_id s" "unrevoked s'" unfolding live_in_def by (elim exE conjE)
      then obtain s0 where s0: "s0 \<in> set (sd_sessions d)" "s' = f s0" by (auto simp: ss)
      then show False using f[OF s0(1)] s'(2,3) True by (auto split: if_splits)
    qed
    then show ?thesis using i by (simp add: row_persists_def ended_id_def)
  next
    case False
    then have "s \<in> set (sd_sessions d')" using f[OF s(1)] s(1) by (force simp: ss)
    then show ?thesis using row_persists_same[of s "(ids, d')"] s(2) by simp
  qed
qed

lemma session_step_row:
  assumes "session_step x y" and "sessions_good x" and "s \<in> set (sd_sessions (snd x))" and "unrevoked s"
  shows "row_persists s y"
  using assms
proof (induction rule: session_step.induct)
  case (session_created s0 ids d)
  then show ?case using row_persists_same[of s "(insert (se_id s0) ids, snd (session_create s0 d))"] by (simp add: session_create_def Let_def)
next
  case (session_seen iv ids d now realmId i)
  from updateLastSeen_rows[of now realmId i iv d] obtain f where ss: "sd_sessions (snd (updateLastSeen now realmId i iv d)) = map f (sd_sessions d)"
    and f: "\<forall>s. se_id (f s) = se_id s \<and> se_realmId (f s) = se_realmId s \<and> se_revokedAt (f s) = se_revokedAt s \<and> se_revokedReason (f s) = se_revokedReason s
        \<and> (\<not> unrevoked s \<longrightarrow> f s = s) \<and> se_createdAt (f s) = se_createdAt s \<and> (0 \<le> iv \<longrightarrow> se_lastSeenAt s \<le> se_lastSeenAt (f s))"
    by (elim exE conjE)
  show ?case unfolding row_persists_def using f session_seen by (intro disjI1 exI[of _ "f s"]) (simp add: ss)
next
  case (session_revoked reason ids d at realmId i userId)
  then have u: "unique_on se_id (sd_sessions d)" and i: "se_id s \<in> ids" by (auto simp: sessions_ok_def)
  from session_revoke_ends[OF u session_revoked(1)] obtain E where "ends_to E d (snd (session_revoke at realmId i reason userId d))" by blast
  from ends_to_row[OF this _ _ i] session_revoked show ?case by simp
next
  case (user_revoked reason ids d at realmId u exceptId before)
  then have q: "unique_on se_id (sd_sessions d)" and i: "se_id s \<in> ids" by (auto simp: sessions_ok_def)
  from ends_to_row[OF endSelected_ends[OF q user_revoked(1)] _ _ i] user_revoked show ?case by (simp add: revokeForUser_snd)
next
  case (realm_batch reason ids d at realmId after through since limit)
  then have q: "unique_on se_id (sd_sessions d)" and i: "se_id s \<in> ids" by (auto simp: sessions_ok_def)
  from ends_to_row[OF endSelected_ends[OF q realm_batch(1)] _ _ i] realm_batch show ?case by (simp add: revokeRealmBatch_def)
next
  case (lapsed_batch ids d now m after limit)
  then have q: "unique_on se_id (sd_sessions d)" and i: "se_id s \<in> ids" by (auto simp: sessions_ok_def)
  from ends_to_row[OF revokeLapsedBatch_ends[OF q] _ _ i] lapsed_batch show ?case by simp
next
  case (sessions_purged ids d before after limit)
  from deleteEnded_state[of before after limit d] obtain D where
    ss: "sd_sessions (snd (deleteEnded before after limit d)) = filter (\<lambda>s. \<not> (se_id s \<in> D \<and> ended_before before s)) (sd_sessions d)"
    by (elim exE conjE)
  show ?case using sessions_purged row_persists_same[of s "(ids, snd (deleteEnded before after limit d))"] by (simp add: ss ended_before_def)
next
  case (code_minted ids d now dbNow draw rowId g)
  then show ?case using mint_ok(2)[of ids d] row_persists_same[of s "(ids, snd (mintAuthorizationCode now dbNow draw rowId g d))"] by simp
qed (simp_all add: row_persists_same)

lemma session_run_row:
  assumes "session_step\<^sup>*\<^sup>* x y" and "sessions_good x" and "s \<in> set (sd_sessions (snd x))" and "unrevoked s"
  shows "row_persists s y"
  using assms
proof (induction rule: rtranclp_induct)
  case base
  then show ?case by (simp add: row_persists_same)
next
  case (step y z)
  have g: "sessions_good y" by (rule session_run_ok[OF step(1,4)])
  from step(3)[OF step(4-6)] show ?case unfolding row_persists_def[of s y]
  proof
    assume "session_over y (se_id s)"
    then show ?thesis using ended_id_step[OF step(2) g] by (simp add: row_persists_def)
  next
    assume "\<exists>s'. s' \<in> set (sd_sessions (snd y)) \<and> se_id s' = se_id s \<and> se_realmId s' = se_realmId s
      \<and> se_createdAt s' = se_createdAt s \<and> se_lastSeenAt s \<le> se_lastSeenAt s' \<and> unrevoked s'"
    then obtain s' where s': "s' \<in> set (sd_sessions (snd y))" "se_id s' = se_id s" "se_realmId s' = se_realmId s"
      "se_createdAt s' = se_createdAt s" "se_lastSeenAt s \<le> se_lastSeenAt s'" "unrevoked s'" by (elim exE conjE)
    from session_step_row[OF step(2) g s'(1,6)] show ?thesis unfolding row_persists_def s'(2-4)
    proof
      assume "\<exists>s0. s0 \<in> set (sd_sessions (snd z)) \<and> se_id s0 = se_id s \<and> se_realmId s0 = se_realmId s
        \<and> se_createdAt s0 = se_createdAt s \<and> se_lastSeenAt s' \<le> se_lastSeenAt s0 \<and> unrevoked s0"
      then obtain s0 where s0: "s0 \<in> set (sd_sessions (snd z))" "se_id s0 = se_id s" "se_realmId s0 = se_realmId s"
        "se_createdAt s0 = se_createdAt s" "se_lastSeenAt s' \<le> se_lastSeenAt s0" "unrevoked s0" by (elim exE conjE)
      have "se_lastSeenAt s \<le> se_lastSeenAt s0" using s'(5) s0(5) by simp
      with s0 show "(\<exists>s0. s0 \<in> set (sd_sessions (snd z)) \<and> se_id s0 = se_id s \<and> se_realmId s0 = se_realmId s
        \<and> se_createdAt s0 = se_createdAt s \<and> se_lastSeenAt s \<le> se_lastSeenAt s0 \<and> unrevoked s0) \<or> session_over z (se_id s)"
        by (intro disjI1 exI[of _ s0] conjI)
    qed simp
  qed
qed

lemma requests_tame:
  assumes run: "\<And>k x. sessions_good x \<Longrightarrow> session_step\<^sup>*\<^sup>* x (env k x)" and U: "finite U"
    and sub: "\<And>k x. picked_by (realm_target realmId through since) (snd x) \<subseteq> U \<Longrightarrow> picked_by (realm_target realmId through since) (snd (env k x)) \<subseteq> U"
  shows "tame sessions_good (\<lambda>x. picked_by (realm_target realmId through since) (snd x)) session_over U env"
proof -
  have keep: "i \<in> picked_by (realm_target realmId through since) (snd (env k x)) \<or> session_over (env k x) i"
    if g: "sessions_good x" and i: "i \<in> picked_by (realm_target realmId through since) (snd x)" for k x i
  proof -
    from i obtain s where s: "s \<in> set (sd_sessions (snd x))" "se_id s = i" "realm_target realmId through since (snd x) s" by (auto simp: picked_by_def)
    have "unrevoked s" using s(3) by (simp add: realm_target_def)
    from session_run_row[OF run[OF g, of k] g s(1) this] show ?thesis unfolding row_persists_def s(2)
    proof
      assume "\<exists>s'. s' \<in> set (sd_sessions (snd (env k x))) \<and> se_id s' = i \<and> se_realmId s' = se_realmId s
        \<and> se_createdAt s' = se_createdAt s \<and> se_lastSeenAt s \<le> se_lastSeenAt s' \<and> unrevoked s'"
      then obtain s' where s': "s' \<in> set (sd_sessions (snd (env k x)))" "se_id s' = i" "se_realmId s' = se_realmId s"
        "se_createdAt s' = se_createdAt s" "se_lastSeenAt s \<le> se_lastSeenAt s'" "unrevoked s'" by (elim exE conjE)
      then have "realm_target realmId through since (snd (env k x)) s'" using s(3) by (auto simp: realm_target_def split: option.splits)
      then show ?thesis using s'(1,2) by (auto simp: picked_by_def)
    qed simp
  qed
  show ?thesis unfolding tame_def using U sub keep ended_id_run[OF run] session_run_ok[OF run] by simp
qed

end
