(* ===== verification/Session_Service.thy ===== *)
theory Session_Service
  imports Batches
begin

text \<open>
  The browser session service (\<open>libs/server/sessions/src/lib/\<close>: \<open>lifetimes.ts\<close>, \<open>session-service.ts\<close>,
  \<open>redis-session-cache.ts\<close>) over the sessions repository, through the store adapter of
  \<open>libs/fastify/plugins/sessions\<close>. PostgreSQL is the source of truth and Redis a cache in front of it:
  entries are served while fresh, and the end of a session leaves a tombstone over its entry. Times of
  the platform are integers; settings and realm limits are whole seconds. Every clock reading, the ids
  the database draws and Redis are arguments. Metrics, log lines and the listeners of an end are left
  out. The JSON text of an entry is kept as the entry it spells.
\<close>

subsection \<open>Lifetimes\<close>

record lifetimes =
  lt_maxLifespanSeconds :: "int option"
  lt_idleTimeoutSeconds :: "int option"

record cached_record =
  cr_id :: string
  cr_realmId :: string
  cr_userId :: string
  cr_authTime :: ms
  cr_amr :: "string list"
  cr_assuranceLevel :: "string option"
  cr_expiresAt :: ms
  cr_createdAt :: ms
  cr_lastSeenAt :: ms

record session_ends =
  en_absolute :: ms
  en_idle :: "ms option"

datatype session_verdict = VLive | VEnded | VIdle

definition sessionEnds :: "cached_record \<Rightarrow> lifetimes \<Rightarrow> int \<Rightarrow> session_ends" where
  "sessionEnds r l defaultMaxLifespanSeconds =
     \<lparr>en_absolute = min (cr_expiresAt r) (cr_createdAt r + (case lt_maxLifespanSeconds l of None \<Rightarrow> defaultMaxLifespanSeconds | Some m \<Rightarrow> m) * 1000),
      en_idle = map_option (\<lambda>i. cr_lastSeenAt r + i * 1000) (lt_idleTimeoutSeconds l)\<rparr>"

definition sessionEnd :: "session_ends \<Rightarrow> ms" where
  "sessionEnd e = (case en_idle e of None \<Rightarrow> en_absolute e | Some i \<Rightarrow> min (en_absolute e) i)"

definition sessionVerdict :: "session_ends \<Rightarrow> ms \<Rightarrow> session_verdict" where
  "sessionVerdict e now = (if now \<ge> en_absolute e then VEnded
     else case en_idle e of Some i \<Rightarrow> if now \<ge> i then VIdle else VLive | None \<Rightarrow> VLive)"

text \<open>Half the idle limit in milliseconds is whole, as the limit is whole seconds.\<close>

definition lastSeenIntervalMs :: "lifetimes \<Rightarrow> int \<Rightarrow> ms" where
  "lastSeenIntervalMs l configuredIntervalSeconds = (case lt_idleTimeoutSeconds l of
      None \<Rightarrow> configuredIntervalSeconds * 1000
    | Some i \<Rightarrow> min (configuredIntervalSeconds * 1000) (i * 1000 div 2))"

subsection \<open>Settings and checked arguments\<close>

record session_settings =
  ss_defaultMaxLifespanSeconds :: int
  ss_lastSeenIntervalSeconds :: "int option"
  ss_cacheTtlSeconds :: "int option"
  ss_cacheTimeoutMs :: "int option"

record session_service =
  sv_defaultMax :: int
  sv_interval :: int
  sv_cacheTtlMs :: ms

datatype session_error = RangeError string | UnknownSessionRealmError string

definition DEFAULT_SESSION_LAST_SEEN_INTERVAL_SECONDS :: int where "DEFAULT_SESSION_LAST_SEEN_INTERVAL_SECONDS = 60"
definition DEFAULT_SESSION_CACHE_TTL_SECONDS :: int where "DEFAULT_SESSION_CACHE_TTL_SECONDS = 60"
definition DEFAULT_SESSION_CACHE_TIMEOUT_MS :: int where "DEFAULT_SESSION_CACHE_TIMEOUT_MS = 250"
definition DEFAULT_SESSION_REVOCATION_BATCH_SIZE :: int where "DEFAULT_SESSION_REVOCATION_BATCH_SIZE = 500"
definition DEFAULT_SESSION_PURGE_BATCH_SIZE :: int where "DEFAULT_SESSION_PURGE_BATCH_SIZE = 1000"
definition SESSION_CLOCK_SKEW_ALLOWANCE_MS :: ms where "SESSION_CLOCK_SKEW_ALLOWANCE_MS = 5000"
definition MAX_SESSION_BATCH_SIZE :: int where "MAX_SESSION_BATCH_SIZE = 5000"

definition createSessionService :: "session_settings \<Rightarrow> session_error + session_service" where
  "createSessionService s =
     (let interval = (case ss_lastSeenIntervalSeconds s of None \<Rightarrow> DEFAULT_SESSION_LAST_SEEN_INTERVAL_SECONDS | Some i \<Rightarrow> i);
          ttl = (case ss_cacheTtlSeconds s of None \<Rightarrow> DEFAULT_SESSION_CACHE_TTL_SECONDS | Some i \<Rightarrow> i);
          timeout = (case ss_cacheTimeoutMs s of None \<Rightarrow> DEFAULT_SESSION_CACHE_TIMEOUT_MS | Some i \<Rightarrow> i)
      in if ss_defaultMaxLifespanSeconds s \<le> 0 then Inl (RangeError ''defaultMaxLifespanSeconds'')
         else if interval \<le> 0 then Inl (RangeError ''lastSeenIntervalSeconds'')
         else if ttl \<le> 0 then Inl (RangeError ''cacheTtlSeconds'')
         else if timeout \<le> 0 then Inl (RangeError ''cacheTimeoutMs'')
         else Inr \<lparr>sv_defaultMax = ss_defaultMaxLifespanSeconds s, sv_interval = interval, sv_cacheTtlMs = ttl * 1000\<rparr>)"

definition idOf :: "string \<Rightarrow> string option" where
  "idOf value = (let i = map to_lower value in if UUID i then Some i else None)"

datatype actor_type = ActorUser | ActorClient | ActorSystem | ActorOperatorCli

record session_actor =
  sa_type :: actor_type
  sa_id :: "string option"

definition checkedReason :: "string \<Rightarrow> session_error + string" where
  "checkedReason reason = (if reason \<in> set SESSION_REVOKED_REASONS then Inr reason else Inl (RangeError ''reason''))"

definition checkedActor :: "session_actor \<Rightarrow> session_error + session_actor" where
  "checkedActor a =
     (let valid = (if sa_type a = ActorSystem then sa_id a = None
            else case sa_id a of None \<Rightarrow> False | Some i \<Rightarrow> 0 < length i \<and> length i \<le> 255)
      in if valid then Inr a else Inl (RangeError ''actor''))"

definition checkedBatchSize :: "int option \<Rightarrow> int \<Rightarrow> session_error + nat" where
  "checkedBatchSize value fallback =
     (let size = (case value of None \<Rightarrow> fallback | Some n \<Rightarrow> n)
      in if size < 1 \<or> size > MAX_SESSION_BATCH_SIZE then Inl (RangeError ''batchSize'') else Inr (nat size))"

subsection \<open>The store adapter\<close>

definition lifetimesOf :: "realm_row \<Rightarrow> lifetimes" where
  "lifetimesOf r = \<lparr>lt_maxLifespanSeconds = rl_ssoMaxLifespan r, lt_idleTimeoutSeconds = rl_ssoIdleTimeout r\<rparr>"

definition findRealmLifetimes :: "string \<Rightarrow> session_db \<Rightarrow> lifetimes option" where
  "findRealmLifetimes realmId d = map_option lifetimesOf (realm_by_id realmId d)"

definition store_find :: "string \<Rightarrow> string \<Rightarrow> session_db \<Rightarrow> (session \<times> lifetimes) option" where
  "store_find realmId sid d = (case (session_findById realmId sid d, realm_by_id realmId d) of
      (Some s, Some r) \<Rightarrow> Some (s, lifetimesOf r)
    | _ \<Rightarrow> None)"

definition cachedRecordOf :: "session \<Rightarrow> cached_record" where
  "cachedRecordOf s = \<lparr>cr_id = se_id s, cr_realmId = se_realmId s, cr_userId = se_userId s, cr_authTime = se_authTime s, cr_amr = se_amr s,
     cr_assuranceLevel = se_assuranceLevel s, cr_expiresAt = se_expiresAt s, cr_createdAt = se_createdAt s, cr_lastSeenAt = se_lastSeenAt s\<rparr>"

subsection \<open>The cache\<close>

record live_session =
  lv_record :: cached_record
  lv_lifetimes :: lifetimes

record cached_session = live_session +
  ch_freshUntil :: ms

datatype cache_text = EntryText nat cached_session | PlainText string

definition ENTRY_VERSION :: nat where "ENTRY_VERSION = 1"

text \<open>The Redis commands of the adapter, each at a time of the Redis server.\<close>

record 's kv =
  kv_get :: "'s \<Rightarrow> ms \<Rightarrow> string \<Rightarrow> cache_text option"
  kv_setPX :: "ms \<Rightarrow> string \<Rightarrow> cache_text \<Rightarrow> ms \<Rightarrow> 's \<Rightarrow> 's"
  kv_del :: "string \<Rightarrow> 's \<Rightarrow> 's"

definition sessionCacheKey :: "string \<Rightarrow> string \<Rightarrow> string" where
  "sessionCacheKey realmId sid = ''browser-session:'' @ realmId @ '':{'' @ sid @ ''}''"

definition sessionTombstoneKey :: "string \<Rightarrow> string \<Rightarrow> string" where
  "sessionTombstoneKey realmId sid = sessionCacheKey realmId sid @ '':revoked''"

definition parseEntry :: "cache_text \<Rightarrow> cached_session option" where
  "parseEntry t = (case t of EntryText v e \<Rightarrow> if v = ENTRY_VERSION then Some e else None | PlainText _ \<Rightarrow> None)"

definition ttlOf :: "ms \<Rightarrow> ms" where
  "ttlOf ttlMs = max 1 ttlMs"

datatype cache_lookup = CacheEmpty | CacheRevoked | CacheEntry cached_session

definition cache_read :: "'s kv \<Rightarrow> ms \<Rightarrow> string \<Rightarrow> string \<Rightarrow> 's \<Rightarrow> cache_lookup" where
  "cache_read K t realmId sid s = (case kv_get K s t (sessionTombstoneKey realmId sid) of
      Some _ \<Rightarrow> CacheRevoked
    | None \<Rightarrow> (case kv_get K s t (sessionCacheKey realmId sid) of
        None \<Rightarrow> CacheEmpty
      | Some raw \<Rightarrow> (case parseEntry raw of None \<Rightarrow> CacheEmpty | Some e \<Rightarrow> CacheEntry e)))"

definition cache_write :: "'s kv \<Rightarrow> ms \<Rightarrow> cached_session \<Rightarrow> ms \<Rightarrow> 's \<Rightarrow> 's" where
  "cache_write K t e ttlMs s =
     kv_setPX K t (sessionCacheKey (cr_realmId (lv_record e)) (cr_id (lv_record e))) (EntryText ENTRY_VERSION e) (ttlOf ttlMs) s"

text \<open>A tombstone is two commands: it is set, then the entry is deleted.\<close>

definition set_tombstone :: "'s kv \<Rightarrow> ms \<Rightarrow> string \<Rightarrow> string \<Rightarrow> ms \<Rightarrow> 's \<Rightarrow> 's" where
  "set_tombstone K t realmId sid ttlMs s = kv_setPX K t (sessionTombstoneKey realmId sid) (PlainText ''1'') (ttlOf ttlMs) s"

definition markRevoked :: "'s kv \<Rightarrow> ms \<Rightarrow> string \<Rightarrow> string \<Rightarrow> ms \<Rightarrow> 's \<Rightarrow> 's" where
  "markRevoked K t realmId sid ttlMs s = kv_del K (sessionCacheKey realmId sid) (set_tombstone K t realmId sid ttlMs s)"


subsection \<open>The service\<close>

abbreviation endsOf :: "session_service \<Rightarrow> 'a live_session_scheme \<Rightarrow> session_ends" where
  "endsOf S l \<equiv> sessionEnds (lv_record l) (lv_lifetimes l) (sv_defaultMax S)"

definition verdictOf :: "session_service \<Rightarrow> 'a live_session_scheme \<Rightarrow> ms \<Rightarrow> session_verdict" where
  "verdictOf S l at = sessionVerdict (endsOf S l) at"

abbreviation intervalOf :: "session_service \<Rightarrow> 'a live_session_scheme \<Rightarrow> ms" where
  "intervalOf S l \<equiv> lastSeenIntervalMs (lv_lifetimes l) (sv_interval S)"

definition touchIsDue :: "session_service \<Rightarrow> 'a live_session_scheme \<Rightarrow> ms \<Rightarrow> bool" where
  "touchIsDue S l at \<longleftrightarrow> at - cr_lastSeenAt (lv_record l) \<ge> intervalOf S l"

text \<open>\<open>fillCache\<close>: the entry to write and for how long, if any.\<close>

definition fillEntry :: "session_service \<Rightarrow> live_session \<Rightarrow> ms \<Rightarrow> ms \<Rightarrow> (cached_session \<times> ms) option" where
  "fillEntry S l freshUntil now =
     (let until = min freshUntil (sessionEnd (endsOf S l)); ttlMs = until - now
      in if ttlMs \<le> 0 then None else Some (live_session.extend l \<lparr>ch_freshUntil = until\<rparr>, ttlMs))"

definition seenAt :: "ms \<Rightarrow> live_session \<Rightarrow> live_session" where
  "seenAt at l = l\<lparr>lv_record := (lv_record l)\<lparr>cr_lastSeenAt := at\<rparr>\<rparr>"

text \<open>\<open>get\<close> up to its round trip: what the cache's answer (none when it failed) decides.\<close>

datatype get_decision = Absent | Serve live_session | Refresh cached_session | Through bool

definition entry_usable :: "session_service \<Rightarrow> string \<Rightarrow> string \<Rightarrow> ms \<Rightarrow> cached_session \<Rightarrow> bool" where
  "entry_usable S realmId sid at e \<longleftrightarrow> cr_realmId (lv_record e) = realmId \<and> cr_id (lv_record e) = sid
     \<and> ch_freshUntil e > at \<and> ch_freshUntil e \<le> at + sv_cacheTtlMs S"

definition getDecision :: "session_service \<Rightarrow> string \<Rightarrow> string \<Rightarrow> ms \<Rightarrow> cache_lookup option \<Rightarrow> get_decision" where
  "getDecision S realmId sid at lookup =
     (if \<not> UUID realmId \<or> \<not> UUID sid then Absent
      else case lookup of
        Some CacheRevoked \<Rightarrow> Absent
      | Some (CacheEntry e) \<Rightarrow>
          if entry_usable S realmId sid at e
          then (let v = verdictOf S e at in
                if v = VEnded then Absent
                else if v = VLive \<and> \<not> touchIsDue S e at then Serve (live_session.truncate e)
                else Refresh e)
          else Through True
      | Some CacheEmpty \<Rightarrow> Through True
      | None \<Rightarrow> Through False)"

text \<open>\<open>readThrough\<close> once PostgreSQL answered: nothing, a session to touch first, or one as it is.\<close>

datatype read_judgement = Gone | TouchFirst live_session | Ready live_session

definition readJudge :: "session_service \<Rightarrow> string \<Rightarrow> string \<Rightarrow> ms \<Rightarrow> (session \<times> lifetimes) option \<Rightarrow> read_judgement" where
  "readJudge S realmId sid judgedAt stored = (case stored of
      None \<Rightarrow> Gone
    | Some (s, lifetimes) \<Rightarrow>
        if se_realmId s \<noteq> realmId \<or> se_id s \<noteq> sid \<or> se_revokedAt s \<noteq> None then Gone
        else let l = \<lparr>lv_record = cachedRecordOf s, lv_lifetimes = lifetimes\<rparr>
             in if verdictOf S l judgedAt \<noteq> VLive then Gone
                else if touchIsDue S l judgedAt then TouchFirst l else Ready l)"

definition store_touch :: "session_service \<Rightarrow> 'a live_session_scheme \<Rightarrow> ms \<Rightarrow> session_db \<Rightarrow> bool \<times> session_db" where
  "store_touch S l now d = updateLastSeen now (cr_realmId (lv_record l)) (cr_id (lv_record l)) (intervalOf S l) d"

record create_input =
  ci_realmId :: string
  ci_userId :: string
  ci_authTime :: ms
  ci_amr :: "string list"
  ci_recoveryCodeUsed :: bool
  ci_assuranceLevel :: "string option"
  ci_ipAddress :: "string option"
  ci_userAgent :: "string option"
  ci_issuedAt :: "ms option"

definition service_create :: "session_service \<Rightarrow> ms \<Rightarrow> string \<Rightarrow> create_input \<Rightarrow> session_db \<Rightarrow> session_error + live_session \<times> session_db" where
  "service_create S now rowId q d =
     (if \<not> UUID (map to_lower (ci_realmId q)) then Inl (UnknownSessionRealmError (ci_realmId q))
      else case findRealmLifetimes (ci_realmId q) d of
        None \<Rightarrow> Inl (UnknownSessionRealmError (ci_realmId q))
      | Some l \<Rightarrow>
          let createdAt = (case ci_issuedAt q of Some t \<Rightarrow> min t now | None \<Rightarrow> now);
              (s, d') = session_create \<lparr>se_id = rowId, se_realmId = ci_realmId q, se_userId = ci_userId q, se_authTime = ci_authTime q,
                se_amr = ci_amr q, se_recoveryCodeUsed = ci_recoveryCodeUsed q, se_assuranceLevel = ci_assuranceLevel q,
                se_ipAddress = ci_ipAddress q, se_userAgent = ci_userAgent q,
                se_expiresAt = createdAt + (case lt_maxLifespanSeconds l of None \<Rightarrow> sv_defaultMax S | Some m \<Rightarrow> m) * 1000,
                se_revokedAt = None, se_revokedReason = None, se_createdAt = createdAt, se_lastSeenAt = createdAt\<rparr> d
          in Inr (\<lparr>lv_record = cachedRecordOf s, lv_lifetimes = l\<rparr>, d'))"

text \<open>The revocations: what they answer, the table they leave, and the sessions whose tombstones they set.\<close>

record revoke_input =
  ri_realmId :: string
  ri_sid :: string
  ri_reason :: string
  ri_actor :: session_actor
  ri_userId :: "string option"

datatype revoke_outcome = OutcomeEnded ended_session | OutcomeAlreadyEnded session | OutcomeNotFound

definition session_key :: "session \<Rightarrow> string \<times> string" where
  "session_key s = (se_realmId s, se_id s)"

definition service_revoke :: "ms \<Rightarrow> revoke_input \<Rightarrow> session_db \<Rightarrow> (session_error + revoke_outcome \<times> (string \<times> string) list) \<times> session_db" where
  "service_revoke at q d = (case (checkedReason (ri_reason q), checkedActor (ri_actor q)) of
      (Inl e, _) \<Rightarrow> (Inl e, d)
    | (_, Inl e) \<Rightarrow> (Inl e, d)
    | (Inr reason, Inr actor) \<Rightarrow>
        if sa_type actor = ActorUser \<and> ri_userId q = None then (Inl (RangeError ''userId''), d)
        else (case (idOf (ri_realmId q), idOf (ri_sid q)) of
          (Some realmId, Some sid) \<Rightarrow>
            let userId = (case ri_userId q of None \<Rightarrow> None | Some u \<Rightarrow> idOf u) in
            if ri_userId q \<noteq> None \<and> userId = None then (Inr (OutcomeNotFound, []), d)
            else (case session_revoke at realmId sid reason userId d of
              (Some ended, d') \<Rightarrow> (Inr (OutcomeEnded ended, [session_key (fst ended)]), d')
            | (None, d') \<Rightarrow>
                let stored = store_find realmId sid d' in
                if (case (stored, userId) of (Some (s, _), Some u) \<Rightarrow> se_userId s \<noteq> u | _ \<Rightarrow> False) then (Inr (OutcomeNotFound, []), d')
                else (Inr (case stored of Some (s, _) \<Rightarrow> if se_revokedAt s \<noteq> None then OutcomeAlreadyEnded s else OutcomeNotFound
                        | None \<Rightarrow> OutcomeNotFound, [(realmId, sid)]), d'))
        | _ \<Rightarrow> (Inr (OutcomeNotFound, []), d)))"

record revoke_all_input =
  ra_realmId :: string
  ra_userId :: string
  ra_reason :: string
  ra_actor :: session_actor
  ra_exceptSid :: "string option"
  ra_createdBefore :: "ms option"

definition service_revokeAllForUser :: "ms \<Rightarrow> revoke_all_input \<Rightarrow> session_db \<Rightarrow> (session_error + ended_session list) \<times> session_db" where
  "service_revokeAllForUser at q d = (case (checkedReason (ra_reason q), checkedActor (ra_actor q)) of
      (Inl e, _) \<Rightarrow> (Inl e, d)
    | (_, Inl e) \<Rightarrow> (Inl e, d)
    | (Inr reason, Inr actor) \<Rightarrow>
        (case (case ra_exceptSid q of None \<Rightarrow> Inr None | Some s \<Rightarrow> (case idOf s of None \<Rightarrow> Inl (RangeError ''exceptSid'') | Some i \<Rightarrow> Inr (Some i))) of
           Inl e \<Rightarrow> (Inl e, d)
         | Inr exceptSid \<Rightarrow>
             (case (idOf (ra_realmId q), idOf (ra_userId q)) of
                (Some realmId, Some userId) \<Rightarrow>
                  (let (ended, d') = revokeForUser at realmId userId reason exceptSid (ra_createdBefore q) d in (Inr ended, d'))
              | _ \<Rightarrow> (Inr [], d))))"

text \<open>
  The realm-wide revocation, in batches. \<open>clock k\<close> is the time of batch \<open>k\<close>, and \<open>env k\<close> what other requests
  write after it. \<open>None\<close> is a call that never returns; what it returns lists the sessions each batch ended.
\<close>

record revoke_realm_input =
  rr_realmId :: string
  rr_reason :: string
  rr_actor :: session_actor
  rr_activeSince :: "ms option"
  rr_batchSize :: "int option"

definition revokeAllForRealm :: "session_service \<Rightarrow> ms \<Rightarrow> (nat \<Rightarrow> ms) \<Rightarrow> (nat \<Rightarrow> string set \<times> session_db \<Rightarrow> string set \<times> session_db) \<Rightarrow> revoke_realm_input
    \<Rightarrow> string set \<times> session_db \<Rightarrow> (session_error + ended_session list list \<times> string set \<times> session_db) option" where
  "revokeAllForRealm S now clock env q x = (case (checkedReason (rr_reason q), checkedActor (rr_actor q),
        checkedBatchSize (rr_batchSize q) DEFAULT_SESSION_REVOCATION_BATCH_SIZE) of
      (Inl e, _) \<Rightarrow> Some (Inl e)
    | (_, Inl e, _) \<Rightarrow> Some (Inl e)
    | (_, _, Inl e) \<Rightarrow> Some (Inl e)
    | (Inr reason, Inr actor, Inr limit) \<Rightarrow>
        (case idOf (rr_realmId q) of
           None \<Rightarrow> Some (Inr ([], x))
         | Some realmId \<Rightarrow>
             map_option Inr (sweep (\<lambda>k after. on_db (revokeRealmBatch (clock k) realmId reason after (now + SESSION_CLOCK_SKEW_ALLOWANCE_MS)
                 (map_option (\<lambda>since. since - sv_interval S * 1000) (rr_activeSince q)) limit)) env limit 0 None [] x)))"

definition endLapsed :: "session_service \<Rightarrow> ms \<Rightarrow> (nat \<Rightarrow> string set \<times> session_db \<Rightarrow> string set \<times> session_db) \<Rightarrow> int option
    \<Rightarrow> string set \<times> session_db \<Rightarrow> (session_error + ended_session list list \<times> string set \<times> session_db) option" where
  "endLapsed S at env batchSize x = (case checkedBatchSize batchSize DEFAULT_SESSION_REVOCATION_BATCH_SIZE of
      Inl e \<Rightarrow> Some (Inl e)
    | Inr limit \<Rightarrow> map_option Inr (sweep (\<lambda>k after. on_db (revokeLapsedBatch at (sv_defaultMax S * 1000) after limit)) env limit 0 None [] x))"

definition purge :: "ms \<Rightarrow> (nat \<Rightarrow> string set \<times> session_db \<Rightarrow> string set \<times> session_db) \<Rightarrow> int option
    \<Rightarrow> string set \<times> session_db \<Rightarrow> (session_error + session list list \<times> string set \<times> session_db) option" where
  "purge before env batchSize x = (case checkedBatchSize batchSize DEFAULT_SESSION_PURGE_BATCH_SIZE of
      Inl e \<Rightarrow> Some (Inl e)
    | Inr limit \<Rightarrow> map_option Inr (sweep (\<lambda>k after. on_db (deleteEnded before after limit)) env limit 0 None [] x))"


subsection \<open>The batched calls return and reach every session\<close>

lemma checkedBatchSize_pos: "checkedBatchSize v f = Inr n \<Longrightarrow> 0 < n"
  by (auto simp: checkedBatchSize_def Let_def split: if_splits)

lemma ended_row_over:
  assumes "sessions_good x" and "s \<in> set (sd_sessions (snd x))" and "\<not> unrevoked s"
  shows "session_over x (se_id s)"
proof -
  have u: "unique_on se_id (sd_sessions (snd x))" and i: "se_id s \<in> fst x" using assms(1,2) by (auto simp: sessions_ok_def)
  have "\<not> live_in (snd x) (se_id s)"
  proof
    assume "live_in (snd x) (se_id s)"
    then obtain s' where s': "s' \<in> set (sd_sessions (snd x))" "se_id s' = se_id s" "unrevoked s'" unfolding live_in_def by (elim exE conjE)
    have "s' = s" by (rule unique_on_same[OF u s'(1) assms(2) s'(2)])
    then show False using s'(3) assms(3) by simp
  qed
  then show ?thesis using i by (simp add: ended_id_def)
qed

text \<open>
  C15. A realm-wide revocation with valid arguments returns, whatever sessions, revocations and codes other
  requests write between its batches, as long as the sessions they bring under it have ids from a
  finite set; and when it returns, no session that was there when it began, created no later than the
  call by the reach of the clock skew and seen since the given time, is live. So none of them is
  ever live again.
\<close>

theorem realm_revocation_reaches_all:
  assumes good: "sessions_ok (fst x) (snd x)"
    and others: "\<And>k y. sessions_ok (fst y) (snd y) \<Longrightarrow> session_step\<^sup>*\<^sup>* y (env k y)"
    and U: "finite U" "picked_by (realm_target realmId (now + 5000) (map_option (\<lambda>t. t - sv_interval S * 1000) (rr_activeSince q))) (snd x) \<subseteq> U"
    and within: "\<And>k y. picked_by (realm_target realmId (now + 5000) (map_option (\<lambda>t. t - sv_interval S * 1000) (rr_activeSince q))) (snd y) \<subseteq> U
        \<Longrightarrow> picked_by (realm_target realmId (now + 5000) (map_option (\<lambda>t. t - sv_interval S * 1000) (rr_activeSince q))) (snd (env k y)) \<subseteq> U"
    and valid: "rr_reason q \<in> set SESSION_REVOKED_REASONS" "checkedActor (rr_actor q) = Inr a"
      "checkedBatchSize (rr_batchSize q) DEFAULT_SESSION_REVOCATION_BATCH_SIZE = Inr limit" "idOf (rr_realmId q) = Some realmId"
  shows "\<exists>batches y. revokeAllForRealm S now clock env q x = Some (Inr (batches, y))
    \<and> (\<forall>s. s \<in> set (sd_sessions (snd x)) \<longrightarrow> se_realmId s = realmId \<longrightarrow> se_createdAt s \<le> now + 5000 \<longrightarrow>
        (\<forall>t. rr_activeSince q = Some t \<longrightarrow> t \<le> se_lastSeenAt s + sv_interval S * 1000) \<longrightarrow>
        (\<forall>z. session_step\<^sup>*\<^sup>* y z \<longrightarrow> \<not> live_in (snd z) (se_id s)))"
proof -
  let ?since = "map_option (\<lambda>t. t - sv_interval S * 1000) (rr_activeSince q)"
  let ?T = "realm_target realmId (now + 5000) ?since"
  note b = realm_batches[OF valid(1), of realmId "now + 5000" ?since clock]
  have t: "tame sessions_good (\<lambda>x. picked_by ?T (snd x)) session_over U env" by (rule requests_tame) (use others U(1) within in blast)+
  from id_batches.sweep_ends[OF b t checkedBatchSize_pos[OF valid(3)] good U(2), where k=0 and after=None and acc="[]"] obtain batches y where
    w: "sweep (\<lambda>k after. on_db (revokeRealmBatch (clock k) realmId (rr_reason q) after (now + 5000) ?since limit)) env limit 0 None [] x = Some (batches, y)"
    and g: "sessions_good y" and o: "\<forall>i. session_over x i \<longrightarrow> session_over y i"
    and c: "\<forall>i. i \<in> picked_by ?T (snd x) \<longrightarrow> after_id None i \<longrightarrow> session_over y i" by (elim exE conjE)
  have r: "revokeAllForRealm S now clock env q x = Some (Inr (batches, y))"
    using w valid by (simp add: revokeAllForRealm_def checkedReason_def SESSION_CLOCK_SKEW_ALLOWANCE_MS_def)
  have "\<not> live_in (snd z) (se_id s)" if s: "s \<in> set (sd_sessions (snd x))" "se_realmId s = realmId" "se_createdAt s \<le> now + 5000"
    and seen: "\<forall>t. rr_activeSince q = Some t \<longrightarrow> t \<le> se_lastSeenAt s + sv_interval S * 1000" and z: "session_step\<^sup>*\<^sup>* y z" for s z
  proof -
    have "session_over y (se_id s)"
    proof (cases "unrevoked s")
      case True
      then have "?T (snd x) s" using s seen by (cases "rr_activeSince q") (auto simp: realm_target_def)
      then have "se_id s \<in> picked_by ?T (snd x)" using s(1) by (auto simp: picked_by_def)
      then show ?thesis using c by (simp add: after_id_def)
    next
      case False
      then show ?thesis using o ended_row_over[OF good s(1)] by blast
    qed
    from ended_id_run[OF z g this] show ?thesis by (simp add: ended_id_def)
  qed
  then show ?thesis using r by blast
qed

text \<open>The marking of lapsed sessions and the purge return too.\<close>

lemma endLapsed_returns:
  assumes "sessions_good x" and "tame sessions_good (\<lambda>x. picked_by (lapsed_target (sv_defaultMax S * 1000) at) (snd x)) session_over U env"
    and "picked_by (lapsed_target (sv_defaultMax S * 1000) at) (snd x) \<subseteq> U" and "checkedBatchSize batchSize DEFAULT_SESSION_REVOCATION_BATCH_SIZE = Inr limit"
  shows "\<exists>batches y. endLapsed S at env batchSize x = Some (Inr (batches, y))
     \<and> (\<forall>i. i \<in> picked_by (lapsed_target (sv_defaultMax S * 1000) at) (snd x) \<longrightarrow> session_over y i)"
  using lapsed_batches.sweep_ends[OF assms(2) checkedBatchSize_pos[OF assms(4)] assms(1,3), where k=0 and after=None and acc="[]"] assms(4)
  by (auto simp: endLapsed_def after_id_def)

lemma purge_returns:
  assumes "sessions_good x" and "tame sessions_good (\<lambda>x. picked_by (purge_target before) (snd x)) purged_id U env"
    and "picked_by (purge_target before) (snd x) \<subseteq> U" and "checkedBatchSize batchSize DEFAULT_SESSION_PURGE_BATCH_SIZE = Inr limit"
  shows "\<exists>batches y. purge before env batchSize x = Some (Inr (batches, y)) \<and> (\<forall>i. i \<in> picked_by (purge_target before) (snd x) \<longrightarrow> purged_id y i)"
  using purge_batches.sweep_ends[OF assms(2) checkedBatchSize_pos[OF assms(4)] assms(1,3), where k=0 and after=None and acc="[]"] assms(4)
  by (auto simp: purge_def after_id_def)

definition example_realm_id :: string where "example_realm_id = ''0199a000-0000-7000-8000-00000000000a''"

definition example_two :: "string set \<times> session_db" where
  "example_two = (let s1 = example_session\<lparr>se_realmId := example_realm_id\<rparr>; s2 = s1\<lparr>se_id := ''s2''\<rparr>
     in ({''s2'', ''s1''}, snd (session_create s2 (snd (session_create s1 example_sessions)))))"

lemma example_two_run: "session_step\<^sup>*\<^sup>* ({}, example_sessions) example_two"
proof -
  let ?s1 = "example_session\<lparr>se_realmId := example_realm_id\<rparr>" and ?s2 = "example_session\<lparr>se_realmId := example_realm_id, se_id := ''s2''\<rparr>"
  have 1: "session_step ({}, example_sessions) ({''s1''}, snd (session_create ?s1 example_sessions))"
    using session_created[of ?s1 "{}" example_sessions] by (simp add: example_session_def)
  have 2: "session_step ({''s1''}, snd (session_create ?s1 example_sessions)) example_two"
    using session_created[of ?s2 "{''s1''}" "snd (session_create ?s1 example_sessions)"] by (simp add: example_two_def example_session_def)
  show ?thesis by (rule converse_rtranclp_into_rtranclp[where r=session_step, OF 1], rule r_into_rtranclp[where r=session_step, OF 2])
qed

lemma example_two_ok: "sessions_ok (fst example_two) (snd example_two)"
  using session_run_ok[OF example_two_run] empty_db_ok[of example_sessions] by (simp add: empty_db_def example_sessions_def)

theorem realm_revocation_reaches_all_witness:
  "\<exists>batches y. revokeAllForRealm \<lparr>sv_defaultMax = 3600, sv_interval = 60, sv_cacheTtlMs = 60000\<rparr> 10 (\<lambda>k. 10 + int k) (\<lambda>k y. y)
      \<lparr>rr_realmId = example_realm_id, rr_reason = ''key_retired'', rr_actor = \<lparr>sa_type = ActorSystem, sa_id = None\<rparr>, rr_activeSince = Some 1, rr_batchSize = Some 1\<rparr>
      example_two = Some (Inr (batches, y)) \<and> \<not> live_in (snd y) ''s1'' \<and> \<not> live_in (snd y) ''s2''"
proof -
  let ?S = "\<lparr>sv_defaultMax = 3600, sv_interval = 60, sv_cacheTtlMs = 60000\<rparr>"
  let ?q = "\<lparr>rr_realmId = example_realm_id, rr_reason = ''key_retired'', rr_actor = \<lparr>sa_type = ActorSystem, sa_id = None\<rparr>, rr_activeSince = Some 1, rr_batchSize = Some 1\<rparr>"
  have v: "rr_reason ?q \<in> set SESSION_REVOKED_REASONS" "checkedActor (rr_actor ?q) = Inr \<lparr>sa_type = ActorSystem, sa_id = None\<rparr>"
    "checkedBatchSize (rr_batchSize ?q) DEFAULT_SESSION_REVOCATION_BATCH_SIZE = Inr 1"
    by (simp_all add: SESSION_REVOKED_REASONS_def checkedActor_def checkedBatchSize_def MAX_SESSION_BATCH_SIZE_def)
  have i: "idOf (rr_realmId ?q) = Some example_realm_id" by code_simp
  have m: "map se_id (sd_sessions (snd example_two)) = [''s1'', ''s2'']" by code_simp
  have "picked_by Q (snd example_two) \<subseteq> {''s1'', ''s2''}" for Q
    using arg_cong[OF m, of set] by (auto simp: picked_by_def)
  from realm_revocation_reaches_all[where U="{''s1'', ''s2''}" and env="\<lambda>k y. y" and S="?S" and now=10 and clock="\<lambda>k. 10 + int k",
      OF example_two_ok _ _ this _ v i] obtain batches y where
    r: "revokeAllForRealm ?S 10 (\<lambda>k. 10 + int k) (\<lambda>k y. y) ?q example_two = Some (Inr (batches, y))"
    and e: "\<And>s z. s \<in> set (sd_sessions (snd example_two)) \<Longrightarrow> se_realmId s = example_realm_id \<Longrightarrow> se_createdAt s \<le> 10 + 5000 \<Longrightarrow>
        (\<forall>t. rr_activeSince ?q = Some t \<longrightarrow> t \<le> se_lastSeenAt s + sv_interval ?S * 1000) \<Longrightarrow> session_step\<^sup>*\<^sup>* y z \<Longrightarrow> \<not> live_in (snd z) (se_id s)"
    by auto
  obtain s1 s2 where s: "sd_sessions (snd example_two) = [s1, s2]" using m by (cases "sd_sessions (snd example_two)") auto
  have "map (\<lambda>s. (se_id s, se_realmId s, se_createdAt s, se_lastSeenAt s)) (sd_sessions (snd example_two)) =
      [(''s1'', example_realm_id, 1, 1), (''s2'', example_realm_id, 1, 1)]" by code_simp
  then have "\<not> live_in (snd y) ''s1''" "\<not> live_in (snd y) ''s2''" using e[of s1 y] e[of s2 y] s by auto
  then show ?thesis using r by blast
qed

end
