(* ===== verification/Session_Cache.thy ===== *)
theory Session_Cache
  imports Session_Service
begin

text \<open>
  The reads of \<open>session-service.ts\<close> on several nodes at once, between the cache and PostgreSQL: \<open>get\<close>
  with its shared round trips, the cache writes that may arrive late or not at all, the last-seen
  touches, and the tombstones that follow the end of a session. Each clock reading of a node is within
  a bound of the true time, which Redis keeps. The theorem says how long an ended session may still be
  answered with.
\<close>

subsection \<open>Redis as the cache sees it\<close>

text \<open>
  The laws of \<open>GET\<close>, \<open>SET ... PX\<close> and \<open>DEL\<close> the cache relies on: a key holds what was last set until its
  time is up or it is deleted, and never longer. (\<open>Redis\<close> leaves the loss of keys to the environment; a
  tombstone must last.)
\<close>

locale kv_store =
  fixes K :: "'s kv" and view :: "'s \<Rightarrow> string \<Rightarrow> (cache_text \<times> ms) option"
  assumes get_view: "kv_get K s t k = (case view s k of None \<Rightarrow> None | Some (v, e) \<Rightarrow> if t < e then Some v else None)"
    and set_view: "view (kv_setPX K t k v px s) = (view s)(k \<mapsto> (v, t + px))"
    and del_view: "view (kv_del K k s) = (view s)(k := None)"

definition mem_kv :: "(string \<rightharpoonup> cache_text \<times> ms) kv" where
  "mem_kv = \<lparr>kv_get = (\<lambda>s t k. case s k of None \<Rightarrow> None | Some (v, e) \<Rightarrow> if t < e then Some v else None),
     kv_setPX = (\<lambda>t k v px s. s(k \<mapsto> (v, t + px))), kv_del = (\<lambda>k s. s(k := None))\<rparr>"

interpretation mem_kv: kv_store mem_kv id
  by unfold_locales (simp_all add: mem_kv_def)

subsection \<open>The keys\<close>

lemma UUID_length: "UUID s \<Longrightarrow> length s = 36"
  by (simp add: UUID_def)

lemma cacheKey_inj:
  assumes "UUID r" "UUID i" "UUID r'" "UUID i'"
  shows "sessionCacheKey r i = sessionCacheKey r' i' \<longleftrightarrow> r = r' \<and> i = i'"
  using assms[THEN UUID_length] by (simp add: sessionCacheKey_def)

lemma tombstoneKey_inj:
  assumes "UUID r" "UUID i" "UUID r'" "UUID i'"
  shows "sessionTombstoneKey r i = sessionTombstoneKey r' i' \<longleftrightarrow> r = r' \<and> i = i'"
  using cacheKey_inj[OF assms] by (simp add: sessionTombstoneKey_def)

lemma keys_apart:
  assumes "UUID r" "UUID i" "UUID r'" "UUID i'"
  shows "sessionCacheKey r i \<noteq> sessionTombstoneKey r' i'" "sessionTombstoneKey r' i' \<noteq> sessionCacheKey r i"
proof -
  have "length (sessionCacheKey r i) \<noteq> length (sessionTombstoneKey r' i')"
    using assms[THEN UUID_length] by (simp add: sessionTombstoneKey_def sessionCacheKey_def)
  then show "sessionCacheKey r i \<noteq> sessionTombstoneKey r' i'" "sessionTombstoneKey r' i' \<noteq> sessionCacheKey r i" by metis+
qed

subsection \<open>The nodes at work\<close>

text \<open>A round trip to PostgreSQL: \<open>refreshHit\<close> before its touch, \<open>readThrough\<close> before its read or before its touch.\<close>

datatype stage =
  SHit cached_session ms
| SRead bool ms
| STouch bool ms ms live_session

text \<open>Who waits for it: when each looked the cache up, and whether the cache answered then.\<close>

record round_trip =
  rt_key :: "string \<times> string"
  rt_start :: ms
  rt_waiters :: "(ms \<times> bool) list"
  rt_stage :: stage

text \<open>
  The state: the true time, the tables, the cache, the cache writes on their way, the round trips and which
  of them a node shares per session; and, for the theorem, when each session ended in PostgreSQL, when a
  tombstone for it first reached the cache, and the reads answered with a session (key, time of the cache
  lookup, start of the round trip, whether the cache answered).
\<close>

record 's nodes =
  nd_now :: ms
  nd_tables :: "string set \<times> session_db"
  nd_cache :: 's
  nd_writes :: "(cached_session \<times> ms) set"
  nd_trips :: "nat \<Rightarrow> round_trip option"
  nd_inFlight :: "nat \<Rightarrow> string \<times> string \<Rightarrow> nat option"
  nd_ended :: "string \<times> string \<Rightarrow> ms option"
  nd_tombs :: "string \<times> string \<Rightarrow> ms option"
  nd_answers :: "((string \<times> string) \<times> ms \<times> ms \<times> bool) list"

definition live_pair :: "session_db \<Rightarrow> string \<times> string \<Rightarrow> bool" where
  "live_pair d p \<longleftrightarrow> (\<exists>s. s \<in> set (sd_sessions d) \<and> session_key s = p \<and> unrevoked s)"

definition near :: "ms \<Rightarrow> 's nodes \<Rightarrow> ms \<Rightarrow> bool" where
  "near skew v at \<longleftrightarrow> nd_now v - skew \<le> at \<and> at \<le> nd_now v + skew"

definition startStage :: "session_service \<Rightarrow> get_decision \<Rightarrow> ms \<Rightarrow> ms \<Rightarrow> stage option" where
  "startStage S choice at readAt = (case choice of
      Refresh e \<Rightarrow> Some (if verdictOf S e at = VLive then SHit e at else SRead True readAt)
    | Through fill \<Rightarrow> Some (SRead fill readAt)
    | _ \<Rightarrow> None)"

definition with_tables :: "string set \<times> session_db \<Rightarrow> 's nodes \<Rightarrow> 's nodes" where
  "with_tables x v = v\<lparr>nd_tables := x, nd_ended := (\<lambda>p. if live_pair (snd (nd_tables v)) p \<and> \<not> live_pair (snd x) p then Some (nd_now v) else nd_ended v p)\<rparr>"

text \<open>The end of a round trip: everyone waiting gets its answer, and a cache write is sent when it has one.\<close>

definition finish :: "nat \<Rightarrow> round_trip \<Rightarrow> bool \<Rightarrow> (cached_session \<times> ms) option \<Rightarrow> 's nodes \<Rightarrow> 's nodes" where
  "finish n r found write v = v\<lparr>nd_trips := (nd_trips v)(n := None),
     nd_inFlight := (\<lambda>node k. if nd_inFlight v node k = Some n then None else nd_inFlight v node k),
     nd_writes := nd_writes v \<union> set_option write,
     nd_answers := (if found then map (\<lambda>(w, b). (rt_key r, w, rt_start r, b)) (rt_waiters r) else []) @ nd_answers v\<rparr>"

definition entry_key :: "'a live_session_scheme \<Rightarrow> string \<times> string" where
  "entry_key l = (cr_realmId (lv_record l), cr_id (lv_record l))"

inductive node_step :: "'s kv \<Rightarrow> session_service \<Rightarrow> ms \<Rightarrow> 's nodes \<Rightarrow> 's nodes \<Rightarrow> bool" for K S skew where
  time_passes: "nd_now v \<le> t \<Longrightarrow> node_step K S skew v (v\<lparr>nd_now := t\<rparr>)"
| tables_change: "session_step (nd_tables v) x \<Longrightarrow> \<forall>s. s \<in> set (sd_sessions (snd x)) \<longrightarrow> UUID (se_realmId s) \<and> UUID (se_id s) \<Longrightarrow>
    node_step K S skew v (with_tables x v)"
| created: "near skew v at \<Longrightarrow> rowId \<notin> fst (nd_tables v) \<Longrightarrow> UUID rowId \<Longrightarrow> UUID (ci_realmId q) \<Longrightarrow> service_create S at rowId q (snd (nd_tables v)) = Inr (l, d') \<Longrightarrow>
    near skew v fillAt \<Longrightarrow>
    node_step K S skew v ((with_tables (insert rowId (fst (nd_tables v)), d') v)
      \<lparr>nd_writes := nd_writes v \<union> set_option (fillEntry S l (cr_createdAt (lv_record l) + sv_cacheTtlMs S) fillAt)\<rparr>)"
| get_served: "near skew v at \<Longrightarrow> getDecision S realmId sid at (Some (cache_read K (nd_now v) realmId sid (nd_cache v))) = Serve l \<Longrightarrow>
    node_step K S skew v (v\<lparr>nd_answers := ((realmId, sid), nd_now v, nd_now v, True) # nd_answers v\<rparr>)"
| get_starts: "near skew v at \<Longrightarrow> near skew v readAt \<Longrightarrow> lookup = (if up then Some (cache_read K (nd_now v) realmId sid (nd_cache v)) else None) \<Longrightarrow>
    startStage S (getDecision S realmId sid at lookup) at readAt = Some st \<Longrightarrow> nd_inFlight v node (realmId, sid) = None \<Longrightarrow> nd_trips v n = None \<Longrightarrow>
    node_step K S skew v (v\<lparr>nd_trips := (nd_trips v)(n \<mapsto> \<lparr>rt_key = (realmId, sid), rt_start = nd_now v, rt_waiters = [(nd_now v, up)], rt_stage = st\<rparr>),
      nd_inFlight := (nd_inFlight v)(node := (nd_inFlight v node)((realmId, sid) \<mapsto> n))\<rparr>)"
| get_joins: "near skew v at \<Longrightarrow> lookup = (if up then Some (cache_read K (nd_now v) realmId sid (nd_cache v)) else None) \<Longrightarrow>
    startStage S (getDecision S realmId sid at lookup) at at = Some st \<Longrightarrow> nd_inFlight v node (realmId, sid) = Some n \<Longrightarrow> nd_trips v n = Some r \<Longrightarrow> rt_key r = (realmId, sid) \<Longrightarrow>
    node_step K S skew v (v\<lparr>nd_trips := (nd_trips v)(n \<mapsto> r\<lparr>rt_waiters := (nd_now v, up) # rt_waiters r\<rparr>)\<rparr>)"
| hit_touched: "nd_trips v n = Some r \<Longrightarrow> rt_stage r = SHit e at \<Longrightarrow> near skew v touchAt \<Longrightarrow> 0 \<le> intervalOf S e \<Longrightarrow> store_touch S e touchAt (snd (nd_tables v)) = (True, d') \<Longrightarrow>
    near skew v fillAt \<Longrightarrow>
    node_step K S skew v (finish n r True (fillEntry S (seenAt at (live_session.truncate e)) (ch_freshUntil e) fillAt) (with_tables (fst (nd_tables v), d') v))"
| hit_skipped: "nd_trips v n = Some r \<Longrightarrow> rt_stage r = SHit e at \<Longrightarrow> near skew v touchAt \<Longrightarrow> store_touch S e touchAt (snd (nd_tables v)) = (False, d') \<Longrightarrow> near skew v readAt \<Longrightarrow>
    node_step K S skew v (v\<lparr>nd_trips := (nd_trips v)(n \<mapsto> r\<lparr>rt_stage := SRead True readAt\<rparr>)\<rparr>)"
| read_gone: "nd_trips v n = Some r \<Longrightarrow> node_step K S skew v (finish n r False None v)"
| read_ready: "nd_trips v n = Some r \<Longrightarrow> rt_stage r = SRead fill readAt \<Longrightarrow> near skew v judgedAt \<Longrightarrow>
    readJudge S (fst (rt_key r)) (snd (rt_key r)) judgedAt (store_find (fst (rt_key r)) (snd (rt_key r)) (snd (nd_tables v))) = Ready l \<Longrightarrow> near skew v fillAt \<Longrightarrow>
    node_step K S skew v (finish n r True (if fill then fillEntry S l (readAt + sv_cacheTtlMs S) fillAt else None) v)"
| read_touch: "nd_trips v n = Some r \<Longrightarrow> rt_stage r = SRead fill readAt \<Longrightarrow> near skew v judgedAt \<Longrightarrow>
    readJudge S (fst (rt_key r)) (snd (rt_key r)) judgedAt (store_find (fst (rt_key r)) (snd (rt_key r)) (snd (nd_tables v))) = TouchFirst l \<Longrightarrow>
    node_step K S skew v (v\<lparr>nd_trips := (nd_trips v)(n \<mapsto> r\<lparr>rt_stage := STouch fill readAt judgedAt l\<rparr>)\<rparr>)"
| touched: "nd_trips v n = Some r \<Longrightarrow> rt_stage r = STouch fill readAt judgedAt l \<Longrightarrow> near skew v touchAt \<Longrightarrow> 0 \<le> intervalOf S l \<Longrightarrow>
    store_touch S l touchAt (snd (nd_tables v)) = (written, d') \<Longrightarrow> near skew v fillAt \<Longrightarrow>
    node_step K S skew v (finish n r True (if fill then fillEntry S (if written then seenAt judgedAt l else l) (readAt + sv_cacheTtlMs S) fillAt else None)
      (with_tables (fst (nd_tables v), d') v))"
| write_lands: "(e, ttlMs) \<in> nd_writes v \<Longrightarrow>
    node_step K S skew v (v\<lparr>nd_cache := cache_write K (nd_now v) e ttlMs (nd_cache v), nd_writes := nd_writes v - {(e, ttlMs)}\<rparr>)"
| write_lost: "node_step K S skew v (v\<lparr>nd_writes := nd_writes v - W\<rparr>)"
| tombstone_set: "UUID realmId \<Longrightarrow> UUID sid \<Longrightarrow> \<not> live_pair (snd (nd_tables v)) (realmId, sid) \<Longrightarrow>
    node_step K S skew v (v\<lparr>nd_cache := set_tombstone K (nd_now v) realmId sid (2 * sv_cacheTtlMs S) (nd_cache v),
      nd_tombs := (if nd_ended v (realmId, sid) \<noteq> None \<and> nd_tombs v (realmId, sid) = None then (nd_tombs v)((realmId, sid) \<mapsto> nd_now v) else nd_tombs v)\<rparr>)"
| entry_deleted: "UUID realmId \<Longrightarrow> UUID sid \<Longrightarrow> node_step K S skew v (v\<lparr>nd_cache := kv_del K (sessionCacheKey realmId sid) (nd_cache v)\<rparr>)"
| flight_dropped: "node_step K S skew v (v\<lparr>nd_inFlight := (nd_inFlight v)(node := (nd_inFlight v node)(k := None))\<rparr>)"


subsection \<open>What holds in every state\<close>

text \<open>A time read on a node no later than the true time and than the end of its session, up to the skew.\<close>

definition read_by :: "ms \<Rightarrow> ms \<Rightarrow> (string \<times> string \<Rightarrow> ms option) \<Rightarrow> string \<times> string \<Rightarrow> ms \<Rightarrow> bool" where
  "read_by skew g en k t \<longleftrightarrow> t \<le> g + skew \<and> (\<forall>r. en k = Some r \<longrightarrow> t \<le> r + skew)"

definition entry_ok :: "session_service \<Rightarrow> ms \<Rightarrow> ms \<Rightarrow> (string \<times> string \<Rightarrow> ms option) \<Rightarrow> cached_session \<Rightarrow> bool" where
  "entry_ok S skew g en e \<longleftrightarrow> UUID (fst (entry_key e)) \<and> UUID (snd (entry_key e)) \<and> read_by skew g en (entry_key e) (ch_freshUntil e - sv_cacheTtlMs S)"

text \<open>A lookup the cache answered after a tombstone was set came after the tombstone lapsed.\<close>

definition past_tomb :: "session_service \<Rightarrow> (string \<times> string \<Rightarrow> ms option) \<Rightarrow> string \<times> string \<Rightarrow> ms \<Rightarrow> bool" where
  "past_tomb S tb k w \<longleftrightarrow> (\<forall>t. tb k = Some t \<longrightarrow> t < w \<longrightarrow> t + 2 * sv_cacheTtlMs S \<le> w)"

definition trip_ok :: "session_service \<Rightarrow> ms \<Rightarrow> ms \<Rightarrow> (string \<times> string \<Rightarrow> ms option) \<Rightarrow> (string \<times> string \<Rightarrow> ms option) \<Rightarrow> round_trip \<Rightarrow> bool" where
  "trip_ok S skew g en tb r \<longleftrightarrow> UUID (fst (rt_key r)) \<and> UUID (snd (rt_key r)) \<and> rt_start r \<le> g
     \<and> (\<forall>w b. (w, b) \<in> set (rt_waiters r) \<longrightarrow> rt_start r \<le> w \<and> w \<le> g \<and> (b \<longrightarrow> past_tomb S tb (rt_key r) w))
     \<and> (case rt_stage r of
          SHit e at \<Rightarrow> entry_key e = rt_key r \<and> entry_ok S skew g en e
        | SRead fill readAt \<Rightarrow> readAt \<le> g + skew
        | STouch fill readAt judgedAt l \<Rightarrow> entry_key l = rt_key r \<and> read_by skew g en (rt_key r) readAt \<and> (\<forall>x. en (rt_key r) = Some x \<longrightarrow> rt_start r \<le> x))"

definition answer_ok :: "session_service \<Rightarrow> ms \<Rightarrow> ms \<Rightarrow> (string \<times> string \<Rightarrow> ms option) \<Rightarrow> (string \<times> string \<Rightarrow> ms option)
    \<Rightarrow> (string \<times> string) \<times> ms \<times> ms \<times> bool \<Rightarrow> bool" where
  "answer_ok S skew g en tb a = (case a of (k, w, s, b) \<Rightarrow> s \<le> w \<and> w \<le> g
     \<and> (\<forall>r. en k = Some r \<longrightarrow> s \<le> r \<or> (s = w \<and> w < r + sv_cacheTtlMs S + 2 * skew))
     \<and> (\<forall>t. b \<longrightarrow> tb k = Some t \<longrightarrow> t < w \<longrightarrow> t + 2 * sv_cacheTtlMs S \<le> w \<and> (\<forall>r. en k = Some r \<longrightarrow> s \<le> r)))"

definition tables_ok :: "string set \<times> session_db \<Rightarrow> bool" where
  "tables_ok x \<longleftrightarrow> sessions_good x \<and> (\<forall>s. s \<in> set (sd_sessions (snd x)) \<longrightarrow> UUID (se_realmId s) \<and> UUID (se_id s))"

definition ended_ok :: "ms \<Rightarrow> (string \<times> string \<Rightarrow> ms option) \<Rightarrow> string set \<times> session_db \<Rightarrow> bool" where
  "ended_ok g en x \<longleftrightarrow> (\<forall>p r. en p = Some r \<longrightarrow> r \<le> g \<and> session_over x (snd p))"

definition cache_ok :: "session_service \<Rightarrow> ms \<Rightarrow> ms \<Rightarrow> (string \<times> string \<Rightarrow> ms option) \<Rightarrow> (string \<Rightarrow> (cache_text \<times> ms) option) \<Rightarrow> bool" where
  "cache_ok S skew g en vw \<longleftrightarrow> (\<forall>k n e x. vw k = Some (EntryText n e, x) \<longrightarrow> entry_ok S skew g en e
     \<and> k = sessionCacheKey (fst (entry_key e)) (snd (entry_key e)))"

definition tombs_ok :: "session_service \<Rightarrow> ms \<Rightarrow> (string \<times> string \<Rightarrow> ms option) \<Rightarrow> (string \<times> string \<Rightarrow> ms option) \<Rightarrow> (string \<Rightarrow> (cache_text \<times> ms) option) \<Rightarrow> bool" where
  "tombs_ok S g en tb vw \<longleftrightarrow> (\<forall>p t. tb p = Some t \<longrightarrow> t \<le> g \<and> UUID (fst p) \<and> UUID (snd p) \<and> (\<exists>r. en p = Some r \<and> r \<le> t)
     \<and> (\<exists>c x. vw (sessionTombstoneKey (fst p) (snd p)) = Some (c, x) \<and> t + 2 * sv_cacheTtlMs S \<le> x))"

definition nodes_ok :: "session_service \<Rightarrow> ms \<Rightarrow> ('s \<Rightarrow> string \<Rightarrow> (cache_text \<times> ms) option) \<Rightarrow> 's nodes \<Rightarrow> bool" where
  "nodes_ok S skew view v \<longleftrightarrow> tables_ok (nd_tables v) \<and> ended_ok (nd_now v) (nd_ended v) (nd_tables v)
     \<and> cache_ok S skew (nd_now v) (nd_ended v) (view (nd_cache v)) \<and> tombs_ok S (nd_now v) (nd_ended v) (nd_tombs v) (view (nd_cache v))
     \<and> (\<forall>e ttlMs. (e, ttlMs) \<in> nd_writes v \<longrightarrow> entry_ok S skew (nd_now v) (nd_ended v) e)
     \<and> (\<forall>n r. nd_trips v n = Some r \<longrightarrow> trip_ok S skew (nd_now v) (nd_ended v) (nd_tombs v) r)
     \<and> (\<forall>a. a \<in> set (nd_answers v) \<longrightarrow> answer_ok S skew (nd_now v) (nd_ended v) (nd_tombs v) a)"

text \<open>Time passing, a session ending now and a tombstone set now keep all of it.\<close>

definition later :: "ms \<Rightarrow> (string \<times> string \<Rightarrow> ms option) \<Rightarrow> (string \<times> string \<Rightarrow> ms option) \<Rightarrow> ms \<Rightarrow> (string \<times> string \<Rightarrow> ms option) \<Rightarrow> (string \<times> string \<Rightarrow> ms option) \<Rightarrow> bool" where
  "later g en tb g' en' tb' \<longleftrightarrow> g \<le> g' \<and> (\<forall>k. (en' k = en k \<or> en' k = Some g) \<and> (tb' k = tb k \<or> tb' k = Some g))"

lemma later_en: "later g en tb g' en' tb' \<Longrightarrow> en' k = Some r \<Longrightarrow> en k = Some r \<or> r = g"
  unfolding later_def by (metis option.inject)

lemma later_tb: "later g en tb g' en' tb' \<Longrightarrow> tb' k = Some t \<Longrightarrow> tb k = Some t \<or> t = g"
  unfolding later_def by (metis option.inject)

lemma later_read_by:
  assumes "later g en tb g' en' tb'" and "read_by skew g en k t"
  shows "read_by skew g' en' k t"
proof -
  have "g \<le> g'" using assms(1) by (simp add: later_def)
  then show ?thesis using assms(2) later_en[OF assms(1)] unfolding read_by_def by fastforce
qed

lemma later_entry_ok: "later g en tb g' en' tb' \<Longrightarrow> entry_ok S skew g en e \<Longrightarrow> entry_ok S skew g' en' e"
  unfolding entry_ok_def using later_read_by by blast

lemma later_past_tomb:
  assumes "later g en tb g' en' tb'" and "w \<le> g" and "past_tomb S tb k w"
  shows "past_tomb S tb' k w"
  using assms(2,3) later_tb[OF assms(1)] unfolding past_tomb_def by fastforce

lemma later_trip_ok:
  assumes l: "later g en tb g' en' tb'" and t: "trip_ok S skew g en tb r"
  shows "trip_ok S skew g' en' tb' r"
proof -
  have g: "g \<le> g'" using l by (simp add: later_def)
  have w: "rt_start r \<le> w \<and> w \<le> g' \<and> (b \<longrightarrow> past_tomb S tb' (rt_key r) w)" if "(w, b) \<in> set (rt_waiters r)" for w b
    using t that later_past_tomb[OF l] g unfolding trip_ok_def by fastforce
  have s: "rt_start r \<le> g" using t by (simp add: trip_ok_def)
  then have e: "\<forall>x. en' (rt_key r) = Some x \<longrightarrow> rt_start r \<le> x" if "\<forall>x. en (rt_key r) = Some x \<longrightarrow> rt_start r \<le> x"
    using that later_en[OF l] by blast
  show ?thesis
  proof (cases "rt_stage r")
    case (SHit e at)
    then show ?thesis using t g s w later_entry_ok[OF l] by (simp add: trip_ok_def)
  next
    case (SRead fill readAt)
    then show ?thesis using t g s w by (simp add: trip_ok_def)
  next
    case (STouch fill readAt judgedAt x)
    have "entry_key x = rt_key r" "read_by skew g en (rt_key r) readAt" "\<forall>x. en (rt_key r) = Some x \<longrightarrow> rt_start r \<le> x"
      "UUID (fst (rt_key r))" "UUID (snd (rt_key r))" using t by (simp_all add: trip_ok_def STouch)
    then have "entry_key x = rt_key r" "read_by skew g' en' (rt_key r) readAt" "\<forall>x. en' (rt_key r) = Some x \<longrightarrow> rt_start r \<le> x"
      "UUID (fst (rt_key r))" "UUID (snd (rt_key r))" using later_read_by[OF l] e by blast+
    then show ?thesis using g s w by (simp add: trip_ok_def STouch)
  qed
qed

lemma later_answer_ok:
  assumes l: "later g en tb g' en' tb'" and t: "answer_ok S skew g en tb a"
  shows "answer_ok S skew g' en' tb' a"
proof -
  obtain k w s b where a: "a = (k, w, s, b)" by (metis prod_cases4)
  have g: "g \<le> g'" using l by (simp add: later_def)
  have b: "s \<le> w" "w \<le> g" "\<And>r. en k = Some r \<Longrightarrow> s \<le> r \<or> (s = w \<and> w < r + sv_cacheTtlMs S + 2 * skew)"
    "\<And>t r. b \<Longrightarrow> tb k = Some t \<Longrightarrow> t < w \<Longrightarrow> t + 2 * sv_cacheTtlMs S \<le> w" "\<And>t r. b \<Longrightarrow> tb k = Some t \<Longrightarrow> t < w \<Longrightarrow> en k = Some r \<Longrightarrow> s \<le> r"
    using t by (simp_all add: answer_ok_def a)
  have "s \<le> r \<or> (s = w \<and> w < r + sv_cacheTtlMs S + 2 * skew)" if "en' k = Some r" for r using later_en[OF l that] b(1-3) by fastforce
  moreover have "t + 2 * sv_cacheTtlMs S \<le> w" if "b" "tb' k = Some t" "t < w" for t using later_tb[OF l that(2)] b(2,4) that by fastforce
  moreover have "s \<le> r" if "b" "tb' k = Some t" "t < w" "en' k = Some r" for t r
    using later_tb[OF l that(2)] later_en[OF l that(4)] b(1,2) b(5)[of t r] that by fastforce
  ultimately show ?thesis using b(1,2) g by (simp add: answer_ok_def a)
qed

lemma later_cache_ok: "later g en tb g' en' tb' \<Longrightarrow> cache_ok S skew g en vw \<Longrightarrow> cache_ok S skew g' en' vw"
  unfolding cache_ok_def using later_entry_ok by blast

lemma ended_not_live: "ended_ok g en x \<Longrightarrow> en p = Some r \<Longrightarrow> \<not> live_pair (snd x) p"
  unfolding ended_ok_def ended_id_def live_in_def live_pair_def session_key_def by fastforce

lemma live_not_ended: "ended_ok g en x \<Longrightarrow> live_pair (snd x) p \<Longrightarrow> en p = None"
  using ended_not_live by (cases "en p") auto


lemma later_same: "g \<le> g' \<Longrightarrow> later g en tb g' en tb"
  by (simp add: later_def)

lemma nodes_ok_next:
  assumes ok: "nodes_ok S skew view v" and l: "later (nd_now v) (nd_ended v) (nd_tombs v) (nd_now v') (nd_ended v') (nd_tombs v')"
    and tabs: "tables_ok (nd_tables v')" "ended_ok (nd_now v') (nd_ended v') (nd_tables v')"
    and cache: "cache_ok S skew (nd_now v') (nd_ended v') (view (nd_cache v'))" "tombs_ok S (nd_now v') (nd_ended v') (nd_tombs v') (view (nd_cache v'))"
    and writes: "\<And>e t. (e, t) \<in> nd_writes v' \<Longrightarrow> (e, t) \<in> nd_writes v \<or> entry_ok S skew (nd_now v') (nd_ended v') e"
    and trips: "\<And>n r. nd_trips v' n = Some r \<Longrightarrow> nd_trips v n = Some r \<or> trip_ok S skew (nd_now v') (nd_ended v') (nd_tombs v') r"
    and answers: "\<And>a. a \<in> set (nd_answers v') \<Longrightarrow> a \<in> set (nd_answers v) \<or> answer_ok S skew (nd_now v') (nd_ended v') (nd_tombs v') a"
  shows "nodes_ok S skew view v'"
proof -
  have "entry_ok S skew (nd_now v') (nd_ended v') e" if "(e, t) \<in> nd_writes v'" for e t
    using writes[OF that] ok later_entry_ok[OF l] unfolding nodes_ok_def by blast
  moreover have "trip_ok S skew (nd_now v') (nd_ended v') (nd_tombs v') r" if "nd_trips v' n = Some r" for n r
    using trips[OF that] ok later_trip_ok[OF l] unfolding nodes_ok_def by blast
  moreover have "answer_ok S skew (nd_now v') (nd_ended v') (nd_tombs v') a" if "a \<in> set (nd_answers v')" for a
    using answers[OF that] ok later_answer_ok[OF l] unfolding nodes_ok_def by blast
  ultimately show ?thesis unfolding nodes_ok_def using tabs cache by blast
qed

lemma nodes_okD:
  assumes "nodes_ok S skew view v"
  shows "tables_ok (nd_tables v)" "sessions_good (nd_tables v)" "ended_ok (nd_now v) (nd_ended v) (nd_tables v)"
    "cache_ok S skew (nd_now v) (nd_ended v) (view (nd_cache v))" "tombs_ok S (nd_now v) (nd_ended v) (nd_tombs v) (view (nd_cache v))"
    "(e, t) \<in> nd_writes v \<Longrightarrow> entry_ok S skew (nd_now v) (nd_ended v) e"
    "nd_trips v n = Some r \<Longrightarrow> trip_ok S skew (nd_now v) (nd_ended v) (nd_tombs v) r"
  using assms unfolding nodes_ok_def tables_ok_def by blast+

lemma live_pair_step:
  assumes "session_step x y" and "sessions_good x" and "live_pair (snd x) p"
  shows "live_pair (snd y) p \<or> session_over y (snd p)"
proof -
  from assms(3) obtain s where s: "s \<in> set (sd_sessions (snd x))" "session_key s = p" "unrevoked s" unfolding live_pair_def by (elim exE conjE)
  from session_step_row[OF assms(1,2) s(1,3)] show ?thesis unfolding row_persists_def
  proof
    assume "\<exists>s'. s' \<in> set (sd_sessions (snd y)) \<and> se_id s' = se_id s \<and> se_realmId s' = se_realmId s
      \<and> se_createdAt s' = se_createdAt s \<and> se_lastSeenAt s \<le> se_lastSeenAt s' \<and> unrevoked s'"
    then obtain s' where s': "s' \<in> set (sd_sessions (snd y))" "se_id s' = se_id s" "se_realmId s' = se_realmId s" "unrevoked s'" by (elim exE conjE)
    then have "live_pair (snd y) p" using s(2) unfolding live_pair_def session_key_def by (intro exI[of _ s']) simp
    then show ?thesis ..
  next
    assume "session_over y (se_id s)"
    then show ?thesis using s(2) by (auto simp: session_key_def)
  qed
qed

lemma with_tables_simps [simp]:
  "nd_now (with_tables x v) = nd_now v" "nd_tables (with_tables x v) = x" "nd_cache (with_tables x v) = nd_cache v" "nd_writes (with_tables x v) = nd_writes v"
  "nd_trips (with_tables x v) = nd_trips v" "nd_inFlight (with_tables x v) = nd_inFlight v" "nd_tombs (with_tables x v) = nd_tombs v" "nd_answers (with_tables x v) = nd_answers v"
  by (simp_all add: with_tables_def)

lemma with_tables_ended: "nd_ended (with_tables x v) k = nd_ended v k \<or> nd_ended (with_tables x v) k = Some (nd_now v)"
  by (simp add: with_tables_def)

lemma with_tables_ok:
  assumes ok: "nodes_ok S skew view v" and st: "session_step (nd_tables v) x" and u: "\<forall>s. s \<in> set (sd_sessions (snd x)) \<longrightarrow> UUID (se_realmId s) \<and> UUID (se_id s)"
  shows "nodes_ok S skew view (with_tables x v)"
proof (rule nodes_ok_next[OF ok])
  note d = nodes_okD[OF ok]
  show l: "later (nd_now v) (nd_ended v) (nd_tombs v) (nd_now (with_tables x v)) (nd_ended (with_tables x v)) (nd_tombs (with_tables x v))"
    using with_tables_ended[of x v] by (simp add: later_def)
  show "tables_ok (nd_tables (with_tables x v))" using u session_step_keeps[OF st d(2)] by (simp add: tables_ok_def step_keeps_def)
  have old: "session_over x (snd p)" if "nd_ended v p = Some r" for p r
    using ended_id_step[OF st d(2)] d(3) that unfolding ended_ok_def by blast
  show e: "ended_ok (nd_now (with_tables x v)) (nd_ended (with_tables x v)) (nd_tables (with_tables x v))" unfolding ended_ok_def
  proof (intro allI impI)
    fix p r assume r: "nd_ended (with_tables x v) p = Some r"
    show "r \<le> nd_now (with_tables x v) \<and> session_over (nd_tables (with_tables x v)) (snd p)"
    proof (cases "live_pair (snd (nd_tables v)) p \<and> \<not> live_pair (snd x) p")
      case True
      then show ?thesis using r live_pair_step[OF st d(2), of p] by (auto simp: with_tables_def)
    next
      case False
      then have o: "nd_ended v p = Some r" using r by (auto simp: with_tables_def split: if_splits)
      then have "r \<le> nd_now v" using d(3) unfolding ended_ok_def by blast
      then show ?thesis using old[OF o] by simp
    qed
  qed
  show "cache_ok S skew (nd_now (with_tables x v)) (nd_ended (with_tables x v)) (view (nd_cache (with_tables x v)))"
    using later_cache_ok[OF l d(4)] by simp
  have "nd_ended (with_tables x v) p = nd_ended v p" if "nd_ended v p = Some r" for p r
    using ended_not_live[OF d(3) that] by (simp add: with_tables_def)
  then show "tombs_ok S (nd_now (with_tables x v)) (nd_ended (with_tables x v)) (nd_tombs (with_tables x v)) (view (nd_cache (with_tables x v)))"
    using d(5) unfolding tombs_ok_def by fastforce
qed simp_all

lemma finish_ok:
  assumes ok: "nodes_ok S skew view v" and r: "nd_trips v n = Some r"
    and found: "found \<Longrightarrow> \<forall>x. nd_ended v (rt_key r) = Some x \<longrightarrow> rt_start r \<le> x"
    and sent: "\<And>e t. write = Some (e, t) \<Longrightarrow> entry_ok S skew (nd_now v) (nd_ended v) e"
  shows "nodes_ok S skew view (finish n r found write v)"
proof (rule nodes_ok_next[OF ok])
  note d = nodes_okD[OF ok]
  note t = d(7)[OF r]
  show "later (nd_now v) (nd_ended v) (nd_tombs v) (nd_now (finish n r found write v)) (nd_ended (finish n r found write v)) (nd_tombs (finish n r found write v))"
    by (simp add: later_def finish_def)
  show "(e, t) \<in> nd_writes v \<or> entry_ok S skew (nd_now (finish n r found write v)) (nd_ended (finish n r found write v)) e"
    if "(e, t) \<in> nd_writes (finish n r found write v)" for e t
    using that sent by (cases "write") (auto simp: finish_def)
  show "nd_trips v m = Some q \<or> trip_ok S skew (nd_now (finish n r found write v)) (nd_ended (finish n r found write v)) (nd_tombs (finish n r found write v)) q"
    if "nd_trips (finish n r found write v) m = Some q" for m q
    using that by (auto simp: finish_def split: if_splits)
  show "a \<in> set (nd_answers v) \<or> answer_ok S skew (nd_now (finish n r found write v)) (nd_ended (finish n r found write v)) (nd_tombs (finish n r found write v)) a"
    if a: "a \<in> set (nd_answers (finish n r found write v))" for a
  proof (cases "a \<in> set (nd_answers v)")
    case False
    then obtain w b where w: "a = (rt_key r, w, rt_start r, b)" "(w, b) \<in> set (rt_waiters r)" and f: found
      using a by (auto simp: finish_def split: if_splits)
    have q: "rt_start r \<le> w" "w \<le> nd_now v" "b \<Longrightarrow> past_tomb S (nd_tombs v) (rt_key r) w" using t w(2) by (auto simp: trip_ok_def)
    then have "answer_ok S skew (nd_now v) (nd_ended v) (nd_tombs v) a" using found[OF f] unfolding w(1) answer_ok_def past_tomb_def by auto
    then show ?thesis by (simp add: finish_def)
  qed simp
qed (use nodes_okD[OF ok] in \<open>simp_all add: finish_def\<close>)

lemma fillEntry_ok:
  assumes "fillEntry S l freshUntil now = Some (e, t)" and "UUID (fst (entry_key l))" "UUID (snd (entry_key l))"
    and "read_by skew g en (entry_key l) (freshUntil - sv_cacheTtlMs S)"
  shows "entry_ok S skew g en e"
proof -
  from assms(1) have e: "e = live_session.extend l \<lparr>ch_freshUntil = min freshUntil (sessionEnd (endsOf S l))\<rparr>"
    by (auto simp: fillEntry_def Let_def split: if_splits)
  have k: "entry_key e = entry_key l" and f: "ch_freshUntil e \<le> freshUntil" by (simp_all add: e entry_key_def live_session.defs)
  have "ch_freshUntil e - sv_cacheTtlMs S \<le> freshUntil - sv_cacheTtlMs S" using f by simp
  then have "read_by skew g en (entry_key l) (ch_freshUntil e - sv_cacheTtlMs S)" using assms(4) unfolding read_by_def by (meson order_trans)
  then show ?thesis using assms(2,3) by (simp add: entry_ok_def k)
qed


subsection \<open>Every step keeps it\<close>

lemma store_touch_step:
  assumes "0 \<le> intervalOf S l" and "store_touch S l now d = (b, d')"
  shows "session_step (ids, d) (ids, d')"
  using session_seen[OF assms(1), of ids d now "cr_realmId (lv_record l)" "cr_id (lv_record l)"] assms(2) by (simp add: store_touch_def)

lemma store_touch_uuid:
  assumes "store_touch S l now d = (b, d')" and "\<forall>s. s \<in> set (sd_sessions d) \<longrightarrow> UUID (se_realmId s) \<and> UUID (se_id s)"
  shows "\<forall>s. s \<in> set (sd_sessions d') \<longrightarrow> UUID (se_realmId s) \<and> UUID (se_id s)"
proof -
  have e: "d' = snd (updateLastSeen now (cr_realmId (lv_record l)) (cr_id (lv_record l)) (intervalOf S l) d)" using assms(1) by (simp add: store_touch_def)
  from updateLastSeen_rows[of now "cr_realmId (lv_record l)" "cr_id (lv_record l)" "intervalOf S l" d] obtain f where
    ss: "sd_sessions d' = map f (sd_sessions d)" and f: "\<And>s. se_id (f s) = se_id s" "\<And>s. se_realmId (f s) = se_realmId s" unfolding e by metis
  show ?thesis using assms(2) by (auto simp: ss f)
qed

lemma store_touch_written:
  assumes "store_touch S l now d = (True, d')"
  shows "live_pair d (entry_key l)"
proof -
  from assms obtain s where "s \<in> set (sd_sessions d)" "se_realmId s = cr_realmId (lv_record l)" "se_id s = cr_id (lv_record l)" "unrevoked s"
    by (auto simp: store_touch_def updateLastSeen_def update_where_def Let_def filter_empty_conv)
  then show ?thesis unfolding live_pair_def entry_key_def session_key_def by (intro exI[of _ s]) simp
qed

lemma readJudge_found:
  assumes "readJudge S realmId sid at (store_find realmId sid d) = Ready l \<or> readJudge S realmId sid at (store_find realmId sid d) = TouchFirst l"
  shows "entry_key l = (realmId, sid)" "live_pair d (realmId, sid)"
proof -
  obtain s lt where f: "store_find realmId sid d = Some (s, lt)" using assms by (cases "store_find realmId sid d") (auto simp: readJudge_def)
  have s: "se_realmId s = realmId" "se_id s = sid" "unrevoked s" "lv_record l = cachedRecordOf s"
    using assms by (auto simp: f readJudge_def Let_def split: if_splits)
  then show "entry_key l = (realmId, sid)" by (simp add: entry_key_def cachedRecordOf_def)
  have "session_findById realmId sid d = Some s" using f by (auto simp: store_find_def split: option.splits)
  then have "s \<in> set (sd_sessions d)" by (auto simp: session_findById_def limit1_def select_where_def filter_eq_Cons_iff split: list.splits)
  then show "live_pair d (realmId, sid)" using s unfolding live_pair_def session_key_def by (intro exI[of _ s]) simp
qed

lemma service_create_row:
  assumes "service_create S at rowId q d = Inr (l, d')"
  obtains s where "d' = snd (session_create s d)" "se_id s = rowId" "se_realmId s = ci_realmId q" "se_createdAt s \<le> at" "lv_record l = cachedRecordOf s"
proof -
  have e: "cachedRecordOf (s\<lparr>se_revokedAt := a, se_revokedReason := b\<rparr>) = cachedRecordOf s" for s a b by (simp add: cachedRecordOf_def)
  from assms obtain lt where lt: "findRealmLifetimes (ci_realmId q) d = Some lt" by (auto simp: service_create_def split: if_splits option.splits)
  let ?c = "case ci_issuedAt q of Some t \<Rightarrow> min t at | None \<Rightarrow> at"
  let ?s = "\<lparr>se_id = rowId, se_realmId = ci_realmId q, se_userId = ci_userId q, se_authTime = ci_authTime q,
                se_amr = ci_amr q, se_recoveryCodeUsed = ci_recoveryCodeUsed q, se_assuranceLevel = ci_assuranceLevel q,
                se_ipAddress = ci_ipAddress q, se_userAgent = ci_userAgent q,
                se_expiresAt = ?c + (case lt_maxLifespanSeconds lt of None \<Rightarrow> sv_defaultMax S | Some m \<Rightarrow> m) * 1000,
                se_revokedAt = None, se_revokedReason = None, se_createdAt = ?c, se_lastSeenAt = ?c\<rparr>"
  have "d' = snd (session_create ?s d) \<and> lv_record l = cachedRecordOf ?s"
    using assms lt by (auto simp: service_create_def Let_def session_create_def split: if_splits)
  moreover have "?c \<le> at" by (simp split: option.split)
  ultimately show thesis using that[of ?s] by simp
qed

lemma getDecision_uuid: "getDecision S realmId sid at lookup \<noteq> Absent \<Longrightarrow> UUID realmId \<and> UUID sid"
  by (auto simp: getDecision_def split: if_splits)

lemma startStage_some: "startStage S c at readAt = Some st \<Longrightarrow> c \<noteq> Absent"
  by (auto simp: startStage_def)

lemma getDecision_entry:
  assumes "getDecision S realmId sid at lookup = Serve l \<or> getDecision S realmId sid at lookup = Refresh e'"
  obtains e where "lookup = Some (CacheEntry e)" "entry_usable S realmId sid at e" "getDecision S realmId sid at lookup = Refresh e' \<Longrightarrow> e = e'"
proof -
  have u: "UUID realmId" "UUID sid" using assms getDecision_uuid[of S realmId sid at lookup] by auto
  obtain c where c: "lookup = Some c" using assms u by (cases lookup) (auto simp: getDecision_def)
  obtain e where e: "c = CacheEntry e" using assms u c by (cases c) (auto simp: getDecision_def)
  have us: "entry_usable S realmId sid at e" using assms u by (auto simp: getDecision_def c e split: if_splits)
  have "e = e'" if "getDecision S realmId sid at lookup = Refresh e'" using that u us by (auto simp: getDecision_def c e Let_def split: if_splits)
  then show thesis using that[of e] c e us by blast
qed

lemma entry_usable_key: "entry_usable S realmId sid at e \<Longrightarrow> entry_key e = (realmId, sid) \<and> at < ch_freshUntil e"
  by (simp add: entry_usable_def entry_key_def)

context kv_store
begin

lemma read_not_revoked:
  assumes "tombs_ok S g en tb (view s)" and "cache_read K g realmId sid s \<noteq> CacheRevoked"
  shows "past_tomb S tb (realmId, sid) g"
  unfolding past_tomb_def
proof (intro allI impI)
  fix t assume t: "tb (realmId, sid) = Some t"
  then obtain c x where x: "view s (sessionTombstoneKey realmId sid) = Some (c, x)" "t + 2 * sv_cacheTtlMs S \<le> x"
    using assms(1) unfolding tombs_ok_def by fastforce
  have "kv_get K s g (sessionTombstoneKey realmId sid) = None" using assms(2) by (auto simp: cache_read_def split: option.splits)
  then have "x \<le> g" using x(1) by (simp add: get_view split: if_splits)
  then show "t + 2 * sv_cacheTtlMs S \<le> g" using x(2) by simp
qed

lemma read_entry:
  assumes "cache_ok S skew g en (view s)" and "cache_read K g realmId sid s = CacheEntry e"
  shows "entry_ok S skew g en e"
proof -
  obtain raw where raw: "kv_get K s g (sessionCacheKey realmId sid) = Some raw" "parseEntry raw = Some e"
    using assms(2) by (auto simp: cache_read_def split: option.splits)
  obtain n where n: "raw = EntryText n e" using raw(2) by (cases raw) (auto simp: parseEntry_def split: if_splits)
  obtain x where "view s (sessionCacheKey realmId sid) = Some (EntryText n e, x)"
    using raw(1) n by (auto simp: get_view split: option.splits if_splits)
  then show ?thesis using assms(1) unfolding cache_ok_def by blast
qed

lemma lookup_waiter:
  assumes ok: "nodes_ok S skew view v" and "lookup = (if up then Some (cache_read K (nd_now v) realmId sid (nd_cache v)) else None)"
    and "getDecision S realmId sid at lookup \<noteq> Absent" and up
  shows "past_tomb S (nd_tombs v) (realmId, sid) (nd_now v)"
proof (rule read_not_revoked[OF nodes_okD(5)[OF ok]])
  show "cache_read K (nd_now v) realmId sid (nd_cache v) \<noteq> CacheRevoked" using assms(2-4) by (auto simp: getDecision_def split: if_splits)
qed

lemma start_stage_ok:
  assumes ok: "nodes_ok S skew view v" and l: "lookup = (if up then Some (cache_read K (nd_now v) realmId sid (nd_cache v)) else None)"
    and st: "startStage S (getDecision S realmId sid at lookup) at readAt = Some st" and n: "near skew v readAt"
  shows "case st of SHit e at \<Rightarrow> entry_key e = (realmId, sid) \<and> entry_ok S skew (nd_now v) (nd_ended v) e
     | SRead fill readAt \<Rightarrow> readAt \<le> nd_now v + skew | STouch _ _ _ _ \<Rightarrow> False"
proof (cases "getDecision S realmId sid at lookup")
  case (Refresh e')
  obtain e where e: "lookup = Some (CacheEntry e)" "entry_usable S realmId sid at e" "e = e'"
    using getDecision_entry[of S realmId sid at lookup _ e'] Refresh by metis
  have "cache_read K (nd_now v) realmId sid (nd_cache v) = CacheEntry e" using l e(1) by (simp split: if_splits)
  then have "entry_ok S skew (nd_now v) (nd_ended v) e" by (rule read_entry[OF nodes_okD(4)[OF ok]])
  then show ?thesis using st n Refresh e entry_usable_key[OF e(2)] by (auto simp: startStage_def near_def split: if_splits)
qed (use st n in \<open>auto simp: startStage_def near_def\<close>)

end


lemma tombs_okD:
  "tombs_ok S g en tb vw \<Longrightarrow> tb p = Some t \<Longrightarrow> t \<le> g \<and> UUID (fst p) \<and> UUID (snd p) \<and> (\<exists>r. en p = Some r \<and> r \<le> t)
     \<and> (\<exists>c x. vw (sessionTombstoneKey (fst p) (snd p)) = Some (c, x) \<and> t + 2 * sv_cacheTtlMs S \<le> x)"
  unfolding tombs_ok_def by blast

lemma nodes_ok_plain:
  assumes ok: "nodes_ok S skew view v" and "nd_now v' = nd_now v" "nd_ended v' = nd_ended v" "nd_tombs v' = nd_tombs v" "nd_tables v' = nd_tables v" "nd_cache v' = nd_cache v"
    and "\<And>e t. (e, t) \<in> nd_writes v' \<Longrightarrow> (e, t) \<in> nd_writes v \<or> entry_ok S skew (nd_now v) (nd_ended v) e"
    and "\<And>n r. nd_trips v' n = Some r \<Longrightarrow> nd_trips v n = Some r \<or> trip_ok S skew (nd_now v) (nd_ended v) (nd_tombs v) r"
    and "\<And>a. a \<in> set (nd_answers v') \<Longrightarrow> a \<in> set (nd_answers v) \<or> answer_ok S skew (nd_now v) (nd_ended v) (nd_tombs v) a"
  shows "nodes_ok S skew view v'"
  by (rule nodes_ok_next[OF ok]) (use assms nodes_okD[OF ok] in \<open>simp_all add: later_same\<close>)

context kv_store
begin

lemma get_served_ok:
  assumes ok: "nodes_ok S skew view v" and skew: "2 * skew \<le> sv_cacheTtlMs S" and n: "near skew v at"
    and g: "getDecision S realmId sid at (Some (cache_read K (nd_now v) realmId sid (nd_cache v))) = Serve l"
  shows "nodes_ok S skew view (v\<lparr>nd_answers := ((realmId, sid), nd_now v, nd_now v, True) # nd_answers v\<rparr>)"
proof -
  note d = nodes_okD[OF ok]
  obtain e where e: "cache_read K (nd_now v) realmId sid (nd_cache v) = CacheEntry e" "entry_usable S realmId sid at e"
    using getDecision_entry[of S realmId sid at "Some (cache_read K (nd_now v) realmId sid (nd_cache v))" l] g by (metis option.inject)
  have eo: "entry_ok S skew (nd_now v) (nd_ended v) e" by (rule read_entry[OF d(4) e(1)])
  have k: "entry_key e = (realmId, sid)" "at < ch_freshUntil e" using entry_usable_key[OF e(2)] by simp_all
  have fresh: "nd_now v < r + sv_cacheTtlMs S + 2 * skew" if "nd_ended v (realmId, sid) = Some r" for r
    using eo that k n unfolding entry_ok_def read_by_def near_def by auto
  have "past_tomb S (nd_tombs v) (realmId, sid) (nd_now v)" using read_not_revoked[OF d(5), of realmId sid] e(1) by simp
  moreover have "\<exists>r. nd_ended v (realmId, sid) = Some r \<and> r \<le> t" if "nd_tombs v (realmId, sid) = Some t" for t
    using d(5) that unfolding tombs_ok_def by blast
  ultimately have "\<not> t < nd_now v" if "nd_tombs v (realmId, sid) = Some t" for t
    using that fresh skew unfolding past_tomb_def by fastforce
  then have "answer_ok S skew (nd_now v) (nd_ended v) (nd_tombs v) ((realmId, sid), nd_now v, nd_now v, True)"
    using fresh by (simp add: answer_ok_def)
  then show ?thesis by (intro nodes_ok_plain[OF ok]) auto
qed

lemma get_starts_ok:
  assumes ok: "nodes_ok S skew view v" and n: "near skew v readAt"
    and l: "lookup = (if up then Some (cache_read K (nd_now v) realmId sid (nd_cache v)) else None)"
    and st: "startStage S (getDecision S realmId sid at lookup) at readAt = Some st"
  shows "trip_ok S skew (nd_now v) (nd_ended v) (nd_tombs v) \<lparr>rt_key = (realmId, sid), rt_start = nd_now v, rt_waiters = [(nd_now v, up)], rt_stage = st\<rparr>"
proof -
  have na: "getDecision S realmId sid at lookup \<noteq> Absent" by (rule startStage_some[OF st])
  have "UUID realmId" "UUID sid" using getDecision_uuid[OF na] by simp_all
  moreover have "up \<longrightarrow> past_tomb S (nd_tombs v) (realmId, sid) (nd_now v)" using lookup_waiter[OF ok l na] by blast
  ultimately show ?thesis using start_stage_ok[OF ok l st n] by (cases st) (auto simp: trip_ok_def)
qed

lemma write_lands_ok:
  assumes ok: "nodes_ok S skew view v" and w: "(e, ttlMs) \<in> nd_writes v"
  shows "nodes_ok S skew view (v\<lparr>nd_cache := cache_write K (nd_now v) e ttlMs (nd_cache v), nd_writes := nd_writes v - {(e, ttlMs)}\<rparr>)"
proof (rule nodes_ok_next[OF ok])
  note d = nodes_okD[OF ok]
  let ?v = "v\<lparr>nd_cache := cache_write K (nd_now v) e ttlMs (nd_cache v), nd_writes := nd_writes v - {(e, ttlMs)}\<rparr>"
  have e: "entry_ok S skew (nd_now v) (nd_ended v) e" by (rule d(6)[OF w])
  have vw: "view (nd_cache ?v) = (view (nd_cache v))(sessionCacheKey (fst (entry_key e)) (snd (entry_key e)) \<mapsto> (EntryText ENTRY_VERSION e, nd_now v + ttlOf ttlMs))"
    by (simp add: cache_write_def set_view entry_key_def)
  show "cache_ok S skew (nd_now ?v) (nd_ended ?v) (view (nd_cache ?v))" unfolding vw using d(4) e by (auto simp: cache_ok_def)
  have apart: "sessionTombstoneKey (fst p) (snd p) \<noteq> sessionCacheKey (fst (entry_key e)) (snd (entry_key e))" if "nd_tombs v p = Some t" for p t
    using keys_apart(2) e d(5) that unfolding entry_ok_def tombs_ok_def by blast
  have up: "(m(k \<mapsto> y)) k' = m k'" if "k' \<noteq> k" for m :: "string \<Rightarrow> (cache_text \<times> ms) option" and k k' y using that by simp
  show "tombs_ok S (nd_now ?v) (nd_ended ?v) (nd_tombs ?v) (view (nd_cache ?v))" unfolding vw tombs_ok_def
  proof (intro allI impI)
    fix p t assume "nd_tombs ?v p = Some t"
    then have t: "nd_tombs v p = Some t" by simp
    show "t \<le> nd_now ?v \<and> UUID (fst p) \<and> UUID (snd p) \<and> (\<exists>r. nd_ended ?v p = Some r \<and> r \<le> t)
      \<and> (\<exists>c x. ((view (nd_cache v))(sessionCacheKey (fst (entry_key e)) (snd (entry_key e)) \<mapsto> (EntryText ENTRY_VERSION e, nd_now v + ttlOf ttlMs)))
          (sessionTombstoneKey (fst p) (snd p)) = Some (c, x) \<and> t + 2 * sv_cacheTtlMs S \<le> x)"
      using tombs_okD[OF d(5) t] unfolding up[OF apart[OF t]] by simp
  qed
qed (use nodes_okD[OF ok] in \<open>auto simp: later_same\<close>)

lemma entry_deleted_ok:
  assumes ok: "nodes_ok S skew view v" and u: "UUID realmId" "UUID sid"
  shows "nodes_ok S skew view (v\<lparr>nd_cache := kv_del K (sessionCacheKey realmId sid) (nd_cache v)\<rparr>)"
proof (rule nodes_ok_next[OF ok])
  note d = nodes_okD[OF ok]
  let ?v = "v\<lparr>nd_cache := kv_del K (sessionCacheKey realmId sid) (nd_cache v)\<rparr>"
  show "cache_ok S skew (nd_now ?v) (nd_ended ?v) (view (nd_cache ?v))" using d(4) by (auto simp: cache_ok_def del_view)
  have apart: "sessionTombstoneKey (fst p) (snd p) \<noteq> sessionCacheKey realmId sid" if "nd_tombs v p = Some t" for p t
    using keys_apart(2)[OF u] d(5) that unfolding tombs_ok_def by blast
  show "tombs_ok S (nd_now ?v) (nd_ended ?v) (nd_tombs ?v) (view (nd_cache ?v))" unfolding tombs_ok_def
  proof (intro allI impI)
    fix p t assume "nd_tombs ?v p = Some t"
    then have t: "nd_tombs v p = Some t" by simp
    have "view (nd_cache ?v) (sessionTombstoneKey (fst p) (snd p)) = view (nd_cache v) (sessionTombstoneKey (fst p) (snd p))"
      using apart[OF t] by (simp add: del_view)
    then show "t \<le> nd_now ?v \<and> UUID (fst p) \<and> UUID (snd p) \<and> (\<exists>r. nd_ended ?v p = Some r \<and> r \<le> t)
      \<and> (\<exists>c x. view (nd_cache ?v) (sessionTombstoneKey (fst p) (snd p)) = Some (c, x) \<and> t + 2 * sv_cacheTtlMs S \<le> x)"
      using tombs_okD[OF d(5) t] by simp
  qed
qed (use nodes_okD[OF ok] in \<open>auto simp: later_same\<close>)

lemma tombstone_set_ok:
  assumes ok: "nodes_ok S skew view v" and u: "UUID realmId" "UUID sid"
    and v': "v' = v\<lparr>nd_cache := set_tombstone K (nd_now v) realmId sid (2 * sv_cacheTtlMs S) (nd_cache v),
      nd_tombs := (if nd_ended v (realmId, sid) \<noteq> None \<and> nd_tombs v (realmId, sid) = None then (nd_tombs v)((realmId, sid) \<mapsto> nd_now v) else nd_tombs v)\<rparr>"
  shows "nodes_ok S skew view v'"
proof (rule nodes_ok_next[OF ok])
  note d = nodes_okD[OF ok]
  have same: "nd_now v' = nd_now v" "nd_ended v' = nd_ended v" by (simp_all add: v')
  have vw: "view (nd_cache v') = (view (nd_cache v))(sessionTombstoneKey realmId sid \<mapsto> (PlainText ''1'', nd_now v + ttlOf (2 * sv_cacheTtlMs S)))"
    by (simp add: v' set_tombstone_def set_view)
  have tb: "nd_tombs v' p = nd_tombs v p \<or> (p = (realmId, sid) \<and> nd_tombs v' p = Some (nd_now v) \<and> nd_ended v p \<noteq> None)" for p by (simp add: v')
  show "later (nd_now v) (nd_ended v) (nd_tombs v) (nd_now v') (nd_ended v') (nd_tombs v')" using tb by (auto simp: later_def same)
  show "cache_ok S skew (nd_now v') (nd_ended v') (view (nd_cache v'))" unfolding vw same using d(4) by (auto simp: cache_ok_def)
  show "tombs_ok S (nd_now v') (nd_ended v') (nd_tombs v') (view (nd_cache v'))" unfolding tombs_ok_def
  proof (intro allI impI)
    fix p t assume t: "nd_tombs v' p = Some t"
    have basic: "t \<le> nd_now v \<and> UUID (fst p) \<and> UUID (snd p) \<and> (\<exists>r. nd_ended v p = Some r \<and> r \<le> t)"
    proof (cases "nd_tombs v p = Some t")
      case True
      then show ?thesis using d(5) unfolding tombs_ok_def by blast
    next
      case False
      then have p: "p = (realmId, sid)" "t = nd_now v" "nd_ended v p \<noteq> None" using tb[of p] t by auto
      then obtain r where "nd_ended v p = Some r" by blast
      then have "r \<le> nd_now v" using d(3) unfolding ended_ok_def by blast
      then show ?thesis using p(1,2) u \<open>nd_ended v p = Some r\<close> by auto
    qed
    have "\<exists>c x. view (nd_cache v') (sessionTombstoneKey (fst p) (snd p)) = Some (c, x) \<and> t + 2 * sv_cacheTtlMs S \<le> x"
    proof (cases "p = (realmId, sid)")
      case True
      have "t + 2 * sv_cacheTtlMs S \<le> nd_now v + ttlOf (2 * sv_cacheTtlMs S)" using basic by (simp add: ttlOf_def max_def)
      then show ?thesis using True by (simp add: vw)
    next
      case False
      then have "nd_tombs v p = Some t" using tb[of p] t by simp
      moreover have "sessionTombstoneKey (fst p) (snd p) \<noteq> sessionTombstoneKey realmId sid"
        using tombstoneKey_inj[of "fst p" "snd p" realmId sid] basic u False by (cases p) auto
      ultimately show ?thesis using tombs_okD[OF d(5)] unfolding vw by simp
    qed
    then show "t \<le> nd_now v' \<and> UUID (fst p) \<and> UUID (snd p) \<and> (\<exists>r. nd_ended v' p = Some r \<and> r \<le> t)
      \<and> (\<exists>c x. view (nd_cache v') (sessionTombstoneKey (fst p) (snd p)) = Some (c, x) \<and> t + 2 * sv_cacheTtlMs S \<le> x)" using basic by (simp add: same)
  qed
qed (use nodes_okD[OF ok] in \<open>auto simp: v'\<close>)

end


lemma touch_tables_ok:
  assumes ok: "nodes_ok S skew view v" and i: "0 \<le> intervalOf S l" and t: "store_touch S l now (snd (nd_tables v)) = (b, d')"
  shows "nodes_ok S skew view (with_tables (fst (nd_tables v), d') v)"
proof (rule with_tables_ok[OF ok])
  show "session_step (nd_tables v) (fst (nd_tables v), d')" using store_touch_step[OF i t, of "fst (nd_tables v)"] by simp
  show "\<forall>s. s \<in> set (sd_sessions (snd (fst (nd_tables v), d'))) \<longrightarrow> UUID (se_realmId s) \<and> UUID (se_id s)"
    unfolding snd_conv by (rule store_touch_uuid[OF t]) (use nodes_okD(1)[OF ok] in \<open>simp add: tables_ok_def\<close>)
qed

lemma trip_start_kept:
  assumes ok: "nodes_ok S skew view v" and r: "nd_trips v n = Some r" and s: "\<forall>x. nd_ended v (rt_key r) = Some x \<longrightarrow> rt_start r \<le> x"
  shows "\<forall>x. nd_ended (with_tables y v) (rt_key r) = Some x \<longrightarrow> rt_start r \<le> x"
  using with_tables_ended[of y v "rt_key r"] s nodes_okD(7)[OF ok r] unfolding trip_ok_def by auto

lemma hit_touched_ok:
  assumes ok: "nodes_ok S skew view v" and r: "nd_trips v n = Some r" "rt_stage r = SHit e at" and i: "0 \<le> intervalOf S e"
    and t: "store_touch S e touchAt (snd (nd_tables v)) = (True, d')"
  shows "nodes_ok S skew view (finish n r True (fillEntry S (seenAt at (live_session.truncate e)) (ch_freshUntil e) fillAt) (with_tables (fst (nd_tables v), d') v))"
proof (rule finish_ok[OF touch_tables_ok[OF ok i t]])
  let ?w = "with_tables (fst (nd_tables v), d') v"
  have tr: "trip_ok S skew (nd_now v) (nd_ended v) (nd_tombs v) r" by (rule nodes_okD(7)[OF ok r(1)])
  have k: "entry_key e = rt_key r" and eo: "entry_ok S skew (nd_now v) (nd_ended v) e" using tr by (simp_all add: trip_ok_def r(2))
  have "nd_ended v (rt_key r) = None" using live_not_ended[OF nodes_okD(3)[OF ok]] store_touch_written[OF t] k by simp
  then show "\<forall>x. nd_ended ?w (rt_key r) = Some x \<longrightarrow> rt_start r \<le> x" by (intro trip_start_kept[OF ok r(1)]) simp
  have eo': "entry_ok S skew (nd_now ?w) (nd_ended ?w) e"
    by (rule later_entry_ok[OF _ eo, of "nd_tombs v" _ _ "nd_tombs v"]) (use with_tables_ended[of "(fst (nd_tables v), d')" v] in \<open>simp add: later_def\<close>)
  have k': "entry_key (seenAt at (live_session.truncate e)) = entry_key e" by (simp add: entry_key_def seenAt_def live_session.defs)
  show "entry_ok S skew (nd_now ?w) (nd_ended ?w) e'" if "fillEntry S (seenAt at (live_session.truncate e)) (ch_freshUntil e) fillAt = Some (e', t')" for e' t'
    by (rule fillEntry_ok[OF that]) (use eo' in \<open>simp_all add: k' entry_ok_def\<close>)
qed (simp add: r(1))

lemma read_ready_ok:
  assumes ok: "nodes_ok S skew view v" and r: "nd_trips v n = Some r" "rt_stage r = SRead fill readAt"
    and j: "readJudge S (fst (rt_key r)) (snd (rt_key r)) judgedAt (store_find (fst (rt_key r)) (snd (rt_key r)) (snd (nd_tables v))) = Ready l"
  shows "nodes_ok S skew view (finish n r True (if fill then fillEntry S l (readAt + sv_cacheTtlMs S) fillAt else None) v)"
proof (rule finish_ok[OF ok r(1)])
  have tr: "trip_ok S skew (nd_now v) (nd_ended v) (nd_tombs v) r" by (rule nodes_okD(7)[OF ok r(1)])
  have k: "entry_key l = rt_key r" and "live_pair (snd (nd_tables v)) (rt_key r)" using readJudge_found[OF disjI1[OF j]] by simp_all
  then have none: "nd_ended v (rt_key r) = None" using live_not_ended[OF nodes_okD(3)[OF ok]] by simp
  then show "\<forall>x. nd_ended v (rt_key r) = Some x \<longrightarrow> rt_start r \<le> x" by simp
  have rb: "read_by skew (nd_now v) (nd_ended v) (entry_key l) (readAt + sv_cacheTtlMs S - sv_cacheTtlMs S)" and u: "UUID (fst (entry_key l))" "UUID (snd (entry_key l))"
    using tr none k by (simp_all add: trip_ok_def r(2) read_by_def)
  show "entry_ok S skew (nd_now v) (nd_ended v) e" if "(if fill then fillEntry S l (readAt + sv_cacheTtlMs S) fillAt else None) = Some (e, t)" for e t
    using fillEntry_ok[OF _ u rb] that by (auto split: if_splits)
qed

lemma read_touch_ok:
  assumes ok: "nodes_ok S skew view v" and r: "nd_trips v n = Some r" "rt_stage r = SRead fill readAt"
    and j: "readJudge S (fst (rt_key r)) (snd (rt_key r)) judgedAt (store_find (fst (rt_key r)) (snd (rt_key r)) (snd (nd_tables v))) = TouchFirst l"
  shows "trip_ok S skew (nd_now v) (nd_ended v) (nd_tombs v) (r\<lparr>rt_stage := STouch fill readAt judgedAt l\<rparr>)"
proof -
  have tr: "trip_ok S skew (nd_now v) (nd_ended v) (nd_tombs v) r" by (rule nodes_okD(7)[OF ok r(1)])
  have k: "entry_key l = rt_key r" and "live_pair (snd (nd_tables v)) (rt_key r)" using readJudge_found[OF disjI2[OF j]] by simp_all
  then have none: "nd_ended v (rt_key r) = None" using live_not_ended[OF nodes_okD(3)[OF ok]] by simp
  show ?thesis using tr none k by (simp add: trip_ok_def r(2) read_by_def)
qed

lemma touched_ok:
  assumes ok: "nodes_ok S skew view v" and r: "nd_trips v n = Some r" "rt_stage r = STouch fill readAt judgedAt l" and i: "0 \<le> intervalOf S l"
    and t: "store_touch S l touchAt (snd (nd_tables v)) = (written, d')"
  shows "nodes_ok S skew view (finish n r True (if fill then fillEntry S (if written then seenAt judgedAt l else l) (readAt + sv_cacheTtlMs S) fillAt else None)
      (with_tables (fst (nd_tables v), d') v))"
proof (rule finish_ok[OF touch_tables_ok[OF ok i t]])
  let ?w = "with_tables (fst (nd_tables v), d') v"
  have tr: "trip_ok S skew (nd_now v) (nd_ended v) (nd_tombs v) r" by (rule nodes_okD(7)[OF ok r(1)])
  have k: "entry_key l = rt_key r" and rb: "read_by skew (nd_now v) (nd_ended v) (rt_key r) readAt" and s: "\<forall>x. nd_ended v (rt_key r) = Some x \<longrightarrow> rt_start r \<le> x"
    and u: "UUID (fst (rt_key r))" "UUID (snd (rt_key r))" using tr by (simp_all add: trip_ok_def r(2))
  show "\<forall>x. nd_ended ?w (rt_key r) = Some x \<longrightarrow> rt_start r \<le> x" by (rule trip_start_kept[OF ok r(1) s])
  have rb': "read_by skew (nd_now ?w) (nd_ended ?w) (rt_key r) readAt"
    by (rule later_read_by[OF _ rb, of "nd_tombs v" _ _ "nd_tombs v"]) (use with_tables_ended[of "(fst (nd_tables v), d')" v] in \<open>simp add: later_def\<close>)
  have k': "entry_key (if written then seenAt judgedAt l else l) = rt_key r" using k by (simp add: entry_key_def seenAt_def)
  show "entry_ok S skew (nd_now ?w) (nd_ended ?w) e"
    if "(if fill then fillEntry S (if written then seenAt judgedAt l else l) (readAt + sv_cacheTtlMs S) fillAt else None) = Some (e, t')" for e t'
    using fillEntry_ok[of S "if written then seenAt judgedAt l else l" "readAt + sv_cacheTtlMs S" fillAt e t' skew "nd_now ?w" "nd_ended ?w"] that rb' u
    unfolding k' by (auto split: if_splits)
qed (simp add: r(1))

lemma created_ok:
  assumes ok: "nodes_ok S skew view v" and n: "near skew v at" and new: "rowId \<notin> fst (nd_tables v)" and u: "UUID rowId" "UUID (ci_realmId q)"
    and c: "service_create S at rowId q (snd (nd_tables v)) = Inr (l, d')"
  shows "nodes_ok S skew view ((with_tables (insert rowId (fst (nd_tables v)), d') v)
      \<lparr>nd_writes := nd_writes v \<union> set_option (fillEntry S l (cr_createdAt (lv_record l) + sv_cacheTtlMs S) fillAt)\<rparr>)"
proof -
  let ?x = "(insert rowId (fst (nd_tables v)), d')"
  let ?w = "with_tables ?x v"
  obtain s where s: "d' = snd (session_create s (snd (nd_tables v)))" "se_id s = rowId" "se_realmId s = ci_realmId q" "se_createdAt s \<le> at" "lv_record l = cachedRecordOf s"
    by (rule service_create_row[OF c])
  have ss: "sd_sessions d' = sd_sessions (snd (nd_tables v)) @ [s\<lparr>se_revokedAt := None, se_revokedReason := None\<rparr>]"
    by (simp add: s(1) session_create_def Let_def)
  have ok': "nodes_ok S skew view ?w"
  proof (rule with_tables_ok[OF ok])
    show "session_step (nd_tables v) ?x" using session_created[of s "fst (nd_tables v)" "snd (nd_tables v)"] new s(1,2) by simp
    show "\<forall>s. s \<in> set (sd_sessions (snd ?x)) \<longrightarrow> UUID (se_realmId s) \<and> UUID (se_id s)"
      using nodes_okD(1)[OF ok] u s(2,3) by (auto simp: tables_ok_def ss)
  qed
  have k: "entry_key l = (ci_realmId q, rowId)" using s by (simp add: entry_key_def cachedRecordOf_def)
  have "live_pair (snd (nd_tables ?w)) (ci_realmId q, rowId)" unfolding live_pair_def session_key_def
    by (rule exI[of _ "s\<lparr>se_revokedAt := None, se_revokedReason := None\<rparr>"]) (simp add: ss s(2,3))
  then have none: "nd_ended ?w (entry_key l) = None" using live_not_ended[OF nodes_okD(3)[OF ok']] k by simp
  have "cr_createdAt (lv_record l) \<le> nd_now ?w + skew" using s(4,5) n by (simp add: cachedRecordOf_def near_def)
  then have rb: "read_by skew (nd_now ?w) (nd_ended ?w) (entry_key l) (cr_createdAt (lv_record l) + sv_cacheTtlMs S - sv_cacheTtlMs S)"
    using none by (simp add: read_by_def)
  have e: "entry_ok S skew (nd_now ?w) (nd_ended ?w) e" if "fillEntry S l (cr_createdAt (lv_record l) + sv_cacheTtlMs S) fillAt = Some (e, t)" for e t
    by (rule fillEntry_ok[OF that _ _ rb]) (use u k in simp_all)
  show ?thesis
  proof (rule nodes_ok_plain[OF ok'])
    fix e t assume "(e, t) \<in> nd_writes (?w\<lparr>nd_writes := nd_writes v \<union> set_option (fillEntry S l (cr_createdAt (lv_record l) + sv_cacheTtlMs S) fillAt)\<rparr>)"
    then have "(e, t) \<in> nd_writes v \<or> fillEntry S l (cr_createdAt (lv_record l) + sv_cacheTtlMs S) fillAt = Some (e, t)"
      by (cases "fillEntry S l (cr_createdAt (lv_record l) + sv_cacheTtlMs S) fillAt") auto
    then show "(e, t) \<in> nd_writes ?w \<or> entry_ok S skew (nd_now ?w) (nd_ended ?w) e" using e by auto
  qed simp_all
qed


context kv_store
begin

lemma node_step_ok:
  assumes "node_step K S skew v v'" and "nodes_ok S skew view v" and "2 * skew \<le> sv_cacheTtlMs S"
  shows "nodes_ok S skew view v'"
  using assms
proof (induction rule: node_step.induct)
  case (time_passes v t)
  note d = nodes_okD[OF time_passes(2)]
  have l: "later (nd_now v) (nd_ended v) (nd_tombs v) t (nd_ended v) (nd_tombs v)" using time_passes(1) by (rule later_same)
  show ?case
  proof (rule nodes_ok_next[OF time_passes(2)])
    show "ended_ok (nd_now (v\<lparr>nd_now := t\<rparr>)) (nd_ended (v\<lparr>nd_now := t\<rparr>)) (nd_tables (v\<lparr>nd_now := t\<rparr>))" using d(3) time_passes(1) by (fastforce simp: ended_ok_def)
    show "tombs_ok S (nd_now (v\<lparr>nd_now := t\<rparr>)) (nd_ended (v\<lparr>nd_now := t\<rparr>)) (nd_tombs (v\<lparr>nd_now := t\<rparr>)) (view (nd_cache (v\<lparr>nd_now := t\<rparr>)))"
      using d(5) time_passes(1) by (fastforce simp: tombs_ok_def)
  qed (use l later_cache_ok[OF l d(4)] d(1) in simp_all)
next
  case (tables_change v x)
  then show ?case by (intro with_tables_ok)
next
  case (created v at rowId q l d' fillAt)
  then show ?case by (intro created_ok)
next
  case (get_served v at realmId sid l)
  then show ?case by (intro get_served_ok)
next
  case (get_starts v at readAt lookup up realmId sid st node n)
  note new = get_starts_ok[OF get_starts(7,2,3,4)]
  show ?case by (rule nodes_ok_plain[OF get_starts(7)]) (use new in \<open>auto split: if_splits\<close>)
next
  case (get_joins v at lookup up realmId sid st node n r)
  have na: "getDecision S realmId sid at lookup \<noteq> Absent" by (rule startStage_some[OF get_joins(3)])
  have "up \<longrightarrow> past_tomb S (nd_tombs v) (realmId, sid) (nd_now v)" using lookup_waiter[OF get_joins(7,2) na] by blast
  moreover have "trip_ok S skew (nd_now v) (nd_ended v) (nd_tombs v) r" by (rule nodes_okD(7)[OF get_joins(7,5)])
  ultimately have "trip_ok S skew (nd_now v) (nd_ended v) (nd_tombs v) (r\<lparr>rt_waiters := (nd_now v, up) # rt_waiters r\<rparr>)"
    using get_joins(6) by (cases "rt_stage r") (auto simp: trip_ok_def)
  then show ?case by (intro nodes_ok_plain[OF get_joins(7)]) (auto split: if_splits)
next
  case (hit_touched v n r e at touchAt d' fillAt)
  then show ?case by (intro hit_touched_ok)
next
  case (hit_skipped v n r e at touchAt d' readAt)
  have "trip_ok S skew (nd_now v) (nd_ended v) (nd_tombs v) (r\<lparr>rt_stage := SRead True readAt\<rparr>)"
    using nodes_okD(7)[OF hit_skipped(6,1)] hit_skipped(5) by (simp add: trip_ok_def near_def)
  then show ?case by (intro nodes_ok_plain[OF hit_skipped(6)]) (auto split: if_splits)
next
  case (read_gone v n r)
  then show ?case by (intro finish_ok) simp_all
next
  case (read_ready v n r fill readAt judgedAt l fillAt)
  then show ?case by (intro read_ready_ok)
next
  case (read_touch v n r fill readAt judgedAt l)
  note new = read_touch_ok[OF read_touch(5,1,2,4)]
  show ?case by (rule nodes_ok_plain[OF read_touch(5)]) (use new in \<open>auto split: if_splits\<close>)
next
  case (touched v n r fill readAt judgedAt l touchAt written d' fillAt)
  then show ?case by (intro touched_ok)
next
  case (write_lands e ttlMs v)
  then show ?case by (intro write_lands_ok)
next
  case (write_lost v W)
  then show ?case by (intro nodes_ok_plain[OF write_lost(1)]) auto
next
  case (tombstone_set realmId sid v)
  show ?case by (rule tombstone_set_ok[OF tombstone_set(4,1,2) refl])
next
  case (entry_deleted realmId sid v)
  then show ?case by (intro entry_deleted_ok)
next
  case (flight_dropped v node k)
  then show ?case by (intro nodes_ok_plain[OF flight_dropped(1)]) auto
qed

lemma node_run_ok: "(node_step K S skew)\<^sup>*\<^sup>* v v' \<Longrightarrow> nodes_ok S skew view v \<Longrightarrow> 2 * skew \<le> sv_cacheTtlMs S \<Longrightarrow> nodes_ok S skew view v'"
  by (induction rule: rtranclp_induct) (auto intro: node_step_ok)

end

subsection \<open>How long an ended session is answered with\<close>

definition nodes_start :: "('s \<Rightarrow> string \<Rightarrow> (cache_text \<times> ms) option) \<Rightarrow> 's nodes \<Rightarrow> bool" where
  "nodes_start view v \<longleftrightarrow> fst (nd_tables v) = {} \<and> empty_db (snd (nd_tables v)) \<and> view (nd_cache v) = (\<lambda>_. None) \<and> nd_writes v = {}
     \<and> nd_trips v = (\<lambda>_. None) \<and> nd_ended v = (\<lambda>_. None) \<and> nd_tombs v = (\<lambda>_. None) \<and> nd_answers v = []"

lemma nodes_start_ok: "nodes_start view v \<Longrightarrow> nodes_ok S skew view v"
  using empty_db_ok[of "snd (nd_tables v)"]
  by (auto simp: nodes_start_def nodes_ok_def tables_ok_def ended_ok_def cache_ok_def tombs_ok_def empty_db_def)

text \<open>
  C4. On any number of nodes whose clocks are within \<open>skew\<close> of the true time, with twice the skew at most the
  cache time, and whatever cache reads fail, cache writes arrive late or never, round trips are shared
  and rows change: a read answered with a session that ended at \<open>r\<close> was answered from a PostgreSQL round trip begun before
  \<open>r\<close>, or from the cache less than the cache time and twice the skew after \<open>r\<close>. And once a tombstone
  reached the cache, a later read whose cache lookup was answered gets the session only by joining, after
  the tombstone's whole life of twice the cache time, a round trip begun before the end.
\<close>

theorem ended_session_not_served:
  assumes kv: "kv_store K view" and start: "nodes_start view v0" and run: "(node_step K S skew)\<^sup>*\<^sup>* v0 v" and skew: "2 * skew \<le> sv_cacheTtlMs S"
    and answer: "(k, lookedUp, begun, answered) \<in> set (nd_answers v)" and ended: "nd_ended v k = Some r"
  shows "(begun \<le> r \<or> (begun = lookedUp \<and> lookedUp < r + sv_cacheTtlMs S + 2 * skew))
    \<and> (\<forall>t. answered \<longrightarrow> nd_tombs v k = Some t \<longrightarrow> t < lookedUp \<longrightarrow> begun \<le> r \<and> t + 2 * sv_cacheTtlMs S \<le> lookedUp)
    \<and> \<not> live_pair (snd (nd_tables v)) k"
proof -
  have ok: "nodes_ok S skew view v" by (rule kv_store.node_run_ok[OF kv run nodes_start_ok[OF start] skew])
  then have "answer_ok S skew (nd_now v) (nd_ended v) (nd_tombs v) (k, lookedUp, begun, answered)" using answer unfolding nodes_ok_def by blast
  moreover have "\<not> live_pair (snd (nd_tables v)) k" by (rule ended_not_live[OF nodes_okD(3)[OF ok] ended])
  ultimately show ?thesis using ended by (simp add: answer_ok_def)
qed


lemma live_pair_code [code]: "live_pair d p = list_ex (\<lambda>s. session_key s = p \<and> unrevoked s) (sd_sessions d)"
  by (auto simp: live_pair_def list_ex_iff)

definition ex_sid :: string where "ex_sid = ''0199a000-0000-7000-8000-0000000000c1''"

definition ex_service :: session_service where "ex_service = \<lparr>sv_defaultMax = 3600, sv_interval = 60, sv_cacheTtlMs = 60000\<rparr>"

definition ex_create :: create_input where
  "ex_create = \<lparr>ci_realmId = example_realm_id, ci_userId = ''u'', ci_authTime = 900, ci_amr = [''pwd''], ci_recoveryCodeUsed = False,
     ci_assuranceLevel = None, ci_ipAddress = None, ci_userAgent = None, ci_issuedAt = None\<rparr>"

definition ex_empty :: session_db where
  "ex_empty = \<lparr>sd_realms = [\<lparr>rl_id = example_realm_id, rl_enabled = True, rl_isOperator = False, rl_issuer = None, rl_ssoMaxLifespan = None, rl_ssoIdleTimeout = Some 900\<rparr>],
     sd_clients = [], sd_sessions = [], sd_registry = [], sd_codes = [], sd_events = []\<rparr>"

definition ex_new :: "live_session \<times> session_db" where "ex_new = projr (service_create ex_service 1000 ex_sid ex_create ex_empty)"

definition ex_entry :: "cached_session \<times> ms" where
  "ex_entry = the (fillEntry ex_service (fst ex_new) (cr_createdAt (lv_record (fst ex_new)) + sv_cacheTtlMs ex_service) 1000)"

definition ex_v0 :: "(string \<rightharpoonup> cache_text \<times> ms) nodes" where
  "ex_v0 = \<lparr>nd_now = 1000, nd_tables = ({}, ex_empty), nd_cache = (\<lambda>_. None), nd_writes = {}, nd_trips = (\<lambda>_. None), nd_inFlight = (\<lambda>_ _. None),
     nd_ended = (\<lambda>_. None), nd_tombs = (\<lambda>_. None), nd_answers = []\<rparr>"

definition ex_v1 :: "(string \<rightharpoonup> cache_text \<times> ms) nodes" where
  "ex_v1 = (with_tables ({ex_sid}, snd ex_new) ex_v0)\<lparr>nd_writes := {ex_entry}\<rparr>"

definition ex_v2 :: "(string \<rightharpoonup> cache_text \<times> ms) nodes" where
  "ex_v2 = ex_v1\<lparr>nd_cache := cache_write mem_kv (nd_now ex_v1) (fst ex_entry) (snd ex_entry) (nd_cache ex_v1), nd_writes := nd_writes ex_v1 - {(fst ex_entry, snd ex_entry)}\<rparr>"

definition ex_v3 :: "(string \<rightharpoonup> cache_text \<times> ms) nodes" where
  "ex_v3 = with_tables ({ex_sid}, snd (session_revoke 1000 example_realm_id ex_sid ''sign_out'' None (snd ex_new))) ex_v2"

definition ex_v4 :: "(string \<rightharpoonup> cache_text \<times> ms) nodes" where "ex_v4 = ex_v3\<lparr>nd_now := 1500\<rparr>"

definition ex_v5 :: "(string \<rightharpoonup> cache_text \<times> ms) nodes" where
  "ex_v5 = ex_v4\<lparr>nd_answers := ((example_realm_id, ex_sid), nd_now ex_v4, nd_now ex_v4, True) # nd_answers ex_v4\<rparr>"

lemma ex_cache_steps:
  "node_step mem_kv ex_service 0 ex_v0 ex_v1" "node_step mem_kv ex_service 0 ex_v1 ex_v2"
  "node_step mem_kv ex_service 0 ex_v3 ex_v4"
proof -
  have c: "service_create ex_service 1000 ex_sid ex_create (snd (nd_tables ex_v0)) = Inr (fst ex_new, snd ex_new)"
  proof -
    have "\<not> isl (service_create ex_service 1000 ex_sid ex_create ex_empty)" by code_simp
    then show ?thesis by (cases "service_create ex_service 1000 ex_sid ex_create ex_empty") (auto simp: ex_new_def ex_v0_def)
  qed
  have f: "fillEntry ex_service (fst ex_new) (cr_createdAt (lv_record (fst ex_new)) + sv_cacheTtlMs ex_service) 1000 = Some ex_entry"
  proof -
    have "fillEntry ex_service (fst ex_new) (cr_createdAt (lv_record (fst ex_new)) + sv_cacheTtlMs ex_service) 1000 \<noteq> None" by code_simp
    then show ?thesis by (auto simp: ex_entry_def)
  qed
  have u: "UUID ex_sid" "UUID (ci_realmId ex_create)" by code_simp+
  have n: "near 0 ex_v0 1000" by (simp add: near_def ex_v0_def)
  have e: "ex_sid \<notin> fst (nd_tables ex_v0)" by (simp add: ex_v0_def)
  show "node_step mem_kv ex_service 0 ex_v0 ex_v1"
    using created[where K=mem_kv and S=ex_service and skew=0, OF n e u c n] by (simp add: f ex_v1_def ex_v0_def)
  show "node_step mem_kv ex_service 0 ex_v1 ex_v2" unfolding ex_v2_def by (rule write_lands) (simp add: ex_v1_def)
  show "node_step mem_kv ex_service 0 ex_v3 ex_v4" unfolding ex_v4_def by (rule time_passes) (simp add: ex_v3_def ex_v2_def ex_v1_def ex_v0_def)
qed

lemma ex_tables_steps: "node_step mem_kv ex_service 0 ex_v2 ex_v3" "node_step mem_kv ex_service 0 ex_v4 ex_v5"
proof -
  have t: "nd_tables ex_v2 = ({ex_sid}, snd ex_new)" by (simp add: ex_v2_def ex_v1_def)
  show "node_step mem_kv ex_service 0 ex_v2 ex_v3" unfolding ex_v3_def
  proof (rule tables_change)
    show "session_step (nd_tables ex_v2) ({ex_sid}, snd (session_revoke 1000 example_realm_id ex_sid ''sign_out'' None (snd ex_new)))"
      unfolding t by (rule session_revoked) (simp add: SESSION_REVOKED_REASONS_def)
    have "list_all (\<lambda>s. UUID (se_realmId s) \<and> UUID (se_id s)) (sd_sessions (snd (session_revoke 1000 example_realm_id ex_sid ''sign_out'' None (snd ex_new))))"
      by code_simp
    then show "\<forall>s. s \<in> set (sd_sessions (snd ({ex_sid}, snd (session_revoke 1000 example_realm_id ex_sid ''sign_out'' None (snd ex_new))))) \<longrightarrow>
        UUID (se_realmId s) \<and> UUID (se_id s)" by (simp add: list_all_iff)
  qed
  have "(case getDecision ex_service example_realm_id ex_sid 1500 (Some (cache_read mem_kv 1500 example_realm_id ex_sid (nd_cache ex_v2))) of Serve l \<Rightarrow> True | _ \<Rightarrow> False)"
    by code_simp
  then obtain l where l: "getDecision ex_service example_realm_id ex_sid 1500 (Some (cache_read mem_kv 1500 example_realm_id ex_sid (nd_cache ex_v2))) = Serve l"
    by (auto split: get_decision.split_asm)
  have c: "nd_cache ex_v4 = nd_cache ex_v2" "nd_now ex_v4 = 1500" by (simp_all add: ex_v4_def ex_v3_def)
  show "node_step mem_kv ex_service 0 ex_v4 ex_v5" unfolding ex_v5_def
    by (rule get_served[where at=1500 and l=l]) (use l in \<open>simp_all add: near_def c\<close>)
qed

text \<open>A session revoked at 1000 is still answered from the cache at 1500, before any tombstone, as the bound allows.\<close>

theorem ended_session_not_served_witness:
  "((example_realm_id, ex_sid), 1500, 1500, True) \<in> set (nd_answers ex_v5) \<and> nd_ended ex_v5 (example_realm_id, ex_sid) = Some 1000
   \<and> (1500 \<le> (1000 :: ms) \<or> 1500 < 1000 + sv_cacheTtlMs ex_service + 2 * 0) \<and> \<not> live_pair (snd (nd_tables ex_v5)) (example_realm_id, ex_sid)"
proof -
  note step = rtranclp.rtrancl_into_rtrancl[where r="node_step mem_kv ex_service 0"]
  have run: "(node_step mem_kv ex_service 0)\<^sup>*\<^sup>* ex_v0 ex_v5"
    by (rule step[OF step[OF step[OF step[OF step[OF rtranclp.rtrancl_refl ex_cache_steps(1)] ex_cache_steps(2)] ex_tables_steps(1)] ex_cache_steps(3)] ex_tables_steps(2)])
  have start: "nodes_start id ex_v0" by (simp add: nodes_start_def ex_v0_def empty_db_def ex_empty_def)
  have s: "2 * 0 \<le> sv_cacheTtlMs ex_service" by (simp add: ex_service_def)
  have a: "((example_realm_id, ex_sid), 1500, 1500, True) \<in> set (nd_answers ex_v5)" by (simp add: ex_v5_def ex_v4_def)
  have "live_pair (snd ex_new) (example_realm_id, ex_sid)"
    "\<not> live_pair (snd (session_revoke 1000 example_realm_id ex_sid ''sign_out'' None (snd ex_new))) (example_realm_id, ex_sid)" by code_simp+
  then have e: "nd_ended ex_v5 (example_realm_id, ex_sid) = Some 1000"
    by (simp add: ex_v5_def ex_v4_def ex_v3_def with_tables_def) (simp add: ex_v2_def ex_v1_def ex_v0_def with_tables_def)
  from ended_session_not_served[OF mem_kv.kv_store_axioms start run s a e] show ?thesis using a e by blast
qed

end
