(* ===== verification/Positions.thy ===== *)
theory Positions
  imports Prelude
begin

text \<open>
  A place in a realm's event stream as the opaque text its readers pass back
  (\<open>libs/infra/db/src/lib/events/position.ts\<close>): \<open>p1:<realm>:<xid>:<seq>\<close> in base64url. The two directions of
  Node's base64url, the lenient decoder included, are part of the model.
\<close>

subsection \<open>Base64url\<close>

definition B64_ALPHABET :: string where
  "B64_ALPHABET = ''ABCDEFGHIJKLMNOPQRSTUVWXYZabcdefghijklmnopqrstuvwxyz0123456789-_''"

definition b64_char :: "nat \<Rightarrow> char" where
  "b64_char n = B64_ALPHABET ! n"

definition b64_val :: "char \<Rightarrow> nat option" where
  "b64_val c = (let i = length (takeWhile (\<lambda>x. x \<noteq> c) B64_ALPHABET) in if i < 64 then Some i else None)"

fun sextets :: "nat list \<Rightarrow> nat list" where
  "sextets (a # b # c # bs) = a div 4 # (a mod 4 * 16 + b div 16) # (b mod 16 * 4 + c div 64) # c mod 64 # sextets bs"
| "sextets [a, b] = [a div 4, a mod 4 * 16 + b div 16, b mod 16 * 4]"
| "sextets [a] = [a div 4, a mod 4 * 16]"
| "sextets [] = []"

text \<open>Node's decoder drops a last character or bits that make no whole byte.\<close>

fun octets_of :: "nat list \<Rightarrow> nat list" where
  "octets_of (p # q # r # s # ss) = (p * 4 + q div 16) # (q mod 16 * 16 + r div 4) # (r mod 4 * 64 + s) # octets_of ss"
| "octets_of [p, q, r] = [p * 4 + q div 16, q mod 16 * 16 + r div 4]"
| "octets_of [p, q] = [p * 4 + q div 16]"
| "octets_of _ = []"

definition base64url :: "string \<Rightarrow> string" where
  "base64url s = map b64_char (sextets (map of_char s))"

definition from_base64url :: "string \<Rightarrow> string" where
  "from_base64url s = map char_of (octets_of (map (the \<circ> b64_val) s))"

definition B64_TEXT :: "string \<Rightarrow> bool" where
  "B64_TEXT s \<longleftrightarrow> s \<noteq> '''' \<and> list_all (\<lambda>c. b64_val c \<noteq> None) s"

lemma sextets_bound: "\<forall>b \<in> set bs. b < 256 \<Longrightarrow> \<forall>x \<in> set (sextets bs). x < 64"
proof (induction bs rule: sextets.induct)
  case (1 a b c bs)
  have "a div 4 < 64" "b div 16 < 16" "c div 64 < 4" using "1.prems" by (simp_all add: less_mult_imp_div_less)
  moreover have "a mod 4 < 4" "b mod 16 < 16" "c mod 64 < 64" by simp_all
  ultimately have "a mod 4 * 16 + b div 16 < 64" "b mod 16 * 4 + c div 64 < 64" by linarith+
  then show ?case using 1 \<open>a div 4 < 64\<close> by simp
next
  case (2 a b)
  have "a div 4 < 64" "b div 16 < 16" using "2.prems" by (simp_all add: less_mult_imp_div_less)
  moreover have "a mod 4 < 4" "b mod 16 < 16" by simp_all
  ultimately show ?case by simp
next
  case (3 a)
  then show ?case by (simp add: less_mult_imp_div_less)
qed simp

lemma octets_sextets: "\<forall>b \<in> set bs. b < 256 \<Longrightarrow> octets_of (sextets bs) = bs"
proof (induction bs rule: sextets.induct)
  case (1 a b c bs)
  have "b div 16 < 16" "c div 64 < 4" using "1.prems" by (simp_all add: less_mult_imp_div_less)
  then have "(a mod 4 * 16 + b div 16) div 16 = a mod 4" "(a mod 4 * 16 + b div 16) mod 16 = b div 16"
    "(b mod 16 * 4 + c div 64) div 4 = b mod 16" "(b mod 16 * 4 + c div 64) mod 4 = c div 64" by simp_all
  then show ?case using 1 by (simp add: mult.commute)
next
  case (2 a b)
  have "b div 16 < 16" using "2.prems" by (simp add: less_mult_imp_div_less)
  then have "(a mod 4 * 16 + b div 16) div 16 = a mod 4" "(a mod 4 * 16 + b div 16) mod 16 = b div 16" by simp_all
  then show ?case by (simp add: mult.commute)
next
  case (3 a)
  then show ?case by (simp add: mult.commute)
qed simp

lemma B64_ALPHABET_facts: "length B64_ALPHABET = 64" "distinct B64_ALPHABET"
  by (simp_all add: B64_ALPHABET_def)

lemma takeWhile_nth: "distinct xs \<Longrightarrow> n < length xs \<Longrightarrow> length (takeWhile (\<lambda>x. x \<noteq> xs ! n) xs) = n"
proof (induction xs arbitrary: n)
  case (Cons x xs)
  then show ?case by (cases n) (auto simp: nth_eq_iff_index_eq)
qed simp

lemma b64_val_char: "n < 64 \<Longrightarrow> b64_val (b64_char n) = Some n"
  using takeWhile_nth[of B64_ALPHABET n] by (simp add: b64_val_def b64_char_def B64_ALPHABET_facts)

lemma from_base64url_base64url: "from_base64url (base64url s) = s"
proof -
  let ?bs = "map of_char s :: nat list"
  have b: "\<forall>b \<in> set ?bs. b < 256" by simp
  have "map (the \<circ> b64_val) (base64url s) = sextets ?bs"
    using sextets_bound[OF b] by (auto simp: base64url_def b64_val_char intro!: map_idI)
  then show ?thesis using octets_sextets[OF b] by (simp add: from_base64url_def comp_def)
qed

lemma base64url_text: "s \<noteq> '''' \<Longrightarrow> B64_TEXT (base64url s)"
proof -
  assume "s \<noteq> ''''"
  have "sextets (map of_char s) \<noteq> []" using \<open>s \<noteq> ''''\<close> by (cases "map of_char s :: nat list" rule: sextets.cases) auto
  moreover have "\<forall>b \<in> set (map of_char s :: nat list). b < 256" by simp
  ultimately show ?thesis using sextets_bound by (fastforce simp: B64_TEXT_def base64url_def list_all_iff b64_val_char)
qed

lemma length_sextets: "length (sextets bs) \<le> 4 * ((length bs + 2) div 3)"
proof (induction bs rule: sextets.induct)
  case (1 a b c bs)
  have "(length (a # b # c # bs) + 2) div 3 = Suc ((length bs + 2) div 3)" by simp
  then show ?case using 1 by simp
qed simp_all

lemma length_base64url: "length (base64url s) \<le> 4 * ((length s + 2) div 3)"
  using length_sextets[of "map of_char s"] by (simp add: base64url_def)

subsection \<open>Positions\<close>

record position_parts =
  pp_realmId :: string
  pp_xid :: nat
  pp_seq :: nat

definition LAYOUT :: string where "LAYOUT = ''p1''"
definition XID_MAX :: nat where "XID_MAX = 2 ^ 64 - 1"
definition SEQ_MAX :: nat where "SEQ_MAX = 2 ^ 63 - 1"
definition ENCODED_MAX_LENGTH :: nat where "ENCODED_MAX_LENGTH = 128"

definition checkParts :: "position_parts \<Rightarrow> bool" where
  "checkParts p \<longleftrightarrow> UUID (pp_realmId p) \<and> pp_xid p \<le> XID_MAX \<and> pp_seq p \<le> SEQ_MAX"

definition position_text :: "position_parts \<Rightarrow> string" where
  "position_text p = LAYOUT @ '':'' @ pp_realmId p @ '':'' @ dec (pp_xid p) @ '':'' @ dec (pp_seq p)"

definition encodeEventPosition :: "position_parts \<Rightarrow> string option" where
  "encodeEventPosition p = (if checkParts p then Some (base64url (position_text p)) else None)"

text \<open>A number as the pattern takes it: no leading zero, at most so many digits.\<close>

definition numeral_of :: "nat \<Rightarrow> string \<Rightarrow> nat option" where
  "numeral_of digits s = (case undec s of Some n \<Rightarrow> if dec n = s \<and> length s \<le> digits then Some n else None | None \<Rightarrow> None)"

definition DECODED_PATTERN :: "string \<Rightarrow> position_parts option" where
  "DECODED_PATTERN s = (case split_on (CHR '':'') s of
      [l, r, x, q] \<Rightarrow> if l = LAYOUT \<and> UUID r then
          (case (numeral_of 20 x, numeral_of 19 q) of
             (Some xid, Some seq) \<Rightarrow> Some \<lparr>pp_realmId = r, pp_xid = xid, pp_seq = seq\<rparr>
           | _ \<Rightarrow> None)
        else None
    | _ \<Rightarrow> None)"

definition decodeEventPosition :: "string \<Rightarrow> position_parts option" where
  "decodeEventPosition position =
     (if position = '''' \<or> length position > ENCODED_MAX_LENGTH \<or> \<not> B64_TEXT position then None
      else case DECODED_PATTERN (from_base64url position) of
        None \<Rightarrow> None
      | Some parts \<Rightarrow> if checkParts parts \<and> encodeEventPosition parts = Some position then Some parts else None)"

definition eventStreamStart :: "string \<Rightarrow> string option" where
  "eventStreamStart realmId = encodeEventPosition \<lparr>pp_realmId = realmId, pp_xid = 0, pp_seq = 0\<rparr>"

definition compareEventPositions :: "position_parts \<Rightarrow> position_parts \<Rightarrow> int option" where
  "compareEventPositions a b =
     (if pp_realmId a \<noteq> pp_realmId b then None
      else if pp_xid a \<noteq> pp_xid b then Some (if pp_xid a < pp_xid b then - 1 else 1)
      else if pp_seq a \<noteq> pp_seq b then Some (if pp_seq a < pp_seq b then - 1 else 1)
      else Some 0)"

lemma dec_length: "0 < k \<Longrightarrow> n < 10 ^ k \<Longrightarrow> length (dec n) \<le> k"
proof (induction k arbitrary: n)
  case (Suc k)
  show ?case
  proof (cases "n < 10")
    case True
    then show ?thesis by (simp add: dec.simps[of n])
  next
    case False
    then have "0 < k" using Suc.prems(2) by (cases k) auto
    moreover have "n div 10 < 10 ^ k" using Suc.prems(2) by (simp add: less_mult_imp_div_less mult.commute)
    ultimately have "length (dec (n div 10)) \<le> k" using Suc.IH by blast
    then show ?thesis using False by (simp add: dec.simps[of n])
  qed
qed simp

lemma UUID_shape: "UUID s \<Longrightarrow> length s = 36 \<and> CHR '':'' \<notin> set s"
proof -
  assume u: "UUID s"
  have "s ! i \<noteq> CHR '':''" if "i < 36" for i
  proof -
    have "(i, s ! i) \<in> set (zip [0..<36] s)" using u that by (auto simp: UUID_def set_zip intro!: exI[of _ i])
    then show ?thesis using u by (auto simp: UUID_def list_all_iff hex_lower_def split: if_splits)
  qed
  then show ?thesis using u by (auto simp: UUID_def in_set_conv_nth)
qed

lemma numeral_of_dec: "0 < k \<Longrightarrow> n < 10 ^ k \<Longrightarrow> numeral_of k (dec n) = Some n"
  using dec_length[of k n] by (simp add: numeral_of_def)

lemma DECODED_PATTERN_text: "checkParts p \<Longrightarrow> DECODED_PATTERN (position_text p) = Some p"
proof -
  assume c: "checkParts p"
  have u: "UUID (pp_realmId p)" and x: "pp_xid p < 10 ^ 20" and q: "pp_seq p < 10 ^ 19"
    using c by (simp_all add: checkParts_def XID_MAX_def SEQ_MAX_def)
  have s: "split_on (CHR '':'') (position_text p) = [LAYOUT, pp_realmId p, dec (pp_xid p), dec (pp_seq p)]"
    using UUID_shape[OF u] dec_no_colon[of "pp_xid p"] dec_no_colon[of "pp_seq p"]
    by (simp add: position_text_def LAYOUT_def split_on_append split_on_part)
  have "\<lparr>pp_realmId = pp_realmId p, pp_xid = pp_xid p, pp_seq = pp_seq p\<rparr> = p" by simp
  with numeral_of_dec[OF _ x] numeral_of_dec[OF _ q] s u show ?thesis by (simp add: DECODED_PATTERN_def)
qed

lemma position_text_length: "checkParts p \<Longrightarrow> length (base64url (position_text p)) \<le> ENCODED_MAX_LENGTH"
proof -
  assume c: "checkParts p"
  have "length (dec (pp_xid p)) \<le> 20" "length (dec (pp_seq p)) \<le> 19"
    using c dec_length[of 20 "pp_xid p"] dec_length[of 19 "pp_seq p"] by (simp_all add: checkParts_def XID_MAX_def SEQ_MAX_def)
  then have "length (position_text p) \<le> 80" using UUID_shape[of "pp_realmId p"] c by (simp add: position_text_def LAYOUT_def checkParts_def)
  then have "(length (position_text p) + 2) div 3 \<le> 27" by simp
  then show ?thesis using length_base64url[of "position_text p"] by (simp add: ENCODED_MAX_LENGTH_def)
qed

text \<open>One position has one spelling: decoding takes exactly the texts the encoder writes.\<close>

lemma decode_iff_encode: "decodeEventPosition t = Some p \<longleftrightarrow> encodeEventPosition p = Some t"
proof
  assume "decodeEventPosition t = Some p"
  then show "encodeEventPosition p = Some t" by (auto simp: decodeEventPosition_def split: if_splits option.splits)
next
  assume e: "encodeEventPosition p = Some t"
  then have c: "checkParts p" and t: "t = base64url (position_text p)" by (auto simp: encodeEventPosition_def split: if_splits)
  have "position_text p \<noteq> ''''" by (simp add: position_text_def LAYOUT_def)
  then have "B64_TEXT t" using base64url_text t by blast
  with c t e position_text_length[OF c] show "decodeEventPosition t = Some p"
    by (auto simp: decodeEventPosition_def from_base64url_base64url DECODED_PATTERN_text B64_TEXT_def)
qed

end
