(* ===== verification/Event_Log.thy ===== *)
theory Event_Log
  imports Table Positions "HOL-Library.Product_Lexorder"
begin

text \<open>
  The event store: one append-only table that is both the outbox and the event log
  (\<open>libs/infra/db/src/lib/repositories/events.repository.ts\<close>, \<open>events/chain.ts\<close>, \<open>events/position.ts\<close>).
  A row belongs to the transaction that wrote it and is visible to others once that transaction has
  committed; rows are read in the order of transaction and insertion, below the snapshot's horizon.
  A realm's admin events form a hash chain. The registry of event types, SHA-256 and the canonical
  JSON of an envelope are arguments; a time is its milliseconds, the payload its JSON text.
\<close>

subsection \<open>Envelopes and rows\<close>

datatype event_category = UserCategory | AdminCategory

record request_info =
  ri_traceId :: "string option"
  ri_ip :: "string option"
  ri_userAgent :: "string option"

record envelope =
  en_id :: string
  en_type :: string
  en_time :: ms
  en_realm :: string
  en_category :: event_category
  en_actor :: "(string \<times> string option \<times> string list option) option"
  en_subject :: "(string \<times> string) option"
  en_client :: "string option"
  en_request :: "request_info option"
  en_data :: string

record event_row =
  er_seq :: nat
  er_xid :: nat
  er_id :: string
  er_realmId :: string
  er_category :: event_category
  er_type :: string
  er_time :: ms
  er_actorType :: "string option"
  er_actorId :: "string option"
  er_actorDelegationChain :: "string list option"
  er_subjectType :: "string option"
  er_subjectId :: "string option"
  er_clientId :: "string option"
  er_requestId :: "string option"
  er_requestIp :: "string option"
  er_requestUserAgent :: "string option"
  er_data :: string
  er_schemaVersion :: nat
  er_prevHash :: "string option"
  er_hash :: "string option"

record unchecked_event =
  ue_type :: string
  ue_realm :: string
  ue_actor :: "(string \<times> string option \<times> string list option) option"
  ue_subject :: "(string \<times> string) option"
  ue_client :: "string option"
  ue_request :: "request_info option"
  ue_data :: string

text \<open>The registry: the category of a type, and the check of an envelope of it.\<close>

record event_registry =
  gr_category :: "string \<Rightarrow> event_category option"
  gr_parse :: "envelope \<Rightarrow> envelope option"

datatype event_error = EventValidationError | EventHashError | EventPositionError | EventTypeError | EventStoreError

definition EVENT_ROW_SCHEMA_VERSION :: nat where "EVENT_ROW_SCHEMA_VERSION = 1"
definition EVENT_READ_LIMIT_MAX :: nat where "EVENT_READ_LIMIT_MAX = 1000"

definition isEmptyObject :: "request_info \<Rightarrow> bool" where
  "isEmptyObject q \<longleftrightarrow> ri_traceId q = None \<and> ri_ip q = None \<and> ri_userAgent q = None"

definition request_strings :: "request_info \<Rightarrow> string list" where
  "request_strings q = List.maps (\<lambda>x. case x of None \<Rightarrow> [] | Some s \<Rightarrow> [s]) [ri_traceId q, ri_ip q, ri_userAgent q]"

definition nulPaths :: "envelope \<Rightarrow> string list" where
  "nulPaths e = filter (\<lambda>s. CHR 0x00 \<in> set s)
     ([en_id e, en_type e, en_realm e, en_data e]
      @ (case en_actor e of None \<Rightarrow> [] | Some (t, i, c) \<Rightarrow> t # (case i of None \<Rightarrow> [] | Some s \<Rightarrow> [s]) @ (case c of None \<Rightarrow> [] | Some l \<Rightarrow> l))
      @ (case en_subject e of None \<Rightarrow> [] | Some (t, i) \<Rightarrow> [t, i])
      @ (case en_client e of None \<Rightarrow> [] | Some c \<Rightarrow> [c])
      @ (case en_request e of None \<Rightarrow> [] | Some q \<Rightarrow> request_strings q))"

definition row_of_envelope :: "envelope \<Rightarrow> event_row" where
  "row_of_envelope e = \<lparr>er_seq = 0, er_xid = 0, er_id = en_id e, er_realmId = en_realm e, er_category = en_category e, er_type = en_type e,
     er_time = en_time e, er_actorType = map_option fst (en_actor e), er_actorId = Option.bind (en_actor e) (fst \<circ> snd),
     er_actorDelegationChain = Option.bind (en_actor e) (snd \<circ> snd), er_subjectType = map_option fst (en_subject e),
     er_subjectId = map_option snd (en_subject e), er_clientId = en_client e, er_requestId = Option.bind (en_request e) ri_traceId,
     er_requestIp = Option.bind (en_request e) ri_ip, er_requestUserAgent = Option.bind (en_request e) ri_userAgent, er_data = en_data e,
     er_schemaVersion = EVENT_ROW_SCHEMA_VERSION, er_prevHash = None, er_hash = None\<rparr>"

text \<open>\<open>eventId\<close> is the fresh UUIDv7 of the time \<open>at\<close>.\<close>

definition buildEvent :: "event_registry \<Rightarrow> string \<Rightarrow> ms \<Rightarrow> unchecked_event \<Rightarrow> event_error + event_row \<times> envelope" where
  "buildEvent G eventId at e = (case gr_category G (ue_type e) of
      None \<Rightarrow> Inl EventValidationError
    | Some c \<Rightarrow> (case gr_parse G \<lparr>en_id = eventId, en_type = ue_type e, en_time = at, en_realm = map to_lower (ue_realm e), en_category = c,
            en_actor = ue_actor e, en_subject = ue_subject e, en_client = ue_client e,
            en_request = (case ue_request e of None \<Rightarrow> None | Some q \<Rightarrow> if isEmptyObject q then None else Some q), en_data = ue_data e\<rparr> of
        None \<Rightarrow> Inl EventValidationError
      | Some env \<Rightarrow> if nulPaths env \<noteq> [] then Inl EventValidationError else Inr (row_of_envelope env, env)))"

definition envelopeOf :: "event_row \<Rightarrow> envelope option" where
  "envelopeOf r =
     (if er_schemaVersion r \<noteq> EVENT_ROW_SCHEMA_VERSION then None
      else let request = \<lparr>ri_traceId = er_requestId r, ri_ip = er_requestIp r, ri_userAgent = er_requestUserAgent r\<rparr>
           in Some \<lparr>en_id = er_id r, en_type = er_type r, en_time = er_time r, en_realm = er_realmId r, en_category = er_category r,
                en_actor = map_option (\<lambda>t. (t, er_actorId r, er_actorDelegationChain r)) (er_actorType r),
                en_subject = (case (er_subjectType r, er_subjectId r) of (Some t, Some i) \<Rightarrow> Some (t, i) | _ \<Rightarrow> None),
                en_client = er_clientId r, en_request = (if isEmptyObject request then None else Some request), en_data = er_data r\<rparr>)"

text \<open>A row reads back as the envelope it was written from, wherever that has no empty \<open>request\<close>.\<close>

lemma envelopeOf_row: "\<forall>q. en_request e = Some q \<longrightarrow> \<not> isEmptyObject q \<Longrightarrow> envelopeOf (row_of_envelope e) = Some e"
  by (cases "en_actor e"; cases "en_subject e"; cases "en_request e")
    (auto simp: envelopeOf_def row_of_envelope_def isEmptyObject_def)

subsection \<open>The hash of an admin row\<close>

record chain_deps =
  ch_sha256 :: "string \<Rightarrow> string"
  ch_canonicalizeJson :: "envelope \<Rightarrow> string option"

definition EVENT_CHAIN_GENESIS_HASH :: string where "EVENT_CHAIN_GENESIS_HASH = replicate 32 (CHR 0x00)"
definition EVENT_CHAIN_FORMAT :: string where "EVENT_CHAIN_FORMAT = ''qauth-event-chain/1-rc.0''"
definition MAX_XID8 :: nat where "MAX_XID8 = 2 ^ 64 - 1"

definition be64 :: "nat \<Rightarrow> string" where
  "be64 n = map (\<lambda>i. char_of (n div 256 ^ (7 - i) mod 256)) [0..<8]"

definition chain_text :: "string \<Rightarrow> nat \<Rightarrow> string \<Rightarrow> string" where
  "chain_text prevHash xid json = EVENT_CHAIN_FORMAT @ [CHR 0x00] @ prevHash @ be64 xid @ json"

definition eventChainHash :: "chain_deps \<Rightarrow> string \<Rightarrow> nat \<Rightarrow> envelope \<Rightarrow> string option" where
  "eventChainHash C prevHash xid env =
     (if length prevHash \<noteq> 32 \<or> xid > MAX_XID8 then None
      else map_option (\<lambda>json. ch_sha256 C (chain_text prevHash xid json)) (ch_canonicalizeJson C env))"

datatype chain_break = PrevHashMismatch | UnreadableRow | HashMismatch | AnchorMissing | AnchorMismatch

definition checkChainRow :: "chain_deps \<Rightarrow> event_row \<Rightarrow> string \<Rightarrow> chain_break option" where
  "checkChainRow C r expectedPrev =
     (if er_prevHash r \<noteq> Some expectedPrev then Some PrevHashMismatch
      else case Option.bind (envelopeOf r) (eventChainHash C expectedPrev (er_xid r)) of
        None \<Rightarrow> Some UnreadableRow
      | Some h \<Rightarrow> if er_hash r = Some h then None else Some HashMismatch)"

subsection \<open>The table and its transactions\<close>

text \<open>
  \<open>lg_open\<close> holds the ids of the transactions in progress; the rows of \<open>lg_rows\<close> they wrote are theirs
  alone until they commit. \<open>lg_locks\<close> says which transaction holds a realm's chain lock.
\<close>

type_synonym pos = "nat \<times> nat"

record event_log =
  lg_nextXid :: nat
  lg_open :: "nat list"
  lg_nextSeq :: nat
  lg_rows :: "event_row tab"
  lg_anchors :: "(string \<times> nat \<times> string) list"
  lg_locks :: "(string \<times> nat) list"

definition row_pos :: "event_row \<Rightarrow> pos" where
  "row_pos r = (er_xid r, er_seq r)"

definition committed :: "event_log \<Rightarrow> event_row list" where
  "committed L = filter (\<lambda>r. er_xid r \<notin> set (lg_open L)) (lg_rows L)"

definition visible :: "nat \<Rightarrow> event_log \<Rightarrow> event_row list" where
  "visible xid L = filter (\<lambda>r. er_xid r \<notin> set (lg_open L) \<or> er_xid r = xid) (lg_rows L)"

text \<open>\<open>pg_snapshot_xmin(pg_current_snapshot())\<close>: the oldest transaction in progress, or the next id.\<close>

definition horizon :: "event_log \<Rightarrow> nat" where
  "horizon L = Min (insert (lg_nextXid L) (set (lg_open L)))"

definition chain_rows :: "string \<Rightarrow> event_row list \<Rightarrow> event_row list" where
  "chain_rows realmId rs = sort_key er_seq (filter (\<lambda>r. er_realmId r = realmId \<and> er_hash r \<noteq> None) rs)"

definition events_admin_chain_head :: "string \<Rightarrow> event_row list \<Rightarrow> string option" where
  "events_admin_chain_head realmId rs = (case chain_rows realmId rs of [] \<Rightarrow> None | x # xs \<Rightarrow> er_hash (last (x # xs)))"

definition insertEvent :: "nat \<Rightarrow> event_row \<Rightarrow> event_log \<Rightarrow> event_log" where
  "insertEvent xid r L = L\<lparr>lg_rows := lg_rows L @ [r\<lparr>er_seq := lg_nextSeq L, er_xid := xid\<rparr>], lg_nextSeq := Suc (lg_nextSeq L)\<rparr>"

definition chain_lock_free :: "string \<Rightarrow> nat \<Rightarrow> event_log \<Rightarrow> bool" where
  "chain_lock_free realmId xid L \<longleftrightarrow> list_all (\<lambda>(r, x). r = realmId \<longrightarrow> x = xid) (lg_locks L)"

text \<open>
  A row that does not hash as written is taken back with its savepoint; the number the identity gave is
  spent. The lock is held to the end of the transaction.
\<close>

definition appendToChain :: "chain_deps \<Rightarrow> nat \<Rightarrow> event_row \<Rightarrow> envelope \<Rightarrow> event_log \<Rightarrow> (event_error + string) \<times> event_log" where
  "appendToChain C xid r env L =
     (let L1 = L\<lparr>lg_locks := (er_realmId r, xid) # lg_locks L\<rparr>;
          prevHash = (case events_admin_chain_head (er_realmId r) (visible xid L1) of None \<Rightarrow> EVENT_CHAIN_GENESIS_HASH | Some h \<Rightarrow> h)
      in case eventChainHash C prevHash xid env of
           None \<Rightarrow> (Inl EventHashError, L1)
         | Some h \<Rightarrow>
             let L2 = insertEvent xid (r\<lparr>er_prevHash := Some prevHash, er_hash := Some h\<rparr>) L1
             in if checkChainRow C (last (lg_rows L2)) prevHash \<noteq> None then (Inl EventHashError, L1\<lparr>lg_nextSeq := Suc (lg_nextSeq L1)\<rparr>)
                else (Inr (er_id r), L2))"

definition emit_event :: "chain_deps \<Rightarrow> event_registry \<Rightarrow> nat \<Rightarrow> string \<Rightarrow> ms \<Rightarrow> unchecked_event \<Rightarrow> event_log \<Rightarrow> (event_error + string) \<times> event_log" where
  "emit_event C G xid eventId at e L = (case buildEvent G eventId at e of
      Inl err \<Rightarrow> (Inl err, L)
    | Inr (r, env) \<Rightarrow> if er_category r = AdminCategory then appendToChain C xid r env L else (Inr (er_id r), insertEvent xid r L))"

definition begin_tx :: "event_log \<Rightarrow> nat \<times> event_log" where
  "begin_tx L = (lg_nextXid L, L\<lparr>lg_nextXid := Suc (lg_nextXid L), lg_open := lg_nextXid L # lg_open L\<rparr>)"

definition commit_tx :: "nat \<Rightarrow> event_log \<Rightarrow> event_log" where
  "commit_tx xid L = L\<lparr>lg_open := filter (\<lambda>x. x \<noteq> xid) (lg_open L), lg_locks := filter (\<lambda>(_, x). x \<noteq> xid) (lg_locks L)\<rparr>"

definition abort_tx :: "nat \<Rightarrow> event_log \<Rightarrow> event_log" where
  "abort_tx xid L = (commit_tx xid L)\<lparr>lg_rows := filter (\<lambda>r. er_xid r \<noteq> xid) (lg_rows L)\<rparr>"

definition emitInOwnTransaction :: "chain_deps \<Rightarrow> event_registry \<Rightarrow> string \<Rightarrow> ms \<Rightarrow> unchecked_event \<Rightarrow> event_log \<Rightarrow> (event_error + string) \<times> event_log" where
  "emitInOwnTransaction C G eventId at e L = (case buildEvent G eventId at e of
      Inl err \<Rightarrow> (Inl err, L)
    | Inr (r, env) \<Rightarrow>
        let (xid, L1) = begin_tx L;
            (answer, L2) = (if er_category r = AdminCategory then appendToChain C xid r env L1 else (Inr (er_id r), insertEvent xid r L1))
        in case answer of Inl err \<Rightarrow> (Inl err, abort_tx xid L2) | Inr i \<Rightarrow> (Inr i, commit_tx xid L2))"

subsection \<open>Reading the stream\<close>

record event_filters =
  ef_types :: "string list option"
  ef_category :: "event_category option"
  ef_subjectId :: "string option"
  ef_clientId :: "string option"
  ef_fromTime :: "ms option"

definition filterConditions :: "event_filters \<Rightarrow> event_row \<Rightarrow> bool" where
  "filterConditions f r \<longleftrightarrow> (case ef_types f of None \<Rightarrow> True | Some ts \<Rightarrow> er_type r \<in> set ts)
     \<and> (case ef_category f of None \<Rightarrow> True | Some c \<Rightarrow> er_category r = c)
     \<and> (case ef_subjectId f of None \<Rightarrow> True | Some i \<Rightarrow> er_subjectId r = Some i)
     \<and> (case ef_clientId f of None \<Rightarrow> True | Some i \<Rightarrow> er_clientId r = Some i)
     \<and> (case ef_fromTime f of None \<Rightarrow> True | Some t \<Rightarrow> t \<le> er_time r)"

text \<open>The rows after a position and below the horizon, in order, and where a page leaves its reader.\<close>

definition rows_after :: "string \<Rightarrow> pos \<Rightarrow> (event_row \<Rightarrow> bool) \<Rightarrow> event_log \<Rightarrow> event_row list" where
  "rows_after realmId from P L =
     sort_key row_pos (filter (\<lambda>r. er_realmId r = realmId \<and> from < row_pos r \<and> er_xid r < horizon L \<and> P r) (committed L))"

definition next_position :: "pos \<Rightarrow> nat \<Rightarrow> event_row list \<Rightarrow> event_log \<Rightarrow> pos" where
  "next_position from limit page L =
     (if length page = limit then row_pos (last page) else if (horizon L, 0) > from then (horizon L, 0) else from)"

definition toStoredEvent :: "event_row \<Rightarrow> (string \<times> envelope) option" where
  "toStoredEvent r = (case (encodeEventPosition \<lparr>pp_realmId = er_realmId r, pp_xid = er_xid r, pp_seq = er_seq r\<rparr>, envelopeOf r) of
      (Some p, Some e) \<Rightarrow> Some (p, e) | _ \<Rightarrow> None)"

definition readAfter :: "string \<Rightarrow> string \<Rightarrow> int \<Rightarrow> event_filters \<Rightarrow> event_log \<Rightarrow> event_error + (string \<times> envelope) list \<times> string" where
  "readAfter realmId position limit f L =
     (let realm = map to_lower realmId in
      if \<not> UUID realm then Inl EventTypeError
      else case decodeEventPosition position of
        None \<Rightarrow> Inl EventPositionError
      | Some from \<Rightarrow>
          if pp_realmId from \<noteq> realm then Inl EventPositionError
          else if limit < 1 \<or> limit > int EVENT_READ_LIMIT_MAX \<or> (\<exists>t \<in> set_option (ef_fromTime f). \<not> isSafeInteger t) then Inl EventTypeError
          else let at = (pp_xid from, pp_seq from);
                   page = take (nat limit) (rows_after realm at (filterConditions f) L);
                   stored = map toStoredEvent page;
                   next = next_position at (nat limit) page L
               in if None \<in> set stored then Inl EventStoreError
                  else (case encodeEventPosition \<lparr>pp_realmId = realm, pp_xid = fst next, pp_seq = snd next\<rparr> of
                      None \<Rightarrow> Inl EventPositionError
                    | Some p \<Rightarrow> Inr (map the stored, p)))"

subsection \<open>Verifying the chain\<close>

type_synonym chain_point = "nat \<times> string"

datatype chain_report =
  ChainOk chain_point nat "(string \<times> chain_point) option"
| ChainBroken chain_point nat "string option" nat chain_break

fun check_rows :: "chain_deps \<Rightarrow> string \<Rightarrow> nat \<Rightarrow> (string \<times> chain_point) option \<Rightarrow> event_row list
    \<Rightarrow> (nat \<times> event_row \<times> chain_break) + (string \<times> nat \<times> (string \<times> chain_point) option)" where
  "check_rows C prev n head [] = Inr (prev, n, head)"
| "check_rows C prev n head (r # rs) = (case checkChainRow C r prev of
      Some b \<Rightarrow> Inl (n, r, b)
    | None \<Rightarrow> check_rows C (the (er_hash r)) (Suc n) (Some (er_id r, er_seq r, the (er_hash r))) rs)"

text \<open>The pages of the verifier, read in one snapshot: \<open>batch\<close> rows at a time, until a short one.\<close>

function verify_pages :: "chain_deps \<Rightarrow> nat \<Rightarrow> event_row list \<Rightarrow> nat \<Rightarrow> string \<Rightarrow> nat \<Rightarrow> (string \<times> chain_point) option
    \<Rightarrow> (nat \<times> event_row \<times> chain_break) + (nat \<times> (string \<times> chain_point) option)" where
  "verify_pages C batch rs after prev n head =
     (let page = take batch (filter (\<lambda>r. after < er_seq r) rs) in
      case check_rows C prev n head page of
        Inl b \<Rightarrow> Inl b
      | Inr (prev', n', head') \<Rightarrow>
          if length page < batch \<or> page = [] then Inr (n', head')
          else verify_pages C batch rs (er_seq (last page)) prev' n' head')"
  by pat_completeness auto

termination
proof (relation "measure (\<lambda>(C, batch, rs, after, prev, n, head). length (filter (\<lambda>r. after < er_seq r) rs))")
  fix C batch rs after prev n head page b prev' n' head' and c :: "string \<times> nat \<times> (string \<times> chain_point) option" and d
  assume page: "page = take batch (filter (\<lambda>r. after < er_seq r) rs)" and ne: "\<not> (length page < batch \<or> page = [])"
  let ?l = "er_seq (last page)"
  have "last page \<in> set page" using ne by simp
  then have l: "last page \<in> set rs" "after < ?l" using page by (auto dest: in_set_takeD)
  have "length (filter (\<lambda>r. ?l < er_seq r) rs) < length (filter (\<lambda>r. after < er_seq r) rs)"
    using l
  proof (induction rs)
    case (Cons r rs)
    have "length (filter (\<lambda>r. ?l < er_seq r) rs) \<le> length (filter (\<lambda>r. after < er_seq r) rs)"
      by (rule length_filter_imp) (use l(2) in simp)
    then show ?case using Cons by auto
  qed simp
  then show "((C, batch, rs, ?l, prev', n', head'), (C, batch, rs, after, prev, n, head))
      \<in> measure (\<lambda>(C, batch, rs, after, prev, n, head). length (filter (\<lambda>r. after < er_seq r) rs))" by simp
qed simp

declare verify_pages.simps [simp del]

text \<open>
  \<open>asked\<close> is the point to verify from: a head the caller kept, as its number and hash. Without one, or
  when retention deleted it, the chain is verified from retention's anchor, else from the genesis hash.
\<close>

definition chain_start_of :: "chain_point option \<Rightarrow> chain_point option \<Rightarrow> chain_point \<times> bool" where
  "chain_start_of asked anchor = (case (asked, anchor) of
      (None, None) \<Rightarrow> ((0, EVENT_CHAIN_GENESIS_HASH), False)
    | (None, Some a) \<Rightarrow> (a, True)
    | (Some p, None) \<Rightarrow> (p, False)
    | (Some p, Some a) \<Rightarrow> if fst p \<le> fst a then (a, True) else (p, False))"

definition point_break :: "chain_deps \<Rightarrow> string \<Rightarrow> chain_point \<Rightarrow> bool \<Rightarrow> event_row list \<Rightarrow> (string option \<times> chain_break) option" where
  "point_break C realm start pruned rs =
     (case find (\<lambda>r. er_realmId r = realm \<and> er_seq r = fst start) rs of
        None \<Rightarrow> if pruned then None else Some (None, AnchorMissing)
      | Some r \<Rightarrow> if er_hash r \<noteq> Some (snd start) \<or> (case er_prevHash r of None \<Rightarrow> True | Some p \<Rightarrow> checkChainRow C r p \<noteq> None)
                  then Some (Some (er_id r), AnchorMismatch) else None)"

definition verifyChain :: "chain_deps \<Rightarrow> nat \<Rightarrow> string \<Rightarrow> chain_point option \<Rightarrow> event_log \<Rightarrow> event_error + chain_report" where
  "verifyChain C batchSize realmId asked L =
     (let realm = map to_lower realmId in
      if \<not> UUID realm \<or> (\<exists>p. asked = Some p \<and> length (snd p) \<noteq> 32) then Inl EventTypeError
      else let anchor = map_of (lg_anchors L) realm; (start, pruned) = chain_start_of asked anchor in
        if (case (asked, anchor) of (Some p, Some a) \<Rightarrow> fst p = fst a \<and> snd p \<noteq> snd a | _ \<Rightarrow> False)
        then Inr (ChainBroken (the asked) 0 None (fst (the asked)) AnchorMismatch)
        else case (if fst start > 0 then point_break C realm start pruned (committed L) else None) of
          Some (i, b) \<Rightarrow> Inr (ChainBroken start 0 i (fst start) b)
        | None \<Rightarrow> (case verify_pages C batchSize (chain_rows realm (committed L)) (fst start) (snd start) 0 None of
            Inl (n, r, b) \<Rightarrow> Inr (ChainBroken start n (Some (er_id r)) (er_seq r) b)
          | Inr (n, head) \<Rightarrow> Inr (ChainOk start n head)))"

subsection \<open>Retention\<close>

definition EVENT_RETENTION_BATCH_MAX :: int where "EVENT_RETENTION_BATCH_MAX = 10000"

definition unchained_due :: "string \<Rightarrow> event_category \<Rightarrow> ms \<Rightarrow> pos \<Rightarrow> event_row \<Rightarrow> bool" where
  "unchained_due realmId category before through r \<longleftrightarrow> er_realmId r = realmId \<and> er_category r = category \<and> er_hash r = None
     \<and> er_time r < before \<and> row_pos r \<le> through"

definition deleteUnchained :: "string \<Rightarrow> event_category \<Rightarrow> ms \<Rightarrow> pos \<Rightarrow> nat \<Rightarrow> event_log \<Rightarrow> event_row list \<times> event_log" where
  "deleteUnchained realmId category before through limit L =
     (let doomed = take limit (sort_key er_time (filter (unchained_due realmId category before through) (committed L)));
          (deleted, rows) = delete_where (\<lambda>r. er_seq r \<in> er_seq ` set doomed) (lg_rows L)
      in (deleted, L\<lparr>lg_rows := rows\<rparr>))"

fun chain_prefix :: "chain_deps \<Rightarrow> nat option \<Rightarrow> ms \<Rightarrow> pos \<Rightarrow> string \<Rightarrow> event_row list \<Rightarrow> event_row list \<times> (event_row \<times> chain_break) option" where
  "chain_prefix C head before through prev [] = ([], None)"
| "chain_prefix C head before through prev (r # rs) =
     (if head = Some (er_seq r) \<or> before \<le> er_time r \<or> \<not> row_pos r \<le> through then ([], None)
      else case checkChainRow C r prev of
        Some b \<Rightarrow> ([], Some (r, b))
      | None \<Rightarrow> let (doomed, broken) = chain_prefix C head before through (the (er_hash r)) rs in (r # doomed, broken))"

definition deleteChainStart :: "chain_deps \<Rightarrow> string \<Rightarrow> ms \<Rightarrow> pos \<Rightarrow> nat \<Rightarrow> event_log
    \<Rightarrow> event_error + (event_row list \<times> (event_row \<times> chain_break) option) \<times> event_log" where
  "deleteChainStart C realmId before through limit L =
     (let anchor = map_of (lg_anchors L) realmId;
          chain = chain_rows realmId (committed L);
          head = (if chain = [] then None else Some (er_seq (last chain)));
          prev = (case anchor of None \<Rightarrow> EVENT_CHAIN_GENESIS_HASH | Some a \<Rightarrow> snd a);
          (doomed, broken) = chain_prefix C head before through prev (take limit chain)
      in if doomed = [] then Inr (([], broken), L)
         else let l = last doomed in
           if (case anchor of None \<Rightarrow> False | Some a \<Rightarrow> er_seq l \<le> fst a) then Inl EventStoreError
           else let (deleted, rows) = delete_where (\<lambda>r. er_realmId r = realmId \<and> er_seq r \<in> er_seq ` set doomed) (lg_rows L) in
             if length deleted \<noteq> length doomed then Inl EventStoreError
             else Inr ((doomed, broken), L\<lparr>lg_anchors := AList.update realmId (er_seq l, the (er_hash l)) (lg_anchors L), lg_rows := rows\<rparr>))"

datatype retention_batch =
  RetentionBusy
| RetentionDone "event_row list" bool "(event_row \<times> chain_break) option"

text \<open>\<open>through\<close> is the encoded position up to which every destination has finished.\<close>

definition deleteBatch :: "chain_deps \<Rightarrow> bool \<Rightarrow> string \<Rightarrow> event_category \<Rightarrow> ms \<Rightarrow> string \<Rightarrow> int \<Rightarrow> ms \<Rightarrow> event_log
    \<Rightarrow> event_error + retention_batch \<times> event_log" where
  "deleteBatch C locked realmId category before through limit now L =
     (let realm = map to_lower realmId in
      if \<not> UUID realm \<or> \<not> isSafeInteger before \<or> before < 0 \<or> \<not> isSafeInteger now \<or> now < 0 \<or> limit < 1 \<or> limit > EVENT_RETENTION_BATCH_MAX then Inl EventTypeError
      else case decodeEventPosition through of
        None \<Rightarrow> Inl EventPositionError
      | Some t \<Rightarrow>
          if pp_realmId t \<noteq> realm then Inl EventTypeError
          else if \<not> locked then Inr (RetentionBusy, L)
          else let thr = (pp_xid t, pp_seq t); (deleted, L1) = deleteUnchained realm category before thr (nat limit) L in
            if category = UserCategory \<or> length deleted = nat limit then Inr (RetentionDone deleted (length deleted = nat limit) None, L1)
            else (case deleteChainStart C realm before thr (nat limit - length deleted) L1 of
                Inl e \<Rightarrow> Inl e
              | Inr ((doomed, broken), L2) \<Rightarrow> Inr (RetentionDone (deleted @ doomed) (length doomed = nat limit - length deleted) broken, L2)))"

end
