(* ===== verification/Event_Chain.thy ===== *)
theory Event_Chain
  imports Event_Log
begin

text \<open>
  The runs of the event store: transactions that begin, write events, commit or roll back in any
  interleaving, and retention. Every realm's admin events stay one hash chain that verifies, and a
  verified head fixes the history behind it.
\<close>

subsection \<open>Runs\<close>

inductive log_step :: "chain_deps \<Rightarrow> event_registry \<Rightarrow> event_log \<Rightarrow> event_log \<Rightarrow> bool" for C G where
  begins: "log_step C G L (snd (begin_tx L))"
| emits: "xid \<in> set (lg_open L) \<Longrightarrow>
    \<forall>r env. buildEvent G eventId at e = Inr (r, env) \<longrightarrow> er_id r \<notin> er_id ` set (lg_rows L) \<and> (er_category r = AdminCategory \<longrightarrow> chain_lock_free (er_realmId r) xid L) \<Longrightarrow>
    log_step C G L (snd (emit_event C G xid eventId at e L))"
| commits: "xid \<in> set (lg_open L) \<Longrightarrow> log_step C G L (commit_tx xid L)"
| aborts: "xid \<in> set (lg_open L) \<Longrightarrow> log_step C G L (abort_tx xid L)"
| retains: "deleteBatch C locked realmId category before through limit now L = Inr (b, L') \<Longrightarrow> log_step C G L L'"

definition empty_log :: "event_log \<Rightarrow> bool" where
  "empty_log L \<longleftrightarrow> lg_open L = [] \<and> lg_rows L = [] \<and> lg_anchors L = [] \<and> lg_locks L = [] \<and> 0 < lg_nextSeq L"

subsection \<open>Linked rows\<close>

fun chained :: "chain_deps \<Rightarrow> string \<Rightarrow> event_row list \<Rightarrow> bool" where
  "chained C prev [] = True"
| "chained C prev (r # rs) = (checkChainRow C r prev = None \<and> chained C (the (er_hash r)) rs)"

definition chain_end :: "string \<Rightarrow> event_row list \<Rightarrow> string" where
  "chain_end prev rs = (if rs = [] then prev else the (er_hash (last rs)))"

lemma chain_end_Cons: "chain_end prev (r # rs) = chain_end (the (er_hash r)) rs"
  by (simp add: chain_end_def)

lemma chained_append: "chained C prev (xs @ ys) \<longleftrightarrow> chained C prev xs \<and> chained C (chain_end prev xs) ys"
proof (induction xs arbitrary: prev)
  case (Cons x xs)
  then show ?case by (simp add: chain_end_Cons)
qed (simp add: chain_end_def)

definition head_of :: "(string \<times> chain_point) option \<Rightarrow> event_row list \<Rightarrow> (string \<times> chain_point) option" where
  "head_of head rs = (if rs = [] then head else Some (er_id (last rs), er_seq (last rs), the (er_hash (last rs))))"

lemma check_rows_append: "check_rows C prev n head (xs @ ys) = (case check_rows C prev n head xs of
    Inl b \<Rightarrow> Inl b | Inr (prev', n', head') \<Rightarrow> check_rows C prev' n' head' ys)"
  by (induction xs arbitrary: prev n head) (auto split: option.splits)

lemma check_rows_chained: "chained C prev rs \<Longrightarrow> check_rows C prev n head rs = Inr (chain_end prev rs, n + length rs, head_of head rs)"
proof (induction rs arbitrary: prev n head)
  case (Cons r rs)
  then show ?case by (simp add: chain_end_Cons head_of_def)
qed (simp add: chain_end_def head_of_def)

lemma check_rows_Inr: "check_rows C prev n head rs = Inr (prev', n', head') \<Longrightarrow> chained C prev rs \<and> prev' = chain_end prev rs"
proof (induction rs arbitrary: prev n head)
  case (Cons r rs)
  then show ?case by (auto simp: chain_end_Cons split: option.splits)
qed (simp add: chain_end_def)

text \<open>The pages of the verifier check the rows as one pass over all of them would.\<close>

lemma sorted_after_page:
  assumes "sorted_wrt (<) (map er_seq rs)" and "page = take n (filter (\<lambda>r. after < er_seq r) rs)" and "page \<noteq> []"
  shows "filter (\<lambda>r. after < er_seq r) rs = page @ filter (\<lambda>r. er_seq (last page) < er_seq r) rs"
proof -
  let ?fs = "filter (\<lambda>r. after < er_seq r) rs"
  have split: "?fs = page @ drop n ?fs" using assms(2) by simp
  have s: "sorted_wrt (<) (map er_seq ?fs)" using assms(1) by (simp add: sorted_wrt_map sorted_wrt_filter)
  then have s': "sorted_wrt (\<lambda>x y. er_seq x < er_seq y) (page @ drop n ?fs)" unfolding split[symmetric] by (simp add: sorted_wrt_map)
  have l1: "last page \<in> set page" using assms(3) by simp
  then have "last page \<in> set ?fs" using assms(2) by (auto dest: in_set_takeD)
  then have l: "last page \<in> set page" "after < er_seq (last page)" using l1 by auto
  have upto: "er_seq r \<le> er_seq (last page)" if "r \<in> set page" for r
  proof -
    have "sorted_wrt (\<lambda>x y. er_seq x < er_seq y) (butlast page @ [last page])" using s' assms(3) by (simp add: sorted_wrt_append)
    moreover have "r \<in> set (butlast page @ [last page])" using that assms(3) by simp
    ultimately show ?thesis by (auto simp: sorted_wrt_append intro: less_imp_le)
  qed
  have beyond: "er_seq (last page) < er_seq r" if "r \<in> set (drop n ?fs)" for r using s' l(1) that by (auto simp: sorted_wrt_append)
  have "filter (\<lambda>r. er_seq (last page) < er_seq r) rs = filter (\<lambda>r. er_seq (last page) < er_seq r) ?fs"
    using l(2) by (auto intro!: filter_cong)
  also have "\<dots> = filter (\<lambda>r. er_seq (last page) < er_seq r) page @ filter (\<lambda>r. er_seq (last page) < er_seq r) (drop n ?fs)"
    by (subst split) (simp only: filter_append)
  also have "\<dots> = drop n ?fs" using upto beyond by (auto simp: filter_empty_conv filter_id_conv not_less)
  finally show ?thesis using split by simp
qed

lemma verify_pages_one_pass:
  assumes "sorted_wrt (<) (map er_seq rs)" and "0 < batch"
  shows "verify_pages C batch rs after prev n head = (case check_rows C prev n head (filter (\<lambda>r. after < er_seq r) rs) of
      Inl b \<Rightarrow> Inl b | Inr (_, n', head') \<Rightarrow> Inr (n', head'))"
  using assms
proof (induction C batch rs after prev n head rule: verify_pages.induct)
  case (1 C batch rs after prev n head)
  let ?fs = "filter (\<lambda>r. after < er_seq r) rs"
  let ?page = "take batch ?fs"
  show ?case
  proof (cases "check_rows C prev n head ?page")
    case (Inl b)
    then have "check_rows C prev n head (?page @ drop batch ?fs) = Inl b" by (simp only: check_rows_append) simp
    then show ?thesis using Inl by (simp add: verify_pages.simps[of C batch rs after] Let_def)
  next
    case (Inr a)
    then obtain p m h where a: "check_rows C prev n head ?page = Inr (p, m, h)" by (cases a) auto
    show ?thesis
    proof (cases "length ?page < batch \<or> ?page = []")
      case True
      then have "?page = ?fs" using "1.prems"(2) by auto
      then show ?thesis using a True by (simp add: verify_pages.simps[of C batch rs after] Let_def)
    next
      case False
      then have ne: "?page \<noteq> []" by blast
      have IH: "verify_pages C batch rs (er_seq (last ?page)) p m h = (case check_rows C p m h (filter (\<lambda>r. er_seq (last ?page) < er_seq r) rs) of
          Inl b \<Rightarrow> Inl b | Inr (_, n', head') \<Rightarrow> Inr (n', head'))"
        by (rule "1.IH"[OF refl a refl refl _ "1.prems"]) (use False in simp)
      have "check_rows C prev n head ?fs = check_rows C p m h (filter (\<lambda>r. er_seq (last ?page) < er_seq r) rs)"
        by (subst sorted_after_page[OF "1.prems"(1) refl ne]) (simp only: check_rows_append a sum.case prod.case)
      then show ?thesis using IH a False by (simp add: verify_pages.simps[of C batch rs after] Let_def)
    qed
  qed
qed

subsection \<open>The invariant\<close>

definition realm_chain :: "string \<Rightarrow> event_row list \<Rightarrow> event_row list" where
  "realm_chain realm rs = filter (\<lambda>r. er_realmId r = realm \<and> er_hash r \<noteq> None) rs"

definition anchor_hash :: "event_log \<Rightarrow> string \<Rightarrow> string" where
  "anchor_hash L realm = (case map_of (lg_anchors L) realm of None \<Rightarrow> EVENT_CHAIN_GENESIS_HASH | Some a \<Rightarrow> snd a)"

definition pending :: "event_log \<Rightarrow> event_row \<Rightarrow> bool" where
  "pending L r \<longleftrightarrow> er_xid r \<in> set (lg_open L)"

text \<open>Numbers rise down the table; every row's transaction has begun; numbers and transactions are never used again.\<close>

definition numbers_ok :: "event_log \<Rightarrow> bool" where
  "numbers_ok L \<longleftrightarrow> sorted_wrt (\<lambda>x y. er_seq x < er_seq y) (lg_rows L) \<and> 0 < lg_nextSeq L
     \<and> (\<forall>r. r \<in> set (lg_rows L) \<longrightarrow> 0 < er_seq r \<and> er_seq r < lg_nextSeq L \<and> er_xid r < lg_nextXid L)
     \<and> (\<forall>x. x \<in> set (lg_open L) \<longrightarrow> x < lg_nextXid L)"

text \<open>The chain lock of a realm has one holder, and only the holder has chain rows not yet committed, after all others.\<close>

definition locks_ok :: "event_log \<Rightarrow> bool" where
  "locks_ok L \<longleftrightarrow> (\<forall>R x y. (R, x) \<in> set (lg_locks L) \<longrightarrow> (R, y) \<in> set (lg_locks L) \<longrightarrow> x = y)
     \<and> (\<forall>r. r \<in> set (lg_rows L) \<longrightarrow> er_hash r \<noteq> None \<longrightarrow> pending L r \<longrightarrow> (er_realmId r, er_xid r) \<in> set (lg_locks L))
     \<and> (\<forall>r r'. r \<in> set (lg_rows L) \<longrightarrow> r' \<in> set (lg_rows L) \<longrightarrow> er_hash r \<noteq> None \<longrightarrow> er_hash r' \<noteq> None \<longrightarrow> er_realmId r = er_realmId r' \<longrightarrow>
          \<not> pending L r \<longrightarrow> pending L r' \<longrightarrow> er_seq r < er_seq r')"

definition anchors_ok :: "event_log \<Rightarrow> bool" where
  "anchors_ok L \<longleftrightarrow> (\<forall>R a. map_of (lg_anchors L) R = Some a \<longrightarrow> fst a < lg_nextSeq L
     \<and> (\<forall>r. r \<in> set (lg_rows L) \<longrightarrow> er_seq r \<noteq> fst a \<and> (er_realmId r = R \<longrightarrow> er_hash r \<noteq> None \<longrightarrow> fst a < er_seq r))
     \<and> (\<exists>r. r \<in> set (lg_rows L) \<and> er_realmId r = R \<and> er_hash r \<noteq> None \<and> \<not> pending L r))"

definition chains_ok :: "chain_deps \<Rightarrow> event_log \<Rightarrow> bool" where
  "chains_ok C L \<longleftrightarrow> (\<forall>R. chained C (anchor_hash L R) (realm_chain R (lg_rows L)))"

definition log_ok :: "chain_deps \<Rightarrow> event_log \<Rightarrow> bool" where
  "log_ok C L \<longleftrightarrow> numbers_ok L \<and> locks_ok L \<and> anchors_ok L \<and> chains_ok C L"

lemma log_okD: "log_ok C L \<Longrightarrow> numbers_ok L" "log_ok C L \<Longrightarrow> locks_ok L" "log_ok C L \<Longrightarrow> anchors_ok L" "log_ok C L \<Longrightarrow> chains_ok C L"
  by (simp_all add: log_ok_def)

lemma empty_log_ok: "empty_log L \<Longrightarrow> log_ok C L"
  by (simp add: empty_log_def log_ok_def numbers_ok_def locks_ok_def anchors_ok_def chains_ok_def realm_chain_def)

text \<open>A list sorted by number whose rows with a property all come first is those rows, then the rest.\<close>

lemma filter_split_sorted:
  assumes "sorted_wrt (\<lambda>x y. er_seq x < er_seq y) xs" and "\<forall>x y. x \<in> set xs \<longrightarrow> y \<in> set xs \<longrightarrow> P x \<longrightarrow> \<not> P y \<longrightarrow> er_seq x < er_seq y"
  shows "xs = filter P xs @ filter (\<lambda>x. \<not> P x) xs"
  using assms
proof (induction xs)
  case (Cons x xs)
  show ?case
  proof (cases "P x")
    case True
    then show ?thesis using Cons by auto
  next
    case False
    have "\<not> P y" if "y \<in> set xs" for y
    proof
      assume "P y"
      then have "er_seq y < er_seq x" using Cons.prems(2) that False by auto
      moreover have "er_seq x < er_seq y" using Cons.prems(1) that by simp
      ultimately show False by simp
    qed
    then show ?thesis using False by (auto simp: filter_empty_conv filter_id_conv)
  qed
qed simp

lemma sort_sorted: "sorted_wrt (\<lambda>x y. er_seq x < er_seq y) rs \<Longrightarrow> sort_key er_seq rs = rs"
  by (rule sort_key_id_if_sorted) (auto simp: sorted_wrt_map intro: sorted_wrt_mono_rel[rotated])

lemma sorted_filter_rows: "sorted_wrt (\<lambda>x y. er_seq x < er_seq y) rs \<Longrightarrow> sorted_wrt (\<lambda>x y. er_seq x < er_seq y) (filter P rs)"
  by (rule sorted_wrt_filter)

lemma chain_rows_filter: "sorted_wrt (\<lambda>x y. er_seq x < er_seq y) rs \<Longrightarrow> chain_rows R rs = realm_chain R rs"
  by (simp add: chain_rows_def realm_chain_def sort_sorted sorted_filter_rows)

lemma committed_chain: "numbers_ok L \<Longrightarrow> chain_rows R (committed L) = filter (\<lambda>r. \<not> pending L r) (realm_chain R (lg_rows L))"
  by (simp add: chain_rows_filter committed_def sorted_filter_rows numbers_ok_def realm_chain_def pending_def conj_commute)

lemma chain_splits:
  assumes "numbers_ok L" and "locks_ok L"
  shows "realm_chain R (lg_rows L) = chain_rows R (committed L) @ filter (pending L) (realm_chain R (lg_rows L))"
proof -
  have "sorted_wrt (\<lambda>x y. er_seq x < er_seq y) (realm_chain R (lg_rows L))" using assms(1) by (simp add: numbers_ok_def realm_chain_def sorted_filter_rows)
  moreover have "\<forall>x y. x \<in> set (realm_chain R (lg_rows L)) \<longrightarrow> y \<in> set (realm_chain R (lg_rows L)) \<longrightarrow> \<not> pending L x \<longrightarrow> \<not> \<not> pending L y \<longrightarrow> er_seq x < er_seq y"
    using assms(2) by (simp add: locks_ok_def realm_chain_def)
  ultimately have "realm_chain R (lg_rows L) = filter (\<lambda>r. \<not> pending L r) (realm_chain R (lg_rows L)) @ filter (\<lambda>r. \<not> \<not> pending L r) (realm_chain R (lg_rows L))"
    by (rule filter_split_sorted)
  then show ?thesis using committed_chain[OF assms(1), of R] by simp
qed

lemma committed_chained: "log_ok C L \<Longrightarrow> chained C (anchor_hash L R) (chain_rows R (committed L))"
proof -
  assume ok: "log_ok C L"
  have "chained C (anchor_hash L R) (chain_rows R (committed L) @ filter (pending L) (realm_chain R (lg_rows L)))"
    using ok chain_splits[OF log_okD(1,2)[OF ok], of R] by (simp add: log_ok_def chains_ok_def)
  then show ?thesis by (simp add: chained_append)
qed

subsection \<open>Every step keeps it\<close>

lemma begin_ok: "log_ok C L \<Longrightarrow> log_ok C (snd (begin_tx L))"
proof -
  assume ok: "log_ok C L"
  have p: "pending (snd (begin_tx L)) r = pending L r" if "r \<in> set (lg_rows L)" for r
    using log_okD(1)[OF ok] that by (auto simp: numbers_ok_def pending_def begin_tx_def)
  have "numbers_ok (snd (begin_tx L))" using log_okD(1)[OF ok] by (auto simp: numbers_ok_def begin_tx_def less_Suc_eq)
  moreover have "locks_ok (snd (begin_tx L))" using log_okD(2)[OF ok] p by (simp add: locks_ok_def begin_tx_def)
  moreover have "anchors_ok (snd (begin_tx L))" using log_okD(3)[OF ok] p by (simp add: anchors_ok_def begin_tx_def) (metis (no_types))
  moreover have "chains_ok C (snd (begin_tx L))" using log_okD(4)[OF ok] by (simp add: chains_ok_def begin_tx_def anchor_hash_def)
  ultimately show ?thesis by (simp add: log_ok_def)
qed

lemma insert_numbers: "numbers_ok L \<Longrightarrow> xid \<in> set (lg_open L) \<Longrightarrow> numbers_ok (insertEvent xid r L)"
  by (auto simp: numbers_ok_def insertEvent_def sorted_wrt_append less_Suc_eq)

lemma insert_anchors: "numbers_ok L \<Longrightarrow> anchors_ok L \<Longrightarrow> anchors_ok (insertEvent xid r L)"
  by (fastforce simp: numbers_ok_def anchors_ok_def insertEvent_def less_SucI pending_def)

lemma insert_plain_ok:
  assumes "log_ok C L" and "xid \<in> set (lg_open L)" and "er_hash r = None"
  shows "log_ok C (insertEvent xid r L)"
proof -
  have "locks_ok (insertEvent xid r L)" using log_okD(2)[OF assms(1)] assms(3) by (auto simp: locks_ok_def insertEvent_def pending_def)
  moreover have "chains_ok C (insertEvent xid r L)" using log_okD(4)[OF assms(1)] assms(3)
    by (simp add: chains_ok_def insertEvent_def realm_chain_def anchor_hash_def)
  ultimately show ?thesis using insert_numbers insert_anchors assms(1,2) by (simp add: log_ok_def)
qed

text \<open>The holder of the lock sees the whole chain, so it links its row to the newest one.\<close>

lemma holder_sees_chain:
  assumes "log_ok C L" and "chain_lock_free R xid L"
  shows "chain_rows R (visible xid L) = realm_chain R (lg_rows L)"
proof -
  have "realm_chain R (visible xid L) = realm_chain R (lg_rows L)"
    using log_okD(2)[OF assms(1)] assms(2)
    by (auto simp: realm_chain_def visible_def locks_ok_def pending_def chain_lock_free_def list_all_iff intro!: filter_cong)
  moreover have "sorted_wrt (\<lambda>x y. er_seq x < er_seq y) (visible xid L)" using log_okD(1)[OF assms(1)] by (simp add: numbers_ok_def visible_def sorted_filter_rows)
  ultimately show ?thesis by (simp add: chain_rows_filter)
qed

lemma head_is_chain_end:
  assumes "log_ok C L" and "chain_lock_free R xid L"
  shows "(case events_admin_chain_head R (visible xid L) of None \<Rightarrow> EVENT_CHAIN_GENESIS_HASH | Some h \<Rightarrow> h)
    = chain_end (anchor_hash L R) (realm_chain R (lg_rows L))"
proof (cases "realm_chain R (lg_rows L)")
  case Nil
  then have none: "\<not> (\<exists>r. r \<in> set (lg_rows L) \<and> er_realmId r = R \<and> er_hash r \<noteq> None \<and> \<not> pending L r)"
    by (auto simp: realm_chain_def filter_empty_conv)
  have "map_of (lg_anchors L) R = None"
  proof (rule ccontr)
    assume "map_of (lg_anchors L) R \<noteq> None"
    then obtain a where "map_of (lg_anchors L) R = Some a" by blast
    then show False using log_okD(3)[OF assms(1)] none unfolding anchors_ok_def by blast
  qed
  then show ?thesis using Nil holder_sees_chain[OF assms] by (simp add: events_admin_chain_head_def chain_end_def anchor_hash_def)
next
  case (Cons x xs)
  then have "last (x # xs) \<in> set (realm_chain R (lg_rows L))" by (metis last_in_set list.distinct(1))
  then obtain h where "er_hash (last (x # xs)) = Some h" by (auto simp: realm_chain_def)
  then show ?thesis using Cons holder_sees_chain[OF assms] by (simp add: events_admin_chain_head_def chain_end_def)
qed

lemma appendToChain_ok:
  assumes ok: "log_ok C L" and x: "xid \<in> set (lg_open L)" and lock: "chain_lock_free (er_realmId r) xid L"
  shows "log_ok C (snd (appendToChain C xid r env L))"
proof -
  let ?R = "er_realmId r"
  let ?L1 = "L\<lparr>lg_locks := (?R, xid) # lg_locks L\<rparr>"
  let ?prev = "chain_end (anchor_hash L ?R) (realm_chain ?R (lg_rows L))"
  have ok1: "log_ok C ?L1" using ok lock
    by (auto simp: log_ok_def numbers_ok_def locks_ok_def anchors_ok_def chains_ok_def anchor_hash_def pending_def chain_lock_free_def list_all_iff)
  have head: "(case events_admin_chain_head ?R (visible xid ?L1) of None \<Rightarrow> EVENT_CHAIN_GENESIS_HASH | Some h \<Rightarrow> h) = ?prev"
    using head_is_chain_end[OF ok lock] by (simp add: visible_def)
  show ?thesis
  proof (cases "eventChainHash C ?prev xid env")
    case None
    then show ?thesis using ok1 head by (simp add: appendToChain_def Let_def)
  next
    case (Some h)
    let ?row = "r\<lparr>er_prevHash := Some ?prev, er_hash := Some h, er_seq := lg_nextSeq L, er_xid := xid\<rparr>"
    let ?L2 = "insertEvent xid (r\<lparr>er_prevHash := Some ?prev, er_hash := Some h\<rparr>) ?L1"
    have rows: "lg_rows ?L2 = lg_rows L @ [?row]" by (simp add: insertEvent_def)
    show ?thesis
    proof (cases "checkChainRow C ?row ?prev")
      case (Some b)
      have "log_ok C (?L1\<lparr>lg_nextSeq := Suc (lg_nextSeq ?L1)\<rparr>)" using ok1
        by (auto simp: log_ok_def numbers_ok_def locks_ok_def anchors_ok_def chains_ok_def anchor_hash_def pending_def less_SucI)
      then show ?thesis using head \<open>eventChainHash C ?prev xid env = Some h\<close> Some rows by (simp add: appendToChain_def Let_def)
    next
      case None
      have "chained C (anchor_hash L R) (realm_chain R (lg_rows L @ [?row]))" for R
        using log_okD(4)[OF ok] None by (auto simp: chains_ok_def realm_chain_def chained_append)
      then have "chains_ok C ?L2" using rows by (simp add: chains_ok_def anchor_hash_def insertEvent_def)
      moreover have "locks_ok ?L2"
        using log_okD(2)[OF ok1] log_okD(1)[OF ok] x rows by (auto simp: locks_ok_def numbers_ok_def pending_def insertEvent_def)
      ultimately have "log_ok C ?L2" using insert_numbers[of ?L1] insert_anchors[of ?L1] ok1 x by (simp add: log_ok_def)
      then show ?thesis using head \<open>eventChainHash C ?prev xid env = Some h\<close> None rows by (simp add: appendToChain_def Let_def)
    qed
  qed
qed

lemma commit_ok:
  assumes ok: "log_ok C L" and x: "xid \<in> set (lg_open L)"
  shows "log_ok C (commit_tx xid L)"
proof -
  have n: "numbers_ok (commit_tx xid L)" using log_okD(1)[OF ok] by (auto simp: numbers_ok_def commit_tx_def)
  have "locks_ok (commit_tx xid L)"
    using log_okD(2)[OF ok] by (auto simp: locks_ok_def commit_tx_def pending_def) (metis (no_types))+
  moreover have "anchors_ok (commit_tx xid L)" using log_okD(3)[OF ok] by (simp add: anchors_ok_def commit_tx_def pending_def) blast
  moreover have "chains_ok C (commit_tx xid L)" using log_okD(4)[OF ok] by (simp add: chains_ok_def commit_tx_def anchor_hash_def)
  ultimately show ?thesis using n by (simp add: log_ok_def)
qed

text \<open>A rollback takes back the end of a chain, or nothing of it.\<close>

lemma abort_chain:
  assumes ok: "log_ok C L" and x: "xid \<in> set (lg_open L)"
  shows "\<exists>tail. realm_chain R (lg_rows L) = realm_chain R (filter (\<lambda>r. er_xid r \<noteq> xid) (lg_rows L)) @ tail"
proof (cases "\<exists>r. r \<in> set (realm_chain R (lg_rows L)) \<and> er_xid r = xid")
  case False
  then have "realm_chain R (filter (\<lambda>r. er_xid r \<noteq> xid) (lg_rows L)) = realm_chain R (lg_rows L)" by (auto simp: realm_chain_def intro!: filter_cong)
  then show ?thesis by simp
next
  case True
  then obtain r where r: "r \<in> set (lg_rows L)" "er_realmId r = R" "er_hash r \<noteq> None" "er_xid r = xid" by (auto simp: realm_chain_def)
  have mine: "er_xid r' = xid" if "r' \<in> set (realm_chain R (lg_rows L))" "pending L r'" for r'
  proof -
    have "(R, er_xid r') \<in> set (lg_locks L)" "(R, xid) \<in> set (lg_locks L)"
      using log_okD(2)[OF ok] that r x by (auto simp: locks_ok_def realm_chain_def pending_def)
    then show ?thesis using log_okD(2)[OF ok] by (auto simp: locks_ok_def)
  qed
  have "realm_chain R (filter (\<lambda>r. er_xid r \<noteq> xid) (lg_rows L)) = filter (\<lambda>r. er_xid r \<noteq> xid) (realm_chain R (lg_rows L))"
    by (simp add: realm_chain_def conj_commute)
  also have "\<dots> = filter (\<lambda>r. \<not> pending L r) (realm_chain R (lg_rows L))"
    using mine x by (auto simp: pending_def intro!: filter_cong)
  also have "\<dots> = chain_rows R (committed L)" by (rule committed_chain[OF log_okD(1)[OF ok], symmetric])
  finally show ?thesis using chain_splits[OF log_okD(1,2)[OF ok], of R] by metis
qed

lemma abort_ok:
  assumes ok: "log_ok C L" and x: "xid \<in> set (lg_open L)"
  shows "log_ok C (abort_tx xid L)"
proof -
  have c: "log_ok C (commit_tx xid L)" by (rule commit_ok[OF ok x])
  have "numbers_ok (abort_tx xid L)" using log_okD(1)[OF c] by (auto simp: numbers_ok_def abort_tx_def commit_tx_def sorted_filter_rows)
  moreover have "locks_ok (abort_tx xid L)" using log_okD(2)[OF c] by (auto simp: locks_ok_def abort_tx_def commit_tx_def pending_def)
  moreover have "anchors_ok (abort_tx xid L)" unfolding anchors_ok_def
  proof (intro allI impI)
    fix R a assume "map_of (lg_anchors (abort_tx xid L)) R = Some a"
    then have m: "map_of (lg_anchors L) R = Some a" by (simp add: abort_tx_def commit_tx_def)
    with log_okD(3)[OF ok] obtain r where r: "r \<in> set (lg_rows L)" "er_realmId r = R" "er_hash r \<noteq> None" "\<not> pending L r" unfolding anchors_ok_def by blast
    then have "r \<in> set (lg_rows (abort_tx xid L))" "\<not> pending (abort_tx xid L) r" using x by (auto simp: abort_tx_def commit_tx_def pending_def)
    moreover have "fst a < lg_nextSeq L \<and> (\<forall>r. r \<in> set (lg_rows L) \<longrightarrow> er_seq r \<noteq> fst a \<and> (er_realmId r = R \<longrightarrow> er_hash r \<noteq> None \<longrightarrow> fst a < er_seq r))"
      using log_okD(3)[OF ok] m unfolding anchors_ok_def by blast
    ultimately show "fst a < lg_nextSeq (abort_tx xid L) \<and> (\<forall>r. r \<in> set (lg_rows (abort_tx xid L)) \<longrightarrow> er_seq r \<noteq> fst a
        \<and> (er_realmId r = R \<longrightarrow> er_hash r \<noteq> None \<longrightarrow> fst a < er_seq r))
      \<and> (\<exists>r. r \<in> set (lg_rows (abort_tx xid L)) \<and> er_realmId r = R \<and> er_hash r \<noteq> None \<and> \<not> pending (abort_tx xid L) r)"
      using r(2,3) by (auto simp: abort_tx_def commit_tx_def)
  qed
  moreover have "chains_ok C (abort_tx xid L)" unfolding chains_ok_def
  proof
    fix R
    obtain tail where eq: "realm_chain R (lg_rows L) = realm_chain R (lg_rows (abort_tx xid L)) @ tail"
      using abort_chain[OF ok x, of R] by (auto simp: abort_tx_def)
    have "chained C (anchor_hash L R) (realm_chain R (lg_rows L))" using log_okD(4)[OF ok] by (simp add: chains_ok_def)
    then have "chained C (anchor_hash L R) (realm_chain R (lg_rows (abort_tx xid L)) @ tail)" unfolding eq .
    then show "chained C (anchor_hash (abort_tx xid L) R) (realm_chain R (lg_rows (abort_tx xid L)))"
      by (simp add: chained_append anchor_hash_def abort_tx_def commit_tx_def)
  qed
  ultimately show ?thesis by (simp add: log_ok_def)
qed

text \<open>Retention: a number names one row, so the deletions take the rows they chose and no others.\<close>

lemma seq_names_row: "numbers_ok L \<Longrightarrow> r \<in> set (lg_rows L) \<Longrightarrow> r' \<in> set (lg_rows L) \<Longrightarrow> er_seq r = er_seq r' \<Longrightarrow> r = r'"
proof -
  assume n: "numbers_ok L" and r: "r \<in> set (lg_rows L)" "r' \<in> set (lg_rows L)" "er_seq r = er_seq r'"
  have "sorted_wrt (<) (map er_seq (lg_rows L))" using n by (simp add: numbers_ok_def sorted_wrt_map)
  then have "distinct (map er_seq (lg_rows L))" using strict_sorted_iff by blast
  then show ?thesis using r by (auto simp: distinct_map inj_on_def)
qed

definition keeps_rows :: "(event_row \<Rightarrow> bool) \<Rightarrow> event_log \<Rightarrow> event_log" where
  "keeps_rows P L = L\<lparr>lg_rows := filter P (lg_rows L)\<rparr>"

lemma keeps_numbers: "numbers_ok L \<Longrightarrow> numbers_ok (keeps_rows P L)"
  by (simp add: numbers_ok_def keeps_rows_def sorted_filter_rows)

lemma keeps_locks: "locks_ok L \<Longrightarrow> locks_ok (keeps_rows P L)"
  by (simp add: locks_ok_def keeps_rows_def pending_def)

lemma keeps_anchors:
  assumes "anchors_ok L" and "\<And>r. r \<in> set (lg_rows L) \<Longrightarrow> er_hash r \<noteq> None \<Longrightarrow> P r"
  shows "anchors_ok (keeps_rows P L)"
  unfolding anchors_ok_def
proof (intro allI impI)
  fix R a assume "map_of (lg_anchors (keeps_rows P L)) R = Some a"
  then have m: "map_of (lg_anchors L) R = Some a" by (simp add: keeps_rows_def)
  with assms(1) obtain r where r: "r \<in> set (lg_rows L)" "er_realmId r = R" "er_hash r \<noteq> None" "\<not> pending L r" unfolding anchors_ok_def by blast
  have "fst a < lg_nextSeq L \<and> (\<forall>r. r \<in> set (lg_rows L) \<longrightarrow> er_seq r \<noteq> fst a \<and> (er_realmId r = R \<longrightarrow> er_hash r \<noteq> None \<longrightarrow> fst a < er_seq r))"
    using assms(1) m unfolding anchors_ok_def by blast
  then show "fst a < lg_nextSeq (keeps_rows P L) \<and> (\<forall>r. r \<in> set (lg_rows (keeps_rows P L)) \<longrightarrow> er_seq r \<noteq> fst a
      \<and> (er_realmId r = R \<longrightarrow> er_hash r \<noteq> None \<longrightarrow> fst a < er_seq r))
    \<and> (\<exists>r. r \<in> set (lg_rows (keeps_rows P L)) \<and> er_realmId r = R \<and> er_hash r \<noteq> None \<and> \<not> pending (keeps_rows P L) r)"
    using r assms(2) by (auto simp: keeps_rows_def pending_def)
qed

lemma deleteUnchained_result:
  assumes n: "numbers_ok L" and d: "deleteUnchained R category before through limit L = (deleted, L')"
  shows "\<exists>P. L' = keeps_rows P L \<and> (\<forall>r. r \<in> set (lg_rows L) \<longrightarrow> \<not> P r \<longrightarrow> r \<in> set deleted)
    \<and> (\<forall>r. r \<in> set deleted \<longrightarrow> r \<in> set (committed L) \<and> unchained_due R category before through r)"
proof -
  let ?doomed = "take limit (sort_key er_time (filter (unchained_due R category before through) (committed L)))"
  let ?P = "\<lambda>r. er_seq r \<notin> er_seq ` set ?doomed"
  have dm: "r \<in> set (committed L) \<and> unchained_due R category before through r" if "r \<in> set ?doomed" for r
    using in_set_takeD[OF that] by simp
  have L': "L' = keeps_rows ?P L" and del: "deleted = filter (\<lambda>r. \<not> ?P r) (lg_rows L)"
    using d by (simp_all add: deleteUnchained_def Let_def delete_where_def keeps_rows_def)
  have sub: "r \<in> set (committed L) \<and> unchained_due R category before through r" if "r \<in> set deleted" for r
  proof -
    have i: "er_seq r \<in> er_seq ` set ?doomed" "r \<in> set (lg_rows L)" using that del by simp_all
    then obtain r' where r': "r' \<in> set ?doomed" "er_seq r = er_seq r'" by blast
    have "r' \<in> set (lg_rows L)" using dm[OF r'(1)] by (simp add: committed_def)
    then have "r = r'" using seq_names_row[OF n i(2)] r'(2) by blast
    then show ?thesis using dm[OF r'(1)] by simp
  qed
  show ?thesis
  proof (intro exI[of _ ?P] conjI)
    show "L' = keeps_rows ?P L" by (rule L')
    show "\<forall>r. r \<in> set (lg_rows L) \<longrightarrow> \<not> ?P r \<longrightarrow> r \<in> set deleted" unfolding del by simp
    show "\<forall>r. r \<in> set deleted \<longrightarrow> r \<in> set (committed L) \<and> unchained_due R category before through r" using sub by blast
  qed
qed

lemma deleteUnchained_ok:
  assumes ok: "log_ok C L" and d: "deleteUnchained R category before through limit L = (deleted, L')"
  shows "log_ok C L'"
proof -
  obtain P where L': "L' = keeps_rows P L" and P: "\<forall>r. r \<in> set (lg_rows L) \<longrightarrow> \<not> P r \<longrightarrow> r \<in> set deleted"
    and D: "\<forall>r. r \<in> set deleted \<longrightarrow> r \<in> set (committed L) \<and> unchained_due R category before through r"
    using deleteUnchained_result[OF log_okD(1)[OF ok] d] by (elim exE conjE)
  have keep: "P r" if "r \<in> set (lg_rows L)" "er_hash r \<noteq> None" for r using P D that by (auto simp: unchained_due_def)
  have same: "realm_chain S (lg_rows L') = realm_chain S (lg_rows L)" for S
    unfolding L' realm_chain_def keeps_rows_def using keep by (auto intro!: filter_cong)
  have "chains_ok C L'" using log_okD(4)[OF ok] same by (simp add: L' chains_ok_def anchor_hash_def keeps_rows_def)
  moreover have "anchors_ok L'" unfolding L' by (rule keeps_anchors[OF log_okD(3)[OF ok]]) (rule keep)
  ultimately show ?thesis using keeps_numbers keeps_locks ok by (simp add: log_ok_def L')
qed

lemma chain_prefix_result:
  "chained C prev rs \<Longrightarrow> chain_prefix C head before through prev rs = (doomed, broken) \<Longrightarrow>
    (\<exists>rest. rs = doomed @ rest) \<and> (\<forall>r. r \<in> set doomed \<longrightarrow> head \<noteq> Some (er_seq r) \<and> er_time r < before \<and> row_pos r \<le> through)"
proof (induction rs arbitrary: prev doomed broken)
  case (Cons r rs)
  show ?case
  proof (cases "head = Some (er_seq r) \<or> before \<le> er_time r \<or> \<not> row_pos r \<le> through")
    case True
    then show ?thesis using Cons.prems(2) by simp
  next
    case False
    obtain d b where p: "chain_prefix C head before through (the (er_hash r)) rs = (d, b)" by fastforce
    have "doomed = r # d" using Cons.prems False p by simp
    moreover have "(\<exists>rest. rs = d @ rest) \<and> (\<forall>r. r \<in> set d \<longrightarrow> head \<noteq> Some (er_seq r) \<and> er_time r < before \<and> row_pos r \<le> through)"
      by (rule Cons.IH[OF _ p]) (use Cons.prems(1) in simp)
    ultimately show ?thesis using False by auto
  qed
qed simp

text \<open>What deleting the start of a chain leaves: the rest of the chain, with the last row deleted as its anchor.\<close>

lemma deleteChainStart_result:
  assumes ok: "log_ok C L" and d: "deleteChainStart C R before through limit L = Inr ((doomed, broken), L')" and ne: "doomed \<noteq> []"
  shows "\<exists>rest. chain_rows R (committed L) = doomed @ rest \<and> rest \<noteq> []"
    and "\<forall>r. r \<in> set doomed \<longrightarrow> er_time r < before \<and> row_pos r \<le> through"
    and "L' = L\<lparr>lg_anchors := AList.update R (er_seq (last doomed), the (er_hash (last doomed))) (lg_anchors L),
      lg_rows := filter (\<lambda>r. \<not> (er_realmId r = R \<and> er_seq r \<in> er_seq ` set doomed)) (lg_rows L)\<rparr>"
proof -
  let ?chain = "chain_rows R (committed L)"
  let ?head = "if ?chain = [] then None else Some (er_seq (last ?chain))"
  let ?prev = "anchor_hash L R"
  obtain dm b where p: "chain_prefix C ?head before through ?prev (take limit ?chain) = (dm, b)" by fastforce
  have dm: "dm = doomed" and L': "L' = L\<lparr>lg_anchors := AList.update R (er_seq (last doomed), the (er_hash (last doomed))) (lg_anchors L),
      lg_rows := filter (\<lambda>r. \<not> (er_realmId r = R \<and> er_seq r \<in> er_seq ` set doomed)) (lg_rows L)\<rparr>"
    using d p ne by (auto simp: deleteChainStart_def Let_def anchor_hash_def delete_where_def split: if_splits option.splits)
  have "chained C ?prev (take limit ?chain @ drop limit ?chain)" using committed_chained[OF ok] by simp
  then have "chained C ?prev (take limit ?chain)" by (simp only: chained_append)
  then have r: "(\<exists>rest. take limit ?chain = doomed @ rest) \<and> (\<forall>r. r \<in> set doomed \<longrightarrow> ?head \<noteq> Some (er_seq r) \<and> er_time r < before \<and> row_pos r \<le> through)"
    using chain_prefix_result p dm by blast
  then obtain rest where rest: "take limit ?chain = doomed @ rest" by blast
  have c: "?chain = doomed @ rest @ drop limit ?chain" using rest by (metis append_take_drop_id append.assoc)
  have "rest @ drop limit ?chain \<noteq> []"
  proof
    assume e: "rest @ drop limit ?chain = []"
    then have "?chain = doomed" using c by simp
    then have "?head = Some (er_seq (last doomed))" using ne by simp
    moreover have "last doomed \<in> set doomed" using ne by simp
    ultimately show False using r by metis
  qed
  then show "\<exists>rest. ?chain = doomed @ rest \<and> rest \<noteq> []" using c by blast
  show "\<forall>r. r \<in> set doomed \<longrightarrow> er_time r < before \<and> row_pos r \<le> through" using r by blast
  show "L' = L\<lparr>lg_anchors := AList.update R (er_seq (last doomed), the (er_hash (last doomed))) (lg_anchors L),
      lg_rows := filter (\<lambda>r. \<not> (er_realmId r = R \<and> er_seq r \<in> er_seq ` set doomed)) (lg_rows L)\<rparr>" by (rule L')
qed

lemma deleteChainStart_ok:
  assumes ok: "log_ok C L" and d: "deleteChainStart C R before through limit L = Inr ((doomed, broken), L')"
  shows "log_ok C L'"
proof (cases "doomed = []")
  case True
  then have "L' = L" using d by (auto simp: deleteChainStart_def Let_def split: if_splits prod.splits)
  then show ?thesis using ok by simp
next
  case False
  let ?P = "\<lambda>r. \<not> (er_realmId r = R \<and> er_seq r \<in> er_seq ` set doomed)"
  let ?l = "last doomed"
  obtain rest where c: "chain_rows R (committed L) = doomed @ rest" and rn: "rest \<noteq> []" using deleteChainStart_result(1)[OF ok d False] by blast
  have L': "L' = (keeps_rows ?P L)\<lparr>lg_anchors := AList.update R (er_seq ?l, the (er_hash ?l)) (lg_anchors L)\<rparr>"
    using deleteChainStart_result(3)[OF ok d False] by (simp add: keeps_rows_def)
  note n = log_okD(1)[OF ok]
  obtain left where all: "realm_chain R (lg_rows L) = doomed @ left" and sub: "set rest \<subseteq> set left"
    using chain_splits[OF n log_okD(2)[OF ok], of R] c that[of "rest @ filter (pending L) (realm_chain R (lg_rows L))"] by simp
  have sorted: "sorted_wrt (\<lambda>x y. er_seq x < er_seq y) (doomed @ left)"
    unfolding all[symmetric] using n by (simp add: numbers_ok_def realm_chain_def sorted_filter_rows)
  have after: "er_seq x < er_seq y" if "x \<in> set doomed" "y \<in> set left" for x y using sorted that by (simp add: sorted_wrt_append)
  have l: "?l \<in> set doomed" using False by simp
  have "?l \<in> set (realm_chain R (lg_rows L))" unfolding all using l by simp
  then have ll: "?l \<in> set (lg_rows L)" "er_realmId ?l = R" by (simp_all add: realm_chain_def)
  have new: "realm_chain R (lg_rows L') = left"
  proof -
    have "realm_chain R (lg_rows L') = filter (\<lambda>r. er_seq r \<notin> er_seq ` set doomed) (realm_chain R (lg_rows L))"
      by (auto simp: L' keeps_rows_def realm_chain_def intro!: filter_cong)
    also have "\<dots> = filter (\<lambda>r. er_seq r \<notin> er_seq ` set doomed) doomed @ filter (\<lambda>r. er_seq r \<notin> er_seq ` set doomed) left" unfolding all by (rule filter_append)
    also have "\<dots> = left" using after by (fastforce simp: filter_empty_conv filter_id_conv)
    finally show ?thesis .
  qed
  have others: "realm_chain S (lg_rows L') = realm_chain S (lg_rows L)" if "S \<noteq> R" for S
    using that by (auto simp: L' keeps_rows_def realm_chain_def intro!: filter_cong)
  have "chains_ok C L'" unfolding chains_ok_def
  proof
    fix S
    show "chained C (anchor_hash L' S) (realm_chain S (lg_rows L'))"
    proof (cases "S = R")
      case True
      have "chained C (anchor_hash L R) (doomed @ left)" using log_okD(4)[OF ok] unfolding chains_ok_def all[symmetric] by blast
      then have "chained C (chain_end (anchor_hash L R) doomed) left" by (simp only: chained_append)
      moreover have "anchor_hash L' R = chain_end (anchor_hash L R) doomed" using False by (simp add: anchor_hash_def L' chain_end_def update_conv')
      ultimately show ?thesis using True new by simp
    next
      case False
      then show ?thesis using others[OF False] log_okD(4)[OF ok] by (simp add: chains_ok_def anchor_hash_def L' update_conv')
    qed
  qed
  moreover have "anchors_ok L'"
  proof -
    have gone: "er_seq r \<noteq> er_seq ?l" if "r \<in> set (lg_rows L')" for r
    proof
      assume e: "er_seq r = er_seq ?l"
      have "r \<in> set (lg_rows L)" using that by (simp add: L' keeps_rows_def)
      then have "r = ?l" using seq_names_row[OF n _ ll(1) e] by blast
      then show False using that l ll(2) by (auto simp: L' keeps_rows_def)
    qed
    have newer: "er_seq ?l < er_seq r" if "r \<in> set (lg_rows L')" "er_realmId r = R" "er_hash r \<noteq> None" for r
    proof (rule after[OF l])
      show "r \<in> set left" unfolding new[symmetric] using that by (simp add: realm_chain_def)
    qed
    have head: "\<exists>r. r \<in> set (lg_rows L') \<and> er_realmId r = R \<and> er_hash r \<noteq> None \<and> \<not> pending L' r"
    proof -
      have "hd rest \<in> set (chain_rows R (committed L))" using c rn by simp
      then have "hd rest \<in> set (committed L)" by (simp add: chain_rows_def)
      then have "\<not> pending L' (hd rest)" by (simp add: committed_def pending_def L' keeps_rows_def)
      moreover have "hd rest \<in> set (realm_chain R (lg_rows L'))" using new sub hd_in_set[OF rn] by auto
      ultimately show ?thesis by (auto simp: realm_chain_def)
    qed
    have old: "fst a < lg_nextSeq L' \<and> (\<forall>r. r \<in> set (lg_rows L') \<longrightarrow> er_seq r \<noteq> fst a \<and> (er_realmId r = S \<longrightarrow> er_hash r \<noteq> None \<longrightarrow> fst a < er_seq r))
        \<and> (\<exists>r. r \<in> set (lg_rows L') \<and> er_realmId r = S \<and> er_hash r \<noteq> None \<and> \<not> pending L' r)" if "S \<noteq> R" "map_of (lg_anchors L) S = Some a" for S a
    proof -
      have a: "fst a < lg_nextSeq L" "\<forall>r. r \<in> set (lg_rows L) \<longrightarrow> er_seq r \<noteq> fst a \<and> (er_realmId r = S \<longrightarrow> er_hash r \<noteq> None \<longrightarrow> fst a < er_seq r)"
        "\<exists>r. r \<in> set (lg_rows L) \<and> er_realmId r = S \<and> er_hash r \<noteq> None \<and> \<not> pending L r" using log_okD(3)[OF ok] that(2) unfolding anchors_ok_def by blast+
      then show ?thesis using that(1) by (auto simp: L' keeps_rows_def pending_def)
    qed
    have "er_seq ?l < lg_nextSeq L'" using n ll(1) by (simp add: numbers_ok_def L' keeps_rows_def)
    then show ?thesis unfolding anchors_ok_def
    proof (intro allI impI)
      fix S a assume m: "map_of (lg_anchors L') S = Some a"
      show "fst a < lg_nextSeq L' \<and> (\<forall>r. r \<in> set (lg_rows L') \<longrightarrow> er_seq r \<noteq> fst a \<and> (er_realmId r = S \<longrightarrow> er_hash r \<noteq> None \<longrightarrow> fst a < er_seq r))
        \<and> (\<exists>r. r \<in> set (lg_rows L') \<and> er_realmId r = S \<and> er_hash r \<noteq> None \<and> \<not> pending L' r)"
      proof (cases "S = R")
        case True
        then have "fst a = er_seq ?l" using m by (auto simp: L' update_conv' split: if_splits)
        then show ?thesis using True gone newer head \<open>er_seq ?l < lg_nextSeq L'\<close> by simp
      next
        case False
        then show ?thesis using old[OF False] m by (simp add: L' update_conv')
      qed
    qed
  qed
  ultimately show ?thesis using keeps_numbers[OF n, of ?P] keeps_locks[OF log_okD(2)[OF ok], of ?P]
    by (simp add: log_ok_def L' numbers_ok_def locks_ok_def pending_def)
qed

lemma deleteBatch_cases:
  assumes "deleteBatch C locked realmId category before through limit now L = Inr (b, L')"
  obtains "L' = L" "b = RetentionBusy"
  | t deleted where "decodeEventPosition through = Some t" "pp_realmId t = map to_lower realmId"
      "deleteUnchained (map to_lower realmId) category before (pp_xid t, pp_seq t) (nat limit) L = (deleted, L')" "\<exists>m. b = RetentionDone deleted m None"
  | t deleted L1 k doomed broken where "decodeEventPosition through = Some t" "pp_realmId t = map to_lower realmId"
      "deleteUnchained (map to_lower realmId) category before (pp_xid t, pp_seq t) (nat limit) L = (deleted, L1)"
      "deleteChainStart C (map to_lower realmId) before (pp_xid t, pp_seq t) k L1 = Inr ((doomed, broken), L')" "\<exists>m. b = RetentionDone (deleted @ doomed) m broken"
  using assms by (auto simp: deleteBatch_def Let_def split: if_splits option.splits sum.splits prod.splits)

lemma deleteBatch_ok:
  assumes ok: "log_ok C L" and "deleteBatch C locked realmId category before through limit now L = Inr (b, L')"
  shows "log_ok C L'"
  using assms(2)
proof (cases rule: deleteBatch_cases)
  case 1
  then show ?thesis using ok by simp
next
  case (2 t deleted)
  then show ?thesis using deleteUnchained_ok[OF ok] by blast
next
  case (3 t deleted L1 k doomed broken)
  then show ?thesis using deleteChainStart_ok[OF deleteUnchained_ok[OF ok 3(3)] 3(4)] by simp
qed

lemma row_of_envelope_plain: "buildEvent G eventId at e = Inr (r, env) \<Longrightarrow> er_hash r = None"
  by (auto simp: buildEvent_def row_of_envelope_def split: option.splits if_splits)

lemma log_step_ok: "log_step C G L L' \<Longrightarrow> log_ok C L \<Longrightarrow> log_ok C L'"
proof (induction rule: log_step.induct)
  case (emits xid L eventId at e)
  show ?case
  proof (cases "buildEvent G eventId at e")
    case (Inr b)
    obtain r env where b: "b = (r, env)" by fastforce
    show ?thesis
    proof (cases "er_category r = AdminCategory")
      case True
      then have "chain_lock_free (er_realmId r) xid L" using emits(2) Inr b by blast
      then show ?thesis using appendToChain_ok[OF emits.prems emits(1)] Inr b True by (simp add: emit_event_def)
    next
      case False
      then show ?thesis using insert_plain_ok[OF emits.prems emits(1) row_of_envelope_plain] Inr b by (simp add: emit_event_def)
    qed
  qed (use emits in \<open>simp add: emit_event_def\<close>)
qed (simp_all add: begin_ok commit_ok abort_ok deleteBatch_ok)

lemma log_run_ok: "(log_step C G)\<^sup>*\<^sup>* L L' \<Longrightarrow> log_ok C L \<Longrightarrow> log_ok C L'"
  by (induction rule: rtranclp_induct) (auto intro: log_step_ok)

subsection \<open>A kept head stays in the chain\<close>

text \<open>A chain row that was committed is still there, or retention deleted it: then the anchor is it or a later one.\<close>

definition kept_point :: "string \<Rightarrow> chain_point \<Rightarrow> event_log \<Rightarrow> bool" where
  "kept_point R p L \<longleftrightarrow> (\<exists>r. r \<in> set (chain_rows R (committed L)) \<and> er_seq r = fst p \<and> er_hash r = Some (snd p))
     \<or> (\<exists>a. map_of (lg_anchors L) R = Some a \<and> (fst p < fst a \<or> a = p))"

lemma chain_rows_mem: "r \<in> set (chain_rows R rs) \<longleftrightarrow> r \<in> set rs \<and> er_realmId r = R \<and> er_hash r \<noteq> None"
  by (simp add: chain_rows_def)

lemma kept_same:
  assumes "kept_point R p L" and "lg_anchors L' = lg_anchors L" and "\<And>r. r \<in> set (committed L) \<Longrightarrow> er_hash r \<noteq> None \<Longrightarrow> r \<in> set (committed L')"
  shows "kept_point R p L'"
  using assms by (auto simp: kept_point_def chain_rows_mem)

lemma emit_event_shape:
  shows "\<exists>tail. lg_rows (snd (emit_event C G xid eventId at e L)) = lg_rows L @ tail \<and> length tail \<le> 1
    \<and> (\<forall>r. r \<in> set tail \<longrightarrow> er_xid r = xid \<and> er_seq r = lg_nextSeq L \<and> (\<exists>r' env. buildEvent G eventId at e = Inr (r', env) \<and> er_id r = er_id r' \<and> er_realmId r = er_realmId r'))"
    and "lg_open (snd (emit_event C G xid eventId at e L)) = lg_open L" "lg_anchors (snd (emit_event C G xid eventId at e L)) = lg_anchors L"
    and "lg_nextXid (snd (emit_event C G xid eventId at e L)) = lg_nextXid L"
  by (auto simp: emit_event_def appendToChain_def insertEvent_def Let_def split: sum.splits prod.splits option.splits)

lemma kept_after_deletion:
  assumes ok: "log_ok C L" and d: "deleteChainStart C S before through limit L = Inr ((doomed, broken), L')" and ne: "doomed \<noteq> []" and k: "kept_point R p L"
  shows "kept_point R p L'"
proof -
  note L' = deleteChainStart_result(3)[OF ok d ne]
  obtain rest where c: "chain_rows S (committed L) = doomed @ rest" using deleteChainStart_result(1)[OF ok d ne] by blast
  have anchors: "map_of (lg_anchors L') T = (if T = S then Some (er_seq (last doomed), the (er_hash (last doomed))) else map_of (lg_anchors L) T)" for T
    by (simp add: L' update_conv')
  have lm: "last doomed \<in> set (chain_rows S (committed L))" using c ne by simp
  then have li: "last doomed \<in> set (lg_rows L)" "er_realmId (last doomed) = S" "er_hash (last doomed) \<noteq> None" by (simp_all add: chain_rows_mem committed_def)
  have later: "fst a < er_seq (last doomed)" if "map_of (lg_anchors L) S = Some a" for a
    using log_okD(3)[OF ok] that li unfolding anchors_ok_def by blast
  from k[unfolded kept_point_def] show ?thesis
  proof (elim disjE exE conjE)
    fix r assume r: "r \<in> set (chain_rows R (committed L))" "er_seq r = fst p" "er_hash r = Some (snd p)"
    show ?thesis
    proof (cases "R = S \<and> er_seq r \<in> er_seq ` set doomed")
      case False
      then have "r \<in> set (chain_rows R (committed L'))" using r(1) by (auto simp: chain_rows_mem committed_def L')
      then show ?thesis using r unfolding kept_point_def by blast
    next
      case True
      have s: "sorted_wrt (\<lambda>x y. er_seq x < er_seq y) (chain_rows S (committed L))"
        using log_okD(1)[OF ok] by (simp add: committed_chain[OF log_okD(1)[OF ok]] numbers_ok_def realm_chain_def sorted_filter_rows)
      obtain r' where r': "r' \<in> set doomed" "er_seq r = er_seq r'" using True by blast
      have "r' \<in> set (chain_rows S (committed L))" using r'(1) c by simp
      then have "r' \<in> set (lg_rows L)" "r \<in> set (lg_rows L)" using r(1) by (simp_all add: chain_rows_mem committed_def)
      then have "r \<in> set doomed" using seq_names_row[OF log_okD(1)[OF ok]] r' by metis
      then have "r = last doomed \<or> er_seq r < er_seq (last doomed)"
      proof -
        have "sorted_wrt (\<lambda>x y. er_seq x < er_seq y) (butlast doomed @ [last doomed])" using s c ne by (simp add: sorted_wrt_append)
        moreover have "r \<in> set (butlast doomed @ [last doomed])" using \<open>r \<in> set doomed\<close> ne by simp
        ultimately show ?thesis by (auto simp: sorted_wrt_append)
      qed
      then show ?thesis using True anchors[of R] r(2,3) by (cases p) (auto simp: kept_point_def)
    qed
  next
    fix a assume "map_of (lg_anchors L) R = Some a" "fst p < fst a"
    then show ?thesis using anchors[of R] later[of a] by (cases "R = S") (auto simp: kept_point_def)
  next
    fix a assume "map_of (lg_anchors L) R = Some a" "a = p"
    then show ?thesis using anchors[of R] later[of a] by (cases "R = S") (auto simp: kept_point_def)
  qed
qed

lemma kept_step:
  assumes "log_step C G L L'" and "log_ok C L" and "kept_point R p L"
  shows "kept_point R p L'"
  using assms
proof (induction rule: log_step.induct)
  case (begins L)
  have "committed (snd (begin_tx L)) = committed L" using log_okD(1)[OF begins(1)]
    by (auto simp: committed_def begin_tx_def numbers_ok_def intro!: filter_cong)
  then show ?case using begins kept_same[OF begins(2)] by (simp add: begin_tx_def)
next
  case (emits xid L eventId at e)
  obtain tail where "lg_rows (snd (emit_event C G xid eventId at e L)) = lg_rows L @ tail" using emit_event_shape(1) by blast
  then show ?case using kept_same[OF emits.prems(2)] emit_event_shape(2,3)[of C G xid eventId at e L] by (simp add: committed_def)
next
  case (commits xid L)
  show ?case by (rule kept_same[OF commits.prems(2)]) (auto simp: commit_tx_def committed_def)
next
  case (aborts xid L)
  show ?case by (rule kept_same[OF aborts.prems(2)]) (use aborts(1) in \<open>auto simp: abort_tx_def commit_tx_def committed_def\<close>)
next
  case (retains locked realmId category before through limit now L b L')
  have plain: "kept_point R p L2 \<and> log_ok C L2" if u: "deleteUnchained S category before thr n L = (deleted, L2)" for S thr n deleted L2
  proof -
    obtain P where L2: "L2 = keeps_rows P L" and P: "\<forall>r. r \<in> set (lg_rows L) \<longrightarrow> \<not> P r \<longrightarrow> r \<in> set deleted"
      and D: "\<forall>r. r \<in> set deleted \<longrightarrow> r \<in> set (committed L) \<and> unchained_due S category before thr r"
      using deleteUnchained_result[OF log_okD(1)[OF retains.prems(1)] u] by (elim exE conjE)
    have keep: "P r" if "r \<in> set (lg_rows L)" "er_hash r \<noteq> None" for r using P D that by (auto simp: unchained_due_def)
    have "kept_point R p L2" by (rule kept_same[OF retains.prems(2)]) (use keep in \<open>auto simp: L2 keeps_rows_def committed_def\<close>)
    then show ?thesis using deleteUnchained_ok[OF retains.prems(1) u] by simp
  qed
  from retains(1) show ?case
  proof (cases rule: deleteBatch_cases)
    case 1
    then show ?thesis using retains.prems by simp
  next
    case (2 t deleted)
    then show ?thesis using plain by blast
  next
    case (3 t deleted L1 k doomed broken)
    have k1: "kept_point R p L1" and ok1: "log_ok C L1" using plain 3(3) by blast+
    let ?S = "map to_lower realmId"
    show ?thesis
    proof (cases "doomed = []")
      case True
      then have "L' = L1" using 3(4) by (auto simp: deleteChainStart_def Let_def split: if_splits prod.splits)
      then show ?thesis using k1 by simp
    next
      case False
      show ?thesis by (rule kept_after_deletion[OF ok1 3(4) False k1])
    qed
  qed
qed

lemma kept_run: "(log_step C G)\<^sup>*\<^sup>* L L' \<Longrightarrow> log_ok C L \<Longrightarrow> kept_point R p L \<Longrightarrow> kept_point R p L'"
proof (induction rule: rtranclp_induct)
  case (step y z)
  then show ?case using kept_step log_run_ok by blast
qed simp

subsection \<open>The chain verifies\<close>

lemma UUID_lower: "UUID s \<Longrightarrow> map to_lower s = s"
proof (rule map_idI)
  fix c assume u: "UUID s" and c: "c \<in> set s"
  obtain i where i: "i < length s" "s ! i = c" using c by (auto simp: in_set_conv_nth)
  then have "(i, c) \<in> set (zip [0..<36] s)" using u by (auto simp: UUID_def set_zip intro!: exI[of _ i])
  then show "to_lower c = c" using u by (auto simp: UUID_def list_all_iff hex_lower_def to_lower_def Let_def split: if_splits)
qed

lemma committed_chain_sorted: "log_ok C L \<Longrightarrow> sorted_wrt (\<lambda>x y. er_seq x < er_seq y) (chain_rows R (committed L))"
  using log_okD(1)[of C L] by (simp add: committed_chain numbers_ok_def realm_chain_def sorted_filter_rows)

lemma verify_from_start:
  assumes ok: "log_ok C L" and b: "0 < batch" and R: "UUID R"
    and start: "chain_start_of asked (map_of (lg_anchors L) R) = (start, pruned)"
    and len: "\<And>p. asked = Some p \<Longrightarrow> length (snd p) = 32"
    and agree: "\<And>p a. asked = Some p \<Longrightarrow> map_of (lg_anchors L) R = Some a \<Longrightarrow> fst p = fst a \<Longrightarrow> p = a"
    and point: "0 < fst start \<Longrightarrow> point_break C R start pruned (committed L) = None"
    and rows: "chained C (snd start) (filter (\<lambda>r. fst start < er_seq r) (chain_rows R (committed L)))"
  shows "verifyChain C batch R asked L = Inr (ChainOk start (length (filter (\<lambda>r. fst start < er_seq r) (chain_rows R (committed L))))
    (head_of None (filter (\<lambda>r. fst start < er_seq r) (chain_rows R (committed L)))))"
proof -
  let ?fs = "filter (\<lambda>r. fst start < er_seq r) (chain_rows R (committed L))"
  have "sorted_wrt (<) (map er_seq (chain_rows R (committed L)))" using committed_chain_sorted[OF ok] by (simp add: sorted_wrt_map)
  then have v: "verify_pages C batch (chain_rows R (committed L)) (fst start) (snd start) 0 None = Inr (length ?fs, head_of None ?fs)"
    using verify_pages_one_pass[OF _ b] check_rows_chained[OF rows] by simp
  have "\<not> (case (asked, map_of (lg_anchors L) R) of (Some p, Some a) \<Rightarrow> fst p = fst a \<and> snd p \<noteq> snd a | _ \<Rightarrow> False)"
    using agree by (auto split: option.splits)
  then show ?thesis using v start point R len UUID_lower[OF R] by (auto simp: verifyChain_def Let_def)
qed

lemma anchor_start:
  assumes ok: "log_ok C L" and a: "map_of (lg_anchors L) R = Some a"
  shows "point_break C R a True (committed L) = None"
    and "filter (\<lambda>r. fst a < er_seq r) (chain_rows R (committed L)) = chain_rows R (committed L)"
proof -
  have f: "\<forall>r. r \<in> set (lg_rows L) \<longrightarrow> er_seq r \<noteq> fst a \<and> (er_realmId r = R \<longrightarrow> er_hash r \<noteq> None \<longrightarrow> fst a < er_seq r)"
    using log_okD(3)[OF ok] a unfolding anchors_ok_def by blast
  then have "find (\<lambda>r. er_realmId r = R \<and> er_seq r = fst a) (committed L) = None" by (auto simp: find_None_iff committed_def)
  then show "point_break C R a True (committed L) = None" by (simp add: point_break_def)
  show "filter (\<lambda>r. fst a < er_seq r) (chain_rows R (committed L)) = chain_rows R (committed L)"
    using f by (simp add: filter_id_conv chain_rows_mem committed_def)
qed

lemma chained_row: "chained C prev rs \<Longrightarrow> r \<in> set rs \<Longrightarrow> \<exists>q. er_prevHash r = Some q \<and> checkChainRow C r q = None"
proof (induction rs arbitrary: prev)
  case (Cons x xs)
  show ?case
  proof (cases "r = x")
    case True
    moreover have "er_prevHash x = Some prev" using Cons.prems(1) by (auto simp: checkChainRow_def split: if_splits)
    ultimately show ?thesis using Cons.prems(1) by simp
  next
    case False
    then show ?thesis using Cons.IH[of "the (er_hash x)"] Cons.prems by simp
  qed
qed simp

lemma checkChainRow_None:
  assumes "checkChainRow C r p = None"
  obtains e t where "er_prevHash r = Some p" "envelopeOf r = Some e" "ch_canonicalizeJson C e = Some t" "length p = 32" "er_xid r \<le> MAX_XID8"
    "er_hash r = Some (ch_sha256 C (chain_text p (er_xid r) t))"
  using assms by (auto simp: checkChainRow_def eventChainHash_def bind_eq_Some_conv split: if_splits option.splits)

lemma row_start:
  assumes ok: "log_ok C L" and r: "r \<in> set (chain_rows R (committed L))" "er_seq r = fst p" "er_hash r = Some (snd p)"
  shows "point_break C R p b (committed L) = None" and "0 < fst p"
    and "chained C (snd p) (filter (\<lambda>r. fst p < er_seq r) (chain_rows R (committed L)))"
proof -
  note n = log_okD(1)[OF ok]
  have rc: "r \<in> set (committed L)" "er_realmId r = R" using r(1) by (simp_all add: chain_rows_mem)
  have same: "r' = r" if "r' \<in> set (committed L)" "er_seq r' = fst p" for r'
    using seq_names_row[OF n] that rc(1) r(2) by (simp add: committed_def)
  have "find (\<lambda>r. er_realmId r = R \<and> er_seq r = fst p) (committed L) = Some r"
  proof (cases "find (\<lambda>r. er_realmId r = R \<and> er_seq r = fst p) (committed L)")
    case None
    then show ?thesis using rc r(2) by (auto simp: find_None_iff)
  next
    case (Some r')
    then have "r' \<in> set (committed L)" "er_seq r' = fst p" by (auto simp: find_Some_iff)
    then show ?thesis using Some same by simp
  qed
  moreover obtain q where "er_prevHash r = Some q" "checkChainRow C r q = None" using chained_row[OF committed_chained[OF ok] r(1)] by blast
  ultimately show "point_break C R p b (committed L) = None" using r(3) by (simp add: point_break_def)
  show "0 < fst p" using n rc(1) r(2) by (auto simp: numbers_ok_def committed_def)
  obtain xs ys where c: "chain_rows R (committed L) = xs @ r # ys" using r(1) by (meson split_list)
  have s: "sorted_wrt (\<lambda>x y. er_seq x < er_seq y) (xs @ r # ys)" using committed_chain_sorted[OF ok, of R] c by simp
  have "filter (\<lambda>x. fst p < er_seq x) (xs @ r # ys) = ys"
    using s r(2) by (auto simp: sorted_wrt_append filter_empty_conv filter_id_conv)
  moreover have "chained C (anchor_hash L R) (xs @ r # ys)" using committed_chained[OF ok, of R] c by simp
  ultimately show "chained C (snd p) (filter (\<lambda>r. fst p < er_seq r) (chain_rows R (committed L)))" using r(3) c by (simp add: chained_append)
qed

text \<open>Without a point the whole chain is checked; from a kept one, what follows it.\<close>

lemma verify_whole:
  assumes ok: "log_ok C L" and b: "0 < batch" and R: "UUID R"
  shows "verifyChain C batch R None L = Inr (ChainOk (fst (chain_start_of None (map_of (lg_anchors L) R))) (length (chain_rows R (committed L)))
    (head_of None (chain_rows R (committed L))))"
proof (cases "map_of (lg_anchors L) R")
  case None
  have "filter (\<lambda>r. 0 < er_seq r) (chain_rows R (committed L)) = chain_rows R (committed L)"
    using log_okD(1)[OF ok] by (simp add: filter_id_conv chain_rows_mem committed_def numbers_ok_def)
  then show ?thesis using verify_from_start[OF ok b R, of None "(0, EVENT_CHAIN_GENESIS_HASH)" False] committed_chained[OF ok, of R] None
    by (simp add: chain_start_of_def anchor_hash_def)
next
  case (Some a)
  show ?thesis using verify_from_start[OF ok b R, of None a True] committed_chained[OF ok, of R] Some anchor_start[OF ok Some]
    by (simp add: chain_start_of_def anchor_hash_def)
qed

lemma verify_kept:
  assumes ok: "log_ok C L" and b: "0 < batch" and R: "UUID R" and k: "kept_point R p L" and len: "length (snd p) = 32"
  shows "\<exists>s n h. verifyChain C batch R (Some p) L = Inr (ChainOk s n h)"
proof -
  have low: "fst a < er_seq r" if "map_of (lg_anchors L) R = Some a" "r \<in> set (chain_rows R (committed L))" for a r
  proof -
    have "r \<in> set (lg_rows L)" "er_realmId r = R" "er_hash r \<noteq> None" using that(2) by (simp_all add: chain_rows_mem committed_def)
    then show ?thesis using log_okD(3)[OF ok] that(1) unfolding anchors_ok_def by blast
  qed
  show ?thesis
  proof (cases "\<exists>a. map_of (lg_anchors L) R = Some a \<and> fst p \<le> fst a")
    case True
    then obtain a where a: "map_of (lg_anchors L) R = Some a" "fst p \<le> fst a" by blast
    have "fst p < fst a \<or> a = p" using k low[OF a(1)] a by (fastforce simp: kept_point_def)
    then have agree: "p = a" if "fst p = fst a" using that by auto
    have "verifyChain C batch R (Some p) L = Inr (ChainOk a (length (filter (\<lambda>r. fst a < er_seq r) (chain_rows R (committed L))))
      (head_of None (filter (\<lambda>r. fst a < er_seq r) (chain_rows R (committed L)))))"
    proof (rule verify_from_start[OF ok b R])
      show "chain_start_of (Some p) (map_of (lg_anchors L) R) = (a, True)" using a by (simp add: chain_start_of_def)
      show "chained C (snd a) (filter (\<lambda>r. fst a < er_seq r) (chain_rows R (committed L)))"
        using committed_chained[OF ok, of R] a anchor_start(2)[OF ok a(1)] by (simp add: anchor_hash_def)
    qed (use len agree a anchor_start(1)[OF ok a(1)] in auto)
    then show ?thesis by blast
  next
    case False
    then obtain r where r: "r \<in> set (chain_rows R (committed L))" "er_seq r = fst p" "er_hash r = Some (snd p)" using k by (auto simp: kept_point_def)
    have "verifyChain C batch R (Some p) L = Inr (ChainOk p (length (filter (\<lambda>r. fst p < er_seq r) (chain_rows R (committed L))))
      (head_of None (filter (\<lambda>r. fst p < er_seq r) (chain_rows R (committed L)))))"
    proof (rule verify_from_start[OF ok b R])
      show "chain_start_of (Some p) (map_of (lg_anchors L) R) = (p, False)" using False by (auto simp: chain_start_of_def split: option.splits)
      show "chained C (snd p) (filter (\<lambda>r. fst p < er_seq r) (chain_rows R (committed L)))" by (rule row_start(3)[OF ok r])
    qed (use len row_start(1)[OF ok r] False in auto)
    then show ?thesis by blast
  qed
qed

text \<open>A realm with one admin event, written by a transaction that commits.\<close>

definition demo_realm :: string where "demo_realm = ''6f1c2d3e-0000-7000-8000-000000000001''"

definition demo_admin :: unchecked_event where
  "demo_admin = \<lparr>ue_type = ''client.created'', ue_realm = demo_realm, ue_actor = Some (''user'', Some ''u1'', None), ue_subject = Some (''client'', ''c1''),
     ue_client = None, ue_request = None, ue_data = ''{}''\<rparr>"

definition demo_registry :: event_registry where
  "demo_registry = \<lparr>gr_category = (\<lambda>t. if t = ''client.created'' then Some AdminCategory else None), gr_parse = Some\<rparr>"

definition demo_env :: envelope where
  "demo_env = \<lparr>en_id = ''e1'', en_type = ''client.created'', en_time = 7, en_realm = demo_realm, en_category = AdminCategory,
     en_actor = Some (''user'', Some ''u1'', None), en_subject = Some (''client'', ''c1''), en_client = None, en_request = None, en_data = ''{}''\<rparr>"

definition demo_chain :: chain_deps where
  "demo_chain = \<lparr>ch_sha256 = (\<lambda>t. replicate 31 (CHR ''h'') @ [if t = [] then CHR ''0'' else last t]),
     ch_canonicalizeJson = (\<lambda>e. if e = demo_env then Some ''{1}'' else None)\<rparr>"

definition demo_start :: "nat \<Rightarrow> event_log" where
  "demo_start n = \<lparr>lg_nextXid = 1, lg_open = [], lg_nextSeq = n, lg_rows = [], lg_anchors = [], lg_locks = []\<rparr>"

definition demo_end :: "nat \<Rightarrow> event_log" where
  "demo_end n = commit_tx 1 (snd (emit_event demo_chain demo_registry 1 ''e1'' 7 demo_admin (snd (begin_tx (demo_start n)))))"

lemma demo_realm_facts: "UUID demo_realm" "map to_lower demo_realm = demo_realm"
  by code_simp+

lemma demo_sha: "length (ch_sha256 demo_chain t) = 32"
  by (simp add: demo_chain_def)

lemma demo_build: "buildEvent demo_registry ''e1'' 7 demo_admin = Inr (row_of_envelope demo_env, demo_env)"
proof -
  have "nulPaths demo_env = []" by code_simp
  then show ?thesis by (simp add: buildEvent_def demo_registry_def demo_admin_def demo_realm_facts demo_env_def)
qed

lemma demo_row_hash: "length p = 32 \<Longrightarrow> eventChainHash demo_chain p 1 demo_env = Some (replicate 31 (CHR ''h'') @ ''}'')"
  by (simp add: eventChainHash_def demo_chain_def chain_text_def MAX_XID8_def)

definition demo_row :: "nat \<Rightarrow> event_row" where
  "demo_row n = (row_of_envelope demo_env)\<lparr>er_prevHash := Some EVENT_CHAIN_GENESIS_HASH, er_hash := Some (replicate 31 (CHR ''h'') @ ''}''), er_seq := n, er_xid := 1\<rparr>"

lemma demo_row_checks: "checkChainRow demo_chain (demo_row n) EVENT_CHAIN_GENESIS_HASH = None"
proof -
  have "envelopeOf (demo_row n) = Some demo_env" using envelopeOf_row[of demo_env]
    by (simp add: demo_row_def envelopeOf_def row_of_envelope_def demo_env_def)
  then show ?thesis using demo_row_hash[of EVENT_CHAIN_GENESIS_HASH]
    by (simp add: checkChainRow_def) (simp add: demo_row_def EVENT_CHAIN_GENESIS_HASH_def)
qed

lemma demo_end_eq: "demo_end n = (demo_start n)\<lparr>lg_nextXid := 2, lg_nextSeq := Suc n, lg_rows := [demo_row n]\<rparr>"
proof -
  let ?g = EVENT_CHAIN_GENESIS_HASH
  have "eventChainHash demo_chain ?g 1 demo_env = Some (replicate 31 (CHR ''h'') @ ''}'')" by (rule demo_row_hash) (simp add: EVENT_CHAIN_GENESIS_HASH_def)
  moreover have "er_realmId (row_of_envelope demo_env) = demo_realm" "er_category (row_of_envelope demo_env) = AdminCategory"
    by (simp_all add: row_of_envelope_def demo_env_def)
  ultimately show ?thesis using demo_row_checks[of n]
    by (simp add: demo_end_def emit_event_def demo_build appendToChain_def insertEvent_def begin_tx_def demo_start_def commit_tx_def
        events_admin_chain_head_def visible_def chain_rows_def demo_row_def del: replicate_Suc)
qed

lemma demo_empty: "0 < n \<Longrightarrow> empty_log (demo_start n)"
  by (simp add: empty_log_def demo_start_def)

lemma demo_rows: "chain_rows demo_realm (committed (demo_end n)) = [demo_row n]"
  by (simp add: demo_end_eq committed_def demo_start_def chain_rows_def) (simp add: demo_row_def row_of_envelope_def demo_env_def)

lemma demo_run: "(log_step demo_chain demo_registry)\<^sup>*\<^sup>* (demo_start n) (demo_end n)"
proof -
  let ?S = "log_step demo_chain demo_registry" and ?L1 = "snd (begin_tx (demo_start n))"
  let ?L2 = "snd (emit_event demo_chain demo_registry 1 ''e1'' 7 demo_admin ?L1)"
  have o: "1 \<in> set (lg_open ?L1)" "lg_rows ?L1 = []" "chain_lock_free R 1 ?L1" for R
    by (simp_all add: begin_tx_def demo_start_def chain_lock_free_def)
  have "?S (demo_start n) ?L1" by (rule log_step.begins)
  moreover have "?S ?L1 ?L2" using o by (intro log_step.emits) simp_all
  moreover have "lg_open ?L2 = lg_open ?L1"
    by (simp add: emit_event_def demo_build appendToChain_def Let_def insertEvent_def split: option.split)
  then have "?S ?L2 (demo_end n)" unfolding demo_end_def using o by (intro log_step.commits) simp
  ultimately show ?thesis by (meson rtranclp.rtrancl_into_rtrancl rtranclp.rtrancl_refl)
qed

text \<open>
  C5. However transactions that write events begin, commit and roll back, and whatever retention deletes in
  between: in every state the admin events of a realm that are committed verify as one chain, all of
  them and up to the newest one, whatever the size of the verifier's pages; and the head it returns,
  kept outside the database, verifies as the point to start from in every later state, also once
  retention has deleted its row.
\<close>

theorem admin_chain_verifies:
  assumes sha: "\<And>t. length (ch_sha256 C t) = 32"
    and runs: "empty_log L0" "(log_step C G)\<^sup>*\<^sup>* L0 L" "(log_step C G)\<^sup>*\<^sup>* L L'"
    and args: "UUID realm" "0 < batch" "0 < batch'"
  shows "verifyChain C batch realm None L = Inr (ChainOk (fst (chain_start_of None (map_of (lg_anchors L) realm)))
      (length (chain_rows realm (committed L))) (head_of None (chain_rows realm (committed L))))
    \<and> (\<forall>i p. head_of None (chain_rows realm (committed L)) = Some (i, p) \<longrightarrow> (\<exists>s n h. verifyChain C batch' realm (Some p) L' = Inr (ChainOk s n h)))"
proof (intro conjI allI impI)
  have ok: "log_ok C L" by (rule log_run_ok[OF runs(2) empty_log_ok[OF runs(1)]])
  have ok': "log_ok C L'" by (rule log_run_ok[OF runs(3) ok])
  show "verifyChain C batch realm None L = Inr (ChainOk (fst (chain_start_of None (map_of (lg_anchors L) realm)))
      (length (chain_rows realm (committed L))) (head_of None (chain_rows realm (committed L))))"
    by (rule verify_whole[OF ok args(2,1)])
  fix i p assume h: "head_of None (chain_rows realm (committed L)) = Some (i, p)"
  let ?r = "last (chain_rows realm (committed L))"
  have r: "?r \<in> set (chain_rows realm (committed L))" and p: "p = (er_seq ?r, the (er_hash ?r))" using h by (auto simp: head_of_def split: if_splits)
  obtain q where "checkChainRow C ?r q = None" using chained_row[OF committed_chained[OF ok] r] by blast
  then obtain t where t: "er_hash ?r = Some (ch_sha256 C t)" by (rule checkChainRow_None) blast
  have "kept_point realm p L" using r p t unfolding kept_point_def by auto
  then have "kept_point realm p L'" by (rule kept_run[OF runs(3) ok])
  then show "\<exists>s n h. verifyChain C batch' realm (Some p) L' = Inr (ChainOk s n h)"
    by (rule verify_kept[OF ok' args(3,1)]) (simp add: p t sha)
qed

theorem admin_chain_verifies_witness:
  "(\<exists>s h. verifyChain demo_chain 10 demo_realm None (demo_end 1) = Inr (ChainOk s 1 (Some h)))
   \<and> (\<exists>i p s n h. head_of None (chain_rows demo_realm (committed (demo_end 1))) = Some (i, p) \<and> verifyChain demo_chain 1 demo_realm (Some p) (demo_end 1) = Inr (ChainOk s n h))"
proof -
  obtain i p where p: "head_of None [demo_row 1] = Some (i, p)" by (simp add: head_of_def)
  note a = admin_chain_verifies[OF demo_sha demo_empty[OF zero_less_one] demo_run rtranclp.rtrancl_refl demo_realm_facts(1), of 10 1, unfolded demo_rows p]
  have "\<exists>s h. verifyChain demo_chain 10 demo_realm None (demo_end 1) = Inr (ChainOk s 1 (Some h))" using a by simp
  moreover have "\<exists>s n h. verifyChain demo_chain 1 demo_realm (Some p) (demo_end 1) = Inr (ChainOk s n h)" using a by (cases p) simp
  ultimately show ?thesis using p demo_rows[of 1] by auto
qed

subsection \<open>What a head fixes\<close>

lemma digits_agree:
  fixes n m b :: nat
  shows "(\<And>j. j < k \<Longrightarrow> n div b ^ j mod b = m div b ^ j mod b) \<Longrightarrow> n mod b ^ k = m mod b ^ k"
proof (induction k)
  case (Suc k)
  have "x mod (b ^ k * b) = b ^ k * (x div b ^ k mod b) + x mod b ^ k" for x by (rule mod_mult2_eq)
  then show ?case using Suc by (simp add: mult.commute)
qed simp

lemma be64_inject: "n \<le> MAX_XID8 \<Longrightarrow> m \<le> MAX_XID8 \<Longrightarrow> be64 n = be64 m \<Longrightarrow> n = m"
proof -
  assume b: "n \<le> MAX_XID8" "m \<le> MAX_XID8" and e: "be64 n = be64 m"
  have "n div 256 ^ j mod 256 = m div 256 ^ j mod 256" if "j < 8" for j
  proof -
    have "be64 n ! (7 - j) = be64 m ! (7 - j)" using e by simp
    moreover have "be64 x ! (7 - j) = char_of (x div 256 ^ j mod 256)" for x proof -
      have "[0..<8] ! (7 - j) = 7 - j" using that nth_upt[of 0 "7 - j" 8] by linarith
      then show ?thesis using that by (simp add: be64_def del: upt_Suc)
    qed
    ultimately have "(char_of (n div 256 ^ j mod 256) :: char) = char_of (m div 256 ^ j mod 256)" by simp
    then show ?thesis by (metis of_char_of mod_mod_trivial)
  qed
  then have "n mod 256 ^ 8 = m mod 256 ^ 8" by (rule digits_agree)
  then show ?thesis using b by (simp add: MAX_XID8_def)
qed

lemma chain_text_inject:
  assumes "chain_text p x t = chain_text p' x' t'" and "length p = 32" "length p' = 32" "x \<le> MAX_XID8" "x' \<le> MAX_XID8"
  shows "p = p' \<and> x = x' \<and> t = t'"
proof -
  have "p @ be64 x @ t = p' @ be64 x' @ t'" using assms(1) by (simp add: chain_text_def)
  then have "p = p'" "be64 x @ t = be64 x' @ t'" using assms(2,3) by simp_all
  moreover have "length (be64 x) = length (be64 x')" by (simp add: be64_def)
  ultimately show ?thesis using be64_inject[OF assms(4,5)] by simp
qed

text \<open>The text a row's hash is taken over.\<close>

definition hashed_text :: "chain_deps \<Rightarrow> event_row \<Rightarrow> string" where
  "hashed_text C r = chain_text (the (er_prevHash r)) (er_xid r) (the (ch_canonicalizeJson C (the (envelopeOf r))))"

definition row_content :: "event_row \<Rightarrow> nat \<times> envelope option" where
  "row_content r = (er_xid r, envelopeOf r)"

definition forged :: "chain_deps \<Rightarrow> event_row list \<Rightarrow> event_row list \<Rightarrow> bool" where
  "forged C xs ys \<longleftrightarrow> (\<exists>x y. x \<in> set xs \<and> y \<in> set ys \<and> hashed_text C x \<noteq> hashed_text C y \<and> ch_sha256 C (hashed_text C x) = ch_sha256 C (hashed_text C y))
     \<or> (\<exists>z. z \<in> set xs \<union> set ys \<and> ch_sha256 C (hashed_text C z) = EVENT_CHAIN_GENESIS_HASH)"

lemma same_end_same_chain:
  assumes canon: "\<And>e e' t. ch_canonicalizeJson C e = Some t \<Longrightarrow> ch_canonicalizeJson C e' = Some t \<Longrightarrow> e = e'"
    and "chained C EVENT_CHAIN_GENESIS_HASH xs" "chained C EVENT_CHAIN_GENESIS_HASH ys"
    and "chain_end EVENT_CHAIN_GENESIS_HASH xs = chain_end EVENT_CHAIN_GENESIS_HASH ys"
  shows "map row_content xs = map row_content ys \<or> forged C xs ys"
  using assms(2-)
proof (induction xs arbitrary: ys rule: rev_induct)
  case Nil
  show ?case
  proof (cases ys rule: rev_cases)
    case (snoc zs z)
    then have "checkChainRow C z (chain_end EVENT_CHAIN_GENESIS_HASH zs) = None" using Nil.prems(2) by (simp add: chained_append)
    then obtain e t where z: "er_prevHash z = Some (chain_end EVENT_CHAIN_GENESIS_HASH zs)" "envelopeOf z = Some e" "ch_canonicalizeJson C e = Some t"
      "er_hash z = Some (ch_sha256 C (chain_text (chain_end EVENT_CHAIN_GENESIS_HASH zs) (er_xid z) t))" by (rule checkChainRow_None)
    then have "ch_sha256 C (hashed_text C z) = EVENT_CHAIN_GENESIS_HASH" using Nil.prems(3) snoc by (simp add: hashed_text_def chain_end_def)
    then show ?thesis using snoc by (auto simp: forged_def)
  qed simp
next
  case (snoc x xs)
  let ?g = EVENT_CHAIN_GENESIS_HASH
  have cx: "chained C ?g xs" "checkChainRow C x (chain_end ?g xs) = None" using snoc.prems(1) by (simp_all add: chained_append)
  obtain e t where x: "er_prevHash x = Some (chain_end ?g xs)" "envelopeOf x = Some e" "ch_canonicalizeJson C e = Some t" "length (chain_end ?g xs) = 32"
    "er_xid x \<le> MAX_XID8" "er_hash x = Some (ch_sha256 C (chain_text (chain_end ?g xs) (er_xid x) t))" using cx(2) by (rule checkChainRow_None)
  have hx: "er_hash x = Some (ch_sha256 C (hashed_text C x))" using x by (simp add: hashed_text_def)
  show ?case
  proof (cases ys rule: rev_cases)
    case Nil
    then have "ch_sha256 C (hashed_text C x) = ?g" using snoc.prems(3) hx by (simp add: chain_end_def)
    then show ?thesis by (auto simp: forged_def)
  next
    case ys: (snoc zs y)
    have cy: "chained C ?g zs" "checkChainRow C y (chain_end ?g zs) = None" using snoc.prems(2) ys by (simp_all add: chained_append)
    obtain e' t' where y: "er_prevHash y = Some (chain_end ?g zs)" "envelopeOf y = Some e'" "ch_canonicalizeJson C e' = Some t'" "length (chain_end ?g zs) = 32"
      "er_xid y \<le> MAX_XID8" "er_hash y = Some (ch_sha256 C (chain_text (chain_end ?g zs) (er_xid y) t'))" using cy(2) by (rule checkChainRow_None)
    have hy: "er_hash y = Some (ch_sha256 C (hashed_text C y))" using y by (simp add: hashed_text_def)
    have h: "ch_sha256 C (hashed_text C x) = ch_sha256 C (hashed_text C y)" using snoc.prems(3) ys hx hy by (simp add: chain_end_def)
    show ?thesis
    proof (cases "hashed_text C x = hashed_text C y")
      case True
      then have eq: "chain_end ?g xs = chain_end ?g zs \<and> er_xid x = er_xid y \<and> t = t'"
        using chain_text_inject[OF _ x(4) y(4) x(5) y(5)] x y by (simp add: hashed_text_def)
      then have "e = e'" using canon x(3) y(3) by blast
      moreover have "map row_content xs = map row_content zs \<or> forged C xs zs" using snoc.IH[OF cx(1) cy(1)] eq by blast
      moreover have "row_content x = row_content y" using eq \<open>e = e'\<close> x(2) y(2) by (simp add: row_content_def)
      ultimately show ?thesis using ys by (auto simp: forged_def)
    next
      case False
      then show ?thesis using h ys by (auto simp: forged_def)
    qed
  qed
qed

lemma verify_Ok_chained:
  assumes v: "verifyChain C batch R None L = Inr (ChainOk start n head)" and b: "0 < batch" and a: "map_of (lg_anchors L) (map to_lower R) = None"
    and s: "\<And>r. r \<in> set (lg_rows L) \<Longrightarrow> 0 < er_seq r" "unique_on er_seq (lg_rows L)"
  shows "chained C EVENT_CHAIN_GENESIS_HASH (chain_rows (map to_lower R) (committed L)) \<and> head = head_of None (chain_rows (map to_lower R) (committed L))"
proof -
  let ?rs = "chain_rows (map to_lower R) (committed L)"
  have "distinct (map er_seq (filter (\<lambda>r. er_realmId r = map to_lower R \<and> er_hash r \<noteq> None) (committed L)))"
    using s(2) by (simp add: unique_on_def committed_def distinct_map_filter)
  then have "distinct (map er_seq ?rs)" unfolding chain_rows_def
    by (simp add: distinct_map)
  then have "sorted_wrt (<) (map er_seq ?rs)" by (simp add: strict_sorted_iff chain_rows_def)
  moreover have "filter (\<lambda>r. 0 < er_seq r) ?rs = ?rs" using s(1) by (simp add: filter_id_conv chain_rows_mem committed_def)
  ultimately have p: "verify_pages C batch ?rs 0 EVENT_CHAIN_GENESIS_HASH 0 None = (case check_rows C EVENT_CHAIN_GENESIS_HASH 0 None ?rs of
      Inl b \<Rightarrow> Inl b | Inr (_, n', head') \<Rightarrow> Inr (n', head'))" using verify_pages_one_pass[OF _ b, of ?rs C 0] by simp
  have "\<exists>x. check_rows C EVENT_CHAIN_GENESIS_HASH 0 None ?rs = Inr (x, n, head)"
    using v a p by (auto simp: verifyChain_def chain_start_of_def Let_def split: if_splits sum.splits)
  then obtain x where x: "check_rows C EVENT_CHAIN_GENESIS_HASH 0 None ?rs = Inr (x, n, head)" by blast
  have c: "chained C EVENT_CHAIN_GENESIS_HASH ?rs" using check_rows_Inr[OF x] by blast
  then show ?thesis using check_rows_chained[OF c, of 0 None] x by simp
qed



end
