(* ===== verification/Event_Stream.thy ===== *)
theory Event_Stream
  imports Event_Chain
begin

text \<open>
  Readers of the event store. A page holds the rows after a position and below the horizon, and leaves its
  reader at the last of them or at the horizon. The rows a position has passed are final, whatever
  transactions commit later, so a reader that pages on misses none: once for every reader as the locale
  \<open>page_reader\<close>, which the event reader here and the fan-out of deliveries instantiate.
\<close>

subsection \<open>The horizon\<close>

lemma le_horizon: "h \<le> horizon L \<longleftrightarrow> h \<le> lg_nextXid L \<and> (\<forall>x \<in> set (lg_open L). h \<le> x)"
  by (simp add: horizon_def)

lemma below_horizon_committed: "r \<in> set (lg_rows L) \<Longrightarrow> er_xid r < horizon L \<Longrightarrow> r \<in> set (committed L)"
  using le_horizon[of "horizon L" L] by (force simp: committed_def)

lemma deleteBatch_rows:
  assumes "deleteBatch C locked realmId category before through limit now L = Inr (b, L')"
  shows "set (lg_rows L') \<subseteq> set (lg_rows L)" "lg_open L' = lg_open L" "lg_nextXid L' = lg_nextXid L"
proof -
  have u: "set (lg_rows L2) \<subseteq> set (lg_rows L1) \<and> lg_open L2 = lg_open L1 \<and> lg_nextXid L2 = lg_nextXid L1"
    if "deleteUnchained R category before t n L1 = (d, L2)" for R t n d L1 L2
    using that by (auto simp: deleteUnchained_def delete_where_def Let_def)
  have c: "set (lg_rows L2) \<subseteq> set (lg_rows L1) \<and> lg_open L2 = lg_open L1 \<and> lg_nextXid L2 = lg_nextXid L1"
    if "deleteChainStart C R before t n L1 = Inr (d, L2)" for R t n d L1 L2
    using that by (auto simp: deleteChainStart_def delete_where_def Let_def split: if_splits prod.splits)
  from assms have "set (lg_rows L') \<subseteq> set (lg_rows L) \<and> lg_open L' = lg_open L \<and> lg_nextXid L' = lg_nextXid L"
  proof (cases rule: deleteBatch_cases)
    case (3 t deleted L1 k doomed broken)
    then show ?thesis using u[OF 3(3)] c[OF 3(4)] by auto
  qed (use u in auto)
  then show "set (lg_rows L') \<subseteq> set (lg_rows L)" "lg_open L' = lg_open L" "lg_nextXid L' = lg_nextXid L" by auto
qed

text \<open>What lies below the horizon is final, and the horizon never moves back.\<close>

lemma final_below_horizon:
  assumes "log_step C G L L'" and "numbers_ok L"
  shows "horizon L \<le> horizon L' \<and> (\<forall>r \<in> set (committed L'). er_xid r < horizon L \<longrightarrow> r \<in> set (committed L))"
  using assms
proof (induction rule: log_step.induct)
  case (begins L)
  have "horizon L \<le> horizon (snd (begin_tx L))" using le_horizon[of "horizon L" L] by (auto simp: le_horizon begin_tx_def)
  then show ?case using begins by (auto simp: committed_def begin_tx_def)
next
  case (emits xid L eventId at e)
  let ?L = "snd (emit_event C G xid eventId at e L)"
  have h: "horizon ?L = horizon L" using emit_event_shape(2,4) by (simp add: horizon_def)
  obtain tail where t: "lg_rows ?L = lg_rows L @ tail" "\<forall>r. r \<in> set tail \<longrightarrow> er_xid r = xid" using emit_event_shape(1)[of C G xid eventId at e L] by blast
  have "r \<in> set (committed L)" if "r \<in> set (committed ?L)" for r
    using that emits(1) t by (auto simp: committed_def emit_event_shape(2))
  then show ?case using h by simp
next
  case (commits xid L)
  have "horizon L \<le> horizon (commit_tx xid L)" using le_horizon[of "horizon L" L] by (auto simp: le_horizon commit_tx_def)
  moreover have "r \<in> set (committed L)" if "r \<in> set (committed (commit_tx xid L))" "er_xid r < horizon L" for r
    by (rule below_horizon_committed) (use that in \<open>auto simp: committed_def commit_tx_def\<close>)
  ultimately show ?case by blast
next
  case (aborts xid L)
  have "horizon L \<le> horizon (abort_tx xid L)" using le_horizon[of "horizon L" L] by (auto simp: le_horizon abort_tx_def commit_tx_def)
  moreover have "r \<in> set (committed L)" if "r \<in> set (committed (abort_tx xid L))" "er_xid r < horizon L" for r
    by (rule below_horizon_committed) (use that in \<open>auto simp: committed_def abort_tx_def commit_tx_def\<close>)
  ultimately show ?case by blast
next
  case (retains locked realmId category before through limit now L b L')
  then show ?case using deleteBatch_rows[OF retains(1)] by (auto simp: committed_def horizon_def)
qed

subsection \<open>Readers that page through a stream\<close>

text \<open>
  What a reader that started at \<open>start\<close> and stands at \<open>p\<close> has got: every wanted row in between, once,
  in the order of the stream; and it stands where everything before it is final.
\<close>

definition covered :: "(event_row \<Rightarrow> bool) \<Rightarrow> pos \<Rightarrow> pos \<Rightarrow> event_row list \<Rightarrow> event_log \<Rightarrow> bool" where
  "covered wanted start p got L \<longleftrightarrow> start \<le> p \<and> (p = start \<or> p \<le> (horizon L, 0))
     \<and> (\<forall>r \<in> set (committed L). wanted r \<longrightarrow> start < row_pos r \<longrightarrow> row_pos r \<le> p \<longrightarrow> r \<in> set got)
     \<and> sorted_wrt (\<lambda>x y. row_pos x < row_pos y) got \<and> (\<forall>r \<in> set got. wanted r \<and> start < row_pos r \<and> row_pos r \<le> p)"

lemma coveredI:
  assumes "start \<le> p" "p = start \<or> p \<le> (horizon L, 0)" "\<And>r. r \<in> set (committed L) \<Longrightarrow> wanted r \<Longrightarrow> start < row_pos r \<Longrightarrow> row_pos r \<le> p \<Longrightarrow> r \<in> set got"
    "sorted_wrt (\<lambda>x y. row_pos x < row_pos y) got" "\<And>r. r \<in> set got \<Longrightarrow> wanted r \<and> start < row_pos r \<and> row_pos r \<le> p"
  shows "covered wanted start p got L"
  using assms unfolding covered_def by blast

lemma coveredD:
  assumes "covered wanted start p got L"
  shows "start \<le> p" "p = start \<or> p \<le> (horizon L, 0)" "\<And>r. r \<in> set (committed L) \<Longrightarrow> wanted r \<Longrightarrow> start < row_pos r \<Longrightarrow> row_pos r \<le> p \<Longrightarrow> r \<in> set got"
    "sorted_wrt (\<lambda>x y. row_pos x < row_pos y) got" "\<And>r. r \<in> set got \<Longrightarrow> wanted r \<and> start < row_pos r \<and> row_pos r \<le> p"
  using assms unfolding covered_def by blast+

lemma covered_start: "covered wanted p p [] L"
  by (auto simp: covered_def)

lemma covered_log_step:
  assumes s: "log_step C G L L'" and n: "numbers_ok L" "numbers_ok L'" and c: "covered wanted start p got L"
  shows "covered wanted start p got L'"
proof -
  note f = final_below_horizon[OF s n(1)]
  have "r \<in> set got" if r: "r \<in> set (committed L')" "wanted r" "start < row_pos r" "row_pos r \<le> p" for r
  proof -
    have "p \<le> (horizon L, 0)" using c r by (auto simp: covered_def)
    moreover have "0 < er_seq r" using n(2) r(1) by (simp add: numbers_ok_def committed_def)
    ultimately have "er_xid r < horizon L" using r(4) by (auto simp: row_pos_def less_eq_prod_def)
    then have "r \<in> set (committed L)" using f r(1) by blast
    then show ?thesis using c r by (simp add: covered_def)
  qed
  moreover have "p = start \<or> p \<le> (horizon L', 0)" using c f by (auto simp: covered_def less_eq_prod_def)
  ultimately show ?thesis using c by (simp add: covered_def)
qed

locale page_reader =
  fixes wanted :: "event_row \<Rightarrow> bool" and page :: "nat \<Rightarrow> pos \<Rightarrow> event_log \<Rightarrow> event_row list \<times> pos"
  assumes page_rows: "numbers_ok L \<Longrightarrow> 0 < n \<Longrightarrow>
      set (fst (page n p L)) = {r \<in> set (committed L). wanted r \<and> p < row_pos r \<and> row_pos r \<le> snd (page n p L)}"
    and page_sorted: "numbers_ok L \<Longrightarrow> sorted_wrt (\<lambda>x y. row_pos x < row_pos y) (fst (page n p L))"
    and page_forward: "0 < n \<Longrightarrow> p \<le> snd (page n p L)"
    and page_final: "0 < n \<Longrightarrow> snd (page n p L) = p \<or> snd (page n p L) \<le> (horizon L, 0)"
begin

lemma covered_page:
  assumes "numbers_ok L" and "0 < n" and "covered wanted start p got L"
  shows "covered wanted start (snd (page n p L)) (got @ fst (page n p L)) L"
proof -
  let ?q = "snd (page n p L)" and ?new = "fst (page n p L)"
  note rows = page_rows[OF assms(1,2), of p] and c = coveredD[OF assms(3)] and le = page_forward[OF assms(2), of p L]
  show ?thesis
  proof (rule coveredI)
    show "start \<le> ?q" using c(1) le by (rule order_trans)
    show "?q = start \<or> ?q \<le> (horizon L, 0)" using page_final[OF assms(2), of p L] c(2) by metis
    show "r \<in> set (got @ ?new)" if "r \<in> set (committed L)" "wanted r" "start < row_pos r" "row_pos r \<le> ?q" for r
      using that rows c(3)[of r] by (cases "row_pos r \<le> p") (simp_all add: not_le)
    have "row_pos x < row_pos y" if "x \<in> set got" "y \<in> set ?new" for x y
    proof (rule order.strict_trans1)
      show "row_pos x \<le> p" using c(5)[OF that(1)] by simp
      show "p < row_pos y" using that(2) rows by simp
    qed
    then show "sorted_wrt (\<lambda>x y. row_pos x < row_pos y) (got @ ?new)" using c(4) page_sorted[OF assms(1)] by (simp add: sorted_wrt_append)
    show "wanted r \<and> start < row_pos r \<and> row_pos r \<le> ?q" if "r \<in> set (got @ ?new)" for r
    proof (cases "r \<in> set ?new")
      case True
      then show ?thesis using rows c(1) by (simp add: order.strict_trans1)
    next
      case False
      then show ?thesis using that c(5)[of r] le by (auto intro: order_trans)
    qed
  qed
qed

end

subsection \<open>The page of a realm's stream\<close>

definition wanted :: "string \<Rightarrow> (event_row \<Rightarrow> bool) \<Rightarrow> event_row \<Rightarrow> bool" where
  "wanted R P r \<longleftrightarrow> er_realmId r = R \<and> P r"

definition stream_page :: "string \<Rightarrow> (event_row \<Rightarrow> bool) \<Rightarrow> nat \<Rightarrow> pos \<Rightarrow> event_log \<Rightarrow> event_row list \<times> pos" where
  "stream_page R P n p L = (let page = take n (rows_after R p P L) in (page, next_position p n page L))"

lemma rows_after_mem: "r \<in> set (rows_after R p P L) \<longleftrightarrow> r \<in> set (committed L) \<and> wanted R P r \<and> p < row_pos r \<and> er_xid r < horizon L"
  by (auto simp: rows_after_def wanted_def)

lemma rows_after_sorted:
  assumes "numbers_ok L"
  shows "sorted_wrt (\<lambda>x y. row_pos x < row_pos y) (rows_after R p P L)"
proof -
  let ?rs = "filter (\<lambda>r. er_realmId r = R \<and> p < row_pos r \<and> er_xid r < horizon L \<and> P r) (committed L)"
  have "sorted_wrt (\<lambda>x y. er_seq x < er_seq y) ?rs" using assms by (simp add: committed_def numbers_ok_def sorted_filter_rows)
  then have "sorted_wrt (<) (map er_seq ?rs)" by (simp add: sorted_wrt_map)
  then have "distinct (map er_seq ?rs)" using strict_sorted_iff by blast
  then have "distinct (map row_pos ?rs)" by (auto simp: distinct_map inj_on_def row_pos_def)
  then have "distinct (map row_pos (rows_after R p P L))" by (simp add: rows_after_def distinct_map)
  moreover have "sorted (map row_pos (rows_after R p P L))" by (simp add: rows_after_def)
  ultimately have "sorted_wrt (<) (map row_pos (rows_after R p P L))" by (simp add: strict_sorted_iff)
  then show ?thesis by (simp add: sorted_wrt_map)
qed

lemma sorted_prefix_upto:
  assumes s: "sorted_wrt (\<lambda>x y. f x < f y) xs" and ne: "take n xs \<noteq> []"
  shows "set (take n xs) = {x \<in> set xs. f x \<le> (f (last (take n xs)) :: pos)}"
proof -
  let ?p = "take n xs"
  have "sorted_wrt (\<lambda>x y. f x < f y) (?p @ drop n xs)" using s by simp
  then have p: "sorted_wrt (\<lambda>x y. f x < f y) ?p" and d: "\<And>x y. x \<in> set ?p \<Longrightarrow> y \<in> set (drop n xs) \<Longrightarrow> f x < f y"
    by (simp_all only: sorted_wrt_append)
  have "f x \<le> f (last ?p)" if "x \<in> set ?p" for x
  proof -
    have "sorted_wrt (\<lambda>x y. f x < f y) (butlast ?p @ [last ?p])" using p ne by simp
    moreover have "x \<in> set (butlast ?p @ [last ?p])" using that ne by simp
    ultimately show ?thesis by (auto simp: sorted_wrt_append intro: less_imp_le)
  qed
  moreover have "x \<in> set ?p" if "x \<in> set xs" "f x \<le> f (last ?p)" for x
  proof (rule ccontr)
    assume "x \<notin> set ?p"
    moreover have "set xs = set ?p \<union> set (drop n xs)" by (metis append_take_drop_id set_append)
    ultimately have "x \<in> set (drop n xs)" using that(1) by blast
    then show False using d[of "last ?p" x] ne that(2) by fastforce
  qed
  ultimately show ?thesis by (auto dest: in_set_takeD)
qed

interpretation realm_page: page_reader "wanted R P" "stream_page R P" for R P
proof unfold_locales
  fix L n p
  let ?S = "rows_after R p P L" and ?h = "(horizon L, 0) :: pos"
  let ?page = "take n ?S"
  have page: "fst (stream_page R P n p L) = ?page" and next_p: "snd (stream_page R P n p L) = next_position p n ?page L"
    by (simp_all add: stream_page_def Let_def)
  have below: "row_pos r < ?h" if "r \<in> set ?S" for r using that by (simp add: rows_after_mem row_pos_def)
  show "sorted_wrt (\<lambda>x y. row_pos x < row_pos y) (fst (stream_page R P n p L))" if "numbers_ok L"
    using rows_after_sorted[OF that] unfolding page by (rule sorted_wrt_take)
  have full: "?page \<noteq> [] \<and> last ?page \<in> set ?S \<and> next_position p n ?page L = row_pos (last ?page)" if "length ?page = n" "0 < n"
  proof -
    have "?page \<noteq> []" using that by auto
    moreover from this have "last ?page \<in> set ?S" using last_in_set[of ?page] in_set_takeD by fast
    ultimately show ?thesis using that by (simp add: next_position_def)
  qed
  show "p \<le> snd (stream_page R P n p L)" if "0 < n"
    using full[OF _ that] unfolding next_p by (cases "length ?page = n") (auto simp: rows_after_mem next_position_def)
  show "snd (stream_page R P n p L) = p \<or> snd (stream_page R P n p L) \<le> (horizon L, 0)" if "0 < n"
    using full[OF _ that] below unfolding next_p by (cases "length ?page = n") (auto simp: next_position_def intro: less_imp_le)
  show "set (fst (stream_page R P n p L)) = {r \<in> set (committed L). wanted R P r \<and> p < row_pos r \<and> row_pos r \<le> snd (stream_page R P n p L)}"
    if ok: "numbers_ok L" and n: "0 < n"
  proof (cases "length ?page = n")
    case True
    note f = full[OF True n]
    have "r \<in> set ?S" if "r \<in> set (committed L)" "wanted R P r" "p < row_pos r" "row_pos r \<le> row_pos (last ?page)" for r
    proof -
      have "er_xid (last ?page) < horizon L" using f by (simp add: rows_after_mem)
      then show ?thesis using that by (auto simp: rows_after_mem row_pos_def less_eq_prod_def)
    qed
    then show ?thesis using f sorted_prefix_upto[OF rows_after_sorted[OF ok], of n R p P] unfolding page next_p by (auto simp: rows_after_mem)
  next
    case False
    then have all: "?page = ?S" by auto
    have np: "next_position p n ?page L = (if ?h > p then ?h else p)" using False by (simp only: next_position_def if_False)
    have "r \<in> set ?S \<longleftrightarrow> r \<in> set (committed L) \<and> wanted R P r \<and> p < row_pos r \<and> row_pos r \<le> next_position p n ?page L" for r
    proof (cases "?h > p")
      case True
      have "0 < er_seq r" if "r \<in> set (committed L)" using ok that by (simp add: numbers_ok_def committed_def)
      then have "er_xid r < horizon L \<longleftrightarrow> row_pos r \<le> ?h" if "r \<in> set (committed L)" using that by (auto simp: row_pos_def less_eq_prod_def)
      then show ?thesis using True np by (auto simp: rows_after_mem)
    next
      case F: False
      then show ?thesis using np below[of r] by (auto simp: rows_after_mem)
    qed
    then show ?thesis unfolding page next_p using all by auto
  qed
qed

subsection \<open>The event reader\<close>

definition at_pos :: "position_parts \<Rightarrow> pos" where
  "at_pos q = (pp_xid q, pp_seq q)"

lemma readAfter_page:
  assumes "readAfter realm p limit f L = Inr (evs, p')"
  obtains q q' where "decodeEventPosition p = Some q" "decodeEventPosition p' = Some q'" "0 < nat limit" "pp_realmId q = map to_lower realm" "pp_realmId q' = map to_lower realm"
    "map Some evs = map toStoredEvent (fst (stream_page (map to_lower realm) (filterConditions f) (nat limit) (at_pos q) L))"
    "at_pos q' = snd (stream_page (map to_lower realm) (filterConditions f) (nat limit) (at_pos q) L)"
proof -
  let ?R = "map to_lower realm" and ?P = "filterConditions f"
  from assms obtain q where q: "decodeEventPosition p = Some q" "pp_realmId q = ?R" "1 \<le> limit"
    by (auto simp: readAfter_def Let_def split: if_splits option.splits)
  let ?page = "fst (stream_page ?R ?P (nat limit) (at_pos q) L)" and ?n = "snd (stream_page ?R ?P (nat limit) (at_pos q) L)"
  have a: "None \<notin> set (map toStoredEvent ?page)" "evs = map the (map toStoredEvent ?page)"
    "encodeEventPosition \<lparr>pp_realmId = ?R, pp_xid = fst ?n, pp_seq = snd ?n\<rparr> = Some p'"
    using assms q by (auto simp: readAfter_def Let_def stream_page_def at_pos_def split: if_splits option.splits)
  have "map Some evs = map toStoredEvent ?page" using a(1,2) by (auto simp: comp_def intro!: map_cong) (metis option.collapse rev_image_eqI)
  moreover have "decodeEventPosition p' = Some \<lparr>pp_realmId = ?R, pp_xid = fst ?n, pp_seq = snd ?n\<rparr>" using a(3) by (simp add: decode_iff_encode)
  ultimately show thesis using that[OF q(1)] q by (simp add: at_pos_def)
qed

inductive reading :: "chain_deps \<Rightarrow> event_registry \<Rightarrow> string \<Rightarrow> event_filters \<Rightarrow> event_log \<times> string \<times> (string \<times> envelope) list
    \<Rightarrow> event_log \<times> string \<times> (string \<times> envelope) list \<Rightarrow> bool" for C G realm f where
  writes: "log_step C G L L' \<Longrightarrow> reading C G realm f (L, p, got) (L', p, got)"
| reads: "readAfter realm p limit f L = Inr (evs, p') \<Longrightarrow> reading C G realm f (L, p, got) (L, p', got @ evs)"

lemma reading_covers:
  assumes "(reading C G realm f)\<^sup>*\<^sup>* s s'" and "s = (L, p, [])" and "log_ok C L" and "decodeEventPosition p = Some q"
  shows "\<exists>q' rs. log_ok C (fst s') \<and> decodeEventPosition (fst (snd s')) = Some q' \<and> map Some (snd (snd s')) = map toStoredEvent rs
    \<and> covered (wanted (map to_lower realm) (filterConditions f)) (at_pos q) (at_pos q') rs (fst s')"
  using assms
proof (induction rule: rtranclp_induct)
  case base
  then have "covered (wanted (map to_lower realm) (filterConditions f)) (at_pos q) (at_pos q) [] (fst s)" by (simp add: covered_start)
  then show ?case using base by (intro exI[of _ q] exI[of _ "[]"]) simp
next
  case (step s1 s2)
  let ?w = "wanted (map to_lower realm) (filterConditions f)"
  obtain q1 rs where h: "log_ok C (fst s1)" "decodeEventPosition (fst (snd s1)) = Some q1" "map Some (snd (snd s1)) = map toStoredEvent rs"
    "covered ?w (at_pos q) (at_pos q1) rs (fst s1)" using step.IH[OF step.prems] by (elim exE conjE)
  from step(2) show ?case
  proof cases
    case (writes L L' p got)
    have ok: "log_ok C L'" using log_step_ok[OF writes(3)] h(1) writes(1) by simp
    have "covered ?w (at_pos q) (at_pos q1) rs L'"
      by (rule covered_log_step[OF writes(3)]) (use h writes(1) log_okD(1) ok in auto)
    then show ?thesis using ok h(2,3) writes(1,2) by auto
  next
    case (reads p limit L evs p' got)
    from reads(3) obtain q0 q2 where r: "decodeEventPosition p = Some q0" "decodeEventPosition p' = Some q2" "0 < nat limit"
      "map Some evs = map toStoredEvent (fst (stream_page (map to_lower realm) (filterConditions f) (nat limit) (at_pos q0) L))"
      "at_pos q2 = snd (stream_page (map to_lower realm) (filterConditions f) (nat limit) (at_pos q0) L)"
      by (rule readAfter_page)
    have "q0 = q1" using r(1) h(2) reads(1) by simp
    then have "covered ?w (at_pos q) (at_pos q2) (rs @ fst (stream_page (map to_lower realm) (filterConditions f) (nat limit) (at_pos q1) L)) L"
      using realm_page.covered_page[OF log_okD(1) r(3), of C L] h(1,4) reads(1) r(5) by simp
    moreover have "map Some (got @ evs) = map toStoredEvent (rs @ fst (stream_page (map to_lower realm) (filterConditions f) (nat limit) (at_pos q1) L))"
      using h(3) r(4) reads(1) \<open>q0 = q1\<close> by simp
    moreover have "log_ok C (fst s2)" "decodeEventPosition (fst (snd s2)) = Some q2" "snd (snd s2) = got @ evs" "fst s2 = L" using h(1) r(2) reads(1,2) by simp_all
    ultimately show ?thesis by metis
  qed
qed

text \<open>
  C11. A reader misses nothing: however transactions that write events interleave with its pages, begin
  early and commit late or roll back, and whatever retention deletes, a reader that follows the position
  of each page has got every committed event of the realm its filters take, from where it started up to
  where it stands; each once, and in the order of the stream.
\<close>

theorem reader_misses_nothing:
  assumes "empty_log L0" "(log_step C G)\<^sup>*\<^sup>* L0 L" and "decodeEventPosition p = Some q"
    and "(reading C G realm f)\<^sup>*\<^sup>* (L, p, []) (L', p', got)"
  shows "\<exists>q'. decodeEventPosition p' = Some q'
    \<and> (\<forall>r. r \<in> set (committed L') \<and> er_realmId r = map to_lower realm \<and> filterConditions f r \<and> at_pos q < row_pos r \<and> row_pos r \<le> at_pos q'
          \<longrightarrow> toStoredEvent r \<in> Some ` set got)
    \<and> (\<exists>rs. map Some got = map toStoredEvent rs \<and> sorted_wrt (\<lambda>x y. row_pos x < row_pos y) rs)"
proof -
  have "log_ok C L" by (rule log_run_ok[OF assms(2) empty_log_ok[OF assms(1)]])
  then obtain q' rs where h: "decodeEventPosition p' = Some q'" "map Some got = map toStoredEvent rs"
    "covered (wanted (map to_lower realm) (filterConditions f)) (at_pos q) (at_pos q') rs L'"
    using reading_covers[OF assms(4) refl _ assms(3)] by auto
  have eq: "Some ` set got = toStoredEvent ` set rs" using h(2) by (metis list.set_map)
  note c = coveredD[OF h(3)]
  have "toStoredEvent r \<in> Some ` set got"
    if "r \<in> set (committed L') \<and> er_realmId r = map to_lower realm \<and> filterConditions f r \<and> at_pos q < row_pos r \<and> row_pos r \<le> at_pos q'" for r
    unfolding eq using that c(3)[of r] by (simp add: wanted_def)
  then show ?thesis using h(1,2) c(4) by blast
qed

definition any_event :: event_filters where
  "any_event = \<lparr>ef_types = None, ef_category = None, ef_subjectId = None, ef_clientId = None, ef_fromTime = None\<rparr>"

definition demo_parts :: "nat \<Rightarrow> nat \<Rightarrow> position_parts" where
  "demo_parts xid seq = \<lparr>pp_realmId = demo_realm, pp_xid = xid, pp_seq = seq\<rparr>"

lemma demo_encode: "xid < 10 \<Longrightarrow> seq < 10 \<Longrightarrow> encodeEventPosition (demo_parts xid seq) = Some (base64url (position_text (demo_parts xid seq)))"
  by (simp add: encodeEventPosition_def checkParts_def demo_parts_def demo_realm_facts XID_MAX_def SEQ_MAX_def)

lemma demo_page: "\<exists>ev p'. readAfter demo_realm (base64url (position_text (demo_parts 0 0))) 10 any_event (demo_end 5) = Inr ([ev], p')"
proof -
  have d: "decodeEventPosition (base64url (position_text (demo_parts 0 0))) = Some (demo_parts 0 0)" using demo_encode[of 0 0] by (simp add: decode_iff_encode)
  have h: "horizon (demo_end 5) = 2" by (simp add: demo_end_eq demo_start_def horizon_def)
  have r: "row_pos (demo_row 5) = (1, 5)" "er_realmId (demo_row 5) = demo_realm" "er_xid (demo_row 5) = 1" "er_seq (demo_row 5) = 5"
    by (simp_all add: row_pos_def demo_row_def row_of_envelope_def demo_env_def)
  have c: "committed (demo_end 5) = [demo_row 5]" by (simp add: demo_end_eq demo_start_def committed_def)
  have a: "rows_after demo_realm (0, 0) (filterConditions any_event) (demo_end 5) = [demo_row 5]"
    by (simp add: rows_after_def h r c filterConditions_def any_event_def)
  have "\<exists>ev. toStoredEvent (demo_row 5) = Some ev" using demo_encode[of 1 5]
    by (simp add: toStoredEvent_def r demo_parts_def) (simp add: demo_row_def envelopeOf_def row_of_envelope_def Let_def)
  then obtain ev where s: "toStoredEvent (demo_row 5) = Some ev" by blast
  have f: "pp_realmId (demo_parts 0 0) = demo_realm" "pp_xid (demo_parts 0 0) = 0" "pp_seq (demo_parts 0 0) = 0" by (simp_all add: demo_parts_def)
  have ft: "ef_fromTime any_event = None" by (simp add: any_event_def)
  show ?thesis using demo_encode[of 2 0]
    by (simp add: ft readAfter_def Let_def demo_realm_facts d f a s EVENT_READ_LIMIT_MAX_def next_position_def h) (simp add: demo_parts_def a s)
qed

theorem reader_misses_nothing_witness:
  "\<exists>p p' got q'. decodeEventPosition p = Some (demo_parts 0 0) \<and> decodeEventPosition p' = Some q' \<and> length got = 1
    \<and> (reading demo_chain demo_registry demo_realm any_event)\<^sup>*\<^sup>* (demo_end 5, p, []) (demo_end 5, p', got)
    \<and> (\<forall>r. r \<in> set (committed (demo_end 5)) \<and> er_realmId r = map to_lower demo_realm \<and> filterConditions any_event r
          \<and> at_pos (demo_parts 0 0) < row_pos r \<and> row_pos r \<le> at_pos q' \<longrightarrow> toStoredEvent r \<in> Some ` set got)"
proof -
  let ?p = "base64url (position_text (demo_parts 0 0))"
  have d: "decodeEventPosition ?p = Some (demo_parts 0 0)" using demo_encode[of 0 0] by (simp add: decode_iff_encode)
  obtain ev p' where "readAfter demo_realm ?p 10 any_event (demo_end 5) = Inr ([ev], p')" using demo_page by (elim exE)
  from reading.reads[OF this, of demo_chain demo_registry "[]"]
  have run: "(reading demo_chain demo_registry demo_realm any_event)\<^sup>*\<^sup>* (demo_end 5, ?p, []) (demo_end 5, p', [ev])" by simp
  obtain q' where q': "decodeEventPosition p' = Some q'" and all: "\<forall>r. r \<in> set (committed (demo_end 5)) \<and> er_realmId r = map to_lower demo_realm \<and> filterConditions any_event r
          \<and> at_pos (demo_parts 0 0) < row_pos r \<and> row_pos r \<le> at_pos q' \<longrightarrow> toStoredEvent r \<in> Some ` set [ev]"
    using reader_misses_nothing[OF demo_empty demo_run d run] by (elim exE conjE meta_impE) simp_all
  show ?thesis by (rule exI[of _ ?p], rule exI[of _ p'], rule exI[of _ "[ev]"], rule exI[of _ q'], intro conjI) (simp_all add: d q' run all[simplified])
qed

end
