(* ===== verification/Event_Delivery.thy ===== *)
theory Event_Delivery
  imports Event_Stream "HOL-Library.List_Lexorder" "HOL-Library.Char_ord"
begin

text \<open>
  The queue of event deliveries (\<open>libs/infra/db/src/lib/repositories/event-deliveries.repository.ts\<close>):
  one row per event and destination, written by the fan-out page by page as the position of a realm and
  route kind moves over the event store, then claimed, recorded and released by the delivery role.
  A page, a claim, a record and a release are one atomic step each: a page holds its stream's lock, the
  others are one statement. The ids the database gives rows are numbers; the rows other transactions have
  locked are an argument of the claim.
\<close>

subsection \<open>Rows, destinations and the filters\<close>

datatype delivery_status = Pending | Delivered | Failed

datatype subject_source = FromSubject | FromClient | FromNone

record type_rule =
  tr_subjectFrom :: "subject_source option"
  tr_clientId :: "string option"

record destination =
  de_kind :: string
  de_id :: string
  de_realmId :: string
  de_types :: "string list option"
  de_categories :: "event_category list option"
  de_subjects :: "(string \<times> string) list option"
  de_typeRules :: "(string \<times> type_rule) list option"

record delivery =
  dl_id :: nat
  dl_destinationKind :: string
  dl_destinationId :: string
  dl_eventId :: string
  dl_realmId :: string
  dl_eventXid :: nat
  dl_eventSeq :: nat
  dl_eventTime :: ms
  dl_status :: delivery_status
  dl_attemptCount :: int
  dl_nextAttemptAt :: ms
  dl_lockedUntil :: "ms option"
  dl_lastStatusCode :: "int option"
  dl_lastErrorClass :: "string option"
  dl_createdAt :: ms
  dl_updatedAt :: ms
  dl_finishedAt :: "ms option"

record delivery_db =
  db_log :: event_log
  db_deliveries :: "delivery tab"
  db_positions :: "((string \<times> string) \<times> pos) list"
  db_nextId :: nat

datatype delivery_error = DeliveryTypeError

definition DEFAULT_FAN_OUT_PAGE_SIZE :: int where "DEFAULT_FAN_OUT_PAGE_SIZE = 500"
definition DEFAULT_FAN_OUT_PAGES_PER_REALM :: int where "DEFAULT_FAN_OUT_PAGES_PER_REALM = 10"
definition ATTEMPT_INTERRUPTED :: string where "ATTEMPT_INTERRUPTED = ''attempt_interrupted''"
definition KIND_MAX_LENGTH :: nat where "KIND_MAX_LENGTH = 32"
definition DESTINATION_ID_MAX_LENGTH :: nat where "DESTINATION_ID_MAX_LENGTH = 255"
definition FAN_OUT_BACKFILL_MAX_MS :: int where "FAN_OUT_BACKFILL_MAX_MS = 30 * 24 * 60 * 60 * 1000"

definition word_char :: "bool \<Rightarrow> char \<Rightarrow> bool" where
  "word_char first c = (let n = of_char c :: nat in (97 \<le> n \<and> n \<le> 122) \<or> (\<not> first \<and> ((48 \<le> n \<and> n \<le> 57) \<or> c = CHR ''_'')))"

definition ERROR_CLASS_PATTERN :: "string \<Rightarrow> bool" where
  "ERROR_CLASS_PATTERN s = (case s of [] \<Rightarrow> False | c # cs \<Rightarrow> word_char True c \<and> list_all (word_char False) cs \<and> length cs \<le> 63)"

definition checkKind :: "string \<Rightarrow> bool" where
  "checkKind kind \<longleftrightarrow> kind \<noteq> '''' \<and> length kind \<le> KIND_MAX_LENGTH"

definition checkDestination :: "string list \<Rightarrow> destination \<Rightarrow> bool" where
  "checkDestination kinds d \<longleftrightarrow> checkKind (de_kind d) \<and> de_kind d \<in> set kinds \<and> de_id d \<noteq> '''' \<and> length (de_id d) \<le> DESTINATION_ID_MAX_LENGTH
     \<and> UUID (map to_lower (de_realmId d))"

definition checkCount :: "int \<Rightarrow> int \<Rightarrow> int \<Rightarrow> bool" where
  "checkCount value lo hi \<longleftrightarrow> isSafeInteger value \<and> lo \<le> value \<and> value \<le> hi"

definition checkTime :: "ms \<Rightarrow> bool" where
  "checkTime value \<longleftrightarrow> isSafeInteger value \<and> 0 \<le> value"

definition subjectKey :: "string \<Rightarrow> string \<Rightarrow> string" where
  "subjectKey type i = type @ [CHR 0x00] @ i"

definition matches :: "destination \<Rightarrow> event_row \<Rightarrow> bool" where
  "matches d r =
     (let rule = Option.bind (de_typeRules d) (\<lambda>rules. map_of rules (er_type r));
          from = (case Option.bind rule tr_subjectFrom of None \<Rightarrow> FromSubject | Some f \<Rightarrow> f);
          about = (if from = FromClient then map_option (subjectKey ''client'') (er_clientId r)
                   else case (er_subjectType r, er_subjectId r) of (Some t, Some i) \<Rightarrow> Some (subjectKey t i) | _ \<Rightarrow> None)
      in (case Option.bind rule tr_clientId of None \<Rightarrow> True | Some c \<Rightarrow> er_clientId r = Some c)
         \<and> (case de_types d of None \<Rightarrow> True | Some ts \<Rightarrow> er_type r \<in> set ts)
         \<and> (case de_categories d of None \<Rightarrow> True | Some cs \<Rightarrow> er_category r \<in> set cs)
         \<and> (case de_subjects d of None \<Rightarrow> True
            | Some ss \<Rightarrow> from = FromNone \<or> (\<exists>a \<in> set_option about. a \<in> set (map (\<lambda>(t, i). subjectKey t i) ss))))"

text \<open>Every type the destinations take; \<open>None\<close> when one of them takes every type.\<close>

fun backfillTypes :: "destination list \<Rightarrow> string list option" where
  "backfillTypes [] = Some []"
| "backfillTypes (d # ds) = (case de_types d of None \<Rightarrow> None
    | Some ts \<Rightarrow> map_option (\<lambda>rest. ts @ rest) (backfillTypes ds))"

subsection \<open>Fan-out\<close>

datatype page_outcome = Busy | Started | PageRead nat nat bool

definition stream_position :: "delivery_db \<Rightarrow> string \<Rightarrow> string \<Rightarrow> pos option" where
  "stream_position D realmId kind = map_of (db_positions D) (realmId, kind)"

text \<open>Where a stream seen for the first time starts: at the horizon, or just before its first event in the backfill window.\<close>

definition start_position :: "string \<Rightarrow> destination list \<Rightarrow> ms \<Rightarrow> int option \<Rightarrow> event_log \<Rightarrow> pos" where
  "start_position realmId destinations now backfillMs L = (case backfillMs of
      None \<Rightarrow> (horizon L, 0)
    | Some window \<Rightarrow>
        (case sort_key row_pos (filter (\<lambda>r. er_realmId r = realmId \<and> now - window \<le> er_time r \<and> er_xid r < horizon L
             \<and> (case backfillTypes destinations of None \<Rightarrow> True | Some ts \<Rightarrow> er_type r \<in> set ts)) (committed L)) of
           [] \<Rightarrow> (horizon L, 0)
         | r # _ \<Rightarrow> (er_xid r, er_seq r - 1)))"

definition new_delivery :: "nat \<Rightarrow> string \<Rightarrow> ms \<Rightarrow> destination \<Rightarrow> event_row \<Rightarrow> delivery" where
  "new_delivery i realmId now d r = \<lparr>dl_id = i, dl_destinationKind = de_kind d, dl_destinationId = de_id d, dl_eventId = er_id r, dl_realmId = realmId,
     dl_eventXid = er_xid r, dl_eventSeq = er_seq r, dl_eventTime = er_time r, dl_status = Pending, dl_attemptCount = 0, dl_nextAttemptAt = now,
     dl_lockedUntil = None, dl_lastStatusCode = None, dl_lastErrorClass = None, dl_createdAt = now, dl_updatedAt = now, dl_finishedAt = None\<rparr>"

text \<open>The unique constraint \<open>event_deliveries_event_destination_unique\<close>.\<close>

definition delivery_key :: "delivery \<Rightarrow> string \<times> string \<times> string" where
  "delivery_key x = (dl_eventId x, dl_destinationKind x, dl_destinationId x)"

fun insert_deliveries :: "string \<Rightarrow> ms \<Rightarrow> (event_row \<times> destination) list \<Rightarrow> delivery_db \<Rightarrow> nat \<times> delivery_db" where
  "insert_deliveries realmId now [] D = (0, D)"
| "insert_deliveries realmId now ((r, d) # rest) D =
     (if (er_id r, de_kind d, de_id d) \<in> delivery_key ` set (db_deliveries D) then insert_deliveries realmId now rest D
      else let (n, D') = insert_deliveries realmId now rest
             (D\<lparr>db_deliveries := db_deliveries D @ [new_delivery (db_nextId D) realmId now d r], db_nextId := Suc (db_nextId D)\<rparr>)
           in (Suc n, D'))"

definition matching_pairs :: "destination list \<Rightarrow> event_row list \<Rightarrow> (event_row \<times> destination) list" where
  "matching_pairs destinations read = concat (map (\<lambda>r. map (\<lambda>d. (r, d)) (filter (\<lambda>d. matches d r) destinations)) read)"

definition fanOutPage :: "bool \<Rightarrow> string \<Rightarrow> string \<Rightarrow> destination list \<Rightarrow> nat \<Rightarrow> ms \<Rightarrow> int option \<Rightarrow> delivery_db \<Rightarrow> page_outcome \<times> delivery_db" where
  "fanOutPage locked realmId kind destinations pageSize now backfillMs D =
     (if \<not> locked then (Busy, D)
      else case stream_position D realmId kind of
        None \<Rightarrow> (Started, D\<lparr>db_positions := ((realmId, kind), start_position realmId destinations now backfillMs (db_log D)) # db_positions D\<rparr>)
      | Some position \<Rightarrow>
          let read = take pageSize (rows_after realmId position (\<lambda>_. True) (db_log D));
              (deliveries, D1) = insert_deliveries realmId now (matching_pairs destinations read) D;
              full = (length read = pageSize);
              next = (if full then row_pos (last read) else if horizon (db_log D) > fst position then (horizon (db_log D), 0) else position)
          in (PageRead (length read) deliveries full, D1\<lparr>db_positions := AList.update (realmId, kind) next (db_positions D1)\<rparr>))"

record fan_out_request =
  fr_kinds :: "string list"
  fr_destinations :: "destination list"
  fr_now :: ms
  fr_pageSize :: "int option"
  fr_maxPagesPerRealm :: "int option"
  fr_backfillMs :: "(string \<times> int) list"

record fan_out_result =
  fo_realms :: nat
  fo_skippedRealms :: nat
  fo_events :: nat
  fo_deliveries :: nat
  fo_more :: bool

text \<open>The pages of one stream: until a short one, its start, a lock another node holds, or the limit of pages.\<close>

fun stream_pages :: "bool \<Rightarrow> string \<Rightarrow> string \<Rightarrow> destination list \<Rightarrow> nat \<Rightarrow> ms \<Rightarrow> int option \<Rightarrow> nat \<Rightarrow> bool \<Rightarrow> fan_out_result \<times> delivery_db \<Rightarrow> fan_out_result \<times> delivery_db" where
  "stream_pages locked realmId kind destinations pageSize now backfillMs 0 first s = s"
| "stream_pages locked realmId kind destinations pageSize now backfillMs (Suc left) first (result, D) =
     (let (outcome, D1) = fanOutPage locked realmId kind destinations pageSize now backfillMs D;
          counted = (if first then result\<lparr>fo_realms := Suc (fo_realms result)\<rparr> else result)
      in case outcome of
           Busy \<Rightarrow> (result\<lparr>fo_skippedRealms := Suc (fo_skippedRealms result)\<rparr>, D1)
         | Started \<Rightarrow> (counted, D1)
         | PageRead events deliveries full \<Rightarrow>
             let result1 = counted\<lparr>fo_events := fo_events counted + events, fo_deliveries := fo_deliveries counted + deliveries\<rparr>
             in if \<not> full then (result1, D1)
                else if left = 0 then (result1\<lparr>fo_more := True\<rparr>, D1)
                else stream_pages locked realmId kind destinations pageSize now backfillMs left False (result1, D1))"

definition streams_of :: "destination list \<Rightarrow> (string \<times> string) list" where
  "streams_of destinations = dedup (map (\<lambda>d. (map to_lower (de_realmId d), de_kind d)) destinations)"

definition stream_destinations :: "destination list \<Rightarrow> string \<times> string \<Rightarrow> destination list" where
  "stream_destinations destinations s = filter (\<lambda>d. (map to_lower (de_realmId d), de_kind d) = s) destinations"

text \<open>The positions of served kinds whose realm has no destination of the kind are deleted.\<close>

definition forget_positions :: "string list \<Rightarrow> (string \<times> string) list \<Rightarrow> delivery_db \<Rightarrow> delivery_db" where
  "forget_positions kinds pairs D = D\<lparr>db_positions := filter (\<lambda>(s, _). \<not> (snd s \<in> set kinds \<and> s \<notin> set pairs)) (db_positions D)\<rparr>"

definition stream_waits :: "delivery_db \<Rightarrow> string \<times> string \<Rightarrow> bool" where
  "stream_waits D s = (case stream_position D (fst s) (snd s) of None \<Rightarrow> True
     | Some p \<Rightarrow> list_ex (\<lambda>r. er_realmId r = fst s \<and> p < row_pos r \<and> er_xid r < horizon (db_log D)) (committed (db_log D)))"

text \<open>\<open>locked s\<close> says whether this node gets the lock of the stream \<open>s\<close>.\<close>

definition fanOut :: "(string \<times> string \<Rightarrow> bool) \<Rightarrow> fan_out_request \<Rightarrow> delivery_db \<Rightarrow> delivery_error + fan_out_result \<times> delivery_db" where
  "fanOut locked q D =
     (let pageSize = (case fr_pageSize q of None \<Rightarrow> DEFAULT_FAN_OUT_PAGE_SIZE | Some n \<Rightarrow> n);
          maxPages = (case fr_maxPagesPerRealm q of None \<Rightarrow> DEFAULT_FAN_OUT_PAGES_PER_REALM | Some n \<Rightarrow> n);
          result = \<lparr>fo_realms = 0, fo_skippedRealms = 0, fo_events = 0, fo_deliveries = 0, fo_more = False\<rparr>;
          pairs = streams_of (fr_destinations q)
      in if \<not> checkTime (fr_now q) \<or> \<not> checkCount pageSize 1 (int EVENT_READ_LIMIT_MAX) \<or> \<not> checkCount maxPages 1 1000
            \<or> \<not> list_all checkKind (fr_kinds q) \<or> \<not> list_all (\<lambda>(k, ms). checkKind k \<and> checkCount ms 0 FAN_OUT_BACKFILL_MAX_MS) (fr_backfillMs q)
            \<or> \<not> list_all (checkDestination (fr_kinds q)) (fr_destinations q) then Inl DeliveryTypeError
         else if fr_kinds q = [] then Inr (result, D)
         else let D1 = forget_positions (fr_kinds q) pairs D in
           if pairs = [] then Inr (result, D1)
           else Inr (fold (\<lambda>s. stream_pages (locked s) (fst s) (snd s) (stream_destinations (fr_destinations q) s) (nat pageSize) (fr_now q)
                        (map_of (fr_backfillMs q) (snd s)) (nat maxPages) True)
                      (filter (stream_waits D1) pairs) (result, D1)))"

subsection \<open>Claims\<close>

text \<open>
  The loose index scan: the head of a destination is its earliest pending row, and each head leads to the
  head of the next destination in the order of ids.
\<close>

definition head_after :: "string option \<Rightarrow> (string \<times> ms) list \<Rightarrow> (string \<times> ms) option" where
  "head_after after rows = limit1 (sort (filter (\<lambda>(i, _). case after of None \<Rightarrow> True | Some a \<Rightarrow> a < i) rows))"

lemma head_after_mem: "head_after after rows = Some h \<Longrightarrow> h \<in> set rows \<and> (\<forall>a. after = Some a \<longrightarrow> a < fst h)"
proof -
  assume h: "head_after after rows = Some h"
  let ?f = "filter (\<lambda>(i, _). case after of None \<Rightarrow> True | Some a \<Rightarrow> a < i) rows"
  have "h \<in> set (sort ?f)" using h unfolding head_after_def limit1_def by (cases "sort ?f") simp_all
  then have "h \<in> set ?f" by (simp only: set_sort)
  then show ?thesis by (auto split: option.splits)
qed

function heads :: "string option \<Rightarrow> (string \<times> ms) list \<Rightarrow> (string \<times> ms) list" where
  "heads after rows = (case head_after after rows of None \<Rightarrow> [] | Some h \<Rightarrow> h # heads (Some (fst h)) rows)"
  by pat_completeness auto

termination
proof (relation "measure (\<lambda>(after, rows). length (filter (\<lambda>(i, _). case after of None \<Rightarrow> True | Some a \<Rightarrow> a < i) rows))")
  fix after :: "string option" and rows :: "(string \<times> ms) list" and h
  assume "head_after after rows = Some h"
  from head_after_mem[OF this] have h: "h \<in> set rows" "\<And>a. after = Some a \<Longrightarrow> a < fst h" by auto
  let ?new = "\<lambda>(i, _ :: ms). fst h < i" and ?old = "\<lambda>(i, _ :: ms). case after of None \<Rightarrow> True | Some a \<Rightarrow> a < i"
  have "length (filter ?new rows) < length (filter ?old rows)" using h(1)
  proof (induction rows)
    case (Cons x xs)
    have imp: "?new y \<Longrightarrow> ?old y" for y using h(2) by (auto split: option.splits)
    have le: "length (filter ?new xs) \<le> length (filter ?old xs)" by (rule length_filter_imp) (rule imp)
    show ?case
    proof (cases "x = h")
      case True
      then have "\<not> ?new x" "?old x" using h(2) by (auto split: prod.splits option.splits)
      then show ?thesis using le by simp
    next
      case False
      then show ?thesis using Cons imp[of x] by auto
    qed
  qed simp
  then show "((Some (fst h), rows), (after, rows)) \<in> measure (\<lambda>(after, rows). length (filter (\<lambda>(i, _). case after of None \<Rightarrow> True | Some a \<Rightarrow> a < i) rows))" by simp
qed simp

declare heads.simps [simp del]

definition due_of_kind :: "string \<Rightarrow> ms \<Rightarrow> delivery tab \<Rightarrow> (string \<times> string) list" where
  "due_of_kind kind now rows = map (\<lambda>h. (kind, fst h)) (filter (\<lambda>h. snd h \<le> now)
     (heads None (map (\<lambda>x. (dl_destinationId x, dl_nextAttemptAt x)) (select_where (\<lambda>x. dl_status x = Pending \<and> dl_destinationKind x = kind) rows))))"

definition dueDestinations :: "string list \<Rightarrow> ms \<Rightarrow> delivery_db \<Rightarrow> delivery_error + (string \<times> string) list" where
  "dueDestinations kinds now D =
     (if \<not> checkTime now \<or> \<not> list_all checkKind kinds then Inl DeliveryTypeError
      else Inr (concat (map (\<lambda>kind. due_of_kind kind now (db_deliveries D)) (dedup kinds))))"

record pick =
  pk_kind :: string
  pk_id :: string
  pk_limit :: int

record claimed_delivery =
  cl_id :: nat
  cl_attempt :: int
  cl_destinationKind :: string
  cl_destinationId :: string
  cl_realmId :: string
  cl_eventId :: string
  cl_lockedUntil :: ms
  cl_event :: "envelope option"

definition event_of :: "delivery_db \<Rightarrow> delivery \<Rightarrow> event_row option" where
  "event_of D x = limit1 (select_where (\<lambda>r. er_id r = dl_eventId x) (committed (db_log D)))"

definition due_rows :: "nat set \<Rightarrow> ms \<Rightarrow> delivery_db \<Rightarrow> pick \<Rightarrow> delivery list" where
  "due_rows held now D p =
     take (nat (pk_limit p)) (sort_key dl_nextAttemptAt (select_where (\<lambda>x. dl_destinationKind x = pk_kind p \<and> dl_destinationId x = pk_id p
       \<and> dl_status x = Pending \<and> dl_nextAttemptAt x \<le> now
       \<and> (case event_of D x of None \<Rightarrow> False | Some r \<Rightarrow> er_schemaVersion r \<le> EVENT_ROW_SCHEMA_VERSION) \<and> dl_id x \<notin> held) (db_deliveries D)))"

definition claim_row :: "ms \<Rightarrow> ms \<Rightarrow> int \<Rightarrow> delivery \<Rightarrow> delivery" where
  "claim_row now leaseEnd maxAttempts x =
     (if dl_attemptCount x < maxAttempts
      then x\<lparr>dl_attemptCount := dl_attemptCount x + 1, dl_status := Pending, dl_lockedUntil := Some leaseEnd, dl_nextAttemptAt := leaseEnd,
             dl_finishedAt := None, dl_updatedAt := now\<rparr>
      else x\<lparr>dl_status := Failed, dl_lockedUntil := None, dl_lastErrorClass := Some ATTEMPT_INTERRUPTED, dl_finishedAt := Some now, dl_updatedAt := now\<rparr>)"

definition claimed_of :: "delivery_db \<Rightarrow> delivery \<Rightarrow> claimed_delivery" where
  "claimed_of D x = \<lparr>cl_id = dl_id x, cl_attempt = dl_attemptCount x, cl_destinationKind = dl_destinationKind x, cl_destinationId = dl_destinationId x,
     cl_realmId = dl_realmId x, cl_eventId = dl_eventId x, cl_lockedUntil = the (dl_lockedUntil x), cl_event = Option.bind (event_of D x) envelopeOf\<rparr>"

definition claim_deliveries :: "nat set \<Rightarrow> pick list \<Rightarrow> ms \<Rightarrow> int \<Rightarrow> int \<Rightarrow> delivery_db \<Rightarrow> delivery_error + claimed_delivery list \<times> delivery_db" where
  "claim_deliveries held picks now leaseMs maxAttempts D =
     (let asked = filter (\<lambda>p. 0 < pk_limit p) picks in
      if \<not> checkTime now \<or> \<not> checkCount leaseMs 1 (24 * 60 * 60000) \<or> \<not> checkCount maxAttempts 1 1000 then Inl DeliveryTypeError
      else if asked = [] then Inr ([], D)
      else if \<not> list_all (\<lambda>p. checkKind (pk_kind p) \<and> checkCount (pk_limit p) 1 1000) asked then Inl DeliveryTypeError
      else let picked = dl_id ` set (concat (map (due_rows held now D) asked));
               (rows, t) = update_where (\<lambda>x. dl_id x \<in> picked) (claim_row now (now + leaseMs) maxAttempts) (db_deliveries D)
           in Inr (map (claimed_of D) (filter (\<lambda>x. dl_status x = Pending \<and> dl_lockedUntil x \<noteq> None) rows), D\<lparr>db_deliveries := t\<rparr>))"

subsection \<open>Outcomes\<close>

datatype attempt_record =
  RecordDelivered "int option"
| RecordRetry ms string "int option"
| RecordFailed string "int option"
| RecordHold ms

definition status_code_ok :: "int option \<Rightarrow> bool" where
  "status_code_ok c = (case c of None \<Rightarrow> True | Some n \<Rightarrow> 100 \<le> n \<and> n \<le> 599)"

fun checkOutcome :: "attempt_record \<Rightarrow> bool" where
  "checkOutcome (RecordHold at) = checkTime at"
| "checkOutcome (RecordDelivered c) = status_code_ok c"
| "checkOutcome (RecordRetry at e c) = (status_code_ok c \<and> ERROR_CLASS_PATTERN e \<and> checkTime at)"
| "checkOutcome (RecordFailed e c) = (status_code_ok c \<and> ERROR_CLASS_PATTERN e)"

definition claimed :: "nat \<times> int \<Rightarrow> delivery \<Rightarrow> bool" where
  "claimed c x \<longleftrightarrow> dl_id x = fst c \<and> dl_attemptCount x = snd c \<and> dl_status x = Pending \<and> dl_lockedUntil x \<noteq> None"

fun record_row :: "attempt_record \<Rightarrow> ms \<Rightarrow> delivery \<Rightarrow> delivery" where
  "record_row (RecordHold at) now x = x\<lparr>dl_attemptCount := dl_attemptCount x - 1, dl_lockedUntil := None, dl_nextAttemptAt := at, dl_updatedAt := now\<rparr>"
| "record_row (RecordDelivered c) now x = x\<lparr>dl_status := Delivered, dl_lockedUntil := None, dl_lastStatusCode := c, dl_lastErrorClass := None,
     dl_finishedAt := Some now, dl_updatedAt := now\<rparr>"
| "record_row (RecordRetry at e c) now x = x\<lparr>dl_status := Pending, dl_lockedUntil := None, dl_nextAttemptAt := at, dl_lastStatusCode := c,
     dl_lastErrorClass := Some e, dl_finishedAt := None, dl_updatedAt := now\<rparr>"
| "record_row (RecordFailed e c) now x = x\<lparr>dl_status := Failed, dl_lockedUntil := None, dl_lastStatusCode := c, dl_lastErrorClass := Some e,
     dl_finishedAt := Some now, dl_updatedAt := now\<rparr>"

definition record_outcome :: "nat \<times> int \<Rightarrow> attempt_record \<Rightarrow> ms \<Rightarrow> delivery_db \<Rightarrow> delivery_error + bool \<times> delivery_db" where
  "record_outcome c outcome now D =
     (if \<not> checkTime now \<or> \<not> checkOutcome outcome then Inl DeliveryTypeError
      else let (rows, t) = update_where (claimed c) (record_row outcome now) (db_deliveries D) in Inr (rows \<noteq> [], D\<lparr>db_deliveries := t\<rparr>))"

definition release_row :: "ms \<Rightarrow> delivery \<Rightarrow> delivery" where
  "release_row now x = x\<lparr>dl_lockedUntil := None, dl_nextAttemptAt := now, dl_lastErrorClass := Some ATTEMPT_INTERRUPTED, dl_updatedAt := now\<rparr>"

definition release_claims :: "(nat \<times> int) list \<Rightarrow> ms \<Rightarrow> delivery_db \<Rightarrow> delivery_error + nat \<times> delivery_db" where
  "release_claims claims now D =
     (if \<not> checkTime now then Inl DeliveryTypeError
      else if claims = [] then Inr (0, D)
      else let (rows, t) = update_where (\<lambda>x. list_ex (\<lambda>c. claimed c x) claims) (release_row now) (db_deliveries D)
           in Inr (length rows, D\<lparr>db_deliveries := t\<rparr>))"

subsection \<open>What every destination has finished\<close>

record offered_destinations =
  of_kinds :: "string list"
  of_destinations :: "(string \<times> string \<times> string) list"

definition listed_of :: "offered_destinations \<Rightarrow> string \<Rightarrow> (string \<times> string) list" where
  "listed_of served realmId = map (\<lambda>(k, i, _). (k, i)) (filter (\<lambda>(k, i, r). map to_lower r = realmId \<and> k \<in> set (of_kinds served)) (of_destinations served))"

definition position_counts :: "offered_destinations \<Rightarrow> string \<Rightarrow> string \<Rightarrow> bool" where
  "position_counts served realmId kind \<longleftrightarrow> kind \<notin> set (of_kinds served) \<or> kind \<in> fst ` set (listed_of served realmId)"

definition delivery_counts :: "offered_destinations \<Rightarrow> string \<Rightarrow> delivery \<Rightarrow> bool" where
  "delivery_counts served realmId x \<longleftrightarrow> dl_destinationKind x \<notin> set (of_kinds served) \<or> (dl_destinationKind x, dl_destinationId x) \<in> set (listed_of served realmId)"

definition delivery_pos :: "delivery \<Rightarrow> pos" where
  "delivery_pos x = (dl_eventXid x, dl_eventSeq x)"

definition offeredPosition :: "string \<Rightarrow> offered_destinations \<Rightarrow> delivery_db \<Rightarrow> pos" where
  "offeredPosition realmId served D =
     (let position = limit1 (sort (map snd (filter (\<lambda>((r, k), _). r = realmId \<and> position_counts served realmId k) (db_positions D))));
          waiting = limit1 (sort (map delivery_pos (select_where (\<lambda>x. dl_realmId x = realmId \<and> dl_status x = Pending \<and> delivery_counts served realmId x) (db_deliveries D))));
          at = (case position of None \<Rightarrow> (horizon (db_log D), 0) | Some p \<Rightarrow> p)
      in case waiting of None \<Rightarrow> at
         | Some w \<Rightarrow> if (fst w, snd w - 1) < at then (fst w, snd w - 1) else at)"

definition offeredThrough :: "string \<Rightarrow> offered_destinations \<Rightarrow> delivery_db \<Rightarrow> string option" where
  "offeredThrough realmId served D = (let realm = map to_lower realmId; p = offeredPosition realm served D in
     if UUID realm then encodeEventPosition \<lparr>pp_realmId = realm, pp_xid = fst p, pp_seq = snd p\<rparr> else None)"

definition minOffered :: "string \<Rightarrow> delivery_db \<Rightarrow> string option" where
  "minOffered realmId D = offeredThrough realmId \<lparr>of_kinds = [], of_destinations = []\<rparr> D"

text \<open>The reports: the rows still pending by kind, the age of the oldest unfinished event, and the rows of one event.\<close>

definition pendingByKind :: "delivery_db \<Rightarrow> (string \<times> nat) list" where
  "pendingByKind D = (let pending = filter (\<lambda>x. dl_status x = Pending) (db_deliveries D)
     in map (\<lambda>k. (k, length (filter (\<lambda>x. dl_destinationKind x = k) pending))) (dedup (map dl_destinationKind pending)))"

definition first_unread :: "delivery_db \<Rightarrow> (string \<times> string) \<times> pos \<Rightarrow> ms list" where
  "first_unread D = (\<lambda>((r, _), p). map er_time (take 1 (sort_key row_pos (filter (\<lambda>e. er_realmId e = r \<and> p < row_pos e) (committed (db_log D))))))"

definition deliveryLagMs :: "ms \<Rightarrow> delivery_db \<Rightarrow> delivery_error + ms" where
  "deliveryLagMs now D =
     (let times = map dl_eventTime (filter (\<lambda>x. dl_status x = Pending) (db_deliveries D)) @ concat (map (first_unread D) (db_positions D))
      in if \<not> checkTime now then Inl DeliveryTypeError
         else Inr (case limit1 (sort times) of None \<Rightarrow> 0 | Some oldest \<Rightarrow> max 0 (now - oldest)))"

definition listForEvent :: "string \<Rightarrow> delivery_db \<Rightarrow> delivery_error + delivery list" where
  "listForEvent eventId D =
     (if UUID (map to_lower eventId) then Inr (sort_key (\<lambda>x. (dl_createdAt x, dl_id x)) (select_where (\<lambda>x. dl_eventId x = map to_lower eventId) (db_deliveries D)))
      else Inl DeliveryTypeError)"

end
