(* ===== verification/Delivery_Queue.thy ===== *)
theory Delivery_Queue
  imports Event_Delivery
begin

text \<open>
  The runs of the delivery queue: transactions that write events, retention, and any number of nodes that
  fan out, claim, record and release, in any order. What the table keeps in every run, and that the
  attempt number of a claim fences its row as a ticket of its own would.
\<close>

subsection \<open>Runs\<close>

text \<open>
  A world is the database and, for the proofs alone, a ticket for every claim handed out: the claims not
  yet recorded or released, and the ticket that holds each row. Each claim ends once. The event of a page
  carries the rows it read and the backfill window with which it started its stream, if it did.
\<close>

record world =
  wd_db :: delivery_db
  wd_claims :: "(nat \<times> nat \<times> int) list"
  wd_owner :: "nat \<rightharpoonup> nat"
  wd_tickets :: nat

datatype queue_event =
  Stored
| Paged string string "destination list" "event_row list" "int option"
| Forgot "string list" "(string \<times> string) list"
| ClaimsTaken "claimed_delivery list"
| Recorded nat "nat \<times> int" attempt_record bool
| ReleasedClaims "(nat \<times> nat \<times> int) list"

text \<open>Deliveries go with their event (\<open>on delete cascade\<close>).\<close>

definition cascade :: "event_log \<Rightarrow> delivery_db \<Rightarrow> delivery_db" where
  "cascade L D = D\<lparr>db_log := L, db_deliveries := filter (\<lambda>x. dl_eventId x \<in> er_id ` set (lg_rows L)) (db_deliveries D)\<rparr>"

definition page_read :: "string \<Rightarrow> string \<Rightarrow> nat \<Rightarrow> delivery_db \<Rightarrow> event_row list" where
  "page_read realmId kind n D = (case stream_position D realmId kind of None \<Rightarrow> [] | Some p \<Rightarrow> take n (rows_after realmId p (\<lambda>_. True) (db_log D)))"

definition drop_owner :: "delivery_db \<Rightarrow> (nat \<rightharpoonup> nat) \<Rightarrow> (nat \<rightharpoonup> nat)" where
  "drop_owner D own = (\<lambda>i. if i \<in> dl_id ` set (filter (\<lambda>x. dl_status x = Pending) (db_deliveries D)) then own i else None)"

definition tickets_for :: "nat \<Rightarrow> claimed_delivery list \<Rightarrow> (nat \<times> nat \<times> int) list" where
  "tickets_for t cs = map (\<lambda>(k, c). (t + k, cl_id c, cl_attempt c)) (enumerate 0 cs)"

inductive queue_step :: "chain_deps \<Rightarrow> event_registry \<Rightarrow> world \<Rightarrow> queue_event \<Rightarrow> world \<Rightarrow> bool" for C G where
  stores: "log_step C G (db_log (wd_db W)) L \<Longrightarrow>
    queue_step C G W Stored (W\<lparr>wd_db := cascade L (wd_db W), wd_owner := drop_owner (cascade L (wd_db W)) (wd_owner W)\<rparr>)"
| pages: "fanOutPage True R K ds n now bf (wd_db W) = (out, D) \<Longrightarrow> 0 < n \<Longrightarrow> \<forall>d \<in> set ds. de_kind d = K \<Longrightarrow>
    queue_step C G W (Paged R K ds (page_read R K n (wd_db W)) (if stream_position (wd_db W) R K = None then bf else None)) (W\<lparr>wd_db := D\<rparr>)"
| forgets: "queue_step C G W (Forgot kinds pairs) (W\<lparr>wd_db := forget_positions kinds pairs (wd_db W)\<rparr>)"
| claims: "claim_deliveries held picks now leaseMs maxAttempts (wd_db W) = Inr (cs, D) \<Longrightarrow>
    queue_step C G W (ClaimsTaken cs) (W\<lparr>wd_db := D, wd_claims := wd_claims W @ tickets_for (wd_tickets W) cs,
      wd_owner := drop_owner D (wd_owner W) ++ map_of (map (\<lambda>(t, i, _). (i, t)) (tickets_for (wd_tickets W) cs)), wd_tickets := wd_tickets W + length cs\<rparr>)"
| records: "(t, i, a) \<in> set (wd_claims W) \<Longrightarrow> record_outcome (i, a) outcome now (wd_db W) = Inr (ok, D) \<Longrightarrow>
    queue_step C G W (Recorded t (i, a) outcome ok) (W\<lparr>wd_db := D, wd_claims := filter (\<lambda>c. fst c \<noteq> t) (wd_claims W),
      wd_owner := (if wd_owner W i = Some t then (wd_owner W)(i := None) else wd_owner W)\<rparr>)"
| releases: "set cs \<subseteq> set (wd_claims W) \<Longrightarrow> release_claims (map snd cs) now (wd_db W) = Inr (n, D) \<Longrightarrow>
    queue_step C G W (ReleasedClaims cs) (W\<lparr>wd_db := D, wd_claims := filter (\<lambda>c. fst c \<notin> fst ` set cs) (wd_claims W),
      wd_owner := (\<lambda>i. case wd_owner W i of None \<Rightarrow> None | Some t \<Rightarrow> if t \<in> fst ` set cs then None else Some t)\<rparr>)"

inductive queue_run :: "chain_deps \<Rightarrow> event_registry \<Rightarrow> world \<Rightarrow> queue_event list \<Rightarrow> world \<Rightarrow> bool" for C G where
  run_nil: "queue_run C G W [] W"
| run_step: "queue_run C G W es W1 \<Longrightarrow> queue_step C G W1 e W2 \<Longrightarrow> queue_run C G W (es @ [e]) W2"

definition empty_world :: "world \<Rightarrow> bool" where
  "empty_world W \<longleftrightarrow> empty_log (db_log (wd_db W)) \<and> db_deliveries (wd_db W) = [] \<and> db_positions (wd_db W) = [] \<and> wd_claims W = [] \<and> wd_owner W = Map.empty"

subsection \<open>What the event store keeps\<close>

lemma log_step_keeps:
  assumes "log_step C G L L'" and "numbers_ok L"
  shows "(\<forall>r \<in> set (committed L). r \<in> set (lg_rows L') \<longrightarrow> r \<in> set (committed L'))
    \<and> (\<forall>r \<in> set (lg_rows L'). er_id r \<in> er_id ` set (lg_rows L) \<longrightarrow> r \<in> set (lg_rows L))"
  using assms
proof (induction rule: log_step.induct)
  case (begins L)
  then show ?case by (auto simp: committed_def begin_tx_def numbers_ok_def)
next
  case (emits xid L eventId at e)
  let ?L = "snd (emit_event C G xid eventId at e L)"
  obtain tail where t: "lg_rows ?L = lg_rows L @ tail"
    "\<forall>r. r \<in> set tail \<longrightarrow> er_xid r = xid \<and> er_seq r = lg_nextSeq L \<and> (\<exists>r' env. buildEvent G eventId at e = Inr (r', env) \<and> er_id r = er_id r' \<and> er_realmId r = er_realmId r')"
    using emit_event_shape(1)[of C G xid eventId at e L] by (elim exE conjE)
  have "er_id r \<notin> er_id ` set (lg_rows L)" if r: "r \<in> set tail" for r
  proof -
    obtain r' env where "buildEvent G eventId at e = Inr (r', env)" "er_id r = er_id r'" using t(2) r by blast
    then show ?thesis using emits(2) by simp
  qed
  then have "r \<in> set (lg_rows L)" if "r \<in> set (lg_rows ?L)" "er_id r \<in> er_id ` set (lg_rows L)" for r using that t(1) by auto
  then show ?case by (auto simp: committed_def emit_event_shape(2) t(1))
next
  case (retains locked realmId category before through limit now L b L')
  then show ?case using deleteBatch_rows[OF retains(1)] by (auto simp: committed_def)
qed (auto simp: committed_def commit_tx_def abort_tx_def)

lemma sublist_unique: "unique_on f xs \<Longrightarrow> unique_on f (filter P xs)"
  by (simp add: unique_on_def distinct_map_filter)

lemma log_step_unique:
  assumes "log_step C G L L'" and "unique_on er_id (lg_rows L)"
  shows "unique_on er_id (lg_rows L')"
  using assms
proof (induction rule: log_step.induct)
  case (emits xid L eventId at e)
  let ?L = "snd (emit_event C G xid eventId at e L)"
  obtain tail where t: "lg_rows ?L = lg_rows L @ tail" "length tail \<le> 1"
    "\<forall>r. r \<in> set tail \<longrightarrow> er_xid r = xid \<and> er_seq r = lg_nextSeq L \<and> (\<exists>r' env. buildEvent G eventId at e = Inr (r', env) \<and> er_id r = er_id r' \<and> er_realmId r = er_realmId r')"
    using emit_event_shape(1)[of C G xid eventId at e L] by (elim exE conjE)
  show ?case
  proof (cases tail)
    case Nil
    then show ?thesis using t(1) emits.prems by simp
  next
    case (Cons r rs)
    then have "rs = []" using t(2) by simp
    obtain r' env where "buildEvent G eventId at e = Inr (r', env)" "er_id r = er_id r'" using t(3) Cons by (meson list.set_intros(1))
    then have "er_id r \<notin> er_id ` set (lg_rows L)" using emits(2) by simp
    then show ?thesis using t(1) Cons \<open>rs = []\<close> unique_on_append[OF emits.prems] by simp
  qed
next
  case (retains locked realmId category before through limit now L b L')
  have u: "\<exists>P. lg_rows L2 = filter P (lg_rows L1)" if "deleteUnchained R category before t n L1 = (d, L2)" for R t n d L1 L2
    using that by (auto simp: deleteUnchained_def delete_where_def Let_def)
  have c: "\<exists>P. lg_rows L2 = filter P (lg_rows L1)" if "deleteChainStart C R before t n L1 = Inr (d, L2)" for R t n d L1 L2
  proof (cases "L2 = L1")
    case True
    then show ?thesis by (intro exI[of _ "\<lambda>_. True"]) simp
  next
    case False
    then show ?thesis using that by (auto simp: deleteChainStart_def delete_where_def Let_def split: if_splits prod.splits)
  qed
  from retains(1) show ?case
  proof (cases rule: deleteBatch_cases)
    case (2 t deleted)
    then show ?thesis using u[OF 2(3)] retains.prems sublist_unique by metis
  next
    case (3 t deleted L1 k doomed broken)
    then show ?thesis using u[OF 3(3)] c[OF 3(4)] retains.prems sublist_unique by metis
  qed (use retains.prems in simp)
qed (auto simp: begin_tx_def commit_tx_def abort_tx_def sublist_unique)

subsection \<open>What the queue keeps\<close>

text \<open>The check constraints of the table.\<close>

definition row_checks :: "delivery \<Rightarrow> bool" where
  "row_checks x \<longleftrightarrow> (dl_status x = Pending \<longleftrightarrow> dl_finishedAt x = None) \<and> (dl_lockedUntil x \<noteq> None \<longrightarrow> dl_status x = Pending)
     \<and> 0 \<le> dl_attemptCount x \<and> status_code_ok (dl_lastStatusCode x)"

text \<open>The event of a delivery: committed, and at the delivery's place in the delivery's realm.\<close>

definition linked :: "event_log \<Rightarrow> delivery \<Rightarrow> bool" where
  "linked L x \<longleftrightarrow> (\<exists>r. r \<in> set (committed L) \<and> er_id r = dl_eventId x \<and> row_pos r = delivery_pos x \<and> er_realmId r = dl_realmId x)"

definition rows_ok :: "delivery_db \<Rightarrow> bool" where
  "rows_ok D \<longleftrightarrow> (\<forall>x. x \<in> set (db_deliveries D) \<longrightarrow> row_checks x \<and> linked (db_log D) x \<and> dl_id x < db_nextId D)"

definition keys_ok :: "delivery_db \<Rightarrow> bool" where
  "keys_ok D \<longleftrightarrow> unique_on dl_id (db_deliveries D) \<and> unique_on delivery_key (db_deliveries D) \<and> unique_on fst (db_positions D)"

definition db_ok :: "chain_deps \<Rightarrow> delivery_db \<Rightarrow> bool" where
  "db_ok C D \<longleftrightarrow> log_ok C (db_log D) \<and> unique_on er_id (lg_rows (db_log D)) \<and> keys_ok D \<and> rows_ok D"

text \<open>The attempt number of a claim is below that of its row, or the claim's ticket holds the row.\<close>

definition fence :: "(nat \<times> nat \<times> int) list \<Rightarrow> (nat \<rightharpoonup> nat) \<Rightarrow> nat \<Rightarrow> delivery_db \<Rightarrow> bool" where
  "fence cs own tickets D \<longleftrightarrow> distinct (map fst cs)
     \<and> (\<forall>t i a. (t, i, a) \<in> set cs \<longrightarrow> 1 \<le> a \<and> t < tickets \<and> i < db_nextId D)
     \<and> (\<forall>i t. own i = Some t \<longrightarrow> (\<exists>a x. (t, i, a) \<in> set cs \<and> x \<in> set (db_deliveries D) \<and> claimed (i, a) x))
     \<and> (\<forall>t i a x. (t, i, a) \<in> set cs \<longrightarrow> x \<in> set (db_deliveries D) \<longrightarrow> dl_id x = i \<longrightarrow> dl_status x = Pending \<longrightarrow> own i \<noteq> Some t
          \<longrightarrow> a \<le> dl_attemptCount x \<and> (dl_lockedUntil x \<noteq> None \<longrightarrow> a < dl_attemptCount x))"

definition fenced :: "world \<Rightarrow> bool" where
  "fenced W \<longleftrightarrow> fence (wd_claims W) (wd_owner W) (wd_tickets W) (wd_db W)"

lemma fencedI:
  assumes "distinct (map fst cs)" "\<And>t i a. (t, i, a) \<in> set cs \<Longrightarrow> 1 \<le> a \<and> t < tickets \<and> i < db_nextId D"
    "\<And>i t. own i = Some t \<Longrightarrow> \<exists>a x. (t, i, a) \<in> set cs \<and> x \<in> set (db_deliveries D) \<and> claimed (i, a) x"
    "\<And>t i a x. (t, i, a) \<in> set cs \<Longrightarrow> x \<in> set (db_deliveries D) \<Longrightarrow> dl_id x = i \<Longrightarrow> dl_status x = Pending \<Longrightarrow> own i \<noteq> Some t
          \<Longrightarrow> a \<le> dl_attemptCount x \<and> (dl_lockedUntil x \<noteq> None \<longrightarrow> a < dl_attemptCount x)"
  shows "fence cs own tickets D"
  using assms unfolding fence_def by blast

lemma fencedD:
  assumes "fenced W"
  shows "distinct (map fst (wd_claims W))" "\<And>t i a. (t, i, a) \<in> set (wd_claims W) \<Longrightarrow> 1 \<le> a \<and> t < wd_tickets W \<and> i < db_nextId (wd_db W)"
    "\<And>i t. wd_owner W i = Some t \<Longrightarrow> \<exists>a x. (t, i, a) \<in> set (wd_claims W) \<and> x \<in> set (db_deliveries (wd_db W)) \<and> claimed (i, a) x"
    "\<And>t i a x. (t, i, a) \<in> set (wd_claims W) \<Longrightarrow> x \<in> set (db_deliveries (wd_db W)) \<Longrightarrow> dl_id x = i \<Longrightarrow> dl_status x = Pending \<Longrightarrow> wd_owner W i \<noteq> Some t
          \<Longrightarrow> a \<le> dl_attemptCount x \<and> (dl_lockedUntil x \<noteq> None \<longrightarrow> a < dl_attemptCount x)"
  using assms unfolding fenced_def fence_def by blast+

lemma db_okD: "db_ok C D \<Longrightarrow> log_ok C (db_log D)" "db_ok C D \<Longrightarrow> unique_on er_id (lg_rows (db_log D))" "db_ok C D \<Longrightarrow> keys_ok D" "db_ok C D \<Longrightarrow> rows_ok D"
  by (simp_all add: db_ok_def)

lemma same_id: "keys_ok D \<Longrightarrow> x \<in> set (db_deliveries D) \<Longrightarrow> y \<in> set (db_deliveries D) \<Longrightarrow> dl_id x = dl_id y \<Longrightarrow> x = y"
  by (rule unique_on_same[of dl_id "db_deliveries D"]) (simp_all add: keys_ok_def)

text \<open>A claim outstanding matches its row exactly when its ticket holds it.\<close>

lemma claimed_owner:
  assumes "fenced W" and "(t, i, a) \<in> set (wd_claims W)" and "x \<in> set (db_deliveries (wd_db W))" and "claimed (i, a) x"
  shows "wd_owner W i = Some t"
proof (rule ccontr)
  assume "wd_owner W i \<noteq> Some t"
  then have "a \<le> dl_attemptCount x \<and> (dl_lockedUntil x \<noteq> None \<longrightarrow> a < dl_attemptCount x)"
    by (intro fencedD(4)[OF assms(1,2,3)]) (use assms(4) in \<open>simp_all add: claimed_def\<close>)
  then show False using assms(4) by (simp add: claimed_def)
qed

lemma owner_claimed:
  assumes "fenced W" and "(t, i, a) \<in> set (wd_claims W)" and "wd_owner W i = Some t"
  shows "\<exists>x. x \<in> set (db_deliveries (wd_db W)) \<and> claimed (i, a) x"
proof -
  obtain b x where x: "(t, i, b) \<in> set (wd_claims W)" "x \<in> set (db_deliveries (wd_db W))" "claimed (i, b) x"
    using fencedD(3)[OF assms(1,3)] by (elim exE conjE)
  have "b = a" using eq_key_imp_eq_value[OF fencedD(1)[OF assms(1)] x(1) assms(2)] by simp
  then show ?thesis using x by blast
qed

subsection \<open>Rows inserted and rows updated\<close>

definition same_row :: "delivery \<Rightarrow> delivery \<Rightarrow> bool" where
  "same_row x y \<longleftrightarrow> dl_id y = dl_id x \<and> delivery_key y = delivery_key x \<and> dl_realmId y = dl_realmId x \<and> delivery_pos y = delivery_pos x"

lemma linked_same: "same_row x y \<Longrightarrow> linked L y = linked L x"
  by (simp add: linked_def same_row_def delivery_key_def)

lemma update_db_ok:
  assumes ok: "db_ok C D" and f: "\<And>x. same_row x (f x)" and c: "\<And>x. x \<in> set (db_deliveries D) \<Longrightarrow> P x \<Longrightarrow> row_checks x \<Longrightarrow> row_checks (f x)"
  shows "db_ok C (D\<lparr>db_deliveries := snd (update_where P f (db_deliveries D))\<rparr>)"
proof -
  have "keys_ok (D\<lparr>db_deliveries := snd (update_where P f (db_deliveries D))\<rparr>)"
    using db_okD(3)[OF ok] f by (simp add: keys_ok_def unique_on_update same_row_def)
  moreover have "row_checks y \<and> linked (db_log D) y \<and> dl_id y < db_nextId D" if y: "y \<in> set (snd (update_where P f (db_deliveries D)))" for y
  proof -
    obtain x where x: "x \<in> set (db_deliveries D)" "y = (if P x then f x else x)" using y by (auto simp: update_where_def)
    then show ?thesis using db_okD(4)[OF ok] c[of x] linked_same[OF f] f[of x] by (auto simp: rows_ok_def same_row_def)
  qed
  ultimately show ?thesis using ok by (simp add: db_ok_def rows_ok_def)
qed

lemma insert_deliveries_result:
  "insert_deliveries R now ps D = (n, D') \<Longrightarrow> (\<exists>new. db_deliveries D' = db_deliveries D @ new
      \<and> (\<forall>x \<in> set new. \<exists>i r d. (r, d) \<in> set ps \<and> db_nextId D \<le> i \<and> i < db_nextId D' \<and> x = new_delivery i R now d r))
    \<and> db_log D' = db_log D \<and> db_positions D' = db_positions D \<and> db_nextId D \<le> db_nextId D'
    \<and> (\<forall>r d. (r, d) \<in> set ps \<longrightarrow> (er_id r, de_kind d, de_id d) \<in> delivery_key ` set (db_deliveries D'))
    \<and> (keys_ok D \<longrightarrow> (\<forall>x \<in> set (db_deliveries D). dl_id x < db_nextId D) \<longrightarrow> keys_ok D')"
proof (induction R now ps D arbitrary: n D' rule: insert_deliveries.induct)
  case (2 R now r d rest D)
  show ?case
  proof (cases "(er_id r, de_kind d, de_id d) \<in> delivery_key ` set (db_deliveries D)")
    case True
    then have e: "insert_deliveries R now rest D = (n, D')" using "2.prems" by simp
    note h = "2.IH"(1)[OF True e]
    then obtain new where new: "db_deliveries D' = db_deliveries D @ new"
      "\<forall>x \<in> set new. \<exists>i r d. (r, d) \<in> set rest \<and> db_nextId D \<le> i \<and> i < db_nextId D' \<and> x = new_delivery i R now d r" by blast
    then have "(er_id r, de_kind d, de_id d) \<in> delivery_key ` set (db_deliveries D')" using True by auto
    moreover have "\<forall>x \<in> set new. \<exists>i r' d'. (r', d') \<in> set ((r, d) # rest) \<and> db_nextId D \<le> i \<and> i < db_nextId D' \<and> x = new_delivery i R now d' r'"
      using new(2) by fastforce
    ultimately show ?thesis using h new(1) by (intro conjI) auto
  next
    case False
    let ?x = "new_delivery (db_nextId D) R now d r"
    let ?D = "D\<lparr>db_deliveries := db_deliveries D @ [?x], db_nextId := Suc (db_nextId D)\<rparr>"
    obtain m where e: "insert_deliveries R now rest ?D = (m, D')" using "2.prems" False by (auto split: prod.splits)
    note h = "2.IH"(2)[OF False e]
    then obtain new where new: "db_deliveries D' = db_deliveries ?D @ new"
      "\<forall>x \<in> set new. \<exists>i r d. (r, d) \<in> set rest \<and> db_nextId ?D \<le> i \<and> i < db_nextId D' \<and> x = new_delivery i R now d r" by blast
    have k: "delivery_key ?x = (er_id r, de_kind d, de_id d)" by (simp add: delivery_key_def new_delivery_def)
    have le: "Suc (db_nextId D) \<le> db_nextId D'" using h by simp
    have rows: "\<exists>i r' d'. (r', d') \<in> set ((r, d) # rest) \<and> db_nextId D \<le> i \<and> i < db_nextId D' \<and> x = new_delivery i R now d' r'" if x: "x \<in> set (?x # new)" for x
    proof (cases "x \<in> set new")
      case True
      then obtain i r' d' where "(r', d') \<in> set rest" "db_nextId ?D \<le> i" "i < db_nextId D'" "x = new_delivery i R now d' r'" using new(2) by blast
      then show ?thesis by (intro exI[of _ i] exI[of _ r'] exI[of _ d']) simp
    next
      case False
      then show ?thesis using x le by (intro exI[of _ "db_nextId D"] exI[of _ r] exI[of _ d]) simp
    qed
    have keys: "keys_ok ?D" if "keys_ok D" "\<forall>x \<in> set (db_deliveries D). dl_id x < db_nextId D"
    proof -
      have "dl_id ?x \<notin> dl_id ` set (db_deliveries D)" using that(2) by (auto simp: new_delivery_def)
      moreover have "delivery_key ?x \<notin> delivery_key ` set (db_deliveries D)" using False k by simp
      ultimately show ?thesis using that(1) by (simp add: keys_ok_def unique_on_append)
    qed
    show ?thesis
    proof (intro conjI exI[of _ "?x # new"] ballI allI impI)
      show "db_deliveries D' = db_deliveries D @ ?x # new" using new(1) by simp
      show "db_log D' = db_log D" "db_positions D' = db_positions D" "db_nextId D \<le> db_nextId D'" using h by simp_all
      show "\<exists>i r' d'. (r', d') \<in> set ((r, d) # rest) \<and> db_nextId D \<le> i \<and> i < db_nextId D' \<and> x = new_delivery i R now d' r'" if "x \<in> set (?x # new)" for x
        by (rule rows[OF that])
      show "(er_id r', de_kind d', de_id d') \<in> delivery_key ` set (db_deliveries D')" if "(r', d') \<in> set ((r, d) # rest)" for r' d'
        using that h k new(1) by (cases "(r', d') \<in> set rest") (auto intro: rev_image_eqI[of ?x])
      show "keys_ok D'" if "keys_ok D" "\<forall>x \<in> set (db_deliveries D). dl_id x < db_nextId D"
        using h keys[OF that] that(2) by (simp add: new_delivery_def less_SucI)
    qed
  qed
qed simp

lemma matching_pairs_mem: "(r, d) \<in> set (matching_pairs ds read) \<longleftrightarrow> r \<in> set read \<and> d \<in> set ds \<and> matches d r"
  by (auto simp: matching_pairs_def)

subsection \<open>Every step keeps the table\<close>

lemma cascade_ok:
  assumes ok: "db_ok C D" and s: "log_step C G (db_log D) L"
  shows "db_ok C (cascade L D)"
proof -
  note n = log_okD(1)[OF db_okD(1)[OF ok]]
  note k = log_step_keeps[OF s n]
  have "linked L x" if x: "x \<in> set (db_deliveries D)" "dl_eventId x \<in> er_id ` set (lg_rows L)" for x
  proof -
    obtain r where r: "r \<in> set (committed (db_log D))" "er_id r = dl_eventId x" "row_pos r = delivery_pos x" "er_realmId r = dl_realmId x"
      using db_okD(4)[OF ok] x(1) unfolding rows_ok_def linked_def by blast
    obtain r' where r': "r' \<in> set (lg_rows L)" "er_id r' = dl_eventId x" using x(2) by force
    have m: "r \<in> set (lg_rows (db_log D))" using r(1) by (simp add: committed_def)
    then have "r' \<in> set (lg_rows (db_log D))" using k r' r(2) by force
    then have "r' = r" using unique_on_same[OF db_okD(2)[OF ok]] m r(2) r'(2) by metis
    then have "r \<in> set (committed L)" using k r(1) r'(1) by blast
    then show ?thesis using r unfolding linked_def by blast
  qed
  then have "rows_ok (cascade L D)" using db_okD(4)[OF ok] by (auto simp: rows_ok_def cascade_def)
  moreover have "keys_ok (cascade L D)" using db_okD(3)[OF ok] by (simp add: keys_ok_def cascade_def sublist_unique)
  ultimately show ?thesis using log_step_ok[OF s db_okD(1)[OF ok]] log_step_unique[OF s db_okD(2)[OF ok]] by (simp add: db_ok_def cascade_def)
qed

lemma fanOutPage_cases:
  assumes "fanOutPage True R K ds n now bf D = (out, D')"
  obtains "stream_position D R K = None" "out = Started" "D' = D\<lparr>db_positions := ((R, K), start_position R ds now bf (db_log D)) # db_positions D\<rparr>" "page_read R K n D = []"
  | p m D1 full where "stream_position D R K = Some p" "insert_deliveries R now (matching_pairs ds (page_read R K n D)) D = (m, D1)" "out = PageRead (length (page_read R K n D)) m full"
      "page_read R K n D = fst (stream_page R (\<lambda>_. True) n p (db_log D))"
      "D' = D1\<lparr>db_positions := AList.update (R, K) (snd (stream_page R (\<lambda>_. True) n p (db_log D))) (db_positions D1)\<rparr>"
proof (cases "stream_position D R K")
  case None
  then show thesis using assms that(1) by (simp add: fanOutPage_def page_read_def)
next
  case (Some p)
  let ?read = "page_read R K n D"
  obtain m D1 where i: "insert_deliveries R now (matching_pairs ds ?read) D = (m, D1)" by fastforce
  have r: "?read = take n (rows_after R p (\<lambda>_. True) (db_log D))" using Some by (simp add: page_read_def)
  have "horizon (db_log D) > fst p \<longleftrightarrow> (horizon (db_log D), 0) > p" by (cases p) auto
  then have nx: "snd (stream_page R (\<lambda>_. True) n p (db_log D)) = (if length ?read = n then row_pos (last ?read)
      else if horizon (db_log D) > fst p then (horizon (db_log D), 0) else p)"
    by (simp add: stream_page_def next_position_def Let_def r)
  have "fanOutPage True R K ds n now bf D = (PageRead (length ?read) m (length ?read = n), D1\<lparr>db_positions := AList.update (R, K)
      (if length ?read = n then row_pos (last ?read) else if horizon (db_log D) > fst p then (horizon (db_log D), 0) else p) (db_positions D1)\<rparr>)"
    using Some i by (simp add: fanOutPage_def Let_def r)
  then have "out = PageRead (length ?read) m (length ?read = n)" "D' = D1\<lparr>db_positions := AList.update (R, K) (snd (stream_page R (\<lambda>_. True) n p (db_log D))) (db_positions D1)\<rparr>"
    unfolding nx using assms by (simp_all only: prod.inject)
  moreover have "?read = fst (stream_page R (\<lambda>_. True) n p (db_log D))" by (simp add: stream_page_def Let_def r)
  ultimately show thesis by (intro that(2)[OF Some i])
qed

lemma page_read_mem: "r \<in> set (page_read R K n D) \<Longrightarrow> r \<in> set (committed (db_log D)) \<and> er_realmId r = R"
  by (auto simp: page_read_def rows_after_mem wanted_def dest!: in_set_takeD split: option.splits)

lemma new_delivery_ok:
  "r \<in> set (committed L) \<Longrightarrow> er_realmId r = R \<Longrightarrow> row_checks (new_delivery i R now d r) \<and> linked L (new_delivery i R now d r)"
  by (auto simp: row_checks_def linked_def new_delivery_def delivery_pos_def row_pos_def status_code_ok_def)

lemma page_ok:
  assumes ok: "db_ok C D" and f: "fanOutPage True R K ds n now bf D = (out, D')"
  shows "db_ok C D' \<and> db_log D' = db_log D \<and> db_nextId D \<le> db_nextId D'
    \<and> (\<exists>new. db_deliveries D' = db_deliveries D @ new \<and> (\<forall>x \<in> set new. db_nextId D \<le> dl_id x))"
  using f
proof (cases rule: fanOutPage_cases)
  case 1
  have "(R, K) \<notin> fst ` set (db_positions D)" using 1(1) by (simp add: stream_position_def map_of_eq_None_iff)
  then show ?thesis using ok 1(3) by (simp add: db_ok_def keys_ok_def rows_ok_def unique_on_def)
next
  case (2 p m D1 full)
  note ins = insert_deliveries_result[OF 2(2)]
  obtain new where new: "db_deliveries D1 = db_deliveries D @ new"
    "\<forall>x \<in> set new. \<exists>i r d. (r, d) \<in> set (matching_pairs ds (page_read R K n D)) \<and> db_nextId D \<le> i \<and> i < db_nextId D1 \<and> x = new_delivery i R now d r"
    using conjunct1[OF ins] by (elim exE conjE)
  have log: "db_log D1 = db_log D" and le: "db_nextId D \<le> db_nextId D1" using ins by simp_all
  have fresh: "row_checks x \<and> linked (db_log D) x \<and> db_nextId D \<le> dl_id x \<and> dl_id x < db_nextId D1" if x: "x \<in> set new" for x
  proof -
    obtain i r d where i: "(r, d) \<in> set (matching_pairs ds (page_read R K n D))" "db_nextId D \<le> i" "i < db_nextId D1" "x = new_delivery i R now d r"
      using new(2) x by blast
    have "r \<in> set (committed (db_log D)) \<and> er_realmId r = R" using i(1) page_read_mem[of r R K n D] by (simp add: matching_pairs_mem)
    then show ?thesis using new_delivery_ok[of r "db_log D" R i now d] i(2,3,4) by (simp add: new_delivery_def)
  qed
  have r1: "row_checks x \<and> linked (db_log D1) x \<and> dl_id x < db_nextId D1" if x: "x \<in> set (db_deliveries D1)" for x
  proof (cases "x \<in> set new")
    case False
    then have "x \<in> set (db_deliveries D)" using x new(1) by simp
    then show ?thesis using db_okD(4)[OF ok] le log by (auto simp: rows_ok_def)
  qed (use fresh log in simp)
  have "keys_ok D1" using ins db_okD(3,4)[OF ok] by (simp add: rows_ok_def)
  then have "keys_ok D'" using 2(5) by (simp add: keys_ok_def unique_on_def distinct_update)
  moreover have "rows_ok D'" using r1 2(5) by (simp add: rows_ok_def)
  ultimately show ?thesis using ok 2(5) log le new(1) fresh by (simp add: db_ok_def)
qed

lemma record_row_same: "same_row x (record_row outcome now x)"
  by (cases outcome) (simp_all add: same_row_def delivery_key_def delivery_pos_def)

lemma release_row_same: "same_row x (release_row now x)"
  by (simp add: same_row_def delivery_key_def delivery_pos_def release_row_def)

lemma claim_row_same: "same_row x (claim_row now le m x)"
  by (simp add: same_row_def delivery_key_def delivery_pos_def claim_row_def)

lemma record_row_checks: "checkOutcome outcome \<Longrightarrow> claimed (i, a) x \<Longrightarrow> 1 \<le> a \<Longrightarrow> row_checks x \<Longrightarrow> row_checks (record_row outcome now x)"
  by (cases outcome) (auto simp: row_checks_def claimed_def)

lemma claim_row_checks: "row_checks x \<Longrightarrow> row_checks (claim_row now le m x)"
  by (auto simp: row_checks_def claim_row_def)

subsection \<open>Every step keeps the tickets\<close>

lemma owner_row:
  assumes f: "fenced W" and k: "keys_ok (wd_db W)" and o: "wd_owner W i = Some t" and x: "x \<in> set (db_deliveries (wd_db W))" "dl_id x = i"
  shows "\<exists>a. (t, i, a) \<in> set (wd_claims W) \<and> claimed (i, a) x"
proof -
  obtain a y where y: "(t, i, a) \<in> set (wd_claims W)" "y \<in> set (db_deliveries (wd_db W))" "claimed (i, a) y" using fencedD(3)[OF f o] by (elim exE conjE)
  have "y = x" by (rule same_id[OF k y(2) x(1)]) (use y(3) x(2) in \<open>simp add: claimed_def\<close>)
  then show ?thesis using y by blast
qed

lemma stores_fenced:
  assumes f: "fenced W" and k: "keys_ok (wd_db W)" and D: "D = cascade L (wd_db W)"
  shows "fence (wd_claims W) (drop_owner D (wd_owner W)) (wd_tickets W) D"
proof (rule fencedI)
  have sub: "x \<in> set (db_deliveries (wd_db W))" if "x \<in> set (db_deliveries D)" for x using that by (simp add: D cascade_def)
  show "distinct (map fst (wd_claims W))" by (rule fencedD(1)[OF f])
  show "1 \<le> a \<and> t < wd_tickets W \<and> i < db_nextId D" if "(t, i, a) \<in> set (wd_claims W)" for t i a
    using fencedD(2)[OF f that] by (simp add: D cascade_def)
  show "\<exists>a x. (t, i, a) \<in> set (wd_claims W) \<and> x \<in> set (db_deliveries D) \<and> claimed (i, a) x" if o: "drop_owner D (wd_owner W) i = Some t" for i t
  proof -
    obtain x where x: "x \<in> set (db_deliveries D)" "dl_id x = i" "wd_owner W i = Some t" using o by (auto simp: drop_owner_def split: if_splits)
    then show ?thesis using owner_row[OF f k x(3) sub[OF x(1)] x(2)] by blast
  qed
  show "a \<le> dl_attemptCount x \<and> (dl_lockedUntil x \<noteq> None \<longrightarrow> a < dl_attemptCount x)"
    if c: "(t, i, a) \<in> set (wd_claims W)" "x \<in> set (db_deliveries D)" "dl_id x = i" "dl_status x = Pending" "drop_owner D (wd_owner W) i \<noteq> Some t" for t i a x
  proof -
    have "wd_owner W i \<noteq> Some t" using c(2-5) by (auto simp: drop_owner_def)
    then show ?thesis using fencedD(4)[OF f c(1) sub[OF c(2)] c(3,4)] by blast
  qed
qed

lemma pages_fenced:
  assumes f: "fenced W" and new: "db_deliveries D = db_deliveries (wd_db W) @ new" "\<forall>x \<in> set new. db_nextId (wd_db W) \<le> dl_id x" "db_nextId (wd_db W) \<le> db_nextId D"
  shows "fence (wd_claims W) (wd_owner W) (wd_tickets W) D"
proof (rule fencedI)
  show "distinct (map fst (wd_claims W))" by (rule fencedD(1)[OF f])
  show "1 \<le> a \<and> t < wd_tickets W \<and> i < db_nextId D" if "(t, i, a) \<in> set (wd_claims W)" for t i a
    using fencedD(2)[OF f that] new(3) by simp
  show "\<exists>a x. (t, i, a) \<in> set (wd_claims W) \<and> x \<in> set (db_deliveries D) \<and> claimed (i, a) x" if o: "wd_owner W i = Some t" for i t
    using fencedD(3)[OF f o] new(1) by auto
  show "a \<le> dl_attemptCount x \<and> (dl_lockedUntil x \<noteq> None \<longrightarrow> a < dl_attemptCount x)"
    if c: "(t, i, a) \<in> set (wd_claims W)" "x \<in> set (db_deliveries D)" "dl_id x = i" "dl_status x = Pending" "wd_owner W i \<noteq> Some t" for t i a x
  proof -
    have "i < db_nextId (wd_db W)" using fencedD(2)[OF f c(1)] by simp
    then have "x \<notin> set new" using new(2) c(3) by force
    then have "x \<in> set (db_deliveries (wd_db W))" using c(2) new(1) by simp
    then show ?thesis using fencedD(4)[OF f c(1) _ c(3-5)] by blast
  qed
qed

text \<open>The rows a claim takes: pending, one attempt more unless the attempts are used up.\<close>

lemma due_rows_mem: "x \<in> set (due_rows held now D p) \<Longrightarrow> x \<in> set (db_deliveries D) \<and> dl_status x = Pending \<and> dl_nextAttemptAt x \<le> now"
  by (auto simp: due_rows_def select_where_def dest!: in_set_takeD)

lemma claim_result:
  assumes k: "keys_ok D" and c: "claim_deliveries held picks now leaseMs maxAttempts D = Inr (cs, D')"
  shows "\<exists>S. D' = D\<lparr>db_deliveries := snd (update_where (\<lambda>x. dl_id x \<in> S) (claim_row now (now + leaseMs) maxAttempts) (db_deliveries D))\<rparr>
    \<and> (\<forall>x. x \<in> set (db_deliveries D) \<longrightarrow> dl_id x \<in> S \<longrightarrow> dl_status x = Pending)
    \<and> map (\<lambda>c. (cl_id c, cl_attempt c)) cs = map (\<lambda>x. (dl_id x, dl_attemptCount x + 1)) (filter (\<lambda>x. dl_id x \<in> S \<and> dl_attemptCount x < maxAttempts) (db_deliveries D))"
proof -
  let ?asked = "filter (\<lambda>p. 0 < pk_limit p) picks" and ?f = "claim_row now (now + leaseMs) maxAttempts"
  let ?S = "dl_id ` set (concat (map (due_rows held now D) ?asked))"
  show ?thesis
  proof (cases "?asked = []")
    case True
    then have "cs = []" "D' = D" using c by (auto simp: claim_deliveries_def Let_def split: if_splits)
    then show ?thesis by (intro exI[of _ "{}"]) (simp add: update_where_def)
  next
    case False
    have r: "cs = map (claimed_of D) (filter (\<lambda>x. dl_status x = Pending \<and> dl_lockedUntil x \<noteq> None) (map ?f (filter (\<lambda>x. dl_id x \<in> ?S) (db_deliveries D))))"
      "D' = D\<lparr>db_deliveries := snd (update_where (\<lambda>x. dl_id x \<in> ?S) ?f (db_deliveries D))\<rparr>"
      using c False by (auto simp: claim_deliveries_def Let_def update_where_def simp del: set_concat set_map split: if_splits)
    have p: "dl_status x = Pending" if x: "x \<in> set (db_deliveries D)" "dl_id x \<in> ?S" for x
    proof -
      obtain y where y: "y \<in> set (concat (map (due_rows held now D) ?asked))" "dl_id y = dl_id x" using x(2) by (auto simp del: set_concat set_map)
      then have "y \<in> set (db_deliveries D)" "dl_status y = Pending" by (auto dest: due_rows_mem)
      then show ?thesis using same_id[OF k x(1)] y(2) by metis
    qed
    have "map (\<lambda>c. (cl_id c, cl_attempt c)) cs = map (\<lambda>x. (dl_id x, dl_attemptCount x + 1)) (filter (\<lambda>x. dl_attemptCount x < maxAttempts) (filter (\<lambda>x. dl_id x \<in> ?S) (db_deliveries D)))"
      unfolding r(1) filter_map map_map o_def
      by (rule map_cong[OF filter_cong[OF refl]]) (auto simp: claim_row_def claimed_of_def)
    then show ?thesis using r(2) p by (intro exI[of _ ?S] conjI allI impI) (simp_all add: conj_commute)
  qed
qed

lemma tickets_for_zip: "tickets_for t cs = zip [t..<t + length cs] (map (\<lambda>c. (cl_id c, cl_attempt c)) cs)"
  unfolding tickets_for_def by (rule nth_equalityI) (simp_all add: nth_enumerate_eq)

lemma tickets_for_map: "map snd (tickets_for t cs) = map (\<lambda>c. (cl_id c, cl_attempt c)) cs"
  by (simp add: tickets_for_zip)

lemma tickets_for_fst: "map fst (tickets_for t cs) = [t..<t + length cs]"
  by (simp add: tickets_for_zip)

lemma claims_fenced:
  assumes f: "fenced W" and ok: "db_ok C (wd_db W)" and c: "claim_deliveries held picks now leaseMs maxAttempts (wd_db W) = Inr (cs, D)"
  shows "fence (wd_claims W @ tickets_for (wd_tickets W) cs) (drop_owner D (wd_owner W) ++ map_of (map (\<lambda>(t, i, _). (i, t)) (tickets_for (wd_tickets W) cs)))
      (wd_tickets W + length cs) D"
proof -
  note k = db_okD(3)[OF ok]
  let ?T = "tickets_for (wd_tickets W) cs" and ?new = "map_of (map (\<lambda>(t, i, _). (i, t)) (tickets_for (wd_tickets W) cs))"
  obtain S where D: "D = (wd_db W)\<lparr>db_deliveries := snd (update_where (\<lambda>x. dl_id x \<in> S) (claim_row now (now + leaseMs) maxAttempts) (db_deliveries (wd_db W)))\<rparr>"
    and P: "\<forall>x. x \<in> set (db_deliveries (wd_db W)) \<longrightarrow> dl_id x \<in> S \<longrightarrow> dl_status x = Pending"
    and cs: "map (\<lambda>c. (cl_id c, cl_attempt c)) cs = map (\<lambda>x. (dl_id x, dl_attemptCount x + 1)) (filter (\<lambda>x. dl_id x \<in> S \<and> dl_attemptCount x < maxAttempts) (db_deliveries (wd_db W)))"
    using claim_result[OF k c] by (elim exE conjE)
  let ?took = "filter (\<lambda>x. dl_id x \<in> S \<and> dl_attemptCount x < maxAttempts) (db_deliveries (wd_db W))"
  have T: "map snd ?T = map (\<lambda>x. (dl_id x, dl_attemptCount x + 1)) ?took" using cs by (simp add: tickets_for_map)
  have Tmem: "\<exists>x. x \<in> set (db_deliveries (wd_db W)) \<and> dl_id x = i \<and> i \<in> S \<and> dl_attemptCount x < maxAttempts \<and> a = dl_attemptCount x + 1" if "(t, i, a) \<in> set ?T" for t i a
  proof -
    have "(i, a) \<in> set (map snd ?T)" using that by force
    then show ?thesis unfolding T by auto
  qed
  have Tid: "map (fst \<circ> snd) ?T = map dl_id ?took"
  proof -
    have "map fst (map snd ?T) = map fst (map (\<lambda>x. (dl_id x, dl_attemptCount x + 1)) ?took)" by (simp only: T)
    then show ?thesis by (simp add: comp_def)
  qed
  have dT: "distinct (map fst (map (\<lambda>(t, i, _). (i, t)) ?T))"
  proof -
    have "map fst (map (\<lambda>(t, i, _). (i, t)) ?T) = map (fst \<circ> snd) ?T" by (simp add: comp_def case_prod_beta)
    moreover have "distinct (map dl_id ?took)" using k by (simp add: keys_ok_def unique_on_def distinct_map_filter)
    ultimately show ?thesis using Tid by simp
  qed
  have new: "?new i = Some t \<longleftrightarrow> (\<exists>a. (t, i, a) \<in> set ?T)" for i t
    unfolding map_of_eq_Some_iff[OF dT] by force
  have tick: "wd_tickets W \<le> t \<and> t < wd_tickets W + length cs" if "(t, i, a) \<in> set ?T" for t i a
  proof -
    have "t \<in> set (map fst ?T)" using that by force
    then show ?thesis by (simp add: tickets_for_fst)
  qed
  have row: "\<exists>x. x \<in> set (db_deliveries (wd_db W)) \<and> y = (if dl_id x \<in> S then claim_row now (now + leaseMs) maxAttempts x else x) \<and> dl_id x = dl_id y"
    if "y \<in> set (db_deliveries D)" for y
    using that claim_row_same by (auto simp: D update_where_def same_row_def)
  have took: "\<exists>t. ?new (dl_id x) = Some t" if x: "x \<in> set (db_deliveries (wd_db W))" "dl_id x \<in> S" "dl_attemptCount x < maxAttempts" for x
  proof -
    have "(dl_id x, dl_attemptCount x + 1) \<in> set (map snd ?T)" unfolding T using x by (auto intro!: rev_image_eqI[of x])
    then obtain t where "(t, dl_id x, dl_attemptCount x + 1) \<in> set ?T" by auto
    then show ?thesis using new by blast
  qed
  show ?thesis
  proof (rule fencedI)
    show "distinct (map fst (wd_claims W @ ?T))"
    proof -
      have "t < wd_tickets W" if "t \<in> fst ` set (wd_claims W)" for t using that fencedD(2)[OF f] by fastforce
      then have "fst ` set (wd_claims W) \<inter> fst ` set ?T = {}" using tick by fastforce
      moreover have "distinct (map fst ?T)" by (simp add: tickets_for_fst)
      ultimately show ?thesis using fencedD(1)[OF f] by simp
    qed
    show "1 \<le> a \<and> t < wd_tickets W + length cs \<and> i < db_nextId D" if "(t, i, a) \<in> set (wd_claims W @ ?T)" for t i a
    proof (cases "(t, i, a) \<in> set ?T")
      case True
      obtain x where "x \<in> set (db_deliveries (wd_db W))" "dl_id x = i" "a = dl_attemptCount x + 1" using Tmem[OF True] by blast
      then show ?thesis using tick[OF True] db_okD(4)[OF ok] by (auto simp: rows_ok_def row_checks_def D)
    next
      case False
      then show ?thesis using that fencedD(2)[OF f, of t i a] by (simp add: D)
    qed
    show "\<exists>a x. (t, i, a) \<in> set (wd_claims W @ ?T) \<and> x \<in> set (db_deliveries D) \<and> claimed (i, a) x"
      if o: "(drop_owner D (wd_owner W) ++ ?new) i = Some t" for i t
    proof (cases "?new i")
      case (Some t')
      then have "t' = t" using o by simp
      then obtain a where a: "(t, i, a) \<in> set ?T" using Some new by blast
      obtain x where x: "x \<in> set (db_deliveries (wd_db W))" "dl_id x = i" "i \<in> S" "dl_attemptCount x < maxAttempts" "a = dl_attemptCount x + 1" using Tmem[OF a] by blast
      let ?y = "claim_row now (now + leaseMs) maxAttempts x"
      have "?y \<in> set (db_deliveries D)" using x(1-3) by (auto simp: D update_where_def intro!: rev_image_eqI[of x])
      moreover have "claimed (i, a) ?y" using x by (simp add: claimed_def claim_row_def)
      ultimately show ?thesis using a by auto
    next
      case None
      then have "drop_owner D (wd_owner W) i = Some t" using o by (simp add: map_add_def)
      then obtain y where y: "y \<in> set (db_deliveries D)" "dl_id y = i" "dl_status y = Pending" "wd_owner W i = Some t"
        by (auto simp: drop_owner_def split: if_splits)
      obtain x where x: "x \<in> set (db_deliveries (wd_db W))" "y = (if dl_id x \<in> S then claim_row now (now + leaseMs) maxAttempts x else x)" "dl_id x = i" using row[OF y(1)] unfolding y(2) by (elim exE conjE)
      have "dl_id x \<notin> S" using took[OF x(1)] None x(2,3) y(3) by (auto simp: claim_row_def split: if_splits)
      then have "y = x" using x(2) by simp
      then show ?thesis using owner_row[OF f k y(4) x(1) x(3)] y(1) by auto
    qed
    show "a \<le> dl_attemptCount y \<and> (dl_lockedUntil y \<noteq> None \<longrightarrow> a < dl_attemptCount y)"
      if h: "(t, i, a) \<in> set (wd_claims W @ ?T)" "y \<in> set (db_deliveries D)" "dl_id y = i" "dl_status y = Pending" "(drop_owner D (wd_owner W) ++ ?new) i \<noteq> Some t" for t i a y
    proof -
      have old: "(t, i, a) \<in> set (wd_claims W)" using h(1,5) new[of i t] by (auto simp: map_add_def)
      obtain x where x: "x \<in> set (db_deliveries (wd_db W))" "y = (if dl_id x \<in> S then claim_row now (now + leaseMs) maxAttempts x else x)" "dl_id x = i" using row[OF h(2)] unfolding h(3) by (elim exE conjE)
      show ?thesis
      proof (cases "i \<in> S")
        case True
        then have y: "y = claim_row now (now + leaseMs) maxAttempts x" using x(2,3) by simp
        then have "dl_attemptCount y = dl_attemptCount x + 1" using h(4) by (auto simp: claim_row_def split: if_splits)
        moreover have "a \<le> dl_attemptCount x"
        proof (cases "wd_owner W i = Some t")
          case True
          obtain b where b: "(t, i, b) \<in> set (wd_claims W)" "claimed (i, b) x" using owner_row[OF f k True x(1) x(3)] by blast
          have "b = a" using eq_key_imp_eq_value[OF fencedD(1)[OF f] b(1) old] by simp
          then show ?thesis using b(2) by (simp add: claimed_def)
        next
          case False
          have "dl_status x = Pending" using P x(1,3) \<open>i \<in> S\<close> by simp
          then show ?thesis using fencedD(4)[OF f old x(1) x(3) _ False] by blast
        qed
        ultimately show ?thesis by simp
      next
        case False
        then have "y = x" using x(2,3) by simp
        have "?new i = None"
        proof (rule ccontr)
          assume "?new i \<noteq> None"
          then obtain t' b where "(t', i, b) \<in> set ?T" using new by fastforce
          then show False using Tmem False by blast
        qed
        then have "drop_owner D (wd_owner W) i \<noteq> Some t" using h(5) by (simp add: map_add_def)
        then have "wd_owner W i \<noteq> Some t" using h(2-4) by (auto simp: drop_owner_def)
        then show ?thesis using fencedD(4)[OF f old x(1) x(3)] h(4) \<open>y = x\<close> by blast
      qed
    qed
  qed
qed

text \<open>An outcome is taken from the claim whose ticket holds the row, and from no other.\<close>

lemma record_result:
  assumes "record_outcome (i, a) outcome now D = Inr (ok, D')"
  shows "checkOutcome outcome" "ok \<longleftrightarrow> (\<exists>x. x \<in> set (db_deliveries D) \<and> claimed (i, a) x)"
    "D' = D\<lparr>db_deliveries := snd (update_where (claimed (i, a)) (record_row outcome now) (db_deliveries D))\<rparr>"
  using assms by (auto simp: record_outcome_def update_where_def filter_empty_conv split: if_splits)

lemma records_owner:
  assumes f: "fenced W" and c: "(t, i, a) \<in> set (wd_claims W)" and r: "record_outcome (i, a) outcome now (wd_db W) = Inr (ok, D)"
  shows "(ok \<longleftrightarrow> wd_owner W i = Some t) \<and> (\<not> ok \<longrightarrow> D = wd_db W)"
proof -
  have e: "ok \<longleftrightarrow> (\<exists>x. x \<in> set (db_deliveries (wd_db W)) \<and> claimed (i, a) x)" by (rule record_result(2)[OF r])
  then have "ok \<longleftrightarrow> wd_owner W i = Some t" using claimed_owner[OF f c] owner_claimed[OF f c] by metis
  moreover have "D = wd_db W" if "\<not> ok"
  proof -
    have "filter (claimed (i, a)) (db_deliveries (wd_db W)) = []" using e that by (auto simp: filter_empty_conv)
    then show ?thesis using record_result(3)[OF r] by (simp add: update_where_none)
  qed
  ultimately show ?thesis by blast
qed

text \<open>A row after an update that unlocks it: pending with a claim's attempt at most its count, or finished.\<close>

lemma unlock_fence:
  assumes f: "fenced W" and k: "keys_ok (wd_db W)" and cs: "set cs \<subseteq> set (wd_claims W)" and u: "\<And>x. x \<in> set (db_deliveries (wd_db W)) \<Longrightarrow> P x \<longleftrightarrow> (\<exists>c \<in> set cs. claimed (snd c) x)"
    and g: "\<And>x. same_row x (g x)" "\<And>x. dl_lockedUntil (g x) = None" "\<And>x. dl_status (g x) = Pending \<Longrightarrow> dl_attemptCount x - 1 \<le> dl_attemptCount (g x)"
    and D: "D = (wd_db W)\<lparr>db_deliveries := snd (update_where P g (db_deliveries (wd_db W)))\<rparr>"
    and own: "\<And>i. own i = (case wd_owner W i of None \<Rightarrow> None | Some t \<Rightarrow> if t \<in> fst ` set cs then None else Some t)"
  shows "fence (filter (\<lambda>c. fst c \<notin> fst ` set cs) (wd_claims W)) own (wd_tickets W) D"
proof (rule fencedI)
  let ?rows = "db_deliveries (wd_db W)"
  have row: "\<exists>x. x \<in> set ?rows \<and> y = (if P x then g x else x) \<and> dl_id x = dl_id y" if "y \<in> set (db_deliveries D)" for y
    using that g(1) by (auto simp: D update_where_def same_row_def)
  have held: "P x \<longleftrightarrow> (\<exists>t. wd_owner W (dl_id x) = Some t \<and> t \<in> fst ` set cs)" if x: "x \<in> set ?rows" for x
  proof
    assume "P x"
    then obtain t i a where c: "(t, i, a) \<in> set cs" "claimed (i, a) x" using u[OF x] by auto
    then have "wd_owner W i = Some t" using claimed_owner[OF f _ x] cs by blast
    then show "\<exists>t. wd_owner W (dl_id x) = Some t \<and> t \<in> fst ` set cs" using c by (force simp: claimed_def)
  next
    assume "\<exists>t. wd_owner W (dl_id x) = Some t \<and> t \<in> fst ` set cs"
    then obtain t i b where o: "wd_owner W (dl_id x) = Some t" "(t, i, b) \<in> set cs" by force
    obtain a where a: "(t, dl_id x, a) \<in> set (wd_claims W)" "claimed (dl_id x, a) x" using owner_row[OF f k o(1) x refl] by blast
    have "(dl_id x, a) = (i, b)" using eq_key_imp_eq_value[OF fencedD(1)[OF f] a(1)] o(2) cs by blast
    then show "P x" using u[OF x] o(2) a(2) by force
  qed
  show "distinct (map fst (filter (\<lambda>c. fst c \<notin> fst ` set cs) (wd_claims W)))" using fencedD(1)[OF f] by (simp add: distinct_map_filter)
  show "1 \<le> a \<and> t < wd_tickets W \<and> i < db_nextId D" if "(t, i, a) \<in> set (filter (\<lambda>c. fst c \<notin> fst ` set cs) (wd_claims W))" for t i a
    using that fencedD(2)[OF f, of t i a] by (simp add: D)
  show "\<exists>a x. (t, i, a) \<in> set (filter (\<lambda>c. fst c \<notin> fst ` set cs) (wd_claims W)) \<and> x \<in> set (db_deliveries D) \<and> claimed (i, a) x" if o: "own i = Some t" for i t
  proof -
    have o': "wd_owner W i = Some t" "t \<notin> fst ` set cs" using o by (auto simp: own split: option.splits if_splits)
    obtain a x where x: "(t, i, a) \<in> set (wd_claims W)" "x \<in> set ?rows" "claimed (i, a) x" using fencedD(3)[OF f o'(1)] by (elim exE conjE)
    have "dl_id x = i" using x(3) by (simp add: claimed_def)
    then have "\<not> P x" using held[OF x(2)] o' by simp
    then have "x \<in> set (db_deliveries D)" using x(2) by (force simp: D update_where_def)
    then show ?thesis using x o'(2) by auto
  qed
  show "a \<le> dl_attemptCount y \<and> (dl_lockedUntil y \<noteq> None \<longrightarrow> a < dl_attemptCount y)"
    if h: "(t, i, a) \<in> set (filter (\<lambda>c. fst c \<notin> fst ` set cs) (wd_claims W))" "y \<in> set (db_deliveries D)" "dl_id y = i" "dl_status y = Pending" "own i \<noteq> Some t" for t i a y
  proof -
    have c: "(t, i, a) \<in> set (wd_claims W)" "t \<notin> fst ` set cs" using h(1) by simp_all
    have o: "wd_owner W i \<noteq> Some t" using h(5) c(2) by (auto simp: own)
    obtain x where x: "x \<in> set ?rows" "y = (if P x then g x else x)" "dl_id x = i" using row[OF h(2)] unfolding h(3) by (elim exE conjE)
    show ?thesis
    proof (cases "P x")
      case True
      then obtain t' i' a' where "claimed (i', a') x" using u[OF x(1)] by auto
      then have "dl_status x = Pending" "dl_lockedUntil x \<noteq> None" by (simp_all add: claimed_def)
      then have "a < dl_attemptCount x" using fencedD(4)[OF f c(1) x(1) x(3) _ o] by blast
      moreover have "y = g x" using x(2) True by simp
      ultimately show ?thesis using g(2)[of x] g(3)[of x] h(4) by simp
    next
      case False
      then have "y = x" using x(2) by simp
      then show ?thesis using fencedD(4)[OF f c(1) x(1) x(3) _ o] h(4) by blast
    qed
  qed
qed

lemma release_result:
  assumes "release_claims cs now D = Inr (n, D')"
  shows "D' = D\<lparr>db_deliveries := snd (update_where (\<lambda>x. list_ex (\<lambda>c. claimed c x) cs) (release_row now) (db_deliveries D))\<rparr>"
  using assms by (auto simp: release_claims_def update_where_def split: if_splits)

lemma queue_step_ok:
  assumes "queue_step C G W e W'" and "db_ok C (wd_db W)" and "fenced W"
  shows "db_ok C (wd_db W') \<and> fenced W'"
  using assms
proof (induction rule: queue_step.induct)
  case (stores W L)
  show ?case using cascade_ok[OF stores.prems(1) stores(1)] stores_fenced[OF stores.prems(2) db_okD(3)[OF stores.prems(1)] refl] by (simp add: fenced_def)
next
  case (pages R K ds n now bf W out D)
  note p = page_ok[OF pages.prems(1) pages(1)]
  then obtain new where new: "db_deliveries D = db_deliveries (wd_db W) @ new" "\<forall>x \<in> set new. db_nextId (wd_db W) \<le> dl_id x" by blast
  show ?case using p pages_fenced[OF pages.prems(2) new] by (simp add: fenced_def)
next
  case (forgets W kinds pairs)
  have "db_ok C (forget_positions kinds pairs (wd_db W))"
    using forgets.prems(1) by (simp add: db_ok_def keys_ok_def rows_ok_def forget_positions_def sublist_unique)
  then show ?case using forgets.prems(2) by (simp add: fenced_def fence_def forget_positions_def)
next
  case (claims held picks now leaseMs maxAttempts W cs D)
  obtain S where "D = (wd_db W)\<lparr>db_deliveries := snd (update_where (\<lambda>x. dl_id x \<in> S) (claim_row now (now + leaseMs) maxAttempts) (db_deliveries (wd_db W)))\<rparr>"
    using claim_result[OF db_okD(3)[OF claims.prems(1)] claims(1)] by (elim exE conjE)
  then have "db_ok C D" using update_db_ok[OF claims.prems(1) claim_row_same] claim_row_checks by simp
  then show ?case using claims_fenced[OF claims.prems(2,1) claims(1)] by (simp add: fenced_def)
next
  case (records t i a W outcome now ok D)
  note r = record_result[OF records(2)]
  have one: "1 \<le> a" using fencedD(2)[OF records.prems(2) records(1)] by simp
  have "db_ok C D" unfolding r(3)
    by (rule update_db_ok[OF records.prems(1) record_row_same]) (use record_row_checks[OF r(1) _ one] in blast)
  moreover have "fence (filter (\<lambda>c. fst c \<notin> fst ` set [(t, i, a)]) (wd_claims W))
      (if wd_owner W i = Some t then (wd_owner W)(i := None) else wd_owner W) (wd_tickets W) D"
  proof (rule unlock_fence[OF records.prems(2) db_okD(3)[OF records.prems(1)] _ _ record_row_same _ _ r(3)])
    show "dl_lockedUntil (record_row outcome now x) = None" for x by (cases outcome) simp_all
    show "dl_attemptCount x - 1 \<le> dl_attemptCount (record_row outcome now x)" for x by (cases outcome) simp_all
    show "(if wd_owner W i = Some t then (wd_owner W)(i := None) else wd_owner W) j =
        (case wd_owner W j of None \<Rightarrow> None | Some t' \<Rightarrow> if t' \<in> fst ` set [(t, i, a)] then None else Some t')" for j
    proof (cases "wd_owner W j = Some t")
      case True
      obtain b where "(t, j, b) \<in> set (wd_claims W)" using fencedD(3)[OF records.prems(2) True] by blast
      then have "j = i" using eq_key_imp_eq_value[OF fencedD(1)[OF records.prems(2)] _ records(1)] by blast
      then show ?thesis using True by simp
    qed (auto split: option.splits)
  qed (use records(1) in simp_all)
  ultimately show ?case by (simp add: fenced_def)
next
  case (releases cs W now n D)
  note D = release_result[OF releases(2)]
  have "db_ok C D" unfolding D
    by (rule update_db_ok[OF releases.prems(1) release_row_same]) (auto simp: row_checks_def release_row_def)
  moreover have "fence (filter (\<lambda>c. fst c \<notin> fst ` set cs) (wd_claims W))
      (\<lambda>i. case wd_owner W i of None \<Rightarrow> None | Some t \<Rightarrow> if t \<in> fst ` set cs then None else Some t) (wd_tickets W) D"
    by (rule unlock_fence[OF releases.prems(2) db_okD(3)[OF releases.prems(1)] releases(1) _ release_row_same _ _ D])
      (auto simp: release_row_def list_ex_iff)
  ultimately show ?case by (simp add: fenced_def)
qed

lemma empty_world_ok: "empty_world W \<Longrightarrow> db_ok C (wd_db W) \<and> fenced W"
  using empty_log_ok by (simp add: empty_world_def db_ok_def keys_ok_def rows_ok_def unique_on_def fenced_def fence_def empty_log_def)

lemma queue_run_ok: "queue_run C G W es W' \<Longrightarrow> db_ok C (wd_db W) \<Longrightarrow> fenced W \<Longrightarrow> db_ok C (wd_db W') \<and> fenced W'"
proof (induction rule: queue_run.induct)
  case (run_step W es W1 e W2)
  then show ?case using queue_step_ok by blast
qed simp

subsection \<open>What a stream has fanned out\<close>

text \<open>The rows the pages of a stream have read, each with the destinations its page wrote for.\<close>

definition page_of :: "string \<Rightarrow> string \<Rightarrow> queue_event \<Rightarrow> (event_row \<times> destination list) list" where
  "page_of R K e = (case e of Paged R' K' ds read bf \<Rightarrow> if R' = R \<and> K' = K then map (\<lambda>r. (r, ds)) read else [] | _ \<Rightarrow> [])"

definition stream_reads :: "string \<Rightarrow> string \<Rightarrow> queue_event list \<Rightarrow> (event_row \<times> destination list) list" where
  "stream_reads R K es = concat (map (page_of R K) es)"

definition keeps_stream :: "string \<Rightarrow> string \<Rightarrow> queue_event \<Rightarrow> bool" where
  "keeps_stream R K e \<longleftrightarrow> (case e of Forgot kinds pairs \<Rightarrow> K \<notin> set kinds \<or> (R, K) \<in> set pairs | _ \<Rightarrow> True)"

definition written :: "event_row \<times> destination list \<Rightarrow> delivery_db \<Rightarrow> bool" where
  "written rd D \<longleftrightarrow> fst rd \<in> set (lg_rows (db_log D)) \<longrightarrow>
     (\<forall>d \<in> set (snd rd). matches d (fst rd) \<longrightarrow> (er_id (fst rd), de_kind d, de_id d) \<in> delivery_key ` set (db_deliveries D))"

definition fanned :: "string \<Rightarrow> string \<Rightarrow> pos \<Rightarrow> queue_event list \<Rightarrow> delivery_db \<Rightarrow> bool" where
  "fanned R K start es D \<longleftrightarrow> (\<exists>p. stream_position D R K = Some p
     \<and> covered (wanted R (\<lambda>_. True)) start p (map fst (stream_reads R K es)) (db_log D) \<and> (\<forall>rd \<in> set (stream_reads R K es). written rd D))"

lemma fanned_same:
  assumes "fanned R K start es D" and "page_of R K e = []" and "stream_position D' R K = stream_position D R K" and "db_log D' = db_log D"
    and "delivery_key ` set (db_deliveries D) \<subseteq> delivery_key ` set (db_deliveries D')"
  shows "fanned R K start (es @ [e]) D'"
proof -
  have "stream_reads R K (es @ [e]) = stream_reads R K es" using assms(2) by (simp add: stream_reads_def)
  moreover have "written rd D \<Longrightarrow> written rd D'" for rd using assms(4,5) by (auto simp: written_def)
  ultimately show ?thesis using assms(1,3,4) unfolding fanned_def by auto
qed

lemma keys_update:
  assumes "\<And>x. same_row x (g x)"
  shows "delivery_key ` set (snd (update_where P g t)) = delivery_key ` set t"
proof -
  have "map delivery_key (snd (update_where P g t)) = map delivery_key t" using assms by (simp add: update_where_def same_row_def)
  then show ?thesis by (metis list.set_map)
qed

lemma map_of_filter_keeps: "(\<And>v. P (k, v)) \<Longrightarrow> map_of (filter P xs) k = map_of xs k"
  by (induction xs) auto

lemma stores_fanned:
  assumes ok: "db_ok C D" and s: "log_step C G (db_log D) L" and f: "fanned R K start es D"
  shows "fanned R K start (es @ [Stored]) (cascade L D)"
proof -
  let ?L = "db_log D"
  obtain p where p: "stream_position D R K = Some p" "covered (wanted R (\<lambda>_. True)) start p (map fst (stream_reads R K es)) ?L"
    "\<forall>rd \<in> set (stream_reads R K es). written rd D" using f unfolding fanned_def by (elim exE conjE)
  note n = log_okD(1)[OF db_okD(1)[OF ok]] and n' = log_okD(1)[OF log_step_ok[OF s db_okD(1)[OF ok]]]
  have "written rd (cascade L D)" if rd: "rd \<in> set (stream_reads R K es)" for rd
  proof (cases "fst rd \<in> set (lg_rows L)")
    case True
    have c: "start < row_pos (fst rd)" "row_pos (fst rd) \<le> p" using coveredD(5)[OF p(2), of "fst rd"] rd by auto
    then have "p \<le> (horizon ?L, 0)" using coveredD(2)[OF p(2)] by auto
    moreover have "0 < er_seq (fst rd)" using n' True by (simp add: numbers_ok_def)
    ultimately have lt: "er_xid (fst rd) < horizon ?L" using c(2) by (auto simp: row_pos_def less_eq_prod_def)
    then have "fst rd \<in> set (committed L)" using final_below_horizon[OF s n] True below_horizon_committed by fastforce
    then have "fst rd \<in> set (committed ?L)" using final_below_horizon[OF s n] lt by blast
    then have "fst rd \<in> set (lg_rows ?L)" by (simp add: committed_def)
    then have "\<forall>d \<in> set (snd rd). matches d (fst rd) \<longrightarrow> (er_id (fst rd), de_kind d, de_id d) \<in> delivery_key ` set (db_deliveries D)"
      using p(3) rd unfolding written_def by blast
    then show ?thesis using True by (force simp: written_def cascade_def delivery_key_def)
  qed (simp add: written_def cascade_def)
  moreover have "covered (wanted R (\<lambda>_. True)) start p (map fst (stream_reads R K es)) L" by (rule covered_log_step[OF s n n' p(2)])
  ultimately show ?thesis using p(1) by (auto simp: fanned_def stream_reads_def page_of_def stream_position_def cascade_def)
qed

lemma pages_fanned:
  assumes ok: "db_ok C D" and pg: "fanOutPage True R' K' ds n now bf D = (out, D')" and n: "0 < n" and f: "fanned R K start es D"
  shows "fanned R K start (es @ [Paged R' K' ds (page_read R' K' n D) bf']) D'"
proof (cases "(R', K') = (R, K)")
  case False
  have "stream_position D' R K = stream_position D R K \<and> delivery_key ` set (db_deliveries D) \<subseteq> delivery_key ` set (db_deliveries D')"
    using pg
  proof (cases rule: fanOutPage_cases)
    case 1
    then show ?thesis using False by (auto simp: stream_position_def)
  next
    case (2 p m D1 full)
    have "db_positions D1 = db_positions D" "\<exists>new. db_deliveries D1 = db_deliveries D @ new" using insert_deliveries_result[OF 2(2)] by blast+
    then show ?thesis using 2(5) False by (auto simp: stream_position_def update_conv')
  qed
  then show ?thesis by (intro fanned_same[OF f]) (use False page_ok[OF ok pg] in \<open>auto simp: page_of_def\<close>)
next
  case same: True
  obtain p where p: "stream_position D R K = Some p" "covered (wanted R (\<lambda>_. True)) start p (map fst (stream_reads R K es)) (db_log D)"
    "\<forall>rd \<in> set (stream_reads R K es). written rd D" using f unfolding fanned_def by (elim exE conjE)
  let ?read = "page_read R K n D"
  have reads: "stream_reads R K (es @ [Paged R' K' ds (page_read R' K' n D) bf']) = stream_reads R K es @ map (\<lambda>r. (r, ds)) ?read"
    using same by (simp add: stream_reads_def page_of_def)
  have pg': "fanOutPage True R K ds n now bf D = (out, D')" using pg same by simp
  from pg' show ?thesis
  proof (cases rule: fanOutPage_cases)
    case 1
    then show ?thesis using p(1) by simp
  next
    case (2 q m D1 full)
    have q: "q = p" using 2(1) p(1) by simp
    note ins = insert_deliveries_result[OF 2(2)]
    have log: "db_log D' = db_log D" using ins 2(5) by simp
    have keys: "(er_id r, de_kind d, de_id d) \<in> delivery_key ` set (db_deliveries D')" if "r \<in> set ?read" "d \<in> set ds" "matches d r" for r d
      using ins that 2(5) by (simp add: matching_pairs_mem)
    obtain new where "db_deliveries D1 = db_deliveries D @ new" using ins by blast
    then have old: "delivery_key ` set (db_deliveries D) \<subseteq> delivery_key ` set (db_deliveries D')" using 2(5) by auto
    have "written rd D'" if rd: "rd \<in> set (stream_reads R K es @ map (\<lambda>r. (r, ds)) ?read)" for rd
    proof (cases "rd \<in> set (stream_reads R K es)")
      case True
      then show ?thesis using p(3) old log unfolding written_def by (simp add: subset_iff)
    next
      case False
      then obtain r where "r \<in> set ?read" "rd = (r, ds)" using rd by auto
      then show ?thesis using keys by (simp add: written_def)
    qed
    moreover have "covered (wanted R (\<lambda>_. True)) start (snd (stream_page R (\<lambda>_. True) n p (db_log D))) (map fst (stream_reads R K es) @ ?read) (db_log D)"
      unfolding 2(4) q by (rule realm_page.covered_page[OF log_okD(1)[OF db_okD(1)[OF ok]] n p(2)])
    moreover have "stream_position D' R K = Some (snd (stream_page R (\<lambda>_. True) n p (db_log D)))"
      using 2(5) q by (simp add: stream_position_def update_conv')
    ultimately show ?thesis unfolding fanned_def reads by (simp add: log comp_def)
  qed
qed

lemma fanned_step:
  assumes "queue_step C G W e W'" and "db_ok C (wd_db W)" and "keeps_stream R K e" and "fanned R K start es (wd_db W)"
  shows "fanned R K start (es @ [e]) (wd_db W')"
  using assms
proof (induction rule: queue_step.induct)
  case (stores W L)
  then show ?case using stores_fanned[OF stores.prems(1) stores(1) stores.prems(3)] by simp
next
  case (pages R' K' ds n now bf W out D)
  then show ?case using pages_fanned[OF pages.prems(1) pages(1,2) pages.prems(3)] by simp
next
  case (forgets W kinds pairs)
  have "stream_position (forget_positions kinds pairs (wd_db W)) R K = stream_position (wd_db W) R K"
    unfolding stream_position_def forget_positions_def delivery_db.simps
    by (simp, rule map_of_filter_keeps) (use forgets.prems(2) in \<open>auto simp: keeps_stream_def\<close>)
  then show ?case using fanned_same[OF forgets.prems(3)] by (simp add: page_of_def forget_positions_def)
next
  case (claims held picks now leaseMs maxAttempts W cs D)
  obtain S where "D = (wd_db W)\<lparr>db_deliveries := snd (update_where (\<lambda>x. dl_id x \<in> S) (claim_row now (now + leaseMs) maxAttempts) (db_deliveries (wd_db W)))\<rparr>"
    using claim_result[OF db_okD(3)[OF claims.prems(1)] claims(1)] by (elim exE conjE)
  then show ?case using fanned_same[OF claims.prems(3)] by (simp add: page_of_def stream_position_def keys_update[OF claim_row_same])
next
  case (records t i a W outcome now ok D)
  then show ?case using fanned_same[OF records.prems(3)]
    by (simp add: page_of_def stream_position_def record_result(3)[OF records(2)] keys_update[OF record_row_same])
next
  case (releases cs W now n D)
  then show ?case using fanned_same[OF releases.prems(3)]
    by (simp add: page_of_def stream_position_def release_result[OF releases(2)] keys_update[OF release_row_same])
qed

lemma fanned_run:
  assumes "queue_run C G W es W'" and "db_ok C (wd_db W)" "fenced W" and "\<forall>e \<in> set es. keeps_stream R K e" and "stream_position (wd_db W) R K = Some start"
  shows "fanned R K start es (wd_db W')"
  using assms
proof (induction rule: queue_run.induct)
  case (run_nil W)
  then show ?case by (simp add: fanned_def stream_reads_def covered_start)
next
  case (run_step W es W1 e W2)
  then show ?case using fanned_step queue_run_ok[OF run_step(1)] by simp
qed

text \<open>A stream that starts, an event, the page that fans it out, and a claim of its delivery.\<close>

definition demo_dest :: destination where
  "demo_dest = \<lparr>de_kind = ''webhook'', de_id = ''d1'', de_realmId = demo_realm, de_types = None, de_categories = None, de_subjects = None, de_typeRules = None\<rparr>"

definition demo_db :: "event_log \<Rightarrow> pos option \<Rightarrow> delivery list \<Rightarrow> delivery_db" where
  "demo_db L p xs = \<lparr>db_log = L, db_deliveries = xs, db_positions = (case p of None \<Rightarrow> [] | Some q \<Rightarrow> [((demo_realm, ''webhook''), q)]), db_nextId = length xs\<rparr>"

definition demo_world :: "delivery_db \<Rightarrow> world" where
  "demo_world D = \<lparr>wd_db = D, wd_claims = [], wd_owner = Map.empty, wd_tickets = 0\<rparr>"

definition demo_delivery :: delivery where
  "demo_delivery = new_delivery 0 demo_realm 3 demo_dest (demo_row 5)"

lemma demo_row_facts: "row_pos (demo_row 5) = (1, 5)" "er_realmId (demo_row 5) = demo_realm" "er_xid (demo_row 5) = 1" "er_seq (demo_row 5) = 5" "er_id (demo_row 5) = ''e1''"
    "er_schemaVersion (demo_row 5) = EVENT_ROW_SCHEMA_VERSION"
  by (simp_all add: row_pos_def demo_row_def row_of_envelope_def demo_env_def)

lemma demo_log_facts: "horizon (demo_start 5) = 1" "horizon (demo_end 5) = 2" "committed (demo_end 5) = [demo_row 5]" "lg_rows (demo_end 5) = [demo_row 5]"
  by (simp_all add: demo_end_eq demo_start_def horizon_def committed_def)

lemma stored_run:
  assumes "(log_step C G)\<^sup>*\<^sup>* L L'"
  shows "\<exists>es. queue_run C G (demo_world (demo_db L p [])) es (demo_world (demo_db L' p [])) \<and> set es \<subseteq> {Stored}"
  using assms
proof (induction rule: rtranclp_induct)
  case base
  show ?case by (intro exI[of _ "[]"]) (simp add: run_nil)
next
  case (step L1 L2)
  obtain es where es: "queue_run C G (demo_world (demo_db L p [])) es (demo_world (demo_db L1 p []))" "set es \<subseteq> {Stored}" using step.IH by blast
  have "queue_step C G (demo_world (demo_db L1 p [])) Stored (demo_world (demo_db L2 p []))"
    using stores[of C G "demo_world (demo_db L1 p [])" L2] step(2) by (simp add: demo_world_def demo_db_def cascade_def drop_owner_def)
  then have "queue_run C G (demo_world (demo_db L p [])) (es @ [Stored]) (demo_world (demo_db L2 p []))" by (rule run_step[OF es(1)])
  then show ?case using es(2) by (intro exI[of _ "es @ [Stored]"]) simp
qed

lemma demo_started:
  "queue_step demo_chain demo_registry (demo_world (demo_db (demo_start 5) None [])) (Paged demo_realm ''webhook'' [demo_dest] [] None)
     (demo_world (demo_db (demo_start 5) (Some (1, 0)) []))"
  using pages[of demo_realm "''webhook''" "[demo_dest]" 10 3 None "demo_world (demo_db (demo_start 5) None [])"]
  by (simp add: demo_world_def demo_db_def fanOutPage_def stream_position_def start_position_def page_read_def demo_log_facts demo_dest_def)

lemma demo_rows_after: "rows_after demo_realm (1, 0) (\<lambda>_. True) (demo_end 5) = [demo_row 5]"
  by (simp add: rows_after_def demo_row_facts demo_log_facts del: One_nat_def)

lemma demo_matches: "matches demo_dest r"
  by (simp add: matches_def demo_dest_def Let_def)

lemma demo_kind: "de_kind demo_dest = ''webhook''"
  by (simp add: demo_dest_def)

lemma demo_paged:
  "queue_step demo_chain demo_registry (demo_world (demo_db (demo_end 5) (Some (1, 0)) [])) (Paged demo_realm ''webhook'' [demo_dest] [demo_row 5] None)
     (demo_world (demo_db (demo_end 5) (Some (2, 0)) [demo_delivery]))"
  using pages[of demo_realm "''webhook''" "[demo_dest]" 10 3 None "demo_world (demo_db (demo_end 5) (Some (1, 0)) [])"]
  by (simp add: demo_world_def demo_db_def fanOutPage_def stream_position_def page_read_def demo_log_facts demo_rows_after
      matching_pairs_def demo_matches demo_delivery_def demo_kind del: One_nat_def)

lemma demo_fan_out:
  obtains es where "queue_run demo_chain demo_registry (demo_world (demo_db (demo_start 5) (Some (1, 0)) [])) (es @ [Paged demo_realm ''webhook'' [demo_dest] [demo_row 5] None])
      (demo_world (demo_db (demo_end 5) (Some (2, 0)) [demo_delivery]))" "set es \<subseteq> {Stored}"
  using stored_run[OF demo_run, where p = "Some (1, 0)"] run_step[OF _ demo_paged] by blast

lemma demo_empty_world: "empty_world (demo_world (demo_db (demo_start 5) None []))"
  using demo_empty by (simp add: empty_world_def demo_world_def demo_db_def)

lemma demo_run_start: "queue_run demo_chain demo_registry (demo_world (demo_db (demo_start 5) None [])) [Paged demo_realm ''webhook'' [demo_dest] [] None]
    (demo_world (demo_db (demo_start 5) (Some (1, 0)) []))"
  using run_step[OF run_nil demo_started] by simp

lemma queue_run_append: "queue_run C G W es W1 \<Longrightarrow> queue_run C G W1 es' W2 \<Longrightarrow> queue_run C G W (es @ es') W2"
proof (rotate_tac, induction rule: queue_run.induct)
  case (run_step W1 es' W2 e W3)
  then show ?case using queue_run.run_step[of C G W "es @ es'"] by simp
qed simp

definition demo_claim :: "world \<Rightarrow> world \<Rightarrow> bool" where
  "demo_claim W W' \<longleftrightarrow> (\<exists>cs. queue_step demo_chain demo_registry W (ClaimsTaken cs) W') \<and> wd_claims W' = [(0, 0, 1)] \<and> wd_owner W' 0 = Some 0
     \<and> db_deliveries (wd_db W') = [claim_row 5 65 3 demo_delivery]"

lemma demo_claims: "\<exists>W. demo_claim (demo_world (demo_db (demo_end 5) (Some (2, 0)) [demo_delivery])) W"
proof -
  let ?D = "demo_db (demo_end 5) (Some (2, 0)) [demo_delivery]" and ?p = "\<lparr>pk_kind = ''webhook'', pk_id = ''d1'', pk_limit = 2\<rparr>"
  let ?y = "claim_row 5 65 3 demo_delivery"
  have e: "event_of ?D demo_delivery = Some (demo_row 5)"
    by (simp add: event_of_def demo_db_def demo_log_facts limit1_def select_where_def demo_row_facts demo_delivery_def new_delivery_def)
  have f: "dl_destinationKind demo_delivery = ''webhook''" "dl_destinationId demo_delivery = ''d1''" "dl_status demo_delivery = Pending" "dl_nextAttemptAt demo_delivery = 3"
    "dl_id demo_delivery = 0" "dl_attemptCount demo_delivery = 0" by (simp_all add: demo_delivery_def new_delivery_def demo_dest_def)
  have d: "due_rows {} 5 ?D ?p = [demo_delivery]"
    using e by (simp add: due_rows_def select_where_def f demo_row_facts) (simp add: demo_db_def f demo_row_facts)
  have y: "dl_status ?y = Pending" "dl_lockedUntil ?y = Some 65" "dl_id ?y = 0" "dl_attemptCount ?y = 1" by (simp_all add: claim_row_def f)
  have c: "claim_deliveries {} [?p] 5 60 3 ?D = Inr ([claimed_of ?D ?y], ?D\<lparr>db_deliveries := [?y]\<rparr>)"
    by (simp add: claim_deliveries_def checkTime_def checkCount_def isSafeInteger_def MAX_SAFE_INTEGER_def checkKind_def KIND_MAX_LENGTH_def d f y update_where_def)
      (simp add: demo_db_def update_where_def f y)
  have t: "tickets_for 0 [claimed_of ?D ?y] = [(0, 0, 1)]" by (simp add: tickets_for_zip claimed_of_def y)
  show ?thesis using claims[of "{}" "[?p]" 5 60 3 "demo_world ?D" "[claimed_of ?D ?y]" "?D\<lparr>db_deliveries := [?y]\<rparr>" demo_chain demo_registry] c t
    unfolding demo_claim_def by (intro exI conjI) (auto simp: demo_world_def drop_owner_def)
qed

text \<open>
  C6. The fan-out misses nothing: however transactions commit late, pages of any size interleave with
  claims, outcomes, retention and other streams, and nodes list other destinations from page to page: every
  committed event of the realm between a stream's start and its position was read by exactly one page of
  the stream, and has a delivery for each destination of that page whose filters take it.
\<close>

theorem fan_out_misses_nothing:
  assumes "empty_world W0" "queue_run C G W0 es0 W" "queue_run C G W es W'"
    and "stream_position (wd_db W) R K = Some start" and "\<forall>e \<in> set es. keeps_stream R K e"
  shows "\<exists>p. stream_position (wd_db W') R K = Some p \<and> start \<le> p \<and> distinct (map fst (stream_reads R K es))
    \<and> (\<forall>r. r \<in> set (committed (db_log (wd_db W'))) \<and> er_realmId r = R \<and> start < row_pos r \<and> row_pos r \<le> p \<longrightarrow>
        (\<exists>ds. (r, ds) \<in> set (stream_reads R K es) \<and> (\<forall>d \<in> set ds. matches d r \<longrightarrow>
            (\<exists>x \<in> set (db_deliveries (wd_db W')). dl_eventId x = er_id r \<and> dl_destinationKind x = de_kind d \<and> dl_destinationId x = de_id d))))"
proof -
  have ok: "db_ok C (wd_db W) \<and> fenced W" using queue_run_ok[OF assms(2)] empty_world_ok[OF assms(1)] by blast
  obtain p where p: "stream_position (wd_db W') R K = Some p"
    "covered (wanted R (\<lambda>_. True)) start p (map fst (stream_reads R K es)) (db_log (wd_db W'))" "\<forall>rd \<in> set (stream_reads R K es). written rd (wd_db W')"
    using fanned_run[OF assms(3) _ _ assms(5,4)] ok unfolding fanned_def by blast
  note c = coveredD[OF p(2)]
  have "distinct (map row_pos (map fst (stream_reads R K es)))"
    using c(4) strict_sorted_iff[of "map row_pos (map fst (stream_reads R K es))"] by (simp add: sorted_wrt_map)
  then have d: "distinct (map fst (stream_reads R K es))" by (metis distinct_map)
  have "\<exists>ds. (r, ds) \<in> set (stream_reads R K es) \<and> (\<forall>d \<in> set ds. matches d r \<longrightarrow>
      (\<exists>x \<in> set (db_deliveries (wd_db W')). dl_eventId x = er_id r \<and> dl_destinationKind x = de_kind d \<and> dl_destinationId x = de_id d))"
    if r: "r \<in> set (committed (db_log (wd_db W')))" "er_realmId r = R" "start < row_pos r" "row_pos r \<le> p" for r
  proof -
    have "r \<in> set (map fst (stream_reads R K es))" using c(3)[OF r(1) _ r(3,4)] r(2) by (simp add: wanted_def)
    then obtain ds where ds: "(r, ds) \<in> set (stream_reads R K es)" by auto
    have "written (r, ds) (wd_db W')" using p(3) ds by blast
    then have "\<forall>d \<in> set ds. matches d r \<longrightarrow> (er_id r, de_kind d, de_id d) \<in> delivery_key ` set (db_deliveries (wd_db W'))"
      using r(1) by (simp add: written_def committed_def)
    then show ?thesis using ds by (fastforce simp: delivery_key_def)
  qed
  then show ?thesis using p(1) c(1) d by blast
qed

theorem fan_out_misses_nothing_witness:
  "\<exists>(W :: world) es. stream_position (wd_db W) demo_realm ''webhook'' = Some (2, 0) \<and> length (db_deliveries (wd_db W)) = 1
    \<and> demo_row 5 \<in> set (committed (db_log (wd_db W))) \<and> (\<exists>ds. (demo_row 5, ds) \<in> set (stream_reads demo_realm ''webhook'' es))"
proof -
  let ?W = "demo_world (demo_db (demo_end 5) (Some (2, 0)) [demo_delivery])"
  obtain es where es: "queue_run demo_chain demo_registry (demo_world (demo_db (demo_start 5) (Some (1, 0)) [])) (es @ [Paged demo_realm ''webhook'' [demo_dest] [demo_row 5] None]) ?W"
    "set es \<subseteq> {Stored}" by (rule demo_fan_out)
  have p: "stream_position (wd_db (demo_world (demo_db (demo_start 5) (Some (1, 0)) []))) demo_realm ''webhook'' = Some (1, 0)"
    "stream_position (wd_db ?W) demo_realm ''webhook'' = Some (2, 0)" by (simp_all add: demo_world_def demo_db_def stream_position_def)
  have k: "\<forall>e \<in> set (es @ [Paged demo_realm ''webhook'' [demo_dest] [demo_row 5] None]). keeps_stream demo_realm ''webhook'' e"
    using es(2) by (auto simp: keeps_stream_def)
  have c: "demo_row 5 \<in> set (committed (db_log (wd_db ?W)))" by (simp add: demo_world_def demo_db_def demo_log_facts)
  have "\<exists>ds. (demo_row 5, ds) \<in> set (stream_reads demo_realm ''webhook'' (es @ [Paged demo_realm ''webhook'' [demo_dest] [demo_row 5] None]))"
    using fan_out_misses_nothing[OF demo_empty_world demo_run_start es(1) p(1) k] c p(2) by (fastforce simp: demo_row_facts)
  moreover have "length (db_deliveries (wd_db ?W)) = 1" by (simp add: demo_world_def demo_db_def)
  ultimately show ?thesis using p(2) c by blast
qed

text \<open>
  C13. The attempt number fences a claim: an outcome is recorded exactly when the claim still holds its row,
  as a ticket unique to the claim would decide, although attempt numbers are given back by holds and used
  again; an outcome that comes too late, after its lease ran out and the row was claimed again or finished,
  changes nothing.
\<close>

theorem attempt_number_fences_claim:
  assumes "empty_world W0" "queue_run C G W0 es W" and "(t, i, a) \<in> set (wd_claims W)" and "record_outcome (i, a) outcome now (wd_db W) = Inr (ok, D)"
  shows "(ok \<longleftrightarrow> wd_owner W i = Some t) \<and> (\<not> ok \<longrightarrow> D = wd_db W)"
proof -
  have "fenced W" using queue_run_ok[OF assms(2)] empty_world_ok[OF assms(1), of C] by blast
  then show ?thesis by (rule records_owner[OF _ assms(3,4)])
qed

theorem attempt_number_fences_claim_witness:
  "\<exists>(W :: world) D. wd_claims W = [(0, 0, 1)] \<and> record_outcome (0, 1) (RecordDelivered (Some 200)) 9 (wd_db W) = Inr (True, D)"
proof -
  obtain es where es: "queue_run demo_chain demo_registry (demo_world (demo_db (demo_start 5) (Some (1, 0)) [])) (es @ [Paged demo_realm ''webhook'' [demo_dest] [demo_row 5] None])
    (demo_world (demo_db (demo_end 5) (Some (2, 0)) [demo_delivery]))" by (rule demo_fan_out)
  obtain W cs where W: "queue_step demo_chain demo_registry (demo_world (demo_db (demo_end 5) (Some (2, 0)) [demo_delivery])) (ClaimsTaken cs) W"
    "wd_claims W = [(0, 0, 1)]" "wd_owner W 0 = Some 0" using demo_claims unfolding demo_claim_def by (elim exE conjE)
  note run = run_step[OF queue_run_append[OF demo_run_start es] W(1)]
  obtain ok D where r: "record_outcome (0, 1) (RecordDelivered (Some 200)) 9 (wd_db W) = Inr (ok, D)"
    by (simp add: record_outcome_def checkTime_def isSafeInteger_def MAX_SAFE_INTEGER_def status_code_ok_def update_where_def)
  have "(0, 0, 1) \<in> set (wd_claims W)" by (simp add: W(2))
  from attempt_number_fences_claim[OF demo_empty_world run this r] show ?thesis using r W(2,3) by auto
qed

text \<open>
  C34. The table's constraints are never violated, whatever the nodes do: one row per event and destination,
  a lease only while a row is pending, a finishing time exactly on finished rows, no negative count of
  attempts, status codes in range; and every row keeps its event, at the row's place in its realm.
\<close>

theorem delivery_constraints_hold:
  assumes "empty_world W0" "queue_run C G W0 es W" and "x \<in> set (db_deliveries (wd_db W))"
  shows "row_checks x \<and> linked (db_log (wd_db W)) x \<and> unique_on delivery_key (db_deliveries (wd_db W)) \<and> unique_on fst (db_positions (wd_db W))"
proof -
  have "db_ok C (wd_db W)" using queue_run_ok[OF assms(2)] empty_world_ok[OF assms(1)] by blast
  then show ?thesis using assms(3) by (simp add: db_ok_def rows_ok_def keys_ok_def)
qed

theorem delivery_constraints_hold_witness: "row_checks demo_delivery \<and> linked (demo_end 5) demo_delivery"
proof -
  obtain es where es: "queue_run demo_chain demo_registry (demo_world (demo_db (demo_start 5) (Some (1, 0)) [])) (es @ [Paged demo_realm ''webhook'' [demo_dest] [demo_row 5] None])
    (demo_world (demo_db (demo_end 5) (Some (2, 0)) [demo_delivery]))" by (rule demo_fan_out)
  show ?thesis using delivery_constraints_hold[OF demo_empty_world queue_run_append[OF demo_run_start es], of demo_delivery]
    by (simp add: demo_world_def demo_db_def)
qed

end
