(* ===== verification/Delivery_Retention.thy ===== *)
theory Delivery_Retention
  imports Delivery_Queue
begin

text \<open>
  What the delivery queue promises the jobs around it: the position that retention deletes up to covers
  only finished events, a fan-out that reports no more has read every final event of its streams, and the
  destinations with work are found exactly.
\<close>

subsection \<open>Positions stay below the horizon\<close>

definition positions_below :: "delivery_db \<Rightarrow> bool" where
  "positions_below D \<longleftrightarrow> (\<forall>s q. (s, q) \<in> set (db_positions D) \<longrightarrow> q \<le> (horizon (db_log D), 0))"

lemma set_update: "(k, v) \<in> set (AList.update k' v' xs) \<Longrightarrow> (k = k' \<and> v = v') \<or> (k, v) \<in> set xs"
  by (induction xs) (auto split: if_splits)

lemma positions_belowD: "positions_below D \<Longrightarrow> (s, q) \<in> set (db_positions D) \<Longrightarrow> q \<le> (horizon (db_log D), 0)"
  unfolding positions_below_def by blast

lemma start_position_below: "start_position R ds now bf L \<le> (horizon L, 0)"
proof (cases bf)
  case (Some w)
  let ?f = "filter (\<lambda>r. er_realmId r = R \<and> now - w \<le> er_time r \<and> er_xid r < horizon L
      \<and> (case backfillTypes ds of None \<Rightarrow> True | Some ts \<Rightarrow> er_type r \<in> set ts)) (committed L)"
  show ?thesis
  proof (cases "sort_key row_pos ?f")
    case (Cons r rs)
    then have "r \<in> set (sort_key row_pos ?f)" by simp
    then have "er_xid r < horizon L" by (simp only: set_sort set_filter mem_Collect_eq)
    moreover have "start_position R ds now bf L = (er_xid r, er_seq r - 1)" by (simp add: start_position_def Some Cons)
    ultimately show ?thesis by simp
  qed (simp add: start_position_def Some)
qed (simp add: start_position_def)

lemma page_positions:
  assumes "fanOutPage True R K ds n now bf D = (out, D')" and "0 < n" and "(s, q) \<in> set (db_positions D')"
  shows "(s, q) \<in> set (db_positions D) \<or> (s = (R, K) \<and> stream_position D R K = None \<and> q = start_position R ds now bf (db_log D))
    \<or> (\<exists>p. s = (R, K) \<and> stream_position D R K = Some p \<and> p \<le> q \<and> (q = p \<or> q \<le> (horizon (db_log D), 0)))"
  using assms(1)
proof (cases rule: fanOutPage_cases)
  case 1
  then show ?thesis using assms(3) by auto
next
  case (2 p m D1 full)
  have "db_positions D1 = db_positions D" using insert_deliveries_result[OF 2(2)] by blast
  then have "(s = (R, K) \<and> q = snd (stream_page R (\<lambda>_. True) n p (db_log D))) \<or> (s, q) \<in> set (db_positions D)"
    using set_update[of s q "(R, K)"] assms(3) 2(5) by simp
  then show ?thesis using 2(1) realm_page.page_forward[OF assms(2)] realm_page.page_final[OF assms(2)] by metis
qed

lemma step_log:
  assumes "queue_step C G W e W'"
  shows "(e = Stored \<and> log_step C G (db_log (wd_db W)) (db_log (wd_db W'))) \<or> db_log (wd_db W') = db_log (wd_db W)"
  using assms
proof cases
  case (stores L)
  then show ?thesis by (simp add: cascade_def)
next
  case (pages R K ds n now bf out D)
  from pages(3) have "db_log D = db_log (wd_db W)"
    by (cases rule: fanOutPage_cases) (use insert_deliveries_result in \<open>auto dest!: insert_deliveries_result\<close>)
  then show ?thesis using pages(2) by simp
next
  case (claims held picks now leaseMs maxAttempts cs D)
  then show ?thesis by (auto simp: claim_deliveries_def Let_def update_where_def split: if_splits)
next
  case (records t i a outcome now ok D)
  then show ?thesis using record_result(3)[OF records(4)] by simp
next
  case (releases cs now n D)
  then show ?thesis using release_result[OF releases(4)] by simp
qed (simp add: forget_positions_def)

lemma step_positions:
  assumes "queue_step C G W e W'"
  shows "db_positions (wd_db W') = db_positions (wd_db W)
    \<or> (\<exists>kinds pairs. e = Forgot kinds pairs \<and> wd_db W' = forget_positions kinds pairs (wd_db W))
    \<or> (\<exists>R K ds n now bf out. fanOutPage True R K ds n now bf (wd_db W) = (out, wd_db W') \<and> 0 < n \<and> (\<forall>d \<in> set ds. de_kind d = K)
        \<and> e = Paged R K ds (page_read R K n (wd_db W)) (if stream_position (wd_db W) R K = None then bf else None))"
  using assms
proof cases
  case (pages R K ds n now bf out D)
  then show ?thesis by (intro disjI2) (auto intro!: exI)
next
  case (claims held picks now leaseMs maxAttempts cs D)
  then show ?thesis by (auto simp: claim_deliveries_def Let_def update_where_def split: if_splits)
next
  case (records t i a outcome now ok D)
  then show ?thesis using record_result(3)[OF records(4)] by simp
next
  case (releases cs now n D)
  then show ?thesis using release_result[OF releases(4)] by simp
qed (auto simp: cascade_def)

lemma horizon_step:
  assumes "queue_step C G W e W'" and "db_ok C (wd_db W)"
  shows "horizon (db_log (wd_db W)) \<le> horizon (db_log (wd_db W'))"
  using step_log[OF assms(1)] final_below_horizon[of C G "db_log (wd_db W)" "db_log (wd_db W')"] log_okD(1)[OF db_okD(1)[OF assms(2)]] by auto

lemma positions_step:
  assumes s: "queue_step C G W e W'" and ok: "db_ok C (wd_db W)" and p: "positions_below (wd_db W)"
  shows "positions_below (wd_db W')"
  unfolding positions_below_def
proof (intro allI impI)
  fix st q assume q: "(st, q) \<in> set (db_positions (wd_db W'))"
  have h: "(horizon (db_log (wd_db W)), 0) \<le> (horizon (db_log (wd_db W')), 0 :: nat)" using horizon_step[OF s ok] by simp
  have "q \<le> (horizon (db_log (wd_db W)), 0)"
    using step_positions[OF s]
  proof (elim disjE exE conjE)
    assume "db_positions (wd_db W') = db_positions (wd_db W)"
    then show ?thesis using positions_belowD[OF p] q by simp
  next
    fix kinds pairs assume "wd_db W' = forget_positions kinds pairs (wd_db W)"
    then have "(st, q) \<in> set (db_positions (wd_db W))" using q by (simp add: forget_positions_def)
    then show ?thesis by (rule positions_belowD[OF p])
  next
    fix R K ds n now bf out assume pg: "fanOutPage True R K ds n now bf (wd_db W) = (out, wd_db W')" "0 < n"
    from page_positions[OF pg q] show ?thesis
    proof (elim disjE exE conjE)
      fix r assume r: "stream_position (wd_db W) R K = Some r" "q = r"
      have "((R, K), r) \<in> set (db_positions (wd_db W))" using r(1) by (simp add: stream_position_def map_of_SomeD)
      then show ?thesis using positions_belowD[OF p] r(2) by simp
    next
      assume "(st, q) \<in> set (db_positions (wd_db W))"
      then show ?thesis by (rule positions_belowD[OF p])
    next
      assume "q = start_position R ds now bf (db_log (wd_db W))"
      then show ?thesis by (simp add: start_position_below del: less_eq_prod_simp)
    qed
  qed
  then show "q \<le> (horizon (db_log (wd_db W')), 0)" using h by (rule order_trans)
qed

lemma positions_run: "queue_run C G W es W' \<Longrightarrow> db_ok C (wd_db W) \<Longrightarrow> fenced W \<Longrightarrow> positions_below (wd_db W) \<Longrightarrow> positions_below (wd_db W')"
proof (induction rule: queue_run.induct)
  case (run_step W es W1 e W2)
  then show ?case using positions_step[OF run_step(2)] queue_run_ok[OF run_step(1)] by blast
qed simp

subsection \<open>What every destination has finished stays finished\<close>

text \<open>
  A point of a realm's stream that everything has passed: every counting position is past it, no counting
  delivery up to it is pending, and it is final.
\<close>

definition settled :: "string \<Rightarrow> offered_destinations \<Rightarrow> pos \<Rightarrow> delivery_db \<Rightarrow> bool" where
  "settled R served p D \<longleftrightarrow> p \<le> (horizon (db_log D), 0)
     \<and> (\<forall>K q. ((R, K), q) \<in> set (db_positions D) \<longrightarrow> position_counts served R K \<longrightarrow> p \<le> q)
     \<and> (\<forall>x. x \<in> set (db_deliveries D) \<longrightarrow> dl_realmId x = R \<longrightarrow> delivery_counts served R x \<longrightarrow> delivery_pos x \<le> p \<longrightarrow> dl_status x \<noteq> Pending)"

lemma limit1_sort:
  fixes xs :: "'a :: linorder list"
  shows "limit1 (sort xs) = Some m \<Longrightarrow> m \<in> set xs \<and> (\<forall>x \<in> set xs. m \<le> x)" and "limit1 (sort xs) = None \<Longrightarrow> xs = []"
proof -
  assume "limit1 (sort xs) = Some m"
  then obtain ys where s: "sort xs = m # ys" unfolding limit1_def by (cases "sort xs") auto
  have "set xs = set (m # ys)" unfolding s[symmetric] by simp
  moreover have "sorted (m # ys)" unfolding s[symmetric] by simp
  ultimately show "m \<in> set xs \<and> (\<forall>x \<in> set xs. m \<le> x)" by auto
next
  assume "limit1 (sort xs) = None"
  then have "sort xs = []" unfolding limit1_def by (cases "sort xs") auto
  then have "set (sort xs) = {}" by simp
  then show "xs = []" by simp
qed

lemma offered_settled:
  assumes ok: "db_ok C D" and b: "positions_below D"
  shows "settled R served (offeredPosition R served D) D"
proof -
  let ?P = "map snd (filter (\<lambda>((r, k), _). r = R \<and> position_counts served R k) (db_positions D))"
  let ?W = "map delivery_pos (select_where (\<lambda>x. dl_realmId x = R \<and> dl_status x = Pending \<and> delivery_counts served R x) (db_deliveries D))"
  let ?at = "case limit1 (sort ?P) of None \<Rightarrow> (horizon (db_log D), 0) | Some p \<Rightarrow> p"
  have o: "offeredPosition R served D = (case limit1 (sort ?W) of None \<Rightarrow> ?at | Some w \<Rightarrow> if (fst w, snd w - 1) < ?at then (fst w, snd w - 1) else ?at)"
    by (simp add: offeredPosition_def Let_def)
  have at: "?at \<le> (horizon (db_log D), 0)" "\<forall>q \<in> set ?P. ?at \<le> q"
  proof -
    show "?at \<le> (horizon (db_log D), 0)"
    proof (cases "limit1 (sort ?P)")
      case (Some m)
      then have "m \<in> set ?P" using limit1_sort(1) by blast
      then show ?thesis using Some b by (auto simp: positions_below_def)
    qed simp
    show "\<forall>q \<in> set ?P. ?at \<le> q"
    proof (cases "limit1 (sort ?P)")
      case None
      then show ?thesis using limit1_sort(2)[OF None] by simp
    next
      case (Some m)
      then show ?thesis using limit1_sort(1)[OF Some] by simp
    qed
  qed
  have le: "offeredPosition R served D \<le> ?at" unfolding o by (auto split: option.split)
  have w: "w \<notin> set ?W" if "w \<le> offeredPosition R served D" "0 < snd w" for w
  proof (cases "limit1 (sort ?W)")
    case None
    then show ?thesis using limit1_sort(2)[OF None] by simp
  next
    case (Some m)
    have m: "m \<in> set ?W" "\<forall>x \<in> set ?W. m \<le> x" using limit1_sort(1)[OF Some] by blast+
    have "0 < snd m"
    proof -
      obtain x where x: "x \<in> set (db_deliveries D)" "m = delivery_pos x" using m(1) by (auto simp: select_where_def)
      then obtain r where r: "r \<in> set (committed (db_log D))" "row_pos r = delivery_pos x" using db_okD(4)[OF ok] unfolding rows_ok_def linked_def by blast
      then have "0 < er_seq r" using log_okD(1)[OF db_okD(1)[OF ok]] by (simp add: numbers_ok_def committed_def)
      then show ?thesis using r(2) x(2) by (simp add: row_pos_def delivery_pos_def)
    qed
    then have lt: "(fst m, snd m - 1) < m" by (cases m) simp
    have "offeredPosition R served D \<le> (fst m, snd m - 1)" unfolding o Some option.case by (simp only: not_less order_refl split: if_split) blast
    then have "offeredPosition R served D < m" using lt by (rule order_le_less_trans)
    then have "\<not> m \<le> w" using that(1) by (meson leD order_le_less_trans)
    then show ?thesis using m(2) by blast
  qed
  show ?thesis unfolding settled_def
  proof (intro conjI allI impI)
    show "offeredPosition R served D \<le> (horizon (db_log D), 0)" using le at(1) by (rule order_trans)
    show "offeredPosition R served D \<le> q" if "((R, K), q) \<in> set (db_positions D)" "position_counts served R K" for K q
    proof -
      have "q \<in> set ?P" using that by force
      then show ?thesis using le at(2) by (meson order_trans)
    qed
    show "dl_status x \<noteq> Pending" if x: "x \<in> set (db_deliveries D)" "dl_realmId x = R" "delivery_counts served R x" "delivery_pos x \<le> offeredPosition R served D" for x
    proof
      assume "dl_status x = Pending"
      then have "delivery_pos x \<in> set ?W" using x by (auto simp: select_where_def)
      moreover obtain r where r: "r \<in> set (committed (db_log D))" "row_pos r = delivery_pos x" using db_okD(4)[OF ok] x(1) unfolding rows_ok_def linked_def by blast
      then have "0 < snd (delivery_pos x)" using log_okD(1)[OF db_okD(1)[OF ok]] by (auto simp: numbers_ok_def committed_def row_pos_def delivery_pos_def)
      ultimately show False using w[OF x(4)] by blast
    qed
  qed
qed

lemma settledD:
  assumes "settled R served p D"
  shows "p \<le> (horizon (db_log D), 0)" "\<And>K q. ((R, K), q) \<in> set (db_positions D) \<Longrightarrow> position_counts served R K \<Longrightarrow> p \<le> q"
    "\<And>x. x \<in> set (db_deliveries D) \<Longrightarrow> dl_realmId x = R \<Longrightarrow> delivery_counts served R x \<Longrightarrow> delivery_pos x \<le> p \<Longrightarrow> dl_status x \<noteq> Pending"
  using assms unfolding settled_def by blast+

text \<open>A step writes no row that is pending and new, but for the events a page reads.\<close>

lemma step_pending:
  assumes s: "queue_step C G W e W'" and ok: "db_ok C (wd_db W)" and x: "x \<in> set (db_deliveries (wd_db W'))" "dl_status x = Pending"
  shows "(\<exists>y. y \<in> set (db_deliveries (wd_db W)) \<and> same_row y x \<and> dl_status y = Pending)
    \<or> (\<exists>R K ds read bf p r d. e = Paged R K ds read bf \<and> stream_position (wd_db W) R K = Some p \<and> r \<in> set read \<and> d \<in> set ds \<and> de_kind d = K
        \<and> dl_realmId x = R \<and> dl_destinationKind x = K \<and> dl_destinationId x = de_id d \<and> delivery_pos x = row_pos r \<and> p < row_pos r)"
  using s
proof cases
  case (stores L)
  then show ?thesis using x by (intro disjI1 exI[of _ x]) (simp add: cascade_def same_row_def)
next
  case (pages R K ds n now bf out D)
  from pages(3) show ?thesis
  proof (cases rule: fanOutPage_cases)
    case 1
    then show ?thesis using x pages(2) by (intro disjI1 exI[of _ x]) (simp add: same_row_def)
  next
    case (2 p m D1 full)
    obtain new where new: "db_deliveries D1 = db_deliveries (wd_db W) @ new"
      "\<forall>x \<in> set new. \<exists>i r d. (r, d) \<in> set (matching_pairs ds (page_read R K n (wd_db W))) \<and> db_nextId (wd_db W) \<le> i \<and> i < db_nextId D1 \<and> x = new_delivery i R now d r"
      using conjunct1[OF insert_deliveries_result[OF 2(2)]] by (elim exE conjE)
    show ?thesis
    proof (cases "x \<in> set new")
      case True
      then obtain i r d where i: "(r, d) \<in> set (matching_pairs ds (page_read R K n (wd_db W)))" "x = new_delivery i R now d r" using new(2) by blast
      then have m: "r \<in> set (page_read R K n (wd_db W))" "d \<in> set ds" by (simp_all add: matching_pairs_mem)
      then have "p < row_pos r" using 2(1) by (auto simp: page_read_def rows_after_mem dest!: in_set_takeD)
      then show ?thesis using m i(2) pages(1,5) 2(1)
        by (intro disjI2 exI[of _ R] exI[of _ K] exI[of _ ds] exI[of _ "page_read R K n (wd_db W)"] exI[of _ "None"] exI[of _ p] exI[of _ r] exI[of _ d])
          (simp add: new_delivery_def delivery_pos_def row_pos_def)
    next
      case False
      then have "x \<in> set (db_deliveries (wd_db W))" using x(1) pages(2) 2(5) new(1) by simp
      then show ?thesis using x(2) by (intro disjI1 exI[of _ x]) (simp add: same_row_def)
    qed
  qed
next
  case (forgets kinds pairs)
  then show ?thesis using x by (intro disjI1 exI[of _ x]) (simp add: forget_positions_def same_row_def)
next
  case (claims held picks now leaseMs maxAttempts cs D)
  obtain S where S: "D = (wd_db W)\<lparr>db_deliveries := snd (update_where (\<lambda>x. dl_id x \<in> S) (claim_row now (now + leaseMs) maxAttempts) (db_deliveries (wd_db W)))\<rparr>"
    "\<forall>x. x \<in> set (db_deliveries (wd_db W)) \<longrightarrow> dl_id x \<in> S \<longrightarrow> dl_status x = Pending"
    using claim_result[OF db_okD(3)[OF ok] claims(3)] by (elim exE conjE)
  have "x \<in> set (snd (update_where (\<lambda>x. dl_id x \<in> S) (claim_row now (now + leaseMs) maxAttempts) (db_deliveries (wd_db W))))" using x(1) claims(2) S(1) by simp
  then obtain y where y: "y \<in> set (db_deliveries (wd_db W))" "x = (if dl_id y \<in> S then claim_row now (now + leaseMs) maxAttempts y else y)"
    unfolding update_where_def by auto
  have "dl_status y = Pending" using y x(2) S(2) by (cases "dl_id y \<in> S") simp_all
  moreover have "same_row y x" using y(2) claim_row_same by (cases "dl_id y \<in> S") (simp_all add: same_row_def)
  ultimately show ?thesis using y(1) by blast
next
  case (records t i a outcome now ok' D)
  have "x \<in> set (snd (update_where (claimed (i, a)) (record_row outcome now) (db_deliveries (wd_db W))))" using x(1) records(2) record_result(3)[OF records(4)] by simp
  then obtain y where y: "y \<in> set (db_deliveries (wd_db W))" "x = (if claimed (i, a) y then record_row outcome now y else y)"
    unfolding update_where_def by auto
  have "dl_status y = Pending" proof (cases "claimed (i, a) y")
    case True
    then show ?thesis by (simp add: claimed_def)
  next
    case False
    then show ?thesis using y(2) x(2) by simp
  qed
  moreover have "same_row y x" using y(2) record_row_same by (cases "claimed (i, a) y") (simp_all add: same_row_def)
  ultimately show ?thesis using y(1) by blast
next
  case (releases cs now n D)
  let ?P = "\<lambda>x. list_ex (\<lambda>c. claimed c x) (map snd cs)"
  have "x \<in> set (snd (update_where ?P (release_row now) (db_deliveries (wd_db W))))" using x(1) releases(2) release_result[OF releases(4)] by simp
  then obtain y where y: "y \<in> set (db_deliveries (wd_db W))" "x = (if ?P y then release_row now y else y)"
    unfolding update_where_def by auto
  have "dl_status y = Pending" using y(2) x(2) by (cases "?P y") (simp_all add: release_row_def)
  moreover have "same_row y x" using y(2) release_row_same by (cases "?P y") (simp_all add: same_row_def)
  ultimately show ?thesis using y(1) by blast
qed

definition no_backfill :: "string \<Rightarrow> queue_event \<Rightarrow> bool" where
  "no_backfill R e \<longleftrightarrow> (case e of Paged R' K ds read bf \<Rightarrow> R' = R \<longrightarrow> bf = None | _ \<Rightarrow> True)"

lemma settled_step:
  assumes s: "queue_step C G W e W'" and ok: "db_ok C (wd_db W)" and nb: "no_backfill R e" and st: "settled R served p (wd_db W)"
  shows "settled R served p (wd_db W')"
proof -
  note d = settledD[OF st]
  have h: "p \<le> (horizon (db_log (wd_db W')), 0)"
    using d(1) horizon_step[OF s ok] by (auto simp: less_eq_prod_def)
  have pos: "p \<le> q" if q: "((R, K), q) \<in> set (db_positions (wd_db W'))" "position_counts served R K" for K q
    using step_positions[OF s]
  proof (elim disjE exE conjE)
    assume "db_positions (wd_db W') = db_positions (wd_db W)"
    then show ?thesis using d(2) q by simp
  next
    fix kinds pairs assume "wd_db W' = forget_positions kinds pairs (wd_db W)"
    then have "((R, K), q) \<in> set (db_positions (wd_db W))" using q(1) by (simp add: forget_positions_def)
    then show ?thesis using d(2) q(2) by blast
  next
    fix R' K' ds n now bf out
    assume pg: "fanOutPage True R' K' ds n now bf (wd_db W) = (out, wd_db W')" "0 < n"
      and e: "e = Paged R' K' ds (page_read R' K' n (wd_db W)) (if stream_position (wd_db W) R' K' = None then bf else None)"
    from page_positions[OF pg q(1)] show ?thesis
    proof (elim disjE exE conjE)
      assume "((R, K), q) \<in> set (db_positions (wd_db W))"
      then show ?thesis using d(2) q(2) by blast
    next
      assume b: "(R, K) = (R', K')" "stream_position (wd_db W) R' K' = None" "q = start_position R' ds now bf (db_log (wd_db W))"
      then have "bf = None" using nb e by (simp add: no_backfill_def)
      then have "q = (horizon (db_log (wd_db W)), 0)" using b(3) by (simp add: start_position_def)
      then show ?thesis using d(1) by simp
    next
      fix r assume r: "(R, K) = (R', K')" "stream_position (wd_db W) R' K' = Some r" "r \<le> q"
      have "((R, K), r) \<in> set (db_positions (wd_db W))" using r(1,2) by (simp add: stream_position_def map_of_SomeD)
      then have "p \<le> r" using d(2) q(2) by blast
      then show "p \<le> q" using r(3) by (rule order_trans)
      then show "p \<le> q" .
    qed
  qed
  have "dl_status x \<noteq> Pending" if x: "x \<in> set (db_deliveries (wd_db W'))" "dl_realmId x = R" "delivery_counts served R x" "delivery_pos x \<le> p" for x
  proof
    assume pend: "dl_status x = Pending"
    from step_pending[OF s ok x(1) pend] show False
    proof (elim disjE exE conjE)
      fix y assume y: "y \<in> set (db_deliveries (wd_db W))" "same_row y x" "dl_status y = Pending"
      then have "dl_realmId y = R" "delivery_counts served R y" "delivery_pos y \<le> p"
        using x by (simp_all add: same_row_def delivery_counts_def delivery_key_def)
      then show False using d(3)[OF y(1)] y(3) by blast
    next
      fix R' K ds read bf q r dest
      assume pg: "stream_position (wd_db W) R' K = Some q" "dl_realmId x = R'" "dl_destinationKind x = K" "delivery_pos x = row_pos r" "q < row_pos r"
      have "((R, K), q) \<in> set (db_positions (wd_db W))" using pg(1,2) x(2) by (simp add: stream_position_def map_of_SomeD)
      moreover have "position_counts served R K" using x(3) pg(3) by (force simp: position_counts_def delivery_counts_def)
      ultimately have "p \<le> q" using d(2) by blast
      then have "p < delivery_pos x" using pg(4,5) by (simp add: order_le_less_trans)
      then show False using x(4) by (simp add: leD)
    qed
  qed
  then show ?thesis unfolding settled_def using h pos by blast
qed

lemma settled_run:
  assumes "queue_run C G W es W'" and "db_ok C (wd_db W)" "fenced W" and "\<forall>e \<in> set es. no_backfill R e" and "settled R served p (wd_db W)"
  shows "settled R served p (wd_db W')"
  using assms
proof (induction rule: queue_run.induct)
  case (run_step W es W1 e W2)
  then show ?case using settled_step[OF run_step(2)] queue_run_ok[OF run_step(1)] by simp
qed simp

lemma deleteBatch_deletes:
  assumes ok: "log_ok C L" and d: "deleteBatch C locked realmId category before through limit now L = Inr (b, L')"
    and r: "r \<in> set (lg_rows L)" "r \<notin> set (lg_rows L')"
  shows "\<exists>t. decodeEventPosition through = Some t \<and> er_realmId r = map to_lower realmId \<and> row_pos r \<le> at_pos t"
proof -
  have u: "er_realmId r = R \<and> row_pos r \<le> thr"
    if u: "deleteUnchained R category before thr n L = (deleted, L2)" "r \<notin> set (lg_rows L2)" for R thr n deleted L2
  proof -
    obtain P where L2: "L2 = keeps_rows P L" and P: "\<forall>r. r \<in> set (lg_rows L) \<longrightarrow> \<not> P r \<longrightarrow> r \<in> set deleted"
      and D: "\<forall>r. r \<in> set deleted \<longrightarrow> r \<in> set (committed L) \<and> unchained_due R category before thr r"
      using deleteUnchained_result[OF log_okD(1)[OF ok] u(1)] by (elim exE conjE)
    have "\<not> P r" using u(2) r(1) by (simp add: L2 keeps_rows_def)
    then have "unchained_due R category before thr r" using P D r(1) by blast
    then show ?thesis by (simp add: unchained_due_def)
  qed
  from d show ?thesis
  proof (cases rule: deleteBatch_cases)
    case 1
    then show ?thesis using r by simp
  next
    case (2 t deleted)
    then show ?thesis using u[OF 2(3) r(2)] by (simp add: at_pos_def)
  next
    case (3 t deleted L1 k doomed broken)
    show ?thesis
    proof (cases "r \<in> set (lg_rows L1)")
      case False
      then show ?thesis using u[OF 3(3)] 3(1) by (simp add: at_pos_def)
    next
      case True
      have ok1: "log_ok C L1" by (rule deleteUnchained_ok[OF ok 3(3)])
      have ne: "doomed \<noteq> []"
      proof
        assume "doomed = []"
        then have "L' = L1" using 3(4) by (auto simp: deleteChainStart_def Let_def split: if_splits prod.splits)
        then show False using True r(2) by simp
      qed
      have gone: "er_realmId r = map to_lower realmId \<and> er_seq r \<in> er_seq ` set doomed"
        using deleteChainStart_result(3)[OF ok1 3(4) ne] True r(2) by auto
      then obtain r' where r': "r' \<in> set doomed" "er_seq r = er_seq r'" by blast
      obtain rest where "chain_rows (map to_lower realmId) (committed L1) = doomed @ rest" using deleteChainStart_result(1)[OF ok1 3(4) ne] by blast
      then have "r' \<in> set (chain_rows (map to_lower realmId) (committed L1))" using r'(1) by simp
      then have "r' \<in> set (lg_rows L1)" by (simp add: chain_rows_mem committed_def)
      then have "r = r'" using seq_names_row[OF log_okD(1)[OF ok1] True] r'(2) by blast
      then show ?thesis using deleteChainStart_result(2)[OF ok1 3(4) ne] r'(1) gone 3(1) by (auto simp: at_pos_def)
    qed
  qed
qed

text \<open>
  C10. Retention deletes no event a destination still waits for: it asks once for the position every
  destination it counts has finished, and deletes batches up to it later, whatever was committed, fanned out,
  claimed, recorded or deleted in between; an event such a batch deletes has no pending delivery to a
  destination that counts, and every stream that counts had read it. Streams that start in between must start
  at the horizon, without a backfill window.
\<close>

theorem retention_spares_unfinished:
  assumes "empty_world W0" "queue_run C G W0 es0 W" and "offeredThrough realm served (wd_db W) = Some through"
    and "queue_run C G W es W'" "\<forall>e \<in> set es. no_backfill (map to_lower realm) e"
    and "deleteBatch C locked realm category before through limit now (db_log (wd_db W')) = Inr (b, L')"
    and "r \<in> set (lg_rows (db_log (wd_db W')))" "r \<notin> set (lg_rows L')"
  shows "(\<forall>x \<in> set (db_deliveries (wd_db W')). dl_eventId x = er_id r \<and> delivery_counts served (map to_lower realm) x \<longrightarrow> dl_status x \<noteq> Pending)
    \<and> (\<forall>K q. stream_position (wd_db W') (map to_lower realm) K = Some q \<and> position_counts served (map to_lower realm) K \<longrightarrow> row_pos r \<le> q)"
proof -
  let ?R = "map to_lower realm" and ?D = "wd_db W'"
  have e: "db_ok C (wd_db W0)" "fenced W0" "positions_below (wd_db W0)" using empty_world_ok[OF assms(1)] assms(1) by (simp_all add: empty_world_def positions_below_def)
  have w: "db_ok C (wd_db W)" "fenced W" using queue_run_ok[OF assms(2) e(1,2)] by simp_all
  have w': "db_ok C ?D" using queue_run_ok[OF assms(4) w] by simp
  have "settled ?R served (offeredPosition ?R served (wd_db W)) (wd_db W)" by (rule offered_settled[OF w(1) positions_run[OF assms(2) e]])
  then have st: "settled ?R served (offeredPosition ?R served (wd_db W)) ?D" by (rule settled_run[OF assms(4) w assms(5)])
  obtain t where t: "decodeEventPosition through = Some t" "er_realmId r = ?R" "row_pos r \<le> at_pos t"
    using deleteBatch_deletes[OF db_okD(1)[OF w'] assms(6,7,8)] by blast
  have "encodeEventPosition \<lparr>pp_realmId = ?R, pp_xid = fst (offeredPosition ?R served (wd_db W)), pp_seq = snd (offeredPosition ?R served (wd_db W))\<rparr> = Some through"
    using assms(3) by (simp add: offeredThrough_def Let_def split: if_splits)
  then have "at_pos t = offeredPosition ?R served (wd_db W)" using t(1) by (simp add: decode_iff_encode[symmetric] at_pos_def)
  then have le: "row_pos r \<le> offeredPosition ?R served (wd_db W)" using t(3) by simp
  note d = settledD[OF st]
  have "dl_status x \<noteq> Pending" if x: "x \<in> set (db_deliveries ?D)" "dl_eventId x = er_id r" "delivery_counts served ?R x" for x
  proof -
    obtain r' where r': "r' \<in> set (committed (db_log ?D))" "er_id r' = dl_eventId x" "row_pos r' = delivery_pos x" "er_realmId r' = dl_realmId x"
      using db_okD(4)[OF w'] x(1) unfolding rows_ok_def linked_def by blast
    have "r' \<in> set (lg_rows (db_log ?D))" using r'(1) by (simp add: committed_def)
    then have "r' = r" using unique_on_same[OF db_okD(2)[OF w'] _ assms(7)] r'(2) x(2) by metis
    then show ?thesis using d(3)[OF x(1) _ x(3)] r'(3,4) t(2) le by simp
  qed
  moreover have "row_pos r \<le> q" if "stream_position ?D ?R K = Some q" "position_counts served ?R K" for K q
  proof -
    have "((?R, K), q) \<in> set (db_positions ?D)" using that(1) by (simp add: stream_position_def map_of_SomeD)
    then have "offeredPosition ?R served (wd_db W) \<le> q" using d(2) that(2) by blast
    then show ?thesis using le by (rule order_trans[rotated])
  qed
  ultimately show ?thesis by blast
qed

text \<open>A realm with one user event, which no stream serves.\<close>

definition demo_user :: unchecked_event where
  "demo_user = demo_admin\<lparr>ue_type := ''user.login''\<rparr>"

definition user_registry :: event_registry where
  "user_registry = \<lparr>gr_category = (\<lambda>t. Some UserCategory), gr_parse = Some\<rparr>"

definition user_env :: envelope where
  "user_env = demo_env\<lparr>en_type := ''user.login'', en_category := UserCategory\<rparr>"

definition user_row :: event_row where
  "user_row = (row_of_envelope user_env)\<lparr>er_seq := 5, er_xid := 1\<rparr>"

definition user_log :: event_log where
  "user_log = (demo_start 5)\<lparr>lg_nextXid := 2, lg_nextSeq := 6, lg_rows := [user_row]\<rparr>"

lemma user_row_facts: "er_realmId user_row = demo_realm" "er_category user_row = UserCategory" "er_hash user_row = None" "er_time user_row = 7"
    "row_pos user_row = (1, 5)" "er_xid user_row = 1" "er_seq user_row = 5" "er_id user_row = ''e1''"
  by (simp_all add: user_row_def row_of_envelope_def user_env_def demo_env_def row_pos_def)

lemma user_run: "(log_step demo_chain user_registry)\<^sup>*\<^sup>* (demo_start 5) user_log"
proof -
  let ?S = "log_step demo_chain user_registry" and ?L1 = "snd (begin_tx (demo_start 5))"
  let ?L2 = "snd (emit_event demo_chain user_registry 1 ''e1'' 7 demo_user ?L1)"
  have "nulPaths user_env = []" by code_simp
  then have b: "buildEvent user_registry ''e1'' 7 demo_user = Inr (row_of_envelope user_env, user_env)"
    by (simp add: buildEvent_def user_registry_def demo_user_def demo_admin_def demo_realm_facts user_env_def demo_env_def)
  have c: "er_category (row_of_envelope user_env) = UserCategory" by (simp add: row_of_envelope_def user_env_def)
  have o: "1 \<in> set (lg_open ?L1)" "lg_rows ?L1 = []" "chain_lock_free R 1 ?L1" for R
    by (simp_all add: begin_tx_def demo_start_def chain_lock_free_def)
  have "?S (demo_start 5) ?L1" by (rule log_step.begins)
  moreover have "?S ?L1 ?L2" using o by (intro log_step.emits) simp_all
  moreover have "?S ?L2 (commit_tx 1 ?L2)" by (rule log_step.commits) (simp add: emit_event_def b c insertEvent_def begin_tx_def demo_start_def)
  moreover have "commit_tx 1 ?L2 = user_log"
    by (simp add: emit_event_def b c insertEvent_def begin_tx_def demo_start_def commit_tx_def user_log_def user_row_def)
  ultimately show ?thesis by (metis rtranclp.rtrancl_into_rtrancl rtranclp.rtrancl_refl)
qed

definition nobody :: offered_destinations where
  "nobody = \<lparr>of_kinds = [], of_destinations = []\<rparr>"

theorem retention_spares_unfinished_witness:
  "\<exists>(W :: world) through b L'. deleteBatch demo_chain True demo_realm UserCategory 100 through 10 200 (db_log (wd_db W)) = Inr (b, L')
    \<and> lg_rows (db_log (wd_db W)) = [user_row] \<and> lg_rows L' = []
    \<and> (\<forall>x \<in> set (db_deliveries (wd_db W)). dl_eventId x = er_id user_row \<and> delivery_counts nobody demo_realm x \<longrightarrow> dl_status x \<noteq> Pending)"
proof -
  let ?W = "demo_world (demo_db user_log None [])" and ?t = "base64url (position_text (demo_parts 2 0))"
  obtain es where es: "queue_run demo_chain user_registry (demo_world (demo_db (demo_start 5) None [])) es ?W" using stored_run[OF user_run, where p = None] by blast
  have l: "horizon user_log = 2" "committed user_log = [user_row]" "lg_rows user_log = [user_row]" by (simp_all add: user_log_def demo_start_def horizon_def committed_def)
  have d: "decodeEventPosition ?t = Some (demo_parts 2 0)" using demo_encode[of 2 0] by (simp add: decode_iff_encode)
  have "offeredPosition demo_realm nobody (wd_db ?W) = (2, 0)"
    by (simp add: offeredPosition_def demo_world_def demo_db_def limit1_def select_where_def l)
  then have o: "offeredThrough demo_realm nobody (wd_db ?W) = Some ?t"
    using demo_encode[of 2 0] by (simp add: offeredThrough_def demo_realm_facts demo_parts_def)
  have u: "unchained_due demo_realm UserCategory 100 (2, 0) user_row" by (simp add: unchained_due_def user_row_facts)
  have "deleteUnchained demo_realm UserCategory 100 (2, 0) 10 user_log = ([user_row], user_log\<lparr>lg_rows := []\<rparr>)"
    using u by (simp add: deleteUnchained_def l delete_where_def)
  then have "deleteBatch demo_chain True demo_realm UserCategory 100 ?t 10 200 user_log = Inr (RetentionDone [user_row] False None, user_log\<lparr>lg_rows := []\<rparr>)"
    by (simp add: deleteBatch_def Let_def demo_realm_facts isSafeInteger_def MAX_SAFE_INTEGER_def EVENT_RETENTION_BATCH_MAX_def d) (simp add: demo_parts_def)
  then have b: "deleteBatch demo_chain True demo_realm UserCategory 100 ?t 10 200 (db_log (wd_db ?W)) = Inr (RetentionDone [user_row] False None, user_log\<lparr>lg_rows := []\<rparr>)"
    by (simp add: demo_world_def demo_db_def)
  have r: "user_row \<in> set (lg_rows (db_log (wd_db ?W)))" "user_row \<notin> set (lg_rows (user_log\<lparr>lg_rows := []\<rparr>))" "lg_rows (db_log (wd_db ?W)) = [user_row]"
    by (simp_all add: demo_world_def demo_db_def l)
  have "\<forall>x \<in> set (db_deliveries (wd_db ?W)). dl_eventId x = er_id user_row \<and> delivery_counts nobody demo_realm x \<longrightarrow> dl_status x \<noteq> Pending"
    using retention_spares_unfinished[OF demo_empty_world es o run_nil _ b r(1,2)] demo_realm_facts(2) by simp
  then show ?thesis using b r(3) by (intro exI[of _ ?W] exI[of _ ?t] exI conjI) (assumption | simp)+
qed

text \<open>
  The condition on streams that start in between is needed: a stream that starts with a backfill window
  writes pending deliveries for events at or before a position reported as finished.
\<close>

theorem backfill_reaches_behind_offered:
  "\<exists>(W :: world) es W' x. queue_run demo_chain demo_registry (demo_world (demo_db (demo_start 5) None [])) es W
     \<and> queue_run demo_chain demo_registry W [Paged demo_realm ''webhook'' [demo_dest] [] (Some 10), Paged demo_realm ''webhook'' [demo_dest] [demo_row 5] None] W'
     \<and> x \<in> set (db_deliveries (wd_db W')) \<and> x \<notin> set (db_deliveries (wd_db W)) \<and> dl_status x = Pending \<and> dl_realmId x = demo_realm
     \<and> delivery_pos x \<le> offeredPosition demo_realm nobody (wd_db W)"
proof -
  let ?W = "demo_world (demo_db (demo_end 5) None [])" and ?W1 = "demo_world (demo_db (demo_end 5) (Some (1, 4)) [])"
    and ?W2 = "demo_world (demo_db (demo_end 5) (Some (2, 0)) [demo_delivery])"
  obtain es where es: "queue_run demo_chain demo_registry (demo_world (demo_db (demo_start 5) None [])) es ?W" using stored_run[OF demo_run, where p = None] by blast
  have t: "er_time (demo_row 5) = 7" by (simp add: demo_row_def row_of_envelope_def demo_env_def)
  have s: "start_position demo_realm [demo_dest] 3 (Some 10) (demo_end 5) = (1, 4)"
    by (simp add: start_position_def demo_log_facts demo_row_facts t demo_dest_def)
  have "queue_step demo_chain demo_registry ?W (Paged demo_realm ''webhook'' [demo_dest] [] (Some 10)) ?W1"
    using pages[of demo_realm "''webhook''" "[demo_dest]" 10 3 "Some 10" ?W]
    by (simp add: demo_world_def demo_db_def fanOutPage_def stream_position_def page_read_def s demo_kind)
  moreover have "rows_after demo_realm (1, 4) (\<lambda>_. True) (demo_end 5) = [demo_row 5]"
    by (simp add: rows_after_def demo_row_facts demo_log_facts del: One_nat_def)
  then have "queue_step demo_chain demo_registry ?W1 (Paged demo_realm ''webhook'' [demo_dest] [demo_row 5] None) ?W2"
    using pages[of demo_realm "''webhook''" "[demo_dest]" 10 3 None ?W1]
    by (simp add: demo_world_def demo_db_def fanOutPage_def stream_position_def page_read_def demo_log_facts
      matching_pairs_def demo_matches demo_delivery_def demo_kind del: One_nat_def)
  ultimately have "queue_run demo_chain demo_registry ?W [Paged demo_realm ''webhook'' [demo_dest] [] (Some 10), Paged demo_realm ''webhook'' [demo_dest] [demo_row 5] None] ?W2"
    using run_step[OF run_step[OF run_nil]] by fastforce
  moreover have "offeredPosition demo_realm nobody (wd_db ?W) = (2, 0)"
    by (simp add: offeredPosition_def demo_world_def demo_db_def limit1_def select_where_def demo_log_facts)
  moreover have "demo_delivery \<in> set (db_deliveries (wd_db ?W2))" "demo_delivery \<notin> set (db_deliveries (wd_db ?W))" by (simp_all add: demo_world_def demo_db_def)
  moreover have "dl_status demo_delivery = Pending" "dl_realmId demo_delivery = demo_realm" "delivery_pos demo_delivery = (1, 5)"
    using demo_row_facts by (simp_all add: demo_delivery_def new_delivery_def delivery_pos_def)
  ultimately show ?thesis using es by (intro exI[of _ ?W] exI[of _ es] exI[of _ ?W2] exI[of _ demo_delivery] conjI) simp_all
qed

end
