(* ===== verification/Delivery_Rounds.thy ===== *)
theory Delivery_Rounds
  imports Delivery_Retention
begin

text \<open>
  Whole operations of the delivery queue: the scan for destinations with work finds exactly those, and a
  fan-out is a run of the atomic steps of \<open>Delivery_Queue\<close> that, unless it reports more, has read
  every final event of the streams it got.
\<close>

subsection \<open>Destinations with work\<close>

lemma head_after_least:
  assumes "head_after after rows = Some h"
  shows "h \<in> set rows" "\<And>a. after = Some a \<Longrightarrow> a < fst h" "\<And>x. x \<in> set rows \<Longrightarrow> (\<And>a. after = Some a \<Longrightarrow> a < fst x) \<Longrightarrow> h \<le> x"
proof -
  let ?f = "filter (\<lambda>(i, _). case after of None \<Rightarrow> True | Some a \<Rightarrow> a < i) rows"
  have m: "h \<in> set ?f \<and> (\<forall>x \<in> set ?f. h \<le> x)" using assms limit1_sort(1)[of ?f h] by (simp add: head_after_def)
  show "h \<in> set rows" "\<And>a. after = Some a \<Longrightarrow> a < fst h" using head_after_mem[OF assms] by simp_all
  show "h \<le> x" if "x \<in> set rows" "\<And>a. after = Some a \<Longrightarrow> a < fst x" for x
  proof -
    have "x \<in> set ?f" using that by (cases after) (simp_all add: case_prod_beta)
    then show ?thesis using m by blast
  qed
qed

lemma head_after_none: "head_after after rows = None \<Longrightarrow> x \<in> set rows \<Longrightarrow> \<exists>a. after = Some a \<and> \<not> a < fst x"
proof -
  assume h: "head_after after rows = None" and x: "x \<in> set rows"
  have "filter (\<lambda>(i, _). case after of None \<Rightarrow> True | Some a \<Rightarrow> a < i) rows = []" using limit1_sort(2) h unfolding head_after_def by blast
  then show ?thesis using x by (cases x) (auto simp: filter_empty_conv split: option.splits)
qed

lemma heads_spec:
  "sorted_wrt (<) (map fst (heads after rows))
   \<and> (\<forall>h \<in> set (heads after rows). h \<in> set rows \<and> (\<forall>a. after = Some a \<longrightarrow> a < fst h) \<and> (\<forall>t. (fst h, t) \<in> set rows \<longrightarrow> snd h \<le> t))
   \<and> (\<forall>x \<in> set rows. (\<forall>a. after = Some a \<longrightarrow> a < fst x) \<longrightarrow> fst x \<in> fst ` set (heads after rows))"
proof (induction after rows rule: heads.induct)
  case (1 after rows)
  show ?case
  proof (cases "head_after after rows")
    case None
    then show ?thesis using head_after_none[OF None] by (auto simp: heads.simps[of after rows])
  next
    case (Some h)
    note l = head_after_least[OF Some]
    note IH = "1.IH"[OF Some]
    have eq: "heads after rows = h # heads (Some (fst h)) rows" using Some by (simp add: heads.simps[of after rows])
    have gt: "fst h < fst g \<and> g \<in> set rows \<and> (\<forall>t. (fst g, t) \<in> set rows \<longrightarrow> snd g \<le> t)" if "g \<in> set (heads (Some (fst h)) rows)" for g
      using IH that by blast
    have least: "snd h \<le> t" if "(fst h, t) \<in> set rows" for t
      using l(3)[OF that] l(2) by (cases h) auto
    have all: "fst x \<in> fst ` set (heads after rows)" if x: "x \<in> set rows" "\<forall>a. after = Some a \<longrightarrow> a < fst x" for x
    proof (cases "fst h < fst x")
      case True
      then show ?thesis using IH x(1) eq by simp
    next
      case False
      have "h \<le> x" using l(3)[OF x(1)] x(2) by blast
      then have "fst x = fst h" using False by (cases h; cases x) auto
      then show ?thesis using eq by simp
    qed
    have "sorted_wrt (<) (map fst (heads after rows))" using IH gt by (simp add: eq)
    moreover have "g \<in> set rows \<and> (\<forall>a. after = Some a \<longrightarrow> a < fst g) \<and> (\<forall>t. (fst g, t) \<in> set rows \<longrightarrow> snd g \<le> t)" if "g \<in> set (heads after rows)" for g
    proof (cases "g = h")
      case True
      then show ?thesis using l(1,2) least by blast
    next
      case False
      then have "g \<in> set (heads (Some (fst h)) rows)" using that eq by simp
      from gt[OF this] show ?thesis using l(2) by (auto intro: less_trans)
    qed
    ultimately show ?thesis using all by blast
  qed
qed

lemma due_of_kind_spec:
  "distinct (due_of_kind kind now rows)
   \<and> set (due_of_kind kind now rows) = {(kind, dl_destinationId x) | x. x \<in> set rows \<and> dl_status x = Pending \<and> dl_destinationKind x = kind \<and> dl_nextAttemptAt x \<le> now}"
proof -
  let ?rows = "map (\<lambda>x. (dl_destinationId x, dl_nextAttemptAt x)) (select_where (\<lambda>x. dl_status x = Pending \<and> dl_destinationKind x = kind) rows)"
  let ?hs = "heads None ?rows"
  have s: "sorted_wrt (<) (map fst ?hs)" "\<And>h. h \<in> set ?hs \<Longrightarrow> h \<in> set ?rows \<and> (\<forall>t. (fst h, t) \<in> set ?rows \<longrightarrow> snd h \<le> t)"
    "\<And>x. x \<in> set ?rows \<Longrightarrow> fst x \<in> fst ` set ?hs"
    using heads_spec[of None ?rows] by blast+
  have "distinct (map fst ?hs)" using s(1) strict_sorted_iff by blast
  then have d: "distinct (due_of_kind kind now rows)" by (auto simp: due_of_kind_def distinct_map inj_on_def)
  have row: "(i, t) \<in> set ?rows \<longleftrightarrow> (\<exists>x. x \<in> set rows \<and> dl_status x = Pending \<and> dl_destinationKind x = kind \<and> i = dl_destinationId x \<and> t = dl_nextAttemptAt x)" for i t
    by (auto simp: select_where_def)
  have "(\<exists>h. h \<in> set ?hs \<and> snd h \<le> now \<and> fst h = i) \<longleftrightarrow> (\<exists>t. (i, t) \<in> set ?rows \<and> t \<le> now)" for i
  proof
    assume "\<exists>h. h \<in> set ?hs \<and> snd h \<le> now \<and> fst h = i"
    then obtain h where h: "h \<in> set ?hs" "snd h \<le> now" "fst h = i" by blast
    have "(fst h, snd h) \<in> set ?rows" using s(2)[OF h(1)] by (simp only: prod.collapse)
    then have "(i, snd h) \<in> set ?rows" by (simp only: h(3))
    then show "\<exists>t. (i, t) \<in> set ?rows \<and> t \<le> now" using h(2) by blast
  next
    assume "\<exists>t. (i, t) \<in> set ?rows \<and> t \<le> now"
    then obtain t where t: "(i, t) \<in> set ?rows" "t \<le> now" by blast
    then obtain h where h: "h \<in> set ?hs" "fst h = i" using s(3)[OF t(1)] by auto
    then have "snd h \<le> t" using s(2)[OF h(1)] t(1) by blast
    then show "\<exists>h. h \<in> set ?hs \<and> snd h \<le> now \<and> fst h = i" using h t(2) by (intro exI[of _ h]) simp
  qed
  then have e: "{i. \<exists>h. h \<in> set ?hs \<and> snd h \<le> now \<and> fst h = i} = {i. \<exists>t. (i, t) \<in> set ?rows \<and> t \<le> now}" by blast
  have "set (due_of_kind kind now rows) = Pair kind ` {i. \<exists>h. h \<in> set ?hs \<and> snd h \<le> now \<and> fst h = i}"
    unfolding due_of_kind_def set_map set_filter by blast
  then have "set (due_of_kind kind now rows) = Pair kind ` {i. \<exists>t. (i, t) \<in> set ?rows \<and> t \<le> now}" unfolding e .
  then show ?thesis using d unfolding row by blast
qed

lemma dueDestinations_spec:
  assumes "dueDestinations kinds now D = Inr due"
  shows "distinct due \<and> set due = {(dl_destinationKind x, dl_destinationId x) | x. x \<in> set (db_deliveries D) \<and> dl_status x = Pending
      \<and> dl_destinationKind x \<in> set kinds \<and> dl_nextAttemptAt x \<le> now}"
proof -
  let ?due = "\<lambda>kind. due_of_kind kind now (db_deliveries D)"
  have e: "due = concat (map ?due (dedup kinds))" using assms by (simp add: dueDestinations_def split: if_splits)
  have other: "set (?due k) \<inter> set (?due k') = {}" if "k \<noteq> k'" for k k' using due_of_kind_spec that by auto
  have "distinct (concat (map ?due ks))" if "distinct ks" for ks
    using that by (induction ks) (use due_of_kind_spec other in auto)
  then have "distinct due" by (simp add: e)
  moreover have "set due = {(dl_destinationKind x, dl_destinationId x) | x. x \<in> set (db_deliveries D) \<and> dl_status x = Pending
      \<and> dl_destinationKind x \<in> set kinds \<and> dl_nextAttemptAt x \<le> now}"
    using due_of_kind_spec by (auto simp: e)
  ultimately show ?thesis by blast
qed

text \<open>
  C35. The loose index scan answers what the plain query would: the destinations of the asked kinds that have
  a pending delivery due now, each once, however many rows each of them has.
\<close>

theorem dueDestinations_exact:
  assumes "dueDestinations kinds now D = Inr due"
  shows "distinct due \<and> set due = {(dl_destinationKind x, dl_destinationId x) | x. x \<in> set (db_deliveries D) \<and> dl_status x = Pending
      \<and> dl_destinationKind x \<in> set kinds \<and> dl_nextAttemptAt x \<le> now}"
  by (rule dueDestinations_spec[OF assms])

theorem dueDestinations_exact_witness:
  "\<exists>due. dueDestinations [''webhook'', ''ssf''] 5 (demo_db (demo_end 5) None [demo_delivery]) = Inr due \<and> set due = {(''webhook'', ''d1'')}"
proof -
  let ?D = "demo_db (demo_end 5) None [demo_delivery]"
  obtain due where d: "dueDestinations [''webhook'', ''ssf''] 5 ?D = Inr due"
    by (simp add: dueDestinations_def checkTime_def isSafeInteger_def MAX_SAFE_INTEGER_def checkKind_def KIND_MAX_LENGTH_def)
  show ?thesis using d dueDestinations_exact[OF d]
    by (auto simp: demo_db_def demo_delivery_def new_delivery_def demo_dest_def)
qed

subsection \<open>A whole fan-out\<close>

lemma fanOutPage_busy: "fanOutPage False R K ds n now bf D = (Busy, D)"
  by (simp add: fanOutPage_def)

lemma fanOutPage_step:
  assumes "0 < n" "\<forall>d \<in> set ds. de_kind d = K" "fanOutPage locked R K ds n now bf (wd_db W) = (out, D)"
  shows "\<exists>es. queue_run C G W es (W\<lparr>wd_db := D\<rparr>)"
proof (cases locked)
  case True
  then show ?thesis using pages[of R K ds n now bf W out D C G] assms run_step[OF run_nil] by fastforce
next
  case False
  then have "D = wd_db W" using assms(3) by (simp add: fanOutPage_busy)
  then show ?thesis using run_nil[of C G W] by auto
qed

lemma stream_pages_run:
  assumes "0 < n" "\<forall>d \<in> set ds. de_kind d = K"
  shows "stream_pages locked R K ds n now bf left first (res, wd_db W) = (res', D) \<Longrightarrow> \<exists>es. queue_run C G W es (W\<lparr>wd_db := D\<rparr>)"
proof (induction left arbitrary: first res W)
  case 0
  then show ?case using run_nil[of C G W] by auto
next
  case (Suc left)
  obtain out D1 where pg: "fanOutPage locked R K ds n now bf (wd_db W) = (out, D1)" by fastforce
  obtain es where es: "queue_run C G W es (W\<lparr>wd_db := D1\<rparr>)" using fanOutPage_step[OF assms pg] by blast
  show ?case
  proof (cases "D = D1")
    case True
    then show ?thesis using es by blast
  next
    case False
    then obtain r1 where "stream_pages locked R K ds n now bf left False (r1, wd_db (W\<lparr>wd_db := D1\<rparr>)) = (res', D)"
      using Suc.prems pg by (auto simp: Let_def split: page_outcome.splits if_splits)
    from Suc.IH[OF this] obtain es' where "queue_run C G (W\<lparr>wd_db := D1\<rparr>) es' (W\<lparr>wd_db := D\<rparr>)" by auto
    then show ?thesis using queue_run_append[OF es] by blast
  qed
qed

lemma fold_streams_run:
  assumes "0 < n" "\<forall>s \<in> set ss. \<forall>d \<in> set (ds s). de_kind d = snd s"
  shows "fold (\<lambda>s. stream_pages (locked s) (fst s) (snd s) (ds s) n now (bf s) m True) ss (res, wd_db W) = (res', D) \<Longrightarrow> \<exists>es. queue_run C G W es (W\<lparr>wd_db := D\<rparr>)"
  using assms(2)
proof (induction ss arbitrary: res W)
  case Nil
  then show ?case using run_nil[of C G W] by auto
next
  case (Cons s ss)
  obtain r1 D1 where s1: "stream_pages (locked s) (fst s) (snd s) (ds s) n now (bf s) m True (res, wd_db W) = (r1, D1)" by fastforce
  obtain es where es: "queue_run C G W es (W\<lparr>wd_db := D1\<rparr>)" using stream_pages_run[OF assms(1) _ s1, of C G] Cons.prems(2) by auto
  have "fold (\<lambda>s. stream_pages (locked s) (fst s) (snd s) (ds s) n now (bf s) m True) ss (r1, wd_db (W\<lparr>wd_db := D1\<rparr>)) = (res', D)" using Cons.prems(1) s1 by simp
  from Cons.IH[OF this] obtain es' where "queue_run C G (W\<lparr>wd_db := D1\<rparr>) es' (W\<lparr>wd_db := D\<rparr>)" using Cons.prems(2) by auto
  then show ?case using queue_run_append[OF es] by blast
qed

lemma stream_destinations_kind: "d \<in> set (stream_destinations ds s) \<Longrightarrow> de_kind d = snd s"
  by (auto simp: stream_destinations_def)

lemma fanOut_run:
  assumes "fanOut locked q (wd_db W) = Inr (res, D)"
  shows "\<exists>es. queue_run C G W es (W\<lparr>wd_db := D\<rparr>)"
proof -
  let ?pairs = "streams_of (fr_destinations q)"
  have f: "queue_run C G W [Forgot (fr_kinds q) ?pairs] (W\<lparr>wd_db := forget_positions (fr_kinds q) ?pairs (wd_db W)\<rparr>)"
    using run_step[OF run_nil forgets] by fastforce
  show ?thesis
  proof (cases "D = wd_db W \<or> D = forget_positions (fr_kinds q) ?pairs (wd_db W)")
    case True
    then show ?thesis using f run_nil[of C G W] by auto
  next
    case False
    obtain size m where size: "checkCount size 1 (int EVENT_READ_LIMIT_MAX)" and fd: "fold (\<lambda>s. stream_pages (locked s) (fst s) (snd s) (stream_destinations (fr_destinations q) s) (nat size) (fr_now q)
          (map_of (fr_backfillMs q) (snd s)) m True) (filter (stream_waits (forget_positions (fr_kinds q) ?pairs (wd_db W))) ?pairs)
        (\<lparr>fo_realms = 0, fo_skippedRealms = 0, fo_events = 0, fo_deliveries = 0, fo_more = False\<rparr>, forget_positions (fr_kinds q) ?pairs (wd_db W)) = (res, D)"
      using assms False unfolding fanOut_def Let_def by (auto split: if_splits)
    let ?W = "W\<lparr>wd_db := forget_positions (fr_kinds q) ?pairs (wd_db W)\<rparr>"
    have "0 < nat size" using size by (simp add: checkCount_def)
    from fold_streams_run[OF this, of _ "stream_destinations (fr_destinations q)" locked "fr_now q" "\<lambda>s. map_of (fr_backfillMs q) (snd s)" m _ ?W] fd stream_destinations_kind
    obtain es where "queue_run C G ?W es (?W\<lparr>wd_db := D\<rparr>)" by fastforce
    then show ?thesis using queue_run_append[OF f] by auto
  qed
qed

lemma stream_waits_same: "db_log D' = db_log D \<Longrightarrow> stream_position D' (fst s) (snd s) = stream_position D (fst s) (snd s) \<Longrightarrow> stream_waits D' s = stream_waits D s"
  by (cases "stream_position D (fst s) (snd s)") (simp_all add: stream_waits_def)

lemma fanOutPage_frame:
  assumes "fanOutPage locked R K ds n now bf D = (out, D')"
  shows "db_log D' = db_log D \<and> ((R', K') \<noteq> (R, K) \<longrightarrow> stream_position D' R' K' = stream_position D R' K')"
proof (cases locked)
  case False
  then show ?thesis using assms by (simp add: fanOutPage_busy)
next
  case True
  then have "fanOutPage True R K ds n now bf D = (out, D')" using assms by simp
  then show ?thesis
  proof (cases rule: fanOutPage_cases)
    case 1
    then show ?thesis by (auto simp: stream_position_def)
  next
    case (2 p m D1 full)
    have "db_positions D1 = db_positions D" "db_log D1 = db_log D" using insert_deliveries_result[OF 2(2)] by blast+
    then show ?thesis using 2(5) by (auto simp: stream_position_def update_conv')
  qed
qed

lemma stream_pages_frame:
  "stream_pages locked R K ds n now bf left first (res, D) = (res', D') \<Longrightarrow>
     db_log D' = db_log D \<and> ((R', K') \<noteq> (R, K) \<longrightarrow> stream_position D' R' K' = stream_position D R' K') \<and> (fo_more res \<longrightarrow> fo_more res')"
proof (induction left arbitrary: first res D)
  case (Suc left)
  obtain out D1 where pg: "fanOutPage locked R K ds n now bf D = (out, D1)" by fastforce
  note f = fanOutPage_frame[OF pg, of R' K']
  show ?case
  proof (cases "\<exists>e m. out = PageRead e m True \<and> left \<noteq> 0")
    case False
    then show ?thesis using Suc.prems pg f by (auto simp: Let_def split: page_outcome.splits if_splits)
  next
    case True
    then obtain r1 where r1: "stream_pages locked R K ds n now bf left False (r1, D1) = (res', D')" "fo_more r1 = fo_more res"
      using Suc.prems pg by (auto simp: Let_def)
    show ?thesis using Suc.IH[OF r1(1)] f r1(2) by auto
  qed
qed simp

text \<open>A page that is not full leaves its stream past everything below the horizon.\<close>

lemma short_page:
  assumes "fanOutPage True R K ds n now bf D = (PageRead e m False, D')"
  shows "\<not> stream_waits D' (R, K)"
proof -
  obtain p where p: "stream_position D R K = Some p" using assms by (cases "stream_position D R K") (simp_all add: fanOutPage_def)
  let ?h = "horizon (db_log D)"
  obtain D1 where i: "db_positions D1 = db_positions D" "db_log D1 = db_log D"
    "D' = D1\<lparr>db_positions := AList.update (R, K) (if ?h > fst p then (?h, 0) else p) (db_positions D1)\<rparr>"
  proof -
    let ?read = "take n (rows_after R p (\<lambda>_. True) (db_log D))"
    obtain k D1 where ins: "insert_deliveries R now (matching_pairs ds ?read) D = (k, D1)" by fastforce
    have "length ?read \<noteq> n" "D' = D1\<lparr>db_positions := AList.update (R, K) (if ?h > fst p then (?h, 0) else p) (db_positions D1)\<rparr>"
      using assms p ins by (auto simp: fanOutPage_def Let_def simp del: length_take)
    then show ?thesis using that[of D1] insert_deliveries_result[OF ins] by simp
  qed
  have "stream_position D' R K = Some (if ?h > fst p then (?h, 0) else p)" using i(3) by (simp add: stream_position_def update_conv')
  moreover have "db_log D' = db_log D" using i(2,3) by simp
  moreover have "\<not> (er_xid r < ?h \<and> (if ?h > fst p then (?h, 0) else p) < row_pos r)" for r
    by (cases p) (auto simp: row_pos_def)
  ultimately show ?thesis by (auto simp: stream_waits_def list_ex_iff)
qed

lemma stream_pages_reads:
  assumes "stream_pages True R K ds n now bf (Suc left) first (res, D) = (res', D')" and "stream_position D R K \<noteq> None" and "\<not> fo_more res'"
  shows "\<not> stream_waits D' (R, K)"
  using assms
proof (induction left arbitrary: first res D)
  case 0
  obtain out D1 where pg: "fanOutPage True R K ds n now bf D = (out, D1)" by fastforce
  obtain e m full where out: "out = PageRead e m full" using pg "0.prems"(2) by (auto simp: fanOutPage_def Let_def split: prod.splits)
  show ?case
  proof (cases full)
    case True
    then show ?thesis using "0.prems"(1,3) pg out by (auto simp: Let_def)
  next
    case False
    then have "D' = D1" using "0.prems"(1) pg out by (auto simp: Let_def)
    then show ?thesis using short_page pg out False by simp
  qed
next
  case (Suc left)
  obtain out D1 where pg: "fanOutPage True R K ds n now bf D = (out, D1)" by fastforce
  obtain e m full where out: "out = PageRead e m full" and some: "stream_position D1 R K \<noteq> None"
    using pg Suc.prems(2) by (auto simp: fanOutPage_def Let_def stream_position_def update_conv' split: prod.splits)
  show ?case
  proof (cases full)
    case True
    then obtain r1 where "stream_pages True R K ds n now bf (Suc left) False (r1, D1) = (res', D')" using Suc.prems(1) pg out
      by (simp add: Let_def)
    then show ?thesis using Suc.IH some Suc.prems(3) by blast
  next
    case False
    then have "D' = D1" using Suc.prems(1) pg out by (auto simp: Let_def)
    then show ?thesis using short_page pg out False by simp
  qed
qed

lemma fold_streams_reads:
  assumes "fold (\<lambda>s. stream_pages (locked s) (fst s) (snd s) (ds s) n now (bf s) (Suc m) True) ss (res, D) = (res', D')" and "distinct ss" and "\<not> fo_more res'"
    and "locked t" and "stream_position D (fst t) (snd t) \<noteq> None" and "t \<notin> set ss \<Longrightarrow> \<not> stream_waits D t"
  shows "\<not> stream_waits D' t"
  using assms
proof (induction ss arbitrary: res D)
  case (Cons s ss)
  obtain r1 D1 where s1: "stream_pages (locked s) (fst s) (snd s) (ds s) n now (bf s) (Suc m) True (res, D) = (r1, D1)" by fastforce
  then have rest: "fold (\<lambda>s. stream_pages (locked s) (fst s) (snd s) (ds s) n now (bf s) (Suc m) True) ss (r1, D1) = (res', D')" using Cons.prems(1) by simp
  have more: "\<not> fo_more r1"
  proof -
    have "fo_more r1 \<longrightarrow> fo_more res'" using rest
    proof (induction ss arbitrary: r1 D1)
      case (Cons u us)
      obtain r2 D2 where u: "stream_pages (locked u) (fst u) (snd u) (ds u) n now (bf u) (Suc m) True (r1, D1) = (r2, D2)" by fastforce
      then show ?case using Cons stream_pages_frame[OF u] by auto
    qed simp
    then show ?thesis using Cons.prems(3) by blast
  qed
  note frame = stream_pages_frame[OF s1, of "fst t" "snd t"]
  show ?case
  proof (cases "s = t")
    case True
    have l: "locked s = True" using True Cons.prems(4) by simp
    have "\<not> stream_waits D1 (fst s, snd s)"
      by (rule stream_pages_reads[OF s1[unfolded l] _ more]) (use True Cons.prems(5) in simp)
    then have "\<not> stream_waits D1 t" using True by simp
    moreover have "stream_position D1 (fst t) (snd t) \<noteq> None"
      using s1 True Cons.prems(5) \<open>\<not> stream_waits D1 t\<close> by (auto simp: stream_waits_def split: option.splits)
    moreover have "t \<notin> set ss" using True Cons.prems(2) by simp
    ultimately show ?thesis using Cons.IH[OF rest _ Cons.prems(3,4)] Cons.prems(2) by simp
  next
    case False
    then have p: "stream_position D1 (fst t) (snd t) = stream_position D (fst t) (snd t)" "db_log D1 = db_log D" using frame by (auto simp: prod_eq_iff)
    then have "stream_waits D1 t = stream_waits D t" by (intro stream_waits_same)
    then show ?thesis using Cons.IH[OF rest _ Cons.prems(3,4)] Cons.prems(2,5,6) p False by simp
  qed
qed simp



end
