(* ===== verification/Delivery_Role.thy ===== *)
theory Delivery_Role
  imports Delivery_Rounds Complex_Main
begin

text \<open>
  The delivery role (\<open>libs/server/event-delivery/src/lib/delivery-role.ts\<close>, \<open>retry.ts\<close>): how it hands its
  free slots out to the destinations with work, what it keeps about attempts in flight, what it makes of a
  route's answer, and the wait before a retry. Multiplier and jitter are exact numbers; the rounding of
  doubles is left out, but for the final \<open>Math.round\<close>.
\<close>

subsection \<open>The retry schedule\<close>

record retry_schedule =
  rs_initialDelayMs :: ms
  rs_maxDelayMs :: ms
  rs_multiplier :: rat
  rs_jitter :: rat

definition DEFAULT_RETRY_SCHEDULE :: retry_schedule where
  "DEFAULT_RETRY_SCHEDULE = \<lparr>rs_initialDelayMs = 30000, rs_maxDelayMs = 6 * 60 * 60000, rs_multiplier = 2, rs_jitter = 1 / 5\<rparr>"

definition MAX_RETRY_DELAY_MS :: ms where "MAX_RETRY_DELAY_MS = 7 * 24 * 60 * 60000"

definition checkRetrySchedule :: "retry_schedule \<Rightarrow> bool" where
  "checkRetrySchedule s \<longleftrightarrow> checkCount (rs_initialDelayMs s) 1 MAX_RETRY_DELAY_MS \<and> checkCount (rs_maxDelayMs s) 1 MAX_RETRY_DELAY_MS
     \<and> rs_initialDelayMs s \<le> rs_maxDelayMs s \<and> 1 \<le> rs_multiplier s \<and> 0 \<le> rs_jitter s \<and> rs_jitter s < 1"

definition retry_base :: "retry_schedule \<Rightarrow> nat \<Rightarrow> rat" where
  "retry_base s n = min (of_int (rs_maxDelayMs s)) (of_int (rs_initialDelayMs s) * rs_multiplier s ^ (n - 1))"

definition retryDelayMs :: "int \<Rightarrow> retry_schedule \<Rightarrow> rat \<Rightarrow> ms option" where
  "retryDelayMs failedAttempt s random =
     (if \<not> isSafeInteger failedAttempt \<or> failedAttempt < 1 then None
      else let share = min (max random 0) 1
           in Some (max 1 (round (retry_base s (nat failedAttempt) * (1 - rs_jitter s * share)))))"

subsection \<open>Settings\<close>

record delivery_settings =
  ds_maxAttempts :: int
  ds_retry :: retry_schedule
  ds_leaseMs :: ms
  ds_attemptTimeoutMs :: ms
  ds_pollIntervalMs :: ms
  ds_concurrency :: int
  ds_maxInFlightPerDestination :: int
  ds_fanOutPageSize :: int
  ds_shutdownTimeoutMs :: ms

definition DEFAULT_DELIVERY_SETTINGS :: delivery_settings where
  "DEFAULT_DELIVERY_SETTINGS = \<lparr>ds_maxAttempts = 12, ds_retry = DEFAULT_RETRY_SCHEDULE, ds_leaseMs = 60000, ds_attemptTimeoutMs = 30000,
     ds_pollIntervalMs = 1000, ds_concurrency = 10, ds_maxInFlightPerDestination = 2, ds_fanOutPageSize = 500, ds_shutdownTimeoutMs = 10000\<rparr>"

text \<open>The merged settings, checked.\<close>

definition resolveDeliverySettings :: "delivery_settings \<Rightarrow> delivery_settings option" where
  "resolveDeliverySettings s =
     (if checkRetrySchedule (ds_retry s) \<and> checkCount (ds_maxAttempts s) 1 100 \<and> checkCount (ds_leaseMs s) 2 (24 * 60 * 60000)
         \<and> checkCount (ds_attemptTimeoutMs s) 1 (24 * 60 * 60000) \<and> checkCount (ds_pollIntervalMs s) 1 (60 * 60000)
         \<and> checkCount (ds_concurrency s) 1 1000 \<and> checkCount (ds_maxInFlightPerDestination s) 1 1000 \<and> checkCount (ds_fanOutPageSize s) 1 1000
         \<and> checkCount (ds_shutdownTimeoutMs s) 0 (60 * 60000)
         \<and> ds_attemptTimeoutMs s < ds_leaseMs s \<and> ds_maxInFlightPerDestination s \<le> ds_concurrency s
      then Some s else None)"

subsection \<open>Handing out the free slots\<close>

text \<open>The picks of a round, as the code's map: in order of insertion.\<close>

type_synonym picks = "((string \<times> string) \<times> nat) list"

definition pick_limit :: "picks \<Rightarrow> string \<times> string \<Rightarrow> nat" where
  "pick_limit picks d = (case map_of picks d of None \<Rightarrow> 0 | Some n \<Rightarrow> n)"

text \<open>One pass over the destinations: one slot each, while slots remain and the destination is below its limit.\<close>

fun allot_pass :: "nat \<Rightarrow> (string \<times> string \<Rightarrow> nat) \<Rightarrow> (string \<times> string) list \<Rightarrow> picks \<times> nat \<times> bool \<Rightarrow> picks \<times> nat \<times> bool" where
  "allot_pass limit inFlightAt [] s = s"
| "allot_pass limit inFlightAt (d # ds) (picks, remaining, progressed) =
     (if remaining = 0 then (picks, remaining, progressed)
      else if inFlightAt d + pick_limit picks d \<ge> limit then allot_pass limit inFlightAt ds (picks, remaining, progressed)
      else allot_pass limit inFlightAt ds (AList.update d (pick_limit picks d + 1) picks, remaining - 1, True))"

lemma allot_pass_remaining: "allot_pass limit busy ds (picks, n, g) = (picks', n', g') \<Longrightarrow> n' \<le> n \<and> (g' \<and> \<not> g \<longrightarrow> n' < n)"
proof (induction ds arbitrary: picks n g)
  case (Cons d ds)
  show ?case
  proof (cases "n = 0 \<or> busy d + pick_limit picks d \<ge> limit")
    case True
    then show ?thesis using Cons by (auto split: if_splits)
  next
    case False
    then have "allot_pass limit busy ds (AList.update d (pick_limit picks d + 1) picks, n - 1, True) = (picks', n', g')" using Cons.prems by simp
    from Cons.IH[OF this] show ?thesis using False by auto
  qed
qed simp

text \<open>The passes, until no slot remains or a pass gave none out.\<close>

function allot :: "nat \<Rightarrow> (string \<times> string \<Rightarrow> nat) \<Rightarrow> (string \<times> string) list \<Rightarrow> picks \<Rightarrow> nat \<Rightarrow> picks" where
  "allot limit inFlightAt order picks remaining =
     (if remaining = 0 then picks
      else case allot_pass limit inFlightAt order (picks, remaining, False) of
        (picks', remaining', progressed) \<Rightarrow> if progressed then allot limit inFlightAt order picks' remaining' else picks')"
  by pat_completeness auto

termination
  by (relation "measure (\<lambda>(limit, busy, order, picks, n). n)") (auto dest!: allot_pass_remaining[OF sym])

declare allot.simps [simp del]

text \<open>What the role keeps: the attempts in flight, their number by destination, and where the next round starts.\<close>

record role =
  ro_inFlight :: "((nat \<times> int) \<times> string \<times> string) list"
  ro_perDestination :: "((string \<times> string) \<times> nat) list"
  ro_rotation :: int

definition inFlightAt :: "role \<Rightarrow> string \<times> string \<Rightarrow> nat" where
  "inFlightAt R d = (case map_of (ro_perDestination R) d of None \<Rightarrow> 0 | Some n \<Rightarrow> n)"

definition rotate_from :: "nat \<Rightarrow> 'a list \<Rightarrow> 'a list" where
  "rotate_from n xs = drop n xs @ take n xs"

text \<open>The picks of one round: the destinations with work and a free place, from a different one each round.\<close>

definition open_destinations :: "delivery_settings \<Rightarrow> role \<Rightarrow> (string \<times> string) list \<Rightarrow> (string \<times> string) list" where
  "open_destinations s R due = filter (\<lambda>d. int (inFlightAt R d) < ds_maxInFlightPerDestination s) due"

definition round_picks :: "delivery_settings \<Rightarrow> role \<Rightarrow> (string \<times> string) list \<Rightarrow> picks" where
  "round_picks s R due =
     (let opened = open_destinations s R due; free = nat (ds_concurrency s - int (length (ro_inFlight R)))
      in if opened = [] then []
         else allot (nat (ds_maxInFlightPerDestination s)) (inFlightAt R) (rotate_from (nat (ro_rotation R mod int (length opened))) opened) [] free)"

definition begin_claim :: "claimed_delivery \<Rightarrow> role \<Rightarrow> role" where
  "begin_claim c R = (let d = (cl_destinationKind c, cl_destinationId c) in
     R\<lparr>ro_perDestination := AList.update d (inFlightAt R d + 1) (ro_perDestination R),
       ro_inFlight := AList.update (cl_id c, cl_attempt c) d (ro_inFlight R)\<rparr>)"

definition finish_claim :: "nat \<times> int \<Rightarrow> string \<times> string \<Rightarrow> role \<Rightarrow> role" where
  "finish_claim k d R = (let left = int (case map_of (ro_perDestination R) d of None \<Rightarrow> 1 | Some n \<Rightarrow> n) - 1 in
     R\<lparr>ro_inFlight := AList.delete k (ro_inFlight R),
       ro_perDestination := (if left > 0 then AList.update d (nat left) (ro_perDestination R) else AList.delete d (ro_perDestination R))\<rparr>)"

text \<open>
  One claim round, run alone: ask for the destinations with work, hand out the slots, claim, and begin what
  was claimed; again while everything asked for was given. \<open>stopped\<close> says the role stopped during the claim.
\<close>

definition picks_of :: "picks \<Rightarrow> pick list" where
  "picks_of ps = map (\<lambda>((k, i), n). \<lparr>pk_kind = k, pk_id = i, pk_limit = int n\<rparr>) ps"

datatype round_end = RoundOver role delivery_db | RoundAgain role delivery_db | RoundFailed role

definition claim_round :: "delivery_settings \<Rightarrow> string list \<Rightarrow> nat set \<Rightarrow> ms \<Rightarrow> bool \<Rightarrow> role \<Rightarrow> delivery_db \<Rightarrow> round_end" where
  "claim_round s kinds held now stopped R D =
     (if kinds = [] \<or> ds_concurrency s - int (length (ro_inFlight R)) \<le> 0 then RoundOver R D
      else case dueDestinations kinds now D of
        Inl _ \<Rightarrow> RoundFailed R
      | Inr due \<Rightarrow>
          if open_destinations s R due = [] then RoundOver R D
          else let R1 = R\<lparr>ro_rotation := (ro_rotation R + 1) mod MAX_SAFE_INTEGER\<rparr>; asked = round_picks s R due
               in case claim_deliveries held (picks_of asked) now (ds_leaseMs s) (ds_maxAttempts s) D of
                    Inl _ \<Rightarrow> RoundFailed R1
                  | Inr (claims, D1) \<Rightarrow>
                      if stopped then (case release_claims (map (\<lambda>c. (cl_id c, cl_attempt c)) claims) now D1 of Inl _ \<Rightarrow> RoundOver R1 D1 | Inr (_, D2) \<Rightarrow> RoundOver R1 D2)
                      else let R2 = fold begin_claim claims R1
                           in if length claims < sum_list (map snd asked) then RoundOver R2 D1 else RoundAgain R2 D1)"

subsection \<open>Outcomes\<close>

datatype delivery_outcome =
  OutcomeOk "int option"
| OutcomeHold
| OutcomeFail string "int option" bool

definition unreadableEvent :: string where "unreadableEvent = ''unreadable_event''"
definition routeError :: string where "routeError = ''route_error''"
definition timeoutError :: string where "timeoutError = ''timeout''"

text \<open>
  What a route resolved with, by the fields the role reads: a number for a status that is an integer, a text
  for an error class that is a string.
\<close>

record route_value =
  rv_ok :: "bool option"
  rv_hold :: bool
  rv_errorClass :: "string option"
  rv_statusCode :: "int option"
  rv_retryFalse :: bool

definition statusCodeOf :: "int option \<Rightarrow> int option" where
  "statusCodeOf v = (case v of None \<Rightarrow> None | Some n \<Rightarrow> if 100 \<le> n \<and> n \<le> 599 then Some n else None)"

definition outcomeOf :: "route_value option \<Rightarrow> delivery_outcome" where
  "outcomeOf result = (case result of
      None \<Rightarrow> OutcomeFail routeError None True
    | Some v \<Rightarrow>
        if rv_ok v = Some True then OutcomeOk (statusCodeOf (rv_statusCode v))
        else if rv_ok v = Some False \<and> rv_hold v then OutcomeHold
        else if rv_ok v = Some False then
          OutcomeFail (case rv_errorClass v of None \<Rightarrow> routeError | Some e \<Rightarrow> if ERROR_CLASS_PATTERN e then e else routeError)
            (statusCodeOf (rv_statusCode v)) (\<not> rv_retryFalse v)
        else OutcomeFail routeError None True)"

text \<open>How the race of a route against its time limit and the shutdown ends.\<close>

datatype race = RouteAnswered "route_value option" | TimedOut | Aborted | RouteThrew bool

definition attempt_outcome :: "string list \<Rightarrow> claimed_delivery \<Rightarrow> race \<Rightarrow> delivery_outcome option" where
  "attempt_outcome routes c r =
     (if cl_event c = None then Some (OutcomeFail unreadableEvent None False)
      else if cl_destinationKind c \<notin> set routes then Some (OutcomeFail routeError None True)
      else case r of
        RouteAnswered v \<Rightarrow> Some (outcomeOf v)
      | TimedOut \<Rightarrow> Some (OutcomeFail timeoutError None True)
      | Aborted \<Rightarrow> None
      | RouteThrew unavailable \<Rightarrow> if unavailable then Some OutcomeHold else Some (OutcomeFail routeError None True))"

definition DELIVERY_HOLD_INTERVAL_MS :: ms where "DELIVERY_HOLD_INTERVAL_MS = 30000"

datatype attempt_result = ResultDelivered | ResultRetry | ResultFailed

fun record_of :: "delivery_settings \<Rightarrow> ms \<Rightarrow> rat \<Rightarrow> int \<Rightarrow> delivery_outcome \<Rightarrow> attempt_record \<times> attempt_result option" where
  "record_of s now random attempt (OutcomeOk c) = (RecordDelivered c, Some ResultDelivered)"
| "record_of s now random attempt OutcomeHold = (RecordHold (now + DELIVERY_HOLD_INTERVAL_MS), None)"
| "record_of s now random attempt (OutcomeFail e c retry) =
     (if retry \<and> attempt < ds_maxAttempts s then (RecordRetry (now + the (retryDelayMs attempt (ds_retry s) random)) e c, Some ResultRetry)
      else (RecordFailed e c, Some ResultFailed))"

text \<open>The deliveries held because the signer is unavailable: since when, when last warned about, when last held.\<close>

definition SIGNER_HOLD_WARN_INTERVAL_MS :: ms where "SIGNER_HOLD_WARN_INTERVAL_MS = 15 * 60000"

type_synonym holds = "(nat \<times> ms \<times> ms \<times> ms) list"

definition forgetStaleSignerHolds :: "ms \<Rightarrow> holds \<Rightarrow> holds" where
  "forgetStaleSignerHolds now hs = filter (\<lambda>(_, _, _, seenAt). now - seenAt < SIGNER_HOLD_WARN_INTERVAL_MS) hs"

definition noteSignerHold :: "ms \<Rightarrow> nat \<Rightarrow> holds \<Rightarrow> bool \<times> holds" where
  "noteSignerHold now i hs = (let hs1 = forgetStaleSignerHolds now hs in
     case map_of hs1 i of
       None \<Rightarrow> (True, AList.update i (now, now, now) hs1)
     | Some (since, warnedAt, seenAt) \<Rightarrow>
         let warn = (now - warnedAt \<ge> SIGNER_HOLD_WARN_INTERVAL_MS)
         in (warn, AList.update i (since, if warn then now else warnedAt, now) hs1))"

definition signerHeld :: "ms \<Rightarrow> holds \<Rightarrow> nat \<times> ms" where
  "signerHeld now hs = (let hs1 = forgetStaleSignerHolds now hs
     in (length hs1, max 0 (now - fold (\<lambda>(_, since, _, _) m. min m since) hs1 now)))"

subsection \<open>The slots are shared fairly\<close>

definition room :: "nat \<Rightarrow> (string \<times> string \<Rightarrow> nat) \<Rightarrow> string \<times> string \<Rightarrow> nat" where
  "room limit busy d = limit - busy d"

lemma pick_limit_update: "pick_limit (AList.update d n picks) e = (if e = d then n else pick_limit picks e)"
  by (simp add: pick_limit_def update_conv')

lemma allot_pass_level:
  assumes "allot_pass limit busy ds (picks, n, g) = (picks', n', g')" and "distinct ds" and "\<forall>d \<in> set ds. pick_limit picks d = min k (room limit busy d)"
  shows "(\<exists>pre suf. ds = pre @ suf \<and> (\<forall>d \<in> set pre. pick_limit picks' d = min (Suc k) (room limit busy d)) \<and> (\<forall>d \<in> set suf. pick_limit picks' d = min k (room limit busy d))
      \<and> (suf \<noteq> [] \<longrightarrow> n' = 0) \<and> (g' \<or> (\<forall>d \<in> set pre. room limit busy d \<le> k)))
    \<and> (\<forall>d. d \<notin> set ds \<longrightarrow> pick_limit picks' d = pick_limit picks d)
    \<and> sum_list (map (pick_limit picks') ds) + n' = sum_list (map (pick_limit picks) ds) + n \<and> (g \<longrightarrow> g')"
  using assms
proof (induction ds arbitrary: picks n g)
  case Nil
  then show ?case by auto
next
  case (Cons d ds)
  have d: "d \<notin> set ds" "distinct ds" using Cons.prems(2) by simp_all
  show ?case
  proof (cases "n = 0")
    case True
    then have "picks' = picks" "n' = 0" "g' = g" using Cons.prems(1) by simp_all
    then show ?thesis using Cons.prems(3) True by (intro conjI exI[of _ "[]"] exI[of _ "d # ds"]) simp_all
  next
    case n: False
    show ?thesis
    proof (cases "busy d + pick_limit picks d \<ge> limit")
      case True
      then have a: "allot_pass limit busy ds (picks, n, g) = (picks', n', g')" using Cons.prems(1) n by simp
      note IH = Cons.IH[OF a d(2)]
      have full: "room limit busy d \<le> k" using True Cons.prems(3) by (auto simp: room_def)
      obtain pre suf where ps: "ds = pre @ suf" "\<forall>e \<in> set pre. pick_limit picks' e = min (Suc k) (room limit busy e)"
        "\<forall>e \<in> set suf. pick_limit picks' e = min k (room limit busy e)" "suf \<noteq> [] \<longrightarrow> n' = 0" "g' \<or> (\<forall>e \<in> set pre. room limit busy e \<le> k)"
        using IH Cons.prems(3) by auto
      have same: "pick_limit picks' d = pick_limit picks d" using IH Cons.prems(3) d(1) by (simp del: split_paired_All)
      have "pick_limit picks' d = min (Suc k) (room limit busy d)" using same Cons.prems(3) full by simp
      then have level: "\<forall>e \<in> set (d # pre). pick_limit picks' e = min (Suc k) (room limit busy e)" using ps(2) by simp
      have "sum_list (map (pick_limit picks') (d # ds)) + n' = sum_list (map (pick_limit picks) (d # ds)) + n" using IH Cons.prems(3) same by simp
      moreover have "pick_limit picks' e = pick_limit picks e" if "e \<notin> set (d # ds)" for e using IH Cons.prems(3) that by (simp del: split_paired_All)
      moreover have "g \<longrightarrow> g'" using IH Cons.prems(3) by (simp del: split_paired_All)
      moreover have "g' \<or> (\<forall>e \<in> set (d # pre). room limit busy e \<le> k)" using ps(5) full by simp
      moreover have "d # ds = (d # pre) @ suf" using ps(1) by simp
      ultimately show ?thesis using level ps(3,4) by blast
    next
      case False
      let ?p = "AList.update d (pick_limit picks d + 1) picks"
      have a: "allot_pass limit busy ds (?p, n - 1, True) = (picks', n', g')" using Cons.prems(1) n False by simp
      have lv: "\<forall>e \<in> set ds. pick_limit ?p e = min k (room limit busy e)" using Cons.prems(3) d(1) by (auto simp: pick_limit_update)
      note IH = Cons.IH[OF a d(2) lv]
      have pd: "pick_limit picks d = min k (room limit busy d)" using Cons.prems(3) by simp
      have out: "pick_limit picks' e = pick_limit ?p e" if "e \<notin> set ds" for e using IH that by blast
      have dd: "pick_limit picks' d = Suc (pick_limit picks d)" using out[OF d(1)] by (simp add: pick_limit_update)
      have new: "pick_limit picks' d = min (Suc k) (room limit busy d)" using dd pd False by (auto simp: room_def)
      obtain pre suf where ps: "ds = pre @ suf" "\<forall>e \<in> set pre. pick_limit picks' e = min (Suc k) (room limit busy e)"
        "\<forall>e \<in> set suf. pick_limit picks' e = min k (room limit busy e)" "suf \<noteq> [] \<longrightarrow> n' = 0"
        using IH by auto
      have g': "g'" using IH by simp
      have m: "map (pick_limit ?p) ds = map (pick_limit picks) ds" using d(1) by (auto simp: pick_limit_update)
      have sums: "sum_list (map (pick_limit picks') ds) + n' = sum_list (map (pick_limit picks) ds) + (n - 1)" using IH unfolding m by blast
      have other: "pick_limit picks' e = pick_limit picks e" if "e \<notin> set (d # ds)" for e
        using out[of e] that by (simp add: pick_limit_update)
      have level: "\<forall>e \<in> set (d # pre). pick_limit picks' e = min (Suc k) (room limit busy e)" using ps(2) new by simp
      have "sum_list (map (pick_limit picks') (d # ds)) + n' = sum_list (map (pick_limit picks) (d # ds)) + n" using sums dd n by simp
      moreover have "d # ds = (d # pre) @ suf" using ps(1) by simp
      ultimately show ?thesis using level ps(3,4) g' other by blast
    qed
  qed
qed

lemma allot_level:
  assumes "distinct order" and "\<forall>d \<in> set order. pick_limit picks d = min k (room limit busy d)"
  shows "\<exists>j pre suf rest. order = pre @ suf \<and> (\<forall>d \<in> set pre. pick_limit (allot limit busy order picks n) d = min (Suc j) (room limit busy d))
      \<and> (\<forall>d \<in> set suf. pick_limit (allot limit busy order picks n) d = min j (room limit busy d))
      \<and> sum_list (map (pick_limit (allot limit busy order picks n)) order) + rest = sum_list (map (pick_limit picks) order) + n
      \<and> (rest = 0 \<or> (\<forall>d \<in> set order. pick_limit (allot limit busy order picks n) d = room limit busy d))"
  using assms
proof (induction limit busy order picks n arbitrary: k rule: allot.induct)
  case (1 limit busy order picks n)
  show ?case
  proof (cases "n = 0")
    case True
    then have "allot limit busy order picks n = picks" by (simp add: allot.simps)
    then show ?thesis using "1.prems"(2) True by (intro exI[of _ k] exI[of _ "[]"] exI[of _ order] exI[of _ 0]) simp
  next
    case n: False
    obtain picks' n' g' where a: "allot_pass limit busy order (picks, n, False) = (picks', n', g')" by (metis surj_pair)
    note lv = allot_pass_level[OF a "1.prems"]
    obtain pre suf where ps: "order = pre @ suf" "\<forall>d \<in> set pre. pick_limit picks' d = min (Suc k) (room limit busy d)"
      "\<forall>d \<in> set suf. pick_limit picks' d = min k (room limit busy d)" "suf \<noteq> [] \<longrightarrow> n' = 0" "g' \<or> (\<forall>d \<in> set pre. room limit busy d \<le> k)"
      using lv by blast
    have sums: "sum_list (map (pick_limit picks') order) + n' = sum_list (map (pick_limit picks) order) + n" using lv by blast
    have stop: ?thesis if e: "allot limit busy order picks n = picks'" and full: "n' = 0 \<or> (\<forall>d \<in> set order. pick_limit picks' d = room limit busy d)"
      unfolding e using ps(1-3) sums full by blast
    show ?thesis
    proof (cases g')
      case False
      then have e: "allot limit busy order picks n = picks'" using a n by (simp add: allot.simps[of limit busy order picks n])
      have "n' = 0 \<or> suf = []" using ps(4) by blast
      then show ?thesis
      proof
        assume "suf = []"
        then have "\<forall>d \<in> set order. pick_limit picks' d = room limit busy d" using ps(1,2,5) False by (auto simp: min_def)
        then show ?thesis using stop[OF e] by blast
      qed (use stop[OF e] in blast)
    next
      case True
      then have e: "allot limit busy order picks n = allot limit busy order picks' n'" using a n by (simp add: allot.simps[of limit busy order picks n])
      show ?thesis
      proof (cases "suf = []")
        case s: True
        have l: "\<forall>d \<in> set order. pick_limit picks' d = min (Suc k) (room limit busy d)" using ps(1,2) s by simp
        have IH: "\<exists>j pre suf rest. order = pre @ suf \<and> (\<forall>d \<in> set pre. pick_limit (allot limit busy order picks' n') d = min (Suc j) (room limit busy d))
          \<and> (\<forall>d \<in> set suf. pick_limit (allot limit busy order picks' n') d = min j (room limit busy d))
          \<and> sum_list (map (pick_limit (allot limit busy order picks' n')) order) + rest = sum_list (map (pick_limit picks') order) + n'
          \<and> (rest = 0 \<or> (\<forall>d \<in> set order. pick_limit (allot limit busy order picks' n') d = room limit busy d))"
          by (rule "1.IH"[OF n a[symmetric] refl True "1.prems"(1) l])
        then show ?thesis unfolding e sums .
      next
        case False
        then have "n' = 0" using ps(4) by blast
        then have "allot limit busy order picks n = picks'" using e by (simp add: allot.simps)
        then show ?thesis using stop \<open>n' = 0\<close> by blast
      qed
    qed
  qed
qed

lemma set_rotate_from: "set (rotate_from n xs) = set xs"
proof -
  have "set xs = set (take n xs @ drop n xs)" by simp
  then show ?thesis by (auto simp: rotate_from_def simp del: append_take_drop_id)
qed

lemma distinct_rotate_from: "distinct xs \<Longrightarrow> distinct (rotate_from n xs)"
proof -
  assume "distinct xs"
  then have "distinct (take n xs @ drop n xs)" by simp
  then show ?thesis unfolding rotate_from_def distinct_append by blast
qed

lemma sum_rotate_from: "sum_list (map f (rotate_from n xs)) = sum_list (map f xs :: nat list)"
proof -
  have "sum_list (map f (take n xs @ drop n xs)) = sum_list (map f (drop n xs)) + sum_list (map f (take n xs))" by (simp only: map_append sum_list_append add.commute)
  then show ?thesis by (simp add: rotate_from_def)
qed

lemma round_picks_fair:
  assumes "distinct due"
  shows "(\<forall>d \<in> set (open_destinations s R due). pick_limit (round_picks s R due) d \<le> room (nat (ds_maxInFlightPerDestination s)) (inFlightAt R) d)
    \<and> sum_list (map (pick_limit (round_picks s R due)) (open_destinations s R due))
        = min (nat (ds_concurrency s - int (length (ro_inFlight R)))) (sum_list (map (room (nat (ds_maxInFlightPerDestination s)) (inFlightAt R)) (open_destinations s R due)))
    \<and> (\<forall>d \<in> set (open_destinations s R due). \<forall>e \<in> set (open_destinations s R due).
        pick_limit (round_picks s R due) d + 2 \<le> pick_limit (round_picks s R due) e
          \<longrightarrow> pick_limit (round_picks s R due) d = room (nat (ds_maxInFlightPerDestination s)) (inFlightAt R) d)"
proof -
  let ?o = "open_destinations s R due" and ?l = "nat (ds_maxInFlightPerDestination s)" and ?free = "nat (ds_concurrency s - int (length (ro_inFlight R)))"
  let ?room = "room ?l (inFlightAt R)"
  show ?thesis
  proof (cases "?o = []")
    case True
    then show ?thesis by simp
  next
    case False
    let ?order = "rotate_from (nat (ro_rotation R mod int (length ?o))) ?o"
    let ?p = "pick_limit (round_picks s R due)"
    have rp: "round_picks s R due = allot ?l (inFlightAt R) ?order [] ?free" using False by (simp add: round_picks_def Let_def)
    have "distinct ?order" using assms by (simp add: distinct_rotate_from open_destinations_def)
    moreover have "\<forall>d \<in> set ?order. pick_limit [] d = min 0 (?room d)" by (simp add: pick_limit_def)
    ultimately obtain j pre suf rest where h: "?order = pre @ suf" "\<forall>d \<in> set pre. ?p d = min (Suc j) (?room d)" "\<forall>d \<in> set suf. ?p d = min j (?room d)"
      "sum_list (map ?p ?order) + rest = sum_list (map (pick_limit []) ?order) + ?free" "rest = 0 \<or> (\<forall>d \<in> set ?order. ?p d = ?room d)"
      using allot_level[of ?order "[]" 0 ?l "inFlightAt R" ?free] unfolding rp by blast
    have mem: "set ?o = set pre \<union> set suf" using h(1) set_rotate_from[of "nat (ro_rotation R mod int (length ?o))" ?o] by simp
    have lev: "?p d = min (Suc j) (?room d) \<or> ?p d = min j (?room d)" if "d \<in> set ?o" for d using that h(2,3) mem by blast
    have le: "?p d \<le> ?room d" if "d \<in> set ?o" for d using lev[OF that] by auto
    have z: "sum_list (map (pick_limit []) ?order) = 0" by (simp add: pick_limit_def)
    have sum: "sum_list (map ?p ?o) + rest = ?free" using h(4) z by (simp add: sum_rotate_from)
    have "sum_list (map ?p ?o) \<le> sum_list (map ?room ?o)" by (rule sum_list_mono) (rule le)
    moreover have "sum_list (map ?p ?o) = sum_list (map ?room ?o)" if "rest \<noteq> 0"
    proof -
      have "\<forall>d \<in> set ?o. ?p d = ?room d" using h(5) that by (simp add: set_rotate_from)
      then show ?thesis by (simp cong: map_cong)
    qed
    ultimately have "sum_list (map ?p ?o) = min ?free (sum_list (map ?room ?o))" using sum by (cases "rest = 0") auto
    moreover have "?p d = ?room d" if "d \<in> set ?o" "e \<in> set ?o" "?p d + 2 \<le> ?p e" for d e
      using lev[OF that(1)] lev[OF that(2)] that(3) by auto
    ultimately show ?thesis using le by blast
  qed
qed

text \<open>
  C37. The free slots of a round are shared fairly and none is left idle: no destination gets more than its
  limit leaves room for; together the destinations get as many as there are slots, or all they have room
  for; and one gets two more than another only where the other's room is used up.
\<close>

theorem slots_are_shared_fairly:
  assumes "distinct due"
  shows "(\<forall>d \<in> set (open_destinations s R due). pick_limit (round_picks s R due) d \<le> room (nat (ds_maxInFlightPerDestination s)) (inFlightAt R) d)
    \<and> sum_list (map (pick_limit (round_picks s R due)) (open_destinations s R due))
        = min (nat (ds_concurrency s - int (length (ro_inFlight R)))) (sum_list (map (room (nat (ds_maxInFlightPerDestination s)) (inFlightAt R)) (open_destinations s R due)))
    \<and> (\<forall>d \<in> set (open_destinations s R due). \<forall>e \<in> set (open_destinations s R due).
        pick_limit (round_picks s R due) d + 2 \<le> pick_limit (round_picks s R due) e
          \<longrightarrow> pick_limit (round_picks s R due) d = room (nat (ds_maxInFlightPerDestination s)) (inFlightAt R) d)"
  by (rule round_picks_fair[OF assms])

theorem slots_are_shared_fairly_witness:
  "sum_list (map (pick_limit (round_picks (DEFAULT_DELIVERY_SETTINGS\<lparr>ds_concurrency := 4\<rparr>) \<lparr>ro_inFlight = [], ro_perDestination = [], ro_rotation = 1\<rparr>
      [(''webhook'', ''a''), (''webhook'', ''b''), (''ssf'', ''c'')])) [(''webhook'', ''a''), (''webhook'', ''b''), (''ssf'', ''c'')]) = 4"
proof -
  let ?s = "DEFAULT_DELIVERY_SETTINGS\<lparr>ds_concurrency := 4\<rparr>" and ?R = "\<lparr>ro_inFlight = [], ro_perDestination = [], ro_rotation = 1\<rparr>"
  let ?due = "[(''webhook'', ''a''), (''webhook'', ''b''), (''ssf'', ''c'')]"
  have f: "inFlightAt ?R d = 0" "ds_maxInFlightPerDestination ?s = 2" "ds_concurrency ?s = 4" for d by (simp_all add: inFlightAt_def DEFAULT_DELIVERY_SETTINGS_def)
  then have o: "open_destinations ?s ?R ?due = ?due" by (simp add: open_destinations_def)
  have "distinct ?due" by simp
  from slots_are_shared_fairly[OF this, of ?s ?R]
  have "sum_list (map (pick_limit (round_picks ?s ?R ?due)) ?due) = min (nat (4 - int (length (ro_inFlight ?R)))) (sum_list (map (room (nat 2) (inFlightAt ?R)) ?due))"
    unfolding o f(2,3) by blast
  also have "\<dots> = 4" by (simp add: room_def f(1))
  finally show ?thesis .
qed

subsection \<open>The waits between attempts\<close>

lemma retryDelayMs_Some:
  assumes "retryDelayMs n s r = Some d"
  obtains share where "0 \<le> share" "share \<le> 1" "d = max 1 (round (retry_base s (nat n) * (1 - rs_jitter s * share)))" "1 \<le> n"
proof -
  have "1 \<le> n" "d = max 1 (round (retry_base s (nat n) * (1 - rs_jitter s * min (max r 0) 1)))"
    using assms by (simp_all add: retryDelayMs_def split: if_splits)
  then show thesis using that[of "min (max r 0) 1"] by simp
qed

lemma jitter_bounds:
  assumes "checkRetrySchedule s" and "0 \<le> share" "share \<le> 1"
  shows "1 - rs_jitter s \<le> 1 - rs_jitter s * share" and "1 - rs_jitter s * share \<le> 1"
proof -
  have j: "0 \<le> rs_jitter s" using assms(1) by (simp add: checkRetrySchedule_def)
  show "1 - rs_jitter s \<le> 1 - rs_jitter s * share" using mult_left_le[OF assms(3) j] by simp
  show "1 - rs_jitter s * share \<le> 1" using j assms(2) by simp
qed

lemma retry_base_pos: "checkRetrySchedule s \<Longrightarrow> 0 \<le> retry_base s n"
  by (simp add: retry_base_def checkRetrySchedule_def checkCount_def)

text \<open>
  C38. The waits between attempts: a wait is at least a millisecond and never above the cap; and as long as
  the multiplier outweighs the jitter and the cap is not reached, no wait is shorter than the one before,
  whatever the random shares taken off both.
\<close>

theorem retries_back_off:
  assumes "checkRetrySchedule s" and "retryDelayMs n s r = Some d" and "retryDelayMs (n + 1) s r' = Some d'"
  shows "1 \<le> d \<and> d \<le> rs_maxDelayMs s
    \<and> (1 \<le> rs_multiplier s * (1 - rs_jitter s) \<and> of_int (rs_initialDelayMs s) * rs_multiplier s ^ nat n \<le> of_int (rs_maxDelayMs s) \<longrightarrow> d \<le> d')"
proof (intro conjI impI)
  obtain sh where sh: "0 \<le> sh" "sh \<le> 1" "d = max 1 (round (retry_base s (nat n) * (1 - rs_jitter s * sh)))" "1 \<le> n" using assms(2) by (rule retryDelayMs_Some)
  obtain sh' where sh': "0 \<le> sh'" "sh' \<le> 1" "d' = max 1 (round (retry_base s (nat (n + 1)) * (1 - rs_jitter s * sh')))" using assms(3) by (rule retryDelayMs_Some)
  note b = retry_base_pos[OF assms(1), of "nat n"]
  have max1: "1 \<le> rs_maxDelayMs s" and m1: "1 \<le> rs_multiplier s" using assms(1) by (simp_all add: checkRetrySchedule_def checkCount_def)
  have upper: "retry_base s (nat n) * (1 - rs_jitter s * sh) \<le> retry_base s (nat n)"
    using mult_left_le[OF jitter_bounds(2)[OF assms(1) sh(1,2)] b] by simp
  show "1 \<le> d" by (simp add: sh(3))
  have "retry_base s (nat n) * (1 - rs_jitter s * sh) \<le> of_int (rs_maxDelayMs s)" using upper by (simp add: retry_base_def)
  then have "round (retry_base s (nat n) * (1 - rs_jitter s * sh)) \<le> rs_maxDelayMs s" using round_mono[of _ "of_int (rs_maxDelayMs s) :: rat"] by simp
  then show "d \<le> rs_maxDelayMs s" using max1 by (simp add: sh(3))
  assume c: "1 \<le> rs_multiplier s * (1 - rs_jitter s) \<and> of_int (rs_initialDelayMs s) * rs_multiplier s ^ nat n \<le> of_int (rs_maxDelayMs s)"
  have pow: "rs_multiplier s ^ nat n = rs_multiplier s * rs_multiplier s ^ (nat n - 1)" using sh(4) by (cases "nat n") simp_all
  have i0: "0 \<le> (of_int (rs_initialDelayMs s) :: rat)" using assms(1) by (simp add: checkRetrySchedule_def checkCount_def)
  have p0: "0 \<le> of_int (rs_initialDelayMs s) * rs_multiplier s ^ (nat n - 1)" using i0 m1 by simp
  have next_base: "retry_base s (nat (n + 1)) = of_int (rs_initialDelayMs s) * rs_multiplier s ^ nat n" using c sh(4) by (simp add: retry_base_def nat_add_distrib)
  have "retry_base s (nat n) \<le> of_int (rs_initialDelayMs s) * rs_multiplier s ^ (nat n - 1)" by (simp add: retry_base_def)
  also have "\<dots> \<le> of_int (rs_initialDelayMs s) * rs_multiplier s ^ (nat n - 1) * (rs_multiplier s * (1 - rs_jitter s))"
    using mult_left_mono[OF conjunct1[OF c] p0] by simp
  also have "\<dots> = retry_base s (nat (n + 1)) * (1 - rs_jitter s)" by (simp add: next_base pow mult_ac)
  also have "\<dots> \<le> retry_base s (nat (n + 1)) * (1 - rs_jitter s * sh')"
    by (rule mult_left_mono[OF jitter_bounds(1)[OF assms(1) sh'(1,2)] retry_base_pos[OF assms(1)]])
  finally have "round (retry_base s (nat n) * (1 - rs_jitter s * sh)) \<le> round (retry_base s (nat (n + 1)) * (1 - rs_jitter s * sh'))"
    using upper by (intro round_mono) (rule order_trans)
  then show "d \<le> d'" by (simp add: sh(3) sh'(3))
qed

theorem retries_back_off_witness:
  "retryDelayMs 1 DEFAULT_RETRY_SCHEDULE (1 / 2) = Some 27000 \<and> (\<exists>d. retryDelayMs 2 DEFAULT_RETRY_SCHEDULE 0 = Some d \<and> 27000 \<le> d \<and> d \<le> 21600000)"
proof -
  have c: "checkRetrySchedule DEFAULT_RETRY_SCHEDULE"
    by (simp add: checkRetrySchedule_def DEFAULT_RETRY_SCHEDULE_def checkCount_def isSafeInteger_def MAX_SAFE_INTEGER_def MAX_RETRY_DELAY_MS_def)
  have d1: "retryDelayMs 1 DEFAULT_RETRY_SCHEDULE (1 / 2) = Some 27000"
    by (simp add: retryDelayMs_def DEFAULT_RETRY_SCHEDULE_def retry_base_def isSafeInteger_def MAX_SAFE_INTEGER_def)
  obtain d where d2: "retryDelayMs (1 + 1) DEFAULT_RETRY_SCHEDULE 0 = Some d" by (simp add: retryDelayMs_def isSafeInteger_def MAX_SAFE_INTEGER_def)
  obtain e where d3: "retryDelayMs (2 + 1) DEFAULT_RETRY_SCHEDULE 0 = Some e" by (simp add: retryDelayMs_def isSafeInteger_def MAX_SAFE_INTEGER_def)
  have "27000 \<le> d" using retries_back_off[OF c d1 d2] by (simp add: DEFAULT_RETRY_SCHEDULE_def)
  moreover have "retryDelayMs 2 DEFAULT_RETRY_SCHEDULE 0 = Some d" using d2 by simp
  moreover have "d \<le> 21600000" using retries_back_off[OF c calculation(2) d3] by (simp add: DEFAULT_RETRY_SCHEDULE_def)
  ultimately show ?thesis using d1 by blast
qed

subsection \<open>What the role records\<close>

lemma statusCodeOf_ok: "status_code_ok (statusCodeOf v)"
  by (simp add: status_code_ok_def statusCodeOf_def split: option.split)

lemma error_classes: "ERROR_CLASS_PATTERN unreadableEvent" "ERROR_CLASS_PATTERN routeError" "ERROR_CLASS_PATTERN timeoutError"
  by (simp_all add: ERROR_CLASS_PATTERN_def unreadableEvent_def routeError_def timeoutError_def word_char_def)

definition outcome_ok :: "delivery_outcome \<Rightarrow> bool" where
  "outcome_ok out = (case out of OutcomeOk c \<Rightarrow> status_code_ok c | OutcomeHold \<Rightarrow> True | OutcomeFail e c retry \<Rightarrow> ERROR_CLASS_PATTERN e \<and> status_code_ok c)"

lemma outcomeOf_ok: "outcome_ok (outcomeOf v)"
  by (auto simp: outcome_ok_def outcomeOf_def statusCodeOf_ok error_classes status_code_ok_def[of None] Let_def split: option.split)

lemma attempt_outcome_ok: "attempt_outcome routes c r = Some out \<Longrightarrow> outcome_ok out"
  using outcomeOf_ok by (auto simp: attempt_outcome_def outcome_ok_def error_classes status_code_ok_def split: if_splits race.splits)



subsection \<open>The role keeps its limits\<close>

lemma sum_update: "sum_list (map snd (AList.update d (pick_limit picks d + 1) picks)) = sum_list (map snd picks) + 1"
  by (induction picks) (auto simp: pick_limit_def)

lemma keys_after_pass:
  assumes "allot_pass limit busy ds (picks, n, g) = (picks', n', g')"
  shows "sum_list (map snd picks') + n' = sum_list (map snd picks) + n \<and> fst ` set picks' \<subseteq> fst ` set picks \<union> set ds
    \<and> (distinct (map fst picks) \<longrightarrow> distinct (map fst picks'))"
  using assms
proof (induction ds arbitrary: picks n g)
  case (Cons d ds)
  show ?case
  proof (cases "n = 0 \<or> limit \<le> busy d + pick_limit picks d")
    case True
    show ?thesis
    proof (cases "n = 0")
      case z: True
      then show ?thesis using Cons.prems by auto
    next
      case z: False
      then have a: "allot_pass limit busy ds (picks, n, g) = (picks', n', g')" using Cons.prems True by simp
      have "set ds \<subseteq> set (d # ds)" by auto
      then show ?thesis using Cons.IH[OF a] by blast
    qed
  next
    case False
    then have a: "allot_pass limit busy ds (AList.update d (pick_limit picks d + 1) picks, n - 1, True) = (picks', n', g')" using Cons.prems by simp
    have "fst ` set (AList.update d (pick_limit picks d + 1) picks) = insert d (fst ` set picks)" by (simp add: dom_update)
    then show ?thesis using Cons.IH[OF a] False sum_update[of d picks] by (auto simp: distinct_update)
  qed
qed simp

lemma keys_after_allot:
  "sum_list (map snd (allot limit busy order picks n)) \<le> sum_list (map snd picks) + n \<and> fst ` set (allot limit busy order picks n) \<subseteq> fst ` set picks \<union> set order
   \<and> (distinct (map fst picks) \<longrightarrow> distinct (map fst (allot limit busy order picks n)))"
proof (induction limit busy order picks n rule: allot.induct)
  case (1 limit busy order picks n)
  show ?case
  proof (cases "n = 0")
    case True
    then show ?thesis by (auto simp: allot.simps)
  next
    case n: False
    obtain picks' n' g' where a: "allot_pass limit busy order (picks, n, False) = (picks', n', g')" by (metis surj_pair)
    note k = keys_after_pass[OF a]
    show ?thesis
    proof (cases g')
      case True
      then have "allot limit busy order picks n = allot limit busy order picks' n'" using a n by (simp add: allot.simps[of limit busy order picks n])
      then show ?thesis using "1.IH"[OF n a[symmetric] refl True] k by auto
    next
      case False
      then have "allot limit busy order picks n = picks'" using a n by (simp add: allot.simps[of limit busy order picks n])
      then show ?thesis using k by auto
    qed
  qed
qed

text \<open>The store gives a destination no more claims than were asked for it.\<close>

lemma claim_counts:
  assumes k: "keys_ok D" and dps: "distinct (map fst ps)" and c: "claim_deliveries held (picks_of ps) now leaseMs maxAttempts D = Inr (cs, D')"
  shows "length (filter (\<lambda>c. (cl_destinationKind c, cl_destinationId c) = d) cs) \<le> pick_limit ps d" and "length cs \<le> sum_list (map snd ps)"
proof -
  let ?asked = "filter (\<lambda>p. 0 < pk_limit p) (picks_of ps)" and ?f = "claim_row now (now + leaseMs) maxAttempts"
  let ?S = "dl_id ` set (concat (map (due_rows held now D) ?asked))"
  let ?rows = "filter (\<lambda>x. dl_id x \<in> ?S) (db_deliveries D)"
  have cs: "cs = [] \<or> cs = map (claimed_of D) (filter (\<lambda>x. dl_status x = Pending \<and> dl_lockedUntil x \<noteq> None) (map ?f ?rows))"
    using c by (auto simp: claim_deliveries_def Let_def update_where_def simp del: set_concat set_map split: if_splits)
  have dr: "distinct (db_deliveries D)" using k by (simp add: keys_ok_def unique_on_def distinct_map)
  have due: "x \<in> set (concat (map (due_rows held now D) ?asked))" if x: "x \<in> set ?rows" for x
  proof -
    obtain y where y: "y \<in> set (concat (map (due_rows held now D) ?asked))" "dl_id y = dl_id x" using x by (auto simp del: set_concat set_map)
    then have "y \<in> set (db_deliveries D)" by (auto dest: due_rows_mem)
    then have "y = x" using same_id[OF k _ _ y(2)] x by simp
    then show ?thesis using y(1) by simp
  qed
  have dest: "(cl_destinationKind (claimed_of D (?f x)), cl_destinationId (claimed_of D (?f x))) = (dl_destinationKind x, dl_destinationId x)" for x
    by (simp add: claimed_of_def claim_row_def)
  have per: "length (filter (\<lambda>x. (dl_destinationKind x, dl_destinationId x) = d) ?rows) \<le> pick_limit ps d"
  proof -
    let ?mine = "filter (\<lambda>x. (dl_destinationKind x, dl_destinationId x) = d) ?rows"
    have pick: "\<exists>n. (d, n) \<in> set ps \<and> x \<in> set (due_rows held now D \<lparr>pk_kind = fst d, pk_id = snd d, pk_limit = int n\<rparr>)" if x: "x \<in> set ?mine" for x
    proof -
      have "x \<in> set ?rows" and xd: "(dl_destinationKind x, dl_destinationId x) = d" using x by simp_all
      from due[OF this(1)] obtain p where p: "p \<in> set (picks_of ps)" "x \<in> set (due_rows held now D p)" by auto
      then obtain e n where e: "(e, n) \<in> set ps" "p = \<lparr>pk_kind = fst e, pk_id = snd e, pk_limit = int n\<rparr>" by (auto simp: picks_of_def)
      have "dl_destinationKind x = pk_kind p \<and> dl_destinationId x = pk_id p" using p(2) by (auto simp: due_rows_def select_where_def dest!: in_set_takeD)
      then have "e = d" using xd e(2) by auto
      then show ?thesis using e p(2) by auto
    qed
    show ?thesis
    proof (cases "?mine = []")
      case False
      then obtain x where "x \<in> set ?mine" by (meson last_in_set)
      then obtain n where n: "(d, n) \<in> set ps" using pick by blast
      let ?p = "\<lparr>pk_kind = fst d, pk_id = snd d, pk_limit = int n\<rparr>"
      have "set ?mine \<subseteq> set (due_rows held now D ?p)"
      proof
        fix y assume "y \<in> set ?mine"
        then obtain m where m: "(d, m) \<in> set ps" "y \<in> set (due_rows held now D \<lparr>pk_kind = fst d, pk_id = snd d, pk_limit = int m\<rparr>)" using pick by blast
        have "m = n" by (rule eq_key_imp_eq_value[OF dps m(1) n])
        then show "y \<in> set (due_rows held now D ?p)" using m(2) by simp
      qed
      then have "card (set ?mine) \<le> card (set (due_rows held now D ?p))" by (intro card_mono) simp_all
      also have "\<dots> \<le> length (due_rows held now D ?p)" by (rule card_length)
      also have "\<dots> \<le> n" by (simp add: due_rows_def)
      also have "n = pick_limit ps d" using map_of_is_SomeI[OF dps n] by (simp add: pick_limit_def)
      finally show ?thesis using distinct_card[of ?mine] dr by simp
    qed simp
  qed
  have sub: "length (filter P (map (claimed_of D) (filter Q (map ?f ?rows)))) \<le> length (filter (\<lambda>x. P (claimed_of D (?f x))) ?rows)" for P Q
  proof -
    have "length (filter P (map (claimed_of D) (filter Q (map ?f xs)))) \<le> length (filter (\<lambda>x. P (claimed_of D (?f x))) xs)" for xs
      by (induction xs) auto
    then show ?thesis .
  qed
  show "length (filter (\<lambda>c. (cl_destinationKind c, cl_destinationId c) = d) cs) \<le> pick_limit ps d"
    using cs
  proof
    assume e: "cs = map (claimed_of D) (filter (\<lambda>x. dl_status x = Pending \<and> dl_lockedUntil x \<noteq> None) (map ?f ?rows))"
    have "length (filter (\<lambda>c. (cl_destinationKind c, cl_destinationId c) = d) cs) \<le> length (filter (\<lambda>x. (dl_destinationKind x, dl_destinationId x) = d) ?rows)"
      unfolding e using sub[of "\<lambda>c. (cl_destinationKind c, cl_destinationId c) = d"] unfolding dest .
    then show ?thesis using per by (rule order_trans)
  qed simp
  have "length ?rows = card (set ?rows)" using distinct_card[of ?rows] dr by simp
  also have "\<dots> \<le> card (set (concat (map (due_rows held now D) ?asked)))" by (rule card_mono) (use due in blast)+
  also have "\<dots> \<le> length (concat (map (due_rows held now D) ?asked))" by (rule card_length)
  also have "\<dots> = sum_list (map (\<lambda>p. length (due_rows held now D p)) ?asked)" by (simp add: length_concat comp_def)
  also have "\<dots> \<le> sum_list (map (\<lambda>p. nat (pk_limit p)) ?asked)" by (rule sum_list_mono) (simp add: due_rows_def)
  also have "\<dots> \<le> sum_list (map (\<lambda>p. nat (pk_limit p)) (picks_of ps))"   proof -
    have "sum_list (map f (filter P xs)) \<le> sum_list (map f xs)" for f :: "pick \<Rightarrow> nat" and P xs by (induction xs) auto
    then show ?thesis .
  qed
  also have "\<dots> = sum_list (map snd ps)" by (simp add: picks_of_def comp_def case_prod_beta)
  finally have "length ?rows \<le> sum_list (map snd ps)" .
  then show "length cs \<le> sum_list (map snd ps)" using cs
  proof (elim disjE)
    assume e: "cs = map (claimed_of D) (filter (\<lambda>x. dl_status x = Pending \<and> dl_lockedUntil x \<noteq> None) (map ?f ?rows))"
    have "length (filter (\<lambda>_. True) cs) \<le> length (filter (\<lambda>_. True) ?rows)" unfolding e by (rule sub)
    then show ?thesis using \<open>length ?rows \<le> sum_list (map snd ps)\<close> by simp
  qed simp
qed

lemma begin_claims:
  "inFlightAt (fold begin_claim cs R) d = inFlightAt R d + length (filter (\<lambda>c. (cl_destinationKind c, cl_destinationId c) = d) cs)
   \<and> length (ro_inFlight (fold begin_claim cs R)) \<le> length (ro_inFlight R) + length cs"
proof (induction cs arbitrary: R)
  case (Cons c cs)
  have one: "inFlightAt (begin_claim c R) d = inFlightAt R d + (if (cl_destinationKind c, cl_destinationId c) = d then 1 else 0)"
    by (auto simp: begin_claim_def inFlightAt_def Let_def update_conv')
  have len: "length (AList.update k v xs) \<le> Suc (length xs)" for k :: "nat \<times> int" and v xs by (induction xs) auto
  have "length (ro_inFlight (begin_claim c R)) \<le> Suc (length (ro_inFlight R))" using len by (simp add: begin_claim_def Let_def)
  then show ?case using Cons.IH[of "begin_claim c R"] one by auto
qed simp

text \<open>
  C40. The role keeps its limits: a claim round, whatever the store has due and however far it gets, leaves
  at most \<open>concurrency\<close> attempts in flight, and at most \<open>maxInFlightPerDestination\<close> at any destination.
\<close>

theorem role_keeps_its_limits:
  assumes "keys_ok D" and "0 \<le> ds_maxInFlightPerDestination s" and "\<forall>d. int (inFlightAt R d) \<le> ds_maxInFlightPerDestination s"
    and "int (length (ro_inFlight R)) \<le> ds_concurrency s" and "claim_round s kinds held now stopped R D \<in> {RoundOver R' D', RoundAgain R' D', RoundFailed R'}"
  shows "(\<forall>d. int (inFlightAt R' d) \<le> ds_maxInFlightPerDestination s) \<and> int (length (ro_inFlight R')) \<le> ds_concurrency s"
proof -
  let ?R1 = "R\<lparr>ro_rotation := (ro_rotation R + 1) mod MAX_SAFE_INTEGER\<rparr>"
  have same: "inFlightAt ?R1 d = inFlightAt R d" for d by (simp add: inFlightAt_def)
  show ?thesis
  proof (cases "R' = R \<or> R' = ?R1")
    case True
    then show ?thesis using assms(3,4) same by auto
  next
    case False
    then obtain due cs where due: "dueDestinations kinds now D = Inr due"
      and cs: "claim_deliveries held (picks_of (round_picks s R due)) now (ds_leaseMs s) (ds_maxAttempts s) D = Inr (cs, D')" and R': "R' = fold begin_claim cs ?R1"
      using assms(5) unfolding claim_round_def Let_def by (auto split: if_splits sum.splits prod.splits)
    let ?ps = "round_picks s R due" and ?o = "open_destinations s R due"
    let ?free = "nat (ds_concurrency s - int (length (ro_inFlight R)))"
    have dd: "distinct due" using dueDestinations_spec[OF due] by blast
    have keys: "sum_list (map snd ?ps) \<le> ?free \<and> fst ` set ?ps \<subseteq> set ?o \<and> distinct (map fst ?ps)"
    proof (cases "?o = []")
      case False
      then show ?thesis
        using keys_after_allot[of "nat (ds_maxInFlightPerDestination s)" "inFlightAt R" "rotate_from (nat (ro_rotation R mod int (length ?o))) ?o" "[]" ?free]
        by (simp add: round_picks_def Let_def set_rotate_from)
    qed (simp add: round_picks_def Let_def)
    have "int (inFlightAt R' d) \<le> ds_maxInFlightPerDestination s" for d
    proof -
      have c: "inFlightAt R' d \<le> inFlightAt R d + pick_limit ?ps d"
        using begin_claims[of cs ?R1 d] claim_counts(1)[OF assms(1) _ cs, of d] keys same[of d] by (simp add: R')
      show ?thesis
      proof (cases "d \<in> set ?o")
        case True
        then have "pick_limit ?ps d \<le> room (nat (ds_maxInFlightPerDestination s)) (inFlightAt R) d" using round_picks_fair[OF dd] by blast
        moreover have "int (inFlightAt R d) \<le> ds_maxInFlightPerDestination s" using assms(3) by blast
        ultimately show ?thesis using c assms(2) unfolding room_def by linarith
      next
        case False
        then have "map_of ?ps d = None" using keys by (auto simp: map_of_eq_None_iff)
        then have "inFlightAt R' d \<le> inFlightAt R d" using c by (simp add: pick_limit_def)
        then show ?thesis using assms(3) by (meson of_nat_mono order_trans)
      qed
    qed
    moreover have "int (length (ro_inFlight R')) \<le> ds_concurrency s"
    proof -
      have "length (ro_inFlight R') \<le> length (ro_inFlight R) + length cs" using begin_claims[of cs ?R1] by (simp add: R')
      moreover have "length cs \<le> ?free" using claim_counts(2)[OF assms(1) _ cs] keys by linarith
      ultimately show ?thesis using assms(4) by linarith
    qed
    ultimately show ?thesis by blast
  qed
qed

theorem role_keeps_its_limits_witness:
  "\<exists>R' D'. claim_round DEFAULT_DELIVERY_SETTINGS [''webhook''] {} 5 False \<lparr>ro_inFlight = [], ro_perDestination = [], ro_rotation = 0\<rparr>
        (demo_db (demo_end 5) None [demo_delivery]) \<in> {RoundOver R' D', RoundAgain R' D', RoundFailed R'}
     \<and> inFlightAt R' (''webhook'', ''d1'') \<le> 2 \<and> length (ro_inFlight R') \<le> 10"
proof -
  let ?R = "\<lparr>ro_inFlight = [], ro_perDestination = [], ro_rotation = 0\<rparr>" and ?D = "demo_db (demo_end 5) None [demo_delivery]"
  obtain R' D' where e: "claim_round DEFAULT_DELIVERY_SETTINGS [''webhook''] {} 5 False ?R ?D \<in> {RoundOver R' D', RoundAgain R' D', RoundFailed R'}"
    by (cases "claim_round DEFAULT_DELIVERY_SETTINGS [''webhook''] {} 5 False ?R ?D") auto
  have k: "keys_ok ?D" by (simp add: keys_ok_def demo_db_def unique_on_def)
  have l: "ds_maxInFlightPerDestination DEFAULT_DELIVERY_SETTINGS = 2" "ds_concurrency DEFAULT_DELIVERY_SETTINGS = 10" by (simp_all add: DEFAULT_DELIVERY_SETTINGS_def)
  have "\<forall>d. int (inFlightAt ?R d) \<le> ds_maxInFlightPerDestination DEFAULT_DELIVERY_SETTINGS" by (simp add: inFlightAt_def l)
  then have "(\<forall>d. int (inFlightAt R' d) \<le> 2) \<and> int (length (ro_inFlight R')) \<le> 10"
    using role_keeps_its_limits[OF k _ _ _ e] by (simp add: l)
  then show ?thesis using e by (intro exI[of _ R'] exI[of _ D']) (auto dest: spec[of _ "(''webhook'', ''d1'')"])
qed

end
