(* ===== verification/Spec2Isabelle.thy ===== *)
theory Spec2Isabelle
  imports Failure_Ladder Send_Caps Round_Limit_Bounds Totp Recovery_Codes Refresh_Locks Token_Endpoint Session_Cache Delivery_Role
begin

text \<open>
  Verification development of the qauth authorization server.

  \<^bold>\<open>The program.\<close> qauth is an OAuth 2.1 and OpenID Connect authorization server in TypeScript (Fastify,
  PostgreSQL through Drizzle, Redis). \<open>apps/auth-server\<close> holds the HTTP routes and their helpers;
  \<open>libs/server\<close> the transport-free rules (the sign-in engine, sessions, keys, federation);
  \<open>libs/fastify/plugins\<close> the stores and services those rules run on; \<open>libs/infra/db\<close> the tables and their
  repositories. A sign-in answers steps of the engine under three kinds of limits kept in Redis: the
  failure ladder of an account and a factor, the caps on mails sent, and the limits on the rounds of
  an address or a client. What it ends in is an authorization code, which the token endpoint redeems
  for an access token and, where a consent stands, a refresh token, whose family it rotates and, on a
  replay, ends. The browser keeps a session, a row of PostgreSQL behind a cache in Redis, under which the
  codes are issued. Scopes, reserved audiences and admin grants decide what a token may carry. What happens is
  written as events in the same transactions: one append-only table that is outbox and log, with a hash chain
  over a realm's admin events; the delivery role fans it out to destinations and delivers at least once, and
  retention deletes what every destination has finished.

  \<^bold>\<open>The theories,\<close> and the code each models (paths under \<open>src/\<close>):

  \<^item> \<open>Prelude\<close>: JavaScript numbers and strings as the code uses them, key parts, sums, order
    statistics, and the theorem collections of the component theories.
  \<^item> \<open>Redis\<close>: the Redis commands as a record of operations on an unknown store; the locale
    \<open>redis_store\<close> states their documented laws, and its interpretation \<open>mem_redis\<close> shows that an
    in-memory store satisfies them. \<open>Sliding_Log\<close>: sorted sets of times as sliding windows.
  \<^item> \<open>Ladder\<close>, \<open>Failure_Ladder\<close>: the waits after failed answers
    (\<open>libs/server/sign-in-engine/src/lib/ladder.ts\<close>,
    \<open>libs/fastify/plugins/sign-in-engine/src/lib/failure-ladder.ts\<close>).
  \<^item> \<open>Send_Caps\<close>: the caps on mails (\<open>send-caps.ts\<close> in both directories).
  \<^item> \<open>Ip_Bucket\<close>, \<open>Round_Limits\<close>, \<open>Round_Limit_Bounds\<close>: the limits on rounds (\<open>round-limits.ts\<close> in both).
  \<^item> \<open>Table\<close>: a database table and the statements over it. \<open>User_Credentials\<close>, \<open>Users\<close>:
    \<open>user-credentials.repository.ts\<close>, \<open>users.repository.ts\<close> and \<open>helpers/account-validity.ts\<close>.
  \<^item> \<open>Base32\<close>, \<open>Totp\<close>, \<open>Recovery_Codes\<close>: the second factors (\<open>totp.ts\<close>, \<open>recovery-codes.ts\<close> in both
    directories and \<open>user-recovery-codes.repository.ts\<close>).
  \<^item> \<open>Scopes\<close>, \<open>Admin_Authority\<close>: what a client may ask for and who administers what (\<open>scope-modes.ts\<close>,
    \<open>client-auth.ts\<close>, \<open>admin-permissions.ts\<close>, \<open>admin-roles.ts\<close>, \<open>admin-authority.ts\<close>,
    \<open>admin-issuance.ts\<close> and the two admin repositories).
  \<^item> \<open>Authorization_Codes\<close>, \<open>Refresh_Tokens\<close>, \<open>Refresh_Locks\<close>: the two token tables, and the
    refresh tokens again as interleaved transactions under their advisory locks.
  \<^item> \<open>Consents\<close>: the stored consents, the rules of the consent screen, the first-party profile and the
    step-up decision. \<open>Token_Endpoint\<close>: the code and refresh grants of \<open>routes/oauth/token.ts\<close>.
  \<^item> \<open>Sessions\<close>: the tables of browser sessions (\<open>sessions.repository.ts\<close>) and the minting of codes
    under them (\<open>helpers/authorization-code.ts\<close>). \<open>Batches\<close>: the loops that end or delete sessions in
    batches of ids; the locale \<open>id_batches\<close> states what a batch promises and proves once that the loop
    ends and reaches every row. \<open>Session_Service\<close>: the service (\<open>libs/server/sessions\<close>). \<open>Session_Cache\<close>:
    its reads on several nodes over the cache; the locale \<open>kv_store\<close> states the Redis commands it uses.
  \<^item> \<open>Positions\<close>, \<open>Event_Log\<close>, \<open>Event_Chain\<close>, \<open>Event_Stream\<close>: the event store
    (\<open>libs/infra/db/src/lib/events/position.ts\<close>, \<open>chain.ts\<close>, \<open>events.repository.ts\<close>): its table with the
    transactions that write it, the hash chain, and the reading of a stream; the locale \<open>page_reader\<close> states what
    a page promises and proves once that following the positions misses nothing, for the readers and the fan-out.
  \<^item> \<open>Event_Delivery\<close>, \<open>Delivery_Queue\<close>, \<open>Delivery_Rounds\<close>: the queue of deliveries
    (\<open>event-deliveries.repository.ts\<close>), as operations and as a step relation over the database.
    \<open>Delivery_Retention\<close>: the position every destination has finished, and the batches deleted up to it
    (\<open>event-retention.repository.ts\<close>). \<open>Delivery_Role\<close>: the worker (\<open>libs/server/event-delivery\<close>).

  \<^bold>\<open>How the code is modelled.\<close> A Lua script is a function of the Redis record and the store, each call
  that changes the store included; Redis runs a script alone, so an interleaving of requests is a
  sequence of scripts and expiries. A repository operation is one statement on a list of rows and
  answers an error or the rows; \<open>Refresh_Locks\<close> splits the statements of \<open>refresh-tokens.repository.ts\<close>
  into what PostgreSQL does at READ COMMITTED, row by row. In the event store a row is its transaction's own
  until that commits, and the read horizon is the oldest transaction in progress; a page of the fan-out, a
  claim and a record are one step each, under the stream's lock or as one statement. The tickets of
  \<open>Delivery_Queue\<close> are ghost state: they say which claim a row belongs to and no operation reads them.
  A handler returns an error or a response
  with the state it leaves, and its checks and its transaction are two functions, so that other
  requests may run in between. Times are integers (\<open>ms\<close>), Lua and JavaScript numbers are
  integers with the bounds the code checks (\<open>whole\<close>), the retry schedule computes with exact fractions and not
  with doubles, base32's shift buffer is a 32-bit word. Code
  outside the repository (Redis, the database's ids, the clock, random sources, HMAC, SHA-256, ciphers, the
  password hasher, the URL parser, the signer, canonical JSON) is an argument, and the registry of event types is one too.

  \<^bold>\<open>What is proved.\<close> For each limiter: that every script implements the rules on the abstract counter or
  log, and that in every run, whatever interleaves and expires, the bound the policy states holds
  (waits before the ceiling, mails and rounds per window), with the check of a policy shown to be what
  those bounds need. For the factors: no TOTP step and no recovery code is accepted twice in any
  interleaving, the matcher accepts exactly the fresh codes, codes and secrets read back. For
  accounts and admins: a credential issued before a disablement never counts again; every permission
  comes from a live grant. For the grants: a consent covers exactly what was granted since the last
  revocation; a code is redeemed once; a replay ends what was issued; a refresh widens nothing; a
  revoked family stays revoked under every interleaving of its transactions, except through the
  sign-out of all a user's tokens, for which a run that leaves a live child is shown. For sessions: the
  tables stay well formed and an ended session never comes back; a sign-out of a realm returns and
  reaches every session it was asked for; a read served with an ended session is bounded in time by the
  cache. For events: the admin events of a realm verify as one chain in every interleaving, and a head kept
  outside fixes the history; a reader and the fan-out miss no event, however late its transaction commits; a
  claim is fenced by its attempt number; retention deletes nothing a destination waits for, except behind a
  stream that starts with a backfill, for which such a run is shown; the role shares its slots fairly, keeps
  its limits, and records only what the store accepts.

  \<^bold>\<open>Bounds and fuel.\<close> No definition of the model runs on fuel except the draw of a recovery set, which
  has the bound of twenty draws the code has. Loops are structural or have a measure; the batch
  loops of the sessions are partial functions, shown to return when finitely many ids can come under them.

  \<^bold>\<open>Not modelled.\<close> The state machine of the sign-in engine itself, federation, upstream
  OIDC, WebAuthn, keys, the routes of the delivery role (webhooks, SSF streams), its timer and its stop, realm
  policies, the HTTP layer with its schemas and rate limits,
  mail, and the portals: each is listed in the manifest with the reason. In the modelled parts the log
  lines, the metrics, the e-mail and profile claims of a token and the reconnects of the Redis client
  are left out. PostgreSQL's deadlock detection is not modelled: it only aborts transactions.
\<close>

end
